(* ===== verification/Prelude.thy ===== *)
theory Prelude
  imports Complex_Main "HOL-Library.Word" "HOL-Library.AList" "HOL-Library.Multiset"
begin

text \<open>
  Shared vocabulary of the development: how JavaScript values are represented, the laws of the
  insertion-ordered \<^verbatim>\<open>Map\<close>, and the contracts (locales) that several components
  of the frontend promise to their clients.

  \<^item> A JavaScript string is the list of its UTF-16 code units (\<open>ustring\<close>); a source
    literal is written \<open>js ''abc''\<close>, a literal outside ASCII as the list of its units.
  \<^item> A JavaScript number is an integer (\<open>nat\<close>, \<open>int\<close>) where the code only counts, a
    word where the code works on bits, and otherwise a \<open>jsnum\<close>: an exact real or one of
    the three values \<^verbatim>\<open>Number.isFinite\<close> rejects. Rounding of doubles is not
    modelled.
  \<^item> A \<^verbatim>\<open>Map\<close> keeps its keys in insertion order; storing under a key that is
    present keeps the position. This is exactly \<open>AList.update\<close> and \<open>AList.delete\<close>.
\<close>

named_theorems omap_simps \<open>equations of the insertion-ordered map\<close>
named_theorems inv_intros \<open>operations that keep an invariant\<close>

section \<open>JavaScript values\<close>

type_synonym ustring = "nat list"

definition js :: "string \<Rightarrow> ustring" where
  "js s = map of_char s"

datatype jsnum = Fin real | PosInf | NegInf | NaN

fun isFinite :: "jsnum \<Rightarrow> bool" where
  "isFinite (Fin _) = True"
| "isFinite _ = False"

fun fin :: "jsnum \<Rightarrow> real" where
  "fin (Fin r) = r"
| "fin _ = 0"

lemma js_eq_iff [simp]: "js s = js t \<longleftrightarrow> s = t"
  unfolding js_def by (rule inj_map_eq_map) (simp add: inj_on_def)

lemma js_Nil_iff [simp]: "js s = [] \<longleftrightarrow> s = []" "[] = js s \<longleftrightarrow> s = []"
  by (auto simp: js_def)

text \<open>The white space of \<^verbatim>\<open>trim\<close> and of \<^verbatim>\<open>\s\<close> in a regular expression, and decimal digits.\<close>

definition is_space :: "nat \<Rightarrow> bool" where
  "is_space c \<longleftrightarrow> c \<in> {9, 10, 11, 12, 13, 32, 160, 5760, 8232, 8233, 8239, 8287, 12288, 65279}
     \<or> 8192 \<le> c \<and> c \<le> 8202"

definition is_digit :: "nat \<Rightarrow> bool" where
  "is_digit c \<longleftrightarrow> 48 \<le> c \<and> c \<le> 57"

definition trim :: "ustring \<Rightarrow> ustring" where
  "trim s = rev (dropWhile is_space (rev (dropWhile is_space s)))"

lemma trim_Nil [simp]: "trim [] = []"
  by (simp add: trim_def)

lemma trim_no_space_ends:
  "trim s \<noteq> [] \<Longrightarrow> \<not> is_space (hd (trim s)) \<and> \<not> is_space (last (trim s))"
proof -
  assume ne: "trim s \<noteq> []"
  let ?t = "dropWhile is_space s"
  have last: "\<not> is_space (last (trim s))"
    using ne hd_dropWhile [of is_space "rev ?t"] by (simp add: trim_def last_rev)
  have "?t \<noteq> []" using ne by (auto simp: trim_def simp del: dropWhile_eq_Nil_conv)
  then have "\<not> is_space (hd ?t)" by (rule hd_dropWhile)
  moreover have "\<exists>u. ?t = trim s @ u"
    by (metis rev_append rev_rev_ident takeWhile_dropWhile_id trim_def)
  ultimately show ?thesis using last ne by (metis hd_append2)
qed

lemma dropWhile_hd_id: "xs \<noteq> [] \<Longrightarrow> \<not> P (hd xs) \<Longrightarrow> dropWhile P xs = xs"
  by (cases xs) auto

lemma trim_id: "s \<noteq> [] \<Longrightarrow> \<not> is_space (hd s) \<Longrightarrow> \<not> is_space (last s) \<Longrightarrow> trim s = s"
  by (simp add: trim_def dropWhile_hd_id last_rev hd_rev)

lemma trim_idem [simp]: "trim (trim s) = trim s"
  using trim_no_space_ends [of s] trim_id [of "trim s"] by (cases "trim s = []") auto

text \<open>\<^verbatim>\<open>s.startsWith(p)\<close>, \<^verbatim>\<open>s.endsWith(p)\<close> and
  \<^verbatim>\<open>xs.slice(0, n)\<close> on lists of code units.\<close>

definition startsWith :: "'a list \<Rightarrow> 'a list \<Rightarrow> bool" where
  "startsWith s p \<longleftrightarrow> take (length p) s = p"

definition endsWith :: "'a list \<Rightarrow> 'a list \<Rightarrow> bool" where
  "endsWith s p \<longleftrightarrow> length p \<le> length s \<and> drop (length s - length p) s = p"

lemma startsWith_append [simp]: "startsWith (p @ s) p"
  by (simp add: startsWith_def)

lemma startsWith_iff: "startsWith s p \<longleftrightarrow> (\<exists>t. s = p @ t)"
  by (metis append_take_drop_id startsWith_append startsWith_def)

text \<open>Decimal numerals: \<^verbatim>\<open>Number\<close> on a digit string and the string of a natural number.\<close>

definition digits_value :: "ustring \<Rightarrow> nat" where
  "digits_value s = foldl (\<lambda>n c. 10 * n + (c - 48)) 0 s"

fun dec :: "nat \<Rightarrow> ustring" where
  "dec n = (if n < 10 then [48 + n] else dec (n div 10) @ [48 + n mod 10])"

declare dec.simps [simp del]

lemma digits_value_snoc [simp]: "digits_value (s @ [c]) = 10 * digits_value s + (c - 48)"
  by (simp add: digits_value_def)

lemma digits_value_dec [simp]: "digits_value (dec n) = n"
proof (induction n rule: dec.induct)
  case (1 n)
  then show ?case by (subst dec.simps) (simp add: digits_value_def)
qed

lemma dec_inj [simp]: "dec m = dec n \<longleftrightarrow> m = n"
  by (metis digits_value_dec)

lemma dec_digits: "list_all is_digit (dec n)"
proof (induction n rule: dec.induct)
  case (1 n)
  then show ?case by (subst dec.simps) (auto simp: list_all_iff is_digit_def)
qed

abbreviation units :: "ustring \<Rightarrow> bool" where
  "units s \<equiv> list_all (\<lambda>u. u < 65536) s"

section \<open>The insertion-ordered Map\<close>

type_synonym ('k, 'v) omap = "('k \<times> 'v) list"

abbreviation mapGet :: "('k, 'v) omap \<Rightarrow> 'k \<Rightarrow> 'v option" where
  "mapGet m k \<equiv> map_of m k"

abbreviation mapSet :: "'k \<Rightarrow> 'v \<Rightarrow> ('k, 'v) omap \<Rightarrow> ('k, 'v) omap" where
  "mapSet k v m \<equiv> AList.update k v m"

abbreviation mapDelete :: "'k \<Rightarrow> ('k, 'v) omap \<Rightarrow> ('k, 'v) omap" where
  "mapDelete k m \<equiv> AList.delete k m"

definition mapHas :: "('k, 'v) omap \<Rightarrow> 'k \<Rightarrow> bool" where
  "mapHas m k \<longleftrightarrow> map_of m k \<noteq> None"

definition wf_map :: "('k, 'v) omap \<Rightarrow> bool" where
  "wf_map m \<longleftrightarrow> distinct (map fst m)"

lemma mapGet_set [omap_simps, simp]:
  "mapGet (mapSet k v m) k' = (if k' = k then Some v else mapGet m k')"
  by (simp add: update_conv')

lemma mapGet_delete [omap_simps, simp]:
  "mapGet (mapDelete k m) k' = (if k' = k then None else mapGet m k')"
  by (auto simp: delete_conv' )

lemma mapHas_keys [omap_simps]: "mapHas m k \<longleftrightarrow> k \<in> fst ` set m"
  by (auto simp: mapHas_def map_of_eq_None_iff)

lemma mapHas_set [omap_simps, simp]: "mapHas (mapSet k v m) k' \<longleftrightarrow> k' = k \<or> mapHas m k'"
  by (simp add: mapHas_def)

lemma mapHas_delete [omap_simps, simp]: "mapHas (mapDelete k m) k' \<longleftrightarrow> k' \<noteq> k \<and> mapHas m k'"
  by (simp add: mapHas_def)

lemma wf_map_Nil [inv_intros, simp]: "wf_map []"
  by (simp add: wf_map_def)

lemma wf_map_set [inv_intros, simp]: "wf_map m \<Longrightarrow> wf_map (mapSet k v m)"
  by (simp add: wf_map_def distinct_update)

lemma wf_map_delete [inv_intros, simp]: "wf_map m \<Longrightarrow> wf_map (mapDelete k m)"
  by (simp add: wf_map_def distinct_delete)

lemma mapSet_fresh [omap_simps]: "\<not> mapHas m k \<Longrightarrow> mapSet k v m = m @ [(k, v)]"
  by (induction m) (auto simp: mapHas_keys)

lemma mapSet_move_end: "mapSet k v (mapDelete k m) = mapDelete k m @ [(k, v)]"
  by (simp add: mapSet_fresh)

lemma keys_delete: "map fst (mapDelete k m) = filter (\<lambda>k'. k' \<noteq> k) (map fst m)"
  by (induction m) auto

lemma mapDelete_fresh [omap_simps]: "\<not> mapHas m k \<Longrightarrow> mapDelete k m = m"
  by (induction m) (auto simp: mapHas_keys)

lemma mapDelete_hd:
  assumes "wf_map (p # m)"
  shows "mapDelete (fst p) (p # m) = m"
  using assms mapDelete_fresh [of m "fst p"] by (cases p) (simp add: wf_map_def mapHas_keys)

lemma mset_delete:
  assumes "wf_map m" and "mapGet m k = Some v"
  shows "mset m = add_mset (k, v) (mset (mapDelete k m))"
  using assms
proof (induction m)
  case (Cons p m)
  obtain a b where p: "p = (a, b)" by (cases p)
  show ?case
  proof (cases "a = k")
    case True
    with Cons.prems p have "b = v" and "\<not> mapHas m k" by (auto simp: wf_map_def mapHas_keys)
    with True p show ?thesis by (simp add: mapDelete_fresh)
  next
    case False
    with Cons p show ?thesis by (auto simp: wf_map_def add_mset_commute)
  qed
qed simp

lemma filter_neq_id [simp]: "k \<notin> set xs \<Longrightarrow> filter (\<lambda>x. x \<noteq> k) xs = xs"
  by (induction xs) auto

lemma deleted_key: "(k, v) \<notin> set (mapDelete k m)"
  by (induction m) auto

lemma wf_map_snoc: "wf_map m \<Longrightarrow> wf_map (mapDelete k m @ [(k, v)])"
  by (auto simp: wf_map_def keys_delete)

lemma wf_map_tl [inv_intros]: "wf_map m \<Longrightarrow> wf_map (tl m)"
  by (simp add: wf_map_def map_tl distinct_tl)

lemma mapGet_tl: "wf_map (p # m) \<Longrightarrow> k \<noteq> fst p \<Longrightarrow> mapGet m k = mapGet (p # m) k"
  by (cases p) auto

lemmas omap_order = mapSet_fresh mapSet_move_end mapDelete_fresh keys_delete

section \<open>The values present in a list of options\<close>

definition somes :: "'a option list \<Rightarrow> 'a list" where
  "somes xs = concat (map (\<lambda>x. case x of Some y \<Rightarrow> [y] | None \<Rightarrow> []) xs)"

lemma somes_cong [fundef_cong]:
  "xs = ys \<Longrightarrow> (\<And>y. y \<in> set ys \<Longrightarrow> f y = g y) \<Longrightarrow> somes (map f xs) = somes (map g ys)"
  by (simp add: somes_def cong: map_cong)

section \<open>Contracts shared by several components\<close>

text \<open>
  A cache of bounded size that owns releasable resources (a \<^verbatim>\<open>release\<close> callback
  in \<^verbatim>\<open>tts.ts\<close>, an object URL in \<^verbatim>\<open>useCoverUrl.ts\<close>). Its promise: after every
  insertion at most \<open>cap\<close> entries are kept, the new entry is readable, and a resource that was
  handed over is either still held or has been freed, never both and never lost.
\<close>

locale resource_cache =
  fixes inv :: "'c \<Rightarrow> bool"
    and cap :: nat
    and size :: "'c \<Rightarrow> nat"
    and look :: "'c \<Rightarrow> 'k \<Rightarrow> 'v option"
    and held :: "'c \<Rightarrow> 'r multiset"
    and freed :: "'c \<Rightarrow> 'r multiset"
    and put :: "'k \<Rightarrow> 'v \<Rightarrow> 'r \<Rightarrow> 'c \<Rightarrow> 'c"
    and ok :: "'k \<Rightarrow> 'v \<Rightarrow> 'r \<Rightarrow> bool"
  assumes put_inv: "inv c \<Longrightarrow> ok k v r \<Longrightarrow> inv (put k v r c)"
    and inv_size: "inv c \<Longrightarrow> size c \<le> cap"
    and put_look: "inv c \<Longrightarrow> ok k v r \<Longrightarrow> look (put k v r c) k = Some v"
    and put_ledger: "inv c \<Longrightarrow> ok k v r \<Longrightarrow> r \<notin># held c + freed c \<Longrightarrow>
      held (put k v r c) + freed (put k v r c) = add_mset r (held c + freed c)"
begin

fun puts :: "('k \<times> 'v \<times> 'r) list \<Rightarrow> 'c \<Rightarrow> 'c" where
  "puts [] c = c"
| "puts ((k, v, r) # xs) c = puts xs (put k v r c)"

abbreviation all_ok :: "('k \<times> 'v \<times> 'r) list \<Rightarrow> bool" where
  "all_ok xs \<equiv> list_all (\<lambda>(k, v, r). ok k v r) xs"

abbreviation resources :: "('k \<times> 'v \<times> 'r) list \<Rightarrow> 'r list" where
  "resources xs \<equiv> map (\<lambda>(k, v, r). r) xs"

lemma puts_inv: "inv c \<Longrightarrow> all_ok xs \<Longrightarrow> inv (puts xs c)"
  by (induction xs c rule: puts.induct) (simp_all add: put_inv)

lemma puts_size: "inv c \<Longrightarrow> all_ok xs \<Longrightarrow> size (puts xs c) \<le> cap"
  by (rule inv_size) (rule puts_inv)

lemma puts_ledger:
  assumes "inv c" and "all_ok xs" and "distinct (resources xs)"
    and "set (resources xs) \<inter> set_mset (held c + freed c) = {}"
  shows "held (puts xs c) + freed (puts xs c) = held c + freed c + mset (resources xs)"
  using assms
proof (induction xs c rule: puts.induct)
  case (2 k v r xs c)
  have led: "held (put k v r c) + freed (put k v r c) = add_mset r (held c + freed c)"
    using "2.prems" by (intro put_ledger) auto
  have "set (resources xs) \<inter> set_mset (held (put k v r c) + freed (put k v r c)) = {}"
    unfolding led using "2.prems" by auto
  with 2 led show ?case by (simp add: put_inv)
qed simp

end

end
