(* ===== verification/Lru_Cache.thy ===== *)
theory Lru_Cache
  imports Prelude
begin

text \<open>
  The class \<^verbatim>\<open>LRUCache\<close> of \<^verbatim>\<open>frontend/src/lib/tts.ts\<close>: a \<^verbatim>\<open>Map\<close> whose insertion
  order is the order of last use. The \<^verbatim>\<open>release\<close> callbacks are names of type \<open>'r\<close>, and
  the cache record logs the ones that have been called. \<open>lru_run\<close> runs a sequence of calls.
  Shown here: the size bound, the read-after-write law, that each release callback is called at
  most once and exactly when its entry leaves the cache, and that the cache holds the keys most
  recently used.
\<close>

section \<open>The cache and its operations\<close>

record ('a, 'r) lru =
  cache :: "(ustring, 'a \<times> 'r option) omap"
  maxSize :: nat
  released :: "'r list"

definition lru_new :: "nat \<Rightarrow> ('a, 'r) lru" where
  "lru_new n = \<lparr>cache = [], maxSize = n, released = []\<rparr>"

text \<open>\<^verbatim>\<open>entry?.release?.()\<close>: calls the callback when there is one.\<close>

definition call_release :: "('a \<times> 'r option) option \<Rightarrow> ('a, 'r) lru \<Rightarrow> ('a, 'r) lru" where
  "call_release e c = (case e of Some (_, Some r) \<Rightarrow> c\<lparr>released := released c @ [r]\<rparr> | _ \<Rightarrow> c)"

definition lru_get :: "ustring \<Rightarrow> ('a, 'r) lru \<Rightarrow> 'a option \<times> ('a, 'r) lru" where
  "lru_get key c = (case mapGet (cache c) key of
     Some entry \<Rightarrow> (Some (fst entry), c\<lparr>cache := mapSet key entry (mapDelete key (cache c))\<rparr>)
   | None \<Rightarrow> (None, c))"

definition lru_replace :: "ustring \<Rightarrow> ('a, 'r) lru \<Rightarrow> ('a, 'r) lru" where
  "lru_replace key c = (if mapHas (cache c) key
     then (call_release (mapGet (cache c) key) c)\<lparr>cache := mapDelete key (cache c)\<rparr>
     else c)"

definition lru_evict :: "('a, 'r) lru \<Rightarrow> ('a, 'r) lru" where
  "lru_evict c = (if maxSize c < length (cache c)
     then (case cache c of
         (firstKey, entry) # _ \<Rightarrow>
           (call_release (Some entry) c)\<lparr>cache := mapDelete firstKey (cache c)\<rparr>
       | [] \<Rightarrow> c)
     else c)"

definition lru_set :: "ustring \<Rightarrow> 'a \<Rightarrow> 'r option \<Rightarrow> ('a, 'r) lru \<Rightarrow> ('a, 'r) lru" where
  "lru_set key v rel c =
     (let c1 = lru_replace key c in
      lru_evict (c1\<lparr>cache := mapSet key (v, rel) (cache c1)\<rparr>))"

definition lru_has :: "ustring \<Rightarrow> ('a, 'r) lru \<Rightarrow> bool" where
  "lru_has key c = mapHas (cache c) key"

definition lru_delete :: "ustring \<Rightarrow> ('a, 'r) lru \<Rightarrow> bool \<times> ('a, 'r) lru" where
  "lru_delete key c =
     (mapHas (cache c) key,
      (call_release (mapGet (cache c) key) c)\<lparr>cache := mapDelete key (cache c)\<rparr>)"

definition lru_clear :: "('a, 'r) lru \<Rightarrow> ('a, 'r) lru" where
  "lru_clear c = (fold (\<lambda>e. call_release (Some (snd e))) (cache c) c)\<lparr>cache := []\<rparr>"

definition lru_size :: "('a, 'r) lru \<Rightarrow> nat" where
  "lru_size c = length (cache c)"

datatype ('a, 'r) lru_call =
  Get ustring | Set ustring 'a "'r option" | Delete ustring | Clear

fun lru_step :: "('a, 'r) lru_call \<Rightarrow> ('a, 'r) lru \<Rightarrow> ('a, 'r) lru" where
  "lru_step (Get k) c = snd (lru_get k c)"
| "lru_step (Set k v rel) c = lru_set k v rel c"
| "lru_step (Delete k) c = snd (lru_delete k c)"
| "lru_step Clear c = lru_clear c"

definition lru_run :: "('a, 'r) lru_call list \<Rightarrow> ('a, 'r) lru \<Rightarrow> ('a, 'r) lru" where
  "lru_run cs c = fold lru_step cs c"

section \<open>Size and lookup\<close>

definition lru_inv :: "('a, 'r) lru \<Rightarrow> bool" where
  "lru_inv c \<longleftrightarrow> wf_map (cache c) \<and> length (cache c) \<le> maxSize c"

lemma call_release_fields [simp]:
  "cache (call_release e c) = cache c" "maxSize (call_release e c) = maxSize c"
  by (auto simp: call_release_def split: option.splits)

lemma fold_call_release_fields [simp]:
  "cache (fold (\<lambda>e. call_release (Some (snd e))) xs c) = cache c"
  "maxSize (fold (\<lambda>e. call_release (Some (snd e))) xs c) = maxSize c"
  by (induction xs arbitrary: c) auto

lemma cache_lru_replace: "cache (lru_replace key c) = mapDelete key (cache c)"
  by (simp add: lru_replace_def mapDelete_fresh)

lemma maxSize_lru_replace [simp]: "maxSize (lru_replace key c) = maxSize c"
  by (simp add: lru_replace_def)

lemma cache_lru_evict:
  "wf_map (cache c) \<Longrightarrow>
    cache (lru_evict c) = (if maxSize c < length (cache c) then tl (cache c) else cache c)"
  using mapDelete_hd by (auto simp: lru_evict_def split: list.splits)

lemma maxSize_lru_evict [simp]: "maxSize (lru_evict c) = maxSize c"
  by (auto simp: lru_evict_def split: list.splits)

lemma cache_lru_set:
  assumes "wf_map (cache c)"
  shows "cache (lru_set key v rel c) =
    (let m = mapDelete key (cache c) @ [(key, v, rel)] in if maxSize c < length m then tl m else m)"
proof -
  have "wf_map (mapSet key (v, rel) (mapDelete key (cache c)))" using assms by simp
  then show ?thesis
    by (simp add: lru_set_def Let_def cache_lru_replace cache_lru_evict mapSet_move_end)
qed

lemma cache_lru_get:
  "cache (snd (lru_get key c)) = (case mapGet (cache c) key of
     Some e \<Rightarrow> mapDelete key (cache c) @ [(key, e)] | None \<Rightarrow> cache c)"
  by (simp add: lru_get_def mapSet_move_end split: option.splits)

lemma length_delete_mem:
  assumes "mapGet m k = Some v" shows "Suc (length (mapDelete k m)) \<le> length m"
  using assms by (induction m) (auto split: if_splits simp: length_delete_le)

lemma maxSize_step [simp]: "maxSize (lru_step op c) = maxSize c"
  by (cases op) (auto simp: lru_get_def lru_set_def lru_delete_def lru_clear_def Let_def split: option.splits)

lemma lru_step_inv [inv_intros]:
  assumes "lru_inv c" shows "lru_inv (lru_step op c)"
proof (cases op)
  case (Get k)
  with assms show ?thesis
    using length_delete_mem [of "cache c" k] maxSize_step [of op c]
    by (fastforce simp: lru_inv_def cache_lru_get wf_map_def keys_delete split: option.splits)
next
  case (Set k v rel)
  with assms show ?thesis
    using length_delete_le [of k "cache c"] maxSize_step [of op c]
      wf_map_snoc [of "cache c" k "(v, rel)"] wf_map_tl [of "mapDelete k (cache c) @ [(k, v, rel)]"]
    by (auto simp: lru_inv_def cache_lru_set Let_def)
next
  case (Delete k)
  with assms show ?thesis
    using length_delete_le [of k "cache c"] by (auto simp: lru_inv_def lru_delete_def)
qed (simp add: lru_inv_def lru_clear_def)

lemma lru_run_inv [inv_intros]: "lru_inv c \<Longrightarrow> lru_inv (lru_run ops c)"
  unfolding lru_run_def by (induction ops arbitrary: c) (auto intro: lru_step_inv)

lemma maxSize_run [simp]: "maxSize (lru_run ops c) = maxSize c"
  unfolding lru_run_def by (induction ops arbitrary: c) auto

lemma lru_get_after_set:
  assumes "lru_inv c" and "0 < maxSize c"
  shows "fst (lru_get k (lru_set k v rel c)) = Some v"
proof -
  let ?m = "mapDelete k (cache c)"
  have get: "mapGet (?m @ [(k, v, rel)]) k = Some (v, rel)"
    by (simp add: map_of_append map_add_def)
  moreover have "mapGet (tl (?m @ [(k, v, rel)])) k = Some (v, rel)"
    if "maxSize c < length (?m @ [(k, v, rel)])"
  proof -
    have "?m \<noteq> []" using that assms(2) by auto
    then obtain p m where m: "?m = p # m" by (cases ?m) auto
    then have "fst p \<noteq> k" using deleted_key [of k _ "cache c"] by (cases p) (metis list.set_intros(1) fst_conv)
    then show ?thesis using get m by (cases p) auto
  qed
  ultimately have "mapGet (cache (lru_set k v rel c)) k = Some (v, rel)"
    using assms(1) by (auto simp: cache_lru_set Let_def lru_inv_def)
  then show ?thesis by (simp add: lru_get_def)
qed

section \<open>Release callbacks\<close>

fun rel_of :: "'a \<times> 'r option \<Rightarrow> 'r multiset" where
  "rel_of (_, None) = {#}"
| "rel_of (_, Some r) = {#r#}"

definition held_of :: "(ustring, 'a \<times> 'r option) omap \<Rightarrow> 'r multiset" where
  "held_of m = (\<Sum>e\<in>#mset m. rel_of (snd e))"

definition lru_held :: "('a, 'r) lru \<Rightarrow> 'r multiset" where
  "lru_held c = held_of (cache c)"

definition lru_freed :: "('a, 'r) lru \<Rightarrow> 'r multiset" where
  "lru_freed c = mset (released c)"

fun handed_over :: "('a, 'r) lru_call \<Rightarrow> 'r multiset" where
  "handed_over (Set _ _ (Some r)) = {#r#}"
| "handed_over _ = {#}"

lemma held_of_append [simp]: "held_of (m @ n) = held_of m + held_of n"
  by (simp add: held_of_def)

lemma held_of_Cons [simp]: "held_of (p # m) = rel_of (snd p) + held_of m"
  by (simp add: held_of_def)

lemma held_of_Nil [simp]: "held_of [] = {#}"
  by (simp add: held_of_def)

lemma held_of_delete:
  "wf_map m \<Longrightarrow> mapGet m k = Some e \<Longrightarrow> held_of m = rel_of e + held_of (mapDelete k m)"
  unfolding held_of_def by (subst mset_delete [of m k e]) auto

lemma freed_call_release [simp]:
  "lru_freed (call_release (Some e) c) = lru_freed c + rel_of e"
  "call_release None c = c"
  by (cases e rule: rel_of.cases; simp add: call_release_def lru_freed_def)+

lemma freed_cache_update [simp]: "lru_freed (c\<lparr>cache := m\<rparr>) = lru_freed c"
  by (simp add: lru_freed_def)

lemma freed_fold_release:
  "lru_freed (fold (\<lambda>e. call_release (Some (snd e))) xs c) = lru_freed c + held_of xs"
  by (induction xs arbitrary: c) (auto simp: ac_simps)

lemma freed_lru_replace:
  "wf_map (cache c) \<Longrightarrow> lru_freed (lru_replace k c) + held_of (mapDelete k (cache c)) = lru_freed c + lru_held c"
  using held_of_delete [of "cache c" k]
  by (auto simp: lru_replace_def lru_held_def mapHas_def mapDelete_fresh ac_simps)

lemma freed_lru_evict:
  "wf_map (cache c) \<Longrightarrow> lru_freed (lru_evict c) + lru_held (lru_evict c) = lru_freed c + lru_held c"
  using mapDelete_hd [of _ "tl (cache c)"]
  by (cases "cache c") (auto simp: lru_held_def cache_lru_evict lru_evict_def ac_simps)

lemma lru_step_ledger:
  assumes "lru_inv c"
  shows "lru_held (lru_step op c) + lru_freed (lru_step op c)
    = lru_held c + lru_freed c + handed_over op"
proof (cases op)
  case (Get k)
  with assms show ?thesis
    using held_of_delete [of "cache c" k]
    by (auto simp: lru_get_def lru_held_def lru_inv_def mapSet_move_end ac_simps split: option.splits)
next
  case (Set k v rel)
  let ?c = "(lru_replace k c)\<lparr>cache := mapSet k (v, rel) (cache (lru_replace k c))\<rparr>"
  have wf: "wf_map (cache c)" using assms by (simp add: lru_inv_def)
  then have "lru_held (lru_set k v rel c) + lru_freed (lru_set k v rel c) = lru_held ?c + lru_freed ?c"
    using freed_lru_evict [of ?c] by (simp add: lru_set_def Let_def cache_lru_replace ac_simps)
  also have "\<dots> = lru_held c + lru_freed c + rel_of (v, rel)"
    using freed_lru_replace [OF wf, of k]
    by (simp add: lru_held_def cache_lru_replace mapSet_move_end ac_simps)
  finally show ?thesis using Set by (cases rel) auto
next
  case (Delete k)
  with assms show ?thesis
    using held_of_delete [of "cache c" k]
    by (cases "mapGet (cache c) k")
      (auto simp: lru_delete_def lru_held_def lru_inv_def mapDelete_fresh mapHas_def ac_simps)
qed (simp add: lru_clear_def freed_fold_release lru_held_def ac_simps)

interpretation lru_resources: resource_cache
  "\<lambda>c. lru_inv c \<and> maxSize c = Suc n" "Suc n" lru_size "\<lambda>c k. fst (lru_get k c)"
  lru_held lru_freed "\<lambda>k v r. lru_set k v (Some r)" "\<lambda>_ _ _. True" for n
proof unfold_locales
  fix c :: "('a, 'b) lru" and k v r
  assume c: "lru_inv c \<and> maxSize c = Suc n"
  show "lru_inv (lru_set k v (Some r) c) \<and> maxSize (lru_set k v (Some r) c) = Suc n"
    using c lru_step_inv [of c "Set k v (Some r)"] maxSize_step [of "Set k v (Some r)" c] by simp
  show "fst (lru_get k (lru_set k v (Some r) c)) = Some v"
    using c by (simp add: lru_get_after_set)
  show "lru_held (lru_set k v (Some r) c) + lru_freed (lru_set k v (Some r) c)
      = add_mset r (lru_held c + lru_freed c)"
    using c lru_step_ledger [of c "Set k v (Some r)"] by simp
qed (auto simp: lru_inv_def lru_size_def)

section \<open>The order of eviction\<close>

text \<open>The keys a run has used, in order: the key of every store and of every read that hits.\<close>

fun lru_touches :: "('a, 'r) lru_call list \<Rightarrow> ('a, 'r) lru \<Rightarrow> ustring list" where
  "lru_touches [] c = []"
| "lru_touches (Get k # ops) c =
     (if mapHas (cache c) k then [k] else []) @ lru_touches ops (lru_step (Get k) c)"
| "lru_touches (Set k v rel # ops) c = k # lru_touches ops (lru_step (Set k v rel) c)"
| "lru_touches (op # ops) c = lru_touches ops (lru_step op c)"

fun is_use :: "('a, 'r) lru_call \<Rightarrow> bool" where
  "is_use (Get _) = True" | "is_use (Set _ _ _) = True" | "is_use _ = False"

definition lastN :: "nat \<Rightarrow> 'a list \<Rightarrow> 'a list" where
  "lastN n xs = drop (length xs - n) xs"

text \<open>\<open>remdups\<close> keeps the last occurrence of each key, so it lists the used keys by recency.\<close>

definition recent :: "nat \<Rightarrow> ustring list \<Rightarrow> ustring list" where
  "recent n ts = lastN n (remdups ts)"

lemma remdups_snoc: "remdups (xs @ [k]) = filter (\<lambda>x. x \<noteq> k) (remdups xs) @ [k]"
  by (induction xs) auto

lemma lastN_split:
  "length ys \<le> n \<Longrightarrow> lastN n (xs @ ys) = drop (length xs + length ys - n) xs @ ys"
  by (simp add: lastN_def)

lemma filter_lastN_mem:
  assumes "distinct xs" and "k \<in> set (lastN n xs)"
  shows "filter (\<lambda>x. x \<noteq> k) (lastN n xs) @ [k] = lastN n (filter (\<lambda>x. x \<noteq> k) xs @ [k])"
proof -
  have "k \<in> set xs" using assms(2) by (auto simp: lastN_def dest: in_set_dropD)
  then obtain as bs where xs: "xs = as @ k # bs" by (auto dest: split_list)
  have nk: "k \<notin> set as" "k \<notin> set bs" using assms(1) xs by auto
  have len: "length (k # bs) \<le> n"
  proof (rule ccontr)
    assume "\<not> length (k # bs) \<le> n"
    then have "lastN n xs = drop (length (k # bs) - n) (k # bs)" by (simp add: lastN_def xs)
    moreover have "k \<notin> set (drop (length (k # bs) - n) (k # bs))"
      using nk \<open>\<not> length (k # bs) \<le> n\<close> by (cases "length (k # bs) - n") (auto dest: in_set_dropD)
    ultimately show False using assms(2) by simp
  qed
  then have "lastN n xs = drop (length as + length (k # bs) - n) as @ k # bs"
    unfolding xs by (rule lastN_split)
  moreover have "lastN n (as @ bs @ [k]) = drop (length as + length (bs @ [k]) - n) as @ bs @ [k]"
    using len by (intro lastN_split) simp
  moreover have "k \<notin> set (drop i as)" for i using nk by (auto dest: in_set_dropD)
  ultimately show ?thesis using nk by (simp add: xs)
qed

lemma lastN_snoc: "0 < n \<Longrightarrow> lastN n (xs @ [k]) = lastN (n - 1) xs @ [k]"
  by (auto simp: lastN_def Suc_diff_le)

lemma tl_lastN: "0 < n \<Longrightarrow> n \<le> length xs \<Longrightarrow> tl (lastN n xs) = lastN (n - 1) xs"
  by (simp add: lastN_def tl_drop drop_Suc [symmetric] Suc_diff_le [symmetric])

lemma lastN_long: "n \<le> length ys \<Longrightarrow> lastN n (xs @ ys) = lastN n ys"
  by (simp add: lastN_def)

lemma length_lastN: "length (lastN n xs) = min n (length xs)"
  by (simp add: lastN_def)

lemma tl_snoc_lastN:
  assumes "0 < n"
  shows "(if n < length (lastN n xs @ [k]) then tl (lastN n xs @ [k]) else lastN n xs @ [k])
    = lastN (n - 1) xs @ [k]"
proof (cases "n \<le> length xs")
  case True
  with assms have "lastN n xs \<noteq> []" by (auto simp: lastN_def)
  with assms True show ?thesis by (simp add: tl_lastN length_lastN)
next
  case False
  then show ?thesis by (simp add: length_lastN) (simp add: lastN_def)
qed

lemma lastN_snoc_fresh:
  assumes "k \<notin> set (lastN n xs)" and "distinct xs" and "0 < n"
  shows "lastN n (filter (\<lambda>x. x \<noteq> k) xs @ [k]) = lastN (n - 1) xs @ [k]"
proof (cases "k \<in> set xs")
  case False
  with assms(3) show ?thesis by (simp add: lastN_snoc)
next
  case True
  then obtain as bs where xs: "xs = as @ k # bs" by (auto dest: split_list)
  have nk: "k \<notin> set as" "k \<notin> set bs" using assms(2) xs by auto
  have len: "n \<le> length bs"
    using assms(1) by (rule contrapos_np) (simp add: lastN_def xs)
  have f: "filter (\<lambda>x. x \<noteq> k) xs = as @ bs" using nk by (simp add: xs)
  have "lastN (n - 1) (as @ k # bs) = lastN (n - 1) bs"
    using lastN_long [of "n - 1" bs "as @ [k]"] len by simp
  moreover have "lastN (n - 1) (as @ bs) = lastN (n - 1) bs" using len by (intro lastN_long) simp
  ultimately show ?thesis using assms(3) by (simp only: f lastN_snoc) (simp add: xs)
qed

lemma lru_use_keys:
  assumes "lru_inv c" and "0 < maxSize c" and "is_use op"
    and "map fst (cache c) = recent (maxSize c) ts"
  shows "map fst (cache (lru_step op c)) = recent (maxSize c) (ts @ lru_touches [op] c)"
proof -
  let ?k = "map fst (cache c)"
  have hit: "filter (\<lambda>x. x \<noteq> k) ?k @ [k] = recent (maxSize c) (ts @ [k])" if "k \<in> set ?k" for k
    using that filter_lastN_mem [of "remdups ts" k "maxSize c"]
    by (simp add: assms(4) recent_def remdups_snoc)
  have miss: "(if maxSize c < length (?k @ [k]) then tl (?k @ [k]) else ?k @ [k])
      = recent (maxSize c) (ts @ [k])" if "k \<notin> set ?k" for k
    using that lastN_snoc_fresh [of k "maxSize c" "remdups ts"] assms(2)
    unfolding assms(4) recent_def tl_snoc_lastN [OF assms(2)] by (simp add: remdups_snoc)
  show ?thesis
  proof (cases op)
    case (Get k)
    show ?thesis
    proof (cases "mapGet (cache c) k")
      case None
      with Get show ?thesis using assms(4) by (simp add: cache_lru_get mapHas_def)
    next
      case (Some e)
      then have "k \<in> set ?k" by (force dest: map_of_SomeD)
      with Get Some show ?thesis using hit [of k] by (simp add: cache_lru_get mapHas_def keys_delete)
    qed
  next
    case (Set k v rel)
    have wf: "wf_map (cache c)" using assms(1) by (simp add: lru_inv_def)
    show ?thesis
    proof (cases "k \<in> set ?k")
      case True
      then obtain e where "mapGet (cache c) k = Some e" using wf by (auto simp: wf_map_def)
      then have "Suc (length (mapDelete k (cache c))) \<le> maxSize c"
        using length_delete_mem [of "cache c" k e] assms(1) by (simp add: lru_inv_def)
      with Set show ?thesis
        using hit [OF True] wf by (simp add: cache_lru_set Let_def keys_delete)
    next
      case False
      then have "mapDelete k (cache c) = cache c" by (intro mapDelete_fresh) (simp add: mapHas_keys)
      with Set show ?thesis
        using miss [OF False] wf by (simp add: cache_lru_set Let_def map_tl split: if_splits)
    qed
  qed (use assms(3) in auto)
qed

lemma lru_touches_Cons: "lru_touches (op # ops) c = lru_touches [op] c @ lru_touches ops (lru_step op c)"
  by (cases op) auto

lemma lru_run_keys:
  assumes "lru_inv c" and "0 < maxSize c" and "list_all is_use ops"
    and "map fst (cache c) = recent (maxSize c) ts"
  shows "map fst (cache (lru_run ops c)) = recent (maxSize c) (ts @ lru_touches ops c)"
  using assms
proof (induction ops arbitrary: c ts)
  case Nil
  then show ?case by (simp add: lru_run_def)
next
  case (Cons op ops)
  have "map fst (cache (lru_step op c)) = recent (maxSize c) (ts @ lru_touches [op] c)"
    using Cons.prems by (intro lru_use_keys) auto
  with Cons.prems have "map fst (cache (lru_run ops (lru_step op c)))
      = recent (maxSize c) ((ts @ lru_touches [op] c) @ lru_touches ops (lru_step op c))"
    using Cons.IH [of "lru_step op c" "ts @ lru_touches [op] c"] by (simp add: lru_step_inv)
  then show ?case by (simp add: lru_run_def lru_touches_Cons [of op ops])
qed

lemma lru_new_inv [simp]: "lru_inv (lru_new n)"
  by (simp add: lru_inv_def lru_new_def)

lemma lru_run_ledger:
  "lru_inv c \<Longrightarrow> lru_held (lru_run ops c) + lru_freed (lru_run ops c)
    = lru_held c + lru_freed c + (\<Sum>op\<leftarrow>ops. handed_over op)"
  unfolding lru_run_def
proof (induction ops arbitrary: c)
  case (Cons op ops)
  from Cons.IH [OF lru_step_inv [OF Cons.prems, of op]] lru_step_ledger [OF Cons.prems, of op]
  show ?case by (simp add: ac_simps)
qed simp

section \<open>Properties\<close>

text \<open>
  LRU order. Starting from an empty cache of capacity \<open>n\<close>, after any sequence of reads and
  stores the keys in the cache are the \<open>n\<close> keys used last, ordered by their last use: the entry that
  \<^verbatim>\<open>set\<close> evicts is always the least recently used one.
\<close>

lemma lru_keeps_most_recent:
  fixes ops :: "('a, 'r) lru_call list"
  assumes "0 < n" and "list_all is_use ops"
  shows "map fst (cache (lru_run ops (lru_new n))) = recent n (lru_touches ops (lru_new n))"
proof -
  have "map fst (cache (lru_run ops (lru_new n))) =
      recent (maxSize (lru_new n :: ('a, 'r) lru)) ([] @ lru_touches ops (lru_new n))"
    using assms by (intro lru_run_keys) (auto simp: lru_inv_def lru_new_def recent_def lastN_def)
  then show ?thesis by (simp add: lru_new_def)
qed

theorem lru_keeps_most_recent_witness:
  "map fst (cache (lru_run [Set (js ''a'') True None, Set (js ''b'') False (Some ()), Get (js ''a''),
      Set (js ''c'') True None] (lru_new 2))) = [js ''a'', js ''c'']"
proof -
  have "recent 2 (lru_touches [Set (js ''a'') True None, Set (js ''b'') False (Some ()), Get (js ''a''),
      Set (js ''c'') True None] (lru_new 2)) = [js ''a'', js ''c'']"
    by code_simp
  then show ?thesis
    using lru_keeps_most_recent [of 2 "[Set (js ''a'') True None, Set (js ''b'') False (Some ()),
      Get (js ''a''), Set (js ''c'') True None]"] by simp
qed

text \<open>
  \<^bold>\<open>C7\<close> (resource ledger and bound). After any sequence of calls on a fresh cache of capacity \<open>n\<close>, at
  most \<open>n\<close> entries are held, and the release callbacks handed to \<^verbatim>\<open>set\<close> are exactly
  the ones still held plus the ones already called: none is lost and none is called twice.
\<close>

theorem lru_release_ledger:
  "lru_size (lru_run ops (lru_new n)) \<le> n \<and>
   lru_held (lru_run ops (lru_new n)) + mset (released (lru_run ops (lru_new n)))
     = (\<Sum>op\<leftarrow>ops. handed_over op)"
  using lru_run_inv [OF lru_new_inv, of ops n] maxSize_run [of ops "lru_new n"]
    lru_run_ledger [OF lru_new_inv, of ops n]
  by (simp add: lru_inv_def lru_size_def lru_new_def lru_held_def lru_freed_def)

end
