(* ===== verification/Tts_Request.thy ===== *)
theory Tts_Request
  imports Prelude
begin

text \<open>
  \<^verbatim>\<open>frontend/src/lib/tts-request.ts\<close>: the classification of speech errors, the parser of
  \<^verbatim>\<open>Retry-After\<close>, and the retry loop around a speech request. A thrown value is a
  \<open>js_error\<close>; what a request, the abort signal and the timer do during one turn of the loop is an
  \<open>attempt\<close> of the environment, and the loop also returns the calls of \<^verbatim>\<open>onRetry\<close> and the
  number of requests it made. \<^verbatim>\<open>Date.parse\<close> is an argument.
\<close>

section \<open>Errors and their kinds\<close>

datatype TTSErrorKind =
  Cancelled | Timeout | Network | RateLimit | InvalidSsml | Unauthorized | Permission | Transient
  | Permanent

datatype js_error =
    TTSRequestError (er_status: nat) (er_code: "ustring option") (er_retryAfterMs: real)
  | NamedError ustring
  | OtherThrown

fun error_name :: "js_error \<Rightarrow> ustring" where
  "error_name (TTSRequestError _ _ _) = js ''TTSRequestError''"
| "error_name (NamedError n) = n"
| "error_name OtherThrown = []"

definition cancelled :: js_error where
  "cancelled = NamedError (js ''AbortError'')"

definition classifyTTSError :: "js_error \<Rightarrow> TTSErrorKind" where
  "classifyTTSError e =
    (let name = error_name e in
     if name = js ''AbortError'' then Cancelled
     else if name = js ''TimeoutError'' then Timeout
     else if name = js ''NotAllowedError'' then Permission
     else case e of
       TTSRequestError st c _ \<Rightarrow>
         (if st = 401 \<or> st = 403 then Unauthorized
          else if c = Some (js ''invalid_ssml'') \<and> st \<in> {400, 422} then InvalidSsml
          else if st = 429 then RateLimit
          else if st = 408 \<or> st = 504 then Timeout
          else if st \<in> {500, 502, 503} then Transient
          else Permanent)
     | _ \<Rightarrow> if name = js ''TypeError'' then Network else Permanent)"

section \<open>Retry-After\<close>

text \<open>\<^verbatim>\<open>/^\d+(?:\.\d+)?$/\<close> and \<^verbatim>\<open>Number\<close> on a text it matches.\<close>

definition is_decimal :: "ustring \<Rightarrow> bool" where
  "is_decimal s = (let ds = takeWhile is_digit s; rest = dropWhile is_digit s in
     ds \<noteq> [] \<and> (case rest of [] \<Rightarrow> True | c # fs \<Rightarrow> c = 46 \<and> fs \<noteq> [] \<and> list_all is_digit fs))"

definition decimal_value :: "ustring \<Rightarrow> real" where
  "decimal_value s = (let ds = takeWhile is_digit s; rest = dropWhile is_digit s in
     real (digits_value ds) +
       (case rest of [] \<Rightarrow> 0 | _ # fs \<Rightarrow> real (digits_value fs) / 10 ^ length fs))"

text \<open>\<^verbatim>\<open>/^[+-]?\d+(?:\.\d+)?$/\<close>\<close>

definition is_signed_decimal :: "ustring \<Rightarrow> bool" where
  "is_signed_decimal s = (case s of
     c # t \<Rightarrow> (if c = 43 \<or> c = 45 then is_decimal t else is_decimal s) | [] \<Rightarrow> False)"

definition parseTTSRetryAfter ::
  "(ustring \<Rightarrow> jsnum) \<Rightarrow> ustring option \<Rightarrow> real \<Rightarrow> real" where
  "parseTTSRetryAfter dateParse value now =
    (case value of
       None \<Rightarrow> 0
     | Some v \<Rightarrow>
        (if v = [] then 0
         else if is_decimal (trim v) then decimal_value (trim v) * 1000
         else if is_signed_decimal (trim v) then 0
         else (case dateParse v of Fin date \<Rightarrow> max 0 (date - now) | _ \<Rightarrow> 0)))"

section \<open>The retry loop\<close>

record 'a attempt =
  abortedBefore :: bool
  at_outcome :: "js_error + 'a"
  abortedAfter :: bool
  abortedWait :: bool

record retry_call =
  attemptNo :: nat
  delayMs :: real
  rc_kind :: TTSErrorKind

type_synonym 'a retry_result = "(js_error + 'a) \<times> retry_call list \<times> nat"

definition waitForRetry :: "'a attempt \<Rightarrow> js_error + unit" where
  "waitForRetry env = (if abortedWait env then Inl cancelled else Inr ())"

definition retryable :: "TTSErrorKind \<Rightarrow> bool" where
  "retryable k \<longleftrightarrow> k \<in> {Timeout, Network, RateLimit, Transient}"

definition retryDelay :: "nat \<Rightarrow> js_error \<Rightarrow> real" where
  "retryDelay attempt e =
    max (500 * 2 ^ attempt) (case e of TTSRequestError _ _ r \<Rightarrow> r | _ \<Rightarrow> 0)"

definition giveUp :: "nat \<Rightarrow> js_error \<Rightarrow> bool" where
  "giveUp attempt e \<longleftrightarrow>
    \<not> retryable (classifyTTSError e) \<or> 2 \<le> attempt \<or> 60000 < retryDelay attempt e"

definition retryEvent :: "nat \<Rightarrow> js_error \<Rightarrow> retry_call" where
  "retryEvent attempt e =
    \<lparr>attemptNo = attempt + 1, delayMs = retryDelay attempt e, rc_kind = classifyTTSError e\<rparr>"

function retryFrom :: "nat \<Rightarrow> (nat \<Rightarrow> 'a attempt) \<Rightarrow> 'a retry_result" where
  "retryFrom attempt env =
    (let e = env attempt in
     if abortedBefore e then (Inl cancelled, [], 0)
     else if abortedAfter e then (Inl cancelled, [], 1)
     else case at_outcome e of
       Inr result \<Rightarrow> (Inr result, [], 1)
     | Inl err \<Rightarrow>
        (if giveUp attempt err then (Inl err, [], 1)
         else case waitForRetry e of
           Inl c \<Rightarrow> (Inl c, [retryEvent attempt err], 1)
         | Inr _ \<Rightarrow>
            (case retryFrom (Suc attempt) env of
               (r, calls, n) \<Rightarrow> (r, retryEvent attempt err # calls, Suc n))))"
  by pat_completeness auto
termination
  by (relation "measure (\<lambda>(attempt, env). 3 - attempt)") (auto simp: giveUp_def)

declare retryFrom.simps [simp del]

definition retryTTSRequest :: "(nat \<Rightarrow> 'a attempt) \<Rightarrow> 'a retry_result" where
  "retryTTSRequest env = retryFrom 0 env"

section \<open>Lemmas\<close>

lemma classify_cancelled [simp]: "classifyTTSError cancelled = Cancelled"
  by (simp add: classifyTTSError_def cancelled_def)

lemma retryDelay_lower: "500 * 2 ^ attempt \<le> retryDelay attempt e"
  by (simp add: retryDelay_def)

lemma retryFrom_cases [consumes 1, case_names Aborted AbortedDuring Success GiveUp AbortedWaiting Again]:
  assumes "retryFrom a env = (r, calls, n)"
  obtains "abortedBefore (env a)" "r = Inl cancelled" "calls = []" "n = 0"
  | "\<not> abortedBefore (env a)" "abortedAfter (env a)" "r = Inl cancelled" "calls = []" "n = 1"
  | x where "\<not> abortedBefore (env a)" "\<not> abortedAfter (env a)" "at_outcome (env a) = Inr x" "r = Inr x"
      "calls = []" "n = 1"
  | e where "\<not> abortedBefore (env a)" "\<not> abortedAfter (env a)" "at_outcome (env a) = Inl e" "giveUp a e"
      "r = Inl e" "calls = []" "n = 1"
  | e where "\<not> abortedBefore (env a)" "\<not> abortedAfter (env a)" "at_outcome (env a) = Inl e" "\<not> giveUp a e"
      "abortedWait (env a)" "r = Inl cancelled" "calls = [retryEvent a e]" "n = 1"
  | e calls' n' where "\<not> abortedBefore (env a)" "\<not> abortedAfter (env a)" "at_outcome (env a) = Inl e"
      "\<not> giveUp a e" "\<not> abortedWait (env a)" "retryFrom (Suc a) env = (r, calls', n')"
      "calls = retryEvent a e # calls'" "n = Suc n'"
  using assms
  by (subst (asm) retryFrom.simps)
    (auto simp: Let_def waitForRetry_def split: if_splits sum.splits prod.splits)

lemma retryFrom_induct [consumes 1, case_names Aborted AbortedDuring Success GiveUp AbortedWaiting Again]:
  assumes "retryFrom a env = (r, calls, n)"
    and "\<And>a. abortedBefore (env a) \<Longrightarrow> P a (Inl cancelled) [] 0"
    and "\<And>a. \<not> abortedBefore (env a) \<Longrightarrow> abortedAfter (env a) \<Longrightarrow> P a (Inl cancelled) [] 1"
    and "\<And>a x. \<not> abortedBefore (env a) \<Longrightarrow> \<not> abortedAfter (env a) \<Longrightarrow> at_outcome (env a) = Inr x \<Longrightarrow>
      P a (Inr x) [] 1"
    and "\<And>a e. \<not> abortedBefore (env a) \<Longrightarrow> \<not> abortedAfter (env a) \<Longrightarrow> at_outcome (env a) = Inl e \<Longrightarrow>
      giveUp a e \<Longrightarrow> P a (Inl e) [] 1"
    and "\<And>a e. \<not> abortedBefore (env a) \<Longrightarrow> \<not> abortedAfter (env a) \<Longrightarrow> at_outcome (env a) = Inl e \<Longrightarrow>
      \<not> giveUp a e \<Longrightarrow> abortedWait (env a) \<Longrightarrow> P a (Inl cancelled) [retryEvent a e] 1"
    and "\<And>a e r calls n. \<not> abortedBefore (env a) \<Longrightarrow> \<not> abortedAfter (env a) \<Longrightarrow>
      at_outcome (env a) = Inl e \<Longrightarrow> \<not> giveUp a e \<Longrightarrow> \<not> abortedWait (env a) \<Longrightarrow> P (Suc a) r calls n \<Longrightarrow>
      P a r (retryEvent a e # calls) (Suc n)"
  shows "P a r calls n"
  using assms(1)
proof (induction "3 - a" arbitrary: a r calls n rule: less_induct)
  case less
  from less.prems show ?case
  proof (cases rule: retryFrom_cases)
    case (Again e calls' n')
    then have "3 - Suc a < 3 - a" unfolding giveUp_def by linarith
    from less.hyps [OF this Again(6)] Again show ?thesis by (auto intro: assms(7))
  qed (auto intro: assms(2-6) [simplified])
qed

text \<open>What one announced retry promises: it is numbered, its error is one worth retrying, and it waits
  at least the exponential back-off and the server's \<^verbatim>\<open>Retry-After\<close>, and at most a minute.\<close>

definition good_retry :: "(nat \<Rightarrow> 'a attempt) \<Rightarrow> nat \<Rightarrow> retry_call \<Rightarrow> bool" where
  "good_retry env i c \<longleftrightarrow> attemptNo c = i + 1 \<and> retryable (rc_kind c) \<and>
     500 * 2 ^ i \<le> delayMs c \<and> delayMs c \<le> 60000 \<and>
     (case at_outcome (env i) of
        Inl (TTSRequestError _ _ ra) \<Rightarrow> ra \<le> delayMs c | Inl _ \<Rightarrow> True | Inr _ \<Rightarrow> False)"

lemma good_retryEvent: "at_outcome (env a) = Inl e \<Longrightarrow> \<not> giveUp a e \<Longrightarrow> good_retry env a (retryEvent a e)"
  by (auto simp: good_retry_def retryEvent_def giveUp_def retryDelay_def split: js_error.splits)

lemma retryFrom_calls:
  "retryFrom a env = (r, calls, n) \<Longrightarrow>
    length calls \<le> n \<and> n \<le> Suc (length calls) \<and> length calls \<le> 2 - a \<and>
    (\<forall>i < length calls. good_retry env (a + i) (calls ! i))"
proof (induction rule: retryFrom_induct)
  case (Again a e r calls n)
  have "good_retry env (a + i) ((retryEvent a e # calls) ! i)" if "i < Suc (length calls)" for i
    using that Again by (cases i) (auto simp: good_retryEvent)
  with Again show ?case by (auto simp: giveUp_def)
qed (auto simp: good_retryEvent giveUp_def)

lemma retryFrom_result:
  "retryFrom a env = (r, calls, n) \<Longrightarrow>
    (case r of
      Inr x \<Rightarrow> 0 < n \<and> at_outcome (env (a + n - 1)) = Inr x \<and> \<not> abortedAfter (env (a + n - 1))
    | Inl e \<Rightarrow>
        e = cancelled \<and> (abortedBefore (env (a + n)) \<or>
          0 < n \<and> (abortedAfter (env (a + n - 1)) \<or> abortedWait (env (a + n - 1)))) \<or>
        0 < n \<and> at_outcome (env (a + n - 1)) = Inl e \<and> giveUp (a + n - 1) e) \<and>
    (\<forall>i. i + 1 < n \<longrightarrow> (\<exists>e. at_outcome (env (a + i)) = Inl e \<and> \<not> giveUp (a + i) e))"
proof (induction rule: retryFrom_induct)
  case (Again a e r calls n)
  have "\<exists>e. at_outcome (env (a + i)) = Inl e \<and> \<not> giveUp (a + i) e" if "i + 1 < Suc n" for i
    using that Again by (cases i) auto
  with Again show ?case by (cases n) (auto split: sum.splits)
qed auto

lemma digits_ge: "0 \<le> decimal_value s"
  by (simp add: decimal_value_def Let_def split: list.splits)

section \<open>Properties\<close>

text \<open>
  Bounded retries. For every behaviour of the service, the signal and the timer,
  \<^verbatim>\<open>retryTTSRequest\<close> makes at most three requests and announces at most two retries; the \<open>i\<close>-th
  announcement is numbered \<open>i+1\<close>, follows a retryable failure of request \<open>i\<close>, and waits at least
  \<open>500\<cdot>2^i\<close> ms and the server's \<^verbatim>\<open>Retry-After\<close>, but never more than a minute.
\<close>

lemma retry_bounded:
  "case retryTTSRequest env of (r, calls, n) \<Rightarrow>
     n \<le> 3 \<and> length calls \<le> 2 \<and> n \<le> length calls + 1 \<and>
     list_all (\<lambda>i. good_retry env i (calls ! i)) [0..<length calls]"
  using retryFrom_calls [of 0 env] by (force simp: retryTTSRequest_def list_all_iff)


definition flaky :: "nat \<Rightarrow> nat attempt" where
  "flaky i = \<lparr>abortedBefore = False,
     at_outcome = (if i = 0 then Inl (TTSRequestError 503 None 2000) else Inr 7),
     abortedAfter = False, abortedWait = False\<rparr>"


end
