(* ===== verification/Api_Types.thy ===== *)
theory Api_Types
  imports Prelude
begin

text \<open>
  The values that travel between the components: the interfaces of \<^verbatim>\<open>frontend/src/lib/api.ts\<close> as
  records (an optional property is an \<open>option\<close>), blobs as their bytes and media type, and the
  errors of the network layer.
\<close>

type_synonym byte = "8 word"

record blob =
  blob_bytes :: "byte list"
  blob_type :: ustring

abbreviation blob_size :: "blob \<Rightarrow> nat" where
  "blob_size b \<equiv> length (blob_bytes b)"

datatype processing_state = Pending | Ready | Failed

record book =
  bk_id :: ustring
  bk_user_id :: ustring
  bk_title :: ustring
  bk_author :: ustring
  bk_filename :: ustring
  bk_format :: ustring
  bk_size :: nat
  bk_content_hash :: "ustring option"
  bk_cover_path :: "ustring option"
  bk_cover_thumb_path :: "ustring option"
  bk_processing_state :: "processing_state option"
  bk_category :: "ustring option"
  bk_created_at :: ustring
  bk_last_read_at :: "ustring option"

record bookDownloadProgress =
  dp_downloadedBytes :: nat
  dp_totalBytes :: "real option"
  dp_percentage :: "real option"
  dp_bytesPerSecond :: "real option"
  dp_resumed :: bool

record bookPage =
  pg_books :: "book list"
  pg_next_cursor :: "ustring option"

record bookLibrarySummary =
  sm_total :: int
  sm_uncategorized :: int
  sm_categories :: "(ustring, int) omap"

record progress =
  pr_book_id :: ustring
  pr_user_id :: ustring
  pr_cfi :: ustring
  pr_percentage :: real
  pr_device_id :: "ustring option"
  pr_updated_at :: ustring

record bookmark =
  bm_id :: ustring
  bm_book_id :: ustring
  bm_user_id :: ustring
  bm_cfi :: ustring
  bm_percentage :: real
  bm_chapter :: "ustring option"
  bm_note :: "ustring option"
  bm_created_at :: ustring

record user =
  us_id :: ustring
  us_username :: ustring
  us_created_at :: ustring
  us_updated_at :: ustring

text \<open>
  \<^verbatim>\<open>x || d\<close> on strings: the empty string and \<^verbatim>\<open>undefined\<close> fall through to the default;
  \<^verbatim>\<open>x ?? d\<close> only falls through on \<^verbatim>\<open>null\<close> and \<^verbatim>\<open>undefined\<close>.
\<close>

definition or_else :: "ustring \<Rightarrow> ustring \<Rightarrow> ustring" where
  "or_else s d = (if s = [] then d else s)"

definition truthy :: "ustring option \<Rightarrow> ustring option" where
  "truthy s = (case s of Some t \<Rightarrow> if t = [] then None else Some t | None \<Rightarrow> None)"

definition nullish :: "'a option \<Rightarrow> 'a \<Rightarrow> 'a" where
  "nullish x d = (case x of Some v \<Rightarrow> v | None \<Rightarrow> d)"

lemma nullish_simps [simp]: "nullish None d = d" "nullish (Some v) d = v"
  by (simp_all add: nullish_def)

lemma or_else_neq [simp]: "d \<noteq> [] \<Longrightarrow> or_else s d \<noteq> []"
  by (simp add: or_else_def)

lemma truthy_eq_Some: "truthy s = Some t \<longleftrightarrow> s = Some t \<and> t \<noteq> []"
  by (auto simp: truthy_def split: option.splits)

section \<open>Errors\<close>

text \<open>
  What the network layer can throw: an \<^verbatim>\<open>ApiError\<close> with its status, message and decoded body, an
  error known by its name (\<^verbatim>\<open>AbortError\<close>, \<^verbatim>\<open>TimeoutError\<close>, \<^verbatim>\<open>TypeError\<close>, \<^verbatim>\<open>SyntaxError\<close>), a plain
  \<^verbatim>\<open>Error\<close> with its message, or a value that is no \<^verbatim>\<open>Error\<close> at all.
\<close>

record errorBody =
  eb_error :: "ustring option"
  eb_message :: "ustring option"
  eb_book :: "book option"

datatype app_error =
    ApiError nat ustring "errorBody option"
  | NamedErr ustring
  | PlainError ustring
  | NotAnError

definition AbortError :: app_error where
  "AbortError = NamedErr (js ''AbortError'')"

fun isApiError :: "app_error \<Rightarrow> bool" where
  "isApiError (ApiError _ _ _) = True"
| "isApiError _ = False"

definition isAbortLikeError :: "app_error \<Rightarrow> bool" where
  "isAbortLikeError e \<longleftrightarrow> e = NamedErr (js ''AbortError'') \<or> e = NamedErr (js ''TimeoutError'')"

end
