(* ===== verification/Uri_Component.thy ===== *)
theory Uri_Component
  imports Prelude
begin

text \<open>
  \<^verbatim>\<open>encodeURIComponent\<close> and \<^verbatim>\<open>decodeURIComponent\<close> of the JavaScript standard library, which
  \<^verbatim>\<open>offline-books.ts\<close> uses to build the names of caches and cache entries and to store file names
  in headers. A lone surrogate makes the encoder raise \<^verbatim>\<open>URIError\<close> (\<open>None\<close>), as does malformed
  input of the decoder. Shown: the decoder inverts the encoder, so the encoder is injective, and an
  encoded text contains no slash.
\<close>

section \<open>Code points\<close>

definition is_high :: "nat \<Rightarrow> bool" where "is_high u \<longleftrightarrow> 55296 \<le> u \<and> u \<le> 56319"
definition is_low :: "nat \<Rightarrow> bool" where "is_low u \<longleftrightarrow> 56320 \<le> u \<and> u \<le> 57343"

definition is_scalar :: "nat \<Rightarrow> bool" where
  "is_scalar c \<longleftrightarrow> c < 1114112 \<and> \<not> (55296 \<le> c \<and> c \<le> 57343)"

definition utf16 :: "nat \<Rightarrow> ustring" where
  "utf16 c = (if c < 65536 then [c]
     else [55296 + (c - 65536) div 1024, 56320 + (c - 65536) mod 1024])"

fun code_points :: "ustring \<Rightarrow> nat list option" where
  "code_points [] = Some []"
| "code_points (u # us) =
    (if is_high u then
       (case us of
          [] \<Rightarrow> None
        | v # vs \<Rightarrow> if is_low v
            then map_option ((#) (65536 + (u - 55296) * 1024 + (v - 56320))) (code_points vs) else None)
     else if is_low u then None else map_option ((#) u) (code_points us))"

text \<open>Encoders that never fail read a lone surrogate as U+FFFD.\<close>

fun scalar_values :: "ustring \<Rightarrow> nat list" where
  "scalar_values [] = []"
| "scalar_values (u # us) =
    (if is_high u then
       (case us of
          [] \<Rightarrow> [65533]
        | v # vs \<Rightarrow> if is_low v then (65536 + (u - 55296) * 1024 + (v - 56320)) # scalar_values vs
            else 65533 # scalar_values us)
     else if is_low u then 65533 # scalar_values us else u # scalar_values us)"

section \<open>The encoder\<close>

definition utf8 :: "nat \<Rightarrow> nat list" where
  "utf8 c =
    (if c < 128 then [c]
     else if c < 2048 then [192 + c div 64, 128 + c mod 64]
     else if c < 65536 then [224 + c div 4096, 128 + c div 64 mod 64, 128 + c mod 64]
     else [240 + c div 262144, 128 + c div 4096 mod 64, 128 + c div 64 mod 64, 128 + c mod 64])"

definition hex_digit :: "nat \<Rightarrow> nat" where
  "hex_digit d = (if d < 10 then 48 + d else 55 + d)"

definition pct :: "nat \<Rightarrow> ustring" where
  "pct b = [37, hex_digit (b div 16), hex_digit (b mod 16)]"

text \<open>Letters, digits and \<^verbatim>\<open>- _ . ! ~ * ' ( )\<close> are left as they are.\<close>

definition unreserved :: "nat \<Rightarrow> bool" where
  "unreserved c \<longleftrightarrow> 65 \<le> c \<and> c \<le> 90 \<or> 97 \<le> c \<and> c \<le> 122 \<or> is_digit c \<or>
     c \<in> {33, 39, 40, 41, 42, 45, 46, 95, 126}"

definition encode_point :: "nat \<Rightarrow> ustring" where
  "encode_point c = (if unreserved c then [c] else concat (map pct (utf8 c)))"

definition encodeURIComponent :: "ustring \<Rightarrow> ustring option" where
  "encodeURIComponent s = map_option (\<lambda>cs. concat (map encode_point cs)) (code_points s)"

section \<open>The decoder\<close>

definition hex_value :: "nat \<Rightarrow> nat option" where
  "hex_value c = (if is_digit c then Some (c - 48)
     else if 65 \<le> c \<and> c \<le> 70 then Some (c - 55)
     else if 97 \<le> c \<and> c \<le> 102 then Some (c - 87) else None)"

fun pct_byte :: "ustring \<Rightarrow> (nat \<times> ustring) option" where
  "pct_byte (p # a # b # r) =
    (if p = 37 then
       (case (hex_value a, hex_value b) of (Some x, Some y) \<Rightarrow> Some (16 * x + y, r) | _ \<Rightarrow> None)
     else None)"
| "pct_byte _ = None"

fun conts :: "nat \<Rightarrow> nat \<Rightarrow> ustring \<Rightarrow> (nat \<times> ustring) option" where
  "conts 0 acc r = Some (acc, r)"
| "conts (Suc n) acc r =
    (case pct_byte r of
       Some (b, r') \<Rightarrow> if 128 \<le> b \<and> b < 192 then conts n (64 * acc + (b - 128)) r' else None
     | None \<Rightarrow> None)"

text \<open>One escaped code point: the leading byte fixes the length; overlong forms, surrogates and
  values beyond the last plane are rejected.\<close>

definition escaped_point :: "ustring \<Rightarrow> (nat \<times> ustring) option" where
  "escaped_point s =
    (case pct_byte s of
       None \<Rightarrow> None
     | Some (b, r) \<Rightarrow>
        (let guard = (\<lambda>lo res. case res of
             Some (c, r') \<Rightarrow> if lo \<le> c \<and> is_scalar c then Some (c, r') else None | None \<Rightarrow> None) in
         if b < 128 then Some (b, r)
         else if 192 \<le> b \<and> b < 224 then guard 128 (conts 1 (b - 192) r)
         else if 224 \<le> b \<and> b < 240 then guard 2048 (conts 2 (b - 224) r)
         else if 240 \<le> b \<and> b < 248 then guard 65536 (conts 3 (b - 240) r)
         else None))"

lemma pct_byte_length: "pct_byte s = Some (b, r) \<Longrightarrow> length r < length s"
  by (induction s rule: pct_byte.induct) (auto split: option.splits if_splits)

lemma conts_length: "conts n acc s = Some (c, r) \<Longrightarrow> length r \<le> length s"
proof (induction n arbitrary: acc s)
  case (Suc n)
  then show ?case by (force split: option.splits if_splits dest!: pct_byte_length)
qed simp

lemma escaped_point_length: "escaped_point s = Some (c, r) \<Longrightarrow> length r < length s"
  by (auto simp: escaped_point_def Let_def split: option.splits if_splits
    dest!: pct_byte_length conts_length)

function decodeURIComponent :: "ustring \<Rightarrow> ustring option" where
  "decodeURIComponent s =
    (case s of
       [] \<Rightarrow> Some []
     | c # cs \<Rightarrow>
        (if c \<noteq> 37 then map_option ((#) c) (decodeURIComponent cs)
         else case escaped_point s of
           None \<Rightarrow> None
         | Some (cp, r) \<Rightarrow> map_option ((@) (utf16 cp)) (decodeURIComponent r)))"
  by pat_completeness auto
termination
  by (relation "measure length") (auto dest: escaped_point_length)

declare decodeURIComponent.simps [simp del]

section \<open>The decoder inverts the encoder\<close>

lemma hex_value_digit [simp]: "d < 16 \<Longrightarrow> hex_value (hex_digit d) = Some d"
  by (auto simp: hex_value_def hex_digit_def is_digit_def)

lemma pct_byte_pct [simp]: "b < 256 \<Longrightarrow> pct_byte (pct b @ r) = Some (b, r)"
  by (simp add: pct_def)

lemma utf16_code_points:
  "code_points s = Some cs \<Longrightarrow> units s \<Longrightarrow>
    concat (map utf16 cs) = s \<and> list_all is_scalar cs"
proof (induction s arbitrary: cs rule: code_points.induct)
  case (2 u us)
  show ?case
  proof (cases "is_high u")
    case True
    then obtain v vs ds where us: "us = v # vs" "is_low v" "code_points vs = Some ds"
      and cs: "cs = (65536 + (u - 55296) * 1024 + (v - 56320)) # ds"
      using "2.prems"(1) by (auto split: list.splits if_splits)
    have IH: "concat (map utf16 ds) = vs \<and> list_all is_scalar ds"
      using "2.IH"(1) [OF True us(1,2,3)] "2.prems"(2) us by simp
    obtain w where v: "v = 56320 + w" "w < 1024"
      using us(2) by (auto simp: is_low_def dest: le_Suc_ex)
    obtain h where u: "u = 55296 + h" "h < 1024"
      using True by (auto simp: is_high_def dest: le_Suc_ex)
    have "(h * 1024 + w) div 1024 = h" "(h * 1024 + w) mod 1024 = w" using v by auto
    then have "utf16 (65536 + h * 1024 + w) = [u, v]" "is_scalar (65536 + h * 1024 + w)"
      using u v by (simp_all add: utf16_def is_scalar_def add.assoc)
    with IH us cs u v show ?thesis by simp
  next
    case False
    with 2 show ?thesis by (auto simp: utf16_def is_high_def is_low_def is_scalar_def split: if_splits)
  qed
qed simp

lemma escaped_point_encode:
  assumes "is_scalar c"
  shows "escaped_point (concat (map pct (utf8 c)) @ r) = Some (c, r)"
proof -
  have c: "c < 1114112" using assms by (simp add: is_scalar_def)
  have d64: "c div 4096 = c div 64 div 64" "c div 262144 = c div 64 div 64 div 64"
    by (simp_all add: div_mult2_eq [symmetric])
  consider "c < 128" | "128 \<le> c" "c < 2048" | "2048 \<le> c" "c < 65536" | "65536 \<le> c" by linarith
  then show ?thesis
  proof cases
    case 1
    then show ?thesis by (simp add: escaped_point_def utf8_def)
  next
    case 2
    have d: "c div 64 < 32" using 2 by (simp add: less_mult_imp_div_less)
    have v: "64 * (c div 64) + c mod 64 = c" by simp
    show ?thesis using 2 d v assms
      by (simp add: escaped_point_def utf8_def Let_def numeral_2_eq_2)
  next
    case 3
    have d: "c div 4096 < 16" using 3 by (simp add: less_mult_imp_div_less)
    have v: "64 * (64 * (c div 4096) + c div 64 mod 64) + c mod 64 = c" by (simp add: d64)
    show ?thesis using 3 d v assms
      by (simp add: escaped_point_def utf8_def Let_def numeral_2_eq_2)
  next
    case 4
    have d: "c div 262144 < 8" using c by (simp add: less_mult_imp_div_less)
    have v: "64 * (64 * (64 * (c div 262144) + c div 4096 mod 64) + c div 64 mod 64) + c mod 64 = c"
      by (simp add: d64)
    show ?thesis using 4 d v assms
      by (simp add: escaped_point_def utf8_def Let_def numeral_3_eq_3)
  qed
qed

lemma decode_encode_point:
  assumes "is_scalar c"
  shows "decodeURIComponent (encode_point c @ r) = map_option ((@) (utf16 c)) (decodeURIComponent r)"
proof (cases "unreserved c")
  case True
  then have "c \<noteq> 37" "c < 65536" by (auto simp: unreserved_def is_digit_def)
  then show ?thesis
    using True by (subst decodeURIComponent.simps) (auto simp: encode_point_def utf16_def
      intro!: arg_cong [where f = "\<lambda>g. map_option g _"])
next
  case False
  obtain t where "concat (map pct (utf8 c)) = 37 # t"
    by (cases "utf8 c") (auto simp: utf8_def pct_def split: if_splits)
  with False escaped_point_encode [OF assms, of r] show ?thesis
    by (subst decodeURIComponent.simps) (simp add: encode_point_def)
qed

lemma decode_encode:
  assumes "encodeURIComponent s = Some e" and "units s"
  shows "decodeURIComponent e = Some s"
proof -
  obtain cs where cs: "code_points s = Some cs" and e: "e = concat (map encode_point cs)"
    using assms(1) by (auto simp: encodeURIComponent_def)
  have "decodeURIComponent (concat (map encode_point ds)) = Some (concat (map utf16 ds))"
    if "list_all is_scalar ds" for ds
    using that by (induction ds) (simp_all add: decode_encode_point, simp add: decodeURIComponent.simps)
  with utf16_code_points [OF cs assms(2)] e show ?thesis by simp
qed

lemma encode_inj:
  assumes "encodeURIComponent s = Some e" and "encodeURIComponent t = Some e"
    and "units s" and "units t"
  shows "s = t"
  using decode_encode [OF assms(1,3)] decode_encode [OF assms(2,4)] by simp

lemma encode_no_slash: "encodeURIComponent s = Some e \<Longrightarrow> 47 \<notin> set e"
  by (auto simp: encodeURIComponent_def encode_point_def unreserved_def is_digit_def pct_def
    hex_digit_def split: if_splits)

lemma utf8_byte: "is_scalar c \<Longrightarrow> b \<in> set (utf8 c) \<Longrightarrow> b < 256"
  by (auto simp: utf8_def is_scalar_def less_mult_imp_div_less split: if_splits)

lemma hex_digit_unreserved: "d < 16 \<Longrightarrow> unreserved (hex_digit d)"
  by (auto simp: hex_digit_def unreserved_def is_digit_def)

lemma pct_chars: "b < 256 \<Longrightarrow> x \<in> set (pct b) \<Longrightarrow> unreserved x \<or> x = 37"
  by (auto simp: pct_def hex_digit_unreserved)

lemma encode_chars:
  assumes "encodeURIComponent s = Some e" and "units s" and "x \<in> set e"
  shows "unreserved x \<or> x = 37"
proof -
  obtain cs where cs: "code_points s = Some cs" and e: "e = concat (map encode_point cs)"
    using assms(1) by (auto simp: encodeURIComponent_def)
  obtain c where c: "c \<in> set cs" "x \<in> set (encode_point c)" using assms(3) e by auto
  then have "is_scalar c" using utf16_code_points [OF cs assms(2)] by (auto simp: list_all_iff)
  with c(2) show ?thesis using utf8_byte [of c] pct_chars
    by (auto simp: encode_point_def split: if_splits)
qed

lemma encode_Nil: "encodeURIComponent s = Some [] \<Longrightarrow> units s \<Longrightarrow> s = []"
  using decode_encode [of s "[]"] by (simp add: decodeURIComponent.simps)

end
