(* ===== verification/Offline_Books.thy ===== *)
theory Offline_Books
  imports Api_Types Uri_Component
begin

text \<open>
  \<^verbatim>\<open>frontend/src/lib/offline-books.ts\<close>: offline copies of books and resumable partial downloads,
  both kept in Cache Storage under one cache per account. The state is the browser's
  \<^verbatim>\<open>caches\<close>: a map from cache names to caches, a cache being a map from request paths to stored
  responses. Every access to storage may fail; which ones do is given by a \<open>storage_env\<close>, one per
  call of an operation. The JSON text of the metadata entry is kept parsed. Paths are taken as
  written, so a book id is not a dot segment.

  Shown here: the committed prefix of a partial download survives any storage failure and is what the
  reader returns; a reader never returns inconsistent data; accounts and books do not interfere;
  stored files are read back as stored, and only under the expected content hash.
\<close>

section \<open>Storage\<close>

record partialMeta =
  pm_chunks :: jsnum
  pm_downloadedBytes :: jsnum
  pm_totalBytes :: "jsnum option"
  pm_contentType :: ustring
  pm_etag :: "ustring option"
  pm_updatedAt :: real

datatype body = BlobBody "byte list" | JsonBody partialMeta

record cached =
  ca_body :: body
  ca_headers :: "(ustring \<times> ustring) list"

type_synonym book_cache = "(ustring, cached) omap"
type_synonym cache_storage = "(ustring, book_cache) omap"

datatype storage_error = Unsupported | QuotaExceeded | UriError | StorageFailure | HeaderError | JsonError

record storage_env =
  supported :: bool
  openOk :: bool
  readOk :: "ustring \<Rightarrow> bool"
  writeOk :: "ustring \<Rightarrow> bool"
  keysOk :: bool
  deleteOk :: "ustring \<Rightarrow> bool"
  estimateOk :: bool
  estimate :: "(real option \<times> real) option"

record partialDownload =
  pd_chunks :: "blob list"
  pd_downloadedBytes :: real
  pd_totalBytes :: "real option"
  pd_contentType :: ustring
  pd_etag :: "ustring option"

section \<open>Names\<close>

definition CACHE_PREFIX :: ustring where
  "CACHE_PREFIX = js ''z-reader-offline-books-v1:''"

definition CACHE_KEY_PREFIX :: ustring where
  "CACHE_KEY_PREFIX = js ''/__z-reader-offline-books/''"

definition PARTIAL_DOWNLOAD_KEY_PREFIX :: ustring where
  "PARTIAL_DOWNLOAD_KEY_PREFIX = CACHE_KEY_PREFIX @ js ''partial/''"

definition QUOTA_CHECK_INTERVAL :: nat where
  "QUOTA_CHECK_INTERVAL = 8 * 1024 * 1024"

definition octet_stream :: ustring where
  "octet_stream = js ''application/octet-stream''"

definition cacheName :: "ustring \<Rightarrow> ustring option" where
  "cacheName userId = map_option ((@) CACHE_PREFIX) (encodeURIComponent userId)"

definition cacheRequest :: "ustring \<Rightarrow> ustring option" where
  "cacheRequest bookId = map_option ((@) CACHE_KEY_PREFIX) (encodeURIComponent bookId)"

definition partialDownloadPath :: "ustring \<Rightarrow> ustring option" where
  "partialDownloadPath bookId =
    map_option (\<lambda>e. PARTIAL_DOWNLOAD_KEY_PREFIX @ e @ js ''/'') (encodeURIComponent bookId)"

definition partialDownloadMetaRequest :: "ustring \<Rightarrow> ustring option" where
  "partialDownloadMetaRequest bookId = map_option (\<lambda>p. p @ js ''meta'') (partialDownloadPath bookId)"

definition partialDownloadChunkRequest :: "ustring \<Rightarrow> nat \<Rightarrow> ustring option" where
  "partialDownloadChunkRequest bookId i =
    map_option (\<lambda>p. p @ js ''chunk/'' @ dec i) (partialDownloadPath bookId)"

section \<open>Cache Storage\<close>

definition openCache ::
  "storage_env \<Rightarrow> ustring \<Rightarrow> cache_storage \<Rightarrow> (storage_error + ustring) \<times> cache_storage" where
  "openCache env userId st =
    (case cacheName userId of
       None \<Rightarrow> (Inl UriError, st)
     | Some name \<Rightarrow>
        (if \<not> openOk env then (Inl StorageFailure, st)
         else (Inr name, if mapHas st name then st else mapSet name [] st)))"

definition the_cache :: "cache_storage \<Rightarrow> ustring \<Rightarrow> book_cache" where
  "the_cache st name = nullish (mapGet st name) []"

definition cacheMatch ::
  "storage_env \<Rightarrow> ustring \<Rightarrow> ustring \<Rightarrow> cache_storage \<Rightarrow> storage_error + cached option" where
  "cacheMatch env name path st =
    (if readOk env path then Inr (mapGet (the_cache st name) path) else Inl StorageFailure)"

definition cachePut ::
  "storage_env \<Rightarrow> ustring \<Rightarrow> ustring \<Rightarrow> cached \<Rightarrow> cache_storage \<Rightarrow> (storage_error + unit) \<times> cache_storage"
  where
  "cachePut env name path v st =
    (if writeOk env path then (Inr (), mapSet name (mapSet path v (the_cache st name)) st)
     else (Inl StorageFailure, st))"

text \<open>Headers and bodies of the responses that are stored: a header value is a byte string, stripped
  of surrounding HTTP white space; \<^verbatim>\<open>new Response(blob)\<close> records the type of the blob.\<close>

definition http_space :: "nat \<Rightarrow> bool" where
  "http_space c \<longleftrightarrow> c \<in> {9, 10, 13, 32}"

definition headerValue :: "ustring \<Rightarrow> ustring option" where
  "headerValue v =
    (let t = rev (dropWhile http_space (rev (dropWhile http_space v))) in
     if list_all (\<lambda>c. c < 256 \<and> c \<notin> {0, 10, 13}) t then Some t else None)"

definition blobResponse :: "blob \<Rightarrow> cached" where
  "blobResponse b = \<lparr>ca_body = BlobBody (blob_bytes b),
     ca_headers = (if blob_type b = [] then [] else [(js ''Content-Type'', blob_type b)])\<rparr>"

definition metaResponse :: "partialMeta \<Rightarrow> cached" where
  "metaResponse m = \<lparr>ca_body = JsonBody m, ca_headers = [(js ''Content-Type'', js ''application/json'')]\<rparr>"

definition responseBlob :: "cached \<Rightarrow> storage_error + blob" where
  "responseBlob r = (case ca_body r of
     BlobBody bs \<Rightarrow> Inr \<lparr>blob_bytes = bs, blob_type = nullish (map_of (ca_headers r) (js ''Content-Type'')) []\<rparr>
   | JsonBody _ \<Rightarrow> Inl StorageFailure)"

definition responseJson :: "cached \<Rightarrow> storage_error + partialMeta" where
  "responseJson r = (case ca_body r of JsonBody m \<Rightarrow> Inr m | BlobBody _ \<Rightarrow> Inl JsonError)"

section \<open>Operations\<close>

definition ensureCapacity :: "storage_env \<Rightarrow> nat \<Rightarrow> storage_error + unit" where
  "ensureCapacity env n =
    (case estimate env of
       None \<Rightarrow> Inr ()
     | Some (usage, quota) \<Rightarrow>
        (if \<not> estimateOk env then Inl StorageFailure
         else if quota = 0 then Inr ()
         else if quota * 0.9 < nullish usage 0 + real n then Inl QuotaExceeded else Inr ()))"

definition fileHeaders :: "book \<Rightarrow> blob \<Rightarrow> storage_error + (ustring \<times> ustring) list" where
  "fileHeaders bk file =
    (case encodeURIComponent (bk_filename bk) of
       None \<Rightarrow> Inl UriError
     | Some fname \<Rightarrow>
        (case (headerValue (or_else (blob_type file) octet_stream), headerValue fname,
               headerValue (nullish (bk_content_hash bk) [])) of
           (Some t, Some f, Some h) \<Rightarrow>
             Inr [(js ''Content-Type'', t), (js ''X-Z-Reader-Filename'', f),
                  (js ''X-Z-Reader-Content-Hash'', h)]
         | _ \<Rightarrow> Inl HeaderError))"

definition saveOfflineBook ::
  "storage_env \<Rightarrow> ustring \<Rightarrow> book \<Rightarrow> blob \<Rightarrow> cache_storage \<Rightarrow> (storage_error + unit) \<times> cache_storage" where
  "saveOfflineBook env userId bk file st =
    (if \<not> supported env then (Inl Unsupported, st)
     else case ensureCapacity env (blob_size file) of
       Inl e \<Rightarrow> (Inl e, st)
     | Inr _ \<Rightarrow>
        (case openCache env userId st of
           (Inl e, st1) \<Rightarrow> (Inl e, st1)
         | (Inr name, st1) \<Rightarrow>
            (case cacheRequest (bk_id bk) of
               None \<Rightarrow> (Inl UriError, st1)
             | Some path \<Rightarrow>
                (case fileHeaders bk file of
                   Inl e \<Rightarrow> (Inl e, st1)
                 | Inr hs \<Rightarrow>
                    cachePut env name path \<lparr>ca_body = BlobBody (blob_bytes file), ca_headers = hs\<rparr> st1))))"

definition clearPartialBookDownload ::
  "storage_env \<Rightarrow> ustring \<Rightarrow> ustring \<Rightarrow> cache_storage \<Rightarrow> (storage_error + unit) \<times> cache_storage" where
  "clearPartialBookDownload env userId bookId st =
    (if userId = [] \<or> \<not> supported env then (Inr (), st)
     else case openCache env userId st of
       (Inl e, st1) \<Rightarrow> (Inl e, st1)
     | (Inr name, st1) \<Rightarrow>
        (case partialDownloadPath bookId of
           None \<Rightarrow> (Inl UriError, st1)
         | Some prefix \<Rightarrow>
            (if \<not> keysOk env then (Inl StorageFailure, st1)
             else
              let doomed = filter (\<lambda>p. startsWith p prefix) (map fst (the_cache st1 name)) in
              (if list_all (deleteOk env) doomed then Inr () else Inl StorageFailure,
               mapSet name
                 (filter (\<lambda>(p, _). \<not> (startsWith p prefix \<and> deleteOk env p)) (the_cache st1 name)) st1))))"

fun readChunks ::
  "storage_env \<Rightarrow> ustring \<Rightarrow> ustring \<Rightarrow> cache_storage \<Rightarrow> nat list \<Rightarrow> storage_error + blob list option" where
  "readChunks env name bookId st [] = Inr (Some [])"
| "readChunks env name bookId st (i # is) =
    (case partialDownloadChunkRequest bookId i of
       None \<Rightarrow> Inl UriError
     | Some path \<Rightarrow>
        (case cacheMatch env name path st of
           Inl e \<Rightarrow> Inl e
         | Inr None \<Rightarrow> Inr None
         | Inr (Some r) \<Rightarrow>
            (case responseBlob r of
               Inl e \<Rightarrow> Inl e
             | Inr b \<Rightarrow>
                (case readChunks env name bookId st is of
                   Inr (Some bs) \<Rightarrow> Inr (Some (b # bs))
                 | other \<Rightarrow> other))))"

definition metaChunks :: "partialMeta \<Rightarrow> nat option" where
  "metaChunks m = (case (pm_chunks m, pm_downloadedBytes m) of
     (Fin c, Fin d) \<Rightarrow> if c \<in> \<int> \<and> 0 < c \<and> 0 < d then Some (nat \<lfloor>c\<rfloor>) else None
   | _ \<Rightarrow> None)"

definition chunkBytes :: "blob list \<Rightarrow> nat" where
  "chunkBytes bs = sum_list (map blob_size bs)"

definition finite_total :: "jsnum option \<Rightarrow> real option" where
  "finite_total t = (case t of Some (Fin r) \<Rightarrow> Some r | _ \<Rightarrow> None)"

definition discardPartial ::
  "storage_env \<Rightarrow> ustring \<Rightarrow> ustring \<Rightarrow> cache_storage \<Rightarrow> partialDownload option \<times> cache_storage" where
  "discardPartial env userId bookId st = (None, snd (clearPartialBookDownload env userId bookId st))"

definition getPartialBookDownload ::
  "storage_env \<Rightarrow> ustring \<Rightarrow> ustring \<Rightarrow> cache_storage \<Rightarrow> partialDownload option \<times> cache_storage" where
  "getPartialBookDownload env userId bookId st =
    (if userId = [] \<or> \<not> supported env then (None, st)
     else case openCache env userId st of
       (Inl _, st1) \<Rightarrow> (None, st1)
     | (Inr name, st1) \<Rightarrow>
        (case partialDownloadMetaRequest bookId of
           None \<Rightarrow> (None, st1)
         | Some path \<Rightarrow>
            (case cacheMatch env name path st1 of
               Inl _ \<Rightarrow> (None, st1)
             | Inr None \<Rightarrow> (None, st1)
             | Inr (Some r) \<Rightarrow>
                (case responseJson r of
                   Inl _ \<Rightarrow> (None, st1)
                 | Inr meta \<Rightarrow>
                    (case metaChunks meta of
                       None \<Rightarrow> discardPartial env userId bookId st1
                     | Some n \<Rightarrow>
                        (case readChunks env name bookId st1 [0..<n] of
                           Inl _ \<Rightarrow> (None, st1)
                         | Inr None \<Rightarrow> discardPartial env userId bookId st1
                         | Inr (Some bs) \<Rightarrow>
                            (if real (chunkBytes bs) \<noteq> fin (pm_downloadedBytes meta)
                             then discardPartial env userId bookId st1
                             else (Some \<lparr>pd_chunks = bs, pd_downloadedBytes = fin (pm_downloadedBytes meta),
                                 pd_totalBytes = finite_total (pm_totalBytes meta),
                                 pd_contentType = or_else (pm_contentType meta) octet_stream,
                                 pd_etag = pm_etag meta\<rparr>, st1))))))))"

text \<open>
  The object that \<^verbatim>\<open>createPartialBookDownloadWriter\<close> returns: the variables its \<^verbatim>\<open>append\<close>
  closes over. \<open>wr_cache = None\<close> is the writer without storage, whose \<^verbatim>\<open>append\<close> does nothing.
  \<^verbatim>\<open>initialDownload\<close> is \<open>None\<close> when it is \<^verbatim>\<open>undefined\<close> and \<open>Some None\<close> when it is \<^verbatim>\<open>null\<close>. The
  metadata entry is written by \<^verbatim>\<open>append\<close> alone, so its counters are whole numbers.
\<close>

record writer =
  wr_cache :: "ustring option"
  wr_bookId :: ustring
  wr_totalBytes :: "real option"
  wr_contentType :: ustring
  wr_etag :: "ustring option"
  wr_chunks :: nat
  wr_downloadedBytes :: real
  wr_bytesSinceQuotaCheck :: nat

definition noWriter :: writer where
  "noWriter = \<lparr>wr_cache = None, wr_bookId = [], wr_totalBytes = None, wr_contentType = [], wr_etag = None,
     wr_chunks = 0, wr_downloadedBytes = 0, wr_bytesSinceQuotaCheck = 0\<rparr>"

definition initialCounts ::
  "storage_env \<Rightarrow> ustring \<Rightarrow> ustring \<Rightarrow> partialDownload option option \<Rightarrow> cache_storage \<Rightarrow>
    storage_error + nat \<times> real" where
  "initialCounts env name bookId initial st =
    (case initial of
       Some None \<Rightarrow> Inr (0, 0)
     | Some (Some d) \<Rightarrow> Inr (length (pd_chunks d), pd_downloadedBytes d)
     | None \<Rightarrow>
        (case partialDownloadMetaRequest bookId of
           None \<Rightarrow> Inl UriError
         | Some path \<Rightarrow>
            (case cacheMatch env name path st of
               Inl e \<Rightarrow> Inl e
             | Inr None \<Rightarrow> Inr (0, 0)
             | Inr (Some r) \<Rightarrow>
                (case responseJson r of
                   Inl e \<Rightarrow> Inl e
                 | Inr m \<Rightarrow> Inr (nat \<lfloor>fin (pm_chunks m)\<rfloor>, fin (pm_downloadedBytes m))))))"

definition createPartialBookDownloadWriter ::
  "storage_env \<Rightarrow> ustring \<Rightarrow> ustring \<Rightarrow> real option \<Rightarrow> ustring \<Rightarrow> partialDownload option option \<Rightarrow>
    ustring option \<Rightarrow> cache_storage \<Rightarrow> (storage_error + writer) \<times> cache_storage" where
  "createPartialBookDownloadWriter env userId bookId totalBytes contentType initial etag st =
    (if userId = [] \<or> \<not> supported env then (Inr noWriter, st)
     else case openCache env userId st of
       (Inl e, st1) \<Rightarrow> (Inl e, st1)
     | (Inr name, st1) \<Rightarrow>
        (case initialCounts env name bookId initial st1 of
           Inl e \<Rightarrow> (Inl e, st1)
         | Inr (n, d) \<Rightarrow>
            (Inr \<lparr>wr_cache = Some name, wr_bookId = bookId, wr_totalBytes = totalBytes,
               wr_contentType = contentType,
               wr_etag = (case truthy etag of
                   Some e \<Rightarrow> Some e | None \<Rightarrow> Option.bind (Option.bind initial id) pd_etag),
               wr_chunks = n, wr_downloadedBytes = d, wr_bytesSinceQuotaCheck = QUOTA_CHECK_INTERVAL\<rparr>, st1)))"

definition writerMeta :: "real \<Rightarrow> writer \<Rightarrow> blob \<Rightarrow> partialMeta" where
  "writerMeta now w chunk = \<lparr>pm_chunks = Fin (real (wr_chunks w + 1)),
     pm_downloadedBytes = Fin (wr_downloadedBytes w + real (blob_size chunk)),
     pm_totalBytes = map_option Fin (wr_totalBytes w),
     pm_contentType = or_else (wr_contentType w) octet_stream,
     pm_etag = wr_etag w, pm_updatedAt = now\<rparr>"

definition commitChunk ::
  "storage_env \<Rightarrow> ustring \<Rightarrow> real \<Rightarrow> writer \<Rightarrow> blob \<Rightarrow> cache_storage \<Rightarrow>
    (storage_error + writer) \<times> cache_storage" where
  "commitChunk env name now w chunk st =
    (case (partialDownloadChunkRequest (wr_bookId w) (wr_chunks w),
           partialDownloadMetaRequest (wr_bookId w)) of
       (Some chunkPath, Some metaPath) \<Rightarrow>
        (case cachePut env name chunkPath (blobResponse chunk) st of
           (Inl e, st1) \<Rightarrow> (Inl e, st1)
         | (Inr _, st1) \<Rightarrow>
            (case cachePut env name metaPath (metaResponse (writerMeta now w chunk)) st1 of
               (Inl e, st2) \<Rightarrow> (Inl e, st2)
             | (Inr _, st2) \<Rightarrow>
                (Inr (w\<lparr>wr_chunks := wr_chunks w + 1,
                   wr_downloadedBytes := wr_downloadedBytes w + real (blob_size chunk),
                   wr_bytesSinceQuotaCheck := wr_bytesSinceQuotaCheck w + blob_size chunk\<rparr>), st2)))
     | _ \<Rightarrow> (Inl UriError, st))"

definition quotaCheck :: "storage_env \<Rightarrow> writer \<Rightarrow> blob \<Rightarrow> storage_error + writer" where
  "quotaCheck env w chunk =
    (if QUOTA_CHECK_INTERVAL \<le> wr_bytesSinceQuotaCheck w
     then (case ensureCapacity env (blob_size chunk) of
         Inl e \<Rightarrow> Inl e | Inr _ \<Rightarrow> Inr (w\<lparr>wr_bytesSinceQuotaCheck := 0\<rparr>))
     else Inr w)"

definition writerAppend ::
  "storage_env \<Rightarrow> real \<Rightarrow> writer \<Rightarrow> blob \<Rightarrow> cache_storage \<Rightarrow> (storage_error + writer) \<times> cache_storage" where
  "writerAppend env now w chunk st =
    (case wr_cache w of
       None \<Rightarrow> (Inr w, st)
     | Some name \<Rightarrow>
        (if blob_size chunk = 0 then (Inr w, st)
         else case quotaCheck env w chunk of
           Inl e \<Rightarrow> (Inl e, st)
         | Inr w1 \<Rightarrow> commitChunk env name now w1 chunk st))"

definition appendPartialBookDownload ::
  "storage_env \<Rightarrow> real \<Rightarrow> ustring \<Rightarrow> ustring \<Rightarrow> blob \<Rightarrow> real option \<Rightarrow> ustring \<Rightarrow> cache_storage \<Rightarrow>
    (storage_error + unit) \<times> cache_storage" where
  "appendPartialBookDownload env now userId bookId chunk totalBytes contentType st =
    (if userId = [] \<or> \<not> supported env \<or> blob_size chunk = 0 then (Inr (), st)
     else case createPartialBookDownloadWriter env userId bookId totalBytes contentType None None st of
       (Inl e, st1) \<Rightarrow> (Inl e, st1)
     | (Inr w, st1) \<Rightarrow>
        (case writerAppend env now w chunk st1 of
           (Inl e, st2) \<Rightarrow> (Inl e, st2) | (Inr _, st2) \<Rightarrow> (Inr (), st2)))"

record offlineBookEntry =
  oe_file :: blob
  oe_filename :: "ustring option"
  oe_contentHash :: ustring

text \<open>\<^verbatim>\<open>new File\<close> may be missing (\<open>fileOk\<close> false): then the blob itself is returned, without a name.\<close>

definition getOfflineBookEntry ::
  "storage_env \<Rightarrow> bool \<Rightarrow> ustring \<Rightarrow> ustring \<Rightarrow> ustring option \<Rightarrow> cache_storage \<Rightarrow>
    (storage_error + offlineBookEntry option) \<times> cache_storage" where
  "getOfflineBookEntry env fileOk userId bookId expected st =
    (if userId = [] \<or> \<not> supported env then (Inr None, st)
     else case openCache env userId st of
       (Inl e, st1) \<Rightarrow> (Inl e, st1)
     | (Inr name, st1) \<Rightarrow>
        (case cacheRequest bookId of
           None \<Rightarrow> (Inl UriError, st1)
         | Some path \<Rightarrow>
            (case cacheMatch env name path st1 of
               Inl e \<Rightarrow> (Inl e, st1)
             | Inr None \<Rightarrow> (Inr None, st1)
             | Inr (Some r) \<Rightarrow>
                (let contentHash = nullish (map_of (ca_headers r) (js ''X-Z-Reader-Content-Hash'')) [] in
                 if expected \<noteq> None \<and> (expected = Some [] \<or> expected \<noteq> Some contentHash)
                 then (Inr None, st1)
                 else case responseBlob r of
                   Inl e \<Rightarrow> (Inl e, st1)
                 | Inr b \<Rightarrow>
                    (case (case truthy (map_of (ca_headers r) (js ''X-Z-Reader-Filename'')) of
                             Some enc \<Rightarrow> decodeURIComponent enc
                           | None \<Rightarrow> Some (bookId @ js ''.epub'')) of
                       None \<Rightarrow> (Inl UriError, st1)
                     | Some filename \<Rightarrow>
                        (Inr (Some (if fileOk
                           then \<lparr>oe_file = b\<lparr>blob_type := or_else (blob_type b) octet_stream\<rparr>,
                             oe_filename = Some filename, oe_contentHash = contentHash\<rparr>
                           else \<lparr>oe_file = b, oe_filename = None, oe_contentHash = contentHash\<rparr>)), st1))))))"

definition getOfflineBook ::
  "storage_env \<Rightarrow> bool \<Rightarrow> ustring \<Rightarrow> ustring \<Rightarrow> ustring option \<Rightarrow> cache_storage \<Rightarrow>
    (storage_error + blob option) \<times> cache_storage" where
  "getOfflineBook env fileOk userId bookId expected st =
    (case getOfflineBookEntry env fileOk userId bookId expected st of
       (Inl e, st1) \<Rightarrow> (Inl e, st1)
     | (Inr entry, st1) \<Rightarrow> (Inr (map_option oe_file entry), st1))"

definition removeOfflineBook ::
  "storage_env \<Rightarrow> ustring \<Rightarrow> ustring \<Rightarrow> cache_storage \<Rightarrow> (storage_error + unit) \<times> cache_storage" where
  "removeOfflineBook env userId bookId st =
    (if userId = [] \<or> \<not> supported env then (Inr (), st)
     else case openCache env userId st of
       (Inl e, st1) \<Rightarrow> (Inl e, st1)
     | (Inr name, st1) \<Rightarrow>
        (case cacheRequest bookId of
           None \<Rightarrow> (Inl UriError, st1)
         | Some path \<Rightarrow>
            (if \<not> deleteOk env path then (Inl StorageFailure, st1)
             else clearPartialBookDownload env userId bookId
               (mapSet name (mapDelete path (the_cache st1 name)) st1))))"

definition clearOfflineBooks ::
  "storage_env \<Rightarrow> ustring option \<Rightarrow> cache_storage \<Rightarrow> (storage_error + unit) \<times> cache_storage" where
  "clearOfflineBooks env userId st =
    (case truthy userId of
       None \<Rightarrow> (Inr (), st)
     | Some uid \<Rightarrow>
        (if \<not> supported env then (Inr (), st)
         else case cacheName uid of
           None \<Rightarrow> (Inl UriError, st)
         | Some name \<Rightarrow>
            (if deleteOk env name then (Inr (), mapDelete name st) else (Inl StorageFailure, st))))"

text \<open>
  How a download uses its writer (\<^verbatim>\<open>persistChunk\<close> in \<^verbatim>\<open>book-download.ts\<close>): appends are serialised, and
  after the first one that fails the writer is dropped and nothing more is stored.
\<close>

definition appendStep ::
  "storage_env \<times> real \<times> blob \<Rightarrow> writer option \<times> cache_storage \<Rightarrow> writer option \<times> cache_storage" where
  "appendStep x s = (case (x, s) of
     ((env, now, chunk), (None, st)) \<Rightarrow> (None, st)
   | ((env, now, chunk), (Some w, st)) \<Rightarrow>
       (case writerAppend env now w chunk st of
          (Inl _, st1) \<Rightarrow> (None, st1) | (Inr w1, st1) \<Rightarrow> (Some w1, st1)))"

definition appendAll ::
  "(storage_env \<times> real \<times> blob) list \<Rightarrow> writer option \<times> cache_storage \<Rightarrow> writer option \<times> cache_storage" where
  "appendAll xs s = fold appendStep xs s"

section \<open>Paths\<close>

lemma the_cache_set [simp]: "the_cache (mapSet n c st) n' = (if n' = n then c else the_cache st n')"
  by (simp add: the_cache_def)

lemma openCache_cache [simp]:
  "openCache env u st = (r, st1) \<Longrightarrow> the_cache st1 n = the_cache st n"
  by (auto simp: openCache_def the_cache_def mapHas_def split: option.splits if_splits)

lemma openCache_name: "openCache env u st = (Inr name, st1) \<Longrightarrow> cacheName u = Some name"
  by (auto simp: openCache_def split: option.splits if_splits)

lemma metaRequest_iff:
  "partialDownloadMetaRequest b = Some p \<longleftrightarrow> (\<exists>d. partialDownloadPath b = Some d \<and> p = d @ js ''meta'')"
  by (auto simp: partialDownloadMetaRequest_def)

lemma chunkRequest_iff:
  "partialDownloadChunkRequest b i = Some p \<longleftrightarrow>
    (\<exists>d. partialDownloadPath b = Some d \<and> p = d @ js ''chunk/'' @ dec i)"
  by (auto simp: partialDownloadChunkRequest_def)

lemma chunk_meta_path [simp]: "js ''chunk/'' @ x \<noteq> js ''meta''" "js ''meta'' \<noteq> js ''chunk/'' @ x"
  by (simp_all add: js_def)

text \<open>An encoded id has no slash, so the paths of two books are never prefixes of each other.\<close>

lemma no_slash_split:
  assumes "x @ js ''/'' @ y = x' @ js ''/'' @ y'" and "47 \<notin> set x" and "47 \<notin> set x'"
  shows "x = x'"
proof -
  have "takeWhile (\<lambda>c. c \<noteq> 47) (x @ js ''/'' @ y) = x" if "47 \<notin> set x" for x y :: ustring
    using that by (induction x) (auto simp: js_def)
  with assms show ?thesis by metis
qed

lemma partial_prefix_inj:
  assumes "partialDownloadPath b = Some d" and "partialDownloadPath b' = Some d'"
    and "startsWith (d' @ r) d" and "units b" and "units b'"
  shows "b = b'"
proof -
  obtain e e' where e: "encodeURIComponent b = Some e" "d = PARTIAL_DOWNLOAD_KEY_PREFIX @ e @ js ''/''"
    and e': "encodeURIComponent b' = Some e'" "d' = PARTIAL_DOWNLOAD_KEY_PREFIX @ e' @ js ''/''"
    using assms(1,2) by (auto simp: partialDownloadPath_def)
  obtain t where "e' @ js ''/'' @ r = e @ js ''/'' @ t"
    using assms(3) e e' by (auto simp: startsWith_iff)
  then have "e' = e" using encode_no_slash e e' by (blast intro: no_slash_split)
  then show ?thesis using encode_inj e e' assms(4,5) by blast
qed

lemma file_not_partial:
  assumes "cacheRequest b' = Some p" and "partialDownloadPath b = Some d"
  shows "\<not> startsWith p d"
proof
  assume "startsWith p d"
  then obtain e e' t where e': "encodeURIComponent b' = Some e'"
    and "CACHE_KEY_PREFIX @ e' = PARTIAL_DOWNLOAD_KEY_PREFIX @ e @ js ''/'' @ t"
    using assms by (auto simp: cacheRequest_def partialDownloadPath_def startsWith_iff)
  then have "47 \<in> set e'" by (simp add: PARTIAL_DOWNLOAD_KEY_PREFIX_def js_def)
  with encode_no_slash [OF e'] show False by simp
qed

section \<open>The committed prefix\<close>

text \<open>The entries of a cache hold exactly the chunks \<open>bs\<close> of a book as its partial download.\<close>

definition committed :: "cache_storage \<Rightarrow> ustring \<Rightarrow> ustring \<Rightarrow> blob list \<Rightarrow> bool" where
  "committed st name d bs \<longleftrightarrow>
    list_all (\<lambda>b. 0 < blob_size b) bs \<and>
    (\<forall>i < length bs. \<exists>r. mapGet (the_cache st name) (d @ js ''chunk/'' @ dec i) = Some r \<and>
       responseBlob r = Inr (bs ! i)) \<and>
    (if bs = [] then mapGet (the_cache st name) (d @ js ''meta'') = None
     else \<exists>r m. mapGet (the_cache st name) (d @ js ''meta'') = Some r \<and> responseJson r = Inr m \<and>
       pm_chunks m = Fin (real (length bs)) \<and> pm_downloadedBytes m = Fin (real (chunkBytes bs)))"

definition writer_at :: "writer \<Rightarrow> ustring \<Rightarrow> ustring \<Rightarrow> blob list \<Rightarrow> bool" where
  "writer_at w name b bs \<longleftrightarrow> wr_cache w = Some name \<and> wr_bookId w = b \<and> wr_chunks w = length bs \<and>
     wr_downloadedBytes w = real (chunkBytes bs)"

lemma responseBlob_blobResponse [simp]: "responseBlob (blobResponse b) = Inr b"
  by (simp add: responseBlob_def blobResponse_def)

lemma responseJson_metaResponse [simp]: "responseJson (metaResponse m) = Inr m"
  by (simp add: responseJson_def metaResponse_def)

lemma chunkBytes_snoc [simp]: "chunkBytes (bs @ [b]) = chunkBytes bs + blob_size b"
  by (simp add: chunkBytes_def)

lemma committed_stray_chunk:
  "committed st name d bs \<Longrightarrow> length bs \<le> i \<Longrightarrow>
    committed (mapSet name (mapSet (d @ js ''chunk/'' @ dec i) r (the_cache st name)) st) name d bs"
  by (auto simp: committed_def split: if_splits)

lemma committed_commit:
  assumes "committed st name d bs" and "0 < blob_size c"
    and "pm_chunks m = Fin (real (length bs + 1))"
    and "pm_downloadedBytes m = Fin (real (chunkBytes bs + blob_size c))"
  shows "committed (mapSet name (mapSet (d @ js ''meta'') (metaResponse m)
      (mapSet (d @ js ''chunk/'' @ dec (length bs)) (blobResponse c) (the_cache st name))) st') name d
      (bs @ [c])"
  using assms by (auto simp: committed_def nth_append less_Suc_eq
      split: if_splits)

lemma appendStep_committed:
  assumes "partialDownloadPath b = Some d" and "committed st name d bs" and "writer_at w name b bs"
    and "appendStep (env, now, c) (Some w, st) = (w', st')"
  shows "case w' of
      None \<Rightarrow> committed st' name d bs
    | Some w1 \<Rightarrow> committed st' name d (bs @ filter (\<lambda>c. 0 < blob_size c) [c]) \<and>
        writer_at w1 name b (bs @ filter (\<lambda>c. 0 < blob_size c) [c])"
proof (cases "blob_size c = 0")
  case True
  then show ?thesis using assms by (auto simp: appendStep_def writerAppend_def writer_at_def)
next
  case False
  obtain r where q: "quotaCheck env w c = r" by blast
  have w1: "wr_cache w1 = Some name \<and> wr_bookId w1 = b \<and> wr_chunks w1 = length bs \<and>
      wr_downloadedBytes w1 = real (chunkBytes bs)" if "r = Inr w1" for w1
    using q that assms(3) by (auto simp: quotaCheck_def writer_at_def split: if_splits sum.splits)
  have paths: "partialDownloadChunkRequest b (length bs) = Some (d @ js ''chunk/'' @ dec (length bs))"
    "partialDownloadMetaRequest b = Some (d @ js ''meta'')"
    using assms(1) by (simp_all add: chunkRequest_iff metaRequest_iff)
  show ?thesis
  proof (cases r)
    case (Inl e)
    then show ?thesis using assms q False by (auto simp: appendStep_def writerAppend_def writer_at_def)
  next
    case (Inr w1)
    note w1 = w1 [OF Inr]
    have "appendStep (env, now, c) (Some w, st) =
        (case commitChunk env name now w1 c st of (Inl _, s) \<Rightarrow> (None, s) | (Inr w2, s) \<Rightarrow> (Some w2, s))"
      using q Inr False assms(3) by (simp add: appendStep_def writerAppend_def writer_at_def)
    then show ?thesis
      using assms(2,4) w1 False
      by (auto simp: commitChunk_def paths cachePut_def writer_at_def writerMeta_def
          split: if_splits prod.splits sum.splits
          intro!: committed_commit committed_stray_chunk)
  qed
qed

abbreviation nonempty :: "blob list \<Rightarrow> blob list" where
  "nonempty \<equiv> filter (\<lambda>c. 0 < blob_size c)"

lemma appendAll_dropped [simp]: "appendAll xs (None, st) = (None, st)"
  by (induction xs) (auto simp: appendAll_def appendStep_def)

abbreviation chunks_of :: "(storage_env \<times> real \<times> blob) list \<Rightarrow> blob list" where
  "chunks_of xs \<equiv> nonempty (map (\<lambda>(_, _, c). c) xs)"

lemma appendAll_committed:
  assumes "partialDownloadPath b = Some d" and "committed st name d bs" and "writer_at w name b bs"
    and "appendAll xs (Some w, st) = (w', st')"
  shows "\<exists>k. committed st' name d (bs @ take k (chunks_of xs)) \<and>
    (w' \<noteq> None \<longrightarrow> take k (chunks_of xs) = chunks_of xs)"
  using assms(2-)
proof (induction xs arbitrary: bs st w)
  case Nil
  then show ?case by (auto simp: appendAll_def)
next
  case (Cons x xs)
  obtain env now c where x: "x = (env, now, c)" by (cases x)
  obtain w1 st1 where step: "appendStep x (Some w, st) = (w1, st1)" by fastforce
  note c = appendStep_committed [OF assms(1) Cons.prems(1,2) step [unfolded x]]
  have run: "appendAll xs (w1, st1) = (w', st')" using Cons.prems(3) step by (simp add: appendAll_def)
  show ?case
  proof (cases w1)
    case None
    with c run show ?thesis by (intro exI [of _ 0]) simp
  next
    case (Some w2)
    have "committed st1 name d (bs @ nonempty [c])" "writer_at w2 name b (bs @ nonempty [c])"
      "appendAll xs (Some w2, st1) = (w', st')" using c run Some by auto
    from Cons.IH [OF this] obtain k where
      "committed st' name d ((bs @ nonempty [c]) @ take k (chunks_of xs))"
      "w' \<noteq> None \<longrightarrow> take k (chunks_of xs) = chunks_of xs" by blast
    then show ?thesis
      using x by (intro exI [of _ "length (nonempty [c]) + k"]) (auto split: if_splits)
  qed
qed

definition healthy :: "storage_env \<Rightarrow> bool" where
  "healthy env \<longleftrightarrow> supported env \<and> openOk env \<and> keysOk env \<and> readOk env = (\<lambda>_. True) \<and>
     writeOk env = (\<lambda>_. True) \<and> deleteOk env = (\<lambda>_. True)"

lemma healthy_open:
  "healthy env \<Longrightarrow> cacheName u = Some name \<Longrightarrow> \<exists>st1. openCache env u st = (Inr name, st1)"
  by (simp add: openCache_def healthy_def)

lemma readChunks_committed:
  assumes "healthy env" and "partialDownloadPath b = Some d"
    and "\<forall>i \<in> set is. i < length bs \<and> (\<exists>r. mapGet (the_cache st name) (d @ js ''chunk/'' @ dec i) = Some r \<and>
       responseBlob r = Inr (bs ! i))"
  shows "readChunks env name b st is = Inr (Some (map (\<lambda>i. bs ! i) is))"
proof -
  have "partialDownloadChunkRequest b i = Some (d @ js ''chunk/'' @ dec i)" for i
    using assms(2) by (simp add: chunkRequest_iff)
  with assms(1,3) show ?thesis
    by (induction "is") (auto simp: cacheMatch_def healthy_def)
qed

lemma readChunks_result:
  "readChunks env name b st is = Inr (Some bs) \<Longrightarrow> partialDownloadPath b = Some d \<Longrightarrow>
    length bs = length is \<and> (\<forall>j < length is. \<exists>r.
      mapGet (the_cache st name) (d @ js ''chunk/'' @ dec (is ! j)) = Some r \<and> responseBlob r = Inr (bs ! j))"
proof (induction "is" arbitrary: bs)
  case (Cons i "is")
  from Cons.prems obtain r b1 bs1 where
    "mapGet (the_cache st name) (d @ js ''chunk/'' @ dec i) = Some r" "responseBlob r = Inr b1"
    "readChunks env name b st is = Inr (Some bs1)" "bs = b1 # bs1"
    by (auto simp: cacheMatch_def partialDownloadChunkRequest_def split: option.splits sum.splits if_splits)
  with Cons.IH [of bs1] Cons.prems(2) show ?case by (auto simp: less_Suc_eq_0_disj)
qed simp

lemma getPartial_committed:
  assumes "healthy env" and "u \<noteq> []" and "cacheName u = Some name" and "partialDownloadPath b = Some d"
    and "committed st name d bs"
  shows "case fst (getPartialBookDownload env u b st) of
      None \<Rightarrow> bs = []
    | Some p \<Rightarrow> bs \<noteq> [] \<and> pd_chunks p = bs \<and> pd_downloadedBytes p = real (chunkBytes bs)"
proof -
  obtain st1 where st1: "openCache env u st = (Inr name, st1)" using healthy_open assms(1,3) by blast
  have c: "the_cache st1 name = the_cache st name" using st1 by simp
  have meta: "partialDownloadMetaRequest b = Some (d @ js ''meta'')"
    using assms(4) by (simp add: metaRequest_iff)
  have sup: "supported env" "\<And>p. readOk env p" using assms(1) by (auto simp: healthy_def)
  show ?thesis
  proof (cases "bs = []")
    case True
    then show ?thesis
      using assms(2,5) st1 c meta sup by (simp add: getPartialBookDownload_def cacheMatch_def committed_def)
  next
    case False
    then obtain r m where m: "mapGet (the_cache st name) (d @ js ''meta'') = Some r" "responseJson r = Inr m"
      "pm_chunks m = Fin (real (length bs))" "pm_downloadedBytes m = Fin (real (chunkBytes bs))"
      using assms(5) by (auto simp: committed_def)
    have pos: "0 < chunkBytes bs" using False assms(5) by (cases bs) (auto simp: committed_def chunkBytes_def)
    then have mc: "metaChunks m = Some (length bs)" using m False by (simp add: metaChunks_def)
    have "readChunks env name b st1 [0..<length bs] = Inr (Some (map (\<lambda>i. bs ! i) [0..<length bs]))"
      using assms(1,4,5) c by (intro readChunks_committed) (auto simp: committed_def)
    then show ?thesis
      using assms(2) st1 c meta sup m mc False
      by (simp add: getPartialBookDownload_def cacheMatch_def map_nth)
  qed
qed

text \<open>Conversely, a reader on a working storage leaves the prefix it returns committed, and clears
  everything when it returns nothing.\<close>

lemma clear_committed:
  assumes "healthy env" and "u \<noteq> []" and "cacheName u = Some name" and "partialDownloadPath b = Some d"
  shows "committed (snd (clearPartialBookDownload env u b st)) name d []"
proof -
  obtain st1 where st1: "openCache env u st = (Inr name, st1)" using healthy_open assms(1,3) by blast
  have "map_of (filter (\<lambda>(p, _). \<not> startsWith p d) c) (d @ x) = None" for x and c :: book_cache
    by (auto simp: map_of_eq_None_iff startsWith_iff)
  with assms st1 show ?thesis by (simp add: clearPartialBookDownload_def healthy_def committed_def Let_def)
qed

lemma metaChunks_Some:
  "metaChunks m = Some n \<Longrightarrow>
    0 < n \<and> pm_chunks m = Fin (real n) \<and> (\<exists>x > 0. pm_downloadedBytes m = Fin x)"
  by (auto simp: metaChunks_def split: jsnum.splits if_splits elim!: Ints_cases)

lemma getPartial_cases [consumes 5, case_names Absent Unreadable Discarded Found]:
  assumes "healthy env" and "u \<noteq> []" and "cacheName u = Some name" and "partialDownloadPath b = Some d"
    and "getPartialBookDownload env u b st = (res, st')"
  obtains (Absent) "res = None" "mapGet (the_cache st' name) (d @ js ''meta'') = None"
      "the_cache st' name = the_cache st name"
  | (Unreadable) r e n where "res = None" "mapGet (the_cache st name) (d @ js ''meta'') = Some r"
      "responseJson r = Inl e \<or> readChunks env name b st' [0..<n] = Inl e"
      "the_cache st' name = the_cache st name"
  | (Discarded) st1 where "res = None" "st' = snd (clearPartialBookDownload env u b st1)"
  | (Found) r m n bs p where "res = Some p" "mapGet (the_cache st' name) (d @ js ''meta'') = Some r"
      "responseJson r = Inr m" "metaChunks m = Some n" "readChunks env name b st' [0..<n] = Inr (Some bs)"
      "real (chunkBytes bs) = fin (pm_downloadedBytes m)" "pd_chunks p = bs"
      "pd_downloadedBytes p = fin (pm_downloadedBytes m)"
proof -
  obtain st1 where st1: "openCache env u st = (Inr name, st1)" using healthy_open assms(1,3) by blast
  have c: "the_cache st1 name = the_cache st name" using st1 by simp
  have meta: "partialDownloadMetaRequest b = Some (d @ js ''meta'')"
    using assms(4) by (simp add: metaRequest_iff)
  have ok: "supported env" "\<And>p. readOk env p" using assms(1) by (auto simp: healthy_def)
  note defs = getPartialBookDownload_def cacheMatch_def discardPartial_def
  note run = assms(5) [unfolded defs, simplified assms(2) st1 meta ok simp_thms if_False if_True
      option.case sum.case prod.case, simplified]
  show ?thesis
  proof (cases "mapGet (the_cache st1 name) (d @ js ''meta'')")
    case None
    with run c show ?thesis by (intro Absent) auto
  next
    case (Some r)
    show ?thesis
    proof (cases "responseJson r")
      case (Inl e)
      with run Some c show ?thesis by (intro Unreadable [of r e 0]) auto
    next
      case (Inr m)
      show ?thesis
      proof (cases "metaChunks m")
        case None
        with run Some Inr show ?thesis by (intro Discarded [of st1]) auto
      next
        case n: (Some n)
        consider (err) e where "readChunks env name b st1 [0..<n] = Inl e"
          | (missing) "readChunks env name b st1 [0..<n] = Inr None"
          | (found) bs where "readChunks env name b st1 [0..<n] = Inr (Some bs)"
          by (metis option.exhaust sum.exhaust)
        then show ?thesis
        proof cases
          case err
          with run Some Inr n c show ?thesis by (intro Unreadable [of r e n]) auto
        next
          case missing
          with run Some Inr n show ?thesis by (intro Discarded [of st1]) auto
        next
          case found
          with run Some Inr n show ?thesis
            by (cases "real (chunkBytes bs) = fin (pm_downloadedBytes m)")
              (auto intro: Discarded [of st1] Found)
        qed
      qed
    qed
  qed
qed

text \<open>The partial entries of a book have been written by a writer: metadata as JSON, chunks as blobs.\<close>

definition well_stored :: "cache_storage \<Rightarrow> ustring \<Rightarrow> ustring \<Rightarrow> bool" where
  "well_stored st name d \<longleftrightarrow>
    (\<forall>r. mapGet (the_cache st name) (d @ js ''meta'') = Some r \<longrightarrow> (\<exists>m. responseJson r = Inr m)) \<and>
    (\<forall>i r. mapGet (the_cache st name) (d @ js ''chunk/'' @ dec i) = Some r \<longrightarrow>
       (\<exists>b. responseBlob r = Inr b \<and> 0 < blob_size b))"

lemma getPartial_read:
  assumes "healthy env" and "u \<noteq> []" and "cacheName u = Some name" and "partialDownloadPath b = Some d"
    and "getPartialBookDownload env u b st = (Some p, st')" and "well_stored st' name d"
  shows "committed st' name d (pd_chunks p) \<and> pd_downloadedBytes p = real (chunkBytes (pd_chunks p))"
  using assms(1-5)
proof (cases rule: getPartial_cases)
  case (Found r m n bs p')
  have "length bs = n \<and> (\<forall>j < n. \<exists>r. mapGet (the_cache st' name) (d @ js ''chunk/'' @ dec j) = Some r \<and>
      responseBlob r = Inr (bs ! j))"
    using readChunks_result [OF Found(5) assms(4)] by auto
  moreover from this have "list_all (\<lambda>c. 0 < blob_size c) bs"
    using assms(6) unfolding well_stored_def list_all_length by (metis old.sum.inject(2))
  ultimately show ?thesis using Found metaChunks_Some [OF Found(4)] by (auto simp: committed_def)
qed auto

lemma getPartial_storage:
  "getPartialBookDownload env u b st = (Some p, st') \<Longrightarrow> the_cache st' n = the_cache st n"
  by (auto simp: getPartialBookDownload_def discardPartial_def split: option.splits sum.splits if_splits
      prod.splits dest: openCache_cache)

lemma readChunks_well_stored:
  assumes "healthy env" and "partialDownloadPath b = Some d" and "well_stored st name d"
  shows "readChunks env name b st is \<noteq> Inl e"
proof (induction "is")
  case (Cons i "is")
  let ?p = "d @ js ''chunk/'' @ dec i"
  have p: "partialDownloadChunkRequest b i = Some ?p" "readOk env ?p"
    using assms(1,2) by (simp_all add: chunkRequest_iff healthy_def)
  show ?case
  proof (cases "mapGet (the_cache st name) ?p")
    case (Some r)
    then obtain c where "responseBlob r = Inr c" using assms(3) unfolding well_stored_def by blast
    with Some p Cons show ?thesis by (auto simp: cacheMatch_def split: sum.splits option.splits)
  qed (simp add: p cacheMatch_def)
qed simp

lemma getPartial_none:
  assumes "healthy env" and "u \<noteq> []" and "cacheName u = Some name" and "partialDownloadPath b = Some d"
    and "getPartialBookDownload env u b st = (None, st')" and "well_stored st name d"
  shows "committed st' name d []"
  using assms(1-5)
proof (cases rule: getPartial_cases)
  case (Unreadable r e n)
  then have "well_stored st' name d" using assms(6) by (simp add: well_stored_def)
  with Unreadable readChunks_well_stored [OF assms(1,4), of st' name] assms(6) show ?thesis
    by (auto simp: well_stored_def)
next
  case (Discarded st1)
  with clear_committed [OF assms(1-4)] show ?thesis by simp
qed (auto simp: committed_def)

lemma createWriter_at:
  assumes "u \<noteq> []" and "cacheName u = Some name" and "supported env"
    and "createPartialBookDownloadWriter env u b totalB ct (Some d0) etag st = (Inr w, st')"
    and "case d0 of None \<Rightarrow> bs = []
      | Some p \<Rightarrow> bs = pd_chunks p \<and> pd_downloadedBytes p = real (chunkBytes bs)"
  shows "writer_at w name b bs \<and> the_cache st' n = the_cache st n"
  using assms
  by (auto simp: createPartialBookDownloadWriter_def initialCounts_def writer_at_def chunkBytes_def
      split: prod.splits sum.splits option.splits dest: openCache_name)

lemma committed_cong: "(\<And>n. the_cache st n = the_cache st' n) \<Longrightarrow> committed st name d bs = committed st' name d bs"
  by (simp add: committed_def)

section \<open>Frames: accounts and books do not interfere\<close>

text \<open>Every exported operation, with the writer of a download as a session of appends.\<close>

datatype storage_op =
    SaveOffline storage_env ustring book blob
  | GetPartial storage_env ustring ustring
  | AppendPartial storage_env real ustring ustring blob "real option" ustring
  | WriterSession storage_env ustring ustring "real option" ustring "partialDownload option option"
      "ustring option" "(storage_env \<times> real \<times> blob) list"
  | ClearPartial storage_env ustring ustring
  | GetOffline storage_env bool ustring ustring "ustring option"
  | RemoveOffline storage_env ustring ustring
  | ClearAll storage_env ustring

fun op_user :: "storage_op \<Rightarrow> ustring" where
  "op_user (SaveOffline _ u _ _) = u"
| "op_user (GetPartial _ u _) = u"
| "op_user (AppendPartial _ _ u _ _ _ _) = u"
| "op_user (WriterSession _ u _ _ _ _ _ _) = u"
| "op_user (ClearPartial _ u _) = u"
| "op_user (GetOffline _ _ u _ _) = u"
| "op_user (RemoveOffline _ u _) = u"
| "op_user (ClearAll _ u) = u"

fun storage_step :: "storage_op \<Rightarrow> cache_storage \<Rightarrow> cache_storage" where
  "storage_step (SaveOffline env u bk f) st = snd (saveOfflineBook env u bk f st)"
| "storage_step (GetPartial env u b) st = snd (getPartialBookDownload env u b st)"
| "storage_step (AppendPartial env now u b c totalB ct) st =
     snd (appendPartialBookDownload env now u b c totalB ct st)"
| "storage_step (WriterSession env u b totalB ct initial etag xs) st =
     (case createPartialBookDownloadWriter env u b totalB ct initial etag st of
        (Inl _, st1) \<Rightarrow> st1 | (Inr w, st1) \<Rightarrow> snd (appendAll xs (Some w, st1)))"
| "storage_step (ClearPartial env u b) st = snd (clearPartialBookDownload env u b st)"
| "storage_step (GetOffline env fileOk u b h) st = snd (getOfflineBookEntry env fileOk u b h st)"
| "storage_step (RemoveOffline env u b) st = snd (removeOfflineBook env u b st)"
| "storage_step (ClearAll env u) st = snd (clearOfflineBooks env (Some u) st)"

lemma openCache_frame:
  "openCache env u st = (r, st1) \<Longrightarrow> cacheName u \<noteq> Some n \<Longrightarrow> mapGet st1 n = mapGet st n"
  by (auto simp: openCache_def split: option.splits if_splits)

lemma cachePut_frame: "cachePut env name p v st = (r, st1) \<Longrightarrow> n \<noteq> name \<Longrightarrow> mapGet st1 n = mapGet st n"
  by (auto simp: cachePut_def split: if_splits)

lemma clearPartial_frame:
  "cacheName u \<noteq> Some n \<Longrightarrow> mapGet (snd (clearPartialBookDownload env u b st)) n = mapGet st n"
  by (auto simp: clearPartialBookDownload_def Let_def split: prod.splits sum.splits option.splits
      dest: openCache_frame openCache_name)

lemma writerAppend_frame:
  "writerAppend env now w c st = (r, st1) \<Longrightarrow> wr_cache w \<noteq> Some n \<Longrightarrow> mapGet st1 n = mapGet st n"
  by (auto simp: writerAppend_def commitChunk_def cachePut_def
      split: prod.splits sum.splits option.splits if_splits)

lemma writerAppend_cache: "writerAppend env now w c st = (Inr w1, st1) \<Longrightarrow> wr_cache w1 = wr_cache w"
  by (auto simp: writerAppend_def commitChunk_def quotaCheck_def
      split: prod.splits sum.splits option.splits if_splits)

lemma appendAll_frame:
  "wr_cache w \<noteq> Some n \<Longrightarrow> mapGet (snd (appendAll xs (Some w, st))) n = mapGet st n"
proof (induction xs arbitrary: w st)
  case Nil
  then show ?case by (simp add: appendAll_def)
next
  case (Cons x xs)
  obtain env now c where x: "x = (env, now, c)" by (cases x)
  obtain r st1 where a: "writerAppend env now w c st = (r, st1)" by fastforce
  have "mapGet st1 n = mapGet st n" using writerAppend_frame [OF a Cons.prems] .
  moreover have "mapGet (snd (appendAll xs (Some w1, st1))) n = mapGet st1 n" if "r = Inr w1" for w1
    using Cons.IH [of w1 st1] writerAppend_cache a that Cons.prems by auto
  moreover have "appendAll (x # xs) (Some w, st) = appendAll xs (case r of Inl _ \<Rightarrow> (None, st1) | Inr w1 \<Rightarrow> (Some w1, st1))"
    by (simp add: appendAll_def appendStep_def x a split: sum.splits)
  ultimately show ?case by (cases r) auto
qed

lemma createWriter_frame:
  assumes "createPartialBookDownloadWriter env u b totalB ct initial etag st = (r, st1)"
    and "cacheName u \<noteq> Some n"
  shows "mapGet st1 n = mapGet st n" and "r = Inr w \<Longrightarrow> wr_cache w \<noteq> Some n"
  using assms
  by (auto simp: createPartialBookDownloadWriter_def noWriter_def
      split: if_splits prod.splits sum.splits dest: openCache_frame openCache_name)

lemma getPartial_frame:
  assumes "cacheName u \<noteq> Some n"
  shows "mapGet (snd (getPartialBookDownload env u b st)) n = mapGet st n"
proof -
  have "snd (getPartialBookDownload env u b st) \<in>
      {st, snd (openCache env u st), snd (clearPartialBookDownload env u b (snd (openCache env u st)))}"
    by (simp add: getPartialBookDownload_def discardPartial_def split: prod.splits sum.splits option.splits)
  then show ?thesis
    using assms clearPartial_frame openCache_frame [of env u st] by (cases "openCache env u st") auto
qed

lemma saveOffline_frame:
  assumes "cacheName u \<noteq> Some n"
  shows "mapGet (snd (saveOfflineBook env u bk f st)) n = mapGet st n"
proof -
  obtain r st1 where o: "openCache env u st = (r, st1)" by fastforce
  have "snd (saveOfflineBook env u bk f st) \<in> {st, st1} \<or>
      (\<exists>name p v. r = Inr name \<and> snd (saveOfflineBook env u bk f st) = snd (cachePut env name p v st1))"
    by (auto simp: saveOfflineBook_def o split: sum.splits option.splits)
  then show ?thesis
    using assms openCache_frame [OF o assms] openCache_name [of env u st _ st1] o
    by (auto simp: cachePut_def)
qed

lemma getOfflineEntry_storage:
  "snd (getOfflineBookEntry env f u b h st) \<in> {st, snd (openCache env u st)}"
  by (simp add: getOfflineBookEntry_def Let_def split: prod.splits sum.splits option.splits)

lemma getOfflineEntry_frame:
  "cacheName u \<noteq> Some n \<Longrightarrow> mapGet (snd (getOfflineBookEntry env f u b h st)) n = mapGet st n"
  using getOfflineEntry_storage [of env f u b h st] openCache_frame [of env u st]
  by (cases "openCache env u st") auto

lemma removeOffline_frame:
  assumes "cacheName u \<noteq> Some n"
  shows "mapGet (snd (removeOfflineBook env u b st)) n = mapGet st n"
proof -
  obtain r st1 where o: "openCache env u st = (r, st1)" by fastforce
  then show ?thesis
    using assms openCache_frame [OF o assms] openCache_name [of env u st _ st1]
    by (auto simp: removeOfflineBook_def clearPartial_frame split: sum.splits option.splits)
qed

lemma appendPartial_frame:
  assumes "cacheName u \<noteq> Some n"
  shows "mapGet (snd (appendPartialBookDownload env now u b c totalB ct st)) n = mapGet st n"
proof -
  obtain r st1 where o: "createPartialBookDownloadWriter env u b totalB ct None None st = (r, st1)"
    by fastforce
  then show ?thesis
    using createWriter_frame [OF o assms] writerAppend_frame [of env now _ c st1]
    by (auto simp: appendPartialBookDownload_def split: sum.splits prod.splits)
qed

lemma writerSession_frame:
  assumes "cacheName u \<noteq> Some n"
  shows "mapGet (storage_step (WriterSession env u b totalB ct initial etag xs) st) n = mapGet st n"
proof -
  obtain r st1 where o: "createPartialBookDownloadWriter env u b totalB ct initial etag st = (r, st1)"
    by fastforce
  then show ?thesis
    using createWriter_frame [OF o assms] by (auto simp: appendAll_frame split: sum.splits)
qed

lemma clearOffline_frame:
  "cacheName u \<noteq> Some n \<Longrightarrow> mapGet (snd (clearOfflineBooks env (Some u) st)) n = mapGet st n"
  by (auto simp: clearOfflineBooks_def truthy_def split: option.splits)

lemma storage_step_frame:
  "cacheName (op_user op) \<noteq> Some n \<Longrightarrow> mapGet (storage_step op st) n = mapGet st n"
  by (cases op) (simp_all only: op_user.simps storage_step.simps(1-3,5-) writerSession_frame
    saveOffline_frame getPartial_frame appendPartial_frame clearPartial_frame getOfflineEntry_frame
    removeOffline_frame clearOffline_frame not_False_eq_True)

lemma cacheName_inj: "cacheName u = Some n \<Longrightarrow> cacheName v = Some n \<Longrightarrow> units u \<Longrightarrow> units v \<Longrightarrow> u = v"
  by (auto simp: cacheName_def dest: encode_inj)

section \<open>Stored files\<close>

lemma encode_header:
  assumes "encodeURIComponent s = Some e" and "units s"
  shows "headerValue e = Some e"
proof -
  have ok: "c < 256 \<and> c \<notin> {0, 10, 13} \<and> \<not> http_space c" if "c \<in> set e" for c
    using encode_chars [OF assms that] by (auto simp: unreserved_def is_digit_def http_space_def)
  have "dropWhile http_space x = x" if "set x \<subseteq> set e" for x
    using that ok by (cases x) auto
  with ok show ?thesis by (simp add: headerValue_def list_all_iff Let_def)
qed

lemma saveOffline_stored:
  assumes "saveOfflineBook env u bk f st = (Inr (), st')"
  obtains name path hs where "cacheName u = Some name" "cacheRequest (bk_id bk) = Some path"
    "fileHeaders bk f = Inr hs"
    "mapGet (the_cache st' name) path = Some \<lparr>ca_body = BlobBody (blob_bytes f), ca_headers = hs\<rparr>"
proof -
  obtain r st1 where o: "openCache env u st = (r, st1)" by fastforce
  then show ?thesis
    using assms that openCache_name [of env u st _ st1]
    by (auto simp: saveOfflineBook_def cachePut_def split: sum.splits option.splits if_splits)
qed

lemma fileHeaders_fields:
  assumes "fileHeaders bk f = Inr hs" and "headerValue (blob_type f) = Some (blob_type f)"
    and "bk_content_hash bk = Some h" and "headerValue h = Some h" and "units (bk_filename bk)"
  obtains e where "encodeURIComponent (bk_filename bk) = Some e"
    "map_of hs (js ''Content-Type'') = Some (or_else (blob_type f) octet_stream)"
    "map_of hs (js ''X-Z-Reader-Filename'') = Some e"
    "map_of hs (js ''X-Z-Reader-Content-Hash'') = Some h"
proof -
  obtain e where e: "encodeURIComponent (bk_filename bk) = Some e"
    using assms(1) by (auto simp: fileHeaders_def split: option.splits)
  have "headerValue octet_stream = Some octet_stream"
    by (simp add: headerValue_def octet_stream_def js_def http_space_def)
  then have "headerValue (or_else (blob_type f) octet_stream) = Some (or_else (blob_type f) octet_stream)"
    using assms(2) by (simp add: or_else_def)
  then have "hs = [(js ''Content-Type'', or_else (blob_type f) octet_stream), (js ''X-Z-Reader-Filename'', e),
      (js ''X-Z-Reader-Content-Hash'', h)]"
    using e encode_header [OF e assms(5)] assms by (simp add: fileHeaders_def)
  then show ?thesis by (intro that [OF e]) simp_all
qed

section \<open>Properties\<close>

text \<open>
  \<^bold>\<open>C9\<close> (crash safety of resumable downloads). Let a download read the partial state of a book on a
  working storage, create its writer from what it read, and append batches while storage fails
  arbitrarily (a quota check, the chunk's write, or the metadata's write after the chunk's). What a later
  reader gets is the chunks read at first followed by a prefix of the batches, with the matching byte
  count; it is all of them if no append failed, and nothing only if there was nothing to keep.
\<close>

theorem partial_download_crash_safe:
  assumes "healthy env" and "u \<noteq> []" and "cacheName u = Some name" and "partialDownloadPath b = Some d"
    and "well_stored st name d"
    and "getPartialBookDownload env u b st = (d0, st0)"
    and "supported env1"
    and "createPartialBookDownloadWriter env1 u b totalB ct (Some d0) etag st0 = (Inr w, st1)"
    and "appendAll xs (Some w, st1) = (w', st2)"
  shows "\<exists>k. let kept = (case d0 of None \<Rightarrow> [] | Some p \<Rightarrow> pd_chunks p) @ take k (chunks_of xs) in
    (case fst (getPartialBookDownload env u b st2) of
       None \<Rightarrow> kept = []
     | Some p \<Rightarrow> pd_chunks p = kept \<and> pd_downloadedBytes p = real (chunkBytes kept) \<and> kept \<noteq> []) \<and>
    (w' \<noteq> None \<longrightarrow> take k (chunks_of xs) = chunks_of xs)"
proof -
  let ?bs = "case d0 of None \<Rightarrow> [] | Some p \<Rightarrow> pd_chunks p"
  have c0: "committed st0 name d ?bs \<and> (\<forall>p. d0 = Some p \<longrightarrow> pd_downloadedBytes p = real (chunkBytes ?bs))"
  proof (cases d0)
    case None
    then show ?thesis using getPartial_none [OF assms(1-4) _ assms(5)] assms(6) by simp
  next
    case (Some p)
    then have "well_stored st0 name d"
      using assms(5,6) getPartial_storage [of env u b st p st0] by (simp add: well_stored_def)
    with Some show ?thesis using getPartial_read [OF assms(1-4)] assms(6) by simp
  qed
  have w: "writer_at w name b ?bs \<and> the_cache st1 n = the_cache st0 n" for n
    by (rule createWriter_at [OF assms(2,3,7,8)]) (use c0 in \<open>auto split: option.splits\<close>)
  with c0 have "committed st1 name d ?bs" using committed_cong [of st1 st0] by blast
  from appendAll_committed [OF assms(4) this conjunct1 [OF w] assms(9)] obtain k where
    k: "committed st2 name d (?bs @ take k (chunks_of xs))"
      "w' \<noteq> None \<longrightarrow> take k (chunks_of xs) = chunks_of xs" by blast
  from getPartial_committed [OF assms(1-4) k(1)] k(2) show ?thesis
    by (intro exI [of _ k]) (auto simp: Let_def split: option.splits)
qed

definition goodEnv :: storage_env where
  "goodEnv = \<lparr>supported = True, openOk = True, readOk = (\<lambda>_. True), writeOk = (\<lambda>_. True), keysOk = True,
     deleteOk = (\<lambda>_. True), estimateOk = True, estimate = None\<rparr>"

lemma healthy_goodEnv [simp]: "healthy goodEnv"
  by (simp add: healthy_def goodEnv_def)

definition sampleStore :: cache_storage where
  "sampleStore = [(CACHE_PREFIX @ js ''u'', [])]"

text \<open>The second batch loses power between its chunk and its metadata.\<close>

definition sampleBatches :: "(storage_env \<times> real \<times> blob) list" where
  "sampleBatches =
    [(goodEnv, 0, \<lparr>blob_bytes = [1, 2], blob_type = []\<rparr>),
     (goodEnv\<lparr>writeOk := (\<lambda>p. endsWith p (js ''1''))\<rparr>, 1, \<lparr>blob_bytes = [3], blob_type = []\<rparr>)]"

definition sampleWriter :: writer where
  "sampleWriter = \<lparr>wr_cache = Some (CACHE_PREFIX @ js ''u''), wr_bookId = js ''b'', wr_totalBytes = None,
     wr_contentType = [], wr_etag = None, wr_chunks = 0, wr_downloadedBytes = 0,
     wr_bytesSinceQuotaCheck = QUOTA_CHECK_INTERVAL\<rparr>"

lemma sample_names:
  "cacheName (js ''u'') = Some (CACHE_PREFIX @ js ''u'')"
  "partialDownloadPath (js ''b'') = Some (PARTIAL_DOWNLOAD_KEY_PREFIX @ js ''b'' @ js ''/'')"
proof -
  have "encodeURIComponent (js ''u'') = Some (js ''u'')" "encodeURIComponent (js ''b'') = Some (js ''b'')"
    by (simp_all add: encodeURIComponent_def js_def is_high_def is_low_def encode_point_def unreserved_def)
  then show "cacheName (js ''u'') = Some (CACHE_PREFIX @ js ''u'')"
    "partialDownloadPath (js ''b'') = Some (PARTIAL_DOWNLOAD_KEY_PREFIX @ js ''b'' @ js ''/'')"
    by (simp_all add: cacheName_def partialDownloadPath_def)
qed

lemma sample_writer:
  "createPartialBookDownloadWriter goodEnv (js ''u'') (js ''b'') None [] (Some None) None sampleStore
    = (Inr sampleWriter, sampleStore)"
  by (simp add: createPartialBookDownloadWriter_def openCache_def sample_names goodEnv_def mapHas_def
    initialCounts_def sampleStore_def sampleWriter_def truthy_def)

lemma sample_empty: "getPartialBookDownload goodEnv (js ''u'') (js ''b'') sampleStore = (None, sampleStore)"
  by (simp add: getPartialBookDownload_def openCache_def sample_names goodEnv_def mapHas_def
    partialDownloadMetaRequest_def cacheMatch_def the_cache_def sampleStore_def)

lemma sample_cache: "the_cache sampleStore n = []"
  by (simp add: the_cache_def sampleStore_def)

theorem partial_download_crash_safe_witness:
  "\<exists>k. let kept = take k (chunks_of sampleBatches) in
    (case fst (getPartialBookDownload goodEnv (js ''u'') (js ''b'')
        (snd (appendAll sampleBatches (Some sampleWriter, sampleStore)))) of
       None \<Rightarrow> kept = []
     | Some p \<Rightarrow> pd_chunks p = kept \<and> pd_downloadedBytes p = real (chunkBytes kept) \<and> kept \<noteq> [])"
proof -
  let ?w' = "fst (appendAll sampleBatches (Some sampleWriter, sampleStore))"
  let ?st = "snd (appendAll sampleBatches (Some sampleWriter, sampleStore))"
  have run: "appendAll sampleBatches (Some sampleWriter, sampleStore) = (?w', ?st)" by (rule prod.collapse [symmetric])
  have ws: "well_stored sampleStore (CACHE_PREFIX @ js ''u'') (PARTIAL_DOWNLOAD_KEY_PREFIX @ js ''b'' @ js ''/'')"
    unfolding well_stored_def sample_cache by simp
  have "supported goodEnv" "js ''u'' \<noteq> []" by (simp_all add: goodEnv_def)
  from partial_download_crash_safe [OF healthy_goodEnv this(2) sample_names ws sample_empty this(1)
      sample_writer run]
  show ?thesis unfolding Let_def option.case append_Nil by (elim exE conjE) (rule exI, assumption)
qed

text \<open>
  \<^bold>\<open>C10\<close> (accounts are isolated). Whatever sequence of operations other accounts run, with whatever
  storage failures, the cache of an account is left exactly as it was: account names never collide.
\<close>

theorem accounts_isolated:
  assumes "units v" and "cacheName v = Some name"
    and "list_all (\<lambda>op. op_user op \<noteq> v \<and> units (op_user op)) ops"
  shows "mapGet (fold storage_step ops st) name = mapGet st name"
  using assms(3)
proof (induction ops arbitrary: st)
  case (Cons op ops)
  then have "cacheName (op_user op) \<noteq> Some name"
    using cacheName_inj [OF _ assms(2) _ assms(1)] by auto
  with Cons show ?case by (simp add: storage_step_frame)
qed simp

theorem accounts_isolated_witness:
  "mapGet (fold storage_step [ClearAll goodEnv (js ''v''), RemoveOffline goodEnv (js ''v'') (js ''b'')] sampleStore)
     (CACHE_PREFIX @ js ''u'') = Some []"
proof -
  have "mapGet (fold storage_step [ClearAll goodEnv (js ''v''), RemoveOffline goodEnv (js ''v'') (js ''b'')]
      sampleStore) (CACHE_PREFIX @ js ''u'') = mapGet sampleStore (CACHE_PREFIX @ js ''u'')"
    by (rule accounts_isolated [of "js ''u''"]) (simp_all add: sample_names, simp_all add: js_def)
  then show ?thesis by (simp add: sampleStore_def)
qed

text \<open>
  Offline copies are read back as stored. A book saved for offline use is returned with its
  bytes, its media type and its file name, whatever the name contains, when the expected content hash is
  the one it was saved under or no hash is asked for; under any other hash nothing is returned.
\<close>

lemma offline_book_round_trip:
  assumes "saveOfflineBook env u bk f st = (Inr (), st1)" and "healthy env'" and "u \<noteq> []"
    and "bk_content_hash bk = Some h" and "headerValue h = Some h"
    and "headerValue (blob_type f) = Some (blob_type f)"
    and "units (bk_filename bk)" and "bk_filename bk \<noteq> []"
  shows "fst (getOfflineBookEntry env' True u (bk_id bk) expected st1) = Inr
    (if expected = None \<or> expected = Some h \<and> h \<noteq> []
     then Some \<lparr>oe_file = f\<lparr>blob_type := or_else (blob_type f) octet_stream\<rparr>,
       oe_filename = Some (bk_filename bk), oe_contentHash = h\<rparr>
     else None)"
proof -
  obtain name path hs where st: "cacheName u = Some name" "cacheRequest (bk_id bk) = Some path"
    "fileHeaders bk f = Inr hs"
    "mapGet (the_cache st1 name) path = Some \<lparr>ca_body = BlobBody (blob_bytes f), ca_headers = hs\<rparr>"
    using saveOffline_stored [OF assms(1)] by blast
  obtain e where e: "encodeURIComponent (bk_filename bk) = Some e"
    "map_of hs (js ''Content-Type'') = Some (or_else (blob_type f) octet_stream)"
    "map_of hs (js ''X-Z-Reader-Filename'') = Some e"
    "map_of hs (js ''X-Z-Reader-Content-Hash'') = Some h"
    using fileHeaders_fields [OF st(3) assms(6,4,5,7)] by blast
  obtain st2 where o: "openCache env' u st1 = (Inr name, st2)" using healthy_open [OF assms(2) st(1)] by blast
  have name: "truthy (Some e) = Some e" "decodeURIComponent e = Some (bk_filename bk)"
    using decode_encode [OF e(1) assms(7)] encode_Nil [of "bk_filename bk"] e(1) assms(7,8)
    by (auto simp: truthy_def)
  have t: "or_else (or_else (blob_type f) octet_stream) octet_stream = or_else (blob_type f) octet_stream"
    by (simp add: or_else_def)
  have "readOk env' path" "supported env'" using assms(2) by (simp_all add: healthy_def)
  then show ?thesis using assms(3) st o e name openCache_cache [OF o]
    by (auto simp: getOfflineBookEntry_def cacheMatch_def responseBlob_def t)
qed

definition sampleBook :: book where
  "sampleBook = \<lparr>bk_id = js ''b'', bk_user_id = js ''u'', bk_title = [], bk_author = [],
     bk_filename = js ''b'', bk_format = js ''epub'', bk_size = 2, bk_content_hash = Some (js ''h''),
     bk_cover_path = None, bk_cover_thumb_path = None, bk_processing_state = None, bk_category = None,
     bk_created_at = [], bk_last_read_at = None\<rparr>"

theorem offline_book_round_trip_witness:
  "fst (getOfflineBookEntry goodEnv True (js ''u'') (js ''b'') (Some (js ''x''))
     (snd (saveOfflineBook goodEnv (js ''u'') sampleBook \<lparr>blob_bytes = [1, 2], blob_type = []\<rparr> sampleStore)))
   = Inr None"
proof -
  let ?f = "\<lparr>blob_bytes = [1, 2], blob_type = []\<rparr>"
  let ?st = "snd (saveOfflineBook goodEnv (js ''u'') sampleBook ?f sampleStore)"
  have enc: "encodeURIComponent (js ''b'') = Some (js ''b'')"
    by (simp add: encodeURIComponent_def js_def is_high_def is_low_def encode_point_def unreserved_def)
  have hv: "headerValue (js ''b'') = Some (js ''b'')" "headerValue (js ''h'') = Some (js ''h'')"
    "headerValue [] = Some []" "headerValue octet_stream = Some octet_stream"
    by (simp_all add: headerValue_def octet_stream_def js_def http_space_def)
  have save: "saveOfflineBook goodEnv (js ''u'') sampleBook ?f sampleStore = (Inr (), ?st)"
    by (simp add: saveOfflineBook_def ensureCapacity_def goodEnv_def openCache_def sample_names mapHas_def
        sampleStore_def cacheRequest_def enc sampleBook_def fileHeaders_def hv or_else_def cachePut_def)
  have "fst (getOfflineBookEntry goodEnv True (js ''u'') (bk_id sampleBook) (Some (js ''x'')) ?st) = Inr
    (if Some (js ''x'') = None \<or> Some (js ''x'') = Some (js ''h'') \<and> js ''h'' \<noteq> []
     then Some \<lparr>oe_file = ?f\<lparr>blob_type := or_else (blob_type ?f) octet_stream\<rparr>,
       oe_filename = Some (bk_filename sampleBook), oe_contentHash = js ''h''\<rparr>
     else None)"
    by (rule offline_book_round_trip [OF save]) (simp_all add: hv, simp_all add: sampleBook_def js_def)
  then show ?thesis by (simp add: sampleBook_def)
qed

lemma empty_cache_forgets:
  assumes "cacheName u = Some name" and "the_cache st name = []"
  shows "fst (getPartialBookDownload env u b st) = None \<and> (\<forall>entry. fst (getOfflineBookEntry env f u b h st) \<noteq> Inr (Some entry))"
proof -
  obtain r st2 where o: "openCache env u st = (r, st2)" by fastforce
  have "the_cache st2 name' = []" if "r = Inr name'" for name'
    using openCache_name [of env u st name' st2] openCache_cache [OF o, of name] o assms that by simp
  then show ?thesis
    by (cases r) (simp_all add: getPartialBookDownload_def getOfflineBookEntry_def o cacheMatch_def
        split: option.splits)
qed

text \<open>
  Logout forgets. Once \<^verbatim>\<open>clearOfflineBooks\<close> has succeeded for an account, no offline copy and no
  partial download of any book is found for it any more, on a healthy or a failing storage.
\<close>

lemma clear_forgets:
  assumes "clearOfflineBooks env (Some u) st = (Inr (), st1)" and "supported env" and "u \<noteq> []"
  shows "fst (getPartialBookDownload env' u b st1) = None \<and>
    (\<forall>entry. fst (getOfflineBookEntry env' f u b h st1) \<noteq> Inr (Some entry))"
proof -
  obtain name where n: "cacheName u = Some name" "st1 = mapDelete name st"
    using assms by (auto simp: clearOfflineBooks_def truthy_def split: option.splits if_splits)
  then show ?thesis by (intro empty_cache_forgets [OF n(1)]) (simp add: the_cache_def)
qed

theorem clear_forgets_witness:
  "fst (getPartialBookDownload goodEnv (js ''u'') (js ''b'')
     (snd (clearOfflineBooks goodEnv (Some (js ''u'')) sampleStore))) = None"
  using clear_forgets [of goodEnv "js ''u''" sampleStore
      "snd (clearOfflineBooks goodEnv (Some (js ''u'')) sampleStore)" goodEnv "js ''b''" True None]
  by (simp add: clearOfflineBooks_def truthy_def goodEnv_def sample_names)

end
