(* ===== verification/Js_Number.thy ===== *)
theory Js_Number
  imports Prelude
begin

text \<open>
  \<^verbatim>\<open>Number(text)\<close> of the JavaScript standard library, as used on header values and stored numbers:
  surrounding white space is ignored, the empty text is zero, prefixed integers, decimals with an
  exponent and signed \<^verbatim>\<open>Infinity\<close> are read, anything else is \<^verbatim>\<open>NaN\<close>. A value that a double rounds to
  infinity is infinite; other rounding is not modelled.
\<close>

definition overflow_bound :: real where
  "overflow_bound = 2 ^ 1024 - 2 ^ 970"

definition to_double :: "real \<Rightarrow> jsnum" where
  "to_double r = (if overflow_bound \<le> r then PosInf else if r \<le> - overflow_bound then NegInf else Fin r)"

definition radix_digit :: "nat \<Rightarrow> nat option" where
  "radix_digit c = (if is_digit c then Some (c - 48)
     else if 65 \<le> c \<and> c \<le> 70 then Some (c - 55)
     else if 97 \<le> c \<and> c \<le> 102 then Some (c - 87) else None)"

fun radix_value :: "nat \<Rightarrow> nat \<Rightarrow> ustring \<Rightarrow> nat option" where
  "radix_value b acc [] = Some acc"
| "radix_value b acc (c # cs) =
    (case radix_digit c of
       Some d \<Rightarrow> if d < b then radix_value b (b * acc + d) cs else None
     | None \<Rightarrow> None)"

definition prefixed :: "ustring \<Rightarrow> nat option" where
  "prefixed s = (case s of
     z # p # c # cs \<Rightarrow>
       (if z \<noteq> 48 then None
        else if p = 120 \<or> p = 88 then radix_value 16 0 (c # cs)
        else if p = 111 \<or> p = 79 then radix_value 8 0 (c # cs)
        else if p = 98 \<or> p = 66 then radix_value 2 0 (c # cs)
        else None)
   | _ \<Rightarrow> None)"

text \<open>The exponent part: absent, or a letter e, an optional sign and digits up to the end.\<close>

definition exponent :: "ustring \<Rightarrow> int option" where
  "exponent s = (case s of
     [] \<Rightarrow> Some 0
   | c # r \<Rightarrow>
      (if c \<noteq> 101 \<and> c \<noteq> 69 then None
       else
        let neg = (r \<noteq> [] \<and> hd r = 45);
            ds = (if r \<noteq> [] \<and> (hd r = 45 \<or> hd r = 43) then tl r else r) in
        if ds \<noteq> [] \<and> list_all is_digit ds
        then Some (if neg then - int (digits_value ds) else int (digits_value ds)) else None))"

definition scale10 :: "real \<Rightarrow> int \<Rightarrow> real" where
  "scale10 m e = (if 0 \<le> e then m * 10 ^ nat e else m / 10 ^ nat (- e))"

definition unsigned_decimal :: "ustring \<Rightarrow> real option" where
  "unsigned_decimal s =
    (let ip = takeWhile is_digit s;
         r = dropWhile is_digit s;
         dot = (r \<noteq> [] \<and> hd r = 46);
         fp = (if dot then takeWhile is_digit (tl r) else []);
         r2 = (if dot then dropWhile is_digit (tl r) else r) in
     if ip = [] \<and> fp = [] then None
     else map_option (scale10 (real (digits_value ip) + real (digits_value fp) / 10 ^ length fp)) (exponent r2))"

definition toNumber :: "ustring \<Rightarrow> jsnum" where
  "toNumber s =
    (let t = trim s in
     if t = [] then Fin 0
     else case prefixed t of
       Some n \<Rightarrow> to_double (real n)
     | None \<Rightarrow>
        (let neg = (hd t = 45);
             u = (if hd t = 45 \<or> hd t = 43 then tl t else t) in
         if u = js ''Infinity'' then (if neg then NegInf else PosInf)
         else case unsigned_decimal u of
           Some r \<Rightarrow> to_double (if neg then - r else r)
         | None \<Rightarrow> NaN))"

lemma unsigned_digits:
  "s \<noteq> [] \<Longrightarrow> list_all is_digit s \<Longrightarrow> unsigned_decimal s = Some (real (digits_value s))"
  by (simp add: unsigned_decimal_def Let_def list_all_iff exponent_def scale10_def digits_value_def
      takeWhile_eq_all_conv [THEN iffD2] dropWhile_eq_Nil_conv [THEN iffD2])

lemma digit_not_space: "is_digit c \<Longrightarrow> \<not> is_space c"
  by (auto simp: is_digit_def is_space_def)

lemma trim_digits: "list_all is_digit s \<Longrightarrow> trim s = s"
  by (cases "s = []") (auto simp: list_all_iff intro!: trim_id digit_not_space)

lemma prefixed_digits: "list_all is_digit s \<Longrightarrow> prefixed s = None"
  by (auto simp: prefixed_def is_digit_def split: list.splits)

lemma toNumber_digits:
  assumes "s \<noteq> []" and "list_all is_digit s"
  shows "toNumber s = to_double (real (digits_value s))"
proof -
  have "is_digit (hd s)" using assms by (cases s) auto
  then have hd: "hd s \<noteq> 45" "hd s \<noteq> 43" "s \<noteq> js ''Infinity''"
    by (auto simp: is_digit_def js_def)
  with assms show ?thesis
    by (simp add: toNumber_def trim_digits prefixed_digits unsigned_digits Let_def)
qed

lemma toNumber_dec:
  assumes "real n < overflow_bound"
  shows "toNumber (dec n) = Fin (real n)"
proof -
  have "dec n \<noteq> []" by (subst dec.simps) simp
  moreover have "0 < overflow_bound" by (simp add: overflow_bound_def)
  then have "- overflow_bound < real n" by linarith
  ultimately show ?thesis using assms by (simp add: toNumber_digits dec_digits to_double_def)
qed

end
