(* ===== verification/Api.thy ===== *)
theory Api
  imports Offline_Books Js_Number
begin

text \<open>
  \<^verbatim>\<open>frontend/src/lib/config.ts\<close> and \<^verbatim>\<open>frontend/src/lib/api.ts\<close>: the candidate back ends, the stored
  session, the request loop with its fallback from one base to the next, and the methods of \<^verbatim>\<open>api\<close> as
  the requests they send and what they do with the answer. One attempt against one base is answered by the
  environment (\<open>fetch_outcome\<close>); bodies are JSON values, before they are turned into text.
\<close>

section \<open>config.ts\<close>

record location =
  lo_protocol :: ustring
  lo_hostname :: ustring

definition trimTrailingSlash :: "ustring \<Rightarrow> ustring" where
  "trimTrailingSlash v = rev (dropWhile (\<lambda>c. c = 47) (rev v))"

text \<open>\<open>None\<close> stands for a run without a window.\<close>

definition deriveLanApiBase :: "location option \<Rightarrow> ustring option" where
  "deriveLanApiBase window =
    (case window of
       None \<Rightarrow> None
     | Some l \<Rightarrow>
        (if lo_protocol l \<noteq> js ''http:'' then None
         else if lo_hostname l = [] \<or> lo_hostname l = js ''localhost'' \<or> lo_hostname l = js ''127.0.0.1'' then None
         else Some (lo_protocol l @ js ''//'' @ lo_hostname l @ js '':8080'')))"

definition API_BASE :: "ustring option \<Rightarrow> ustring" where
  "API_BASE configured =
    (let c = trim (nullish configured []) in if c = [] then [] else trimTrailingSlash c)"

definition getApiBaseCandidates :: "ustring option \<Rightarrow> location option \<Rightarrow> ustring list" where
  "getApiBaseCandidates configured window =
    (if API_BASE configured \<noteq> [] then [API_BASE configured]
     else [] # (case truthy (deriveLanApiBase window) of Some b \<Rightarrow> [trimTrailingSlash b] | None \<Rightarrow> []))"

definition DEFAULT_TIMEOUT :: nat where
  "DEFAULT_TIMEOUT = 30000"

definition timeoutMessage :: ustring where
  "timeoutMessage = [35831, 27714, 36229, 26102, 65292, 35831, 31245, 21518, 37325, 35797]"

definition unknownError :: ustring where
  "unknownError = [26410, 30693, 38169, 35823]"

definition normalizeRequestError :: "app_error \<Rightarrow> app_error" where
  "normalizeRequestError e =
    (case e of
       NotAnError \<Rightarrow> PlainError unknownError
     | _ \<Rightarrow> if isAbortLikeError e then PlainError timeoutMessage else e)"

section \<open>The stored session\<close>

text \<open>
  The entries of \<^verbatim>\<open>localStorage\<close> that matter here. The entry \<^verbatim>\<open>user\<close> is a stored user or a text that is
  not JSON; \<open>offlineCleared\<close> lists the accounts for which \<^verbatim>\<open>clearOfflineBooks\<close> was started and
  \<open>expiredEvents\<close> counts the dispatched \<^verbatim>\<open>z-reader-auth-expired\<close> events.
\<close>

datatype stored_user = UserJson user | NotJson ustring

record session =
  ss_available :: bool
  ss_token :: "ustring option"
  ss_user :: "stored_user option"
  ss_offlineCleared :: "ustring option list"
  ss_expiredEvents :: nat

definition getToken :: "session \<Rightarrow> ustring option" where
  "getToken s = (if ss_available s then ss_token s else None)"

definition setToken :: "ustring \<Rightarrow> session \<Rightarrow> session" where
  "setToken t s = (if ss_available s then s\<lparr>ss_token := Some t\<rparr> else s)"

definition getCurrentUser :: "session \<Rightarrow> user option \<times> session" where
  "getCurrentUser s =
    (if \<not> ss_available s then (None, s)
     else case ss_user s of
       None \<Rightarrow> (None, s)
     | Some (UserJson u) \<Rightarrow> (Some u, s)
     | Some (NotJson t) \<Rightarrow> if t = [] then (None, s) else (None, s\<lparr>ss_user := None\<rparr>))"

definition setCurrentUser :: "user \<Rightarrow> session \<Rightarrow> session" where
  "setCurrentUser u s = (if ss_available s then s\<lparr>ss_user := Some (UserJson u)\<rparr> else s)"

definition removeToken :: "session \<Rightarrow> session" where
  "removeToken s =
    (if \<not> ss_available s then s
     else
      (case getCurrentUser s of
         (u, s1) \<Rightarrow> s1\<lparr>ss_token := None, ss_user := None,
           ss_offlineCleared := ss_offlineCleared s1 @ [map_option us_id u]\<rparr>))"

definition removeLegacyToken :: "session \<Rightarrow> session" where
  "removeLegacyToken s = (if ss_available s then s\<lparr>ss_token := None\<rparr> else s)"

definition getAuthHeaders :: "session \<Rightarrow> (ustring \<times> ustring) list" where
  "getAuthHeaders s = (case truthy (getToken s) of Some t \<Rightarrow> [(js ''Authorization'', t)] | None \<Rightarrow> [])"

definition isLoggedIn :: "session \<Rightarrow> bool" where
  "isLoggedIn s \<longleftrightarrow> truthy (getToken s) \<noteq> None \<or> fst (getCurrentUser s) \<noteq> None"

text \<open>A run with a window has \<^verbatim>\<open>localStorage\<close>, so the event is dispatched whenever the session is.\<close>

definition handleUnauthorized :: "nat \<Rightarrow> session \<Rightarrow> session" where
  "handleUnauthorized st s =
    (if st \<noteq> 401 then s
     else (removeToken s)\<lparr>ss_expiredEvents := ss_expiredEvents (removeToken s) + (if ss_available s then 1 else 0)\<rparr>)"

definition handleAuthResponse :: "nat \<Rightarrow> session \<Rightarrow> session" where
  "handleAuthResponse st s = handleUnauthorized st s"

section \<open>The request loop\<close>

datatype json =
  JNull | JBool bool | JNum real | JStr ustring | JArr "json list" | JObj "(ustring \<times> json) list"

record apiRequest =
  rq_method :: ustring
  rq_path :: ustring
  rq_body :: "json option"

text \<open>
  One attempt: \<^verbatim>\<open>fetch\<close> rejects, or a response arrives. Its body is the error body that \<^verbatim>\<open>res.json()\<close> gives
  for a failed response, and the text of a successful one: \<open>Inl\<close> when reading or parsing it fails,
  \<open>None\<close> when it is empty.
\<close>

record 'a apiResponse =
  ap_status :: nat
  ap_errorBody :: "errorBody option"
  ap_value :: "app_error + 'a option"

type_synonym 'a fetch_outcome = "app_error + 'a apiResponse"

definition ap_ok :: "'a apiResponse \<Rightarrow> bool" where
  "ap_ok r \<longleftrightarrow> 200 \<le> ap_status r \<and> ap_status r \<le> 299"

definition requestFailed :: ustring where
  "requestFailed = [35831, 27714, 22833, 36133]"

definition parseApiError :: "'a apiResponse \<Rightarrow> ustring \<Rightarrow> app_error" where
  "parseApiError r fallback =
    ApiError (ap_status r)
      (case Option.bind (ap_errorBody r) (\<lambda>b. truthy (eb_error b)) of
         Some m \<Rightarrow> m
       | None \<Rightarrow>
          (case Option.bind (ap_errorBody r) (\<lambda>b. truthy (eb_message b)) of Some m \<Rightarrow> m | None \<Rightarrow> fallback))
      (ap_errorBody r)"

definition lastBase :: "ustring list \<Rightarrow> ustring \<Rightarrow> bool" where
  "lastBase bases base \<longleftrightarrow> bases \<noteq> [] \<and> last bases = base"

definition shouldRetryWithNextApiBase :: "app_error \<Rightarrow> ustring list \<Rightarrow> ustring \<Rightarrow> bool" where
  "shouldRetryWithNextApiBase e bases base =
    (if lastBase bases base then False
     else if isApiError e then False
     else if isAbortLikeError e then True
     else e = NamedErr (js ''TypeError''))"

definition shouldRetryResponseWithNextApiBase :: "nat \<Rightarrow> ustring list \<Rightarrow> ustring \<Rightarrow> bool" where
  "shouldRetryResponseWithNextApiBase st bases base =
    (if lastBase bases base then False else st = 502 \<or> st = 503 \<or> st = 504)"

definition tryingLan :: ustring where
  "tryingLan = [35831, 27714, 22833, 36133, 65292, 27491, 22312, 23581, 35797, 23616, 22495, 32593, 21518, 31471]"

record 'a fetch_result =
  fx_outcome :: "app_error + 'a"
  fx_contacted :: "ustring list"
  fx_session :: session

text \<open>What one turn of the loop of \<^verbatim>\<open>fetchApi\<close> does with the answer of a base: go on, throw or return.\<close>

datatype 'a verdict = NextBase app_error | Throw app_error | Return 'a

definition judgeApi :: "ustring list \<Rightarrow> ustring \<Rightarrow> 'a fetch_outcome \<Rightarrow> 'a option verdict" where
  "judgeApi bases base oc =
    (let caught = (\<lambda>e. if shouldRetryWithNextApiBase e bases base then NextBase e
       else Throw (normalizeRequestError e)) in
     case oc of
       Inl e \<Rightarrow> caught e
     | Inr r \<Rightarrow>
        (if \<not> ap_ok r then
           (if shouldRetryResponseWithNextApiBase (ap_status r) bases base
            then NextBase (ApiError (ap_status r) tryingLan None)
            else caught (parseApiError r requestFailed))
         else case ap_value r of Inl e \<Rightarrow> caught e | Inr v \<Rightarrow> Return v))"

definition seenStatus :: "'a fetch_outcome \<Rightarrow> session \<Rightarrow> session" where
  "seenStatus oc s = (case oc of Inr r \<Rightarrow> if ap_ok r then s else handleUnauthorized (ap_status r) s | Inl _ \<Rightarrow> s)"

fun fetchLoop ::
  "ustring list \<Rightarrow> (ustring \<Rightarrow> 'a fetch_outcome) \<Rightarrow> ustring list \<Rightarrow> app_error \<Rightarrow> session \<Rightarrow> 'a option fetch_result" where
  "fetchLoop bases net [] lastError s =
    \<lparr>fx_outcome = Inl (normalizeRequestError lastError), fx_contacted = [], fx_session = s\<rparr>"
| "fetchLoop bases net (base # rest) lastError s =
    (let s1 = seenStatus (net base) s in
     case judgeApi bases base (net base) of
       Return v \<Rightarrow> \<lparr>fx_outcome = Inr v, fx_contacted = [base], fx_session = s1\<rparr>
     | Throw e \<Rightarrow> \<lparr>fx_outcome = Inl e, fx_contacted = [base], fx_session = s1\<rparr>
     | NextBase e \<Rightarrow>
        (let r = fetchLoop bases net rest e s1 in r\<lparr>fx_contacted := base # fx_contacted r\<rparr>))"

definition fetchApi :: "ustring list \<Rightarrow> (ustring \<Rightarrow> 'a fetch_outcome) \<Rightarrow> session \<Rightarrow> 'a option fetch_result" where
  "fetchApi bases net s = fetchLoop bases net bases NotAnError s"

text \<open>\<^verbatim>\<open>authedFetch\<close> returns the response whatever its status, unless the next base is to be tried.\<close>

definition judgeAuthed :: "ustring list \<Rightarrow> ustring \<Rightarrow> 'a fetch_outcome \<Rightarrow> 'a apiResponse verdict" where
  "judgeAuthed bases base oc =
    (case oc of
       Inl e \<Rightarrow> if shouldRetryWithNextApiBase e bases base then NextBase e else Throw (normalizeRequestError e)
     | Inr r \<Rightarrow>
        (if shouldRetryResponseWithNextApiBase (ap_status r) bases base
         then NextBase (ApiError (ap_status r) tryingLan None) else Return r))"

fun authedLoop ::
  "ustring list \<Rightarrow> (ustring \<Rightarrow> 'a fetch_outcome) \<Rightarrow> ustring list \<Rightarrow> app_error \<Rightarrow> session \<Rightarrow> 'a apiResponse fetch_result" where
  "authedLoop bases net [] lastError s =
    \<lparr>fx_outcome = Inl (normalizeRequestError lastError), fx_contacted = [], fx_session = s\<rparr>"
| "authedLoop bases net (base # rest) lastError s =
    (let s1 = (case net base of Inr r \<Rightarrow> handleUnauthorized (ap_status r) s | Inl _ \<Rightarrow> s) in
     case judgeAuthed bases base (net base) of
       Return r \<Rightarrow> \<lparr>fx_outcome = Inr r, fx_contacted = [base], fx_session = s1\<rparr>
     | Throw e \<Rightarrow> \<lparr>fx_outcome = Inl e, fx_contacted = [base], fx_session = s1\<rparr>
     | NextBase e \<Rightarrow>
        (let r = authedLoop bases net rest e s1 in r\<lparr>fx_contacted := base # fx_contacted r\<rparr>))"

definition authedFetch :: "ustring list \<Rightarrow> (ustring \<Rightarrow> 'a fetch_outcome) \<Rightarrow> session \<Rightarrow> 'a apiResponse fetch_result" where
  "authedFetch bases net s = authedLoop bases net bases NotAnError s"

definition parseJsonResponse :: "'a apiResponse \<Rightarrow> ustring \<Rightarrow> app_error + 'a" where
  "parseJsonResponse r fallback =
    (case ap_value r of
       Inl e \<Rightarrow> Inl e | Inr None \<Rightarrow> Inl (ApiError (ap_status r) fallback None) | Inr (Some v) \<Rightarrow> Inr v)"

definition duplicateBookFromError :: "app_error \<Rightarrow> book option" where
  "duplicateBookFromError e =
    (case e of ApiError st _ (Some body) \<Rightarrow> if st = 409 then eb_book body else None | _ \<Rightarrow> None)"

section \<open>Queries\<close>

text \<open>\<^verbatim>\<open>URLSearchParams\<close>: a space becomes a plus sign.\<close>

definition form_byte :: "nat \<Rightarrow> ustring" where
  "form_byte b =
    (if 65 \<le> b \<and> b \<le> 90 \<or> 97 \<le> b \<and> b \<le> 122 \<or> is_digit b \<or> b \<in> {42, 45, 46, 95} then [b]
     else if b = 32 then [43] else pct b)"

definition form_encode :: "ustring \<Rightarrow> ustring" where
  "form_encode s = concat (map form_byte (concat (map utf8 (scalar_values s))))"

fun join :: "ustring \<Rightarrow> ustring list \<Rightarrow> ustring" where
  "join sep [] = []"
| "join sep [x] = x"
| "join sep (x # y # zs) = x @ sep @ join sep (y # zs)"

definition searchParams :: "(ustring \<times> ustring) list \<Rightarrow> ustring" where
  "searchParams ps = join (js ''&'') (map (\<lambda>(k, v). form_encode k @ js ''='' @ form_encode v) ps)"

definition optParam :: "string \<Rightarrow> ustring option \<Rightarrow> (ustring \<times> ustring) list" where
  "optParam k v = (case truthy v of Some t \<Rightarrow> [(js k, t)] | None \<Rightarrow> [])"

definition categoryParam :: "ustring option \<Rightarrow> bool \<Rightarrow> (ustring \<times> ustring) list" where
  "categoryParam category uncategorized =
    (case truthy category of
       Some c \<Rightarrow> [(js ''category'', c)]
     | None \<Rightarrow> if uncategorized then [(js ''uncategorized'', js ''true'')] else [])"

definition get_request :: "ustring \<Rightarrow> apiRequest" where
  "get_request path = \<lparr>rq_method = js ''GET'', rq_path = path, rq_body = None\<rparr>"

definition send :: "string \<Rightarrow> ustring \<Rightarrow> json \<Rightarrow> apiRequest" where
  "send verb path body = \<lparr>rq_method = js verb, rq_path = path, rq_body = Some body\<rparr>"

section \<open>The methods of api: accounts\<close>

definition credentials :: "ustring \<Rightarrow> ustring \<Rightarrow> json" where
  "credentials username password = JObj [(js ''username'', JStr username), (js ''password'', JStr password)]"

definition login_request :: "ustring \<Rightarrow> ustring \<Rightarrow> apiRequest" where
  "login_request username password = send ''POST'' (js ''/api/login'') (credentials username password)"

definition register_request :: "ustring \<Rightarrow> ustring \<Rightarrow> apiRequest" where
  "register_request username password = send ''POST'' (js ''/api/register'') (credentials username password)"

text \<open>\<^verbatim>\<open>login\<close> and \<^verbatim>\<open>register\<close> do the same with the answer; an empty answer makes \<^verbatim>\<open>res.user\<close> raise.\<close>

definition login :: "ustring list \<Rightarrow> (ustring \<Rightarrow> user fetch_outcome) \<Rightarrow> session \<Rightarrow> (app_error + user) \<times> session" where
  "login bases net s =
    (let r = fetchApi bases net s in
     case fx_outcome r of
       Inl e \<Rightarrow> (Inl e, fx_session r)
     | Inr None \<Rightarrow> (Inl (NamedErr (js ''TypeError'')), removeLegacyToken (fx_session r))
     | Inr (Some u) \<Rightarrow> (Inr u, setCurrentUser u (removeLegacyToken (fx_session r))))"

definition register :: "ustring list \<Rightarrow> (ustring \<Rightarrow> user fetch_outcome) \<Rightarrow> session \<Rightarrow> (app_error + user) \<times> session" where
  "register bases net s = login bases net s"

definition logout :: "ustring list \<Rightarrow> (ustring \<Rightarrow> 'a fetch_outcome) \<Rightarrow> session \<Rightarrow> session" where
  "logout bases net s = removeToken (fx_session (fetchApi bases net s))"

definition verify ::
  "ustring list \<Rightarrow> (ustring \<Rightarrow> (bool \<times> user option) fetch_outcome) \<Rightarrow> session \<Rightarrow>
    (app_error + bool \<times> user option) \<times> session" where
  "verify bases net s =
    (let r = fetchApi bases net s in
     case fx_outcome r of
       Inl e \<Rightarrow> (Inl e, fx_session r)
     | Inr None \<Rightarrow> (Inl (NamedErr (js ''TypeError'')), fx_session r)
     | Inr (Some (valid, u)) \<Rightarrow>
        (Inr (valid, u), case u of Some x \<Rightarrow> setCurrentUser x (fx_session r) | None \<Rightarrow> fx_session r))"

section \<open>The methods of api: books\<close>

definition listBooks :: apiRequest where
  "listBooks = get_request (js ''/api/books'')"

definition listBooksPage :: "ustring option \<Rightarrow> nat \<Rightarrow> ustring \<Rightarrow> ustring option \<Rightarrow> bool \<Rightarrow> apiRequest" where
  "listBooksPage cursor limit order category uncategorized =
    get_request (js ''/api/books?'' @ searchParams ([(js ''limit'', dec limit)] @ optParam ''cursor'' cursor @
      optParam ''sort'' (Some order) @ categoryParam category uncategorized))"

definition searchBooks :: "ustring \<Rightarrow> ustring option \<Rightarrow> nat \<Rightarrow> ustring \<Rightarrow> ustring option \<Rightarrow> bool \<Rightarrow> apiRequest" where
  "searchBooks query cursor limit order category uncategorized =
    get_request (js ''/api/books/search?'' @ searchParams ([(js ''q'', query), (js ''limit'', dec limit)] @
      optParam ''cursor'' cursor @ optParam ''sort'' (Some order) @ categoryParam category uncategorized))"

definition BOOK_STATUS_BATCH_SIZE :: nat where
  "BOOK_STATUS_BATCH_SIZE = 100"

definition status_request :: "ustring list \<Rightarrow> apiRequest" where
  "status_request ids = get_request (js ''/api/books/status?'' @ searchParams [(js ''book_ids'', join (js '','') ids)])"

text \<open>\<open>answer\<close> gives the outcome of the request for a batch; a missing list of books counts as empty.\<close>

function getBooksStatus ::
  "(ustring list \<Rightarrow> app_error + book list option) \<Rightarrow> ustring list \<Rightarrow> (app_error + book list) \<times> ustring list list" where
  "getBooksStatus answer ids =
    (if ids = [] then (Inr [], [])
     else
      let batch = take BOOK_STATUS_BATCH_SIZE ids in
      case answer batch of
        Inl e \<Rightarrow> (Inl e, [batch])
      | Inr bs \<Rightarrow>
         (case getBooksStatus answer (drop BOOK_STATUS_BATCH_SIZE ids) of
            (Inl e, sent) \<Rightarrow> (Inl e, batch # sent)
          | (Inr rest, sent) \<Rightarrow> (Inr (nullish bs [] @ rest), batch # sent)))"
  by pat_completeness auto
termination
  by (relation "measure (\<lambda>(_, ids). length ids)") (auto simp: BOOK_STATUS_BATCH_SIZE_def)

declare getBooksStatus.simps [simp del]

definition nullable :: "ustring option \<Rightarrow> json" where
  "nullable v = (case v of Some t \<Rightarrow> JStr t | None \<Rightarrow> JNull)"

definition renameBookCategory :: "ustring \<Rightarrow> ustring option \<Rightarrow> apiRequest" where
  "renameBookCategory from to = send ''PATCH'' (js ''/api/books/categories'')
    (JObj [(js ''from'', JStr from), (js ''to'', nullable to)])"

definition getBookLibrarySummary :: apiRequest where
  "getBookLibrarySummary = get_request (js ''/api/books/summary'')"

definition getBook :: "ustring \<Rightarrow> apiRequest" where
  "getBook i = get_request (js ''/api/books/'' @ i)"

definition updateBook :: "ustring \<Rightarrow> (ustring \<times> json) list \<Rightarrow> apiRequest" where
  "updateBook i data = send ''PATCH'' (js ''/api/books/'' @ i) (JObj data)"

definition uploadFailed :: ustring where "uploadFailed = [19978, 20256, 22833, 36133]"
definition uploadEmpty :: ustring where
  "uploadEmpty = [19978, 20256, 25104, 21151, 20294, 21709, 24212, 20026, 31354]"

definition uploadAttempt :: "ustring \<Rightarrow> ustring \<Rightarrow> app_error + book apiResponse \<Rightarrow> app_error + book" where
  "uploadAttempt failed noBody r =
    (case r of
       Inl e \<Rightarrow> Inl e
     | Inr res \<Rightarrow> if \<not> ap_ok res then Inl (parseApiError res failed) else parseJsonResponse res noBody)"

text \<open>\<open>post i\<close> is the outcome of the \<open>i\<close>-th \<^verbatim>\<open>authedFetch\<close>; the second component counts them.\<close>

definition uploadBook :: "(nat \<Rightarrow> app_error + book apiResponse) \<Rightarrow> (app_error + book) \<times> nat" where
  "uploadBook post =
    (case uploadAttempt uploadFailed uploadEmpty (post 0) of
       Inr b \<Rightarrow> (Inr b, 1)
     | Inl e \<Rightarrow>
        (case duplicateBookFromError e of
           Some b \<Rightarrow> (Inr b, 1)
         | None \<Rightarrow>
            (if isApiError e then (Inl e, 1)
             else case uploadAttempt uploadFailed uploadEmpty (post 1) of
               Inr b \<Rightarrow> (Inr b, 2)
             | Inl e' \<Rightarrow> (case duplicateBookFromError e' of Some b \<Rightarrow> (Inr b, 2) | None \<Rightarrow> (Inl e', 2)))))"

definition userKey :: "session \<Rightarrow> ustring" where
  "userKey s = (case fst (getCurrentUser s) of Some u \<Rightarrow> us_id u | None \<Rightarrow> [])"

text \<open>Deleting also starts \<^verbatim>\<open>removeOfflineBook\<close> for what was deleted; the calls are the second component.\<close>

definition deleteBook :: "ustring \<Rightarrow> app_error + unit \<Rightarrow> session \<Rightarrow> (app_error + unit) \<times> (ustring \<times> ustring) list" where
  "deleteBook i answer s =
    (case answer of Inl e \<Rightarrow> (Inl e, []) | Inr _ \<Rightarrow> (Inr (), [(userKey s, i)]))"

definition deleteBook_request :: "ustring \<Rightarrow> apiRequest" where
  "deleteBook_request i = \<lparr>rq_method = js ''DELETE'', rq_path = js ''/api/books/'' @ i, rq_body = None\<rparr>"

definition deleteBooks ::
  "ustring list \<Rightarrow> app_error + ustring list option \<Rightarrow> session \<Rightarrow>
    (app_error + ustring list option) \<times> (ustring \<times> ustring) list" where
  "deleteBooks ids answer s =
    (case answer of
       Inl e \<Rightarrow> (Inl e, [])
     | Inr deleted \<Rightarrow> (Inr deleted, map (\<lambda>i. (userKey s, i)) (nullish deleted ids)))"

definition idList :: "ustring list \<Rightarrow> json" where
  "idList ids = JArr (map JStr ids)"

definition deleteBooks_request :: "ustring list \<Rightarrow> apiRequest" where
  "deleteBooks_request ids = send ''POST'' (js ''/api/books/batch/delete'') (JObj [(js ''ids'', idList ids)])"

definition updateBooksCategory :: "ustring list \<Rightarrow> ustring option \<Rightarrow> apiRequest" where
  "updateBooksCategory ids category = send ''POST'' (js ''/api/books/batch/category'')
    (JObj [(js ''ids'', idList ids), (js ''category'', nullable category)])"

definition getBookUrl :: "ustring \<Rightarrow> ustring \<Rightarrow> ustring" where
  "getBookUrl base i = base @ js ''/api/books/'' @ i @ js ''/file''"

definition coverQuery :: "ustring option \<Rightarrow> ustring" where
  "coverQuery variant = (case truthy variant of Some z \<Rightarrow> js ''?size='' @ z | None \<Rightarrow> [])"

definition getCoverUrl :: "ustring \<Rightarrow> ustring \<Rightarrow> ustring option \<Rightarrow> ustring" where
  "getCoverUrl base i variant = base @ js ''/api/books/'' @ i @ js ''/cover'' @ coverQuery variant"

definition coverFailed :: ustring where "coverFailed = [19978, 20256, 23553, 38754, 22833, 36133]"
definition coverEmpty :: ustring where
  "coverEmpty = [19978, 20256, 23553, 38754, 25104, 21151, 20294, 21709, 24212, 20026, 31354]"

definition uploadCover :: "app_error + book apiResponse \<Rightarrow> app_error + book" where
  "uploadCover post = uploadAttempt coverFailed coverEmpty post"

definition fetchCover_request :: "ustring \<Rightarrow> ustring option \<Rightarrow> apiRequest" where
  "fetchCover_request i variant = get_request (js ''/api/books/'' @ i @ js ''/cover'' @ coverQuery variant)"

definition fetchCover :: "bool \<Rightarrow> app_error + blob apiResponse \<Rightarrow> app_error + blob option" where
  "fetchCover aborted answer =
    (case answer of
       Inl e \<Rightarrow> if aborted \<or> isAbortLikeError e then Inr None else Inl e
     | Inr r \<Rightarrow> if \<not> ap_ok r then Inr None else ap_value r)"

section \<open>The methods of api: progress and bookmarks\<close>

definition getProgress :: "ustring \<Rightarrow> apiRequest" where
  "getProgress i = get_request (js ''/api/progress/'' @ i)"

definition listProgress :: "ustring list option \<Rightarrow> ustring option \<Rightarrow> apiRequest" where
  "listProgress bookIds updatedSince =
    (let ps = (case bookIds of Some (i # is) \<Rightarrow> [(js ''book_ids'', join (js '','') (i # is))] | _ \<Rightarrow> []) @
           optParam ''updated_since'' updatedSince;
         query = searchParams ps in
     get_request (js ''/api/progress'' @ (if query = [] then [] else js ''?'' @ query)))"

definition progressBody :: "ustring \<Rightarrow> real \<Rightarrow> ustring option \<Rightarrow> ustring option \<Rightarrow> json" where
  "progressBody cfi percentage expectedUpdatedAt deviceId =
    JObj ([(js ''cfi'', JStr cfi), (js ''percentage'', JNum percentage)] @
      (case truthy expectedUpdatedAt of Some t \<Rightarrow> [(js ''expected_updated_at'', JStr t)] | None \<Rightarrow> []) @
      (case truthy deviceId of Some d \<Rightarrow> [(js ''device_id'', JStr d)] | None \<Rightarrow> []))"

definition saveProgress_request :: "ustring \<Rightarrow> ustring \<Rightarrow> real \<Rightarrow> ustring option \<Rightarrow> ustring option \<Rightarrow> apiRequest" where
  "saveProgress_request i cfi percentage expectedUpdatedAt deviceId =
    send ''POST'' (js ''/api/progress/'' @ i) (progressBody cfi percentage expectedUpdatedAt deviceId)"

definition saveProgressOnUnload ::
  "ustring \<Rightarrow> ustring \<Rightarrow> ustring \<Rightarrow> real \<Rightarrow> ustring option \<Rightarrow> ustring option \<Rightarrow> apiRequest" where
  "saveProgressOnUnload base i cfi percentage expectedUpdatedAt deviceId =
    send ''POST'' (base @ js ''/api/progress/'' @ i) (progressBody cfi percentage expectedUpdatedAt deviceId)"

definition listBookmarks :: "ustring \<Rightarrow> apiRequest" where
  "listBookmarks i = get_request (js ''/api/books/'' @ i @ js ''/bookmarks'')"

definition createBookmark :: "ustring \<Rightarrow> ustring \<Rightarrow> real \<Rightarrow> ustring option \<Rightarrow> ustring option \<Rightarrow> apiRequest" where
  "createBookmark i cfi percentage chapter note = send ''POST'' (js ''/api/books/'' @ i @ js ''/bookmarks'')
    (JObj ([(js ''cfi'', JStr cfi), (js ''percentage'', JNum percentage)] @
      (case chapter of Some c \<Rightarrow> [(js ''chapter'', JStr c)] | None \<Rightarrow> []) @
      (case note of Some n \<Rightarrow> [(js ''note'', JStr n)] | None \<Rightarrow> [])))"

definition deleteBookmark :: "ustring \<Rightarrow> ustring \<Rightarrow> apiRequest" where
  "deleteBookmark i k = \<lparr>rq_method = js ''DELETE'',
     rq_path = js ''/api/books/'' @ i @ js ''/bookmarks/'' @ k, rq_body = None\<rparr>"

section \<open>Lemmas\<close>

lemma normalize_not_abort: "\<not> isAbortLikeError (normalizeRequestError e) \<and> normalizeRequestError e \<noteq> NotAnError"
  by (auto simp: normalizeRequestError_def isAbortLikeError_def split: app_error.splits)

lemma judgeApi_throw: "judgeApi bases base oc = Throw e \<Longrightarrow> \<not> isAbortLikeError e \<and> e \<noteq> NotAnError"
  using normalize_not_abort by (auto simp: judgeApi_def Let_def split: sum.splits if_splits)

lemma fetchLoop_errors:
  "fx_outcome (fetchLoop bases net rest le s) = Inl e \<Longrightarrow> \<not> isAbortLikeError e \<and> e \<noteq> NotAnError"
proof (induction rest arbitrary: le s)
  case (Cons base rest)
  then show ?case
    by (auto simp: Let_def split: verdict.splits dest: judgeApi_throw)
qed (use normalize_not_abort in auto)

text \<open>A base that is to be skipped: it did not answer, or a gateway answered for it.\<close>

definition unavailable :: "'a fetch_outcome \<Rightarrow> bool" where
  "unavailable oc \<longleftrightarrow>
    (case oc of
       Inl e \<Rightarrow> isAbortLikeError e \<or> e = NamedErr (js ''TypeError'')
     | Inr r \<Rightarrow>
        (if ap_ok r then
           (case ap_value r of Inl e \<Rightarrow> isAbortLikeError e \<or> e = NamedErr (js ''TypeError'') | Inr _ \<Rightarrow> False)
         else ap_status r = 502 \<or> ap_status r = 503 \<or> ap_status r = 504))"

lemma parse_is_api: "isApiError (parseApiError r m)" "\<not> isAbortLikeError (parseApiError r m)"
  by (simp_all add: parseApiError_def isAbortLikeError_def)

lemma judgeApi_next:
  "(\<exists>e. judgeApi bases base oc = NextBase e) \<longleftrightarrow> \<not> lastBase bases base \<and> unavailable oc"
proof -
  have api: "isApiError e \<Longrightarrow> \<not> isAbortLikeError e \<and> e \<noteq> NamedErr x" for e x
    by (cases e) (auto simp: isAbortLikeError_def)
  show ?thesis
    using parse_is_api api
    by (auto simp: judgeApi_def unavailable_def Let_def shouldRetryWithNextApiBase_def
        shouldRetryResponseWithNextApiBase_def split: sum.splits if_splits)
qed

definition answered :: "ustring list \<Rightarrow> (ustring \<Rightarrow> 'a fetch_outcome) \<Rightarrow> ustring \<Rightarrow> app_error + 'a option" where
  "answered bases net base =
    (case judgeApi bases base (net base) of Return v \<Rightarrow> Inr v | Throw e \<Rightarrow> Inl e | NextBase e \<Rightarrow> Inl e)"

lemma fetchLoop_contacted:
  assumes "rest \<noteq> []" and "last rest = last bases" and "bases \<noteq> []" and "distinct rest"
  shows "\<exists>k. 0 < k \<and> k \<le> length rest \<and> fx_contacted (fetchLoop bases net rest le s) = take k rest \<and>
    (\<forall>i. i + 1 < k \<longrightarrow> unavailable (net (rest ! i))) \<and>
    (k < length rest \<longrightarrow> \<not> unavailable (net (rest ! (k - 1)))) \<and>
    fx_outcome (fetchLoop bases net rest le s) = answered bases net (rest ! (k - 1))"
  using assms
proof (induction rest arbitrary: le s)
  case (Cons base rest)
  show ?case
  proof (cases "\<exists>e. judgeApi bases base (net base) = NextBase e")
    case True
    then obtain e where e: "judgeApi bases base (net base) = NextBase e" ..
    then have un: "unavailable (net base)" and nl: "\<not> lastBase bases base"
      using judgeApi_next [of bases base "net base"] by auto
    have "rest \<noteq> []" using nl Cons.prems by (auto simp: lastBase_def)
    with Cons.prems Cons.IH [of e "seenStatus (net base) s"] obtain k where k: "0 < k" "k \<le> length rest"
      "fx_contacted (fetchLoop bases net rest e (seenStatus (net base) s)) = take k rest"
      "\<forall>i. i + 1 < k \<longrightarrow> unavailable (net (rest ! i))"
      "k < length rest \<longrightarrow> \<not> unavailable (net (rest ! (k - 1)))"
      "fx_outcome (fetchLoop bases net rest e (seenStatus (net base) s)) = answered bases net (rest ! (k - 1))"
      by auto
    have "unavailable (net ((base # rest) ! i))" if "i + 1 < Suc k" for i
      using that k(4) un by (cases i) auto
    with k e show ?thesis by (intro exI [of _ "Suc k"]) (simp add: Let_def)
  next
    case False
    then have "k < length (base # rest) \<Longrightarrow> k = 1 \<Longrightarrow> \<not> unavailable (net base)" for k
      using judgeApi_next [of bases base "net base"] Cons.prems last_in_set [of rest] by (auto simp: lastBase_def)
    with False show ?thesis
      by (intro exI [of _ 1]) (auto simp: Let_def answered_def split: verdict.splits)
  qed
qed simp

lemma getApiBaseCandidates_ne: "getApiBaseCandidates c w \<noteq> []"
  by (simp add: getApiBaseCandidates_def)

lemma trimTrailingSlash_no_slash: "trimTrailingSlash v \<noteq> [] \<Longrightarrow> last (trimTrailingSlash v) \<noteq> 47"
  unfolding trimTrailingSlash_def
  using hd_dropWhile [of "\<lambda>c. c = 47" "rev v"] by (auto simp: last_rev simp del: dropWhile_eq_Nil_conv)

text \<open>The session after a 401: no token, no user, whatever happens afterwards in the loop.\<close>

definition loggedOut :: "session \<Rightarrow> bool" where
  "loggedOut s \<longleftrightarrow> ss_token s = None \<and> ss_user s = None"

lemma getCurrentUser_fields:
  "ss_token (snd (getCurrentUser s)) = ss_token s" "ss_available (snd (getCurrentUser s)) = ss_available s"
  "ss_offlineCleared (snd (getCurrentUser s)) = ss_offlineCleared s"
  by (auto simp: getCurrentUser_def split: option.splits stored_user.splits)

lemma removeToken_out: "ss_available s \<Longrightarrow> loggedOut (removeToken s)"
  by (simp add: removeToken_def loggedOut_def split: prod.splits)

lemma removeToken_available [simp]: "ss_available (removeToken s) = ss_available s"
  using getCurrentUser_fields(2) [of s] by (auto simp: removeToken_def split: prod.splits)

lemma loggedOut_stable: "loggedOut s \<Longrightarrow> loggedOut (handleUnauthorized st s)"
  by (auto simp: handleUnauthorized_def removeToken_def loggedOut_def getCurrentUser_def split: option.splits)

lemma seenStatus_stable: "loggedOut s \<Longrightarrow> loggedOut (seenStatus oc s)"
  by (auto simp: seenStatus_def loggedOut_stable split: sum.splits)

lemma seenStatus_available [simp]: "ss_available (seenStatus oc s) = ss_available s"
  by (auto simp: seenStatus_def handleUnauthorized_def split: sum.splits)

lemma fetchLoop_stable: "loggedOut s \<Longrightarrow> loggedOut (fx_session (fetchLoop bases net rest le s))"
  by (induction rest arbitrary: le s) (auto simp: Let_def seenStatus_stable split: verdict.splits)

lemma seenStatus_401: "ss_available s \<Longrightarrow> oc = Inr r \<Longrightarrow> ap_status r = 401 \<Longrightarrow> loggedOut (seenStatus oc s)"
  using removeToken_out by (simp add: seenStatus_def ap_ok_def handleUnauthorized_def loggedOut_def)

lemma fetchLoop_401:
  "ss_available s \<Longrightarrow> base \<in> set (fx_contacted (fetchLoop bases net rest le s)) \<Longrightarrow> net base = Inr r \<Longrightarrow>
    ap_status r = 401 \<Longrightarrow> loggedOut (fx_session (fetchLoop bases net rest le s))"
proof (induction rest arbitrary: le s)
  case (Cons b rest)
  have out: "loggedOut (seenStatus (net b) s)" if "b = base"
    using that Cons.prems by (auto intro: seenStatus_401)
  show ?case
    using Cons.prems out Cons.IH [of "seenStatus (net b) s"]
    by (cases "b = base") (auto simp: Let_def fetchLoop_stable split: verdict.splits)
qed simp

lemma loggedOut_not_in: "loggedOut s \<Longrightarrow> \<not> isLoggedIn s \<and> getAuthHeaders s = []"
  by (simp add: loggedOut_def isLoggedIn_def getToken_def getCurrentUser_def getAuthHeaders_def truthy_def)

lemma status_sent:
  "fst (getBooksStatus answer ids) = Inr bs \<Longrightarrow> concat (snd (getBooksStatus answer ids)) = ids"
proof (induction answer ids arbitrary: bs rule: getBooksStatus.induct)
  case (1 answer ids)
  show ?case
  proof (cases "ids = []")
    case False
    let ?b = "take BOOK_STATUS_BATCH_SIZE ids"
    obtain r where r: "answer ?b = Inr r"
      using "1.prems" False by (cases "answer ?b") (auto simp: getBooksStatus.simps [of answer ids] Let_def)
    obtain q sent where q: "getBooksStatus answer (drop BOOK_STATUS_BATCH_SIZE ids) = (q, sent)" by fastforce
    obtain rest where "q = Inr rest"
      using "1.prems" False r q by (cases q) (auto simp: getBooksStatus.simps [of answer ids] Let_def)
    with "1.IH" [OF False refl r] q False r show ?thesis
      by (simp add: getBooksStatus.simps [of answer ids] Let_def)
  qed (simp add: getBooksStatus.simps)
qed

lemma status_batches:
  "list_all (\<lambda>b. b \<noteq> [] \<and> length b \<le> BOOK_STATUS_BATCH_SIZE \<and> set b \<subseteq> set ids) (snd (getBooksStatus answer ids))"
proof (induction answer ids rule: getBooksStatus.induct)
  case (1 answer ids)
  show ?case
  proof (cases "ids = []")
    case False
    let ?b = "take BOOK_STATUS_BATCH_SIZE ids"
    have b: "?b \<noteq> [] \<and> length ?b \<le> BOOK_STATUS_BATCH_SIZE \<and> set ?b \<subseteq> set ids"
      using False by (auto simp: BOOK_STATUS_BATCH_SIZE_def dest: in_set_takeD)
    have sub: "set (drop BOOK_STATUS_BATCH_SIZE ids) \<subseteq> set ids" by (rule set_drop_subset)
    have rest: "list_all (\<lambda>b. b \<noteq> [] \<and> length b \<le> BOOK_STATUS_BATCH_SIZE \<and> set b \<subseteq> set ids)
        (snd (getBooksStatus answer (drop BOOK_STATUS_BATCH_SIZE ids)))" if "answer ?b = Inr r" for r
      by (rule list.pred_mono_strong [OF "1.IH" [OF False refl that]]) (use sub in auto)
    show ?thesis
    proof (cases "answer ?b")
      case (Inl e)
      then show ?thesis using False b by (subst getBooksStatus.simps) (simp add: Let_def)
    next
      case (Inr r)
      show ?thesis
        using False Inr b rest [OF Inr]
        by (subst getBooksStatus.simps) (auto simp: Let_def split: prod.splits sum.splits)
    qed
  qed (simp add: getBooksStatus.simps)
qed

text \<open>Ids of plain characters (such as UUIDs) are not escaped; the commas between them are.\<close>

definition plain_id :: "ustring \<Rightarrow> bool" where
  "plain_id i \<longleftrightarrow> list_all (\<lambda>c. 65 \<le> c \<and> c \<le> 90 \<or> 97 \<le> c \<and> c \<le> 122 \<or> is_digit c \<or> c = 45) i"

lemma form_encode_append:
  assumes "list_all (\<lambda>c. c < 128) s"
  shows "form_encode (s @ t) = concat (map form_byte s) @ form_encode t"
proof -
  have "scalar_values (s @ t) = s @ scalar_values t"
    using assms by (induction s) (auto simp: is_high_def is_low_def)
  moreover have "concat (map utf8 s) = s" using assms by (induction s) (auto simp: utf8_def)
  ultimately show ?thesis by (simp add: form_encode_def)
qed

lemma plain_id_ascii: "plain_id i \<Longrightarrow> list_all (\<lambda>c. c < 128) i"
  by (auto simp: plain_id_def list_all_iff is_digit_def)

lemma form_plain: "plain_id i \<Longrightarrow> concat (map form_byte i) = i"
  by (induction i) (auto simp: plain_id_def form_byte_def)

lemma form_encode_ids:
  "list_all plain_id ids \<Longrightarrow> list_all (\<lambda>i. length i \<le> m) ids \<Longrightarrow>
    length (form_encode (join (js '','') ids)) \<le> length ids * (m + 3)"
proof (induction "js '',''" ids rule: join.induct)
  case (2 x)
  then show ?case
    using form_encode_append [OF plain_id_ascii, of x "[]"] form_plain [of x] by (simp add: form_encode_def)
next
  case (3 x y zs)
  have comma: "list_all (\<lambda>c. c < 128) (x @ js '','')"
    using 3 by (auto simp: js_def dest: plain_id_ascii)
  have "concat (map form_byte (x @ js '','')) = x @ pct 44"
    using 3 form_plain [of x] by (simp add: js_def form_byte_def is_digit_def)
  then have "form_encode (join (js '','') (x # y # zs)) = x @ pct 44 @ form_encode (join (js '','') (y # zs))"
    using form_encode_append [OF comma, of "join (js '','') (y # zs)"] by simp
  with 3 show ?case by (simp add: pct_def)
qed (simp add: form_encode_def)

lemma status_path_length:
  assumes "list_all plain_id ids" and "list_all (\<lambda>i. length i \<le> m) ids"
  shows "length (rq_path (status_request ids)) \<le> 27 + length ids * (m + 3)"
proof -
  have "form_encode (js ''book_ids'') = js ''book_ids''"
    by (simp add: js_def form_encode_def is_high_def is_low_def utf8_def form_byte_def)
  then show ?thesis
    using form_encode_ids [OF assms]
    by (simp add: status_request_def get_request_def searchParams_def) (simp add: js_def)
qed

lemma take_first_failing:
  assumes "0 < k" and "k \<le> length xs" and "\<forall>i. i + 1 < k \<longrightarrow> P (xs ! i)"
    and "k < length xs \<longrightarrow> \<not> P (xs ! (k - 1))"
  shows "take k xs = take (length (takeWhile P xs) + 1) xs"
proof (cases "k < length xs \<or> \<not> P (xs ! (k - 1))")
  case True
  then have "takeWhile P xs = take (k - 1) xs" using assms by (intro takeWhile_eq_take_P_nth) auto
  then show ?thesis using assms by simp
next
  case False
  then have k: "k = length xs" and last: "P (xs ! (k - 1))" using assms(2) by auto
  have "P (xs ! i)" if "i < length xs" for i
    using assms(3) last k that by (cases "i = k - 1") auto
  then have "takeWhile P xs = xs" by (metis in_set_conv_nth takeWhile_eq_all_conv)
  then have "length (takeWhile P xs) = length xs" by (rule arg_cong)
  then show ?thesis using k by (simp only: take_all le_add1 order_refl)
qed

section \<open>Properties\<close>

text \<open>
  Fallback between back ends. With the candidate bases of the configuration, \<^verbatim>\<open>fetchApi\<close>
  contacts a non-empty prefix of them in order; every base but the last contacted one was unavailable (no
  answer, or 502, 503 or 504), it stops at the first that is available, and the result is that base's.
\<close>

lemma fetch_fallback:
  "let bases = getApiBaseCandidates configured window; r = fetchApi bases net s in
   bases \<noteq> [] \<and>
   fx_contacted r = take (length (takeWhile (\<lambda>b. unavailable (net b)) bases) + 1) bases \<and>
   fx_outcome r = answered bases net (last (fx_contacted r))"
proof -
  let ?bases = "getApiBaseCandidates configured window"
  let ?r = "fetchApi ?bases net s"
  have "distinct ?bases"
    by (auto simp: getApiBaseCandidates_def deriveLanApiBase_def truthy_def trimTrailingSlash_def js_def
        split: option.splits if_splits)
  then obtain k where k: "0 < k" "k \<le> length ?bases" "fx_contacted ?r = take k ?bases"
    "\<forall>i. i + 1 < k \<longrightarrow> unavailable (net (?bases ! i))"
    "k < length ?bases \<longrightarrow> \<not> unavailable (net (?bases ! (k - 1)))"
    "fx_outcome ?r = answered ?bases net (?bases ! (k - 1))"
    using fetchLoop_contacted [of ?bases ?bases net NotAnError s] getApiBaseCandidates_ne
    unfolding fetchApi_def by blast
  have "last (take k ?bases) = ?bases ! (k - 1)" using k(1,2) by (subst last_conv_nth) auto
  moreover have "take k ?bases = take (length (takeWhile (\<lambda>b. unavailable (net b)) ?bases) + 1) ?bases"
    using k(1,2,4,5) by (rule take_first_failing)
  ultimately show ?thesis using k(3,6) getApiBaseCandidates_ne by (simp add: Let_def)
qed

text \<open>
  Errors are normalised. An error thrown by \<^verbatim>\<open>fetchApi\<close> is always an \<^verbatim>\<open>Error\<close> and is never an
  \<^verbatim>\<open>AbortError\<close> or a \<^verbatim>\<open>TimeoutError\<close>: those reach the callers as the plain timeout message.
\<close>

lemma fetch_errors_normalised:
  "case fx_outcome (fetchApi bases net s) of
     Inl e \<Rightarrow> \<not> isAbortLikeError e \<and> e \<noteq> NotAnError | Inr _ \<Rightarrow> True"
  using fetchLoop_errors [of bases net bases NotAnError s] by (auto simp: fetchApi_def split: sum.splits)

text \<open>
  A rejected login ends the session. If a contacted base answered 401, then after the call the
  stored token and user are gone: nobody is logged in and later requests carry no credentials.
\<close>

lemma unauthorized_logs_out:
  assumes "ss_available s" and "base \<in> set (fx_contacted (fetchApi bases net s))"
    and "net base = Inr r" and "ap_status r = 401"
  shows "\<not> isLoggedIn (fx_session (fetchApi bases net s)) \<and> getAuthHeaders (fx_session (fetchApi bases net s)) = []"
  using fetchLoop_401 [of s base bases net bases NotAnError r] assms
  by (intro loggedOut_not_in) (simp add: fetchApi_def)

definition sampleSession :: session where
  "sampleSession = \<lparr>ss_available = True, ss_token = Some (js ''t''),
     ss_user = Some (UserJson \<lparr>us_id = js ''u'', us_username = [], us_created_at = [], us_updated_at = []\<rparr>),
     ss_offlineCleared = [], ss_expiredEvents = 0\<rparr>"

definition denying :: "ustring \<Rightarrow> unit fetch_outcome" where
  "denying _ = Inr \<lparr>ap_status = 401, ap_errorBody = None, ap_value = Inr None\<rparr>"

theorem unauthorized_logs_out_witness:
  "isLoggedIn sampleSession \<and> \<not> isLoggedIn (fx_session (fetchApi [[]] denying sampleSession))"
proof -
  have "isLoggedIn sampleSession" by (simp add: isLoggedIn_def sampleSession_def getToken_def truthy_def)
  moreover have "\<not> isLoggedIn (fx_session (fetchApi [[]] denying sampleSession)) \<and>
      getAuthHeaders (fx_session (fetchApi [[]] denying sampleSession)) = []"
  proof (rule unauthorized_logs_out)
    show "[] \<in> set (fx_contacted (fetchApi [[]] denying sampleSession))"
      by (simp add: fetchApi_def denying_def judgeApi_def ap_ok_def shouldRetryResponseWithNextApiBase_def
          lastBase_def shouldRetryWithNextApiBase_def Let_def)
    show "denying [] = Inr \<lparr>ap_status = 401, ap_errorBody = None, ap_value = Inr None\<rparr>"
      by (simp add: denying_def)
  qed (simp_all add: sampleSession_def)
  ultimately show ?thesis by simp
qed

text \<open>
  Status polling. \<^verbatim>\<open>getBooksStatus\<close> asks for the ids in order, in batches of at most a hundred;
  when it succeeds every id has been asked for exactly once, and for ids of up to 36 plain characters
  (UUIDs) each request path stays below 4 KiB.
\<close>

theorem status_polling:
  assumes "list_all plain_id ids" and "list_all (\<lambda>i. length i \<le> 36) ids"
  shows "list_all (\<lambda>b. length b \<le> 100 \<and> length (rq_path (status_request b)) < 4096) (snd (getBooksStatus answer ids)) \<and>
    (\<forall>bs. fst (getBooksStatus answer ids) = Inr bs \<longrightarrow> concat (snd (getBooksStatus answer ids)) = ids)"
proof (intro conjI allI impI)
  have "length b \<le> 100 \<and> length (rq_path (status_request b)) < 4096" if "b \<in> set (snd (getBooksStatus answer ids))" for b
  proof -
    have b: "length b \<le> 100" "set b \<subseteq> set ids"
      using status_batches [of ids answer] that by (auto simp: list_all_iff BOOK_STATUS_BATCH_SIZE_def)
    then have "list_all plain_id b" "list_all (\<lambda>i. length i \<le> 36) b" using assms by (auto simp: list_all_iff)
    moreover have "length b * (36 + 3) \<le> 3900" using b(1) by simp
    ultimately show ?thesis using status_path_length [of b 36] b(1) by force
  qed
  then show "list_all (\<lambda>b. length b \<le> 100 \<and> length (rq_path (status_request b)) < 4096)
      (snd (getBooksStatus answer ids))" by (simp add: list_all_iff)
qed (rule status_sent)

theorem status_polling_witness:
  "concat (snd (getBooksStatus (\<lambda>_. Inr None) [js ''a-1'', js ''b-2''])) = [js ''a-1'', js ''b-2'']"
proof -
  have "list_all plain_id [js ''a-1'', js ''b-2'']" "list_all (\<lambda>i. length i \<le> 36) [js ''a-1'', js ''b-2'']"
    by (simp_all add: plain_id_def js_def is_digit_def)
  note p = status_polling [OF this, of "\<lambda>_. Inr None"]
  have "fst (getBooksStatus (\<lambda>_. Inr None) [js ''a-1'', js ''b-2'']) = Inr []"
    by (simp add: getBooksStatus.simps BOOK_STATUS_BATCH_SIZE_def)
  with p show ?thesis by blast
qed

text \<open>
  Upload. An upload sends the file at most twice; it sends it again only when the first attempt
  failed without an answer of the API; and an answer that the book is already there (409 with the book)
  counts as success with that book.
\<close>

lemma upload_policy:
  "case uploadBook post of (r, n) \<Rightarrow> 1 \<le> n \<and> n \<le> 2 \<and>
    (n = 2 \<longleftrightarrow> (\<exists>e. uploadAttempt uploadFailed uploadEmpty (post 0) = Inl e \<and> \<not> isApiError e)) \<and>
    (case uploadAttempt uploadFailed uploadEmpty (post (n - 1)) of
       Inr b \<Rightarrow> r = Inr b
     | Inl e \<Rightarrow> (case duplicateBookFromError e of Some b \<Rightarrow> r = Inr b | None \<Rightarrow> r = Inl e))"
proof -
  have "duplicateBookFromError e = Some b \<Longrightarrow> isApiError e" for e b
    by (simp add: duplicateBookFromError_def split: app_error.splits)
  then show ?thesis by (auto simp: uploadBook_def split: sum.splits option.splits)
qed

end
