(* ===== verification/Book_Download.thy ===== *)
theory Book_Download
  imports Offline_Books Js_Number
begin

text \<open>
  \<^verbatim>\<open>frontend/src/lib/book-download.ts\<close>: the resumable download of a book and the choice between the
  downloaded file and an offline copy. The network, the abort signal and storage are the environment of
  one call: the answers to the requests the code may make, the reads of the response body, and a
  \<open>storage_env\<close> per storage operation. The asynchronous chain of writes runs the appends in order and is
  awaited on every path, so its effect is \<open>appendAll\<close>.
\<close>

section \<open>Headers\<close>

record contentRange =
  cr_start :: real
  cr_totalBytes :: "real option"

definition lower :: "nat \<Rightarrow> nat" where
  "lower c = (if 65 \<le> c \<and> c \<le> 90 then c + 32 else c)"

text \<open>\<^verbatim>\<open>/^bytes\s+(\d+)-\d+\/(\d+|\*)$/i\<close>: the character classes of neighbouring parts are disjoint, so
  the match is the split into maximal runs.\<close>

definition matchContentRange :: "ustring \<Rightarrow> (ustring \<times> ustring) option" where
  "matchContentRange s =
    (let r0 = drop 5 s; r1 = dropWhile is_space r0;
         start = takeWhile is_digit r1; r2 = dropWhile is_digit r1;
         r3 = tl r2; last = takeWhile is_digit r3; r4 = dropWhile is_digit r3; tot = tl r4 in
     if map lower (take 5 s) = js ''bytes'' \<and> r1 \<noteq> r0 \<and> start \<noteq> [] \<and> r2 \<noteq> [] \<and> hd r2 = 45 \<and>
        last \<noteq> [] \<and> r4 \<noteq> [] \<and> hd r4 = 47 \<and> (tot = js ''*'' \<or> tot \<noteq> [] \<and> list_all is_digit tot)
     then Some (start, tot) else None)"

definition parseContentRange :: "ustring option \<Rightarrow> contentRange option" where
  "parseContentRange value =
    (case truthy value of
       None \<Rightarrow> None
     | Some v \<Rightarrow>
        (case matchContentRange (trim v) of
           None \<Rightarrow> None
         | Some (start, tot) \<Rightarrow>
            (case (toNumber start, if tot = js ''*'' then None else Some (toNumber tot)) of
               (Fin s, None) \<Rightarrow> Some \<lparr>cr_start = s, cr_totalBytes = None\<rparr>
             | (Fin s, Some (Fin t)) \<Rightarrow> Some \<lparr>cr_start = s, cr_totalBytes = Some t\<rparr>
             | _ \<Rightarrow> None)))"

definition contentLength :: "ustring option \<Rightarrow> real option" where
  "contentLength header =
    (case header of
       None \<Rightarrow> None
     | Some h \<Rightarrow> (case toNumber h of Fin v \<Rightarrow> if 0 \<le> v then Some v else None | _ \<Rightarrow> None))"

section \<open>Progress reports\<close>

record reporter =
  rp_listening :: bool
  rp_startedAt :: real
  rp_initialBytes :: real
  rp_totalBytes :: "real option"
  rp_resumed :: bool
  rp_lastReportedAt :: real

record progressReport =
  pp_downloadedBytes :: real
  pp_totalBytes :: "real option"
  pp_percentage :: "real option"
  pp_bytesPerSecond :: "real option"
  pp_resumed :: bool

definition createDownloadProgressReporter ::
  "bool \<Rightarrow> real \<Rightarrow> real option \<Rightarrow> bool \<Rightarrow> real \<Rightarrow> reporter" where
  "createDownloadProgressReporter listening initialBytes totalBytes resumed now =
    \<lparr>rp_listening = listening, rp_startedAt = now, rp_initialBytes = initialBytes,
      rp_totalBytes = totalBytes, rp_resumed = resumed, rp_lastReportedAt = 0\<rparr>"

definition reportDownload ::
  "real \<Rightarrow> bool \<Rightarrow> real \<Rightarrow> reporter \<Rightarrow> progressReport option \<times> reporter" where
  "reportDownload downloaded force now rp =
    (if \<not> rp_listening rp then (None, rp)
     else if \<not> force \<and> now - rp_lastReportedAt rp < 160 then (None, rp)
     else
      let elapsed = now - rp_startedAt rp;
          transferred = max 0 (downloaded - rp_initialBytes rp) in
      (Some \<lparr>pp_downloadedBytes = downloaded, pp_totalBytes = rp_totalBytes rp,
         pp_percentage = (case rp_totalBytes rp of
             Some t \<Rightarrow> if 0 < t then Some (min 100 (downloaded / t * 100)) else None | None \<Rightarrow> None),
         pp_bytesPerSecond = (if 0 < elapsed \<and> 0 < transferred then Some (transferred * 1000 / elapsed) else None),
         pp_resumed = rp_resumed rp\<rparr>,
       rp\<lparr>rp_lastReportedAt := now\<rparr>))"

section \<open>The transfer\<close>

text \<open>
  A response; its body is either a stream of reads or, where the browser has no stream, one blob. A read
  that yields bytes comes with the state of the signal before and after it and with the clock; the last
  read ends the stream or fails.
\<close>

record streamRead =
  rd_abortedBefore :: bool
  rd_bytes :: "byte list"
  rd_abortedAfter :: bool
  rd_now :: real

record streamEnd =
  se_abortedBefore :: bool
  se_outcome :: "app_error option"
  se_abortedAfter :: bool

datatype responseBody =
    NoStream "app_error + blob" bool
  | BodyStream "streamRead list" streamEnd

record httpResponse =
  rs_status :: nat
  rs_statusText :: ustring
  rs_contentRange :: "ustring option"
  rs_contentLength :: "ustring option"
  rs_contentType :: "ustring option"
  rs_etag :: "ustring option"
  rs_body :: responseBody

definition rs_ok :: "httpResponse \<Rightarrow> bool" where
  "rs_ok r \<longleftrightarrow> 200 \<le> rs_status r \<and> rs_status r \<le> 299"

record fileRequest =
  fr_startAt :: real
  fr_ifRange :: "ustring option"

definition getBookFileResponse :: "real \<Rightarrow> ustring option \<Rightarrow> fileRequest" where
  "getBookFileResponse startAt etag = \<lparr>fr_startAt = startAt, fr_ifRange = (if 0 < startAt then truthy etag else None)\<rparr>"

record downloadEnv =
  de_userId :: ustring
  de_listening :: bool
  de_abortedAtStart :: bool
  de_readEnv :: storage_env
  de_abortedAfterRead :: bool
  de_request :: "nat \<Rightarrow> fileRequest \<Rightarrow> app_error + httpResponse"
  de_clearEnv :: storage_env
  de_writerEnv :: storage_env
  de_appendEnv :: "nat \<Rightarrow> storage_env \<times> real"
  de_startedAt :: real
  de_abortedAtEnd :: bool
  de_endedAt :: real
  de_finalClearEnv :: storage_env

definition emptyBook :: app_error where
  "emptyBook = PlainError [20070, 31821, 25991, 20214, 20026, 31354]"

definition incompleteDownload :: app_error where
  "incompleteDownload = PlainError [20070, 31821, 19979, 36733, 26410, 23436, 25104, 65292, 35831, 37325,
     35797, 20197, 32487, 32493, 19979, 36733]"

definition loadFailed :: "httpResponse \<Rightarrow> app_error" where
  "loadFailed r = PlainError ([21152, 36733, 20070, 31821, 22833, 36133, 65306] @ dec (rs_status r) @ js '' '' @
     rs_statusText r)"

text \<open>The variables of the transfer: bytes not yet batched, batches in order, the byte count, reports.\<close>

record transfer =
  tr_pending :: "byte list"
  tr_batches :: "blob list"
  tr_downloadedBytes :: real
  tr_reporter :: reporter
  tr_reports :: "progressReport list"

definition persistPendingChunks :: "ustring \<Rightarrow> transfer \<Rightarrow> transfer" where
  "persistPendingChunks contentType t =
    (if tr_pending t = [] then t
     else t\<lparr>tr_pending := [],
       tr_batches := tr_batches t @ [\<lparr>blob_bytes = tr_pending t, blob_type = contentType\<rparr>]\<rparr>)"

definition report :: "bool \<Rightarrow> real \<Rightarrow> transfer \<Rightarrow> transfer" where
  "report force now t =
    (case reportDownload (tr_downloadedBytes t) force now (tr_reporter t) of
       (r, rp) \<Rightarrow> t\<lparr>tr_reporter := rp,
         tr_reports := tr_reports t @ (case r of Some x \<Rightarrow> [x] | None \<Rightarrow> [])\<rparr>)"

definition receive :: "ustring \<Rightarrow> streamRead \<Rightarrow> transfer \<Rightarrow> transfer" where
  "receive contentType rd t =
    (if rd_bytes rd = [] then t
     else
      let t1 = report False (rd_now rd)
          (t\<lparr>tr_pending := tr_pending t @ rd_bytes rd,
             tr_downloadedBytes := tr_downloadedBytes t + real (length (rd_bytes rd))\<rparr>) in
      if 1024 * 1024 \<le> length (tr_pending t1) then persistPendingChunks contentType t1 else t1)"

fun readStream :: "ustring \<Rightarrow> streamRead list \<Rightarrow> streamEnd \<Rightarrow> transfer \<Rightarrow> app_error option \<times> transfer" where
  "readStream ct [] en t =
    (if se_abortedBefore en then (Some AbortError, t)
     else case se_outcome en of
       Some e \<Rightarrow> (Some e, t)
     | None \<Rightarrow> if se_abortedAfter en then (Some AbortError, t) else (None, t))"
| "readStream ct (rd # rds) en t =
    (if rd_abortedBefore rd \<or> rd_abortedAfter rd then (Some AbortError, t)
     else readStream ct rds en (receive ct rd t))"

definition readBody :: "ustring \<Rightarrow> responseBody \<Rightarrow> transfer \<Rightarrow> app_error option \<times> transfer" where
  "readBody ct body t =
    (case body of
       NoStream (Inl e) _ \<Rightarrow> (Some e, t)
     | NoStream (Inr file) aborted \<Rightarrow>
        (if aborted then (Some AbortError, t)
         else if blob_size file = 0 then (Some emptyBook, t)
         else (None, t\<lparr>tr_downloadedBytes := tr_downloadedBytes t + real (blob_size file),
           tr_batches := tr_batches t @ [file]\<rparr>))
     | BodyStream rds en \<Rightarrow>
        (case readStream ct rds en t of (e, t1) \<Rightarrow> (e, persistPendingChunks ct t1)))"

definition finishCheck :: "bool \<Rightarrow> real option \<Rightarrow> transfer \<Rightarrow> app_error option" where
  "finishCheck aborted totalBytes t =
    (if aborted then Some AbortError
     else if tr_downloadedBytes t = 0 then Some emptyBook
     else case totalBytes of
       Some n \<Rightarrow> if tr_downloadedBytes t < n then Some incompleteDownload else None
     | None \<Rightarrow> None)"

definition appendInputs :: "(nat \<Rightarrow> storage_env \<times> real) \<Rightarrow> blob list \<Rightarrow> (storage_env \<times> real \<times> blob) list" where
  "appendInputs envs bs = map (\<lambda>i. (fst (envs i), snd (envs i), bs ! i)) [0..<length bs]"

text \<open>
  From the first request to the response whose body is read: a range that the server cannot satisfy, or
  a response that does not continue at the stored prefix, drops the prefix; unless the response is
  already the whole file, the file is then requested from the start.
\<close>

record negotiated =
  ng_response :: httpResponse
  ng_range :: "contentRange option"
  ng_partial :: "partialDownload option"

definition storageThrow :: "storage_error \<Rightarrow> app_error" where
  "storageThrow e = (case e of
     UriError \<Rightarrow> NamedErr (js ''URIError'') | _ \<Rightarrow> NamedErr (js ''StorageFailure''))"

definition storedBytes :: "partialDownload option \<Rightarrow> real" where
  "storedBytes d = (case d of Some p \<Rightarrow> pd_downloadedBytes p | None \<Rightarrow> 0)"

definition canAppend :: "real \<Rightarrow> httpResponse \<Rightarrow> bool" where
  "canAppend downloaded r \<longleftrightarrow> 0 < downloaded \<and> rs_status r = 206 \<and>
     (case parseContentRange (rs_contentRange r) of Some cr \<Rightarrow> cr_start cr = downloaded | None \<Rightarrow> False)"

type_synonym 'a request_log = "(app_error + 'a) \<times> fileRequest list \<times> cache_storage"

definition retryUnsatisfiable ::
  "downloadEnv \<Rightarrow> ustring \<Rightarrow> partialDownload option \<Rightarrow> httpResponse \<Rightarrow> fileRequest list \<Rightarrow> cache_storage \<Rightarrow>
    (httpResponse \<times> partialDownload option) request_log" where
  "retryUnsatisfiable env bookId p r0 reqs st =
    (if rs_status r0 = 416 \<and> 0 < storedBytes p then
       (case clearPartialBookDownload (de_clearEnv env) (de_userId env) bookId st of
          (Inl e, st1) \<Rightarrow> (Inl (storageThrow e), reqs, st1)
        | (Inr _, st1) \<Rightarrow>
           (let q = getBookFileResponse 0 None in
            case de_request env 1 q of
              Inl e \<Rightarrow> (Inl e, reqs @ [q], st1)
            | Inr r1 \<Rightarrow> (Inr (r1, None), reqs @ [q], st1)))
     else (Inr (r0, p), reqs, st))"

definition dropStalePrefix ::
  "downloadEnv \<Rightarrow> ustring \<Rightarrow> partialDownload option \<Rightarrow> httpResponse \<Rightarrow> fileRequest list \<Rightarrow> cache_storage \<Rightarrow>
    negotiated request_log" where
  "dropStalePrefix env bookId p r reqs st =
    (let range = parseContentRange (rs_contentRange r) in
     if 0 < storedBytes p \<and> \<not> canAppend (storedBytes p) r then
       (case clearPartialBookDownload (de_clearEnv env) (de_userId env) bookId st of
          (Inl e, st1) \<Rightarrow> (Inl (storageThrow e), reqs, st1)
        | (Inr _, st1) \<Rightarrow>
           (if rs_status r = 200
            then (Inr \<lparr>ng_response = r, ng_range = range, ng_partial = None\<rparr>, reqs, st1)
            else
              let q = getBookFileResponse 0 None in
              case de_request env 1 q of
                Inl e \<Rightarrow> (Inl e, reqs @ [q], st1)
              | Inr r1 \<Rightarrow>
                 (Inr \<lparr>ng_response = r1, ng_range = parseContentRange (rs_contentRange r1), ng_partial = None\<rparr>,
                  reqs @ [q], st1)))
     else (Inr \<lparr>ng_response = r, ng_range = range, ng_partial = p\<rparr>, reqs, st))"

definition negotiate ::
  "downloadEnv \<Rightarrow> ustring \<Rightarrow> partialDownload option \<Rightarrow> cache_storage \<Rightarrow> negotiated request_log" where
  "negotiate env bookId p st =
    (let q = getBookFileResponse (storedBytes p) (Option.bind p pd_etag) in
     case de_request env 0 q of
       Inl e \<Rightarrow> (Inl e, [q], st)
     | Inr r0 \<Rightarrow>
        (case retryUnsatisfiable env bookId p r0 [q] st of
           (Inl e, reqs, st1) \<Rightarrow> (Inl e, reqs, st1)
         | (Inr (r, p1), reqs, st1) \<Rightarrow> dropStalePrefix env bookId p1 r reqs st1))"

definition totalBytesOf :: "negotiated \<Rightarrow> real option" where
  "totalBytesOf n =
    (case Option.bind (ng_range n) cr_totalBytes of
       Some t \<Rightarrow> Some t
     | None \<Rightarrow>
        (case contentLength (rs_contentLength (ng_response n)) of
           None \<Rightarrow> Option.bind (ng_partial n) pd_totalBytes
         | Some len \<Rightarrow> Some (storedBytes (ng_partial n) + len)))"

definition contentTypeOf :: "negotiated \<Rightarrow> ustring" where
  "contentTypeOf n =
    (case truthy (rs_contentType (ng_response n)) of
       Some t \<Rightarrow> t
     | None \<Rightarrow> or_else (case ng_partial n of Some p \<Rightarrow> pd_contentType p | None \<Rightarrow> []) octet_stream)"

definition beginTransfer :: "downloadEnv \<Rightarrow> negotiated \<Rightarrow> transfer" where
  "beginTransfer env n =
    (let d = storedBytes (ng_partial n) in
     report True (de_startedAt env)
       \<lparr>tr_pending = [], tr_batches = [], tr_downloadedBytes = d,
        tr_reporter = createDownloadProgressReporter (de_listening env) d (totalBytesOf n) (0 < d) (de_startedAt env),
        tr_reports = []\<rparr>)"

record downloadResult =
  dr_outcome :: "app_error + blob"
  dr_requests :: "fileRequest list"
  dr_reports :: "progressReport list"
  dr_storage :: cache_storage

definition openWriter :: "downloadEnv \<Rightarrow> ustring \<Rightarrow> negotiated \<Rightarrow> cache_storage \<Rightarrow> writer option \<times> cache_storage" where
  "openWriter env bookId n st =
    (case createPartialBookDownloadWriter (de_writerEnv env) (de_userId env) bookId (totalBytesOf n) (contentTypeOf n)
        (Some (ng_partial n)) (rs_etag (ng_response n)) st of
       (Inl _, st1) \<Rightarrow> (None, st1) | (Inr w, st1) \<Rightarrow> (Some w, st1))"

definition transferBody :: "downloadEnv \<Rightarrow> ustring \<Rightarrow> fileRequest list \<Rightarrow> negotiated \<Rightarrow> cache_storage \<Rightarrow> downloadResult" where
  "transferBody env bookId reqs n st =
    (case openWriter env bookId n st of
       (w, st1) \<Rightarrow>
        (case readBody (contentTypeOf n) (rs_body (ng_response n)) (beginTransfer env n) of
           (err, t) \<Rightarrow>
            (case appendAll (appendInputs (de_appendEnv env) (tr_batches t)) (w, st1) of
               (_, st2) \<Rightarrow>
                (case (case err of Some e \<Rightarrow> Some e
                       | None \<Rightarrow> finishCheck (de_abortedAtEnd env) (totalBytesOf n) t) of
                   Some e \<Rightarrow> \<lparr>dr_outcome = Inl e, dr_requests = reqs, dr_reports = tr_reports t, dr_storage = st2\<rparr>
                 | None \<Rightarrow>
                    \<lparr>dr_outcome = Inr \<lparr>blob_bytes = concat (map blob_bytes
                        ((case ng_partial n of Some p \<Rightarrow> pd_chunks p | None \<Rightarrow> []) @ tr_batches t)),
                        blob_type = contentTypeOf n\<rparr>,
                      dr_requests = reqs,
                      dr_reports = tr_reports (report True (de_endedAt env) t),
                      dr_storage = snd (clearPartialBookDownload (de_finalClearEnv env) (de_userId env) bookId st2)\<rparr>))))"

definition downloadFailed :: "app_error \<Rightarrow> fileRequest list \<Rightarrow> cache_storage \<Rightarrow> downloadResult" where
  "downloadFailed e reqs st = \<lparr>dr_outcome = Inl e, dr_requests = reqs, dr_reports = [], dr_storage = st\<rparr>"

definition downloadBookFile :: "downloadEnv \<Rightarrow> ustring \<Rightarrow> cache_storage \<Rightarrow> downloadResult" where
  "downloadBookFile env bookId st =
    (if de_abortedAtStart env then downloadFailed AbortError [] st
     else case getPartialBookDownload (de_readEnv env) (de_userId env) bookId st of
       (p, st1) \<Rightarrow>
        (if de_abortedAfterRead env then downloadFailed AbortError [] st1
         else case negotiate env bookId p st1 of
           (Inl e, reqs, st2) \<Rightarrow> downloadFailed e reqs st2
         | (Inr n, reqs, st2) \<Rightarrow>
            (if \<not> rs_ok (ng_response n) then downloadFailed (loadFailed (ng_response n)) reqs st2
             else transferBody env bookId reqs n st2)))"

section \<open>Choosing the file to open\<close>

text \<open>
  \<^verbatim>\<open>createBookFile\<close>: the metadata request and (without an offline copy) the download start together;
  their outcomes, the signal at each check and whether the account is still the same are the environment.
  A file is the offline copy, or the downloaded blob with the file name from the metadata (without a name
  where \<^verbatim>\<open>new File\<close> is missing). \<open>fe_started\<close> of the result says whether a download was started.
\<close>

record fileEnv =
  fe_cached :: "storage_error + offlineBookEntry option"
  fe_abortedAfterCache :: bool
  fe_metadata :: "app_error + book"
  fe_abortedAfterMetadata :: bool
  fe_sameUser :: bool
  fe_download :: "app_error + blob"
  fe_abortedInCatch :: bool
  fe_sameUserInCatch :: bool
  fe_fileOk :: bool

datatype openedFile = OfflineCopy offlineBookEntry | DownloadedFile blob "ustring option"

definition authChangedError :: app_error where
  "authChangedError = ApiError 401 [30331, 24405, 29366, 24577, 24050, 21464, 26356, 65292, 35831, 37325,
     26032, 25171, 24320, 20070, 31821] None"

definition sameContent :: "offlineBookEntry \<Rightarrow> book \<Rightarrow> bool" where
  "sameContent c bk \<longleftrightarrow> (case truthy (bk_content_hash bk) of Some h \<Rightarrow> oe_contentHash c = h | None \<Rightarrow> False)"

definition fallBack :: "fileEnv \<Rightarrow> offlineBookEntry option \<Rightarrow> book option \<Rightarrow> app_error \<Rightarrow> app_error + openedFile" where
  "fallBack env cached bk e =
    (if fe_abortedInCatch env then Inl AbortError
     else case cached of
       Some c \<Rightarrow>
        (if \<not> isApiError e \<and> \<not> isAbortLikeError e \<and> fe_sameUserInCatch env \<and>
            (case bk of None \<Rightarrow> True | Some m \<Rightarrow> sameContent c m)
         then Inr (OfflineCopy c) else Inl e)
     | None \<Rightarrow> Inl e)"

definition createBookFile :: "fileEnv \<Rightarrow> app_error + openedFile" where
  "createBookFile env =
    (let cached = (case fe_cached env of Inr c \<Rightarrow> c | Inl _ \<Rightarrow> None) in
     if fe_abortedAfterCache env then Inl AbortError
     else case fe_metadata env of
       Inl e \<Rightarrow> fallBack env cached None e
     | Inr bk \<Rightarrow>
        (if fe_abortedAfterMetadata env then fallBack env cached (Some bk) AbortError
         else if \<not> fe_sameUser env then fallBack env cached (Some bk) authChangedError
         else case cached of
           Some c \<Rightarrow>
             (if sameContent c bk then Inr (OfflineCopy c)
              else case fe_download env of
                Inl e \<Rightarrow> fallBack env cached (Some bk) e
              | Inr b \<Rightarrow> Inr (DownloadedFile b (if fe_fileOk env then Some (bk_filename bk) else None)))
         | None \<Rightarrow>
             (case fe_download env of
                Inl e \<Rightarrow> fallBack env cached (Some bk) e
              | Inr b \<Rightarrow> Inr (DownloadedFile b (if fe_fileOk env then Some (bk_filename bk) else None)))))"

section \<open>What the transfer collects\<close>

definition tr_all :: "transfer \<Rightarrow> byte list" where
  "tr_all t = concat (map blob_bytes (tr_batches t)) @ tr_pending t"

fun receivedBytes :: "responseBody \<Rightarrow> byte list" where
  "receivedBytes (NoStream (Inr f) False) = blob_bytes f"
| "receivedBytes (NoStream _ _) = []"
| "receivedBytes (BodyStream rds en) =
    concat (map rd_bytes (takeWhile (\<lambda>rd. \<not> (rd_abortedBefore rd \<or> rd_abortedAfter rd)) rds))"

definition batches_ok :: "transfer \<Rightarrow> bool" where
  "batches_ok t \<longleftrightarrow> list_all (\<lambda>b. 0 < blob_size b) (tr_batches t)"

lemma report_fields [simp]:
  "tr_pending (report f now t) = tr_pending t" "tr_batches (report f now t) = tr_batches t"
  "tr_downloadedBytes (report f now t) = tr_downloadedBytes t"
  by (simp_all add: report_def split: prod.splits)

lemma persist_fields [simp]:
  "tr_pending (persistPendingChunks ct t) = []" "tr_all (persistPendingChunks ct t) = tr_all t"
  "tr_downloadedBytes (persistPendingChunks ct t) = tr_downloadedBytes t"
  "batches_ok t \<Longrightarrow> batches_ok (persistPendingChunks ct t)"
  by (auto simp: persistPendingChunks_def tr_all_def batches_ok_def)

lemma receive_fields:
  "tr_all (receive ct rd t) = tr_all t @ rd_bytes rd"
  "tr_downloadedBytes (receive ct rd t) = tr_downloadedBytes t + real (length (rd_bytes rd))"
  "batches_ok t \<Longrightarrow> batches_ok (receive ct rd t)"
  by (auto simp: receive_def Let_def)
    (auto simp: tr_all_def batches_ok_def persistPendingChunks_def)

lemma readStream_fields:
  assumes "readStream ct rds en t = (e, t')"
  shows "tr_all t' = tr_all t @ receivedBytes (BodyStream rds en)"
    and "tr_downloadedBytes t' = tr_downloadedBytes t + real (length (receivedBytes (BodyStream rds en)))"
    and "batches_ok t \<Longrightarrow> batches_ok t'"
  using assms
proof (induction ct rds en t rule: readStream.induct)
  case (1 ct en t)
  { case 1 then show ?case by (auto split: if_splits option.splits) next
    case 2 then show ?case by (auto split: if_splits option.splits) next
    case 3 then show ?case by (auto split: if_splits option.splits) }
next
  case (2 ct rd rds en t)
  { case 1 with "2.IH"(1) show ?case by (auto simp: receive_fields split: if_splits) next
    case 2 with "2.IH"(2) show ?case by (auto simp: receive_fields split: if_splits) next
    case 3 with "2.IH"(3) show ?case by (auto simp: receive_fields split: if_splits) }
qed

lemma readBody_fields:
  assumes "readBody ct body t = (e, t')" and "tr_pending t = []"
  shows "concat (map blob_bytes (tr_batches t')) = concat (map blob_bytes (tr_batches t)) @ receivedBytes body"
    and "tr_downloadedBytes t' = tr_downloadedBytes t + real (length (receivedBytes body))"
    and "batches_ok t \<Longrightarrow> batches_ok t'"
proof -
  have "concat (map blob_bytes (tr_batches t')) = concat (map blob_bytes (tr_batches t)) @ receivedBytes body \<and>
    tr_downloadedBytes t' = tr_downloadedBytes t + real (length (receivedBytes body)) \<and>
    (batches_ok t \<longrightarrow> batches_ok t')"
  proof (cases body)
    case (NoStream r ab)
    with assms(1) show ?thesis
      by (cases r; cases ab) (auto simp: readBody_def batches_ok_def split: if_splits)
  next
    case (BodyStream rds en)
    obtain t1 where t1: "readStream ct rds en t = (e, t1)" "t' = persistPendingChunks ct t1"
      using assms(1) BodyStream by (auto simp: readBody_def split: prod.splits)
    have "tr_all t' = tr_all t @ receivedBytes body" "tr_pending t' = []"
      using readStream_fields(1) [OF t1(1)] t1(2) BodyStream by auto
    with readStream_fields [OF t1(1)] t1(2) BodyStream assms(2) show ?thesis by (simp add: tr_all_def)
  qed
  then show "concat (map blob_bytes (tr_batches t')) = concat (map blob_bytes (tr_batches t)) @ receivedBytes body"
    "tr_downloadedBytes t' = tr_downloadedBytes t + real (length (receivedBytes body))"
    "batches_ok t \<Longrightarrow> batches_ok t'" by auto
qed

lemma beginTransfer_fields [simp]:
  "tr_pending (beginTransfer env n) = []" "tr_batches (beginTransfer env n) = []"
  "tr_downloadedBytes (beginTransfer env n) = storedBytes (ng_partial n)" "batches_ok (beginTransfer env n)"
  by (simp_all add: beginTransfer_def Let_def batches_ok_def)

definition prefixBytes :: "partialDownload option \<Rightarrow> byte list" where
  "prefixBytes p = (case p of Some d \<Rightarrow> concat (map blob_bytes (pd_chunks d)) | None \<Rightarrow> [])"

lemma transferBody_success:
  assumes "dr_outcome (transferBody env b reqs n st) = Inr f"
  shows "blob_bytes f = prefixBytes (ng_partial n) @ receivedBytes (rs_body (ng_response n))"
    and "case totalBytesOf n of
      Some tot \<Rightarrow> tot \<le> storedBytes (ng_partial n) + real (length (receivedBytes (rs_body (ng_response n))))
    | None \<Rightarrow> True"
proof -
  obtain w st1 where w: "openWriter env b n st = (w, st1)" by fastforce
  obtain e t where r: "readBody (contentTypeOf n) (rs_body (ng_response n)) (beginTransfer env n) = (e, t)"
    by fastforce
  have ok: "e = None" "finishCheck (de_abortedAtEnd env) (totalBytesOf n) t = None"
    and f: "blob_bytes f = concat (map blob_bytes
      ((case ng_partial n of Some p \<Rightarrow> pd_chunks p | None \<Rightarrow> []) @ tr_batches t))"
    using assms by (auto simp: transferBody_def w r split: prod.splits option.splits)
  from f readBody_fields(1) [OF r] show "blob_bytes f = prefixBytes (ng_partial n) @
      receivedBytes (rs_body (ng_response n))"
    by (simp add: prefixBytes_def split: option.splits)
  from ok(2) readBody_fields(2) [OF r] show "case totalBytesOf n of
      Some tot \<Rightarrow> tot \<le> storedBytes (ng_partial n) + real (length (receivedBytes (rs_body (ng_response n))))
    | None \<Rightarrow> True"
    by (auto simp: finishCheck_def split: if_splits option.splits)
qed

section \<open>The negotiation\<close>

lemma getPartial_bytes:
  "getPartialBookDownload env u b st = (Some p, st') \<Longrightarrow> pd_downloadedBytes p = real (chunkBytes (pd_chunks p))"
  by (auto simp: getPartialBookDownload_def discardPartial_def split: option.splits sum.splits if_splits
      prod.splits)

lemma length_prefixBytes: "length (concat (map blob_bytes bs)) = chunkBytes bs"
  by (simp add: chunkBytes_def length_concat comp_def)

lemma negotiate_cases:
  assumes "negotiate env b p st = (Inr n, reqs, st')"
  obtains (Resumed) r where "de_request env 0 (getBookFileResponse (storedBytes p) (Option.bind p pd_etag)) = Inr r"
      "canAppend (storedBytes p) r" "ng_response n = r" "ng_partial n = p" "st' = st"
      "ng_range n = parseContentRange (rs_contentRange r)"
  | (First) r where "de_request env 0 (getBookFileResponse (storedBytes p) (Option.bind p pd_etag)) = Inr r"
      "\<not> 0 < storedBytes p" "ng_response n = r" "ng_partial n = p" "st' = st"
      "ng_range n = parseContentRange (rs_contentRange r)"
  | (Whole) r where "de_request env 0 (getBookFileResponse (storedBytes p) (Option.bind p pd_etag)) = Inr r"
      "rs_status r = 200" "ng_response n = r" "ng_partial n = None"
      "st' = snd (clearPartialBookDownload (de_clearEnv env) (de_userId env) b st)"
      "ng_range n = parseContentRange (rs_contentRange r)"
  | (Again) r where "de_request env 1 (getBookFileResponse 0 None) = Inr r" "ng_response n = r" "ng_partial n = None"
      "st' = snd (clearPartialBookDownload (de_clearEnv env) (de_userId env) b st)"
      "ng_range n = parseContentRange (rs_contentRange r)"
proof -
  let ?q = "getBookFileResponse (storedBytes p) (Option.bind p pd_etag)"
  obtain r0 where r0: "de_request env 0 ?q = Inr r0"
    using assms by (auto simp: negotiate_def Let_def split: sum.splits)
  show ?thesis
  proof (cases "rs_status r0 = 416 \<and> 0 < storedBytes p")
    case True
    then show ?thesis
      using assms r0 Again
      by (auto simp: negotiate_def retryUnsatisfiable_def dropStalePrefix_def Let_def storedBytes_def [of None]
          split: prod.splits sum.splits)
  next
    case False
    then have ng: "dropStalePrefix env b p r0 [?q] st = (Inr n, reqs, st')"
      using assms r0 by (auto simp: negotiate_def retryUnsatisfiable_def Let_def)
    show ?thesis
    proof (cases "0 < storedBytes p \<and> \<not> canAppend (storedBytes p) r0")
      case True
      with ng r0 Whole Again show ?thesis
        by (auto simp: dropStalePrefix_def Let_def split: prod.splits sum.splits if_splits)
    next
      case False
      with ng r0 First Resumed show ?thesis
        by (cases "0 < storedBytes p") (auto simp: dropStalePrefix_def Let_def)
    qed
  qed
qed

lemma negotiate_requests:
  "case negotiate env b p st of (_, reqs, _) \<Rightarrow> length reqs \<le> 2 \<and> reqs \<noteq> [] \<and>
     list_all (\<lambda>q. q = \<lparr>fr_startAt = 0, fr_ifRange = None\<rparr>) (tl reqs)"
proof -
  have z: "getBookFileResponse 0 None = \<lparr>fr_startAt = 0, fr_ifRange = None\<rparr>"
    by (simp add: getBookFileResponse_def)
  let ?q = "getBookFileResponse (storedBytes p) (Option.bind p pd_etag)"
  have drop: "case dropStalePrefix env b p' r [?q] st' of (_, reqs, _) \<Rightarrow> length reqs \<le> 2 \<and> reqs \<noteq> [] \<and>
     list_all (\<lambda>q. q = \<lparr>fr_startAt = 0, fr_ifRange = None\<rparr>) (tl reqs)" for p' r st'
    by (simp add: dropStalePrefix_def Let_def z split: prod.splits sum.splits)
  show ?thesis
  proof (cases "de_request env 0 ?q")
    case (Inl e)
    then show ?thesis by (simp add: negotiate_def)
  next
    case (Inr r)
    show ?thesis
    proof (cases "rs_status r = 416 \<and> 0 < storedBytes p")
      case True
      with Inr show ?thesis
        by (simp add: negotiate_def retryUnsatisfiable_def dropStalePrefix_def Let_def z
            storedBytes_def [of None] split: prod.splits sum.splits)
    next
      case False
      then have "retryUnsatisfiable env b p r [?q] st = (Inr (r, p), [?q], st)"
        by (auto simp: retryUnsatisfiable_def)
      with Inr drop [of p r st] show ?thesis by (simp add: negotiate_def Let_def)
    qed
  qed
qed

lemma downloadBookFile_success:
  assumes "dr_outcome (downloadBookFile env b st) = Inr f"
  obtains p st1 n reqs st2 where "getPartialBookDownload (de_readEnv env) (de_userId env) b st = (p, st1)"
    "negotiate env b p st1 = (Inr n, reqs, st2)" "rs_ok (ng_response n)"
    "dr_outcome (transferBody env b reqs n st2) = Inr f"
proof -
  obtain p st1 where "getPartialBookDownload (de_readEnv env) (de_userId env) b st = (p, st1)" by fastforce
  moreover obtain r reqs st2 where "negotiate env b p st1 = (r, reqs, st2)" by (metis prod_cases3)
  ultimately show ?thesis
    using assms that
    by (cases r) (auto simp: downloadBookFile_def downloadFailed_def split: if_splits)
qed

section \<open>Storage of a failing transfer\<close>

definition roomy :: "storage_env \<Rightarrow> bool" where
  "roomy env \<longleftrightarrow> healthy env \<and> estimate env = None"

abbreviation chunks :: "partialDownload option \<Rightarrow> blob list" where
  "chunks p \<equiv> (case p of None \<Rightarrow> [] | Some d \<Rightarrow> pd_chunks d)"

lemma prefixBytes_chunks: "prefixBytes p = concat (map blob_bytes (chunks p))"
  by (simp add: prefixBytes_def split: option.splits)

lemma appendStep_roomy:
  assumes "roomy env" and "partialDownloadPath (wr_bookId w) = Some d"
  shows "\<exists>w' st'. appendStep (env, now, c) (Some w, st) = (Some w', st') \<and> wr_bookId w' = wr_bookId w"
proof -
  have q: "\<exists>w1. quotaCheck env w c = Inr w1 \<and> wr_bookId w1 = wr_bookId w"
    using assms(1) by (simp add: quotaCheck_def ensureCapacity_def roomy_def)
  then show ?thesis
    using assms by (auto simp: appendStep_def writerAppend_def commitChunk_def cachePut_def roomy_def healthy_def
        partialDownloadMetaRequest_def partialDownloadChunkRequest_def split: option.splits)
qed

lemma appendAll_roomy:
  "list_all (\<lambda>(env, _, _). roomy env) xs \<Longrightarrow> partialDownloadPath (wr_bookId w) = Some d \<Longrightarrow>
    fst (appendAll xs (Some w, st)) \<noteq> None"
proof (induction xs arbitrary: w st)
  case (Cons x xs)
  obtain env now c where x: "x = (env, now, c)" by (cases x)
  with Cons.prems obtain w' st' where "appendStep x (Some w, st) = (Some w', st')" "wr_bookId w' = wr_bookId w"
    using appendStep_roomy [of env w d now c st] by auto
  with Cons x show ?case by (simp add: appendAll_def)
qed (simp add: appendAll_def)

lemma map_nth_all: "map (\<lambda>i. bs ! i) [0..<length bs] = bs"
  by (rule nth_equalityI) auto

lemma chunks_of_appendInputs:
  "list_all (\<lambda>b. 0 < blob_size b) bs \<Longrightarrow> chunks_of (appendInputs envs bs) = bs"
  by (simp add: appendInputs_def comp_def map_nth_all list_all_iff)

lemma openWriter_roomy:
  assumes "roomy (de_writerEnv env)" and "de_userId env \<noteq> []" and "cacheName (de_userId env) = Some name"
    and "\<And>q. ng_partial n = Some q \<Longrightarrow> pd_downloadedBytes q = real (chunkBytes (pd_chunks q))"
  obtains w st1 where "openWriter env b n st = (Some w, st1)" "writer_at w name b (chunks (ng_partial n))"
    "\<And>m. the_cache st1 m = the_cache st m"
proof -
  obtain st1 where o: "openCache (de_writerEnv env) (de_userId env) st = (Inr name, st1)"
    using healthy_open [of "de_writerEnv env" "de_userId env" name st] assms(1,3) by (auto simp: roomy_def)
  obtain w where c: "createPartialBookDownloadWriter (de_writerEnv env) (de_userId env) b (totalBytesOf n)
      (contentTypeOf n) (Some (ng_partial n)) (rs_etag (ng_response n)) st = (Inr w, st1)"
    using assms(1,2) o by (cases "ng_partial n")
      (auto simp: createPartialBookDownloadWriter_def initialCounts_def roomy_def healthy_def)
  have sup: "supported (de_writerEnv env)" using assms(1) by (simp add: roomy_def healthy_def)
  have "writer_at w name b (chunks (ng_partial n)) \<and> the_cache st1 m = the_cache st m" for m
    by (rule createWriter_at [OF assms(2,3) sup c]) (use assms(4) in \<open>auto split: option.splits\<close>)
  then show ?thesis using that [of w st1] c by (simp add: openWriter_def)
qed

lemma transferBody_keeps:
  assumes "roomy (de_writerEnv env)" and "\<And>i. roomy (fst (de_appendEnv env i))" and "de_userId env \<noteq> []"
    and "cacheName (de_userId env) = Some name" and path: "partialDownloadPath b = Some d"
    and "committed st name d (chunks (ng_partial n))"
    and "\<And>q. ng_partial n = Some q \<Longrightarrow> pd_downloadedBytes q = real (chunkBytes (pd_chunks q))"
    and "dr_outcome (transferBody env b reqs n st) = Inl e"
  shows "\<exists>bs. committed (dr_storage (transferBody env b reqs n st)) name d (chunks (ng_partial n) @ bs) \<and>
    concat (map blob_bytes bs) = receivedBytes (rs_body (ng_response n))"
proof -
  obtain w st1 where w: "openWriter env b n st = (Some w, st1)" "writer_at w name b (chunks (ng_partial n))"
    "\<And>m. the_cache st1 m = the_cache st m"
    using openWriter_roomy [OF assms(1,3,4,7)] by blast
  obtain err t where r: "readBody (contentTypeOf n) (rs_body (ng_response n)) (beginTransfer env n) = (err, t)"
    by fastforce
  let ?xs = "appendInputs (de_appendEnv env) (tr_batches t)"
  obtain w' st2 where a: "appendAll ?xs (Some w, st1) = (w', st2)" by fastforce
  have st2: "dr_storage (transferBody env b reqs n st) = st2"
    using assms(8) by (auto simp: transferBody_def w r a split: option.splits)
  have "list_all (\<lambda>(env, _, _). roomy env) ?xs"
    using assms(2) by (simp add: appendInputs_def list_all_iff)
  then have "w' \<noteq> None"
    using appendAll_roomy [of ?xs w d st1] a path w(2) by (simp add: writer_at_def)
  moreover have "committed st1 name d (chunks (ng_partial n))"
    using assms(6) committed_cong [of st1 st] w(3) by blast
  moreover have "chunks_of ?xs = tr_batches t"
    using readBody_fields(3) [OF r] by (intro chunks_of_appendInputs) (simp add: batches_ok_def)
  ultimately have "committed st2 name d (chunks (ng_partial n) @ tr_batches t)"
    using appendAll_committed [OF path _ w(2) a] by metis
  then show ?thesis using readBody_fields(1) [OF r] st2 by (intro exI [of _ "tr_batches t"]) simp
qed

lemma negotiate_committed:
  assumes "negotiate env b p st = (Inr n, reqs, st')" and "healthy (de_clearEnv env)" and "de_userId env \<noteq> []"
    and "cacheName (de_userId env) = Some name" and "partialDownloadPath b = Some d"
    and "committed st name d (chunks p)"
  shows "committed st' name d (chunks (ng_partial n)) \<and> (ng_partial n = p \<or> ng_partial n = None)"
  using assms(1)
proof (cases rule: negotiate_cases)
  case (Whole r)
  then show ?thesis using clear_committed [OF assms(2-5)] by simp
next
  case (Again r)
  then show ?thesis using clear_committed [OF assms(2-5)] by simp
qed (use assms(6) in auto)

section \<open>Properties\<close>

text \<open>
  A server that answers for the file \<open>content\<close>: a successful response is the whole file with status 200 or,
  to a range request, the file from some position on with status 206, not necessarily the position that
  was asked for; a Content-Range that is given tells the position, the length of the body is announced,
  and what is read of the body is a prefix of it.
\<close>

definition servesFrom :: "byte list \<Rightarrow> nat \<Rightarrow> httpResponse \<Rightarrow> bool" where
  "servesFrom content start r \<longleftrightarrow> start \<le> length content \<and>
     contentLength (rs_contentLength r) = Some (real (length content) - real start) \<and>
     (case parseContentRange (rs_contentRange r) of
        None \<Rightarrow> True
      | Some cr \<Rightarrow> cr_start cr = real start \<and> (cr_totalBytes cr \<in> {None, Some (real (length content))})) \<and>
     (\<exists>k. receivedBytes (rs_body r) = take k (drop start content))"

definition honest :: "byte list \<Rightarrow> fileRequest \<Rightarrow> httpResponse \<Rightarrow> bool" where
  "honest content q r \<longleftrightarrow>
    (rs_ok r \<longrightarrow>
      rs_status r = 200 \<and> servesFrom content 0 r \<or>
      rs_status r = 206 \<and> fr_startAt q \<noteq> 0 \<and> (\<exists>start. servesFrom content start r))"

lemma take_complete: "length xs \<le> length (take k xs) \<Longrightarrow> take k xs = xs"
  by simp

lemma honest_whole:
  assumes "honest content q r" and "rs_ok r" and "fr_startAt q = 0 \<or> rs_status r = 200"
  shows "contentLength (rs_contentLength r) = Some (real (length content))"
    and "case parseContentRange (rs_contentRange r) of
          None \<Rightarrow> True | Some cr \<Rightarrow> cr_totalBytes cr \<in> {None, Some (real (length content))}"
    and "\<exists>k. receivedBytes (rs_body r) = take k content"
  using assms by (auto simp: honest_def servesFrom_def split: option.splits)

text \<open>A server for the two-byte file \<open>[1, 2]\<close>; the connection breaks after the first byte or not.\<close>

definition sampleResponse :: "bool \<Rightarrow> httpResponse" where
  "sampleResponse broken = \<lparr>rs_status = 200, rs_statusText = [], rs_contentRange = None,
     rs_contentLength = Some (dec 2), rs_contentType = None, rs_etag = None,
     rs_body = BodyStream
       (\<lparr>rd_abortedBefore = False, rd_bytes = [1], rd_abortedAfter = False, rd_now = 1\<rparr> #
        (if broken then []
         else [\<lparr>rd_abortedBefore = False, rd_bytes = [2], rd_abortedAfter = False, rd_now = 2\<rparr>]))
       \<lparr>se_abortedBefore = False, se_outcome = (if broken then Some (NamedErr (js ''TypeError'')) else None),
        se_abortedAfter = False\<rparr>\<rparr>"

definition sampleDownload :: "bool \<Rightarrow> downloadEnv" where
  "sampleDownload broken = \<lparr>de_userId = js ''u'', de_listening = False, de_abortedAtStart = False,
     de_readEnv = goodEnv, de_abortedAfterRead = False, de_request = (\<lambda>_ _. Inr (sampleResponse broken)),
     de_clearEnv = goodEnv, de_writerEnv = goodEnv, de_appendEnv = (\<lambda>_. (goodEnv, 0)), de_startedAt = 0,
     de_abortedAtEnd = False, de_endedAt = 3, de_finalClearEnv = goodEnv\<rparr>"

lemma sample_length: "contentLength (Some (dec 2)) = Some 2"
proof -
  have "(4 :: real) \<le> overflow_bound" by (simp add: overflow_bound_def)
  then show ?thesis using toNumber_dec [of 2] by (simp add: contentLength_def)
qed

lemma sample_negotiate:
  "negotiate (sampleDownload broken) (js ''b'') None sampleStore =
    (Inr \<lparr>ng_response = sampleResponse broken, ng_range = None, ng_partial = None\<rparr>,
     [getBookFileResponse 0 None], sampleStore)"
  by (simp add: negotiate_def sampleDownload_def retryUnsatisfiable_def dropStalePrefix_def storedBytes_def
      Let_def parseContentRange_def truthy_def sampleResponse_def)

lemma whole_complete:
  assumes "honest content q (ng_response n)" and "rs_ok (ng_response n)"
    and "fr_startAt q = 0 \<or> rs_status (ng_response n) = 200"
    and "prefixBytes (ng_partial n) = []" and "storedBytes (ng_partial n) = 0"
    and "ng_range n = parseContentRange (rs_contentRange (ng_response n))"
    and "dr_outcome (transferBody env b reqs n st) = Inr f"
  shows "blob_bytes f = content"
proof -
  note h = honest_whole [OF assms(1-3)] and out = transferBody_success [OF assms(7)]
  from h(3) obtain k where k: "receivedBytes (rs_body (ng_response n)) = take k content" ..
  have "totalBytesOf n = Some (real (length content))"
    using h(1,2) assms(4-6) by (auto simp: totalBytesOf_def split: option.splits)
  then have "length content \<le> length (take k content)" using out(2) assms(5) k by simp
  then show ?thesis using out(1) assms(4) k take_complete by auto
qed

lemma resumed_complete:
  assumes "honest content q (ng_response n)" and "rs_ok (ng_response n)"
    and "canAppend (real (length pre)) (ng_response n)"
    and "prefixBytes (ng_partial n) = pre" and "storedBytes (ng_partial n) = real (length pre)"
    and "ng_range n = parseContentRange (rs_contentRange (ng_response n))"
    and "pre = take (length pre) content"
    and "dr_outcome (transferBody env b reqs n st) = Inr f"
  shows "blob_bytes f = content"
proof -
  let ?m = "length pre" and ?r = "ng_response n"
  note out = transferBody_success [OF assms(8)]
  obtain start where h: "servesFrom content start ?r" using assms(1,2,3) by (auto simp: honest_def canAppend_def)
  moreover obtain cr where cr: "parseContentRange (rs_contentRange ?r) = Some cr" "cr_start cr = real ?m"
    using assms(3) by (auto simp: canAppend_def split: option.splits)
  ultimately have "start = ?m" by (simp add: servesFrom_def)
  with h cr obtain k where k: "receivedBytes (rs_body ?r) = take k (drop ?m content)" "?m \<le> length content"
    "totalBytesOf n = Some (real (length content))"
    using assms(5,6) by (auto simp: servesFrom_def totalBytesOf_def split: option.splits)
  have "length content \<le> ?m + length (take k (drop ?m content))" using out(2) k assms(5) by simp
  then have "take k (drop ?m content) = drop ?m content" using k(2) by (intro take_complete) simp
  then show ?thesis using out(1) k(1) assms(4,7) by (metis append_take_drop_id)
qed

text \<open>
  \<^bold>\<open>C13\<close> (download integrity). Against a server that answers for a file, a download that succeeds
  returns exactly that file, whether it started afresh, resumed at a stored prefix, or dropped a prefix
  the server did not continue; a prefix is only reused when the server answers 206 at its end, so it is
  enough that in this case it is a prefix of the current file.
\<close>

theorem download_integrity:
  assumes honest: "\<And>i q r. de_request env i q = Inr r \<Longrightarrow> honest content q r"
    and stored: "\<And>p st1 r. getPartialBookDownload (de_readEnv env) (de_userId env) b st = (Some p, st1) \<Longrightarrow>
      de_request env 0 (getBookFileResponse (pd_downloadedBytes p) (pd_etag p)) = Inr r \<Longrightarrow>
      rs_status r = 206 \<Longrightarrow> prefixBytes (Some p) = take (chunkBytes (pd_chunks p)) content"
    and success: "dr_outcome (downloadBookFile env b st) = Inr f"
  shows "blob_bytes f = content"
proof -
  obtain p st1 n reqs st2 where get: "getPartialBookDownload (de_readEnv env) (de_userId env) b st = (p, st1)"
    and neg: "negotiate env b p st1 = (Inr n, reqs, st2)" and ok: "rs_ok (ng_response n)"
    and body: "dr_outcome (transferBody env b reqs n st2) = Inr f"
    using downloadBookFile_success [OF success] .
  have bytes: "storedBytes p = real (length (prefixBytes p))"
    using getPartial_bytes [of "de_readEnv env" "de_userId env" b st _ st1] get
    by (cases p) (auto simp: storedBytes_def prefixBytes_def length_prefixBytes)
  note none = prefixBytes_def storedBytes_def
  from neg show ?thesis
  proof (cases rule: negotiate_cases)
    case (Resumed r)
    then obtain d where d: "p = Some d" by (cases p) (auto simp: canAppend_def storedBytes_def)
    have r: "de_request env 0 (getBookFileResponse (pd_downloadedBytes d) (pd_etag d)) = Inr r" "rs_status r = 206"
      using Resumed(1,2) d by (auto simp: storedBytes_def canAppend_def)
    have "prefixBytes p = take (length (prefixBytes p)) content"
      using stored [OF get [unfolded d] r] d by (simp add: min_def)
    then show ?thesis
      using resumed_complete [OF _ ok _ _ _ _ _ body, of content _ "prefixBytes p"] honest [OF r(1)] Resumed bytes by simp
  next
    case (First r)
    then have "storedBytes p = 0" using bytes by simp
    then show ?thesis
      using whole_complete [OF _ ok _ _ _ _ body] honest [OF First(1)] First bytes
      by (simp add: getBookFileResponse_def)
  next
    case (Whole r)
    then show ?thesis using whole_complete [OF _ ok _ _ _ _ body] honest [OF Whole(1)] by (simp add: none)
  next
    case (Again r)
    then show ?thesis
      using whole_complete [OF _ ok _ _ _ _ body] honest [OF Again(1)] by (simp add: none getBookFileResponse_def)
  qed
qed

theorem download_integrity_witness:
  "\<exists>f. dr_outcome (downloadBookFile (sampleDownload False) (js ''b'') sampleStore) = Inr f \<and> blob_bytes f = [1, 2]"
proof -
  let ?env = "sampleDownload False"
  have get: "getPartialBookDownload (de_readEnv ?env) (de_userId ?env) (js ''b'') sampleStore = (None, sampleStore)"
    using sample_empty by (simp add: sampleDownload_def)
  have h: "honest [1, 2] q r" if "de_request ?env i q = Inr r" for i q r
    using that sample_length
    by (auto simp: sampleDownload_def sampleResponse_def honest_def servesFrom_def rs_ok_def parseContentRange_def
        truthy_def intro: exI [of _ 2])
  obtain f where f: "dr_outcome (downloadBookFile ?env (js ''b'') sampleStore) = Inr f"
  proof -
    have "downloadBookFile ?env (js ''b'') sampleStore = transferBody ?env (js ''b'') [getBookFileResponse 0 None]
        \<lparr>ng_response = sampleResponse False, ng_range = None, ng_partial = None\<rparr> sampleStore"
      using get sample_negotiate
      by (simp add: downloadBookFile_def rs_ok_def) (simp add: sampleDownload_def sampleResponse_def)
    moreover let ?n = "\<lparr>ng_response = sampleResponse False, ng_range = None, ng_partial = None\<rparr> :: negotiated"
    obtain e t where r: "readBody (contentTypeOf ?n) (rs_body (ng_response ?n)) (beginTransfer ?env ?n) = (e, t)"
      by fastforce
    then have "e = None" by (auto simp: readBody_def sampleResponse_def)
    moreover have "tr_downloadedBytes t = 2"
      using readBody_fields(2) [OF r] by (simp add: sampleResponse_def storedBytes_def)
    moreover have "totalBytesOf ?n = Some 2"
      using sample_length by (simp add: totalBytesOf_def sampleResponse_def storedBytes_def)
    moreover have "\<not> de_abortedAtEnd ?env" by (simp add: sampleDownload_def)
    ultimately show ?thesis using that r by (simp add: transferBody_def finishCheck_def split: prod.splits)
  qed
  have "blob_bytes f = [1, 2]"
    by (rule download_integrity [OF h _ f]) (simp_all add: get)
  with f show ?thesis by blast
qed

text \<open>
  At most two requests. A download asks the server at most twice, and a second request is
  always for the whole file, without range and without validator.
\<close>

theorem download_requests:
  "length (dr_requests (downloadBookFile env b st)) \<le> 2 \<and>
   list_all (\<lambda>q. q = \<lparr>fr_startAt = 0, fr_ifRange = None\<rparr>) (tl (dr_requests (downloadBookFile env b st)))"
proof -
  obtain p st1 where g: "getPartialBookDownload (de_readEnv env) (de_userId env) b st = (p, st1)" by fastforce
  obtain r reqs st2 where n: "negotiate env b p st1 = (r, reqs, st2)" by (metis prod_cases3)
  have "dr_requests (transferBody env b reqs m st2) = reqs" for m
    by (simp add: transferBody_def split: prod.splits option.splits)
  then have "dr_requests (downloadBookFile env b st) \<in> {[], reqs}"
    by (simp add: downloadBookFile_def downloadFailed_def g n split: sum.splits)
  with negotiate_requests [of env b p st1] n show ?thesis by auto
qed

text \<open>
  \<^bold>\<open>C14\<close> (an interrupted download loses nothing). On a working storage, when a download fails after the
  server started to answer (a network error, an abort, a short body), the partial download read next
  holds every byte collected so far: the prefix that was continued followed by the bytes received.
\<close>

theorem interrupted_download_keeps_bytes:
  assumes "roomy (de_readEnv env)" and "healthy (de_clearEnv env)" and "roomy (de_writerEnv env)"
    and "\<And>i. roomy (fst (de_appendEnv env i))" and "roomy env'"
    and "de_userId env \<noteq> []" and "cacheName (de_userId env) = Some name" and "partialDownloadPath b = Some d"
    and "well_stored st name d"
    and "\<not> de_abortedAtStart env" and "\<not> de_abortedAfterRead env"
    and "getPartialBookDownload (de_readEnv env) (de_userId env) b st = (p, st1)"
    and "negotiate env b p st1 = (Inr n, reqs, st2)" and "rs_ok (ng_response n)"
    and "dr_outcome (downloadBookFile env b st) = Inl e"
  shows "prefixBytes (fst (getPartialBookDownload env' (de_userId env) b (dr_storage (downloadBookFile env b st))))
    = prefixBytes (ng_partial n) @ receivedBytes (rs_body (ng_response n))"
proof -
  have h: "healthy (de_readEnv env)" "healthy env'" using assms(1,5) by (auto simp: roomy_def)
  have c1: "committed st1 name d (chunks p) \<and> (\<forall>q. p = Some q \<longrightarrow> pd_downloadedBytes q = real (chunkBytes (pd_chunks q)))"
  proof (cases p)
    case None
    then show ?thesis using getPartial_none [OF h(1) assms(6-8) _ assms(9)] assms(12) by simp
  next
    case (Some q)
    then have "well_stored st1 name d"
      using assms(9,12) getPartial_storage [of "de_readEnv env" "de_userId env" b st q st1]
      by (simp add: well_stored_def)
    with Some show ?thesis using getPartial_read [OF h(1) assms(6-8)] assms(12) by auto
  qed
  have c2: "committed st2 name d (chunks (ng_partial n))" "ng_partial n = p \<or> ng_partial n = None"
    using negotiate_committed [OF assms(13,2,6-8)] c1 by auto
  have run: "downloadBookFile env b st = transferBody env b reqs n st2"
    using assms(10-14) by (simp add: downloadBookFile_def)
  have "pd_downloadedBytes q = real (chunkBytes (pd_chunks q))" if "ng_partial n = Some q" for q
    using c1 c2(2) that by auto
  from transferBody_keeps [OF assms(3,4,6,7,8) c2(1) this] assms(15) run obtain bs where
    bs: "committed (dr_storage (downloadBookFile env b st)) name d (chunks (ng_partial n) @ bs)"
      "concat (map blob_bytes bs) = receivedBytes (rs_body (ng_response n))" by auto
  have "chunks (fst (getPartialBookDownload env' (de_userId env) b (dr_storage (downloadBookFile env b st))))
      = chunks (ng_partial n) @ bs"
    using getPartial_committed [OF h(2) assms(6-8) bs(1)] by (auto split: option.splits)
  then show ?thesis using bs(2) by (simp add: prefixBytes_chunks)
qed

theorem interrupted_download_keeps_bytes_witness:
  "prefixBytes (fst (getPartialBookDownload goodEnv (js ''u'') (js ''b'')
     (dr_storage (downloadBookFile (sampleDownload True) (js ''b'') sampleStore)))) = [1]"
proof -
  let ?env = "sampleDownload True"
  let ?n = "\<lparr>ng_response = sampleResponse True, ng_range = None, ng_partial = None\<rparr> :: negotiated"
  have env: "de_userId ?env = js ''u''" "de_readEnv ?env = goodEnv" "de_clearEnv ?env = goodEnv"
    "de_writerEnv ?env = goodEnv" "fst (de_appendEnv ?env i) = goodEnv" "\<not> de_abortedAtStart ?env"
    "\<not> de_abortedAfterRead ?env" for i by (simp_all add: sampleDownload_def)
  have roomy: "roomy goodEnv" by (simp add: roomy_def) (simp add: goodEnv_def)
  have ws: "well_stored sampleStore (CACHE_PREFIX @ js ''u'') (PARTIAL_DOWNLOAD_KEY_PREFIX @ js ''b'' @ js ''/'')"
    unfolding well_stored_def sample_cache by simp
  have ok: "rs_ok (sampleResponse True)" by (simp add: rs_ok_def sampleResponse_def)
  have run: "downloadBookFile ?env (js ''b'') sampleStore = transferBody ?env (js ''b'')
      [getBookFileResponse 0 None] ?n sampleStore"
    using sample_empty sample_negotiate [of True] ok by (simp add: downloadBookFile_def env)
  have "\<exists>e. dr_outcome (transferBody ?env (js ''b'') [getBookFileResponse 0 None] ?n sampleStore) = Inl e"
    by (simp add: transferBody_def readBody_def sampleResponse_def split: prod.splits)
  then obtain e where e: "dr_outcome (downloadBookFile ?env (js ''b'') sampleStore) = Inl e" using run by auto
  have "prefixBytes (fst (getPartialBookDownload goodEnv (de_userId ?env) (js ''b'')
      (dr_storage (downloadBookFile ?env (js ''b'') sampleStore))))
    = prefixBytes (ng_partial ?n) @ receivedBytes (rs_body (ng_response ?n))"
    by (rule interrupted_download_keeps_bytes [OF _ _ _ _ _ _ _ _ ws _ _ _ sample_negotiate _ e])
      (simp_all add: env roomy sample_names sample_empty ok)
  then show ?thesis by (simp add: env prefixBytes_def sampleResponse_def)
qed

text \<open>
  \<^bold>\<open>C15\<close> (when an offline copy is opened). The offline copy is returned only if there is one, nothing was
  aborted, and either the server's metadata for the same account carries its content hash, or the metadata
  could not be fetched for a reason that is neither an answer of the API nor a cancellation and the account
  has not changed. In particular a copy whose hash differs from the server's is never opened, and an
  API error (an expired login, a deleted book) is never hidden by the copy.
\<close>

theorem offline_copy_only_when_current:
  assumes "createBookFile env = Inr (OfflineCopy c)"
  shows "fe_cached env = Inr (Some c) \<and> \<not> fe_abortedAfterCache env \<and>
    (case fe_metadata env of
       Inr bk \<Rightarrow> bk_content_hash bk = Some (oe_contentHash c) \<and> oe_contentHash c \<noteq> [] \<and>
         (fe_sameUser env \<or> fe_sameUserInCatch env)
     | Inl e \<Rightarrow> \<not> isApiError e \<and> \<not> isAbortLikeError e \<and> fe_sameUserInCatch env \<and> \<not> fe_abortedInCatch env)"
  using assms
  by (auto simp: createBookFile_def fallBack_def sameContent_def Let_def truthy_def
      split: sum.splits option.splits if_splits)

definition offlineSample :: fileEnv where
  "offlineSample = \<lparr>fe_cached = Inr (Some \<lparr>oe_file = \<lparr>blob_bytes = [1], blob_type = []\<rparr>, oe_filename = None,
       oe_contentHash = js ''h''\<rparr>), fe_abortedAfterCache = False, fe_metadata = Inl (PlainError []),
     fe_abortedAfterMetadata = False, fe_sameUser = True, fe_download = Inl NotAnError,
     fe_abortedInCatch = False, fe_sameUserInCatch = True, fe_fileOk = True\<rparr>"

theorem offline_copy_only_when_current_witness:
  "\<not> isApiError (projl (fe_metadata offlineSample)) \<and> fe_sameUserInCatch offlineSample"
proof -
  have "createBookFile offlineSample = Inr (OfflineCopy \<lparr>oe_file = \<lparr>blob_bytes = [1], blob_type = []\<rparr>,
      oe_filename = None, oe_contentHash = js ''h''\<rparr>)"
    by (simp add: createBookFile_def fallBack_def offlineSample_def isAbortLikeError_def)
  from offline_copy_only_when_current [OF this] show ?thesis by (simp add: offlineSample_def)
qed

end
