(* ===== verification/Shared_Download.thy ===== *)
theory Shared_Download
  imports Api_Types
begin

text \<open>
  \<^verbatim>\<open>frontend/src/lib/shared-book-download.ts\<close>: callers that want the same book share one transfer. The
  state has the module's map \<^verbatim>\<open>downloads\<close>, the transfers ever started (an entry is named by its index)
  and the callers. The code runs in atomic pieces: a call of \<^verbatim>\<open>shareBookDownload\<close>, the abort of a
  caller's signal, a progress report, the settling of a transfer (with its \<^verbatim>\<open>finally\<close>), and the
  callback that hands the result of a settled transfer to one caller. \<open>share_run\<close> interleaves them in
  any order; an event that cannot happen in a state leaves it unchanged.
\<close>

section \<open>State\<close>

datatype share_error = BookDownloadAborted | TransferError ustring

record 'b entry =
  en_key :: ustring
  en_aborted :: bool
  en_settled :: "(share_error + 'b) option"
  en_subscribers :: "nat list"
  en_latestProgress :: "bookDownloadProgress option"

datatype 'b caller_state = Idle | Subscribed nat | AwaitingPrevious nat | Settled "share_error + 'b"

record 'b caller =
  cl_key :: ustring
  cl_signalAborted :: bool
  cl_state :: "'b caller_state"
  cl_progress :: "bookDownloadProgress list"

record 'b shared =
  sh_downloads :: "(ustring, nat) omap"
  sh_entries :: "'b entry list"
  sh_callers :: "nat \<Rightarrow> 'b caller"

definition sh_init :: "'b shared" where
  "sh_init = \<lparr>sh_downloads = [], sh_entries = [],
     sh_callers = (\<lambda>_. \<lparr>cl_key = [], cl_signalAborted = False, cl_state = Idle, cl_progress = []\<rparr>)\<rparr>"

section \<open>Operations\<close>

definition updEntry :: "nat \<Rightarrow> ('b entry \<Rightarrow> 'b entry) \<Rightarrow> 'b shared \<Rightarrow> 'b shared" where
  "updEntry e f s = s\<lparr>sh_entries := (sh_entries s)[e := f (sh_entries s ! e)]\<rparr>"

definition updCaller :: "nat \<Rightarrow> ('b caller \<Rightarrow> 'b caller) \<Rightarrow> 'b shared \<Rightarrow> 'b shared" where
  "updCaller c f s = s\<lparr>sh_callers := (sh_callers s)(c := f (sh_callers s c))\<rparr>"

definition subscribe :: "nat \<Rightarrow> nat \<Rightarrow> 'b shared \<Rightarrow> 'b shared" where
  "subscribe c e s =
    updCaller c (\<lambda>cl. cl\<lparr>cl_state := Subscribed e, cl_progress := cl_progress cl @
        (case en_latestProgress (sh_entries s ! e) of Some p \<Rightarrow> [p] | None \<Rightarrow> [])\<rparr>)
      (updEntry e (\<lambda>en. en\<lparr>en_subscribers := en_subscribers en @ [c]\<rparr>) s)"

definition startTransfer :: "ustring \<Rightarrow> 'b shared \<Rightarrow> 'b shared" where
  "startTransfer key s = s\<lparr>
     sh_downloads := mapSet key (length (sh_entries s)) (sh_downloads s),
     sh_entries := sh_entries s @ [\<lparr>en_key = key, en_aborted = False, en_settled = None,
       en_subscribers = [], en_latestProgress = None\<rparr>]\<rparr>"

definition shareBookDownload :: "nat \<Rightarrow> ustring \<Rightarrow> 'b shared \<Rightarrow> 'b shared" where
  "shareBookDownload c key s =
    (let s0 = updCaller c (\<lambda>cl. cl\<lparr>cl_key := key\<rparr>) s in
     if cl_signalAborted (sh_callers s c)
     then updCaller c (\<lambda>cl. cl\<lparr>cl_state := Settled (Inl BookDownloadAborted)\<rparr>) s0
     else case mapGet (sh_downloads s) key of
       Some e \<Rightarrow>
         (if en_aborted (sh_entries s ! e)
          then updCaller c (\<lambda>cl. cl\<lparr>cl_state := AwaitingPrevious e\<rparr>) s0
          else subscribe c e s0)
     | None \<Rightarrow> subscribe c (length (sh_entries s)) (startTransfer key s0))"

definition detach :: "nat \<Rightarrow> nat \<Rightarrow> 'b shared \<Rightarrow> 'b shared" where
  "detach c e s = updEntry e (\<lambda>en. en\<lparr>en_subscribers := removeAll c (en_subscribers en)\<rparr>) s"

definition settleCaller :: "nat \<Rightarrow> share_error + 'b \<Rightarrow> 'b shared \<Rightarrow> 'b shared" where
  "settleCaller c r s = updCaller c (\<lambda>cl. cl\<lparr>cl_state := Settled r\<rparr>) s"

definition abortIfUnused :: "nat \<Rightarrow> 'b shared \<Rightarrow> 'b shared" where
  "abortIfUnused e s =
    (if en_subscribers (sh_entries s ! e) = [] then updEntry e (\<lambda>en. en\<lparr>en_aborted := True\<rparr>) s else s)"

definition abortCaller :: "nat \<Rightarrow> 'b shared \<Rightarrow> 'b shared" where
  "abortCaller c s =
    (let s1 = updCaller c (\<lambda>cl. cl\<lparr>cl_signalAborted := True\<rparr>) s in
     case cl_state (sh_callers s c) of
       Subscribed e \<Rightarrow> abortIfUnused e (settleCaller c (Inl BookDownloadAborted) (detach c e s1))
     | AwaitingPrevious e \<Rightarrow> settleCaller c (Inl BookDownloadAborted) s1
     | _ \<Rightarrow> s1)"

definition reportProgress :: "nat \<Rightarrow> bookDownloadProgress \<Rightarrow> 'b shared \<Rightarrow> 'b shared" where
  "reportProgress e p s =
    fold (\<lambda>c. updCaller c (\<lambda>cl. cl\<lparr>cl_progress := cl_progress cl @ [p]\<rparr>)) (en_subscribers (sh_entries s ! e))
      (updEntry e (\<lambda>en. en\<lparr>en_latestProgress := Some p\<rparr>) s)"

definition settleTransfer :: "nat \<Rightarrow> share_error + 'b \<Rightarrow> 'b shared \<Rightarrow> 'b shared" where
  "settleTransfer e r s =
    (let key = en_key (sh_entries s ! e);
         s1 = updEntry e (\<lambda>en. en\<lparr>en_settled := Some r\<rparr>) s in
     if mapGet (sh_downloads s) key = Some e then s1\<lparr>sh_downloads := mapDelete key (sh_downloads s1)\<rparr> else s1)"

definition deliver :: "nat \<Rightarrow> 'b shared \<Rightarrow> 'b shared" where
  "deliver c s =
    (case cl_state (sh_callers s c) of
       Subscribed e \<Rightarrow>
         (case en_settled (sh_entries s ! e) of
            Some r \<Rightarrow> settleCaller c r (detach c e s) | None \<Rightarrow> s)
     | AwaitingPrevious e \<Rightarrow>
         (case en_settled (sh_entries s ! e) of
            Some r \<Rightarrow> shareBookDownload c (cl_key (sh_callers s c)) s | None \<Rightarrow> s)
     | _ \<Rightarrow> s)"

datatype 'b share_event =
  Call nat ustring | Abort nat | Report nat bookDownloadProgress | Settle nat "share_error + 'b" | Deliver nat

fun share_step :: "'b share_event \<Rightarrow> 'b shared \<Rightarrow> 'b shared" where
  "share_step (Call c key) s = (if cl_state (sh_callers s c) = Idle then shareBookDownload c key s else s)"
| "share_step (Abort c) s = (if cl_signalAborted (sh_callers s c) then s else abortCaller c s)"
| "share_step (Report e p) s =
    (if e < length (sh_entries s) \<and> en_settled (sh_entries s ! e) = None then reportProgress e p s else s)"
| "share_step (Settle e r) s =
    (if e < length (sh_entries s) \<and> en_settled (sh_entries s ! e) = None then settleTransfer e r s else s)"
| "share_step (Deliver c) s = deliver c s"

definition share_run :: "'b share_event list \<Rightarrow> 'b shared" where
  "share_run evs = fold share_step evs sh_init"

section \<open>The invariant\<close>

definition running :: "'b shared \<Rightarrow> nat \<Rightarrow> bool" where
  "running s e \<longleftrightarrow> e < length (sh_entries s) \<and> en_settled (sh_entries s ! e) = None"

definition registered :: "'b shared \<Rightarrow> bool" where
  "registered s \<longleftrightarrow> (\<forall>k e. mapGet (sh_downloads s) k = Some e \<longleftrightarrow> running s e \<and> en_key (sh_entries s ! e) = k)"

definition entry_ok :: "(nat \<Rightarrow> 'b caller) \<Rightarrow> nat \<Rightarrow> 'b entry \<Rightarrow> bool" where
  "entry_ok cs e en \<longleftrightarrow>
     (\<forall>c. c \<in> set (en_subscribers en) \<longleftrightarrow> cl_state (cs c) = Subscribed e) \<and>
     (en_aborted en \<longrightarrow> en_subscribers en = []) \<and>
     (en_settled en = None \<longrightarrow> en_subscribers en = [] \<longrightarrow> en_aborted en)"

definition watched :: "'b shared \<Rightarrow> bool" where
  "watched s \<longleftrightarrow> (\<forall>e < length (sh_entries s). entry_ok (sh_callers s) e (sh_entries s ! e))"

definition caller_ok :: "'b entry list \<Rightarrow> 'b caller \<Rightarrow> bool" where
  "caller_ok es cl \<longleftrightarrow> (case cl_state cl of
      Subscribed e \<Rightarrow> e < length es \<and> \<not> cl_signalAborted cl \<and> en_key (es ! e) = cl_key cl
    | AwaitingPrevious e \<Rightarrow> e < length es \<and> \<not> cl_signalAborted cl \<and>
        en_key (es ! e) = cl_key cl \<and> en_aborted (es ! e)
    | _ \<Rightarrow> True)"

definition callers_ok :: "'b shared \<Rightarrow> bool" where
  "callers_ok s \<longleftrightarrow> (\<forall>c. caller_ok (sh_entries s) (sh_callers s c))"

definition share_inv :: "'b shared \<Rightarrow> bool" where
  "share_inv s \<longleftrightarrow> registered s \<and> watched s \<and> callers_ok s"

lemma upd_fields [simp]:
  "sh_downloads (updEntry e f s) = sh_downloads s"
  "sh_callers (updEntry e f s) = sh_callers s"
  "sh_entries (updEntry e f s) = (sh_entries s)[e := f (sh_entries s ! e)]"
  "sh_downloads (updCaller c g s) = sh_downloads s"
  "sh_entries (updCaller c g s) = sh_entries s"
  "sh_callers (updCaller c g s) = (sh_callers s)(c := g (sh_callers s c))"
  by (simp_all add: updEntry_def updCaller_def)

lemma upd_nth: "(xs[e := x]) ! i = (if i = e \<and> e < length xs then x else xs ! i)"
  by (cases "e < length xs") (auto simp: nth_list_update list_update_beyond)

text \<open>Registration only depends on keys, settlement and the map.\<close>

lemma registered_upd:
  assumes "sh_downloads s' = sh_downloads s" and "length (sh_entries s') = length (sh_entries s)"
    and "\<And>i. i < length (sh_entries s) \<Longrightarrow> en_key (sh_entries s' ! i) = en_key (sh_entries s ! i) \<and>
      en_settled (sh_entries s' ! i) = en_settled (sh_entries s ! i)"
  shows "registered s' = registered s"
  using assms by (auto simp: registered_def running_def)

lemmas share_defs = subscribe_def detach_def settleCaller_def abortIfUnused_def

lemma sh_init_inv: "share_inv sh_init"
  by (simp add: share_inv_def sh_init_def registered_def running_def watched_def callers_ok_def caller_ok_def)

lemma caller_ok_mono:
  assumes "caller_ok es cl" and "length es \<le> length es'"
    and "\<And>i. i < length es \<Longrightarrow> en_key (es' ! i) = en_key (es ! i) \<and> (en_aborted (es ! i) \<longrightarrow> en_aborted (es' ! i))"
  shows "caller_ok es' cl"
  using assms by (auto simp: caller_ok_def split: caller_state.splits)

lemma caller_ok_cong:
  assumes "cl_state cl = cl_state cl'" "cl_key cl = cl_key cl'" "cl_signalAborted cl = cl_signalAborted cl'"
  shows "caller_ok es cl = caller_ok es cl'"
  using assms by (cases "cl_state cl'") (simp_all add: caller_ok_def)

lemma caller_ok_subscribed:
  "caller_ok es cl \<Longrightarrow> cl_state cl = Subscribed e \<Longrightarrow>
    e < length es \<and> \<not> cl_signalAborted cl \<and> en_key (es ! e) = cl_key cl"
  by (simp add: caller_ok_def)

text \<open>An entry that is not changed stays well-formed when no caller enters or leaves it.\<close>

lemma entry_ok_frame:
  assumes "entry_ok cs e en"
    and "\<And>c. cl_state (cs' c) = Subscribed e \<longleftrightarrow> cl_state (cs c) = Subscribed e"
  shows "entry_ok cs' e en"
  using assms by (simp add: entry_ok_def)

lemma subscribe_inv:
  assumes "registered s" and "callers_ok s" and e: "e < length (sh_entries s)"
    and na: "\<not> en_aborted (sh_entries s ! e)" and "\<not> cl_signalAborted (sh_callers s c)"
    and "en_key (sh_entries s ! e) = cl_key (sh_callers s c)"
    and ns: "\<And>i. cl_state (sh_callers s c) \<noteq> Subscribed i"
    and other: "\<And>i. i < length (sh_entries s) \<Longrightarrow> i \<noteq> e \<Longrightarrow> entry_ok (sh_callers s) i (sh_entries s ! i)"
    and subs: "\<And>x. x \<in> set (en_subscribers (sh_entries s ! e)) \<longleftrightarrow> cl_state (sh_callers s x) = Subscribed e"
  shows "share_inv (subscribe c e s)"
  unfolding share_inv_def
proof (intro conjI)
  show "registered (subscribe c e s)"
    using assms(1) by (subst registered_upd [of _ s]) (auto simp: subscribe_def upd_nth)
  have "entry_ok (sh_callers (subscribe c e s)) i (sh_entries (subscribe c e s) ! i)"
    if "i < length (sh_entries s)" for i
  proof (cases "i = e")
    case True
    then show ?thesis using e na ns subs by (simp add: subscribe_def entry_ok_def)
  next
    case False
    then show ?thesis
      using other [OF that False] ns [of i]
      by (simp add: subscribe_def) (rule entry_ok_frame [of "sh_callers s"], auto)
  qed
  then show "watched (subscribe c e s)" by (simp add: watched_def subscribe_def)
  have "caller_ok (sh_entries (subscribe c e s)) (sh_callers s x)" for x
    by (rule caller_ok_mono [of "sh_entries s"]) (use assms(2) in \<open>auto simp: callers_ok_def subscribe_def upd_nth\<close>)
  then show "callers_ok (subscribe c e s)"
    using assms(2-6) by (simp add: callers_ok_def subscribe_def) (simp add: caller_ok_def)
qed

text \<open>The state right after a caller has recorded its key.\<close>

lemma upd_caller_inv:
  assumes "share_inv s" and "\<And>e. cl_state (f (sh_callers s c)) = Subscribed e \<longleftrightarrow> cl_state (sh_callers s c) = Subscribed e"
    and "caller_ok (sh_entries s) (f (sh_callers s c))"
  shows "share_inv (updCaller c f s)"
proof -
  have "registered (updCaller c f s)"
    using assms(1) registered_upd [of "updCaller c f s" s] by (simp add: share_inv_def)
  moreover have "watched (updCaller c f s)"
    unfolding watched_def
  proof (intro allI impI)
    fix e assume "e < length (sh_entries (updCaller c f s))"
    then have "entry_ok (sh_callers s) e (sh_entries (updCaller c f s) ! e)"
      using assms(1) by (simp add: share_inv_def watched_def)
    then show "entry_ok (sh_callers (updCaller c f s)) e (sh_entries (updCaller c f s) ! e)"
      by (rule entry_ok_frame) (use assms(2) [of e] in auto)
  qed
  moreover have "callers_ok (updCaller c f s)"
    using assms(1,3) by (simp add: share_inv_def callers_ok_def)
  ultimately show ?thesis by (simp add: share_inv_def)
qed

lemma key_inv:
  assumes "share_inv s" and "cl_state (sh_callers s c) = Idle \<or> key = cl_key (sh_callers s c)"
  shows "share_inv (updCaller c (\<lambda>cl. cl\<lparr>cl_key := key\<rparr>) s)"
proof (rule upd_caller_inv [OF assms(1)])
  have "caller_ok (sh_entries s) (sh_callers s c)" using assms(1) by (simp add: share_inv_def callers_ok_def)
  then show "caller_ok (sh_entries s) ((sh_callers s c)\<lparr>cl_key := key\<rparr>)"
    using assms(2) by (cases "cl_state (sh_callers s c)") (auto simp: caller_ok_def)
qed simp

lemma settle_caller_inv:
  assumes "share_inv s" and "\<And>e. cl_state (sh_callers s c) \<noteq> Subscribed e" and "\<And>e. st \<noteq> Subscribed e"
    and "\<And>e. st = AwaitingPrevious e \<Longrightarrow> e < length (sh_entries s) \<and> \<not> cl_signalAborted (sh_callers s c) \<and>
      en_key (sh_entries s ! e) = cl_key (sh_callers s c) \<and> en_aborted (sh_entries s ! e)"
  shows "share_inv (updCaller c (\<lambda>cl. cl\<lparr>cl_state := st\<rparr>) s)"
proof (rule upd_caller_inv [OF assms(1)])
  show "caller_ok (sh_entries s) ((sh_callers s c)\<lparr>cl_state := st\<rparr>)"
    using assms(3,4) by (cases st) (simp_all add: caller_ok_def, blast)
qed (use assms(2,3) in simp)

lemma subscribed_range: "callers_ok s \<Longrightarrow> cl_state (sh_callers s c) = Subscribed e \<Longrightarrow> e < length (sh_entries s)"
  unfolding callers_ok_def caller_ok_def by (drule spec [of _ c]) simp

lemma start_subscribe_inv:
  assumes "share_inv s" and "mapGet (sh_downloads s) (cl_key (sh_callers s c)) = None"
    and "\<not> cl_signalAborted (sh_callers s c)" and "\<And>i. cl_state (sh_callers s c) \<noteq> Subscribed i"
  shows "share_inv (subscribe c (length (sh_entries s)) (startTransfer (cl_key (sh_callers s c)) s))"
proof -
  let ?k = "cl_key (sh_callers s c)" and ?n = "length (sh_entries s)"
  let ?s = "startTransfer ?k s"
  have reg: "registered s" and cok: "callers_ok s" and w: "watched s" using assms(1) by (auto simp: share_inv_def)
  have new: "\<not> (running s e \<and> en_key (sh_entries s ! e) = ?k)" for e
    using reg assms(2) unfolding registered_def by (metis option.distinct(1))
  have "registered ?s"
    using reg new by (auto simp: registered_def startTransfer_def running_def nth_append less_Suc_eq)
  moreover have "caller_ok (sh_entries ?s) (sh_callers s x)" for x
    by (rule caller_ok_mono [of "sh_entries s"])
      (use cok in \<open>auto simp: callers_ok_def startTransfer_def nth_append\<close>)
  then have "callers_ok ?s" by (simp add: callers_ok_def startTransfer_def)
  moreover have "cl_state (sh_callers s c') \<noteq> Subscribed ?n" for c'
    using subscribed_range [OF cok] by blast
  ultimately show ?thesis
    using assms(3,4) w
    by (intro subscribe_inv) (auto simp: startTransfer_def nth_append watched_def less_Suc_eq)
qed

lemma share_call_inv:
  assumes "share_inv s" and "\<And>i. cl_state (sh_callers s c) \<noteq> Subscribed i"
    and "cl_state (sh_callers s c) = Idle \<or> key = cl_key (sh_callers s c)"
  shows "share_inv (shareBookDownload c key s)"
proof -
  let ?s = "updCaller c (\<lambda>cl. cl\<lparr>cl_key := key\<rparr>) s"
  have inv: "share_inv ?s" using assms(1,3) by (rule key_inv)
  show ?thesis
  proof (cases "cl_signalAborted (sh_callers s c)")
    case True
    then show ?thesis using settle_caller_inv [OF inv, of c "Settled (Inl BookDownloadAborted)"] assms(2)
      by (simp add: shareBookDownload_def)
  next
    case na: False
    show ?thesis
    proof (cases "mapGet (sh_downloads s) key")
      case None
      then show ?thesis
        using start_subscribe_inv [OF inv, of c] na assms(2) by (simp add: shareBookDownload_def Let_def)
    next
      case (Some e)
      then have e: "e < length (sh_entries s)" "en_key (sh_entries s ! e) = key"
        using assms(1) by (auto simp: share_inv_def registered_def running_def)
      show ?thesis
      proof (cases "en_aborted (sh_entries s ! e)")
        case True
        then show ?thesis
          using settle_caller_inv [OF inv, of c "AwaitingPrevious e"] Some na e assms(2)
          by (simp add: shareBookDownload_def Let_def)
      next
        case False
        moreover have "entry_ok (sh_callers ?s) i (sh_entries ?s ! i)" if "i < length (sh_entries s)" for i
          using inv that by (simp add: share_inv_def watched_def)
        ultimately have "share_inv (subscribe c e ?s)"
          using inv e na assms(2) by (intro subscribe_inv) (auto simp: share_inv_def entry_ok_def)
        with False Some na show ?thesis by (simp add: shareBookDownload_def Let_def)
      qed
    qed
  qed
qed

text \<open>A caller that leaves an entry: everything is kept except that the entry may be left unwatched.\<close>

lemma detach_settle_inv:
  assumes "share_inv s" and sub: "cl_state (sh_callers s c) = Subscribed e"
  shows "registered (settleCaller c r (detach c e s))"
    and "callers_ok (settleCaller c r (detach c e s))"
    and "watched (abortIfUnused e (settleCaller c r (detach c e s)))"
    and "en_settled (sh_entries s ! e) \<noteq> None \<Longrightarrow> watched (settleCaller c r (detach c e s))"
proof -
  have w: "watched s" and cok: "callers_ok s" and reg: "registered s" using assms by (auto simp: share_inv_def)
  have e: "e < length (sh_entries s)" using subscribed_range [OF cok sub] .
  let ?s = "settleCaller c r (detach c e s)"
  show "registered ?s"
    using reg by (subst registered_upd [of _ s]) (auto simp: share_defs upd_nth)
  have "caller_ok (sh_entries ?s) (sh_callers s x)" for x
    by (rule caller_ok_mono [of "sh_entries s"]) (use cok in \<open>auto simp: callers_ok_def share_defs upd_nth\<close>)
  then show "callers_ok ?s" by (simp add: callers_ok_def share_defs) (simp add: caller_ok_def)
  have other: "entry_ok (sh_callers ?s) i (sh_entries s ! i)" if "i < length (sh_entries s)" "i \<noteq> e" for i
    by (rule entry_ok_frame [of "sh_callers s"]) (use w sub that in \<open>auto simp: watched_def share_defs\<close>)
  have ok: "entry_ok (sh_callers s) e (sh_entries s ! e)" using w e by (simp add: watched_def)
  let ?en = "(sh_entries s ! e)\<lparr>en_subscribers := removeAll c (en_subscribers (sh_entries s ! e))\<rparr>"
  have gone: "x \<in> set (en_subscribers ?en) \<longleftrightarrow> cl_state (sh_callers ?s x) = Subscribed e" for x
    using ok by (simp add: entry_ok_def share_defs)
  have entries: "sh_entries ?s ! i = (if i = e then ?en else sh_entries s ! i)" for i
    using e by (simp add: share_defs upd_nth)
  have len: "length (sh_entries ?s) = length (sh_entries s)" by (simp add: share_defs)
  show "watched ?s" if "en_settled (sh_entries s ! e) \<noteq> None"
    unfolding watched_def len
  proof (intro allI impI)
    fix i assume "i < length (sh_entries s)"
    moreover have "entry_ok (sh_callers ?s) e ?en"
      unfolding entry_ok_def using gone ok that by (auto simp: entry_ok_def)
    ultimately show "entry_ok (sh_callers ?s) i (sh_entries ?s ! i)" using other entries by simp
  qed
  let ?en' = "?en\<lparr>en_aborted := en_aborted ?en \<or> en_subscribers ?en = []\<rparr>"
  have "entry_ok (sh_callers ?s) e ?en'"
    unfolding entry_ok_def using gone ok by (auto simp: entry_ok_def)
  moreover have "sh_entries (abortIfUnused e ?s) ! i = (if i = e then ?en' else sh_entries s ! i)" for i
    using e len by (auto simp: abortIfUnused_def upd_nth entries)
  moreover have "length (sh_entries (abortIfUnused e ?s)) = length (sh_entries s)"
    "sh_callers (abortIfUnused e ?s) = sh_callers ?s" using len by (simp_all add: abortIfUnused_def)
  ultimately show "watched (abortIfUnused e ?s)"
    unfolding watched_def using other by auto
qed

lemma abort_unused_other:
  "registered s \<Longrightarrow> registered (abortIfUnused e s)" "callers_ok s \<Longrightarrow> callers_ok (abortIfUnused e s)"
proof -
  show "registered s \<Longrightarrow> registered (abortIfUnused e s)"
    by (subst registered_upd [of _ s]) (auto simp: abortIfUnused_def upd_nth)
  show "callers_ok s \<Longrightarrow> callers_ok (abortIfUnused e s)"
    unfolding callers_ok_def
  proof
    fix x assume "\<forall>c. caller_ok (sh_entries s) (sh_callers s c)"
    then have "caller_ok (sh_entries s) (sh_callers (abortIfUnused e s) x)" by (simp add: abortIfUnused_def)
    then show "caller_ok (sh_entries (abortIfUnused e s)) (sh_callers (abortIfUnused e s) x)"
      by (rule caller_ok_mono) (auto simp: abortIfUnused_def upd_nth)
  qed
qed

text \<open>Recording the abort of a signal, once the caller no longer waits.\<close>

lemma signal_inv:
  assumes "share_inv s" and "\<And>e. cl_state (sh_callers s c) \<noteq> Subscribed e"
    and "\<And>e. cl_state (sh_callers s c) \<noteq> AwaitingPrevious e"
  shows "share_inv (updCaller c (\<lambda>cl. cl\<lparr>cl_signalAborted := True\<rparr>) s)"
proof (rule upd_caller_inv [OF assms(1)])
  show "caller_ok (sh_entries s) ((sh_callers s c)\<lparr>cl_signalAborted := True\<rparr>)"
    using assms(2,3) by (cases "cl_state (sh_callers s c)") (simp_all add: caller_ok_def, blast+)
qed simp

lemma caller_commute:
  "cl\<lparr>cl_signalAborted := a, cl_state := x\<rparr> = cl\<lparr>cl_state := x, cl_signalAborted := a\<rparr>"
  by (cases cl) simp

lemma signal_commute:
  "settleCaller c r (detach c e (updCaller c (\<lambda>cl. cl\<lparr>cl_signalAborted := True\<rparr>) s)) =
    updCaller c (\<lambda>cl. cl\<lparr>cl_signalAborted := True\<rparr>) (settleCaller c r (detach c e s))"
  "settleCaller c r (updCaller c (\<lambda>cl. cl\<lparr>cl_signalAborted := True\<rparr>) s) =
    updCaller c (\<lambda>cl. cl\<lparr>cl_signalAborted := True\<rparr>) (settleCaller c r s)"
  "abortIfUnused e (updCaller c (\<lambda>cl. cl\<lparr>cl_signalAborted := True\<rparr>) s) =
    updCaller c (\<lambda>cl. cl\<lparr>cl_signalAborted := True\<rparr>) (abortIfUnused e s)"
  by (simp_all add: share_defs updCaller_def updEntry_def caller_commute)

lemma abort_inv:
  assumes "share_inv s"
  shows "share_inv (abortCaller c s)"
proof (cases "cl_state (sh_callers s c)")
  case (Subscribed e)
  let ?s = "abortIfUnused e (settleCaller c (Inl BookDownloadAborted) (detach c e s))"
  have "share_inv ?s"
    using detach_settle_inv [OF assms Subscribed] by (simp add: share_inv_def abort_unused_other)
  moreover have "sh_callers ?s c = (sh_callers s c)\<lparr>cl_state := Settled (Inl BookDownloadAborted)\<rparr>"
    by (simp add: share_defs)
  ultimately show ?thesis
    using signal_inv [of ?s c] Subscribed by (simp add: abortCaller_def signal_commute)
next
  case (AwaitingPrevious e)
  let ?s = "settleCaller c (Inl BookDownloadAborted) s"
  have "share_inv ?s"
    using settle_caller_inv [OF assms, of c "Settled (Inl BookDownloadAborted)"] AwaitingPrevious
    by (simp add: settleCaller_def)
  then show ?thesis
    using signal_inv [of ?s c] AwaitingPrevious
    by (simp add: abortCaller_def signal_commute) (simp add: settleCaller_def)
qed (use signal_inv [OF assms, of c] in \<open>simp_all add: abortCaller_def\<close>)

lemma reportProgress_fields:
  "sh_downloads (fold (\<lambda>c. updCaller c (\<lambda>cl. cl\<lparr>cl_progress := cl_progress cl @ [p]\<rparr>)) cs s) = sh_downloads s"
  "sh_entries (fold (\<lambda>c. updCaller c (\<lambda>cl. cl\<lparr>cl_progress := cl_progress cl @ [p]\<rparr>)) cs s) = sh_entries s"
  "cl_state (sh_callers (fold (\<lambda>c. updCaller c (\<lambda>cl. cl\<lparr>cl_progress := cl_progress cl @ [p]\<rparr>)) cs s) x)
    = cl_state (sh_callers s x)"
  "cl_key (sh_callers (fold (\<lambda>c. updCaller c (\<lambda>cl. cl\<lparr>cl_progress := cl_progress cl @ [p]\<rparr>)) cs s) x)
    = cl_key (sh_callers s x)"
  "cl_signalAborted (sh_callers (fold (\<lambda>c. updCaller c (\<lambda>cl. cl\<lparr>cl_progress := cl_progress cl @ [p]\<rparr>)) cs s) x)
    = cl_signalAborted (sh_callers s x)"
  by (induction cs arbitrary: s) simp_all

lemma report_inv:
  assumes "share_inv s"
  shows "share_inv (reportProgress e p s)"
proof -
  let ?s = "reportProgress e p s"
  have "registered ?s"
    using assms by (subst registered_upd [of _ s]) (auto simp: share_inv_def reportProgress_def reportProgress_fields upd_nth)
  moreover have "watched ?s"
    unfolding watched_def
  proof (intro allI impI)
    fix i assume "i < length (sh_entries ?s)"
    then have "entry_ok (sh_callers s) i (sh_entries s ! i)"
      using assms by (simp add: share_inv_def watched_def reportProgress_def reportProgress_fields)
    then show "entry_ok (sh_callers ?s) i (sh_entries ?s ! i)"
      unfolding entry_ok_def by (cases "i = e") (simp_all add: reportProgress_def reportProgress_fields upd_nth)
  qed
  moreover have "caller_ok (sh_entries ?s) (sh_callers ?s x)" for x
  proof -
    have "caller_ok (sh_entries s) (sh_callers s x)" using assms by (simp add: share_inv_def callers_ok_def)
    then have "caller_ok (sh_entries ?s) (sh_callers s x)"
      by (rule caller_ok_mono) (auto simp: reportProgress_def reportProgress_fields upd_nth)
    then show ?thesis by (subst caller_ok_cong [of _ "sh_callers s x"]) (auto simp: reportProgress_def reportProgress_fields)
  qed
  then have "callers_ok ?s" by (simp add: callers_ok_def)
  ultimately show ?thesis by (simp add: share_inv_def)
qed

lemma settle_inv:
  assumes "share_inv s" and run: "running s e"
  shows "share_inv (settleTransfer e r s)"
proof -
  let ?s = "settleTransfer e r s"
  have reg: "registered s" using assms by (simp add: share_inv_def)
  have get: "mapGet (sh_downloads s) (en_key (sh_entries s ! e)) = Some e"
    using reg run by (simp add: registered_def)
  have e: "e < length (sh_entries s)" using run by (simp add: running_def)
  have only: "i = e" if "running s i" "en_key (sh_entries s ! i) = en_key (sh_entries s ! e)" for i
    using reg that get unfolding registered_def by (metis option.inject)
  have fields: "sh_downloads ?s = mapDelete (en_key (sh_entries s ! e)) (sh_downloads s)"
    "sh_callers ?s = sh_callers s"
    "sh_entries ?s = (sh_entries s)[e := (sh_entries s ! e)\<lparr>en_settled := Some r\<rparr>]"
    using get by (simp_all add: settleTransfer_def Let_def)
  have "running ?s i \<longleftrightarrow> running s i \<and> i \<noteq> e" for i using e by (auto simp: running_def fields upd_nth)
  moreover have "en_key (sh_entries ?s ! i) = en_key (sh_entries s ! i)" for i by (simp add: fields upd_nth)
  ultimately have "registered ?s" using reg only by (auto simp: registered_def fields)
  moreover have "watched ?s"
    unfolding watched_def
  proof (intro allI impI)
    fix i assume "i < length (sh_entries ?s)"
    then have "entry_ok (sh_callers s) i (sh_entries s ! i)"
      using assms(1) by (simp add: share_inv_def watched_def fields)
    then show "entry_ok (sh_callers ?s) i (sh_entries ?s ! i)"
      unfolding entry_ok_def by (cases "i = e") (simp_all add: fields upd_nth)
  qed
  moreover have "callers_ok ?s"
    unfolding callers_ok_def
  proof
    fix x
    have "caller_ok (sh_entries s) (sh_callers ?s x)"
      using assms(1) by (simp add: share_inv_def callers_ok_def fields)
    then show "caller_ok (sh_entries ?s) (sh_callers ?s x)"
      by (rule caller_ok_mono) (auto simp: fields upd_nth)
  qed
  ultimately show ?thesis by (simp add: share_inv_def)
qed

lemma deliver_inv:
  assumes "share_inv s"
  shows "share_inv (deliver c s)"
proof (cases "cl_state (sh_callers s c)")
  case (Subscribed e)
  then show ?thesis
    using detach_settle_inv [OF assms Subscribed] assms by (auto simp: deliver_def share_inv_def split: option.splits)
next
  case (AwaitingPrevious e)
  then show ?thesis
    using share_call_inv [OF assms, of c] assms by (auto simp: deliver_def split: option.splits)
qed (use assms in \<open>simp_all add: deliver_def\<close>)

lemma share_step_inv: "share_inv s \<Longrightarrow> share_inv (share_step ev s)"
  by (cases ev) (auto simp: share_call_inv abort_inv report_inv settle_inv deliver_inv running_def)

lemma share_run_inv: "share_inv (share_run evs)"
proof -
  have "share_inv s \<Longrightarrow> share_inv (fold share_step evs s)" for s :: "'a shared"
    by (induction evs arbitrary: s) (simp_all add: share_step_inv)
  then show ?thesis by (simp add: share_run_def sh_init_inv)
qed

lemma distinct_map_filter:
  assumes "\<And>i j. i < length xs \<Longrightarrow> j < length xs \<Longrightarrow> P (xs ! i) \<Longrightarrow> P (xs ! j) \<Longrightarrow> f (xs ! i) = f (xs ! j) \<Longrightarrow> i = j"
  shows "distinct (map f (filter P xs))"
  using assms
proof (induction xs)
  case (Cons x xs)
  have "distinct (map f (filter P xs))"
    using Cons.prems [of "Suc _" "Suc _"] by (intro Cons.IH) auto
  moreover have "f x \<notin> f ` set (filter P xs)" if "P x"
  proof
    assume "f x \<in> f ` set (filter P xs)"
    then obtain j where "j < length xs" "P (xs ! j)" "f x = f (xs ! j)" by (auto simp: in_set_conv_nth)
    with Cons.prems [of 0 "Suc j"] that show False by simp
  qed
  ultimately show ?case by auto
qed simp

lemma unique_lookup: "m k = Some i \<Longrightarrow> m k = Some j \<Longrightarrow> i = j"
  by simp

lemma run_watched:
  "e < length (sh_entries (share_run evs)) \<Longrightarrow>
    entry_ok (sh_callers (share_run evs)) e (sh_entries (share_run evs) ! e)"
  using share_run_inv [of evs] by (simp add: share_inv_def watched_def)

lemma run_registered:
  "running (share_run evs) e \<Longrightarrow>
    mapGet (sh_downloads (share_run evs)) (en_key (sh_entries (share_run evs) ! e)) = Some e"
  using share_run_inv [of evs] by (simp add: share_inv_def registered_def)

section \<open>Properties\<close>

text \<open>
  \<^bold>\<open>C11\<close> (one transfer per book). However calls, aborts, progress reports, completions and deliveries
  interleave, two transfers for the same key never run at the same time, so a partial download has one
  writer at a time.
\<close>

theorem single_flight:
  "distinct (map en_key (filter (\<lambda>en. en_settled en = None) (sh_entries (share_run evs))))"
proof (rule distinct_map_filter)
  let ?s = "share_run evs"
  fix i j
  assume "i < length (sh_entries ?s)" "j < length (sh_entries ?s)" "en_settled (sh_entries ?s ! i) = None"
    "en_settled (sh_entries ?s ! j) = None" and key: "en_key (sh_entries ?s ! i) = en_key (sh_entries ?s ! j)"
  then have "running ?s i" "running ?s j" unfolding running_def by blast+
  from run_registered [OF this(1)] run_registered [OF this(2)] show "i = j"
    unfolding key by (rule unique_lookup)
qed

text \<open>
  \<^bold>\<open>C12\<close> (a transfer is aborted exactly when nobody waits for it). In every reachable state a running
  transfer has been aborted if and only if it has no subscriber left; the subscribers are exactly the
  callers that wait for it, and none of those has aborted its own signal. So one reader's cancellation
  never stops a download another reader still wants, and a download nobody wants does not go on.
\<close>

theorem aborted_iff_unwatched:
  assumes "running (share_run evs) e"
  shows "(en_aborted (sh_entries (share_run evs) ! e) \<longleftrightarrow>
      (\<nexists>c. cl_state (sh_callers (share_run evs) c) = Subscribed e)) \<and>
    (\<forall>c. cl_state (sh_callers (share_run evs) c) = Subscribed e \<longrightarrow>
      \<not> cl_signalAborted (sh_callers (share_run evs) c) \<and>
      en_key (sh_entries (share_run evs) ! e) = cl_key (sh_callers (share_run evs) c))"
proof
  let ?s = "share_run evs"
  have e: "e < length (sh_entries ?s)" "en_settled (sh_entries ?s ! e) = None"
    using assms by (auto simp: running_def)
  have "en_aborted (sh_entries ?s ! e) \<longleftrightarrow> en_subscribers (sh_entries ?s ! e) = []"
    using run_watched [OF e(1)] e(2) by (auto simp: entry_ok_def)
  also have "\<dots> \<longleftrightarrow> (\<nexists>c. cl_state (sh_callers ?s c) = Subscribed e)"
    using run_watched [OF e(1)] by (auto simp: entry_ok_def)
  finally show "en_aborted (sh_entries ?s ! e) \<longleftrightarrow> (\<nexists>c. cl_state (sh_callers ?s c) = Subscribed e)" .
  have "caller_ok (sh_entries ?s) (sh_callers ?s c)" for c
    using share_run_inv [of evs] by (simp add: share_inv_def callers_ok_def)
  then show "\<forall>c. cl_state (sh_callers ?s c) = Subscribed e \<longrightarrow> \<not> cl_signalAborted (sh_callers ?s c) \<and>
      en_key (sh_entries ?s ! e) = cl_key (sh_callers ?s c)"
    using caller_ok_subscribed by blast
qed

theorem aborted_iff_unwatched_witness:
  "en_aborted (sh_entries (share_run [Call 0 [], Call 1 [], Abort 0] :: nat shared) ! 0) = False"
proof -
  let ?s = "share_run [Call 0 [], Call 1 [], Abort 0] :: nat shared"
  have "running ?s 0" "cl_state (sh_callers ?s 1) = Subscribed 0" by code_simp+
  with aborted_iff_unwatched [of "[Call 0 [], Call 1 [], Abort 0] :: nat share_event list" 0] show ?thesis by blast
qed

end
