(* ===== verification/Tts_Timing.thy ===== *)
theory Tts_Timing
  imports Tts_Request
begin

text \<open>
  The arithmetic of \<^verbatim>\<open>BackendTTS\<close> in \<^verbatim>\<open>frontend/src/lib/tts.ts\<close>: the boundaries of the highlight marks
  within a piece of audio and the search for the current one, the window of synthesis latencies and the
  thresholds for prefetching that follow from it, and the cool-down a provider asks for.
\<close>

section \<open>Marks\<close>

record ttsMark =
  mk_name :: ustring
  mk_text :: ustring
  mk_weight :: "real option"

definition markWeight :: "ttsMark \<Rightarrow> real" where
  "markWeight m = max 0.001 (case mk_weight m of Some w \<Rightarrow> w | None \<Rightarrow> real (length (mk_text m)))"

definition totalWeight :: "ttsMark list \<Rightarrow> real" where
  "totalWeight ms = foldl (\<lambda>s m. s + markWeight m) 0 ms"

fun boundariesFrom :: "real \<Rightarrow> real \<Rightarrow> ttsMark list \<Rightarrow> real list" where
  "boundariesFrom tot cumulative [] = []"
| "boundariesFrom tot cumulative (m # ms) =
    (cumulative + markWeight m) / tot # boundariesFrom tot (cumulative + markWeight m) ms"

definition markBoundaries :: "ttsMark list \<Rightarrow> real list" where
  "markBoundaries ms = boundariesFrom (totalWeight ms) 0 ms"

definition playbackProgress :: "real \<Rightarrow> jsnum \<Rightarrow> real" where
  "playbackProgress currentTime duration =
    (case duration of Fin d \<Rightarrow> if 0 < d then min (currentTime / d) 1 else 0 | _ \<Rightarrow> 0)"

function searchMark :: "real list \<Rightarrow> real \<Rightarrow> nat \<Rightarrow> nat \<Rightarrow> nat" where
  "searchMark bs progress low high =
    (if low < high then
       let middle = (low + high) div 2 in
       if progress < bs ! middle then searchMark bs progress low middle
       else searchMark bs progress (middle + 1) high
     else low)"
  by pat_completeness auto
termination
  by (relation "measure (\<lambda>(bs, p, low, high). high - low)") auto

declare searchMark.simps [simp del]

text \<open>\<^verbatim>\<open>updateCurrentMark\<close>: the new index, and whether \<^verbatim>\<open>onMarkChange\<close> is called.\<close>

definition updateCurrentMark :: "ttsMark list \<Rightarrow> real list \<Rightarrow> real \<Rightarrow> jsnum \<Rightarrow> int \<Rightarrow> int \<times> (ttsMark \<times> nat) option" where
  "updateCurrentMark ms bs currentTime duration currentIndex =
    (if ms = [] then (currentIndex, None)
     else
      let index = searchMark bs (playbackProgress currentTime duration) 0 (length ms - 1) in
      if currentIndex \<noteq> int index then (int index, Some (ms ! index, index)) else (currentIndex, None))"

section \<open>Latency window and prefetch thresholds\<close>

definition maxSynthesisLatencySamples :: nat where
  "maxSynthesisLatencySamples = 8"

definition recordSynthesisLatency :: "jsnum \<Rightarrow> real list \<Rightarrow> real list" where
  "recordSynthesisLatency latency samples =
    (case latency of
       Fin l \<Rightarrow>
        (if l \<le> 0 then samples
         else if maxSynthesisLatencySamples < length (samples @ [l]) then tl (samples @ [l]) else samples @ [l])
     | _ \<Rightarrow> samples)"

definition getAverageSynthesisLatency :: "real list \<Rightarrow> real" where
  "getAverageSynthesisLatency samples =
    (if samples = [] then 0 else foldl (+) 0 samples / real (length samples))"

datatype preload_reason = DefaultReason | SlowSynthesis | ModerateSynthesis | FastSynthesis | PreloadMisses | ShortAudio

record adaptiveConfig =
  ac_progressThreshold :: real
  ac_remainingSeconds :: real
  ac_reason :: preload_reason

definition latencyConfig :: "real \<Rightarrow> nat \<Rightarrow> adaptiveConfig" where
  "latencyConfig averageLatency misses =
    (if 5000 < averageLatency
     then \<lparr>ac_progressThreshold = 0.12, ac_remainingSeconds = 20, ac_reason = SlowSynthesis\<rparr>
     else if 2500 < averageLatency
     then \<lparr>ac_progressThreshold = 0.2, ac_remainingSeconds = 15, ac_reason = ModerateSynthesis\<rparr>
     else if 0 < averageLatency \<and> averageLatency < 1000 \<and> misses = 0
     then \<lparr>ac_progressThreshold = 0.42, ac_remainingSeconds = 8, ac_reason = FastSynthesis\<rparr>
     else \<lparr>ac_progressThreshold = 0.28, ac_remainingSeconds = 12, ac_reason = DefaultReason\<rparr>)"

definition missConfig :: "nat \<Rightarrow> adaptiveConfig \<Rightarrow> adaptiveConfig" where
  "missConfig misses c =
    (if 2 \<le> misses
     then \<lparr>ac_progressThreshold = min (ac_progressThreshold c) 0.16,
       ac_remainingSeconds = max (ac_remainingSeconds c) 18, ac_reason = PreloadMisses\<rparr>
     else c)"

definition getAdaptivePreloadConfig :: "real list \<Rightarrow> nat \<Rightarrow> real \<Rightarrow> adaptiveConfig" where
  "getAdaptivePreloadConfig samples misses duration =
    (let c = missConfig misses (latencyConfig (getAverageSynthesisLatency samples) misses) in
     if 0 < duration \<and> duration \<le> 18
     then \<lparr>ac_progressThreshold = 0.05, ac_remainingSeconds = max 1 (duration - 1), ac_reason = ShortAudio\<rparr>
     else c)"

definition shouldTriggerPreload :: "bool \<Rightarrow> adaptiveConfig \<Rightarrow> real \<Rightarrow> real \<Rightarrow> bool" where
  "shouldTriggerPreload triggered c currentTime duration \<longleftrightarrow>
    \<not> triggered \<and> 0 < duration \<and>
    (duration * ac_progressThreshold c \<le> currentTime \<or> duration - currentTime \<le> ac_remainingSeconds c)"

section \<open>Cool-down of the provider\<close>

record cooldown =
  cd_notBefore :: real
  cd_error :: "js_error option"

text \<open>\<open>speechOutcome\<close> is what the service answers if it is asked; \<open>Inl\<close> is the request that throws.\<close>

record 'b speechResponse =
  sp_status :: nat
  sp_code :: "ustring option"
  sp_retryAfter :: "ustring option"
  sp_blob :: "js_error + 'b"

definition coolDown :: "real \<Rightarrow> js_error \<Rightarrow> cooldown \<Rightarrow> cooldown" where
  "coolDown now e cd =
    (case e of
       TTSRequestError st _ ra \<Rightarrow>
        (if (st = 429 \<or> st = 503) \<and> 0 < ra \<and> cd_notBefore cd < now + ra
         then \<lparr>cd_notBefore = now + ra, cd_error = Some e\<rparr> else cd)
     | _ \<Rightarrow> cd)"

definition fetchSpeech ::
  "(ustring \<Rightarrow> jsnum) \<Rightarrow> real \<Rightarrow> (js_error + 'b speechResponse) \<Rightarrow> cooldown \<Rightarrow> (js_error + 'b) \<times> cooldown" where
  "fetchSpeech dateParse now answer cd =
    (case answer of
       Inl e \<Rightarrow> (Inl e, cd)
     | Inr r \<Rightarrow>
        (if \<not> (200 \<le> sp_status r \<and> sp_status r \<le> 299) then
           (let e = TTSRequestError (sp_status r) (sp_code r) (parseTTSRetryAfter dateParse (sp_retryAfter r) now) in
            (Inl e, coolDown now e cd))
         else (sp_blob r, cd)))"

text \<open>The refusal before a request is made, and the whole call: \<open>now\<close> is the time of the call, \<open>later\<close> the
  time of the answer, and the third component says whether the service was asked.\<close>

definition refuseEarly :: "real \<Rightarrow> cooldown \<Rightarrow> js_error option" where
  "refuseEarly now cd =
    (case cd_error cd of
       Some (TTSRequestError st c _) \<Rightarrow>
         (if now < cd_notBefore cd then Some (TTSRequestError st c (cd_notBefore cd - now)) else None)
     | _ \<Rightarrow> None)"

definition fetchAudioBlobWithController ::
  "(ustring \<Rightarrow> jsnum) \<Rightarrow> real \<Rightarrow> real \<Rightarrow> (js_error + 'b speechResponse) \<Rightarrow> cooldown \<Rightarrow>
    (js_error + 'b) \<times> cooldown \<times> bool" where
  "fetchAudioBlobWithController dateParse now later answer cd =
    (case refuseEarly now cd of
       Some e \<Rightarrow> (Inl e, cd, False)
     | None \<Rightarrow> (case fetchSpeech dateParse later answer cd of (r, cd1) \<Rightarrow> (r, cd1, True)))"

definition noCooldown :: cooldown where
  "noCooldown = \<lparr>cd_notBefore = 0, cd_error = None\<rparr>"

text \<open>Several requests may be under way at a time; only their answers change the cool-down, in the order
  in which they arrive.\<close>

definition cooldownAfter :: "(ustring \<Rightarrow> jsnum) \<Rightarrow> (real \<times> (js_error + 'b speechResponse)) list \<Rightarrow> cooldown" where
  "cooldownAfter dateParse answers =
    fold (\<lambda>(later, answer) cd. snd (fetchSpeech dateParse later answer cd)) answers noCooldown"

definition announced :: "(ustring \<Rightarrow> jsnum) \<Rightarrow> (real \<times> (js_error + 'b speechResponse)) \<Rightarrow> real list" where
  "announced dateParse a =
    (case a of
       (later, Inr r) \<Rightarrow>
        (let ra = parseTTSRetryAfter dateParse (sp_retryAfter r) later in
         if (sp_status r = 429 \<or> sp_status r = 503) \<and> 0 < ra then [later + ra] else [])
     | _ \<Rightarrow> [])"

section \<open>Lemmas\<close>

lemma markWeight_pos: "0 < markWeight m"
  by (simp add: markWeight_def)

lemma foldl_plus: "foldl (\<lambda>s m. s + f m) a ms = a + (\<Sum>m\<leftarrow>ms. f m :: real)"
  by (induction ms arbitrary: a) auto

lemma totalWeight_sum: "totalWeight ms = (\<Sum>m\<leftarrow>ms. markWeight m)"
  by (simp add: totalWeight_def foldl_plus)

lemma sum_weight_pos: "ms \<noteq> [] \<Longrightarrow> 0 < (\<Sum>m\<leftarrow>ms. markWeight m)"
proof -
  assume "ms \<noteq> []"
  then obtain m r where "ms = m # r" by (cases ms) auto
  moreover have "0 \<le> (\<Sum>m\<leftarrow>r. markWeight m)" by (rule sum_list_nonneg) (auto simp: markWeight_pos less_imp_le)
  ultimately show ?thesis using markWeight_pos [of m] by simp
qed

lemma length_boundaries [simp]: "length (markBoundaries ms) = length ms"
proof -
  have "length (boundariesFrom t c ms) = length ms" for t c by (induction ms arbitrary: c) auto
  then show ?thesis by (simp add: markBoundaries_def)
qed

lemma boundaries_lower: "0 < t \<Longrightarrow> x \<in> set (boundariesFrom t c ms) \<Longrightarrow> c / t < x"
proof (induction ms arbitrary: c)
  case (Cons m ms)
  have "c / t < (c + markWeight m) / t" using Cons.prems(1) markWeight_pos [of m] by (simp add: divide_strict_right_mono)
  with Cons show ?case by (force dest: less_trans)
qed simp

lemma boundaries_sorted: "0 < t \<Longrightarrow> sorted_wrt (<) (boundariesFrom t c ms)"
  by (induction ms arbitrary: c) (auto dest: boundaries_lower)

lemma boundaries_last: "ms \<noteq> [] \<Longrightarrow> last (boundariesFrom t c ms) = (c + (\<Sum>m\<leftarrow>ms. markWeight m)) / t"
proof (induction ms arbitrary: c)
  case (Cons m ms)
  show ?case
  proof (cases "ms = []")
    case False
    then have "boundariesFrom t (c + markWeight m) ms \<noteq> []" by (cases ms) auto
    with Cons.IH [OF False] show ?thesis by (simp add: add.assoc)
  qed simp
qed simp

lemma markBoundaries_increasing: "sorted_wrt (<) (markBoundaries ms)"
  by (cases "ms = []") (simp_all add: markBoundaries_def boundaries_sorted totalWeight_sum sum_weight_pos)

lemma markBoundaries_last: "ms \<noteq> [] \<Longrightarrow> last (markBoundaries ms) = 1"
  using sum_weight_pos [of ms] by (simp add: markBoundaries_def boundaries_last totalWeight_sum)

text \<open>The binary search returns the first boundary beyond the progress, or the last mark.\<close>

lemma searchMark_spec:
  assumes "sorted_wrt (<) bs" and "high < length bs" and "low \<le> high"
    and "\<forall>j < low. bs ! j \<le> p" and "high + 1 < length bs \<longrightarrow> p < bs ! high"
  shows "searchMark bs p low high \<le> high \<and> (\<forall>j < searchMark bs p low high. bs ! j \<le> p) \<and>
    (searchMark bs p low high + 1 < length bs \<longrightarrow> p < bs ! searchMark bs p low high)"
  using assms
proof (induction bs p low high rule: searchMark.induct)
  case (1 bs p low high)
  let ?m = "(low + high) div 2"
  have eq: "searchMark bs p low high = (if low < high then
      if p < bs ! ?m then searchMark bs p low ?m else searchMark bs p (?m + 1) high else low)"
    by (subst searchMark.simps) (simp add: Let_def)
  show ?case
  proof (cases "low < high")
    case False
    then have "low = high" using "1.prems" by simp
    then show ?thesis unfolding eq using "1.prems" by simp
  next
    case True
    have m: "low \<le> ?m" "?m < high" using True by auto
    show ?thesis
    proof (cases "p < bs ! ?m")
      case below: True
      then show ?thesis
        unfolding eq using "1.IH"(1) [OF True refl below] "1.prems" m True by auto
    next
      case above: False
      have "bs ! j \<le> p" if "j < ?m + 1" for j
        using sorted_wrt_nth_less [OF "1.prems"(1), of j ?m] that m "1.prems"(2) above
        by (cases "j = ?m") auto
      then show ?thesis
        unfolding eq using "1.IH"(2) [OF True refl above] "1.prems" m above True by auto
    qed
  qed
qed

lemma searchMark_first:
  assumes "sorted_wrt (<) bs" and "bs \<noteq> []"
  shows "searchMark bs p 0 (length bs - 1) < length bs"
    and "j < searchMark bs p 0 (length bs - 1) \<Longrightarrow> bs ! j \<le> p"
    and "searchMark bs p 0 (length bs - 1) + 1 < length bs \<Longrightarrow> p < bs ! searchMark bs p 0 (length bs - 1)"
proof -
  have len: "0 < length bs" using assms(2) by simp
  note s = searchMark_spec [OF assms(1), of "length bs - 1" 0 p]
  show "searchMark bs p 0 (length bs - 1) < length bs" using s len by linarith
  show "j < searchMark bs p 0 (length bs - 1) \<Longrightarrow> bs ! j \<le> p" using s len by simp
  show "searchMark bs p 0 (length bs - 1) + 1 < length bs \<Longrightarrow> p < bs ! searchMark bs p 0 (length bs - 1)"
    using s len by simp
qed

text \<open>The cool-down keeps the latest announced time, with an error to refuse with once one was announced.\<close>

definition cooling :: "real list \<Rightarrow> cooldown \<Rightarrow> bool" where
  "cooling ts cd \<longleftrightarrow> list_all (\<lambda>t. t \<le> cd_notBefore cd) ts \<and> 0 \<le> cd_notBefore cd \<and>
     (cd_notBefore cd = 0 \<and> cd_error cd = None \<or>
      cd_notBefore cd \<in> set ts \<and> (\<exists>st c ra. cd_error cd = Some (TTSRequestError st c ra) \<and> (st = 429 \<or> st = 503)))"

lemma fetchSpeech_cooling:
  assumes "cooling ts cd"
  shows "cooling (ts @ announced dateParse (later, answer)) (snd (fetchSpeech dateParse later answer cd))"
proof (cases answer)
  case (Inr r)
  show ?thesis
  proof (cases "announced dateParse (later, answer) = []")
    case True
    then have "snd (fetchSpeech dateParse later answer cd) = cd"
      using Inr by (auto simp: announced_def fetchSpeech_def coolDown_def Let_def split: if_splits)
    then show ?thesis using assms True by simp
  next
    case False
    let ?ra = "parseTTSRetryAfter dateParse (sp_retryAfter r) later"
    let ?cd = "snd (fetchSpeech dateParse later answer cd)"
    have a: "announced dateParse (later, answer) = [later + ?ra]" "sp_status r = 429 \<or> sp_status r = 503" "0 < ?ra"
      using False Inr by (auto simp: announced_def Let_def split: if_splits)
    have f: "?cd = (if cd_notBefore cd < later + ?ra
        then \<lparr>cd_notBefore = later + ?ra, cd_error = Some (TTSRequestError (sp_status r) (sp_code r) ?ra)\<rparr> else cd)"
      using Inr a(2,3) by (auto simp: fetchSpeech_def Let_def coolDown_def)
    show ?thesis using assms a by (auto simp: f cooling_def list_all_iff)
  qed
qed (use assms in \<open>simp add: announced_def fetchSpeech_def\<close>)

lemma cooldownAfter_cooling: "cooling (concat (map (announced dateParse) answers)) (cooldownAfter dateParse answers)"
proof (induction answers rule: rev_induct)
  case Nil
  then show ?case by (simp add: cooldownAfter_def cooling_def noCooldown_def)
next
  case (snoc a answers)
  then show ?case
    using fetchSpeech_cooling by (cases a) (fastforce simp: cooldownAfter_def)
qed

lemma refuse_cooling:
  assumes "cooling ts cd" and "0 \<le> now"
  shows "(refuseEarly now cd = None) = list_all (\<lambda>t. t \<le> now) ts \<and>
    (case refuseEarly now cd of
       None \<Rightarrow> True
     | Some e \<Rightarrow> (er_status e = 429 \<or> er_status e = 503) \<and> 0 < er_retryAfterMs e \<and>
         now + er_retryAfterMs e \<in> set ts \<and> list_all (\<lambda>t. t \<le> now + er_retryAfterMs e) ts)"
proof (cases "cd_error cd")
  case None
  with assms have "list_all (\<lambda>t. t \<le> now) ts" by (auto simp: cooling_def list_all_iff intro: order_trans)
  with None show ?thesis by (simp add: refuseEarly_def)
next
  case (Some e)
  with assms obtain st c ra where e: "cd_error cd = Some (TTSRequestError st c ra)" "st = 429 \<or> st = 503"
    and t: "cd_notBefore cd \<in> set ts" "list_all (\<lambda>t. t \<le> cd_notBefore cd) ts"
    by (auto simp: cooling_def)
  have "list_all (\<lambda>t. t \<le> now) ts = (cd_notBefore cd \<le> now)"
    using t by (auto simp: list_all_iff intro: order_trans)
  with e t show ?thesis by (auto simp: refuseEarly_def)
qed

section \<open>Properties\<close>

text \<open>
  The highlighted mark. The boundaries of the marks increase strictly up to 1, and while audio
  plays the current mark is the first one whose boundary lies beyond the played fraction, or the last
  mark; the callback is called exactly when the mark changes.
\<close>

lemma current_mark:
  assumes "ms \<noteq> []"
  shows "sorted_wrt (<) (markBoundaries ms) \<and> last (markBoundaries ms) = 1 \<and>
    (case updateCurrentMark ms (markBoundaries ms) t d cur of (i, call) \<Rightarrow>
      0 \<le> i \<and> nat i < length ms \<and>
      list_all (\<lambda>b. b \<le> playbackProgress t d) (take (nat i) (markBoundaries ms)) \<and>
      (nat i = length ms - 1 \<or> playbackProgress t d < markBoundaries ms ! nat i) \<and>
      call = (if i = cur then None else Some (ms ! nat i, nat i)))"
proof -
  let ?bs = "markBoundaries ms"
  let ?i = "searchMark ?bs (playbackProgress t d) 0 (length ms - 1)"
  have ne: "?bs \<noteq> []" using assms by (metis length_boundaries length_0_conv)
  note f = searchMark_first [OF markBoundaries_increasing ne, unfolded length_boundaries]
  have "list_all (\<lambda>b. b \<le> playbackProgress t d) (take ?i ?bs)"
    using f(1) f(2) by (auto simp: list_all_length)
  moreover have "?i = length ms - 1 \<or> playbackProgress t d < ?bs ! ?i"
    using f(1,3) [of "playbackProgress t d"] by linarith
  ultimately show ?thesis
    using assms f(1) markBoundaries_increasing markBoundaries_last
    by (auto simp: updateCurrentMark_def Let_def)
qed

theorem current_mark_witness:
  "last (markBoundaries [\<lparr>mk_name = [], mk_text = js ''ab'', mk_weight = None\<rparr>]) = 1"
  using current_mark [of "[\<lparr>mk_name = [], mk_text = js ''ab'', mk_weight = None\<rparr>]" 0 "Fin 1" "-1"] by simp

text \<open>
  A provider's cool-down is respected. Whatever answers have arrived, in whatever order, a speech
  request made at time \<open>now\<close> is sent to the service exactly when every time that a 429 or 503 answer asked
  to wait for has passed; otherwise it fails at once with that status and the remaining wait, which ends at
  one of the announced times and not before any of them.
\<close>

lemma cooldown_respected:
  assumes "0 \<le> now"
  shows "(refuseEarly now (cooldownAfter dateParse answers) = None) =
      list_all (\<lambda>t. t \<le> now) (concat (map (announced dateParse) answers)) \<and>
    (case refuseEarly now (cooldownAfter dateParse answers) of
       None \<Rightarrow> True
     | Some e \<Rightarrow> (er_status e = 429 \<or> er_status e = 503) \<and> 0 < er_retryAfterMs e \<and>
         now + er_retryAfterMs e \<in> set (concat (map (announced dateParse) answers)) \<and>
         list_all (\<lambda>t. t \<le> now + er_retryAfterMs e) (concat (map (announced dateParse) answers)))"
  by (rule refuse_cooling [OF cooldownAfter_cooling assms])

definition sampleAnswers :: "(real \<times> (js_error + unit speechResponse)) list" where
  "sampleAnswers = [(1, Inr \<lparr>sp_status = 429, sp_code = None, sp_retryAfter = Some (dec 5), sp_blob = Inr ()\<rparr>)]"

theorem cooldown_respected_witness:
  "refuseEarly 4000 (cooldownAfter (\<lambda>_. NaN) sampleAnswers) \<noteq> None \<and>
   refuseEarly 5001 (cooldownAfter (\<lambda>_. NaN) sampleAnswers) = None"
proof -
  have "dec 5 = [53]" by (simp add: dec.simps)
  then have "parseTTSRetryAfter (\<lambda>_. NaN) (Some (dec 5)) 1 = 5000"
    by (simp add: parseTTSRetryAfter_def is_decimal_def decimal_value_def is_digit_def trim_def is_space_def
        digits_value_def)
  then have "concat (map (announced (\<lambda>_. NaN)) sampleAnswers) = [5001]"
    by (simp add: sampleAnswers_def announced_def Let_def)
  then show ?thesis
    using cooldown_respected [of 4000 "\<lambda>_. NaN" sampleAnswers] cooldown_respected [of 5001 "\<lambda>_. NaN" sampleAnswers]
    by simp
qed

end
