(* ===== verification/Tts_Preload.thy ===== *)
theory Tts_Preload
  imports Tts_Timing Lru_Cache Uri_Component
begin

text \<open>
  The prefetching of \<^verbatim>\<open>BackendTTS\<close> in \<^verbatim>\<open>frontend/src/lib/tts.ts\<close>: tasks wait in a queue, at most two run at
  a time, finished audio is kept in a short queue, and tasks can be cancelled. A task and the promise
  that \<^verbatim>\<open>preload\<close> returns for it are named by a number. The atomic pieces are the public operations, the end
  of a running task with its \<^verbatim>\<open>finally\<close> (\<open>Finish\<close>), and the \<^verbatim>\<open>finally\<close> of a resolved promise (\<open>Forget\<close>);
  \<open>preload_run\<close> interleaves them in any order.
\<close>

section \<open>State\<close>

definition MAX_BACKEND_SSML_BYTES :: nat where
  "MAX_BACKEND_SSML_BYTES = 32 * 1024"

definition getUTF8ByteLength :: "ustring \<Rightarrow> nat" where
  "getUTF8ByteLength s = length (concat (map utf8 (scalar_values s)))"

definition isSSMLTooLarge :: "ustring \<Rightarrow> bool" where
  "isSSMLTooLarge s \<longleftrightarrow> MAX_BACKEND_SSML_BYTES < getUTF8ByteLength s"

lemma length_scalar_values: "length (scalar_values s) \<le> length s"
  by (induction s rule: scalar_values.induct) (auto split: list.splits)

lemma getUTF8ByteLength_le: "getUTF8ByteLength s \<le> 4 * length s"
proof -
  have "length (utf8 c) \<le> 4" for c by (simp add: utf8_def)
  then have "length (concat (map utf8 cs)) \<le> 4 * length cs" for cs
    by (induction cs) (simp_all add: le_diff_conv add_le_mono)
  from this [of "scalar_values s"] length_scalar_values [of s] show ?thesis
    by (simp add: getUTF8ByteLength_def)
qed

text \<open>Short texts are recognised by their length.\<close>

lemma isSSMLTooLarge_code [code]:
  "isSSMLTooLarge s \<longleftrightarrow> (if 4 * int (length s) \<le> 32768 then False else 32768 < int (getUTF8ByteLength s))"
  using getUTF8ByteLength_le [of s] by (auto simp: isSSMLTooLarge_def MAX_BACKEND_SSML_BYTES_def)

definition maxPreloadCount :: nat where "maxPreloadCount = 6"
definition maxPreloadConcurrency :: nat where "maxPreloadConcurrency = 2"

text \<open>A running task; one that found its audio ready does not fetch and just ends.\<close>

record preloadRun =
  ru_id :: nat
  ru_ssml :: ustring
  ru_fetching :: bool
  ru_aborted :: bool

record 'b preload_st =
  pl_queue :: "(ustring \<times> 'b) list"
  pl_active :: "preloadRun list"
  pl_activeCount :: nat
  pl_pending :: "(nat \<times> ustring) list"
  pl_queuedKeys :: "ustring list"
  pl_controllers :: "(ustring, nat) omap"
  pl_promises :: "(ustring, nat) omap"
  pl_resolved :: "nat list"
  pl_nextId :: nat
  pl_cache :: "('b, unit) lru"
  pl_samples :: "real list"

definition preload_init :: "'b preload_st" where
  "preload_init = \<lparr>pl_queue = [], pl_active = [], pl_activeCount = 0, pl_pending = [], pl_queuedKeys = [],
     pl_controllers = [], pl_promises = [], pl_resolved = [], pl_nextId = 0, pl_cache = lru_new 10,
     pl_samples = []\<rparr>"

section \<open>Operations\<close>

definition isReady :: "ustring \<Rightarrow> 'b preload_st \<Rightarrow> bool" where
  "isReady ssml s \<longleftrightarrow> lru_has ssml (pl_cache s) \<or> ssml \<in> set (map fst (pl_queue s))"

definition hasAudio :: "ustring \<Rightarrow> 'b preload_st \<Rightarrow> bool" where
  "hasAudio ssml s = isReady ssml s"

definition startTask :: "nat \<Rightarrow> ustring \<Rightarrow> 'b preload_st \<Rightarrow> 'b preload_st" where
  "startTask i ssml s =
    (let s1 = s\<lparr>pl_queuedKeys := removeAll ssml (pl_queuedKeys s), pl_activeCount := pl_activeCount s + 1\<rparr>;
         ready = isReady ssml s in
     s1\<lparr>pl_active := pl_active s @ [\<lparr>ru_id = i, ru_ssml = ssml, ru_fetching = \<not> ready, ru_aborted = False\<rparr>],
        pl_controllers := (if ready then pl_controllers s else mapSet ssml i (pl_controllers s))\<rparr>)"

function pumpPreloadQueue :: "'b preload_st \<Rightarrow> 'b preload_st" where
  "pumpPreloadQueue s =
    (if pl_activeCount s < maxPreloadConcurrency \<and> pl_pending s \<noteq> []
     then (case hd (pl_pending s) of
         (i, ssml) \<Rightarrow> pumpPreloadQueue (startTask i ssml (s\<lparr>pl_pending := tl (pl_pending s)\<rparr>)))
     else s)"
  by pat_completeness auto
termination
  by (relation "measure (\<lambda>s. length (pl_pending s))")
    (auto simp: startTask_def Let_def length_greater_0_conv [symmetric] simp del: length_greater_0_conv)

declare pumpPreloadQueue.simps [simp del]

definition preload :: "ustring \<Rightarrow> 'b preload_st \<Rightarrow> 'b preload_st" where
  "preload ssml s =
    (if ssml = [] then s
     else if isSSMLTooLarge ssml then s
     else if isReady ssml s then s
     else if mapHas (pl_promises s) ssml then s
     else
      let i = pl_nextId s;
          s1 = pumpPreloadQueue (s\<lparr>pl_nextId := i + 1, pl_queuedKeys := pl_queuedKeys s @ [ssml],
            pl_pending := pl_pending s @ [(i, ssml)]\<rparr>) in
      s1\<lparr>pl_promises := mapSet ssml i (pl_promises s1)\<rparr>)"

definition trimPreloadQueue :: "(ustring \<times> 'b) list \<Rightarrow> (ustring \<times> 'b) list" where
  "trimPreloadQueue q = drop (length q - maxPreloadCount) q"

definition storePreloaded :: "preloadRun \<Rightarrow> jsnum \<Rightarrow> js_error + 'b \<Rightarrow> 'b preload_st \<Rightarrow> 'b preload_st" where
  "storePreloaded r latency outcome s =
    (case outcome of
       Inr blob \<Rightarrow>
        (if ru_fetching r \<and> \<not> ru_aborted r
         then s\<lparr>pl_queue := trimPreloadQueue (pl_queue s @ [(ru_ssml r, blob)]),
                pl_samples := recordSynthesisLatency latency (pl_samples s)\<rparr>
         else s)
     | Inl _ \<Rightarrow> s)"

definition resolveTasks :: "nat list \<Rightarrow> 'b preload_st \<Rightarrow> 'b preload_st" where
  "resolveTasks is s = s\<lparr>pl_resolved := pl_resolved s @ is\<rparr>"

definition releaseController :: "preloadRun \<Rightarrow> 'b preload_st \<Rightarrow> 'b preload_st" where
  "releaseController r s =
    (if ru_fetching r \<and> mapGet (pl_controllers s) (ru_ssml r) = Some (ru_id r)
     then s\<lparr>pl_controllers := mapDelete (ru_ssml r) (pl_controllers s)\<rparr> else s)"

definition runPreloadTask :: "nat \<Rightarrow> jsnum \<Rightarrow> js_error + 'b \<Rightarrow> 'b preload_st \<Rightarrow> 'b preload_st" where
  "runPreloadTask i latency outcome s =
    (case filter (\<lambda>r. ru_id r = i) (pl_active s) of
       [] \<Rightarrow> s
     | r # _ \<Rightarrow>
        (let s1 = releaseController r (storePreloaded r latency outcome s) in
         pumpPreloadQueue (resolveTasks [i]
           (s1\<lparr>pl_active := filter (\<lambda>r. ru_id r \<noteq> i) (pl_active s1), pl_activeCount := pl_activeCount s1 - 1\<rparr>))))"

definition forgetPromise :: "ustring \<Rightarrow> nat \<Rightarrow> 'b preload_st \<Rightarrow> 'b preload_st" where
  "forgetPromise ssml i s =
    (if i \<in> set (pl_resolved s) \<and> mapGet (pl_promises s) ssml = Some i
     then s\<lparr>pl_promises := mapDelete ssml (pl_promises s)\<rparr> else s)"

definition preloadMultiple :: "ustring list \<Rightarrow> 'b preload_st \<Rightarrow> 'b preload_st" where
  "preloadMultiple ssmls s =
    (let valid = filter (\<lambda>x. x \<noteq> [] \<and> \<not> isReady x s) ssmls in
     fold preload (take (maxPreloadCount - length (pl_queue s)) valid) s)"

definition abortRuns :: "nat list \<Rightarrow> 'b preload_st \<Rightarrow> 'b preload_st" where
  "abortRuns is s = s\<lparr>pl_active := map (\<lambda>r. if ru_id r \<in> set is then r\<lparr>ru_aborted := True\<rparr> else r) (pl_active s)\<rparr>"

definition dropPending :: "(ustring \<Rightarrow> bool) \<Rightarrow> 'b preload_st \<Rightarrow> 'b preload_st" where
  "dropPending gone s =
    (let out = filter (\<lambda>(i, x). gone x) (pl_pending s) in
     resolveTasks (map fst out)
       (s\<lparr>pl_pending := filter (\<lambda>(i, x). \<not> gone x) (pl_pending s),
          pl_queuedKeys := filter (\<lambda>x. x \<notin> set (map snd out)) (pl_queuedKeys s)\<rparr>))"

definition cancelPreload :: "ustring \<Rightarrow> 'b preload_st \<Rightarrow> 'b preload_st" where
  "cancelPreload ssml s =
    dropPending (\<lambda>x. x = ssml)
      (case mapGet (pl_controllers s) ssml of
         Some i \<Rightarrow> (abortRuns [i] s)\<lparr>pl_controllers := mapDelete ssml (pl_controllers s)\<rparr>
       | None \<Rightarrow> s)"

definition cleanupIrrelevantPreloads :: "ustring list \<Rightarrow> 'b preload_st \<Rightarrow> 'b preload_st" where
  "cleanupIrrelevantPreloads relevant s =
    (let toRemove = filter (\<lambda>x. x \<notin> set relevant) (map fst (pl_queue s));
         s1 = s\<lparr>pl_queue := filter (\<lambda>(x, _). x \<in> set relevant) (pl_queue s)\<rparr> in
     dropPending (\<lambda>x. x \<notin> set relevant) (fold cancelPreload toRemove s1))"

definition cancelAllPreloads :: "'b preload_st \<Rightarrow> 'b preload_st" where
  "cancelAllPreloads s =
    dropPending (\<lambda>x. True)
      ((abortRuns (map snd (pl_controllers s)) s)\<lparr>pl_controllers := [], pl_promises := []\<rparr>)"

definition clearPreloadQueue :: "'b preload_st \<Rightarrow> 'b preload_st" where
  "clearPreloadQueue s = (cancelAllPreloads s)\<lparr>pl_queue := []\<rparr>"

definition clearPreload :: "'b preload_st \<Rightarrow> 'b preload_st" where
  "clearPreload s = (clearPreloadQueue s)\<lparr>pl_cache := lru_clear (pl_cache (clearPreloadQueue s))\<rparr>"

definition clearPreloadQueueOnly :: "'b preload_st \<Rightarrow> 'b preload_st" where
  "clearPreloadQueueOnly s = (cancelAllPreloads s)\<lparr>pl_queue := []\<rparr>"

definition getPreloadQueueLength :: "'b preload_st \<Rightarrow> nat" where
  "getPreloadQueueLength s = length (pl_queue s)"

text \<open>What \<^verbatim>\<open>speak\<close> does to these structures: it reads the cache, takes a prefetched blob out of the
  queue, and stores the blob it is going to play.\<close>

definition takePreloaded :: "ustring \<Rightarrow> 'b preload_st \<Rightarrow> 'b option \<times> 'b preload_st" where
  "takePreloaded ssml s =
    (case mapGet (pl_queue s) ssml of
       Some blob \<Rightarrow> (Some blob, s\<lparr>pl_queue := takeWhile (\<lambda>p. fst p \<noteq> ssml) (pl_queue s) @
         tl (dropWhile (\<lambda>p. fst p \<noteq> ssml) (pl_queue s))\<rparr>)
     | None \<Rightarrow> (None, s))"

definition cacheAudio :: "ustring \<Rightarrow> 'b \<Rightarrow> 'b preload_st \<Rightarrow> 'b preload_st" where
  "cacheAudio ssml blob s = s\<lparr>pl_cache := lru_set ssml blob None (pl_cache s)\<rparr>"

definition readCache :: "ustring \<Rightarrow> 'b preload_st \<Rightarrow> 'b option \<times> 'b preload_st" where
  "readCache ssml s = (case lru_get ssml (pl_cache s) of (r, c) \<Rightarrow> (r, s\<lparr>pl_cache := c\<rparr>))"

datatype 'b preload_event =
    Preload ustring
  | PreloadMultiple "ustring list"
  | Finish nat jsnum "js_error + 'b"
  | Forget ustring nat
  | Cancel ustring
  | Cleanup "ustring list"
  | CancelAll
  | ClearQueue
  | ClearAll
  | ReadCache ustring
  | Take ustring
  | Cache ustring 'b

fun preload_step :: "'b preload_event \<Rightarrow> 'b preload_st \<Rightarrow> 'b preload_st" where
  "preload_step (Preload x) s = preload x s"
| "preload_step (PreloadMultiple xs) s = preloadMultiple xs s"
| "preload_step (Finish i l r) s = runPreloadTask i l r s"
| "preload_step (Forget x i) s = forgetPromise x i s"
| "preload_step (Cancel x) s = cancelPreload x s"
| "preload_step (Cleanup xs) s = cleanupIrrelevantPreloads xs s"
| "preload_step CancelAll s = cancelAllPreloads s"
| "preload_step ClearQueue s = clearPreloadQueue s"
| "preload_step ClearAll s = clearPreload s"
| "preload_step (ReadCache x) s = snd (readCache x s)"
| "preload_step (Take x) s = snd (takePreloaded x s)"
| "preload_step (Cache x b) s = cacheAudio x b s"

definition preload_run :: "'b preload_event list \<Rightarrow> 'b preload_st" where
  "preload_run evs = fold preload_step evs preload_init"

section \<open>The invariant\<close>

definition live :: "preloadRun \<Rightarrow> bool" where
  "live r \<longleftrightarrow> ru_fetching r \<and> \<not> ru_aborted r"

text \<open>The ids in use: waiting tasks and running ones.\<close>

definition ids :: "'b preload_st \<Rightarrow> nat list" where
  "ids s = map fst (pl_pending s) @ map ru_id (pl_active s)"

definition counts_ok :: "'b preload_st \<Rightarrow> bool" where
  "counts_ok s \<longleftrightarrow> pl_activeCount s = length (pl_active s) \<and> pl_activeCount s \<le> maxPreloadConcurrency"

definition busy :: "'b preload_st \<Rightarrow> bool" where
  "busy s \<longleftrightarrow> (pl_pending s \<noteq> [] \<longrightarrow> pl_activeCount s = maxPreloadConcurrency)"

definition queue_ok :: "'b preload_st \<Rightarrow> bool" where
  "queue_ok s \<longleftrightarrow> length (pl_queue s) \<le> maxPreloadCount \<and> distinct (map fst (pl_queue s))"

definition ids_ok :: "'b preload_st \<Rightarrow> bool" where
  "ids_ok s \<longleftrightarrow> distinct (ids s) \<and> (\<forall>i \<in> set (ids s). i < pl_nextId s \<and> i \<notin> set (pl_resolved s)) \<and>
     (\<forall>i \<in> set (pl_resolved s). i < pl_nextId s)"

text \<open>Every waiting task and every live run is the one that the promise map \<open>P\<close> has for its text, its
  controller is registered, and its audio is not in the queue yet.\<close>

definition owned :: "(ustring \<Rightarrow> nat option) \<Rightarrow> 'b preload_st \<Rightarrow> bool" where
  "owned P s \<longleftrightarrow>
    (\<forall>(i, x) \<in> set (pl_pending s). P x = Some i) \<and>
    (\<forall>r \<in> set (pl_active s). live r \<longrightarrow> P (ru_ssml r) = Some (ru_id r) \<and>
      mapGet (pl_controllers s) (ru_ssml r) = Some (ru_id r) \<and> ru_ssml r \<notin> set (map fst (pl_queue s)))"

definition core_inv :: "(ustring \<Rightarrow> nat option) \<Rightarrow> 'b preload_st \<Rightarrow> bool" where
  "core_inv P s \<longleftrightarrow> counts_ok s \<and> queue_ok s \<and> ids_ok s \<and> owned P s"

definition preload_inv :: "'b preload_st \<Rightarrow> bool" where
  "preload_inv s \<longleftrightarrow> core_inv (mapGet (pl_promises s)) s \<and> busy s"

lemmas preload_inv_defs = core_inv_def counts_ok_def queue_ok_def ids_ok_def owned_def ids_def

lemma startTask_core:
  assumes "core_inv P s" and "pl_pending s = (i, x) # rest" and "pl_activeCount s < maxPreloadConcurrency"
  shows "core_inv P (startTask i x (s\<lparr>pl_pending := rest\<rparr>))"
proof -
  let ?s = "startTask i x (s\<lparr>pl_pending := rest\<rparr>)"
  have pen: "P x = Some i" using assms(1,2) by (auto simp: core_inv_def owned_def)
  have other: "ru_ssml r \<noteq> x" if "r \<in> set (pl_active s)" "live r" for r
  proof
    assume "ru_ssml r = x"
    then have "ru_id r = i" using that assms(1) pen by (auto simp: core_inv_def owned_def)
    then show False using that assms(1,2) by (auto simp: core_inv_def ids_ok_def ids_def)
  qed
  have "counts_ok ?s" using assms by (simp add: core_inv_def counts_ok_def startTask_def Let_def)
  moreover have "queue_ok ?s" using assms by (simp add: core_inv_def queue_ok_def startTask_def Let_def)
  moreover have "ids_ok ?s" using assms(1,2) by (auto simp: core_inv_def ids_ok_def ids_def startTask_def Let_def)
  moreover have "owned P ?s"
    unfolding owned_def
  proof (intro conjI ballI)
    fix q assume "q \<in> set (pl_pending ?s)"
    then show "case q of (i, x) \<Rightarrow> P x = Some i"
      using assms(1,2) by (auto simp: core_inv_def owned_def startTask_def Let_def)
  next
    fix r assume "r \<in> set (pl_active ?s)"
    then consider "r \<in> set (pl_active s)"
      | "r = \<lparr>ru_id = i, ru_ssml = x, ru_fetching = \<not> isReady x (s\<lparr>pl_pending := rest\<rparr>), ru_aborted = False\<rparr>"
      by (auto simp: startTask_def Let_def)
    then show "live r \<longrightarrow> P (ru_ssml r) = Some (ru_id r) \<and>
        mapGet (pl_controllers ?s) (ru_ssml r) = Some (ru_id r) \<and> ru_ssml r \<notin> set (map fst (pl_queue ?s))"
    proof cases
      case 1
      with assms(1) other [of r] show ?thesis by (auto simp: core_inv_def owned_def startTask_def Let_def)
    next
      case 2
      with pen show ?thesis by (auto simp: live_def startTask_def Let_def isReady_def)
    qed
  qed
  ultimately show ?thesis by (simp add: core_inv_def)
qed

lemma pump_core: "core_inv P s \<Longrightarrow> core_inv P (pumpPreloadQueue s) \<and> busy (pumpPreloadQueue s)"
proof (induction s rule: pumpPreloadQueue.induct)
  case (1 s)
  show ?case
  proof (cases "pl_activeCount s < maxPreloadConcurrency \<and> pl_pending s \<noteq> []")
    case True
    then obtain i x rest where p: "pl_pending s = (i, x) # rest" by (cases "pl_pending s") auto
    have "core_inv P (startTask i x (s\<lparr>pl_pending := rest\<rparr>))"
      using startTask_core "1.prems" True p by blast
    with "1.IH" True p show ?thesis by (subst (1 2) pumpPreloadQueue.simps) simp
  next
    case False
    then show ?thesis using "1.prems"
      by (subst (1 2) pumpPreloadQueue.simps) (auto simp: busy_def core_inv_def counts_ok_def)
  qed
qed

lemma pump_promises [simp]: "pl_promises (pumpPreloadQueue s) = pl_promises s"
proof (induction s rule: pumpPreloadQueue.induct)
  case (1 s)
  then show ?case
    by (subst pumpPreloadQueue.simps) (auto simp: startTask_def Let_def split: prod.splits)
qed

lemma owned_cong:
  assumes "\<And>i x. (i, x) \<in> set (pl_pending s) \<Longrightarrow> P x = Some i \<Longrightarrow> P' x = Some i"
    and "\<And>r. r \<in> set (pl_active s) \<Longrightarrow> live r \<Longrightarrow> P (ru_ssml r) = Some (ru_id r) \<Longrightarrow> P' (ru_ssml r) = Some (ru_id r)"
    and "owned P s"
  shows "owned P' s"
  using assms unfolding owned_def by blast

lemma preload_inv_step:
  assumes "preload_inv s"
  shows "preload_inv (preload x s)"
proof (cases "x = [] \<or> isSSMLTooLarge x \<or> isReady x s \<or> mapHas (pl_promises s) x")
  case True
  then show ?thesis using assms by (auto simp: preload_def)
next
  case False
  let ?i = "pl_nextId s"
  let ?s = "s\<lparr>pl_nextId := ?i + 1, pl_queuedKeys := pl_queuedKeys s @ [x], pl_pending := pl_pending s @ [(?i, x)]\<rparr>"
  let ?P = "(mapGet (pl_promises s))(x \<mapsto> ?i)"
  have core: "core_inv (mapGet (pl_promises s)) s" using assms by (simp add: preload_inv_def)
  have no: "mapGet (pl_promises s) x = None" using False by (simp add: mapHas_def)
  have "owned ?P s"
    using core no by (intro owned_cong [of s "mapGet (pl_promises s)" ?P]) (auto simp: core_inv_def)
  then have "core_inv ?P ?s"
    using core by (auto simp: preload_inv_defs less_Suc_eq)
  from pump_core [OF this] have "core_inv ?P (pumpPreloadQueue ?s)" "busy (pumpPreloadQueue ?s)" by auto
  moreover have "preload x s = (pumpPreloadQueue ?s)\<lparr>pl_promises := mapSet x ?i (pl_promises s)\<rparr>"
    using False by (simp add: preload_def Let_def)
  moreover have "mapGet (mapSet x ?i (pl_promises s)) = ?P" by (rule ext) simp
  ultimately show ?thesis by (simp add: preload_inv_def preload_inv_defs busy_def)
qed

text \<open>Dropping waiting tasks, aborting runs, and changing the queue keep what they do not touch.\<close>

lemma distinct_fst_split:
  assumes "distinct (map fst xs)"
  shows "fst ` set (filter (\<lambda>(i, x). \<not> gone x) xs) \<inter> fst ` set (filter (\<lambda>(i, x). gone x) xs) = {}"
  using assms by (induction xs) force+

lemma dropPending_fields [simp]:
  "pl_pending (dropPending gone s) = filter (\<lambda>(i, x). \<not> gone x) (pl_pending s)"
  "pl_active (dropPending gone s) = pl_active s"
  "pl_resolved (dropPending gone s) = pl_resolved s @ map fst (filter (\<lambda>(i, x). gone x) (pl_pending s))"
  "pl_nextId (dropPending gone s) = pl_nextId s"
  "pl_controllers (dropPending gone s) = pl_controllers s"
  "pl_promises (dropPending gone s) = pl_promises s"
  "pl_queue (dropPending gone s) = pl_queue s"
  "pl_activeCount (dropPending gone s) = pl_activeCount s"
  by (simp_all add: dropPending_def resolveTasks_def Let_def)

lemma dropPending_ids:
  assumes "ids_ok s"
  shows "ids_ok (dropPending gone s)"
proof -
  let ?K = "fst ` set (filter (\<lambda>(i, x). \<not> gone x) (pl_pending s))"
  let ?O = "fst ` set (filter (\<lambda>(i, x). gone x) (pl_pending s))"
  let ?W = "fst ` set (pl_pending s)" and ?A = "ru_id ` set (pl_active s)"
  have d: "distinct (map fst (pl_pending s))" "distinct (map ru_id (pl_active s))" "?W \<inter> ?A = {}"
    using assms by (simp_all add: ids_ok_def ids_def)
  have old: "i < pl_nextId s \<and> i \<notin> set (pl_resolved s)" if "i \<in> ?W \<or> i \<in> ?A" for i
    using assms that unfolding ids_ok_def ids_def by simp
  have apart: "?K \<inter> ?O = {}" by (rule distinct_fst_split [OF d(1)])
  have sub: "?K \<subseteq> ?W" "?O \<subseteq> ?W" by (auto intro: rev_image_eqI)
  have "distinct (ids (dropPending gone s))"
    using d sub(1) distinct_map_filter [OF d(1)] by (simp add: ids_def disjoint_iff subset_iff)
  moreover have "i < pl_nextId s \<and> i \<notin> set (pl_resolved s) \<and> i \<notin> ?O" if "i \<in> ?K \<or> i \<in> ?A" for i
    using that old [of i] apart sub d(3) by blast
  then have "\<forall>i \<in> set (ids (dropPending gone s)). i < pl_nextId (dropPending gone s) \<and> i \<notin> set (pl_resolved (dropPending gone s))"
    by (simp add: ids_def ball_Un)
  moreover have "i < pl_nextId s" if "i \<in> set (pl_resolved s) \<or> i \<in> ?O" for i
    using that old [of i] sub(2) assms unfolding ids_ok_def by blast
  then have "\<forall>i \<in> set (pl_resolved (dropPending gone s)). i < pl_nextId (dropPending gone s)"
    by (simp add: ball_Un)
  ultimately show ?thesis unfolding ids_ok_def by blast
qed

lemma dropPending_core: "core_inv P s \<Longrightarrow> core_inv P (dropPending gone s)"
  by (simp add: core_inv_def counts_ok_def queue_ok_def dropPending_ids) (auto simp: owned_def)

lemma abortRuns_core:
  assumes "core_inv P s"
  shows "core_inv P (abortRuns is s)"
proof -
  have "map ru_id (pl_active (abortRuns is s)) = map ru_id (pl_active s)" by (simp add: abortRuns_def)
  moreover have "owned P (abortRuns is s)"
    using assms unfolding core_inv_def owned_def abortRuns_def by (auto simp: live_def split: if_splits)
  ultimately show ?thesis
    using assms by (simp add: core_inv_def counts_ok_def queue_ok_def ids_ok_def ids_def)
      (simp add: abortRuns_def)
qed

lemma forget_controller_core:
  assumes "core_inv P s" and "\<And>r. r \<in> set (pl_active s) \<Longrightarrow> live r \<Longrightarrow> ru_ssml r \<noteq> x"
  shows "core_inv P (s\<lparr>pl_controllers := mapDelete x (pl_controllers s)\<rparr>)"
proof -
  have "owned P s" using assms(1) by (simp add: core_inv_def)
  then have "owned P (s\<lparr>pl_controllers := mapDelete x (pl_controllers s)\<rparr>)"
    using assms(2) unfolding owned_def by auto
  then show ?thesis using assms(1) by (simp add: core_inv_def counts_ok_def queue_ok_def ids_ok_def ids_def)
qed

lemma live_owned:
  assumes "core_inv P s" and "r \<in> set (pl_active s)" and "live r"
  shows "P (ru_ssml r) = Some (ru_id r)" "mapGet (pl_controllers s) (ru_ssml r) = Some (ru_id r)"
    "ru_ssml r \<notin> set (map fst (pl_queue s))"
  using assms unfolding core_inv_def owned_def by blast+

lemma abortRuns_live:
  "r \<in> set (pl_active (abortRuns is s)) \<Longrightarrow> live r \<Longrightarrow> r \<in> set (pl_active s) \<and> ru_id r \<notin> set is"
  by (auto simp: abortRuns_def live_def)

lemma cancelPreload_core:
  assumes "core_inv P s"
  shows "core_inv P (cancelPreload x s)"
proof -
  have "core_inv P (case mapGet (pl_controllers s) x of
      Some i \<Rightarrow> (abortRuns [i] s)\<lparr>pl_controllers := mapDelete x (pl_controllers s)\<rparr> | None \<Rightarrow> s)"
  proof (cases "mapGet (pl_controllers s) x")
    case (Some i)
    have "ru_ssml r \<noteq> x" if "r \<in> set (pl_active (abortRuns [i] s))" "live r" for r
      using abortRuns_live [OF that] live_owned(2) [OF assms _ that(2)] Some by auto
    from forget_controller_core [OF abortRuns_core [OF assms] this]
    have "core_inv P ((abortRuns [i] s)\<lparr>pl_controllers := mapDelete x (pl_controllers (abortRuns [i] s))\<rparr>)" by blast
    moreover have "pl_controllers (abortRuns [i] s) = pl_controllers s" by (simp add: abortRuns_def)
    ultimately show ?thesis using Some by simp
  qed (use assms in simp)
  then show ?thesis unfolding cancelPreload_def by (rule dropPending_core)
qed

lemma owned_queue:
  assumes "owned P s" and "set (map fst q) \<subseteq> set (map fst (pl_queue s))"
  shows "owned P (s\<lparr>pl_queue := q\<rparr>)"
proof -
  have "ru_ssml r \<notin> set (map fst q)" if "ru_ssml r \<notin> set (map fst (pl_queue s))" for r
    using that assms(2) by blast
  with assms(1) show ?thesis unfolding owned_def by simp blast
qed

lemma shrink_queue_core:
  assumes "core_inv P s" and "set q \<subseteq> set (pl_queue s)" and "length q \<le> length (pl_queue s)" and "distinct (map fst q)"
  shows "core_inv P (s\<lparr>pl_queue := q\<rparr>)"
proof -
  have "set (map fst q) \<subseteq> set (map fst (pl_queue s))" using assms(2) by (simp add: image_mono)
  then have "owned P (s\<lparr>pl_queue := q\<rparr>)" using assms(1) by (intro owned_queue) (simp_all add: core_inv_def)
  then show ?thesis
    using assms by (simp add: core_inv_def counts_ok_def queue_ok_def ids_ok_def ids_def)
qed

lemma fold_cancel_core: "core_inv P s \<Longrightarrow> core_inv P (fold cancelPreload xs s)"
  by (induction xs arbitrary: s) (simp_all add: cancelPreload_core)

text \<open>Operations that never add waiting tasks or lower the count of runs keep the runs busy.\<close>

definition no_new_work :: "'b preload_st \<Rightarrow> 'b preload_st \<Rightarrow> bool" where
  "no_new_work s s' \<longleftrightarrow> (pl_pending s' \<noteq> [] \<longrightarrow> pl_pending s \<noteq> []) \<and> pl_activeCount s' = pl_activeCount s \<and>
     pl_promises s' = pl_promises s"

lemma no_new_work_trans: "no_new_work s s' \<Longrightarrow> no_new_work s' s'' \<Longrightarrow> no_new_work s s''"
  by (auto simp: no_new_work_def)

lemma no_new_work_busy: "no_new_work s s' \<Longrightarrow> busy s \<Longrightarrow> busy s'"
  by (auto simp: no_new_work_def busy_def)

lemma no_new_work_refl [simp]: "no_new_work s s"
  by (simp add: no_new_work_def)

lemma dropPending_nnw: "no_new_work s (dropPending gone s)"
  by (auto simp: no_new_work_def dropPending_def resolveTasks_def Let_def filter_empty_conv)

lemma cancelPreload_nnw: "no_new_work s (cancelPreload x s)"
  unfolding cancelPreload_def
  by (rule no_new_work_trans [OF _ dropPending_nnw]) (simp add: no_new_work_def abortRuns_def split: option.splits)

lemma fold_cancel_nnw: "no_new_work s (fold cancelPreload xs s)"
  by (induction xs arbitrary: s) (auto intro: no_new_work_trans [OF cancelPreload_nnw])

lemma nnw_inv:
  assumes "preload_inv s" and "no_new_work s s'" and "core_inv (mapGet (pl_promises s)) s'"
  shows "preload_inv s'"
  using assms no_new_work_busy [of s s'] by (simp add: preload_inv_def no_new_work_def)

lemma cleanup_inv:
  assumes "preload_inv s"
  shows "preload_inv (cleanupIrrelevantPreloads xs s)"
proof -
  let ?q = "filter (\<lambda>(x, _). x \<in> set xs) (pl_queue s)"
  have c: "core_inv (mapGet (pl_promises s)) s" using assms by (simp add: preload_inv_def)
  have "core_inv (mapGet (pl_promises s)) (s\<lparr>pl_queue := ?q\<rparr>)"
    using c by (intro shrink_queue_core distinct_map_filter) (auto simp: core_inv_def queue_ok_def)
  then have "core_inv (mapGet (pl_promises s)) (cleanupIrrelevantPreloads xs s)"
    unfolding cleanupIrrelevantPreloads_def Let_def by (intro dropPending_core fold_cancel_core)
  moreover have "no_new_work s (s\<lparr>pl_queue := ?q\<rparr>)" by (simp add: no_new_work_def)
  then have "no_new_work s (cleanupIrrelevantPreloads xs s)"
    unfolding cleanupIrrelevantPreloads_def Let_def
    using no_new_work_trans fold_cancel_nnw dropPending_nnw by blast
  ultimately show ?thesis using nnw_inv [OF assms] by blast
qed

lemma cancelAll_inv:
  assumes "preload_inv s"
  shows "preload_inv (cancelAllPreloads s)"
proof -
  let ?s = "(abortRuns (map snd (pl_controllers s)) s)\<lparr>pl_controllers := [], pl_promises := []\<rparr>"
  have c: "core_inv (mapGet (pl_promises s)) s" using assms by (simp add: preload_inv_def)
  have dead: "\<not> live r" if "r \<in> set (pl_active ?s)" for r
  proof
    assume l: "live r"
    have "r \<in> set (pl_active (abortRuns (map snd (pl_controllers s)) s))" using that by simp
    from abortRuns_live [OF this l] have r: "r \<in> set (pl_active s)" "ru_id r \<notin> set (map snd (pl_controllers s))"
      by blast+
    from live_owned(2) [OF c r(1) l] have "(ru_ssml r, ru_id r) \<in> set (pl_controllers s)"
      by (rule map_of_SomeD)
    with r(2) show False by force
  qed
  have "core_inv (mapGet (pl_promises s)) (abortRuns (map snd (pl_controllers s)) s)" by (rule abortRuns_core [OF c])
  then have "core_inv (mapGet (pl_promises s)) ?s"
    using dead unfolding preload_inv_defs by simp
  then have "core_inv (mapGet (pl_promises s)) (cancelAllPreloads s)"
    unfolding cancelAllPreloads_def by (rule dropPending_core)
  moreover have "pl_pending (cancelAllPreloads s) = []" "pl_active (cancelAllPreloads s) = pl_active ?s"
    by (simp_all add: cancelAllPreloads_def dropPending_def resolveTasks_def Let_def)
  ultimately show ?thesis
    using dead by (simp add: preload_inv_def busy_def core_inv_def owned_def)
qed

text \<open>The end of a run: its slot and controller are given back and its audio joins the queue.\<close>

lemma length_filter_unique:
  assumes "distinct (map f xs)" and "x \<in> set xs"
  shows "length (filter (\<lambda>y. f y \<noteq> f x) xs) = length xs - 1"
proof -
  have "length (filter (\<lambda>y. f y \<noteq> f x) xs) = length (filter (\<lambda>k. k \<noteq> f x) (map f xs))"
    by (simp add: filter_map comp_def)
  also have "\<dots> = length (remove1 (f x) (map f xs))"
    using assms(1) by (simp add: distinct_remove1_removeAll removeAll_filter_not_eq eq_commute)
  finally show ?thesis using assms(2) by (simp add: length_remove1)
qed

lemma finish_core:
  assumes c: "core_inv P s" and r: "r \<in> set (pl_active s)" and q: "queue_ok s'"
    and fields: "pl_active s' = filter (\<lambda>r'. ru_id r' \<noteq> ru_id r) (pl_active s)" "pl_pending s' = pl_pending s"
      "pl_activeCount s' = pl_activeCount s - 1" "pl_resolved s' = pl_resolved s @ [ru_id r]" "pl_nextId s' = pl_nextId s"
    and rest: "\<And>r'. r' \<in> set (pl_active s) \<Longrightarrow> live r' \<Longrightarrow> ru_id r' \<noteq> ru_id r \<Longrightarrow>
      ru_ssml r' \<notin> set (map fst (pl_queue s')) \<and> mapGet (pl_controllers s') (ru_ssml r') = Some (ru_id r')"
  shows "core_inv P s'"
proof -
  have ids: "ids_ok s" and own: "owned P s" and cnt: "counts_ok s" using c by (simp_all add: core_inv_def)
  have d: "distinct (map ru_id (pl_active s))" "distinct (map fst (pl_pending s))"
    "fst ` set (pl_pending s) \<inter> ru_id ` set (pl_active s) = {}"
    using ids by (simp_all add: ids_ok_def ids_def)
  have "counts_ok s'"
    using cnt length_filter_unique [OF d(1) r] by (auto simp: counts_ok_def fields)
  moreover have sub: "set (ids s') \<subseteq> set (ids s) - {ru_id r}"
    using d(3) r by (auto simp: ids_def fields)
  have "ids_ok s'"
    unfolding ids_ok_def
  proof (intro conjI)
    show "distinct (ids s')"
      using d distinct_map_filter [OF d(1)] by (auto simp: ids_def fields)
    show "\<forall>i \<in> set (ids s'). i < pl_nextId s' \<and> i \<notin> set (pl_resolved s')"
      using sub ids unfolding ids_ok_def fields by auto
    show "\<forall>i \<in> set (pl_resolved s'). i < pl_nextId s'"
      using ids r unfolding ids_ok_def fields ids_def by auto
  qed
  moreover have "owned P s'"
    using own rest unfolding owned_def fields by simp
  ultimately show ?thesis using q by (simp add: core_inv_def)
qed

lemma trim_queue_ok: "distinct (map fst q) \<Longrightarrow> length (trimPreloadQueue q) \<le> maxPreloadCount \<and> distinct (map fst (trimPreloadQueue q))"
  by (simp add: trimPreloadQueue_def drop_map [symmetric])

lemma trim_queue_keys: "set (map fst (trimPreloadQueue q)) \<subseteq> set (map fst q)"
  unfolding trimPreloadQueue_def drop_map [symmetric] by (rule set_drop_subset)

lemma storePreloaded_fields [simp]:
  "pl_active (storePreloaded r l out s) = pl_active s" "pl_pending (storePreloaded r l out s) = pl_pending s"
  "pl_activeCount (storePreloaded r l out s) = pl_activeCount s" "pl_resolved (storePreloaded r l out s) = pl_resolved s"
  "pl_nextId (storePreloaded r l out s) = pl_nextId s" "pl_controllers (storePreloaded r l out s) = pl_controllers s"
  "pl_promises (storePreloaded r l out s) = pl_promises s"
  by (simp_all add: storePreloaded_def split: sum.splits)

lemma releaseController_fields [simp]:
  "pl_active (releaseController r s) = pl_active s" "pl_pending (releaseController r s) = pl_pending s"
  "pl_activeCount (releaseController r s) = pl_activeCount s" "pl_resolved (releaseController r s) = pl_resolved s"
  "pl_nextId (releaseController r s) = pl_nextId s" "pl_queue (releaseController r s) = pl_queue s"
  "pl_promises (releaseController r s) = pl_promises s"
  by (simp_all add: releaseController_def)

lemma storePreloaded_queue:
  assumes "core_inv P s" and "r \<in> set (pl_active s)"
  shows "length (pl_queue (storePreloaded r l out s)) \<le> maxPreloadCount \<and>
    distinct (map fst (pl_queue (storePreloaded r l out s))) \<and>
    set (map fst (pl_queue (storePreloaded r l out s))) \<subseteq>
      set (map fst (pl_queue s)) \<union> (if live r then {ru_ssml r} else {})"
proof (cases "live r \<and> (\<exists>b. out = Inr b)")
  case True
  then obtain b where b: "out = Inr b" and l: "live r" by blast
  have q: "pl_queue (storePreloaded r l out s) = trimPreloadQueue (pl_queue s @ [(ru_ssml r, b)])"
    using l b by (simp add: storePreloaded_def live_def)
  have d: "distinct (map fst (pl_queue s @ [(ru_ssml r, b)]))"
    using assms(1) live_owned(3) [OF assms l] by (simp add: core_inv_def queue_ok_def)
  have "set (map fst (trimPreloadQueue (pl_queue s @ [(ru_ssml r, b)]))) \<subseteq> set (map fst (pl_queue s)) \<union> {ru_ssml r}"
    using trim_queue_keys [of "pl_queue s @ [(ru_ssml r, b)]"] by simp
  with trim_queue_ok [OF d] l show ?thesis by (simp add: q)
next
  case False
  then have "storePreloaded r l out s = s" by (auto simp: storePreloaded_def live_def split: sum.splits)
  with assms(1) show ?thesis by (auto simp: core_inv_def queue_ok_def)
qed

lemma finish_inv:
  assumes "preload_inv s"
  shows "preload_inv (runPreloadTask i l out s)"
proof (cases "filter (\<lambda>r. ru_id r = i) (pl_active s)")
  case Nil
  then show ?thesis using assms by (simp add: runPreloadTask_def)
next
  case (Cons r rs)
  then have "r \<in> set (filter (\<lambda>r. ru_id r = i) (pl_active s))" by simp
  then have r: "r \<in> set (pl_active s)" "ru_id r = i" by simp_all
  let ?P = "mapGet (pl_promises s)"
  let ?t = "storePreloaded r l out s"
  let ?u = "releaseController r ?t"
  let ?s = "resolveTasks [i] (?u\<lparr>pl_active := filter (\<lambda>r. ru_id r \<noteq> i) (pl_active ?u), pl_activeCount := pl_activeCount ?u - 1\<rparr>)"
  have c: "core_inv ?P s" using assms by (simp add: preload_inv_def)
  note sq = storePreloaded_queue [OF c r(1), of l out]
  have others: "ru_ssml r' \<notin> set (map fst (pl_queue ?s)) \<and> mapGet (pl_controllers ?s) (ru_ssml r') = Some (ru_id r')"
    if r': "r' \<in> set (pl_active s)" "live r'" "ru_id r' \<noteq> ru_id r" for r'
  proof
    have "ru_ssml r' \<noteq> ru_ssml r" if "live r"
      using live_owned(1) [OF c r(1) that] live_owned(1) [OF c r'(1,2)] r'(3) by auto
    with sq live_owned(3) [OF c r'(1,2)] show "ru_ssml r' \<notin> set (map fst (pl_queue ?s))"
      by (auto simp: resolveTasks_def split: if_splits)
    show "mapGet (pl_controllers ?s) (ru_ssml r') = Some (ru_id r')"
      using live_owned(2) [OF c r'(1,2)] r'(3) by (auto simp: resolveTasks_def releaseController_def)
  qed
  have "core_inv ?P ?s"
    by (rule finish_core [OF c r(1)]) (use sq others r(2) in \<open>simp_all add: resolveTasks_def queue_ok_def\<close>)
  from pump_core [OF this] have "core_inv ?P (pumpPreloadQueue ?s)" "busy (pumpPreloadQueue ?s)" by simp_all
  moreover have "runPreloadTask i l out s = pumpPreloadQueue ?s" by (simp add: runPreloadTask_def Cons Let_def)
  moreover have "pl_promises ?s = pl_promises s" by (simp add: resolveTasks_def)
  ultimately show ?thesis unfolding preload_inv_def by simp
qed

lemma forget_inv:
  assumes "preload_inv s"
  shows "preload_inv (forgetPromise x i s)"
proof (cases "i \<in> set (pl_resolved s) \<and> mapGet (pl_promises s) x = Some i")
  case True
  let ?P = "mapGet (pl_promises s)" and ?P' = "mapGet (mapDelete x (pl_promises s))"
  have c: "core_inv ?P s" using assms by (simp add: preload_inv_def)
  have free: "i \<notin> set (ids s)" using c True by (auto simp: core_inv_def ids_ok_def)
  have "owned ?P' s"
  proof (rule owned_cong [of s ?P])
    fix j y assume "(j, y) \<in> set (pl_pending s)" and y: "?P y = Some j"
    then have "j \<in> set (ids s)" by (force simp: ids_def)
    with free y True show "?P' y = Some j" by auto
  next
    fix r assume "r \<in> set (pl_active s)" and r: "?P (ru_ssml r) = Some (ru_id r)"
    then have "ru_id r \<in> set (ids s)" by (simp add: ids_def)
    with free r True show "?P' (ru_ssml r) = Some (ru_id r)" by auto
  next
    show "owned ?P s" using c by (simp add: core_inv_def)
  qed
  then have "core_inv ?P' s" using c by (simp add: core_inv_def)
  then have "core_inv ?P' (s\<lparr>pl_promises := mapDelete x (pl_promises s)\<rparr>)" by (simp add: preload_inv_defs)
  then show ?thesis using assms True by (simp add: forgetPromise_def preload_inv_def busy_def)
next
  case False
  then show ?thesis using assms by (auto simp: forgetPromise_def)
qed

lemma preloadMultiple_inv: "preload_inv s \<Longrightarrow> preload_inv (preloadMultiple xs s)"
proof -
  have "preload_inv (fold preload ys s)" if "preload_inv s" for ys and s :: "'a preload_st"
    using that by (induction ys arbitrary: s) (simp_all add: preload_inv_step)
  then show "preload_inv s \<Longrightarrow> preload_inv (preloadMultiple xs s)" by (simp add: preloadMultiple_def Let_def)
qed

lemma queue_inv:
  assumes "preload_inv s" and "set q \<subseteq> set (pl_queue s)" and "length q \<le> length (pl_queue s)" and "distinct (map fst q)"
  shows "preload_inv (s\<lparr>pl_queue := q\<rparr>)"
  using assms shrink_queue_core [of _ s q] by (intro nnw_inv [OF assms(1)]) (simp_all add: preload_inv_def no_new_work_def)

lemma cache_inv: "preload_inv (s\<lparr>pl_cache := c\<rparr>) \<longleftrightarrow> preload_inv s"
  by (simp add: preload_inv_def preload_inv_defs busy_def)

lemma distinct_app_tl: "distinct (map f (a @ b)) \<Longrightarrow> distinct (map f (a @ tl b)) \<and> set (a @ tl b) \<subseteq> set (a @ b)"
  by (cases b) auto

lemma takePreloaded_inv:
  assumes "preload_inv s"
  shows "preload_inv (snd (takePreloaded x s))"
proof (cases "mapGet (pl_queue s) x")
  case (Some b)
  let ?a = "takeWhile (\<lambda>p. fst p \<noteq> x) (pl_queue s)" and ?b = "dropWhile (\<lambda>p. fst p \<noteq> x) (pl_queue s)"
  have q: "pl_queue s = ?a @ ?b" by simp
  have len: "length (?a @ tl ?b) \<le> length (pl_queue s)"
    using arg_cong [OF q, of length] by (simp only: length_append length_tl)
  have "distinct (map fst (?a @ ?b))" using assms by (simp add: preload_inv_def core_inv_def queue_ok_def)
  from distinct_app_tl [OF this] have "preload_inv (s\<lparr>pl_queue := ?a @ tl ?b\<rparr>)"
    using q len by (intro queue_inv [OF assms]) simp_all
  then show ?thesis by (simp add: takePreloaded_def Some)
qed (use assms in \<open>simp add: takePreloaded_def\<close>)

lemma preload_step_inv: "preload_inv s \<Longrightarrow> preload_inv (preload_step e s)"
proof (cases e)
  case (Cancel x)
  assume i: "preload_inv s"
  then have "core_inv (mapGet (pl_promises s)) (cancelPreload x s)" by (intro cancelPreload_core) (simp add: preload_inv_def)
  with i Cancel show ?thesis using nnw_inv [OF i cancelPreload_nnw] by simp
qed (auto simp: preload_inv_step preloadMultiple_inv finish_inv forget_inv cleanup_inv cancelAll_inv clearPreloadQueue_def
    clearPreload_def queue_inv cache_inv takePreloaded_inv cacheAudio_def readCache_def split: prod.splits)

lemma preload_run_inv: "preload_inv (preload_run evs)"
proof -
  have "preload_inv preload_init"
    by (simp add: preload_inv_def preload_inv_defs busy_def preload_init_def)
  moreover have "preload_inv (fold preload_step evs s)" if "preload_inv s" for s :: "'a preload_st"
    using that by (induction evs arbitrary: s) (simp_all add: preload_step_inv)
  ultimately show ?thesis by (simp add: preload_run_def)
qed

section \<open>Properties\<close>

text \<open>
  \<^bold>\<open>C16\<close>: for any interleaving of requests, completions, cancellations, queue cleaning and playback, at
  most two prefetches run at once, as many as the counter says; tasks wait only while both slots are
  taken; the queue of finished audio has at most six entries, no two for the same text; and no two
  prefetches that can still deliver are for the same text.
\<close>

theorem preload_bounded:
  fixes evs :: "'b preload_event list"
  defines "s \<equiv> preload_run evs"
  shows "pl_activeCount s = length (pl_active s) \<and> pl_activeCount s \<le> 2 \<and>
    (pl_pending s = [] \<or> pl_activeCount s = 2) \<and>
    length (pl_queue s) \<le> 6 \<and> distinct (map fst (pl_queue s)) \<and>
    distinct (map ru_ssml (filter (\<lambda>r. ru_fetching r \<and> \<not> ru_aborted r) (pl_active s)))"
proof -
  have inv: "preload_inv s" unfolding s_def by (rule preload_run_inv)
  then have c: "core_inv (mapGet (pl_promises s)) s" by (simp add: preload_inv_def)
  have "inj_on ru_ssml {r \<in> set (pl_active s). live r}"
  proof (rule inj_onI)
    fix a b assume ab: "a \<in> {r \<in> set (pl_active s). live r}" "b \<in> {r \<in> set (pl_active s). live r}" "ru_ssml a = ru_ssml b"
    then have "ru_id a = ru_id b"
      using live_owned(1) [OF c, of a] live_owned(1) [OF c, of b] by simp
    moreover have "inj_on ru_id (set (pl_active s))"
      using c by (simp add: core_inv_def ids_ok_def ids_def distinct_map)
    ultimately show "a = b" using ab by (auto dest: inj_onD)
  qed
  moreover have "distinct (pl_active s)"
    using c by (simp add: core_inv_def ids_ok_def ids_def distinct_map)
  ultimately have "distinct (map ru_ssml (filter (\<lambda>r. ru_fetching r \<and> \<not> ru_aborted r) (pl_active s)))"
    by (simp add: distinct_map live_def)
  with inv c show ?thesis
    by (auto simp: preload_inv_def core_inv_def counts_ok_def queue_ok_def busy_def maxPreloadConcurrency_def maxPreloadCount_def)
qed

end
