(* ===== verification/Audio_Focus.thy ===== *)
theory Audio_Focus
  imports Prelude
begin

text \<open>
  The audio focus shared by narration and voice previews (\<^verbatim>\<open>frontend/src/lib/tts-audio-focus.ts\<close>). A lease is
  an object of its own, named here by a number; claiming returns the lease, and the owner whose
  \<^verbatim>\<open>onLoss\<close> is called.
\<close>

record 'a audioFocus =
  af_active :: "('a \<times> nat) option"
  af_next :: nat

definition focus_init :: "'a audioFocus" where
  "focus_init = \<lparr>af_active = None, af_next = 0\<rparr>"

definition claimTTSAudioFocus :: "'a \<Rightarrow> 'a audioFocus \<Rightarrow> nat \<times> 'a option \<times> 'a audioFocus" where
  "claimTTSAudioFocus owner f =
    (af_next f,
     case af_active f of Some (previous, _) \<Rightarrow> if previous \<noteq> owner then Some previous else None | None \<Rightarrow> None,
     \<lparr>af_active = Some (owner, af_next f), af_next = af_next f + 1\<rparr>)"

definition releaseLease :: "nat option \<Rightarrow> 'a audioFocus \<Rightarrow> 'a audioFocus" where
  "releaseLease lease f =
    (case af_active f of
       Some (_, l) \<Rightarrow> if lease = Some l then f\<lparr>af_active := None\<rparr> else f
     | None \<Rightarrow> f)"

text \<open>A lease that has been superseded can be released at any time without taking the focus from its holder.\<close>

lemma release_stale:
  assumes "af_active f = Some (o', l)" and "lease \<noteq> Some l"
  shows "releaseLease lease f = f"
  using assms by (simp add: releaseLease_def)

lemma release_own: "af_active f = Some (o', l) \<Longrightarrow> af_active (releaseLease (Some l) f) = None"
  by (simp add: releaseLease_def)

end
