(* ===== verification/Ssml_Text.thy ===== *)
theory Ssml_Text
  imports Prelude "HOL-Library.Sublist"
begin

text \<open>
  Plain text out of SSML (\<^verbatim>\<open>stripSSML\<close> in \<^verbatim>\<open>frontend/src/lib/tts.ts\<close>): the tag patterns as functions on
  strings. A pattern \<^verbatim>\<open></?name[^>]*>\<close> matches at an opening angle bracket and ends at the first closing
  one; its flag \<^verbatim>\<open>i\<close> folds ASCII letters only.
\<close>

definition foldCase :: "nat \<Rightarrow> nat" where
  "foldCase c = (if 65 \<le> c \<and> c \<le> 90 then c + 32 else c)"

definition dropSlash :: "ustring \<Rightarrow> ustring" where
  "dropSlash s = (case s of c # cs \<Rightarrow> if c = 47 then cs else s | [] \<Rightarrow> [])"

definition LT :: nat where "LT = 60"
definition GT :: nat where "GT = 62"

text \<open>The rest after a tag whose name begins with \<open>name\<close>, if the text begins with one.\<close>

definition afterTag :: "ustring \<Rightarrow> ustring \<Rightarrow> ustring option" where
  "afterTag name s =
    (case s of
       [] \<Rightarrow> None
     | c # cs \<Rightarrow>
        (let body = dropSlash cs; rest = dropWhile (\<lambda>d. d \<noteq> GT) (drop (length name) body) in
         if c = LT \<and> map foldCase (take (length name) body) = name \<and> rest \<noteq> [] then Some (tl rest) else None))"

text \<open>The pattern \<^verbatim>\<open><[^>]+>\<close>.\<close>

definition afterAnyTag :: "ustring \<Rightarrow> ustring option" where
  "afterAnyTag s =
    (case s of
       c # d # cs \<Rightarrow>
        (let rest = dropWhile (\<lambda>d. d \<noteq> GT) cs in
         if c = LT \<and> d \<noteq> GT \<and> rest \<noteq> [] then Some (tl rest) else None)
     | _ \<Rightarrow> None)"

text \<open>\<^verbatim>\<open>s.replace(pattern, by)\<close> with the flag \<^verbatim>\<open>g\<close>, for a pattern that matches no empty text.\<close>

definition shrinks :: "(ustring \<Rightarrow> ustring option) \<Rightarrow> bool" where
  "shrinks p \<longleftrightarrow> (\<forall>s r. p s = Some r \<longrightarrow> length r < length s)"

fun replaceUpTo :: "nat \<Rightarrow> (ustring \<Rightarrow> ustring option) \<Rightarrow> ustring \<Rightarrow> ustring \<Rightarrow> ustring" where
  "replaceUpTo 0 p by s = s"
| "replaceUpTo (Suc n) p by [] = []"
| "replaceUpTo (Suc n) p by (c # cs) =
    (case p (c # cs) of Some rest \<Rightarrow> by @ replaceUpTo n p by rest | None \<Rightarrow> c # replaceUpTo n p by cs)"

definition replaceAll :: "(ustring \<Rightarrow> ustring option) \<Rightarrow> ustring \<Rightarrow> ustring \<Rightarrow> ustring" where
  "replaceAll p by s = replaceUpTo (length s) p by s"

definition stripSSML :: "ustring \<Rightarrow> ustring" where
  "stripSSML ssml = trim
    (replaceAll afterAnyTag []
    (replaceAll (afterTag (js ''bookmark'')) []
    (replaceAll (afterTag (js ''mstts:'')) []
    (replaceAll (afterTag (js ''prosody'')) []
    (replaceAll (afterTag (js ''voice'')) []
    (replaceAll (afterTag (js ''lang'')) []
    (replaceAll (afterTag (js ''phoneme'')) []
    (replaceAll (afterTag (js ''break'')) (js '' '')
    (replaceAll (afterTag (js ''emphasis'')) []
    (replaceAll (afterTag (js ''mark'')) []
    (replaceAll (afterTag (js ''speak'')) [] ssml)))))))))))"

section \<open>Lemmas\<close>

lemma length_tl_dropWhile: "length (tl (dropWhile P (drop n xs))) \<le> length xs"
  using length_dropWhile_le [of P "drop n xs"] by simp

lemma afterTag_shrinks: "shrinks (afterTag name)"
  unfolding shrinks_def
proof (intro allI impI)
  fix s r assume a: "afterTag name s = Some r"
  then obtain c cs where s: "s = c # cs" by (cases s) (auto simp: afterTag_def)
  have "length r \<le> length (dropSlash cs)"
    using a length_tl_dropWhile [of _ "length name" "dropSlash cs"] by (auto simp: afterTag_def s Let_def split: if_splits)
  moreover have "length (dropSlash cs) \<le> length cs" by (auto simp: dropSlash_def split: list.splits)
  ultimately show "length r < length s" by (simp add: s)
qed

lemma afterAnyTag_shrinks: "shrinks afterAnyTag"
  unfolding shrinks_def
proof (intro allI impI)
  fix s r assume a: "afterAnyTag s = Some r"
  then obtain c d cs where s: "s = c # d # cs" by (cases s rule: remdups_adj.cases) (auto simp: afterAnyTag_def)
  have "length r \<le> length cs"
    using a length_tl_dropWhile [of _ 0 cs] by (auto simp: afterAnyTag_def s Let_def split: if_splits)
  then show "length r < length s" by (simp add: s)
qed

text \<open>The fuel is enough: more does not change the result.\<close>

lemma replace_fuel:
  assumes "shrinks p" and "length s \<le> n" and "length s \<le> m"
  shows "replaceUpTo n p by s = replaceUpTo m p by s"
  using assms(2,3)
proof (induction n arbitrary: m s)
  case (Suc n)
  show ?case
  proof (cases s)
    case Nil
    then show ?thesis by (cases m) simp_all
  next
    case (Cons c cs)
    then obtain k where k: "m = Suc k" using Suc.prems by (cases m) auto
    show ?thesis
    proof (cases "p s")
      case None
      then show ?thesis using Suc.IH [of cs k] Suc.prems Cons k by simp
    next
      case (Some r)
      then have "length r < length s" using assms(1) unfolding shrinks_def by blast
      then show ?thesis using Suc.IH [of r k] Suc.prems Cons k Some by simp
    qed
  qed
qed (metis list.size(3) le_0_eq length_0_conv old.nat.exhaust replaceUpTo.simps(1,2))

fun hasTag :: "ustring \<Rightarrow> bool" where
  "hasTag [] = False"
| "hasTag (c # cs) = (afterAnyTag (c # cs) \<noteq> None \<or> hasTag cs)"

lemma afterAnyTag_Cons:
  "afterAnyTag (c # s) \<noteq> None \<longleftrightarrow> c = LT \<and> s \<noteq> [] \<and> hd s \<noteq> GT \<and> GT \<in> set s"
  by (cases s) (auto simp: afterAnyTag_def Let_def dropWhile_eq_Nil_conv)

lemma afterAnyTag_suffix: "afterAnyTag s = Some r \<Longrightarrow> set r \<subseteq> set s"
proof -
  assume a: "afterAnyTag s = Some r"
  then obtain c d cs where s: "s = c # d # cs" "r = tl (dropWhile (\<lambda>d. d \<noteq> GT) cs)"
    by (cases s rule: remdups_adj.cases) (auto simp: afterAnyTag_def Let_def split: if_splits)
  have "set (tl (dropWhile (\<lambda>d. d \<noteq> GT) cs)) \<subseteq> set cs"
    using set_mono_suffix suffix_dropWhile suffix_tl suffix_order.trans by metis
  then show ?thesis using s by auto
qed

lemma replaced_chars: "set (replaceUpTo n afterAnyTag [] s) \<subseteq> set s"
proof (induction n afterAnyTag "[] :: ustring" s rule: replaceUpTo.induct)
  case (3 n c cs)
  show ?case
  proof (cases "afterAnyTag (c # cs)")
    case (Some r)
    then show ?thesis using 3(2) [OF Some] afterAnyTag_suffix [OF Some] by auto
  qed (use 3(1) in auto)
qed simp_all

lemma replaced_no_tag: "length s \<le> n \<Longrightarrow> \<not> hasTag (replaceUpTo n afterAnyTag [] s)"
proof (induction n arbitrary: s)
  case (Suc n)
  show ?case
  proof (cases s)
    case (Cons c cs)
    show ?thesis
    proof (cases "afterAnyTag s")
      case (Some r)
      then have "length r < length s" using afterAnyTag_shrinks unfolding shrinks_def by blast
      then show ?thesis using Suc Cons Some by simp
    next
      case None
      let ?o = "replaceUpTo n afterAnyTag [] cs"
      have "afterAnyTag (c # ?o) = None"
      proof (rule ccontr)
        assume "afterAnyTag (c # ?o) \<noteq> None"
        then have o: "c = LT" "?o \<noteq> []" "hd ?o \<noteq> GT" "GT \<in> set ?o" using afterAnyTag_Cons by blast+
        then have cs: "GT \<in> set cs" "cs \<noteq> []" using replaced_chars [of n cs] by (auto simp: subset_iff)
        then obtain ds where d: "cs = GT # ds"
          using None o(1) afterAnyTag_Cons [of c cs] Cons by (cases cs) auto
        then have "afterAnyTag cs = None" using afterAnyTag_Cons [of GT ds] by (auto simp: LT_def GT_def)
        then have "hd ?o = GT" using d Suc.prems Cons by (cases n) auto
        with o(3) show False by simp
      qed
      then show ?thesis using Suc Cons None by simp
    qed
  qed simp
qed simp

lemma hasTag_iff: "hasTag s \<longleftrightarrow> (\<exists>k. afterAnyTag (drop k s) \<noteq> None)"
proof (induction s)
  case (Cons c cs)
  have "(\<exists>k. afterAnyTag (drop k (c # cs)) \<noteq> None) \<longleftrightarrow> afterAnyTag (c # cs) \<noteq> None \<or> (\<exists>k. afterAnyTag (drop k cs) \<noteq> None)"
    by (metis drop0 drop_Suc_Cons not0_implies_Suc)
  with Cons show ?case by simp
qed (simp add: afterAnyTag_def)

lemma tag_extend: "afterAnyTag s \<noteq> None \<Longrightarrow> afterAnyTag (s @ t) \<noteq> None"
  using afterAnyTag_Cons [of "hd s" "tl s"] afterAnyTag_Cons [of "hd s" "tl s @ t"]
  by (cases s) (auto simp: afterAnyTag_def hd_append)

lemma trim_split: "\<exists>a b. s = a @ trim s @ b"
proof -
  let ?d = "dropWhile is_space s"
  have "s = takeWhile is_space s @ ?d" by simp
  moreover have "?d = trim s @ rev (takeWhile is_space (rev ?d))"
    by (metis rev_append rev_rev_ident takeWhile_dropWhile_id trim_def)
  ultimately show ?thesis by metis
qed

lemma trim_no_tag: "hasTag (trim s) \<Longrightarrow> hasTag s"
proof -
  assume "hasTag (trim s)"
  then obtain k where k: "afterAnyTag (drop k (trim s)) \<noteq> None" using hasTag_iff by blast
  obtain a b where s: "s = a @ trim s @ b" using trim_split by blast
  have "k < length (trim s)" using k by (cases "k < length (trim s)") (auto simp: afterAnyTag_def)
  then have "drop (length a + k) s = drop k (trim s) @ b" by (subst s) simp
  then show "hasTag s" using tag_extend [OF k, of b] hasTag_iff by metis
qed

lemma stripSSML_no_tag: "\<not> hasTag (stripSSML ssml)"
  unfolding stripSSML_def replaceAll_def using trim_no_tag replaced_no_tag by blast

end
