(* ===== verification/Tts_Playback.thy ===== *)
theory Tts_Playback
  imports Tts_Preload Audio_Focus Ssml_Text
begin

text \<open>
  Playback of \<^verbatim>\<open>BackendTTS\<close> in \<^verbatim>\<open>frontend/src/lib/tts.ts\<close>: \<^verbatim>\<open>speak\<close>, \<^verbatim>\<open>playAudio\<close>, \<^verbatim>\<open>pause\<close>, \<^verbatim>\<open>resume\<close>,
  \<^verbatim>\<open>stop\<close> and the handlers of the audio element, on top of the cache and the prefetch queue of
  \<open>Tts_Preload\<close>. A call that awaits something is a pending entry with its captured variables; prefetches,
  answers, \<^verbatim>\<open>play()\<close> promises and media events come in any order. Object URLs are numbers, with the
  blobs behind them kept in the state.
\<close>

section \<open>State\<close>

datatype TTSState = Stopped | Playing | Paused

datatype focusOwner = Narration | OtherSource

record audioElement =
  el_src :: "nat option"
  el_paused :: bool
  el_ended :: bool
  el_error :: bool
  el_handlers :: "(nat \<times> nat) option"

text \<open>A suspended call: \<^verbatim>\<open>speak\<close> awaiting a prefetch, its audio, or \<^verbatim>\<open>play()\<close>, and \<^verbatim>\<open>resume\<close> awaiting \<^verbatim>\<open>play()\<close>.\<close>

datatype ttsPending =
    AwaitPrefetch (pn_request: nat) ustring "ttsMark list" bool nat
  | AwaitFetch (pn_request: nat) ustring "ttsMark list" nat real
  | AwaitPlay (pn_request: nat) ustring
  | AwaitResume (pn_request: nat)

datatype ttsCallback =
    StateChanged TTSState
  | MarkChanged ttsMark nat
  | Ended
  | TimeUpdated real real
  | PreloadTriggered
  | Resolved
  | Rejected js_error

record 'b tts =
  ts_audio :: "audioElement option"
  ts_audioUrl :: "nat option"
  ts_blobs :: "'b list"
  ts_revoked :: "nat list"
  ts_state :: TTSState
  ts_markIndex :: int
  ts_marks :: "ttsMark list"
  ts_boundaries :: "real list"
  ts_currentSSML :: ustring
  ts_audioSSML :: ustring
  ts_speechId :: int
  ts_audioSpeechId :: int
  ts_abort :: "nat option"
  ts_wait :: "nat option"
  ts_aborted :: "nat list"
  ts_nextController :: nat
  ts_preload :: "'b preload_st"
  ts_preloadTriggered :: bool
  ts_misses :: nat
  ts_requestId :: nat
  ts_replacing :: bool
  ts_wants :: bool
  ts_sessionStartedAt :: "real option"
  ts_sessionPlayed :: bool
  ts_lastEndedAt :: "real option"
  ts_lease :: "nat option"
  ts_focus :: "focusOwner audioFocus"
  ts_pending :: "ttsPending list"
  ts_log :: "ttsCallback list"

definition tts_init :: "'b tts" where
  "tts_init = \<lparr>ts_audio = None, ts_audioUrl = None, ts_blobs = [], ts_revoked = [], ts_state = Stopped, ts_markIndex = 0,
     ts_marks = [], ts_boundaries = [], ts_currentSSML = [], ts_audioSSML = [], ts_speechId = 0, ts_audioSpeechId = -1,
     ts_abort = None, ts_wait = None, ts_aborted = [], ts_nextController = 0, ts_preload = preload_init,
     ts_preloadTriggered = False, ts_misses = 0, ts_requestId = 0, ts_replacing = False, ts_wants = False,
     ts_sessionStartedAt = None, ts_sessionPlayed = False, ts_lastEndedAt = None, ts_lease = None,
     ts_focus = focus_init, ts_pending = [], ts_log = []\<rparr>"

section \<open>Small operations\<close>

definition call :: "ttsCallback \<Rightarrow> 'b tts \<Rightarrow> 'b tts" where
  "call c s = s\<lparr>ts_log := ts_log s @ [c]\<rparr>"

definition setState :: "TTSState \<Rightarrow> 'b tts \<Rightarrow> 'b tts" where
  "setState st s = (if ts_state s = st then s else call (StateChanged st) (s\<lparr>ts_state := st\<rparr>))"

definition beginSession :: "real \<Rightarrow> 'b tts \<Rightarrow> 'b tts" where
  "beginSession now s = s\<lparr>ts_sessionStartedAt := Some now, ts_sessionPlayed := False, ts_lastEndedAt := None\<rparr>"

definition getOrCreateAudio :: "'b tts \<Rightarrow> audioElement" where
  "getOrCreateAudio s = (case ts_audio s of
     Some a \<Rightarrow> a
   | None \<Rightarrow> \<lparr>el_src = None, el_paused = True, el_ended = False, el_error = False, el_handlers = None\<rparr>)"

definition abortController :: "nat option \<Rightarrow> 'b tts \<Rightarrow> 'b tts" where
  "abortController c s = (case c of Some i \<Rightarrow> s\<lparr>ts_aborted := i # ts_aborted s\<rparr> | None \<Rightarrow> s)"

definition freshController :: "'b tts \<Rightarrow> nat \<times> 'b tts" where
  "freshController s = (ts_nextController s, s\<lparr>ts_nextController := ts_nextController s + 1\<rparr>)"

definition pauseElement :: "'b tts \<Rightarrow> 'b tts" where
  "pauseElement s = s\<lparr>ts_audio := map_option (\<lambda>a. a\<lparr>el_paused := True\<rparr>) (ts_audio s)\<rparr>"

definition releaseAudioUrl :: "'b tts \<Rightarrow> 'b tts" where
  "releaseAudioUrl s = (case ts_audioUrl s of
     Some u \<Rightarrow> s\<lparr>ts_revoked := ts_revoked s @ [u], ts_audioUrl := None\<rparr> | None \<Rightarrow> s)"

definition claimFocus :: "'b tts \<Rightarrow> 'b tts" where
  "claimFocus s = (case claimTTSAudioFocus Narration (ts_focus s) of
     (lease, _, f) \<Rightarrow> s\<lparr>ts_lease := Some lease, ts_focus := f\<rparr>)"

definition releaseFocus :: "'b tts \<Rightarrow> 'b tts" where
  "releaseFocus s = s\<lparr>ts_focus := releaseLease (ts_lease s) (ts_focus s), ts_lease := None\<rparr>"

definition hasCurrentAudio :: "'b tts \<Rightarrow> bool" where
  "hasCurrentAudio s \<longleftrightarrow> ts_audioUrl s \<noteq> None \<and> ts_audioSpeechId s = ts_speechId s \<and> ts_audioSSML s = ts_currentSSML s \<and>
     (case ts_audio s of Some a \<Rightarrow> el_src a \<noteq> None \<and> \<not> el_ended a \<and> \<not> el_error a | None \<Rightarrow> False)"

definition hasEnded :: "'b tts \<Rightarrow> bool" where
  "hasEnded s \<longleftrightarrow> ts_audioSpeechId s = ts_speechId s \<and> (case ts_audio s of Some a \<Rightarrow> el_ended a | None \<Rightarrow> False)"

definition needsResume :: "'b tts \<Rightarrow> bool" where
  "needsResume s \<longleftrightarrow> hasCurrentAudio s \<and> (case ts_audio s of Some a \<Rightarrow> el_paused a | None \<Rightarrow> False)"

definition isSpeaking :: "'b tts \<Rightarrow> bool" where "isSpeaking s \<longleftrightarrow> ts_state s = Playing"
definition isPaused :: "'b tts \<Rightarrow> bool" where "isPaused s \<longleftrightarrow> ts_state s = Paused"

section \<open>Handlers of the audio element\<close>

text \<open>A handler belongs to the URL it captured; it does nothing once another one is current.\<close>

definition handlerActive :: "'b tts \<Rightarrow> bool" where
  "handlerActive s \<longleftrightarrow> (case ts_audio s of
     Some a \<Rightarrow> (case el_handlers a of Some (u, _) \<Rightarrow> ts_audioUrl s = Some u | None \<Rightarrow> False) | None \<Rightarrow> False)"

definition showMark :: "real \<Rightarrow> jsnum \<Rightarrow> 'b tts \<Rightarrow> 'b tts" where
  "showMark currentTime duration s =
    (case updateCurrentMark (ts_marks s) (ts_boundaries s) currentTime duration (ts_markIndex s) of
       (i, Some (m, k)) \<Rightarrow> call (MarkChanged m k) (s\<lparr>ts_markIndex := i\<rparr>)
     | (i, None) \<Rightarrow> s\<lparr>ts_markIndex := i\<rparr>)"

definition onplay :: "real \<Rightarrow> jsnum \<Rightarrow> 'b tts \<Rightarrow> 'b tts" where
  "onplay currentTime duration s =
    (if \<not> handlerActive s then s
     else if \<not> ts_wants s then pauseElement s
     else showMark currentTime duration (setState Playing (s\<lparr>ts_replacing := False\<rparr>)))"

definition elementEnded :: "'b tts \<Rightarrow> bool" where
  "elementEnded s \<longleftrightarrow> (case ts_audio s of Some a \<Rightarrow> el_ended a | None \<Rightarrow> False)"

definition elementPaused :: "'b tts \<Rightarrow> bool" where
  "elementPaused s \<longleftrightarrow> (case ts_audio s of Some a \<Rightarrow> el_paused a | None \<Rightarrow> False)"

definition onended :: "real \<Rightarrow> 'b tts \<Rightarrow> 'b tts" where
  "onended now s =
    (if \<not> handlerActive s \<or> \<not> elementEnded s then s
     else let s1 = s\<lparr>ts_lastEndedAt := Some now, ts_preloadTriggered := False\<rparr> in
       if ts_state s1 = Playing then call Ended s1 else s1)"

definition onerror :: "'b tts \<Rightarrow> 'b tts" where
  "onerror s = (if \<not> handlerActive s then s else setState Paused (s\<lparr>ts_replacing := False\<rparr>))"

definition onpause :: "'b tts \<Rightarrow> 'b tts" where
  "onpause s =
    (if \<not> handlerActive s \<or> ts_replacing s \<or> \<not> elementPaused s \<or> elementEnded s then s
     else if ts_state s = Playing then setState Paused s else s)"

definition ontimeupdate :: "real \<Rightarrow> jsnum \<Rightarrow> 'b tts \<Rightarrow> 'b tts" where
  "ontimeupdate currentTime duration s =
    (if \<not> handlerActive s then s
     else
      let d = (case duration of Fin x \<Rightarrow> x | _ \<Rightarrow> 0);
          s1 = call (TimeUpdated currentTime d) (showMark currentTime duration s) in
      if shouldTriggerPreload (ts_preloadTriggered s1)
          (getAdaptivePreloadConfig (pl_samples (ts_preload s1)) (ts_misses s1) d) currentTime d
      then call PreloadTriggered (s1\<lparr>ts_preloadTriggered := True\<rparr>) else s1)"

section \<open>Speaking\<close>

definition AbortError :: js_error where "AbortError = NamedError (js ''AbortError'')"

definition wait :: "ttsPending \<Rightarrow> 'b tts \<Rightarrow> 'b tts" where
  "wait p s = s\<lparr>ts_pending := ts_pending s @ [p]\<rparr>"

definition speakFailed :: "nat \<Rightarrow> js_error \<Rightarrow> 'b tts \<Rightarrow> 'b tts" where
  "speakFailed req e s =
    call (Rejected e) (if req = ts_requestId s then setState Paused (s\<lparr>ts_replacing := False\<rparr>) else s)"

definition playAudio :: "'b \<Rightarrow> nat \<Rightarrow> ustring \<Rightarrow> 'b tts \<Rightarrow> 'b tts" where
  "playAudio blob req ssml s =
    (let a = getOrCreateAudio s; u = length (ts_blobs s);
         s1 = s\<lparr>ts_blobs := ts_blobs s @ [blob], ts_audioUrl := Some u, ts_audioSSML := ts_currentSSML s,
                ts_audioSpeechId := ts_speechId s, ts_markIndex := -1,
                ts_audio := Some (a\<lparr>el_src := Some u, el_ended := False, el_error := False, el_paused := False,
                  el_handlers := Some (u, req)\<rparr>),
                ts_revoked := ts_revoked s @ (case ts_audioUrl s of Some v \<Rightarrow> [v] | None \<Rightarrow> [])\<rparr> in
     wait (AwaitPlay req ssml) s1)"

definition speakReady :: "nat \<Rightarrow> ustring \<Rightarrow> ttsMark list \<Rightarrow> 'b \<Rightarrow> 'b tts \<Rightarrow> 'b tts" where
  "speakReady req ssml speechMarks blob s =
    (if req \<noteq> ts_requestId s then speakFailed req AbortError s
     else playAudio blob req ssml
       (s\<lparr>ts_marks := speechMarks, ts_boundaries := markBoundaries speechMarks,
          ts_preload := cacheAudio ssml blob (ts_preload s)\<rparr>))"

definition fetchAudioBlob :: "nat \<Rightarrow> ustring \<Rightarrow> ttsMark list \<Rightarrow> real \<Rightarrow> 'b tts \<Rightarrow> 'b tts" where
  "fetchAudioBlob req ssml speechMarks now s =
    (case freshController s of
       (c, s1) \<Rightarrow> wait (AwaitFetch req ssml speechMarks c now) (s1\<lparr>ts_abort := Some c\<rparr>))"

definition speakWithAudio :: "nat \<Rightarrow> ustring \<Rightarrow> ttsMark list \<Rightarrow> bool \<Rightarrow> 'b option \<Rightarrow> real \<Rightarrow> 'b tts \<Rightarrow> 'b tts" where
  "speakWithAudio req ssml speechMarks isContinuous cached now s =
    (case takePreloaded ssml (ts_preload s) of
       (preloaded, pl) \<Rightarrow>
        (let s1 = s\<lparr>ts_preload := pl\<rparr> in
         case (case cached of Some b \<Rightarrow> Some b | None \<Rightarrow> preloaded) of
           None \<Rightarrow> fetchAudioBlob req ssml speechMarks now
             (s1\<lparr>ts_misses := ts_misses s1 + (if isContinuous then 1 else 0)\<rparr>)
         | Some blob \<Rightarrow> speakReady req ssml speechMarks blob (s1\<lparr>ts_misses := 0\<rparr>)))"

definition speechMarksOf :: "ustring \<Rightarrow> ttsMark list \<Rightarrow> ttsMark list" where
  "speechMarksOf ssml marks =
    (if marks \<noteq> [] then marks else [\<lparr>mk_name = js ''0'', mk_text = stripSSML ssml, mk_weight = None\<rparr>])"

text \<open>The state changes of \<^verbatim>\<open>speak\<close> before it looks for audio.\<close>

definition speakBegin :: "ustring \<Rightarrow> real \<Rightarrow> 'b tts \<Rightarrow> 'b tts" where
  "speakBegin ssml now s =
    (let s1 = claimFocus s;
         s2 = abortController (ts_wait s1) (s1\<lparr>ts_requestId := ts_requestId s1 + 1\<rparr>) in
     case freshController s2 of
       (c, s3) \<Rightarrow>
        pauseElement (abortController (ts_abort s3)
          (s3\<lparr>ts_wait := Some c,
              ts_sessionStartedAt := (case ts_sessionStartedAt s3 of Some t \<Rightarrow> Some t | None \<Rightarrow> Some now),
              ts_speechId := ts_speechId s3 + 1, ts_wants := True, ts_currentSSML := ssml,
              ts_preloadTriggered := False, ts_replacing := True\<rparr>)))"

definition speak :: "ustring \<Rightarrow> ttsMark list \<Rightarrow> bool \<Rightarrow> real \<Rightarrow> 'b tts \<Rightarrow> 'b tts" where
  "speak ssml marks isContinuous now s =
    (if isSSMLTooLarge ssml then call (Rejected OtherThrown) s
     else
      let s1 = speakBegin ssml now s; req = ts_requestId s1; speechMarks = speechMarksOf ssml marks in
      case readCache ssml (ts_preload s1) of
        (cached, pl) \<Rightarrow>
         (let s2 = s1\<lparr>ts_preload := pl\<rparr> in
          case (cached, mapGet (pl_promises pl) ssml) of
            (None, Some i) \<Rightarrow> wait (AwaitPrefetch req ssml speechMarks isContinuous i) s2
          | _ \<Rightarrow> speakWithAudio req ssml speechMarks isContinuous cached now s2))"

text \<open>The ends of what is awaited. A prefetch promise only resolves; the wait for it is rejected when its
  controller is aborted, which has no effect beyond the rejection because a newer command aborted it.\<close>

definition prefetchEnded :: "nat \<Rightarrow> ustring \<Rightarrow> ttsMark list \<Rightarrow> bool \<Rightarrow> real \<Rightarrow> 'b tts \<Rightarrow> 'b tts" where
  "prefetchEnded req ssml speechMarks isContinuous now s =
    (if req \<noteq> ts_requestId s then speakFailed req AbortError s
     else speakWithAudio req ssml speechMarks isContinuous None now s)"

definition fetchAnswered :: "nat \<Rightarrow> ustring \<Rightarrow> ttsMark list \<Rightarrow> nat \<Rightarrow> real \<Rightarrow> js_error + 'b \<Rightarrow> real \<Rightarrow> 'b tts \<Rightarrow> 'b tts" where
  "fetchAnswered req ssml speechMarks c start outcome now s =
    (let s1 = (if ts_abort s = Some c then s\<lparr>ts_abort := None\<rparr> else s) in
     case outcome of
       Inl e \<Rightarrow> speakFailed req e s1
     | Inr blob \<Rightarrow>
        speakReady req ssml speechMarks blob
          (s1\<lparr>ts_preload := (ts_preload s1)\<lparr>pl_samples :=
             recordSynthesisLatency (Fin (now - start)) (pl_samples (ts_preload s1))\<rparr>\<rparr>))"

definition playEnded :: "nat \<Rightarrow> js_error + unit \<Rightarrow> 'b tts \<Rightarrow> 'b tts" where
  "playEnded req outcome s =
    (case outcome of
       Inl e \<Rightarrow> speakFailed req e s
     | Inr _ \<Rightarrow>
        (if req \<noteq> ts_requestId s then speakFailed req AbortError s
         else
          let s1 = setState Playing (s\<lparr>ts_replacing := False\<rparr>) in
          call Resolved (s1\<lparr>ts_sessionPlayed := ts_sessionPlayed s1 \<or> ts_sessionStartedAt s1 \<noteq> None,
            ts_lastEndedAt := None\<rparr>)))"

section \<open>Pausing, resuming, stopping\<close>

definition pause :: "'b tts \<Rightarrow> 'b tts" where
  "pause s =
    (let s1 = abortController (ts_wait s) ((releaseFocus s)\<lparr>ts_wants := False\<rparr>);
         s2 = abortController (ts_abort s1) (s1\<lparr>ts_requestId := ts_requestId s1 + 1\<rparr>) in
     pauseElement (setState Paused (s2\<lparr>ts_abort := None, ts_replacing := False\<rparr>)))"

definition resumeDone :: "nat \<Rightarrow> 'b tts \<Rightarrow> 'b tts" where
  "resumeDone req s =
    (if req \<noteq> ts_requestId s \<or> \<not> ts_wants s then call (Rejected AbortError) s
     else call Resolved (setState Playing s))"

definition resume :: "'b tts \<Rightarrow> 'b tts" where
  "resume s =
    (if \<not> hasCurrentAudio s then call (Rejected OtherThrown) s
     else
      let s1 = claimFocus s; s2 = s1\<lparr>ts_wants := True, ts_requestId := ts_requestId s1 + 1\<rparr> in
      if elementPaused s2
      then wait (AwaitResume (ts_requestId s2))
        (s2\<lparr>ts_audio := map_option (\<lambda>a. a\<lparr>el_paused := False\<rparr>) (ts_audio s2)\<rparr>)
      else resumeDone (ts_requestId s2) s2)"

definition resumeEnded :: "nat \<Rightarrow> js_error + unit \<Rightarrow> 'b tts \<Rightarrow> 'b tts" where
  "resumeEnded req outcome s = (case outcome of Inl e \<Rightarrow> call (Rejected e) s | Inr _ \<Rightarrow> resumeDone req s)"

definition stopElement :: "'b tts \<Rightarrow> 'b tts" where
  "stopElement s = s\<lparr>ts_audio := map_option (\<lambda>a. a\<lparr>el_handlers := None, el_paused := True, el_src := None,
     el_ended := False, el_error := False\<rparr>) (ts_audio s)\<rparr>"

definition stop :: "'b tts \<Rightarrow> 'b tts" where
  "stop s =
    (let s1 = abortController (ts_wait s) ((releaseFocus s)\<lparr>ts_wants := False\<rparr>);
         s2 = abortController (ts_abort s1) (s1\<lparr>ts_wait := None, ts_requestId := ts_requestId s1 + 1\<rparr>);
         s3 = setState Stopped (s2\<lparr>ts_abort := None, ts_replacing := False\<rparr>) in
     (releaseAudioUrl (stopElement s3))
       \<lparr>ts_preloadTriggered := False, ts_markIndex := -1, ts_marks := [], ts_boundaries := [], ts_currentSSML := [],
        ts_audioSSML := [], ts_audioSpeechId := -1, ts_sessionStartedAt := None, ts_sessionPlayed := False,
        ts_lastEndedAt := None\<rparr>)"

text \<open>Another source claims the focus: the narration is paused through its \<^verbatim>\<open>onLoss\<close>.\<close>

definition otherClaims :: "'b tts \<Rightarrow> 'b tts" where
  "otherClaims s = (case claimTTSAudioFocus OtherSource (ts_focus s) of
     (_, lost, f) \<Rightarrow> if lost = Some Narration then pause (s\<lparr>ts_focus := f\<rparr>) else s\<lparr>ts_focus := f\<rparr>)"

section \<open>Events\<close>

datatype 'b tts_event =
    Speak ustring "ttsMark list" bool real
  | Pause | Resume | Stop
  | BeginSession real
  | OtherClaims | OtherReleases
  | ElementChanges bool bool bool
  | OnPlay real jsnum | OnEnded real | OnError | OnPause | OnTimeUpdate real jsnum
  | WaitEnds ttsPending real
  | FetchAnswer ttsPending "js_error + 'b" real
  | PlayEnds ttsPending "js_error + unit"
  | Prefetching "'b preload_event"

definition otherReleases :: "'b tts \<Rightarrow> 'b tts" where
  "otherReleases s = (case af_active (ts_focus s) of
     Some (OtherSource, l) \<Rightarrow> s\<lparr>ts_focus := releaseLease (Some l) (ts_focus s)\<rparr> | _ \<Rightarrow> s)"

definition elementChanges :: "bool \<Rightarrow> bool \<Rightarrow> bool \<Rightarrow> 'b tts \<Rightarrow> 'b tts" where
  "elementChanges p e err s =
    s\<lparr>ts_audio := map_option (\<lambda>a. a\<lparr>el_paused := p, el_ended := e, el_error := err\<rparr>) (ts_audio s)\<rparr>"

definition taken :: "ttsPending \<Rightarrow> 'b tts \<Rightarrow> 'b tts" where
  "taken p s = s\<lparr>ts_pending := remove1 p (ts_pending s)\<rparr>"

fun tts_step :: "'b tts_event \<Rightarrow> 'b tts \<Rightarrow> 'b tts" where
  "tts_step (Speak x ms c now) s = speak x ms c now s"
| "tts_step Pause s = pause s"
| "tts_step Resume s = resume s"
| "tts_step Stop s = stop s"
| "tts_step (BeginSession now) s = beginSession now s"
| "tts_step OtherClaims s = otherClaims s"
| "tts_step OtherReleases s = otherReleases s"
| "tts_step (ElementChanges p e err) s = elementChanges p e err s"
| "tts_step (OnPlay t d) s = onplay t d s"
| "tts_step (OnEnded now) s = onended now s"
| "tts_step OnError s = onerror s"
| "tts_step OnPause s = onpause s"
| "tts_step (OnTimeUpdate t d) s = ontimeupdate t d s"
| "tts_step (WaitEnds p now) s = (if p \<notin> set (ts_pending s) then s else case p of
     AwaitPrefetch req x ms c i \<Rightarrow> prefetchEnded req x ms c now (taken p s) | _ \<Rightarrow> s)"
| "tts_step (FetchAnswer p r now) s = (if p \<notin> set (ts_pending s) then s else case p of
     AwaitFetch req x ms c start \<Rightarrow> fetchAnswered req x ms c start r now (taken p s) | _ \<Rightarrow> s)"
| "tts_step (PlayEnds p r) s = (if p \<notin> set (ts_pending s) then s else case p of
     AwaitPlay req x \<Rightarrow> playEnded req r (taken p s) | AwaitResume req \<Rightarrow> resumeEnded req r (taken p s) | _ \<Rightarrow> s)"
| "tts_step (Prefetching e) s = s\<lparr>ts_preload := preload_step e (ts_preload s)\<rparr>"

text \<open>What the speech service promises: audio it returns for a text is a rendering of it.\<close>

fun honestEvent :: "(ustring \<Rightarrow> 'b \<Rightarrow> bool) \<Rightarrow> 'b tts_event \<Rightarrow> 'b tts \<Rightarrow> bool" where
  "honestEvent R (FetchAnswer (AwaitFetch req x ms c start) (Inr b) now) s = R x b"
| "honestEvent R (Prefetching (Finish i l (Inr b))) s = list_all (\<lambda>r. ru_id r = i \<longrightarrow> R (ru_ssml r) b) (pl_active (ts_preload s))"
| "honestEvent R (Prefetching (Cache x b)) s = R x b"
| "honestEvent R _ s = True"

fun honestRun :: "(ustring \<Rightarrow> 'b \<Rightarrow> bool) \<Rightarrow> 'b tts_event list \<Rightarrow> 'b tts \<Rightarrow> bool" where
  "honestRun R [] s = True"
| "honestRun R (e # evs) s = (honestEvent R e s \<and> honestRun R evs (tts_step e s))"

section \<open>The latest command wins\<close>

text \<open>Every pending call with the present number was made by the latest command, which wants playback and
  holds the focus.\<close>

fun speaks :: "ttsPending \<Rightarrow> ustring option" where
  "speaks (AwaitPrefetch req x ms c i) = Some x"
| "speaks (AwaitFetch req x ms c start) = Some x"
| "speaks (AwaitPlay req x) = Some x"
| "speaks (AwaitResume req) = None"

definition call_ok :: "nat \<Rightarrow> bool \<Rightarrow> ustring \<Rightarrow> ttsPending \<Rightarrow> bool" where
  "call_ok req wants ssml p \<longleftrightarrow> pn_request p \<le> req \<and>
     (pn_request p = req \<longrightarrow> wants \<and> (\<forall>x. speaks p = Some x \<longrightarrow> x = ssml))"

abbreviation pending_ok :: "'b tts \<Rightarrow> ttsPending \<Rightarrow> bool" where
  "pending_ok s \<equiv> call_ok (ts_requestId s) (ts_wants s) (ts_currentSSML s)"

definition intent_inv :: "'b tts \<Rightarrow> bool" where
  "intent_inv s \<longleftrightarrow> list_all (pending_ok s) (ts_pending s) \<and> (ts_state s = Playing \<longrightarrow> ts_wants s) \<and>
     (ts_wants s \<longrightarrow> (\<exists>l. ts_lease s = Some l \<and> af_active (ts_focus s) = Some (Narration, l)))"

lemmas tts_ops = call_def setState_def beginSession_def abortController_def freshController_def pauseElement_def
  releaseAudioUrl_def claimFocus_def releaseFocus_def claimTTSAudioFocus_def wait_def taken_def stopElement_def
  elementChanges_def

lemma intent_cong:
  assumes "intent_inv s" and "set (ts_pending s') \<subseteq> set (ts_pending s)" and "ts_requestId s' = ts_requestId s"
    and "ts_wants s' = ts_wants s" and "ts_currentSSML s' = ts_currentSSML s" and "ts_lease s' = ts_lease s"
    and "ts_focus s' = ts_focus s" and "ts_state s' = Playing \<Longrightarrow> ts_wants s"
  shows "intent_inv s'"
  using assms unfolding intent_inv_def list_all_iff call_ok_def by (metis subsetD)

lemma intent_new:
  assumes "intent_inv s" and "ts_requestId s < ts_requestId s'"
    and "\<And>p. p \<in> set (ts_pending s') \<Longrightarrow> p \<in> set (ts_pending s) \<or> pending_ok s' p"
    and "ts_state s' = Playing \<Longrightarrow> ts_wants s'"
    and "ts_wants s' \<Longrightarrow> \<exists>l. ts_lease s' = Some l \<and> af_active (ts_focus s') = Some (Narration, l)"
  shows "intent_inv s'"
  using assms unfolding intent_inv_def list_all_iff call_ok_def by fastforce

lemma intent_wait:
  assumes "intent_inv s" and "pending_ok s p"
  shows "intent_inv (wait p s)"
  using assms by (auto simp: intent_inv_def list_all_iff call_ok_def wait_def)

lemma intent_taken: "intent_inv s \<Longrightarrow> intent_inv (taken p s)"
  by (rule intent_cong [of s]) (auto simp: taken_def intent_inv_def intro: set_remove1_subset [THEN subsetD])

lemma intent_setState: "intent_inv s \<Longrightarrow> (st = Playing \<Longrightarrow> ts_wants s) \<Longrightarrow> intent_inv (setState st s)"
  by (rule intent_cong [of s]) (auto simp: setState_def call_def split: if_splits)

lemma intent_call [simp]: "intent_inv (call c s) = intent_inv s"
  by (simp add: intent_inv_def call_ok_def call_def)

lemma intent_wants: "intent_inv s \<Longrightarrow> ts_state s = Playing \<Longrightarrow> ts_wants s"
  by (simp add: intent_inv_def)

lemma intent_fields [simp]:
  "intent_inv (s\<lparr>ts_replacing := r\<rparr>) = intent_inv s" "intent_inv (s\<lparr>ts_markIndex := i\<rparr>) = intent_inv s"
  "intent_inv (s\<lparr>ts_audio := a\<rparr>) = intent_inv s" "intent_inv (s\<lparr>ts_preloadTriggered := b\<rparr>) = intent_inv s"
  "intent_inv (s\<lparr>ts_lastEndedAt := t\<rparr>) = intent_inv s" "intent_inv (s\<lparr>ts_preload := pl\<rparr>) = intent_inv s"
  "intent_inv (s\<lparr>ts_misses := n\<rparr>) = intent_inv s" "intent_inv (s\<lparr>ts_abort := c\<rparr>) = intent_inv s"
  "intent_inv (s\<lparr>ts_marks := ms\<rparr>) = intent_inv s" "intent_inv (s\<lparr>ts_boundaries := bs\<rparr>) = intent_inv s"
  "intent_inv (s\<lparr>ts_sessionPlayed := b\<rparr>) = intent_inv s" "intent_inv (s\<lparr>ts_nextController := n\<rparr>) = intent_inv s"
  "intent_inv (s\<lparr>ts_sessionStartedAt := t\<rparr>) = intent_inv s" "intent_inv (s\<lparr>ts_audioUrl := u\<rparr>) = intent_inv s"
  "intent_inv (s\<lparr>ts_blobs := bl\<rparr>) = intent_inv s" "intent_inv (s\<lparr>ts_revoked := us\<rparr>) = intent_inv s"
  "intent_inv (s\<lparr>ts_audioSSML := x\<rparr>) = intent_inv s" "intent_inv (s\<lparr>ts_audioSpeechId := k\<rparr>) = intent_inv s"
  by (simp_all add: intent_inv_def call_ok_def)

lemma intent_showMark [simp]: "intent_inv (showMark t d s) = intent_inv s"
  by (simp add: showMark_def split: prod.splits option.splits)

lemma intent_handlers:
  assumes "intent_inv s"
  shows "intent_inv (onplay t d s)" "intent_inv (onended now s)" "intent_inv (onerror s)" "intent_inv (onpause s)"
    "intent_inv (ontimeupdate t d s)"
  using assms by (auto simp: onplay_def onended_def onerror_def onpause_def ontimeupdate_def Let_def pauseElement_def
      intro!: intent_setState)

lemma intent_speakFailed: "intent_inv s \<Longrightarrow> intent_inv (speakFailed req e s)"
  by (auto simp: speakFailed_def intro!: intent_setState)

lemma intent_playAudio:
  assumes "intent_inv s" and "pending_ok s (AwaitPlay req x)"
  shows "intent_inv (playAudio b req x s)"
  unfolding playAudio_def Let_def by (rule intent_wait) (use assms in simp_all)

lemma intent_speakReady:
  assumes "intent_inv s" and "req = ts_requestId s \<Longrightarrow> ts_wants s \<and> x = ts_currentSSML s"
  shows "intent_inv (speakReady req x ms b s)"
proof (cases "req = ts_requestId s")
  case True
  have "intent_inv (playAudio b req x (s\<lparr>ts_marks := ms, ts_boundaries := markBoundaries ms,
      ts_preload := cacheAudio x b (ts_preload s)\<rparr>))"
    by (rule intent_playAudio) (use assms True in \<open>simp_all add: call_ok_def\<close>)
  then show ?thesis using True by (simp add: speakReady_def)
qed (use assms in \<open>simp add: speakReady_def intent_speakFailed\<close>)

lemma intent_fetchAudioBlob:
  assumes "intent_inv s" and "pending_ok s (AwaitFetch req x ms (ts_nextController s) now)"
  shows "intent_inv (fetchAudioBlob req x ms now s)"
  unfolding fetchAudioBlob_def freshController_def by (simp, rule intent_wait) (use assms in simp_all)

lemma intent_speakWithAudio:
  assumes "intent_inv s" and "req = ts_requestId s" and "ts_wants s" and "x = ts_currentSSML s"
  shows "intent_inv (speakWithAudio req x ms c cached now s)"
proof -
  obtain pre pl where t: "takePreloaded x (ts_preload s) = (pre, pl)" by fastforce
  let ?s = "s\<lparr>ts_preload := pl\<rparr>"
  have "intent_inv (fetchAudioBlob req x ms now (?s\<lparr>ts_misses := n\<rparr>))" for n
    by (rule intent_fetchAudioBlob) (use assms in \<open>simp_all add: call_ok_def\<close>)
  moreover have "intent_inv (fetchAudioBlob req x ms now ?s)"
    by (rule intent_fetchAudioBlob) (use assms in \<open>simp_all add: call_ok_def\<close>)
  moreover have "intent_inv (speakReady req x ms b (?s\<lparr>ts_misses := n\<rparr>))" for n b
    by (rule intent_speakReady) (use assms in simp_all)
  ultimately show ?thesis
    by (simp add: speakWithAudio_def t Let_def split: option.splits)
qed

text \<open>The commands.\<close>

lemma speakBegin_fields:
  "ts_requestId (speakBegin x now s) = ts_requestId s + 1" "ts_wants (speakBegin x now s)"
  "ts_currentSSML (speakBegin x now s) = x" "ts_pending (speakBegin x now s) = ts_pending s"
  "ts_lease (speakBegin x now s) = Some (af_next (ts_focus s))"
  "af_active (ts_focus (speakBegin x now s)) = Some (Narration, af_next (ts_focus s))"
  by (simp_all add: speakBegin_def Let_def tts_ops split: option.splits)

lemma intent_speakBegin: "intent_inv s \<Longrightarrow> intent_inv (speakBegin x now s)"
  by (rule intent_new [of s]) (simp_all add: speakBegin_fields)

lemma intent_speak:
  assumes "intent_inv s"
  shows "intent_inv (speak x ms c now s)"
proof (cases "isSSMLTooLarge x")
  case False
  let ?s = "speakBegin x now s"
  obtain cached pl where t: "readCache x (ts_preload ?s) = (cached, pl)" by fastforce
  have i: "intent_inv (?s\<lparr>ts_preload := pl\<rparr>)" using intent_speakBegin [OF assms] by simp
  have "intent_inv (speakWithAudio (ts_requestId ?s) x m c b now (?s\<lparr>ts_preload := pl\<rparr>))" for m b
    by (rule intent_speakWithAudio [OF i]) (simp_all add: speakBegin_fields)
  moreover have "intent_inv (wait (AwaitPrefetch (ts_requestId ?s) x m c k) (?s\<lparr>ts_preload := pl\<rparr>))" for m k
    by (rule intent_wait [OF i]) (simp add: speakBegin_fields call_ok_def)
  ultimately show ?thesis
    using False by (simp add: speak_def Let_def t split: option.splits)
qed (use assms in \<open>simp add: speak_def\<close>)

lemma pause_fields:
  "ts_requestId (pause s) = ts_requestId s + 1" "\<not> ts_wants (pause s)" "ts_pending (pause s) = ts_pending s"
  "ts_state (pause s) = Paused"
  by (simp_all add: pause_def Let_def tts_ops split: option.splits)

lemma stop_fields:
  "ts_requestId (stop s) = ts_requestId s + 1" "\<not> ts_wants (stop s)" "ts_pending (stop s) = ts_pending s"
  "ts_state (stop s) = Stopped"
  by (simp_all add: stop_def Let_def tts_ops split: option.splits)

lemma intent_pause_stop: "intent_inv s \<Longrightarrow> intent_inv (pause s)" "intent_inv s \<Longrightarrow> intent_inv (stop s)"
  by (rule intent_new [of s]; simp add: pause_fields stop_fields)+

lemma intent_resumeDone: "intent_inv s \<Longrightarrow> intent_inv (resumeDone req s)"
  by (simp add: resumeDone_def intent_setState)

lemma intent_resume:
  assumes "intent_inv s"
  shows "intent_inv (resume s)"
proof -
  let ?s = "(claimFocus s)\<lparr>ts_wants := True, ts_requestId := ts_requestId (claimFocus s) + 1\<rparr>"
  have f: "ts_requestId ?s = ts_requestId s + 1" "ts_wants ?s" "ts_pending ?s = ts_pending s" "ts_state ?s = ts_state s"
    "ts_lease ?s = Some (af_next (ts_focus s))" "af_active (ts_focus ?s) = Some (Narration, af_next (ts_focus s))"
    by (simp_all add: tts_ops)
  then have i: "intent_inv ?s" by (intro intent_new [OF assms]) simp_all
  have "intent_inv (wait (AwaitResume (ts_requestId ?s)) (?s\<lparr>ts_audio := a\<rparr>))" for a
    by (rule intent_wait) (use i f in \<open>simp_all add: call_ok_def\<close>)
  then show ?thesis
    using assms intent_resumeDone [OF i] by (simp add: resume_def Let_def)
qed

lemma intent_otherClaims:
  assumes "intent_inv s"
  shows "intent_inv (otherClaims s)"
proof (cases "af_active (ts_focus s)")
  case None
  then have "\<not> ts_wants s" using assms by (auto simp: intent_inv_def)
  with assms None show ?thesis by (simp add: otherClaims_def claimTTSAudioFocus_def intent_inv_def)
next
  case (Some p)
  obtain ow l where p: "p = (ow, l)" by fastforce
  let ?f = "\<lparr>af_active = Some (OtherSource, af_next (ts_focus s)), af_next = af_next (ts_focus s) + 1\<rparr>"
  show ?thesis
  proof (cases ow)
    case Narration
    have "intent_inv (pause (s\<lparr>ts_focus := ?f\<rparr>))"
      by (rule intent_new [OF assms]) (simp_all add: pause_fields)
    then show ?thesis using Some p Narration by (simp add: otherClaims_def claimTTSAudioFocus_def)
  next
    case OtherSource
    then have "\<not> ts_wants s" using assms Some p by (auto simp: intent_inv_def)
    with assms Some p OtherSource show ?thesis by (simp add: otherClaims_def claimTTSAudioFocus_def intent_inv_def)
  qed
qed

lemma intent_otherReleases: "intent_inv s \<Longrightarrow> intent_inv (otherReleases s)"
  by (auto simp: otherReleases_def intent_inv_def split: option.splits focusOwner.splits)

lemma intent_pendings:
  assumes "intent_inv s" and "p \<in> set (ts_pending s)"
  shows "intent_inv (taken p s)" and "pending_ok (taken p s) p"
  using assms intent_taken [OF assms(1)] by (auto simp: intent_inv_def list_all_iff taken_def)

lemma intent_ends:
  assumes "intent_inv s"
  shows "pending_ok s (AwaitPrefetch req x ms c k) \<Longrightarrow> intent_inv (prefetchEnded req x ms c now s)"
    and "pending_ok s (AwaitFetch req x ms ctl start) \<Longrightarrow> intent_inv (fetchAnswered req x ms ctl start r now s)"
    and "pending_ok s (AwaitPlay req x) \<Longrightarrow> intent_inv (playEnded req r' s)"
    and "intent_inv (resumeEnded req r' s)"
proof -
  show "intent_inv (prefetchEnded req x ms c now s)" if "pending_ok s (AwaitPrefetch req x ms c k)"
    using assms that by (auto simp: prefetchEnded_def call_ok_def intent_speakFailed intent_speakWithAudio)
  show "intent_inv (playEnded req r' s)" if "pending_ok s (AwaitPlay req x)"
    using assms that by (cases r') (auto simp: playEnded_def Let_def call_ok_def intent_speakFailed intent_setState)
  show "intent_inv (resumeEnded req r' s)"
    using assms by (cases r') (simp_all add: resumeEnded_def intent_resumeDone)
  assume p: "pending_ok s (AwaitFetch req x ms ctl start)"
  let ?s = "if ts_abort s = Some ctl then s\<lparr>ts_abort := None\<rparr> else s"
  have "intent_inv (speakReady req x ms b (?s\<lparr>ts_preload := pl\<rparr>))" for b pl
    by (rule intent_speakReady) (use assms p in \<open>simp_all add: call_ok_def\<close>)
  moreover have "intent_inv (speakFailed req e ?s)" for e by (rule intent_speakFailed) (use assms in simp)
  ultimately show "intent_inv (fetchAnswered req x ms ctl start r now s)"
    by (cases r) (simp_all add: fetchAnswered_def Let_def)
qed

lemma intent_step: "intent_inv s \<Longrightarrow> intent_inv (tts_step e s)"
proof (cases e)
  case (WaitEnds p now)
  assume i: "intent_inv s"
  show ?thesis
  proof (cases p)
    case (AwaitPrefetch req x ms c k)
    then show ?thesis
      using WaitEnds i intent_pendings [OF i, of p] intent_ends(1) [of "taken p s" req x ms c k now] by simp
  qed (use WaitEnds i in auto)
next
  case (FetchAnswer p r now)
  assume i: "intent_inv s"
  show ?thesis
  proof (cases p)
    case (AwaitFetch req x ms c start)
    then show ?thesis
      using FetchAnswer i intent_pendings [OF i, of p] intent_ends(2) [of "taken p s" req x ms c start r now] by simp
  qed (use FetchAnswer i in auto)
next
  case (PlayEnds p r)
  assume i: "intent_inv s"
  show ?thesis
  proof (cases p)
    case (AwaitPlay req x)
    then show ?thesis
      using PlayEnds i intent_pendings [OF i, of p] intent_ends(3) [of "taken p s" req x r] by simp
  next
    case (AwaitResume req)
    then show ?thesis
      using PlayEnds i intent_pendings [OF i, of p] intent_ends(4) [of "taken p s" req r] by simp
  qed (use PlayEnds i in auto)
qed (simp_all add: intent_speak intent_pause_stop intent_resume intent_otherClaims intent_otherReleases intent_handlers
    beginSession_def elementChanges_def)

lemma intent_run: "intent_inv (fold tts_step evs tts_init)"
proof -
  have "intent_inv (tts_init :: 'a tts)" by (simp add: intent_inv_def tts_init_def)
  moreover have "intent_inv (fold tts_step evs s)" if "intent_inv s" for s :: "'a tts"
    using that by (induction evs arbitrary: s) (simp_all add: intent_step)
  ultimately show ?thesis by blast
qed

section \<open>Silence\<close>

fun startsPlayback :: "'b tts_event \<Rightarrow> bool" where
  "startsPlayback (Speak x ms c now) = True"
| "startsPlayback Resume = True"
| "startsPlayback _ = False"

text \<open>A step after which playback is still unwanted, no audio has been put into the element, and no callback
  said that it plays or that a passage has ended.\<close>

definition quiet :: "'b tts \<Rightarrow> 'b tts \<Rightarrow> bool" where
  "quiet s s' \<longleftrightarrow> \<not> ts_wants s' \<and> ts_blobs s' = ts_blobs s \<and>
     (\<exists>xs. ts_log s' = ts_log s @ xs \<and> Ended \<notin> set xs \<and> StateChanged Playing \<notin> set xs)"

lemma quiet_trans: "quiet s s' \<Longrightarrow> quiet s' s'' \<Longrightarrow> quiet s s''"
  unfolding quiet_def by (metis Un_iff append_assoc set_append)

lemma quiet_same: "\<not> ts_wants s' \<Longrightarrow> ts_blobs s' = ts_blobs s \<Longrightarrow> ts_log s' = ts_log s \<Longrightarrow> quiet s s'"
  by (simp add: quiet_def)

lemma quiet_call: "\<not> ts_wants s \<Longrightarrow> c \<noteq> Ended \<Longrightarrow> c \<noteq> StateChanged Playing \<Longrightarrow> quiet s (call c s)"
  by (auto simp: quiet_def call_def)

lemma quiet_setState:
  assumes "\<not> ts_wants s" and "st \<noteq> Playing"
  shows "quiet s (setState st s)"
  using assms by (auto simp: quiet_def setState_def call_def)

lemma quiet_showMark: "\<not> ts_wants s \<Longrightarrow> quiet s (showMark t d s)"
  by (auto simp: quiet_def showMark_def call_def split: prod.splits option.splits)

lemma quiet_speakFailed: "\<not> ts_wants s \<Longrightarrow> quiet s (speakFailed req e s)"
  by (auto simp: quiet_def speakFailed_def setState_def call_def)

lemma quiet_handlers:
  assumes "\<not> ts_wants s" and "ts_state s \<noteq> Playing"
  shows "quiet s (onplay t d s)" "quiet s (onended now s)" "quiet s (onerror s)" "quiet s (onpause s)"
    "quiet s (ontimeupdate t d s)"
proof -
  show "quiet s (onplay t d s)" using assms by (simp add: onplay_def pauseElement_def quiet_same)
  show "quiet s (onended now s)" using assms by (simp add: onended_def Let_def quiet_same)
  show "quiet s (onpause s)" using assms by (simp add: onpause_def quiet_same)
  have "quiet (s\<lparr>ts_replacing := False\<rparr>) (setState Paused (s\<lparr>ts_replacing := False\<rparr>))"
    using assms by (intro quiet_setState) simp_all
  then have "quiet s (setState Paused (s\<lparr>ts_replacing := False\<rparr>))" by (simp add: quiet_def)
  then show "quiet s (onerror s)" using assms by (simp add: onerror_def quiet_same)
  have m: "quiet s (showMark t d s)" using assms(1) by (rule quiet_showMark)
  then have "\<not> ts_wants (showMark t d s)" by (simp add: quiet_def)
  then have "quiet s (call (TimeUpdated t x) (showMark t d s))" for x
    by (intro quiet_trans [OF m] quiet_call) simp_all
  moreover have "quiet s (call PreloadTriggered (s'\<lparr>ts_preloadTriggered := True\<rparr>))" if "quiet s s'" for s'
    using that by (auto simp: quiet_def call_def)
  ultimately show "quiet s (ontimeupdate t d s)"
    using assms by (simp add: ontimeupdate_def Let_def quiet_same)
qed

lemma quiet_commands:
  assumes "\<not> ts_wants s"
  shows "quiet s (pause s)" "quiet s (stop s)" "quiet s (otherClaims s)" "quiet s (otherReleases s)"
proof -
  have pause: "quiet t (pause t)" for t :: "'b tts"
    by (simp add: pause_def quiet_def Let_def tts_ops split: option.splits)
  show "quiet s (pause s)" by (rule pause)
  show "quiet s (stop s)" by (simp add: stop_def quiet_def Let_def tts_ops split: option.splits)
  have "quiet s (pause (s\<lparr>ts_focus := f\<rparr>))" for f using pause [of "s\<lparr>ts_focus := f\<rparr>"] by (simp add: quiet_def)
  then show "quiet s (otherClaims s)"
    using assms by (simp add: otherClaims_def claimTTSAudioFocus_def quiet_same split: option.splits prod.splits)
  show "quiet s (otherReleases s)"
    using assms by (simp add: otherReleases_def quiet_same split: option.splits prod.splits focusOwner.splits)
qed

lemma outdated:
  assumes "intent_inv s" and "\<not> ts_wants s" and "p \<in> set (ts_pending s)"
  shows "pn_request p \<noteq> ts_requestId s"
  using assms by (auto simp: intent_inv_def list_all_iff call_ok_def)

lemma quiet_ends:
  assumes "\<not> ts_wants s" and "req \<noteq> ts_requestId s"
  shows "quiet s (prefetchEnded req x ms c now s)" "quiet s (fetchAnswered req x ms ctl start r now s)"
    "quiet s (playEnded req r' s)" "quiet s (resumeEnded req r' s)"
  using assms
  by (auto simp: prefetchEnded_def fetchAnswered_def playEnded_def resumeEnded_def resumeDone_def speakReady_def
      quiet_def speakFailed_def call_def Let_def split: sum.splits)

lemma quiet_step:
  assumes i: "intent_inv s" and w: "\<not> ts_wants s" and e: "\<not> startsPlayback e"
  shows "quiet s (tts_step e s)"
proof -
  have st: "ts_state s \<noteq> Playing" using i w by (auto simp: intent_inv_def)
  have t: "\<not> ts_wants (taken p s)" "ts_requestId (taken p s) = ts_requestId s" "quiet (taken p s) s' = quiet s s'" for p s'
    using w by (simp_all add: taken_def quiet_def)
  note ends = quiet_ends [of "taken p s" for p, unfolded t(2,3), OF t(1)]
  show ?thesis
  proof (cases e)
    case (WaitEnds p now)
    then show ?thesis using outdated [OF i w, of p] ends(1) w by (cases p) (simp_all add: quiet_same)
  next
    case (FetchAnswer p r now)
    then show ?thesis using outdated [OF i w, of p] ends(2) w by (cases p) (simp_all add: quiet_same)
  next
    case (PlayEnds p r)
    then show ?thesis using outdated [OF i w, of p] ends(3,4) w by (cases p) (simp_all add: quiet_same)
  qed (use e w st in \<open>simp_all add: quiet_commands quiet_handlers beginSession_def elementChanges_def quiet_same\<close>)
qed

lemma quiet_run:
  assumes "intent_inv s" and "\<not> ts_wants s" and "list_all (\<lambda>e. \<not> startsPlayback e) later"
  shows "quiet s (fold tts_step later s) \<and> intent_inv (fold tts_step later s)"
  using assms
proof (induction later arbitrary: s)
  case (Cons e later)
  have q: "quiet s (tts_step e s)" using Cons.prems by (intro quiet_step) simp_all
  then have "\<not> ts_wants (tts_step e s)" by (simp add: quiet_def)
  then have "quiet (tts_step e s) (fold tts_step later (tts_step e s)) \<and>
      intent_inv (fold tts_step later (tts_step e s))"
    using Cons.IH [of "tts_step e s"] Cons.prems intent_step [of s e] by simp
  with quiet_trans [OF q] show ?case by simp
qed (simp add: quiet_same)

section \<open>The audio heard\<close>

text \<open>Everything stored for a text is a rendering of it.\<close>

definition stored_ok :: "(ustring \<Rightarrow> 'b \<Rightarrow> bool) \<Rightarrow> 'b preload_st \<Rightarrow> bool" where
  "stored_ok R pl \<longleftrightarrow> (\<forall>(x, b) \<in> set (pl_queue pl). R x b) \<and> (\<forall>(x, e) \<in> set (cache (pl_cache pl)). R x (fst e))"

lemma stored_ok_mono:
  assumes "stored_ok R pl" and "set (pl_queue pl') \<subseteq> set (pl_queue pl)"
    and "set (cache (pl_cache pl')) \<subseteq> set (cache (pl_cache pl))"
  shows "stored_ok R pl'"
  using assms unfolding stored_ok_def by blast

lemma pump_stored [simp]: "pl_queue (pumpPreloadQueue s) = pl_queue s" "pl_cache (pumpPreloadQueue s) = pl_cache s"
proof (induction s rule: pumpPreloadQueue.induct)
  case (1 s)
  { case 1 then show ?case using "1.IH" by (subst pumpPreloadQueue.simps) (auto simp: startTask_def Let_def split: prod.splits) }
  { case 2 then show ?case using "1.IH" by (subst pumpPreloadQueue.simps) (auto simp: startTask_def Let_def split: prod.splits) }
qed

lemma preload_stored [simp]: "pl_queue (preload x s) = pl_queue s" "pl_cache (preload x s) = pl_cache s"
  by (simp_all add: preload_def Let_def)

lemma fold_preload_stored [simp]: "pl_queue (fold preload xs s) = pl_queue s" "pl_cache (fold preload xs s) = pl_cache s"
  by (induction xs arbitrary: s) simp_all

lemma cancel_stored [simp]: "pl_queue (cancelPreload x s) = pl_queue s" "pl_cache (cancelPreload x s) = pl_cache s"
  by (simp_all add: cancelPreload_def dropPending_def resolveTasks_def abortRuns_def Let_def split: option.splits)

lemma fold_cancel_stored [simp]:
  "pl_queue (fold cancelPreload xs s) = pl_queue s" "pl_cache (fold cancelPreload xs s) = pl_cache s"
  by (induction xs arbitrary: s) simp_all

lemma cancelAll_stored [simp]: "pl_queue (cancelAllPreloads s) = pl_queue s" "pl_cache (cancelAllPreloads s) = pl_cache s"
  by (simp_all add: cancelAllPreloads_def dropPending_def resolveTasks_def abortRuns_def Let_def)

lemma set_delete: "set (mapDelete k m) \<subseteq> set m"
  by (auto simp: AList.delete_eq)

lemma set_update: "set (mapSet k v m) \<subseteq> insert (k, v) (set m)"
  by (induction m) auto

lemma set_tl: "set (tl xs) \<subseteq> set xs"
  by (cases xs) auto

lemma set_cache_set: "set (cache (lru_set k v rel c)) \<subseteq> insert (k, v, rel) (set (cache c))"
proof -
  have evict: "set (cache (lru_evict c')) \<subseteq> set (cache c')" for c' :: "('a, 'r) lru"
    by (auto simp: lru_evict_def AList.delete_eq split: list.splits)
  have "set (cache (lru_replace k c)) \<subseteq> set (cache c)" using set_delete by (simp add: cache_lru_replace)
  then show ?thesis
    using evict set_update unfolding lru_set_def Let_def by (fastforce dest!: subsetD)
qed

lemma stored_cacheAudio:
  assumes "stored_ok R pl" and "R x b"
  shows "stored_ok R (cacheAudio x b pl)"
  using assms set_cache_set [of x b None "pl_cache pl"] unfolding stored_ok_def cacheAudio_def by auto

lemma set_cache_get: "set (cache (snd (lru_get k c))) \<subseteq> set (cache c)"
  unfolding cache_lru_get using set_delete map_of_SomeD by (fastforce split: option.splits)

lemma stored_readCache:
  assumes "stored_ok R pl" and "readCache x pl = (r, pl')"
  shows "stored_ok R pl'" and "r = Some b \<Longrightarrow> R x b"
proof -
  have pl': "pl' = pl\<lparr>pl_cache := snd (lru_get x (pl_cache pl))\<rparr>" and r: "r = fst (lru_get x (pl_cache pl))"
    using assms(2) by (auto simp: readCache_def split: prod.splits)
  show "stored_ok R pl'" by (rule stored_ok_mono [OF assms(1)]) (use set_cache_get in \<open>simp_all add: pl'\<close>)
  assume "r = Some b"
  then obtain e where "mapGet (cache (pl_cache pl)) x = Some e" "b = fst e"
    using r by (auto simp: lru_get_def split: option.splits)
  then show "R x b" using assms(1) map_of_SomeD unfolding stored_ok_def by fastforce
qed

lemma stored_takePreloaded:
  assumes "stored_ok R pl" and "takePreloaded x pl = (r, pl')"
  shows "stored_ok R pl'" and "r = Some b \<Longrightarrow> R x b"
proof -
  let ?q = "pl_queue pl"
  have "set (takeWhile (\<lambda>p. fst p \<noteq> x) ?q) \<subseteq> set ?q" by (meson set_takeWhileD subsetI)
  moreover have "set (tl (dropWhile (\<lambda>p. fst p \<noteq> x) ?q)) \<subseteq> set ?q" by (meson set_dropWhileD set_tl subset_iff)
  ultimately have sub: "set (takeWhile (\<lambda>p. fst p \<noteq> x) ?q @ tl (dropWhile (\<lambda>p. fst p \<noteq> x) ?q)) \<subseteq> set ?q" by simp
  show "stored_ok R pl'"
    using assms sub by (intro stored_ok_mono [OF assms(1)]) (auto simp: takePreloaded_def split: option.splits)
  assume "r = Some b"
  then have "mapGet ?q x = Some b" using assms(2) by (auto simp: takePreloaded_def split: option.splits)
  then show "R x b" using assms(1) map_of_SomeD unfolding stored_ok_def by fastforce
qed

lemma trim_queue_set: "set (trimPreloadQueue q) \<subseteq> set q"
  unfolding trimPreloadQueue_def by (rule set_drop_subset)

lemma stored_finish:
  assumes "stored_ok R pl" and "\<And>b r. out = Inr b \<Longrightarrow> r \<in> set (pl_active pl) \<Longrightarrow> ru_id r = i \<Longrightarrow> R (ru_ssml r) b"
  shows "stored_ok R (runPreloadTask i l out pl)"
proof (cases "filter (\<lambda>r. ru_id r = i) (pl_active pl)")
  case (Cons r rs)
  then have "r \<in> set (filter (\<lambda>r. ru_id r = i) (pl_active pl))" by simp
  then have r: "r \<in> set (pl_active pl)" "ru_id r = i" by simp_all
  let ?s = "storePreloaded r l out pl"
  have q: "stored_ok R ?s"
    using assms r trim_queue_set
    by (fastforce simp: storePreloaded_def stored_ok_def split: sum.splits dest!: subsetD)
  have "stored_ok R (runPreloadTask i l out pl) = stored_ok R ?s"
    by (simp add: runPreloadTask_def Cons Let_def stored_ok_def resolveTasks_def releaseController_def)
  with q show ?thesis by simp
qed (use assms(1) in \<open>simp add: runPreloadTask_def\<close>)

lemma stored_step:
  assumes "stored_ok R (ts_preload s)" and "honestEvent R (Prefetching e) s"
  shows "stored_ok R (preload_step e (ts_preload s))"
proof (cases e)
  case (Finish i l out)
  then show ?thesis using assms by (cases out) (auto simp: list_all_iff intro!: stored_finish)
next
  case (ReadCache x)
  then show ?thesis using stored_readCache(1) [OF assms(1), of x] by (cases "readCache x (ts_preload s)") simp
next
  case (Take x)
  then show ?thesis using stored_takePreloaded(1) [OF assms(1), of x] by (cases "takePreloaded x (ts_preload s)") simp
next
  case (Cache x b)
  then show ?thesis using assms by (simp add: stored_cacheAudio)
qed (use assms(1) in \<open>auto simp: stored_ok_def preloadMultiple_def forgetPromise_def cleanupIrrelevantPreloads_def
    clearPreloadQueue_def clearPreload_def lru_clear_def Let_def dropPending_def resolveTasks_def\<close>)

text \<open>Object URLs: each one created is the current one or revoked exactly once; the current one is the source
  of the element and has a rendering of the text it was made for.\<close>

definition url_ok :: "(ustring \<Rightarrow> 'b \<Rightarrow> bool) \<Rightarrow> nat option \<Rightarrow> 'b list \<Rightarrow> nat list \<Rightarrow> nat option option \<Rightarrow> ustring \<Rightarrow> bool" where
  "url_ok R url blobs revoked src x \<longleftrightarrow>
     mset revoked + (case url of Some u \<Rightarrow> {#u#} | None \<Rightarrow> {#}) = mset [0..<length blobs] \<and>
     (case url of Some u \<Rightarrow> R x (blobs ! u) \<and> src = Some (Some u) | None \<Rightarrow> True)"

definition audio_inv :: "(ustring \<Rightarrow> 'b \<Rightarrow> bool) \<Rightarrow> 'b tts \<Rightarrow> bool" where
  "audio_inv R s \<longleftrightarrow> stored_ok R (ts_preload s) \<and>
     url_ok R (ts_audioUrl s) (ts_blobs s) (ts_revoked s) (map_option el_src (ts_audio s)) (ts_audioSSML s)"

definition same_audio :: "'b tts \<Rightarrow> 'b tts \<Rightarrow> bool" where
  "same_audio s s' \<longleftrightarrow> ts_preload s' = ts_preload s \<and> ts_audioUrl s' = ts_audioUrl s \<and> ts_blobs s' = ts_blobs s \<and>
     ts_revoked s' = ts_revoked s \<and> map_option el_src (ts_audio s') = map_option el_src (ts_audio s) \<and>
     ts_audioSSML s' = ts_audioSSML s"

lemma same_audio_inv: "same_audio s s' \<Longrightarrow> audio_inv R s' = audio_inv R s"
  by (simp add: same_audio_def audio_inv_def)

lemma same_src [simp]: "map_option el_src (map_option (\<lambda>a. a\<lparr>el_paused := p\<rparr>) m) = map_option el_src m"
  "map_option el_src (map_option (\<lambda>a. a\<lparr>el_paused := p, el_ended := e, el_error := r\<rparr>) m) = map_option el_src m"
  by (cases m; simp)+

lemmas same_defs = same_audio_def setState_def call_def pauseElement_def Let_def

lemma same_showMark: "same_audio s (showMark t d s)"
  by (auto simp: same_defs showMark_def split: prod.splits option.splits)

lemma same_handlers:
  "same_audio s (onplay t d s)" "same_audio s (onended now s)" "same_audio s (onerror s)" "same_audio s (onpause s)"
  "same_audio s (ontimeupdate t d s)"
proof -
  have 1: "same_audio s (setState Playing (s\<lparr>ts_replacing := False\<rparr>))" by (simp add: same_defs)
  show "same_audio s (onplay t d s)"
    using same_showMark [of "setState Playing (s\<lparr>ts_replacing := False\<rparr>)" t d] 1
    by (simp add: onplay_def) (simp add: same_audio_def pauseElement_def)
  show "same_audio s (ontimeupdate t d s)"
    using same_showMark [of s t d] by (simp add: ontimeupdate_def Let_def) (simp add: same_audio_def call_def)
qed (simp_all add: same_defs onended_def onerror_def onpause_def)

lemma same_commands:
  "same_audio s (speakBegin x now s)" "same_audio s (pause s)" "same_audio s (resume s)" "same_audio s (otherClaims s)"
  "same_audio s (otherReleases s)" "same_audio s (beginSession now s)" "same_audio s (elementChanges p e err s)"
  "same_audio s (taken q s)" "same_audio s (speakFailed req er s)" "same_audio s (wait q s)"
proof -
  have pause: "same_audio t (pause t)" for t :: "'a tts"
    by (simp add: same_defs pause_def tts_ops split: option.splits)
  then have "same_audio s (pause (s\<lparr>ts_focus := f\<rparr>))" for f
    using pause [of "s\<lparr>ts_focus := f\<rparr>"] by (simp add: same_audio_def)
  then show "same_audio s (otherClaims s)"
    by (simp add: otherClaims_def claimTTSAudioFocus_def split: option.splits prod.splits) (simp add: same_audio_def)
  show "same_audio s (pause s)" by (rule pause)
  show "same_audio s (speakBegin x now s)" by (simp add: same_defs speakBegin_def tts_ops split: option.splits)
  show "same_audio s (resume s)" by (simp add: same_defs resume_def resumeDone_def tts_ops)
qed (simp_all add: same_defs otherReleases_def tts_ops speakFailed_def split: option.splits focusOwner.splits prod.splits)

lemma same_ends: "same_audio s (playEnded req r s)" "same_audio s (resumeEnded req r s)"
  by (cases r; simp add: same_defs playEnded_def speakFailed_def resumeEnded_def resumeDone_def)+

lemma audio_same [simp]:
  "audio_inv R (onplay t d s) = audio_inv R s" "audio_inv R (onended now s) = audio_inv R s"
  "audio_inv R (onerror s) = audio_inv R s" "audio_inv R (onpause s) = audio_inv R s"
  "audio_inv R (ontimeupdate t d s) = audio_inv R s" "audio_inv R (speakBegin x now s) = audio_inv R s"
  "audio_inv R (pause s) = audio_inv R s" "audio_inv R (resume s) = audio_inv R s"
  "audio_inv R (otherClaims s) = audio_inv R s" "audio_inv R (otherReleases s) = audio_inv R s"
  "audio_inv R (beginSession now s) = audio_inv R s" "audio_inv R (elementChanges p e err s) = audio_inv R s"
  "audio_inv R (taken q s) = audio_inv R s" "audio_inv R (speakFailed req er s) = audio_inv R s"
  "audio_inv R (wait q s) = audio_inv R s" "audio_inv R (playEnded req r s) = audio_inv R s"
  "audio_inv R (resumeEnded req r s) = audio_inv R s"
  by (intro same_audio_inv same_handlers same_commands same_ends)+

lemma url_new:
  assumes "url_ok R url blobs revoked src x" and "R y b"
  shows "url_ok R (Some (length blobs)) (blobs @ [b]) (revoked @ (case url of Some v \<Rightarrow> [v] | None \<Rightarrow> [])) (Some (Some (length blobs))) y"
  using assms by (auto simp: url_ok_def split: option.splits)

lemma audio_playAudio:
  assumes "audio_inv R s" and "R (ts_currentSSML s) b"
  shows "audio_inv R (playAudio b req x s)"
  using assms url_new [of R "ts_audioUrl s" "ts_blobs s" "ts_revoked s" "map_option el_src (ts_audio s)" "ts_audioSSML s" "ts_currentSSML s" b]
  by (simp add: playAudio_def Let_def wait_def audio_inv_def)

lemma audio_speakReady:
  assumes "audio_inv R s" and "R x b" and "req = ts_requestId s \<Longrightarrow> x = ts_currentSSML s"
  shows "audio_inv R (speakReady req x ms b s)"
proof (cases "req = ts_requestId s")
  case True
  let ?s = "s\<lparr>ts_marks := ms, ts_boundaries := markBoundaries ms, ts_preload := cacheAudio x b (ts_preload s)\<rparr>"
  have "audio_inv R ?s" using assms(1,2) stored_cacheAudio [of R _ x b] by (simp add: audio_inv_def)
  then have "audio_inv R (playAudio b req x ?s)" by (rule audio_playAudio) (use assms True in simp)
  then show ?thesis using True by (simp add: speakReady_def)
qed (use assms(1) in \<open>simp add: speakReady_def\<close>)

lemma audio_speakWithAudio:
  assumes "audio_inv R s" and "req = ts_requestId s \<Longrightarrow> x = ts_currentSSML s" and "\<And>b. cached = Some b \<Longrightarrow> R x b"
  shows "audio_inv R (speakWithAudio req x ms c cached now s)"
proof -
  obtain pre pl where t: "takePreloaded x (ts_preload s) = (pre, pl)" by fastforce
  have st: "stored_ok R (ts_preload s)" using assms(1) by (simp add: audio_inv_def)
  have s: "audio_inv R (s\<lparr>ts_preload := pl, ts_misses := n\<rparr>)" for n
    using assms(1) stored_takePreloaded(1) [OF st t] by (simp add: audio_inv_def)
  have "audio_inv R (fetchAudioBlob req x ms now (s\<lparr>ts_preload := pl, ts_misses := n\<rparr>))" for n
    using s [of n] by (simp add: fetchAudioBlob_def freshController_def wait_def audio_inv_def)
  moreover have "audio_inv R (speakReady req x ms b (s\<lparr>ts_preload := pl, ts_misses := 0\<rparr>))"
    if "(case cached of Some b \<Rightarrow> Some b | None \<Rightarrow> pre) = Some b" for b
    using that assms(2,3) stored_takePreloaded(2) [OF st t] s
    by (intro audio_speakReady) (auto split: option.splits)
  ultimately show ?thesis
    unfolding speakWithAudio_def t Let_def
    by (cases "case cached of Some b \<Rightarrow> Some b | None \<Rightarrow> pre") simp_all
qed

lemma audio_speak:
  assumes "audio_inv R s"
  shows "audio_inv R (speak x ms c now s)"
proof (cases "isSSMLTooLarge x")
  case True
  then show ?thesis using assms by (simp add: speak_def call_def audio_inv_def)
next
  case False
  let ?s = "speakBegin x now s"
  obtain cached pl where t: "readCache x (ts_preload ?s) = (cached, pl)" by fastforce
  have "audio_inv R ?s" using assms by simp
  then have st: "stored_ok R (ts_preload ?s)" and s: "audio_inv R (?s\<lparr>ts_preload := pl\<rparr>)"
    using stored_readCache(1) [OF _ t, of R] by (simp_all add: audio_inv_def)
  have "audio_inv R (speakWithAudio (ts_requestId ?s) x m c cached now (?s\<lparr>ts_preload := pl\<rparr>))" for m
    by (rule audio_speakWithAudio [OF s]) (use stored_readCache(2) [OF st t] in \<open>simp_all add: speakBegin_fields\<close>)
  moreover have "audio_inv R (wait q (?s\<lparr>ts_preload := pl\<rparr>))" for q
    using s by simp
  ultimately show ?thesis
    using False unfolding speak_def Let_def t by (cases cached; cases "mapGet (pl_promises pl) x") simp_all
qed

lemma audio_ends:
  assumes "audio_inv R s"
  shows "pending_ok s (AwaitPrefetch req x ms c k) \<Longrightarrow> audio_inv R (prefetchEnded req x ms c now s)"
    and "pending_ok s (AwaitFetch req x ms ctl start) \<Longrightarrow> (\<And>b. r = Inr b \<Longrightarrow> R x b) \<Longrightarrow>
      audio_inv R (fetchAnswered req x ms ctl start r now s)"
proof -
  show "audio_inv R (prefetchEnded req x ms c now s)" if "pending_ok s (AwaitPrefetch req x ms c k)"
    using assms that
    by (auto simp: prefetchEnded_def call_ok_def intro!: audio_speakWithAudio)
  assume p: "pending_ok s (AwaitFetch req x ms ctl start)" and r: "\<And>b. r = Inr b \<Longrightarrow> R x b"
  let ?s = "if ts_abort s = Some ctl then s\<lparr>ts_abort := None\<rparr> else s"
  have s: "audio_inv R ?s" "audio_inv R (?s\<lparr>ts_preload := (ts_preload ?s)\<lparr>pl_samples := l\<rparr>\<rparr>)" for l
    using assms by (simp_all add: audio_inv_def stored_ok_def)
  then have "audio_inv R (speakFailed req e ?s)" for e by simp
  moreover have "audio_inv R (speakReady req x ms b (?s\<lparr>ts_preload := (ts_preload ?s)\<lparr>pl_samples := l\<rparr>\<rparr>))"
    if "r = Inr b" for b l
    by (rule audio_speakReady [OF s(2)]) (use p r that in \<open>simp_all add: call_ok_def\<close>)
  ultimately show "audio_inv R (fetchAnswered req x ms ctl start r now s)"
    by (cases r) (simp_all only: fetchAnswered_def Let_def sum.case)
qed

lemma audio_stop:
  assumes "audio_inv R s"
  shows "audio_inv R (stop s)"
proof -
  have f: "ts_audioUrl (stop s) = None" "ts_blobs (stop s) = ts_blobs s" "ts_preload (stop s) = ts_preload s"
    "ts_revoked (stop s) = ts_revoked s @ (case ts_audioUrl s of Some u \<Rightarrow> [u] | None \<Rightarrow> [])"
    by (simp_all add: stop_def Let_def tts_ops split: option.splits)
  show ?thesis using assms by (auto simp: audio_inv_def f url_ok_def split: option.splits)
qed

lemma audio_step:
  assumes a: "audio_inv R s" and i: "intent_inv s" and h: "honestEvent R e s"
  shows "audio_inv R (tts_step e s)"
proof (cases e)
  case (WaitEnds p now)
  show ?thesis
  proof (cases p)
    case (AwaitPrefetch req x ms c k)
    then show ?thesis
      using WaitEnds a intent_pendings(2) [OF i, of p] audio_ends(1) [of R "taken p s" req x ms c k now]
      by simp
  qed (use WaitEnds a in auto)
next
  case (FetchAnswer p r now)
  show ?thesis
  proof (cases p)
    case (AwaitFetch req x ms c start)
    have "\<And>b. r = Inr b \<Longrightarrow> R x b" using h FetchAnswer AwaitFetch by simp
    then show ?thesis
      using FetchAnswer AwaitFetch a intent_pendings(2) [OF i, of p] audio_ends(2) [of R "taken p s" req x ms c start r now]
      by simp
  qed (use FetchAnswer a in auto)
next
  case (PlayEnds p r)
  then show ?thesis using a by (cases p) simp_all
next
  case (Prefetching ev)
  then show ?thesis using a stored_step [of R s ev] h by (simp add: audio_inv_def)
qed (use a audio_speak audio_stop in \<open>simp_all\<close>)

lemma audio_run:
  assumes "honestRun R evs s" and "audio_inv R s" and "intent_inv s"
  shows "audio_inv R (fold tts_step evs s)"
  using assms by (induction evs arbitrary: s) (simp_all add: audio_step intent_step)

section \<open>Properties\<close>

text \<open>
  \<^bold>\<open>C24\<close> (pause and stop are final). After a pause or a stop nothing makes the narration play again until
  the next \<^verbatim>\<open>speak\<close> or \<^verbatim>\<open>resume\<close>: whatever requests, prefetches, \<^verbatim>\<open>play()\<close> promises and media events of earlier
  commands come in late and in which order, the state is not \<^verbatim>\<open>playing\<close>, no audio is put into the element,
  and no callback reports playing or the end of a passage (which would advance the reader).
\<close>

theorem silence_lasts:
  fixes evs later :: "'b tts_event list"
  defines "t \<equiv> fold tts_step evs tts_init"
  assumes "cmd = Pause \<or> cmd = Stop" and "list_all (\<lambda>e. \<not> startsPlayback e) later"
  shows "ts_state (fold tts_step later (tts_step cmd t)) \<noteq> Playing \<and>
    ts_blobs (fold tts_step later (tts_step cmd t)) = ts_blobs (tts_step cmd t) \<and>
    (\<exists>xs. ts_log (fold tts_step later (tts_step cmd t)) = ts_log (tts_step cmd t) @ xs \<and>
      Ended \<notin> set xs \<and> StateChanged Playing \<notin> set xs)"
proof -
  have "intent_inv (tts_step cmd t)" unfolding t_def by (intro intent_step intent_run)
  moreover have "\<not> ts_wants (tts_step cmd t)" using assms(2) by (auto simp: pause_fields stop_fields)
  ultimately have "quiet (tts_step cmd t) (fold tts_step later (tts_step cmd t))"
    and "intent_inv (fold tts_step later (tts_step cmd t))" using quiet_run assms(3) by blast+
  then show ?thesis by (auto simp: quiet_def intent_inv_def)
qed

text \<open>A passage whose audio arrives after the pause.\<close>

definition sampleMarks :: "ttsMark list" where
  "sampleMarks = [\<lparr>mk_name = [], mk_text = [65], mk_weight = Some 1\<rparr>]"

theorem silence_lasts_witness:
  "ts_state (fold tts_step [FetchAnswer (AwaitFetch 1 [65] sampleMarks 1 0) (Inr [65 :: nat]) 1, OnPlay 0 (Fin 1)]
     (tts_step Pause (fold tts_step [Speak [65] sampleMarks False 0] tts_init))) \<noteq> Playing"
  using silence_lasts [of Pause "[FetchAnswer (AwaitFetch 1 [65] sampleMarks 1 0) (Inr [65 :: nat]) 1, OnPlay 0 (Fin 1)]"
      "[Speak [65] sampleMarks False 0]"] by simp

text \<open>
  \<^bold>\<open>C25\<close> (the right text is heard). If the speech service renders the texts it is asked for, then in every
  reachable state with current audio the source of the element is a URL that has not been revoked and
  behind which is a rendering of the text of the latest command, be it fetched, prefetched or cached;
  every other URL ever created has been revoked exactly once; and while the state is \<^verbatim>\<open>playing\<close> the
  narration holds the audio focus.
\<close>

theorem right_text_heard:
  fixes evs :: "'b tts_event list"
  defines "s \<equiv> fold tts_step evs tts_init"
  assumes "honestRun R evs tts_init"
  shows "(hasCurrentAudio s \<longrightarrow> (\<exists>u a. ts_audioUrl s = Some u \<and> ts_audio s = Some a \<and> el_src a = Some u \<and>
      u < length (ts_blobs s) \<and> u \<notin> set (ts_revoked s) \<and> R (ts_currentSSML s) (ts_blobs s ! u))) \<and>
    mset (ts_revoked s) + (case ts_audioUrl s of Some u \<Rightarrow> {#u#} | None \<Rightarrow> {#}) = mset [0..<length (ts_blobs s)] \<and>
    (isSpeaking s \<longrightarrow> (\<exists>l. af_active (ts_focus s) = Some (Narration, l)))"
proof -
  have "audio_inv R tts_init"
    by (simp add: audio_inv_def stored_ok_def tts_init_def url_ok_def preload_init_def lru_new_def)
  moreover have "intent_inv (tts_init :: 'b tts)" by (simp add: intent_inv_def tts_init_def)
  ultimately have a: "audio_inv R s" unfolding s_def using assms(2) by (intro audio_run)
  have i: "intent_inv s" unfolding s_def by (rule intent_run)
  have led: "mset (ts_revoked s) + (case ts_audioUrl s of Some u \<Rightarrow> {#u#} | None \<Rightarrow> {#}) = mset [0..<length (ts_blobs s)]"
    using a by (simp add: audio_inv_def url_ok_def)
  moreover have "u < length (ts_blobs s) \<and> u \<notin> set (ts_revoked s)" if "ts_audioUrl s = Some u" for u
  proof -
    have e: "add_mset u (mset (ts_revoked s)) = mset [0..<length (ts_blobs s)]" using led that by simp
    then have "distinct (u # ts_revoked s)" by (metis distinct_upt mset.simps(2) mset_eq_imp_distinct_iff)
    moreover have "u \<in># mset [0..<length (ts_blobs s)]" using e by (metis union_single_eq_member)
    ultimately show ?thesis by simp
  qed
  ultimately show ?thesis
    using a i by (auto simp: audio_inv_def url_ok_def hasCurrentAudio_def intent_inv_def isSpeaking_def)
qed

definition sampleSpeech :: "nat list tts_event list" where
  "sampleSpeech = [Speak [65] sampleMarks False 0, FetchAnswer (AwaitFetch 1 [65] sampleMarks 1 0) (Inr [65]) 1,
     PlayEnds (AwaitPlay 1 [65]) (Inr ())]"

theorem right_text_heard_witness:
  "isSpeaking (fold tts_step sampleSpeech tts_init) \<and>
   (\<exists>u. ts_audioUrl (fold tts_step sampleSpeech tts_init) = Some u \<and>
      [65] = ts_blobs (fold tts_step sampleSpeech tts_init) ! u)"
proof -
  have "honestRun (\<lambda>x b. x = b) sampleSpeech tts_init" "isSpeaking (fold tts_step sampleSpeech tts_init)"
    "hasCurrentAudio (fold tts_step sampleSpeech tts_init)" "ts_currentSSML (fold tts_step sampleSpeech tts_init) = [65]"
    by code_simp+
  with right_text_heard [of "\<lambda>x b. x = b" sampleSpeech] show ?thesis by auto
qed

end
