(* ===== verification/Cover_Urls.thy ===== *)
theory Cover_Urls
  imports Prelude Api_Types
begin

text \<open>
  \<^verbatim>\<open>frontend/src/hooks/useCoverUrl.ts\<close>: the queue that limits parallel cover downloads, the cache of
  object URLs with its revocations, and the effect of the hook that connects a mounted card to both.
  The pieces that run without interruption are the mounting and clean-up of an effect, a callback of its
  \<^verbatim>\<open>IntersectionObserver\<close>, and the end of a download; \<open>cover_reach\<close> has the states that their interleavings lead to.
\<close>

section \<open>The download queue\<close>

definition MAX_CONCURRENT :: nat where "MAX_CONCURRENT = 6"
definition MAX_CACHED_COVERS :: nat where "MAX_CACHED_COVERS = 200"

text \<open>Jobs are numbered; \<open>cq_cancelled\<close> holds the flag and the abort signal of a job, which are always set
  together, and \<open>cq_running\<close> the jobs whose \<^verbatim>\<open>fetchFn\<close> has not ended.\<close>

record coverQueue =
  cq_pendingQueue :: "nat list"
  cq_activeCount :: nat
  cq_running :: "nat list"
  cq_cancelled :: "nat list"
  cq_nextJob :: nat

definition queue_init :: coverQueue where
  "queue_init = \<lparr>cq_pendingQueue = [], cq_activeCount = 0, cq_running = [], cq_cancelled = [], cq_nextJob = 0\<rparr>"

definition runJob :: "nat \<Rightarrow> coverQueue \<Rightarrow> coverQueue" where
  "runJob j q =
    (if j \<in> set (cq_cancelled q) then q
     else q\<lparr>cq_activeCount := cq_activeCount q + 1, cq_running := cq_running q @ [j]\<rparr>)"

function processQueue :: "coverQueue \<Rightarrow> coverQueue" where
  "processQueue q =
    (if cq_activeCount q < MAX_CONCURRENT \<and> cq_pendingQueue q \<noteq> [] then
       (let next = hd (cq_pendingQueue q); q1 = q\<lparr>cq_pendingQueue := tl (cq_pendingQueue q)\<rparr> in
        if next \<in> set (cq_cancelled q1) then processQueue q1 else processQueue (runJob next q1))
     else q)"
  by pat_completeness auto
termination
  by (relation "measure (\<lambda>q. length (cq_pendingQueue q))") (auto simp: runJob_def)

declare processQueue.simps [simp del]

definition scheduleCoverFetch :: "coverQueue \<Rightarrow> nat \<times> coverQueue" where
  "scheduleCoverFetch q =
    (let j = cq_nextJob q in
     (j, processQueue (q\<lparr>cq_nextJob := j + 1, cq_pendingQueue := cq_pendingQueue q @ [j]\<rparr>)))"

definition cancelJob :: "nat \<Rightarrow> coverQueue \<Rightarrow> coverQueue" where
  "cancelJob j q = q\<lparr>cq_cancelled := j # cq_cancelled q, cq_pendingQueue := remove1 j (cq_pendingQueue q)\<rparr>"

definition jobEnded :: "nat \<Rightarrow> coverQueue \<Rightarrow> coverQueue" where
  "jobEnded j q = processQueue (q\<lparr>cq_activeCount := cq_activeCount q - 1, cq_running := remove1 j (cq_running q)\<rparr>)"

section \<open>The cache of object URLs\<close>

text \<open>Object URLs are strings given out by \<^verbatim>\<open>URL.createObjectURL\<close>; \<open>cu_revoked\<close> logs the revoked ones.\<close>

record coverCache =
  cu_cache :: "(ustring, ustring) omap"
  cu_revoked :: "ustring list"

definition cache_init :: coverCache where
  "cache_init = \<lparr>cu_cache = [], cu_revoked = []\<rparr>"

definition getCachedCoverUrl :: "ustring \<Rightarrow> coverCache \<Rightarrow> ustring option \<times> coverCache" where
  "getCachedCoverUrl key c =
    (case truthy (mapGet (cu_cache c) key) of
       None \<Rightarrow> (None, c)
     | Some url \<Rightarrow> (Some url, c\<lparr>cu_cache := mapSet key url (mapDelete key (cu_cache c))\<rparr>))"

definition dropOtherVersions :: "ustring \<Rightarrow> ustring \<Rightarrow> coverCache \<Rightarrow> coverCache" where
  "dropOtherVersions bookId key c =
    (let stale = (\<lambda>(k, _). k \<noteq> key \<and> startsWith k (bookId @ js '':'')) in
     c\<lparr>cu_cache := filter (\<lambda>e. \<not> stale e) (cu_cache c),
       cu_revoked := cu_revoked c @ map snd (filter stale (cu_cache c))\<rparr>)"

definition storeCover :: "ustring \<Rightarrow> ustring \<Rightarrow> coverCache \<Rightarrow> coverCache" where
  "storeCover key url c =
    c\<lparr>cu_revoked := cu_revoked c @
        (case truthy (mapGet (cu_cache c) key) of Some old \<Rightarrow> if old \<noteq> url then [old] else [] | None \<Rightarrow> []),
      cu_cache := mapSet key url (mapDelete key (cu_cache c))\<rparr>"

function evictCovers :: "coverCache \<Rightarrow> coverCache" where
  "evictCovers c =
    (if MAX_CACHED_COVERS < length (cu_cache c) then
       (case cu_cache c of
          [] \<Rightarrow> c
        | (k, url) # _ \<Rightarrow> evictCovers (c\<lparr>cu_cache := mapDelete k (cu_cache c), cu_revoked := cu_revoked c @ [url]\<rparr>))
     else c)"
  by pat_completeness auto
termination
  by (relation "measure (\<lambda>c. length (cu_cache c))") (auto simp: le_imp_less_Suc length_delete_le)

declare evictCovers.simps [simp del]

definition setCachedCoverUrl :: "ustring \<Rightarrow> ustring \<Rightarrow> ustring \<Rightarrow> coverCache \<Rightarrow> coverCache" where
  "setCachedCoverUrl bookId key url c = evictCovers (storeCover key url (dropOtherVersions bookId key c))"

definition clearCoverUrlCache :: "coverCache \<Rightarrow> coverCache" where
  "clearCoverUrlCache c = c\<lparr>cu_revoked := cu_revoked c @ map snd (cu_cache c), cu_cache := []\<rparr>"

definition getCoverCacheSize :: "coverCache \<Rightarrow> nat" where
  "getCoverCacheSize c = length (cu_cache c)"

section \<open>The hook\<close>

text \<open>A card (component instance) keeps its reference and its state over several effects; the closure of
  an effect has its key, whether it was cleaned up, and the job it may cancel.\<close>

record card =
  cd_inFlightKey :: "ustring option"
  cd_fetchedCover :: "(ustring \<times> ustring) option"

record coverEffect =
  ef_card :: nat
  ef_bookId :: ustring
  ef_cacheKey :: ustring
  ef_disposed :: bool
  ef_cancelFetch :: "nat option"

record covers =
  co_queue :: coverQueue
  co_cache :: coverCache
  co_cards :: "nat \<Rightarrow> card"
  co_effects :: "coverEffect list"
  co_jobs :: "(nat, nat) omap"
  co_created :: "ustring list"

definition covers_init :: covers where
  "covers_init = \<lparr>co_queue = queue_init, co_cache = cache_init,
     co_cards = (\<lambda>_. \<lparr>cd_inFlightKey = None, cd_fetchedCover = None\<rparr>), co_effects = [], co_jobs = [], co_created = []\<rparr>"

definition coverKey :: "ustring \<Rightarrow> ustring option \<Rightarrow> ustring option \<Rightarrow> ustring" where
  "coverKey bookId coverSize coverVersion =
    bookId @ js '':'' @ nullish coverSize (js ''full'') @ js '':'' @ nullish coverVersion []"

definition shownCover :: "nat \<Rightarrow> ustring \<Rightarrow> covers \<Rightarrow> ustring option \<times> covers" where
  "shownCover cd key s =
    (case getCachedCoverUrl key (co_cache s) of
       (Some url, c) \<Rightarrow> (Some url, s\<lparr>co_cache := c\<rparr>)
     | (None, c) \<Rightarrow>
        (case cd_fetchedCover (co_cards s cd) of
           Some (k, url) \<Rightarrow> (if k = key then Some url else None, s)
         | None \<Rightarrow> (None, s)))"

definition updCard :: "nat \<Rightarrow> (card \<Rightarrow> card) \<Rightarrow> covers \<Rightarrow> covers" where
  "updCard i f s = s\<lparr>co_cards := (co_cards s)(i := f (co_cards s i))\<rparr>"

definition updEffect :: "nat \<Rightarrow> (coverEffect \<Rightarrow> coverEffect) \<Rightarrow> covers \<Rightarrow> covers" where
  "updEffect e f s = s\<lparr>co_effects := (co_effects s)[e := f (co_effects s ! e)]\<rparr>"

definition clearInFlight :: "nat \<Rightarrow> ustring \<Rightarrow> covers \<Rightarrow> covers" where
  "clearInFlight i key s =
    (if cd_inFlightKey (co_cards s i) = Some key then updCard i (\<lambda>cd. cd\<lparr>cd_inFlightKey := None\<rparr>) s else s)"

definition mountEffect :: "nat \<Rightarrow> ustring \<Rightarrow> ustring \<Rightarrow> bool \<Rightarrow> covers \<Rightarrow> covers" where
  "mountEffect cd bookId key hasElement s =
    (case getCachedCoverUrl key (co_cache s) of
       (Some _, c) \<Rightarrow> s\<lparr>co_cache := c\<rparr>
     | (None, _) \<Rightarrow>
        (if hasElement
         then s\<lparr>co_effects := co_effects s @ [\<lparr>ef_card = cd, ef_bookId = bookId, ef_cacheKey = key,
                  ef_disposed = False, ef_cancelFetch = None\<rparr>]\<rparr>
         else s))"

definition stopFetch :: "nat \<Rightarrow> covers \<Rightarrow> covers" where
  "stopFetch e s =
    (let ef = co_effects s ! e;
         s1 = (case ef_cancelFetch ef of Some j \<Rightarrow> s\<lparr>co_queue := cancelJob j (co_queue s)\<rparr> | None \<Rightarrow> s) in
     clearInFlight (ef_card ef) (ef_cacheKey ef) (updEffect e (\<lambda>ef. ef\<lparr>ef_cancelFetch := None\<rparr>) s1))"

definition startFetch :: "nat \<Rightarrow> covers \<Rightarrow> covers" where
  "startFetch e s =
    (let ef = co_effects s ! e in
     if ef_disposed ef \<or> cd_inFlightKey (co_cards s (ef_card ef)) = Some (ef_cacheKey ef) then s
     else case getCachedCoverUrl (ef_cacheKey ef) (co_cache s) of
       (Some _, c) \<Rightarrow> s\<lparr>co_cache := c\<rparr>
     | (None, _) \<Rightarrow>
        (let s1 = updCard (ef_card ef) (\<lambda>cd. cd\<lparr>cd_inFlightKey := Some (ef_cacheKey ef)\<rparr>) s in
         case scheduleCoverFetch (co_queue s1) of
           (j, q) \<Rightarrow> updEffect e (\<lambda>ef. ef\<lparr>ef_cancelFetch := Some j\<rparr>)
             (s1\<lparr>co_queue := q, co_jobs := mapSet j e (co_jobs s1)\<rparr>)))"

definition observed :: "nat \<Rightarrow> bool \<Rightarrow> covers \<Rightarrow> covers" where
  "observed e isIntersecting s =
    (if isIntersecting then startFetch e s
     else case getCachedCoverUrl (ef_cacheKey (co_effects s ! e)) (co_cache s) of
       (Some _, c) \<Rightarrow> s\<lparr>co_cache := c\<rparr>
     | (None, _) \<Rightarrow> stopFetch e s)"

definition cleanUpEffect :: "nat \<Rightarrow> covers \<Rightarrow> covers" where
  "cleanUpEffect e s = stopFetch e (updEffect e (\<lambda>ef. ef\<lparr>ef_disposed := True\<rparr>) s)"

text \<open>The end of the download of job \<open>j\<close>: \<^verbatim>\<open>api.fetchCover\<close> failed or had no cover (\<open>None\<close>), or gave a blob for
  which the browser makes the URL \<open>url\<close>. The slot is given back by the \<^verbatim>\<open>finally\<close> of the job, which runs
  next and touches only the queue, so it is part of the same step. The signal cannot be aborted between the two checks of the
  source, so the second one never revokes.\<close>

definition coverArrived :: "nat \<Rightarrow> ustring option \<Rightarrow> covers \<Rightarrow> covers" where
  "coverArrived j blobUrl s =
    (case mapGet (co_jobs s) j of
       None \<Rightarrow> s
     | Some e \<Rightarrow>
        (let ef = co_effects s ! e;
             s1 = (case blobUrl of
                 Some url \<Rightarrow>
                  (if ef_disposed ef \<or> j \<in> set (cq_cancelled (co_queue s)) then s
                   else updCard (ef_card ef) (\<lambda>cd. cd\<lparr>cd_fetchedCover := Some (ef_cacheKey ef, url)\<rparr>)
                     (s\<lparr>co_created := co_created s @ [url],
                        co_cache := setCachedCoverUrl (ef_bookId ef) (ef_cacheKey ef) url (co_cache s)\<rparr>))
               | None \<Rightarrow> s);
             s2 = clearInFlight (ef_card ef) (ef_cacheKey ef) s1 in
         s2\<lparr>co_queue := jobEnded j (co_queue s2)\<rparr>))"

datatype cover_event =
    Mount nat ustring "ustring option" "ustring option" bool
  | Observe nat bool
  | CleanUp nat
  | Arrive nat "ustring option"
  | Render nat ustring
  | ClearCovers

text \<open>What can happen: callbacks belong to effects that exist and are not cleaned up, a download ends while
  it runs, and the browser never gives out an object URL twice.\<close>

fun cover_enabled :: "cover_event \<Rightarrow> covers \<Rightarrow> bool" where
  "cover_enabled (Observe e b) s = (e < length (co_effects s) \<and> \<not> ef_disposed (co_effects s ! e))"
| "cover_enabled (CleanUp e) s = (e < length (co_effects s) \<and> \<not> ef_disposed (co_effects s ! e))"
| "cover_enabled (Arrive j u) s = (j \<in> set (cq_running (co_queue s)) \<and>
     (case u of Some url \<Rightarrow> url \<noteq> [] \<and> url \<notin> set (co_created s) | None \<Rightarrow> True))"
| "cover_enabled _ s = True"

fun cover_step :: "cover_event \<Rightarrow> covers \<Rightarrow> covers" where
  "cover_step (Mount cd bookId coverSize version hasElement) s =
     mountEffect cd bookId (coverKey bookId coverSize version) hasElement s"
| "cover_step (Observe e b) s = observed e b s"
| "cover_step (CleanUp e) s = cleanUpEffect e s"
| "cover_step (Arrive j u) s = coverArrived j u s"
| "cover_step (Render cd key) s = snd (shownCover cd key s)"
| "cover_step ClearCovers s = s\<lparr>co_cache := clearCoverUrlCache (co_cache s)\<rparr>"

inductive cover_reach :: "covers \<Rightarrow> bool" where
  start: "cover_reach covers_init"
| step: "cover_reach s \<Longrightarrow> cover_enabled ev s \<Longrightarrow> cover_reach (cover_step ev s)"

section \<open>Invariant of the queue\<close>

definition queue_core :: "coverQueue \<Rightarrow> bool" where
  "queue_core q \<longleftrightarrow> cq_activeCount q = length (cq_running q) \<and> cq_activeCount q \<le> MAX_CONCURRENT \<and>
     distinct (cq_pendingQueue q @ cq_running q) \<and> set (cq_pendingQueue q) \<inter> set (cq_cancelled q) = {} \<and>
     list_all (\<lambda>j. j < cq_nextJob q) (cq_pendingQueue q @ cq_running q @ cq_cancelled q)"

definition queue_busy :: "coverQueue \<Rightarrow> bool" where
  "queue_busy q \<longleftrightarrow> (cq_pendingQueue q \<noteq> [] \<longrightarrow> cq_activeCount q = MAX_CONCURRENT)"

definition queue_inv :: "coverQueue \<Rightarrow> bool" where
  "queue_inv q \<longleftrightarrow> queue_core q \<and> queue_busy q"

lemma runJob_core:
  assumes "queue_core q" and "cq_pendingQueue q = j # rest" and "cq_activeCount q < MAX_CONCURRENT"
  shows "queue_core (runJob j (q\<lparr>cq_pendingQueue := rest\<rparr>))"
  using assms by (auto simp: queue_core_def runJob_def)

lemma processQueue_step:
  assumes "queue_core q" and "cq_pendingQueue q = j # rest" and "cq_activeCount q < MAX_CONCURRENT"
  shows "processQueue q = processQueue (runJob j (q\<lparr>cq_pendingQueue := rest\<rparr>))"
  using assms by (subst processQueue.simps) (auto simp: queue_core_def Let_def)

lemma processQueue_stop:
  "\<not> (cq_activeCount q < MAX_CONCURRENT \<and> cq_pendingQueue q \<noteq> []) \<Longrightarrow> processQueue q = q"
  by (subst processQueue.simps) auto

lemma processQueue_spec:
  assumes "queue_core q"
  shows "queue_inv (processQueue q) \<and> cq_nextJob (processQueue q) = cq_nextJob q \<and>
    cq_cancelled (processQueue q) = cq_cancelled q \<and>
    cq_running (processQueue q) = cq_running q @ take (MAX_CONCURRENT - cq_activeCount q) (cq_pendingQueue q) \<and>
    cq_pendingQueue (processQueue q) = drop (MAX_CONCURRENT - cq_activeCount q) (cq_pendingQueue q)"
  using assms
proof (induction "length (cq_pendingQueue q)" arbitrary: q rule: less_induct)
  case less
  show ?case
  proof (cases "cq_activeCount q < MAX_CONCURRENT \<and> cq_pendingQueue q \<noteq> []")
    case True
    then obtain j rest where p: "cq_pendingQueue q = j # rest" by (cases "cq_pendingQueue q") auto
    let ?q = "runJob j (q\<lparr>cq_pendingQueue := rest\<rparr>)"
    have c: "queue_core ?q" and e: "processQueue q = processQueue ?q"
      using runJob_core processQueue_step less.prems p True by blast+
    have j: "j \<notin> set (cq_cancelled q)" using less.prems p by (auto simp: queue_core_def)
    have sm: "length (cq_pendingQueue ?q) < length (cq_pendingQueue q)" by (simp add: runJob_def p)
    have "MAX_CONCURRENT - cq_activeCount q = Suc (MAX_CONCURRENT - Suc (cq_activeCount q))" using True by arith
    then show ?thesis using less.hyps [OF sm c] j p by (simp add: e runJob_def)
  next
    case False
    then have "processQueue q = q" by (rule processQueue_stop)
    then show ?thesis
      using less.prems False by (auto simp: queue_inv_def queue_busy_def queue_core_def)
  qed
qed

lemma schedule_inv:
  assumes "queue_inv q"
  shows "queue_inv (snd (scheduleCoverFetch q)) \<and> fst (scheduleCoverFetch q) = cq_nextJob q \<and>
    cq_nextJob (snd (scheduleCoverFetch q)) = cq_nextJob q + 1 \<and>
    set (cq_pendingQueue (snd (scheduleCoverFetch q)) @ cq_running (snd (scheduleCoverFetch q))) =
      insert (cq_nextJob q) (set (cq_pendingQueue q @ cq_running q))"
proof -
  let ?q = "q\<lparr>cq_nextJob := cq_nextJob q + 1, cq_pendingQueue := cq_pendingQueue q @ [cq_nextJob q]\<rparr>"
  let ?k = "MAX_CONCURRENT - cq_activeCount q"
  have c: "queue_core ?q"
    using assms by (auto simp: queue_inv_def queue_core_def list_all_iff less_Suc_eq)
  have "set (take ?k (cq_pendingQueue ?q)) \<union> set (drop ?k (cq_pendingQueue ?q)) = set (cq_pendingQueue ?q)"
    by (metis append_take_drop_id set_append)
  then show ?thesis
    using processQueue_spec [OF c] by (simp add: scheduleCoverFetch_def Let_def) blast
qed

lemma cancel_inv:
  assumes "queue_inv q" and "j < cq_nextJob q"
  shows "queue_inv (cancelJob j q) \<and> cq_nextJob (cancelJob j q) = cq_nextJob q \<and>
    cq_running (cancelJob j q) = cq_running q \<and> set (cq_pendingQueue (cancelJob j q)) \<subseteq> set (cq_pendingQueue q)"
proof -
  have d: "distinct (cq_pendingQueue q)" using assms(1) by (simp add: queue_inv_def queue_core_def)
  have "queue_core (cancelJob j q)"
    using assms d notin_set_remove1 by (fastforce simp: queue_inv_def queue_core_def cancelJob_def list_all_iff)
  moreover have "queue_busy (cancelJob j q)"
    using assms(1) by (auto simp: queue_inv_def queue_busy_def cancelJob_def)
  ultimately show ?thesis using d by (auto simp: queue_inv_def cancelJob_def)
qed

lemma ended_core:
  assumes "queue_inv q" and "j \<in> set (cq_running q)"
  shows "queue_core (q\<lparr>cq_activeCount := cq_activeCount q - 1, cq_running := remove1 j (cq_running q)\<rparr>)"
  using assms by (auto simp: queue_inv_def queue_core_def length_remove1 list_all_iff distinct_remove1)

lemma ended_inv:
  assumes "queue_inv q" and "j \<in> set (cq_running q)"
  shows "queue_inv (jobEnded j q)" "cq_nextJob (jobEnded j q) = cq_nextJob q"
    "set (cq_pendingQueue (jobEnded j q) @ cq_running (jobEnded j q)) \<subseteq> set (cq_pendingQueue q @ cq_running q)"
    "cq_pendingQueue q \<noteq> [] \<Longrightarrow> cq_running (jobEnded j q) = remove1 j (cq_running q) @ [hd (cq_pendingQueue q)]"
proof -
  note p = processQueue_spec [OF ended_core [OF assms]]
  let ?k = "MAX_CONCURRENT - (cq_activeCount q - 1)"
  show "queue_inv (jobEnded j q)" "cq_nextJob (jobEnded j q) = cq_nextJob q"
    using p by (simp_all add: jobEnded_def)
  have "set (take ?k (cq_pendingQueue q)) \<union> set (drop ?k (cq_pendingQueue q)) = set (cq_pendingQueue q)"
    by (metis append_take_drop_id set_append)
  moreover have "set (remove1 j (cq_running q)) \<subseteq> set (cq_running q)" by (rule set_remove1_subset)
  ultimately show "set (cq_pendingQueue (jobEnded j q) @ cq_running (jobEnded j q)) \<subseteq> set (cq_pendingQueue q @ cq_running q)"
    using p by (simp add: jobEnded_def) blast
  assume ne: "cq_pendingQueue q \<noteq> []"
  then have "cq_activeCount q = MAX_CONCURRENT" using assms(1) by (simp add: queue_inv_def queue_busy_def)
  then have "?k = 1" by (simp add: MAX_CONCURRENT_def)
  with ne p show "cq_running (jobEnded j q) = remove1 j (cq_running q) @ [hd (cq_pendingQueue q)]"
    by (simp add: jobEnded_def take_Suc)
qed

section \<open>The ledger of object URLs\<close>

definition held :: "coverCache \<Rightarrow> ustring multiset" where
  "held c = mset (map snd (cu_cache c))"

definition freed :: "coverCache \<Rightarrow> ustring multiset" where
  "freed c = mset (cu_revoked c)"

lemmas ledger_defs = held_def freed_def

definition urls_ok :: "coverCache \<Rightarrow> bool" where
  "urls_ok c \<longleftrightarrow> wf_map (cu_cache c) \<and> list_all (\<lambda>e. snd e \<noteq> []) (cu_cache c)"

definition cache_inv :: "coverCache \<Rightarrow> bool" where
  "cache_inv c \<longleftrightarrow> urls_ok c \<and> length (cu_cache c) \<le> MAX_CACHED_COVERS"

lemma mapDelete_subset: "set (mapDelete k m) \<subseteq> set m"
  by (auto simp: AList.delete_eq)

lemma move_to_end:
  assumes "urls_ok c" and "mapGet (cu_cache c) k = Some u"
  shows "urls_ok (c\<lparr>cu_cache := mapDelete k (cu_cache c) @ [(k, u)]\<rparr>) \<and>
    mset (mapDelete k (cu_cache c) @ [(k, u)]) = mset (cu_cache c)"
proof -
  have m: "mset (cu_cache c) = add_mset (k, u) (mset (mapDelete k (cu_cache c)))"
    using assms by (intro mset_delete) (simp_all add: urls_ok_def)
  have "set (mapDelete k (cu_cache c)) \<subseteq> set (cu_cache c)" by (rule mapDelete_subset)
  moreover have "(k, u) \<in> set (cu_cache c)" using assms(2) by (rule map_of_SomeD)
  ultimately show ?thesis
    using assms(1) m wf_map_snoc [of "cu_cache c" k u] by (auto simp: urls_ok_def list_all_iff)
qed

lemma getCached_frame:
  assumes "cache_inv c"
  shows "cache_inv (snd (getCachedCoverUrl k c))" "held (snd (getCachedCoverUrl k c)) = held c"
    "freed (snd (getCachedCoverUrl k c)) = freed c"
proof -
  let ?c = "snd (getCachedCoverUrl k c)"
  have "cache_inv ?c \<and> held ?c = held c \<and> freed ?c = freed c"
  proof (cases "truthy (mapGet (cu_cache c) k)")
    case (Some u)
    then have g: "mapGet (cu_cache c) k = Some u" by (simp add: truthy_eq_Some)
    have m: "urls_ok (c\<lparr>cu_cache := mapDelete k (cu_cache c) @ [(k, u)]\<rparr>)"
      "mset (mapDelete k (cu_cache c) @ [(k, u)]) = mset (cu_cache c)"
      using move_to_end [OF _ g] assms by (simp_all add: cache_inv_def)
    have "size (mset (mapDelete k (cu_cache c) @ [(k, u)])) = size (mset (cu_cache c))" using m(2) by (rule arg_cong)
    moreover have "mset (map snd (mapDelete k (cu_cache c) @ [(k, u)])) = mset (map snd (cu_cache c))"
      using m(2) by (metis mset_map)
    ultimately show ?thesis
      using assms m(1) Some
      by (simp add: getCachedCoverUrl_def mapSet_move_end cache_inv_def held_def freed_def)
  qed (use assms in \<open>simp add: getCachedCoverUrl_def\<close>)
  then show "cache_inv ?c" "held ?c = held c" "freed ?c = freed c" by blast+
qed

lemma mset_split: "mset (map f (filter P xs)) + mset (map f (filter (\<lambda>x. \<not> P x) xs)) = mset (map f xs)"
  by (induction xs) auto

lemma dropOther_spec:
  assumes "urls_ok c"
  shows "urls_ok (dropOtherVersions b k c)"
    "held (dropOtherVersions b k c) + freed (dropOtherVersions b k c) = held c + freed c"
    "mapGet (cu_cache (dropOtherVersions b k c)) k = mapGet (cu_cache c) k"
proof -
  let ?stale = "\<lambda>(k', _). k' \<noteq> k \<and> startsWith k' (b @ js '':'')"
  show "urls_ok (dropOtherVersions b k c)"
    using assms by (auto simp: urls_ok_def dropOtherVersions_def Let_def wf_map_def list_all_iff intro: distinct_map_filter)
  show "held (dropOtherVersions b k c) + freed (dropOtherVersions b k c) = held c + freed c"
    using mset_split [of snd ?stale "cu_cache c"]
    by (simp add: ledger_defs dropOtherVersions_def Let_def ac_simps)
  have "map_of (filter (\<lambda>e. \<not> ?stale e) m) k = map_of m k" for m :: "(ustring, ustring) omap"
    by (induction m) auto
  then show "mapGet (cu_cache (dropOtherVersions b k c)) k = mapGet (cu_cache c) k"
    by (simp add: dropOtherVersions_def Let_def)
qed

lemma storeCover_spec:
  assumes "urls_ok c" and "u \<noteq> []"
  shows "urls_ok (storeCover k u c)" "last (cu_cache (storeCover k u c)) = (k, u)" "cu_cache (storeCover k u c) \<noteq> []"
    "u \<notin># held c \<Longrightarrow> held (storeCover k u c) + freed (storeCover k u c) = add_mset u (held c + freed c)"
proof -
  have cc: "cu_cache (storeCover k u c) = mapDelete k (cu_cache c) @ [(k, u)]"
    by (simp add: storeCover_def mapSet_move_end)
  then show "last (cu_cache (storeCover k u c)) = (k, u)" "cu_cache (storeCover k u c) \<noteq> []" by simp_all
  show "urls_ok (storeCover k u c)"
    using assms wf_map_snoc [of "cu_cache c" k u] mapDelete_subset [of k "cu_cache c"]
    by (auto simp: urls_ok_def cc list_all_iff)
  assume fresh: "u \<notin># held c"
  show "held (storeCover k u c) + freed (storeCover k u c) = add_mset u (held c + freed c)"
  proof (cases "mapGet (cu_cache c) k")
    case None
    then show ?thesis
      by (simp add: ledger_defs cc truthy_def mapDelete_fresh mapHas_def) (simp add: storeCover_def truthy_def)
  next
    case (Some v)
    then have v: "(k, v) \<in> set (cu_cache c)" by (rule map_of_SomeD)
    then have "v \<in># held c" by (force simp: held_def)
    then have "v \<noteq> u" using fresh by auto
    moreover have "v \<noteq> []" using v assms(1) by (auto simp: urls_ok_def list_all_iff)
    moreover have "mset (map snd (cu_cache c)) = add_mset v (mset (map snd (mapDelete k (cu_cache c))))"
      using mset_delete [OF _ Some] assms(1) by (simp add: urls_ok_def)
    ultimately show ?thesis
      by (simp add: ledger_defs cc) (simp add: storeCover_def truthy_def Some)
  qed
qed

lemma evictCovers_spec:
  assumes "wf_map (cu_cache c)"
  shows "evictCovers c = (let n = length (cu_cache c) - MAX_CACHED_COVERS in
    c\<lparr>cu_cache := drop n (cu_cache c), cu_revoked := cu_revoked c @ map snd (take n (cu_cache c))\<rparr>)"
  using assms
proof (induction c rule: evictCovers.induct)
  case (1 c)
  show ?case
  proof (cases "MAX_CACHED_COVERS < length (cu_cache c)")
    case True
    then obtain k u m where m: "cu_cache c = (k, u) # m" by (cases "cu_cache c") auto
    have d: "mapDelete k (cu_cache c) = m" using mapDelete_hd [of "(k, u)" m] "1.prems" m by simp
    have "length ((k, u) # m) - MAX_CACHED_COVERS = Suc (length m - MAX_CACHED_COVERS)"
      using True m by (simp add: Suc_diff_le)
    moreover have "wf_map m" using "1.prems" m by (simp add: wf_map_def)
    ultimately show ?thesis
      using "1.IH" [OF True m refl] True m d by (subst evictCovers.simps) (simp add: Let_def)
  next
    case False
    then show ?thesis by (subst evictCovers.simps) simp
  qed
qed

lemma setCached_spec:
  assumes "cache_inv c" and "u \<noteq> []"
  shows "cache_inv (setCachedCoverUrl b k u c)"
    "u \<notin># held c + freed c \<Longrightarrow>
      held (setCachedCoverUrl b k u c) + freed (setCachedCoverUrl b k u c) = add_mset u (held c + freed c)"
    "mapGet (cu_cache (setCachedCoverUrl b k u c)) k = Some u"
proof -
  let ?c1 = "dropOtherVersions b k c"
  let ?c2 = "storeCover k u ?c1"
  let ?n = "length (cu_cache ?c2) - MAX_CACHED_COVERS"
  have ok: "urls_ok c" using assms(1) by (simp add: cache_inv_def)
  note d = dropOther_spec [OF ok, of b k]
  note st = storeCover_spec [OF d(1) assms(2), of k]
  have wf: "wf_map (cu_cache ?c2)" using st(1) by (simp add: urls_ok_def)
  have e: "setCachedCoverUrl b k u c =
      ?c2\<lparr>cu_cache := drop ?n (cu_cache ?c2), cu_revoked := cu_revoked ?c2 @ map snd (take ?n (cu_cache ?c2))\<rparr>"
    unfolding setCachedCoverUrl_def using evictCovers_spec [OF wf] by (simp add: Let_def)
  have "urls_ok (?c2\<lparr>cu_cache := drop ?n (cu_cache ?c2)\<rparr>)"
    using st(1) by (auto simp: urls_ok_def wf_map_def drop_map [symmetric] list_all_iff dest: in_set_dropD)
  then show "cache_inv (setCachedCoverUrl b k u c)" by (auto simp: e cache_inv_def urls_ok_def)
  have "mset (map snd (drop ?n (cu_cache ?c2))) + mset (map snd (take ?n (cu_cache ?c2))) = mset (map snd (cu_cache ?c2))"
    by (metis append_take_drop_id map_append mset_append union_commute)
  then have "held (setCachedCoverUrl b k u c) + freed (setCachedCoverUrl b k u c) = held ?c2 + freed ?c2"
    by (simp add: e ledger_defs ac_simps)
  moreover have "u \<notin># held ?c1" if "u \<notin># held c + freed c" using that d(2) by (metis union_iff)
  ultimately show "held (setCachedCoverUrl b k u c) + freed (setCachedCoverUrl b k u c) = add_mset u (held c + freed c)"
    if "u \<notin># held c + freed c" using that st(4) d(2) by simp
  have "(k, u) \<in> set (drop ?n (cu_cache ?c2))"
    using st(2,3) by (metis MAX_CACHED_COVERS_def diff_less last_drop last_in_set drop_eq_Nil not_le
        length_greater_0_conv zero_less_numeral)
  moreover have "wf_map (drop ?n (cu_cache ?c2))" using wf by (simp add: wf_map_def drop_map [symmetric])
  ultimately show "mapGet (cu_cache (setCachedCoverUrl b k u c)) k = Some u"
    by (simp add: e wf_map_def map_of_eq_Some_iff)
qed

interpretation cover_resources: resource_cache cache_inv MAX_CACHED_COVERS getCoverCacheSize
  "\<lambda>c p. fst (getCachedCoverUrl (snd p) c)" held freed "\<lambda>p v r. setCachedCoverUrl (fst p) (snd p) r"
  "\<lambda>_ v r. v = r \<and> r \<noteq> []"
proof unfold_locales
  fix c :: coverCache and p :: "ustring \<times> ustring" and v r :: ustring
  assume c: "cache_inv c"
  then show "getCoverCacheSize c \<le> MAX_CACHED_COVERS" by (simp add: cache_inv_def getCoverCacheSize_def)
  assume ok: "v = r \<and> r \<noteq> []"
  show "cache_inv (setCachedCoverUrl (fst p) (snd p) r c)" using setCached_spec(1) [OF c] ok by blast
  show "fst (getCachedCoverUrl (snd p) (setCachedCoverUrl (fst p) (snd p) r c)) = Some v"
    using setCached_spec(3) [OF c] ok by (simp add: getCachedCoverUrl_def truthy_def)
  assume "r \<notin># held c + freed c"
  then show "held (setCachedCoverUrl (fst p) (snd p) r c) + freed (setCachedCoverUrl (fst p) (snd p) r c) =
      add_mset r (held c + freed c)"
    using setCached_spec(2) [OF c] ok by blast
qed

section \<open>Invariant of the hook\<close>

definition job_below :: "nat \<Rightarrow> coverEffect \<Rightarrow> bool" where
  "job_below n ef \<longleftrightarrow> (case ef_cancelFetch ef of Some j \<Rightarrow> j < n | None \<Rightarrow> True)"

definition jobs_ok :: "covers \<Rightarrow> bool" where
  "jobs_ok s \<longleftrightarrow>
    list_all (\<lambda>j. mapHas (co_jobs s) j) (cq_pendingQueue (co_queue s) @ cq_running (co_queue s)) \<and>
    list_all (job_below (cq_nextJob (co_queue s))) (co_effects s)"

definition covers_inv :: "covers \<Rightarrow> bool" where
  "covers_inv s \<longleftrightarrow> queue_inv (co_queue s) \<and> jobs_ok s \<and> cache_inv (co_cache s) \<and> distinct (co_created s) \<and>
     mset (co_created s) = held (co_cache s) + freed (co_cache s)"

lemma covers_inv_cache:
  assumes "covers_inv s" and "cache_inv c" and "held c + freed c = held (co_cache s) + freed (co_cache s)"
  shows "covers_inv (s\<lparr>co_cache := c\<rparr>)"
  using assms by (simp add: covers_inv_def jobs_ok_def)

lemma covers_inv_get:
  assumes "covers_inv s"
  shows "covers_inv (s\<lparr>co_cache := snd (getCachedCoverUrl k (co_cache s))\<rparr>)"
  using assms by (intro covers_inv_cache) (simp_all add: covers_inv_def getCached_frame)

lemma covers_inv_card [simp]: "covers_inv (updCard i f s) = covers_inv s"
  by (simp add: covers_inv_def jobs_ok_def updCard_def)

lemma covers_inv_inFlight [simp]: "covers_inv (clearInFlight i k s) = covers_inv s"
  by (simp add: clearInFlight_def)

lemma list_all_update: "list_all P xs \<Longrightarrow> P x \<Longrightarrow> list_all P (xs[i := x])"
  by (auto simp: list_all_iff dest: set_update_subset_insert [THEN subsetD])

lemma covers_inv_effect:
  assumes "covers_inv s" and "e < length (co_effects s)"
    and "ef_cancelFetch (f (co_effects s ! e)) = None \<or> ef_cancelFetch (f (co_effects s ! e)) = ef_cancelFetch (co_effects s ! e)"
  shows "covers_inv (updEffect e f s)"
proof -
  have l: "list_all (job_below (cq_nextJob (co_queue s))) (co_effects s)" using assms(1) by (simp add: covers_inv_def jobs_ok_def)
  then have "job_below (cq_nextJob (co_queue s)) (co_effects s ! e)" using assms(2) by (simp add: list_all_length)
  then have "job_below (cq_nextJob (co_queue s)) (f (co_effects s ! e))" using assms(3) by (auto simp: job_below_def)
  with l assms(1) show ?thesis by (simp add: covers_inv_def jobs_ok_def updEffect_def list_all_update)
qed

lemma stopFetch_inv:
  assumes "covers_inv s" and "e < length (co_effects s)"
  shows "covers_inv (stopFetch e s)"
proof -
  let ?s = "case ef_cancelFetch (co_effects s ! e) of Some j \<Rightarrow> s\<lparr>co_queue := cancelJob j (co_queue s)\<rparr> | None \<Rightarrow> s"
  have "covers_inv ?s"
  proof (cases "ef_cancelFetch (co_effects s ! e)")
    case (Some j)
    then have "j < cq_nextJob (co_queue s)"
      using assms by (auto simp: covers_inv_def jobs_ok_def list_all_length job_below_def dest!: spec [of _ e])
    with cancel_inv [of "co_queue s" j] assms(1) Some show ?thesis
      by (auto simp: covers_inv_def jobs_ok_def list_all_iff)
  qed (use assms in simp)
  moreover have "e < length (co_effects ?s)" using assms(2) by (simp split: option.splits)
  ultimately show ?thesis
    unfolding stopFetch_def Let_def by (auto intro: covers_inv_effect)
qed

lemma startFetch_inv:
  assumes "covers_inv s" and e: "e < length (co_effects s)"
  shows "covers_inv (startFetch e s)"
proof -
  let ?ef = "co_effects s ! e"
  obtain r c where g: "getCachedCoverUrl (ef_cacheKey ?ef) (co_cache s) = (r, c)" by fastforce
  consider "ef_disposed ?ef \<or> cd_inFlightKey (co_cards s (ef_card ?ef)) = Some (ef_cacheKey ?ef)"
    | u where "\<not> (ef_disposed ?ef \<or> cd_inFlightKey (co_cards s (ef_card ?ef)) = Some (ef_cacheKey ?ef))" "r = Some u"
    | "\<not> (ef_disposed ?ef \<or> cd_inFlightKey (co_cards s (ef_card ?ef)) = Some (ef_cacheKey ?ef))" "r = None"
    by (cases r) blast+
  then show ?thesis
  proof cases
    case 1
    then show ?thesis using assms by (auto simp: startFetch_def Let_def)
  next
    case 2
    then show ?thesis using covers_inv_get [OF assms(1), of "ef_cacheKey ?ef"] g by (simp add: startFetch_def Let_def)
  next
    case 3
    let ?s = "updCard (ef_card ?ef) (\<lambda>cd. cd\<lparr>cd_inFlightKey := Some (ef_cacheKey ?ef)\<rparr>) s"
    have q: "co_queue ?s = co_queue s" "co_jobs ?s = co_jobs s" "co_effects ?s = co_effects s" by (simp_all add: updCard_def)
    obtain j p where sch: "scheduleCoverFetch (co_queue s) = (j, p)" by fastforce
    have p: "queue_inv p" "j = cq_nextJob (co_queue s)" "cq_nextJob p = j + 1"
      "set (cq_pendingQueue p @ cq_running p) = insert j (set (cq_pendingQueue (co_queue s) @ cq_running (co_queue s)))"
      using schedule_inv [of "co_queue s"] assms(1) sch by (auto simp: covers_inv_def)
    let ?s1 = "?s\<lparr>co_queue := p, co_jobs := mapSet j e (co_jobs ?s)\<rparr>"
    have "jobs_ok (updEffect e (\<lambda>ef. ef\<lparr>ef_cancelFetch := Some j\<rparr>) ?s1)"
    proof -
      have "list_all (\<lambda>i. i = j \<or> mapHas (co_jobs s) i) (cq_pendingQueue p @ cq_running p)"
        unfolding list_all_iff p(4) using assms(1) by (auto simp: covers_inv_def jobs_ok_def list_all_iff)
      moreover have "list_all (job_below (cq_nextJob p)) ((co_effects s)[e := ?ef\<lparr>ef_cancelFetch := Some j\<rparr>])"
        using assms(1) p(2,3)
        by (intro list_all_update) (auto simp: covers_inv_def jobs_ok_def job_below_def list_all_iff split: option.splits)
      ultimately show ?thesis by (simp add: jobs_ok_def updEffect_def q)
    qed
    moreover have "startFetch e s = updEffect e (\<lambda>ef. ef\<lparr>ef_cancelFetch := Some j\<rparr>) ?s1"
      using 3 g sch by (simp add: startFetch_def Let_def q)
    ultimately show ?thesis
      using assms(1) p(1) by (simp add: covers_inv_def updEffect_def updCard_def)
  qed
qed

lemma coverArrived_queue:
  assumes "mapHas (co_jobs s) j"
  shows "co_queue (coverArrived j u s) = jobEnded j (co_queue s)"
proof -
  obtain e where "mapGet (co_jobs s) j = Some e" using assms by (auto simp: mapHas_def)
  then show ?thesis
    by (simp add: coverArrived_def Let_def clearInFlight_def updCard_def split: option.splits)
qed

lemma ended_covers:
  assumes "covers_inv s" and "j \<in> set (cq_running (co_queue s))"
  shows "covers_inv (s\<lparr>co_queue := jobEnded j (co_queue s)\<rparr>)"
proof -
  have q: "queue_inv (co_queue s)" using assms(1) by (simp add: covers_inv_def)
  note e = ended_inv [OF q assms(2)]
  have "list_all (mapHas (co_jobs s)) (cq_pendingQueue (jobEnded j (co_queue s)) @ cq_running (jobEnded j (co_queue s)))"
    using e(3) assms(1) unfolding covers_inv_def jobs_ok_def list_all_iff by blast
  with assms(1) e(1,2) show ?thesis by (simp add: covers_inv_def jobs_ok_def)
qed

lemma coverArrived_inv:
  assumes inv: "covers_inv s" and j: "j \<in> set (cq_running (co_queue s))"
    and fresh: "case u of Some url \<Rightarrow> url \<noteq> [] \<and> url \<notin> set (co_created s) | None \<Rightarrow> True"
  shows "covers_inv (coverArrived j u s)"
proof -
  obtain e where e: "mapGet (co_jobs s) j = Some e"
    using inv j by (auto simp: covers_inv_def jobs_ok_def list_all_iff mapHas_def)
  let ?ef = "co_effects s ! e"
  let ?put = "\<lambda>url. s\<lparr>co_created := co_created s @ [url],
    co_cache := setCachedCoverUrl (ef_bookId ?ef) (ef_cacheKey ?ef) url (co_cache s)\<rparr>"
  have put: "covers_inv (?put url)" if "u = Some url" for url
  proof -
    have url: "url \<noteq> []" "url \<notin> set (co_created s)" using fresh that by simp_all
    have "url \<notin># held (co_cache s) + freed (co_cache s)"
      using url(2) inv by (metis covers_inv_def set_mset_mset)
    then show ?thesis
      using inv url setCached_spec [of "co_cache s" url "ef_bookId ?ef" "ef_cacheKey ?ef"]
      by (simp add: covers_inv_def jobs_ok_def)
  qed
  let ?s1 = "case u of Some url \<Rightarrow> (if ef_disposed ?ef \<or> j \<in> set (cq_cancelled (co_queue s)) then s
      else updCard (ef_card ?ef) (\<lambda>cd. cd\<lparr>cd_fetchedCover := Some (ef_cacheKey ?ef, url)\<rparr>) (?put url)) | None \<Rightarrow> s"
  let ?s2 = "clearInFlight (ef_card ?ef) (ef_cacheKey ?ef) ?s1"
  have "covers_inv ?s2" using inv put by (auto split: option.splits)
  moreover have "co_queue ?s2 = co_queue s" by (simp add: clearInFlight_def updCard_def split: option.splits)
  moreover have "coverArrived j u s = ?s2\<lparr>co_queue := jobEnded j (co_queue ?s2)\<rparr>"
    by (simp add: coverArrived_def e Let_def)
  ultimately show ?thesis using ended_covers [of ?s2 j] j by simp
qed

lemma cover_step_inv:
  assumes inv: "covers_inv s" and ev: "cover_enabled ev s"
  shows "covers_inv (cover_step ev s)"
proof (cases ev)
  case (Mount cd bookId coverSize version hasElement)
  let ?k = "coverKey bookId coverSize version"
  obtain r c where g: "getCachedCoverUrl ?k (co_cache s) = (r, c)" by fastforce
  have "jobs_ok (s\<lparr>co_effects := co_effects s @ [\<lparr>ef_card = cd, ef_bookId = bookId, ef_cacheKey = ?k,
      ef_disposed = False, ef_cancelFetch = None\<rparr>]\<rparr>)"
    using inv by (simp add: covers_inv_def jobs_ok_def job_below_def)
  then show ?thesis
    using Mount g inv covers_inv_get [OF inv, of ?k]
    by (auto simp: mountEffect_def covers_inv_def split: option.splits)
next
  case (Observe e b)
  obtain r c where g: "getCachedCoverUrl (ef_cacheKey (co_effects s ! e)) (co_cache s) = (r, c)" by fastforce
  from Observe ev have "e < length (co_effects s)" by simp
  then show ?thesis
    using Observe g inv covers_inv_get [OF inv, of "ef_cacheKey (co_effects s ! e)"] startFetch_inv stopFetch_inv
    by (simp add: observed_def split: option.splits)
next
  case (CleanUp e)
  then have e: "e < length (co_effects s)" using ev by simp
  then have "covers_inv (updEffect e (\<lambda>ef. ef\<lparr>ef_disposed := True\<rparr>) s)" using inv by (intro covers_inv_effect) simp_all
  with e CleanUp show ?thesis by (simp add: cleanUpEffect_def stopFetch_inv updEffect_def)
next
  case (Arrive j u)
  then show ?thesis using coverArrived_inv [OF inv] ev by simp
next
  case (Render cd key)
  then show ?thesis
    using covers_inv_get [OF inv, of key] inv by (auto simp: shownCover_def split: prod.splits option.splits)
next
  case ClearCovers
  have "cache_inv (clearCoverUrlCache (co_cache s))"
    by (simp add: cache_inv_def urls_ok_def clearCoverUrlCache_def)
  moreover have "held (clearCoverUrlCache (co_cache s)) + freed (clearCoverUrlCache (co_cache s)) =
      held (co_cache s) + freed (co_cache s)"
    by (simp add: ledger_defs clearCoverUrlCache_def ac_simps)
  ultimately show ?thesis using ClearCovers covers_inv_cache [OF inv] by simp
qed

lemma cover_reach_inv: "cover_reach s \<Longrightarrow> covers_inv s"
proof (induction rule: cover_reach.induct)
  case start
  show ?case
    by (simp add: covers_inv_def covers_init_def queue_inv_def queue_core_def queue_busy_def queue_init_def jobs_ok_def
        cache_inv_def urls_ok_def cache_init_def ledger_defs)
qed (rule cover_step_inv)

section \<open>Properties\<close>

text \<open>
  \<^bold>\<open>C17\<close> (covers). In every state that cards can reach by mounting, scrolling, unmounting and receiving
  covers: at most six downloads run, as many as the counter says; a download waits only while six run,
  and none that waits was cancelled; at most 200 object URLs are cached; and every object URL ever made
  is cached or was revoked, exactly once.
\<close>

theorem covers_bounded_and_released:
  assumes "cover_reach s"
  shows "cq_activeCount (co_queue s) = length (cq_running (co_queue s)) \<and> cq_activeCount (co_queue s) \<le> 6 \<and>
    (cq_pendingQueue (co_queue s) = [] \<or> cq_activeCount (co_queue s) = 6) \<and>
    set (cq_pendingQueue (co_queue s)) \<inter> set (cq_cancelled (co_queue s)) = {} \<and>
    length (cu_cache (co_cache s)) \<le> 200 \<and>
    mset (co_created s) = mset (map snd (cu_cache (co_cache s))) + mset (cu_revoked (co_cache s)) \<and>
    distinct (map snd (cu_cache (co_cache s)) @ cu_revoked (co_cache s))"
proof -
  have inv: "covers_inv s" using assms by (rule cover_reach_inv)
  then have m: "mset (co_created s) = mset (map snd (cu_cache (co_cache s)) @ cu_revoked (co_cache s))"
    by (simp add: covers_inv_def ledger_defs)
  have "distinct (co_created s)" using inv by (simp add: covers_inv_def)
  then have "distinct (map snd (cu_cache (co_cache s)) @ cu_revoked (co_cache s))"
    using m by (metis mset_eq_imp_distinct_iff)
  with inv m show ?thesis
    by (auto simp: covers_inv_def queue_inv_def queue_core_def queue_busy_def MAX_CONCURRENT_def cache_inv_def
        MAX_CACHED_COVERS_def)
qed

text \<open>Seven cards are mounted and scrolled into view; six downloads run and one waits.\<close>

fun cover_trace :: "cover_event list \<Rightarrow> covers \<Rightarrow> bool" where
  "cover_trace [] s = True"
| "cover_trace (ev # evs) s = (cover_enabled ev s \<and> cover_trace evs (cover_step ev s))"

lemma cover_trace_reach: "cover_trace evs s \<Longrightarrow> cover_reach s \<Longrightarrow> cover_reach (fold cover_step evs s)"
  by (induction evs s rule: cover_trace.induct) (auto intro: cover_reach.step)

definition sampleEvents :: "cover_event list" where
  "sampleEvents = concat (map (\<lambda>i. [Mount i [i] None None True, Observe i True]) [0..<7])"

lemma sample_trace:
  "cover_trace sampleEvents covers_init"
  "cq_pendingQueue (co_queue (fold cover_step sampleEvents covers_init)) = [6]"
  "cover_enabled (Arrive 0 (Some [1])) (fold cover_step sampleEvents covers_init)"
  by code_simp+

lemmas sample_reach = cover_trace_reach [OF sample_trace(1) cover_reach.start]

theorem covers_bounded_and_released_witness:
  "length (cu_cache (co_cache (fold cover_step sampleEvents covers_init))) \<le> 200"
  using covers_bounded_and_released [OF sample_reach] by blast

text \<open>
  \<^bold>\<open>C18\<close> (waiting covers make progress). Whenever a running download ends, successfully or not, cancelled
  or not, the first waiting one starts in its place.
\<close>

theorem waiting_cover_starts:
  assumes "cover_reach s" and "cover_enabled (Arrive j u) s" and "cq_pendingQueue (co_queue s) = next # rest"
  shows "cq_running (co_queue (cover_step (Arrive j u) s)) = remove1 j (cq_running (co_queue s)) @ [next] \<and>
    cq_pendingQueue (co_queue (cover_step (Arrive j u) s)) = rest"
proof -
  have inv: "queue_inv (co_queue s)" "jobs_ok s" using cover_reach_inv [OF assms(1)] by (simp_all add: covers_inv_def)
  have j: "j \<in> set (cq_running (co_queue s))" using assms(2) by simp
  then have q: "co_queue (coverArrived j u s) = jobEnded j (co_queue s)"
    using inv(2) by (intro coverArrived_queue) (auto simp: jobs_ok_def list_all_iff)
  have full: "cq_activeCount (co_queue s) = MAX_CONCURRENT"
    using inv(1) assms(3) by (simp add: queue_inv_def queue_busy_def)
  have "cq_pendingQueue (jobEnded j (co_queue s)) = rest"
    using processQueue_spec [OF ended_core [OF inv(1) j]] full assms(3)
    by (simp add: jobEnded_def MAX_CONCURRENT_def)
  then show ?thesis using ended_inv(4) [OF inv(1) j] assms(3) q by simp
qed

theorem waiting_cover_starts_witness:
  "cq_pendingQueue (co_queue (cover_step (Arrive 0 (Some [1])) (fold cover_step sampleEvents covers_init))) = []"
  using waiting_cover_starts [OF sample_reach sample_trace(3) sample_trace(2)] by blast

text \<open>Storing a cover drops the entries of the same book in other sizes too: a card that shows the
  thumbnail keeps a URL that is revoked when another card loads the full cover.\<close>

lemma thumbnail_revoked_while_shown:
  "let evs = [Mount 0 [1] (Some [2]) None True, Observe 0 True, Arrive 0 (Some [7]),
        Mount 1 [1] None None True, Observe 1 True, Arrive 1 (Some [8])];
      s = fold cover_step evs covers_init in
   cover_trace evs covers_init \<and> fst (shownCover 0 (coverKey [1] (Some [2]) None) s) = Some [7] \<and>
   [7] \<in> set (cu_revoked (co_cache s))"
  by code_simp

end
