(* ===== verification/Reading_Progress.thy ===== *)
theory Reading_Progress
  imports Api_Types
begin

text \<open>
  \<^verbatim>\<open>frontend/src/hooks/useProgress.ts\<close>: the reading position of one book, saved to the server with a
  check for concurrent changes, kept in \<^verbatim>\<open>localStorage\<close> while the network is away, and sent later from a
  queue. Each step is the code between two suspensions: a call of the hook, a timer, the answer to a
  request. \<^verbatim>\<open>localStorage\<close> is taken not to fail; \<^verbatim>\<open>Date.parse\<close> is a parameter.
\<close>

section \<open>Data\<close>

record progressSnapshot =
  ps_cfi :: ustring
  ps_percentage :: "real option"
  ps_updated_at :: "ustring option"
  ps_device_id :: "ustring option"
  ps_remote :: "bool option"

type_synonym position = "ustring \<times> real"

text \<open>A stored text is JSON of an object, whose properties may be missing, or not JSON at all.\<close>

record cachedProgress =
  cp_cfi :: "ustring option"
  cp_percentage :: "real option"
  cp_updated_at :: "ustring option"
  cp_device_id :: "ustring option"

datatype 'a storedJson = Malformed | Json (json_value: 'a)

record progressStorage =
  st_progress :: "(ustring, cachedProgress storedJson) omap"
  st_pendingSync :: "ustring list storedJson option"
  st_deviceId :: "ustring option"

record saveRequest =
  sr_bookId :: ustring
  sr_cfi :: "ustring option"
  sr_percentage :: "real option"
  sr_expectedUpdatedAt :: "ustring option"
  sr_deviceId :: "ustring option"

text \<open>A request of \<^verbatim>\<open>syncOfflineProgressQueue\<close> under way: its book, the books still to do, and \<^verbatim>\<open>nextQueue\<close>.\<close>

type_synonym syncWait = "ustring \<times> ustring list \<times> ustring list"

record progressHook =
  ph_bookId :: ustring
  ph_progress :: "progressSnapshot option"
  ph_isLoading :: bool
  ph_lastSaved :: "progressSnapshot option"
  ph_pendingSave :: "position option"
  ph_saving :: bool
  ph_debounce :: "position option"
  ph_deviceId :: "ustring option"
  ph_storage :: progressStorage
  ph_sent :: "saveRequest list"
  ph_saves :: "(nat \<times> position) list"
  ph_conflicts :: "nat list"
  ph_nextSave :: nat
  ph_syncs :: "syncWait list"

section \<open>Start and device\<close>

definition readOfflineProgressSnapshot :: "progressStorage \<Rightarrow> ustring \<Rightarrow> progressSnapshot option" where
  "readOfflineProgressSnapshot st bookId =
    (case mapGet (st_progress st) bookId of
       Some (Json c) \<Rightarrow>
        (case truthy (cp_cfi c) of
           None \<Rightarrow> None
         | Some cfi \<Rightarrow> Some \<lparr>ps_cfi = cfi, ps_percentage = Some (nullish (cp_percentage c) 0),
             ps_updated_at = cp_updated_at c, ps_device_id = cp_device_id c, ps_remote = Some False\<rparr>)
     | _ \<Rightarrow> None)"

definition useProgress :: "ustring \<Rightarrow> progressStorage \<Rightarrow> progressHook" where
  "useProgress bookId st =
    (let offline = readOfflineProgressSnapshot st bookId in
     \<lparr>ph_bookId = bookId, ph_progress = offline, ph_isLoading = (offline = None), ph_lastSaved = offline,
      ph_pendingSave = None, ph_saving = False, ph_debounce = None, ph_deviceId = None, ph_storage = st,
      ph_sent = [], ph_saves = [], ph_conflicts = [], ph_nextSave = 0, ph_syncs = []\<rparr>)"

text \<open>\<open>fresh\<close> is the identifier that is generated if the device has none.\<close>

definition getDeviceId :: "ustring \<Rightarrow> progressHook \<Rightarrow> ustring \<times> progressHook" where
  "getDeviceId fresh s =
    (case truthy (ph_deviceId s) of
       Some d \<Rightarrow> (d, s)
     | None \<Rightarrow>
        (case truthy (st_deviceId (ph_storage s)) of
           Some d \<Rightarrow> (d, s\<lparr>ph_deviceId := Some d\<rparr>)
         | None \<Rightarrow> (fresh, s\<lparr>ph_deviceId := Some fresh, ph_storage := (ph_storage s)\<lparr>st_deviceId := Some fresh\<rparr>\<rparr>)))"

lemma useProgress_storage [simp]: "ph_storage (useProgress bookId st) = st"
  by (simp add: useProgress_def Let_def)

section \<open>Loading\<close>

definition applyLoadedProgress :: "cachedProgress \<Rightarrow> progressHook \<Rightarrow> progressHook" where
  "applyLoadedProgress d s =
    (case truthy (cp_cfi d) of
       None \<Rightarrow> s
     | Some cfi \<Rightarrow>
        (let snapshot = \<lparr>ps_cfi = cfi, ps_percentage = cp_percentage d, ps_updated_at = cp_updated_at d,
               ps_device_id = cp_device_id d, ps_remote = Some True\<rparr> in
         s\<lparr>ph_progress := Some snapshot, ph_lastSaved := Some snapshot\<rparr>))"

definition fromServer :: "progress \<Rightarrow> cachedProgress" where
  "fromServer p = \<lparr>cp_cfi = Some (pr_cfi p), cp_percentage = Some (pr_percentage p),
     cp_updated_at = Some (pr_updated_at p), cp_device_id = pr_device_id p\<rparr>"

definition timeOf :: "(ustring \<Rightarrow> jsnum) \<Rightarrow> ustring option \<Rightarrow> jsnum" where
  "timeOf dateParse t = (case truthy t of Some x \<Rightarrow> dateParse x | None \<Rightarrow> Fin 0)"

definition later_than :: "jsnum \<Rightarrow> jsnum \<Rightarrow> bool" where
  "later_than a b = (case (a, b) of (Fin x, Fin y) \<Rightarrow> y < x | _ \<Rightarrow> False)"

definition loadProgress :: "(ustring \<Rightarrow> jsnum) \<Rightarrow> app_error + progress \<Rightarrow> progressHook \<Rightarrow> progressHook" where
  "loadProgress dateParse answer s =
    (let cached = mapGet (st_progress (ph_storage s)) (ph_bookId s);
         s1 = (case answer of
           Inr p \<Rightarrow>
            (let s0 = applyLoadedProgress (fromServer p) s in
             case cached of
               Some (Json c) \<Rightarrow>
                (if later_than (timeOf dateParse (cp_updated_at c)) (timeOf dateParse (Some (pr_updated_at p)))
                 then applyLoadedProgress c s0 else s0)
             | _ \<Rightarrow> s0)
         | Inl _ \<Rightarrow>
            (case cached of Some (Json c) \<Rightarrow> applyLoadedProgress c s | _ \<Rightarrow> s)) in
     s1\<lparr>ph_isLoading := False\<rparr>)"

text \<open>The refresh on focus is only asked for in a quiet state; the answer is compared with the snapshot at
  that later time.\<close>

definition wantsRefresh :: "progressHook \<Rightarrow> bool" where
  "wantsRefresh s \<longleftrightarrow> ph_lastSaved s \<noteq> None \<and> \<not> ph_saving s \<and> ph_pendingSave s = None"

definition refreshRemoteProgress ::
  "(ustring \<Rightarrow> jsnum) \<Rightarrow> ustring \<Rightarrow> app_error + progress \<Rightarrow> progressHook \<Rightarrow> progressHook" where
  "refreshRemoteProgress dateParse fresh answer s =
    (case answer of
       Inl _ \<Rightarrow> s
     | Inr p \<Rightarrow>
        (if pr_cfi p = [] \<or> pr_updated_at p = [] then s
         else if later_than (dateParse (pr_updated_at p)) (timeOf dateParse (Option.bind (ph_lastSaved s) ps_updated_at)) then
          (case getDeviceId fresh s of
             (d, s1) \<Rightarrow> if pr_device_id p \<noteq> Some d then applyLoadedProgress (fromServer p) s1 else s1)
         else s))"

section \<open>Saving\<close>

definition hasMeaningfulChange :: "position \<Rightarrow> progressHook \<Rightarrow> bool" where
  "hasMeaningfulChange d s =
    (case ph_lastSaved s of
       None \<Rightarrow> True
     | Some l \<Rightarrow> fst d \<noteq> ps_cfi l \<or>
         (case ps_percentage l of Some p \<Rightarrow> 1 \<le> \<bar>snd d - p\<bar> | None \<Rightarrow> False))"

definition savesTo :: "position \<Rightarrow> ustring \<Rightarrow> progressHook \<Rightarrow> saveRequest" where
  "savesTo d device s = \<lparr>sr_bookId = ph_bookId s, sr_cfi = Some (fst d), sr_percentage = Some (snd d),
     sr_expectedUpdatedAt = Option.bind (ph_lastSaved s) ps_updated_at, sr_deviceId = Some device\<rparr>"

definition saveProgress :: "ustring \<Rightarrow> position \<Rightarrow> bool \<Rightarrow> progressHook \<Rightarrow> progressHook" where
  "saveProgress fresh d force s =
    (if \<not> force \<and> ph_saving s then s
     else if \<not> force \<and> \<not> hasMeaningfulChange d s then s
     else case getDeviceId fresh (s\<lparr>ph_saving := True\<rparr>) of
       (device, s1) \<Rightarrow>
         s1\<lparr>ph_sent := ph_sent s1 @ [savesTo d device s1], ph_saves := ph_saves s1 @ [(ph_nextSave s1, d)],
            ph_nextSave := ph_nextSave s1 + 1\<rparr>)"

definition clearPending :: "position \<Rightarrow> progressHook \<Rightarrow> progressHook" where
  "clearPending d s = (if ph_pendingSave s = Some d then s\<lparr>ph_pendingSave := None\<rparr> else s)"

definition enqueueSync :: "ustring \<Rightarrow> progressStorage \<Rightarrow> progressStorage" where
  "enqueueSync bookId st =
    (case st_pendingSync st of
       Some Malformed \<Rightarrow> st
     | Some (Json q) \<Rightarrow> if bookId \<in> set q then st else st\<lparr>st_pendingSync := Some (Json (q @ [bookId]))\<rparr>
     | None \<Rightarrow> st\<lparr>st_pendingSync := Some (Json [bookId])\<rparr>)"

lemma enqueueSync_progress [simp]: "st_progress (enqueueSync bookId st) = st_progress st"
  by (simp add: enqueueSync_def split: option.splits storedJson.splits)

definition saveOffline :: "ustring \<Rightarrow> ustring \<Rightarrow> position \<Rightarrow> progressHook \<Rightarrow> progressHook" where
  "saveOffline fresh now d s =
    (case getDeviceId fresh s of
       (device, s1) \<Rightarrow>
        (let dev = or_else device (js ''offline-device'');
             snapshot = \<lparr>ps_cfi = fst d, ps_percentage = Some (snd d), ps_updated_at = Some now, ps_device_id = Some dev,
               ps_remote = Some False\<rparr>;
             st = (ph_storage s1)\<lparr>st_progress := mapSet (ph_bookId s1)
               (Json \<lparr>cp_cfi = Some (fst d), cp_percentage = Some (snd d), cp_updated_at = Some now, cp_device_id = Some dev\<rparr>)
               (st_progress (ph_storage s1))\<rparr> in
         clearPending d (s1\<lparr>ph_storage := enqueueSync (ph_bookId s1) st, ph_lastSaved := Some snapshot,
           ph_progress := Some snapshot\<rparr>)))"

definition savedSnapshot :: "progress \<Rightarrow> progressSnapshot" where
  "savedSnapshot p = \<lparr>ps_cfi = pr_cfi p, ps_percentage = Some (pr_percentage p), ps_updated_at = Some (pr_updated_at p),
     ps_device_id = pr_device_id p, ps_remote = Some False\<rparr>"

text \<open>The answer to save \<open>i\<close>; after a conflict the latest position is asked for, and \<^verbatim>\<open>saving\<close> ends with that
  second answer (\<open>conflictResolved\<close>).\<close>

definition saveAnswered ::
  "ustring \<Rightarrow> ustring \<Rightarrow> nat \<Rightarrow> app_error + progress \<Rightarrow> progressHook \<Rightarrow> progressHook" where
  "saveAnswered fresh now i answer s =
    (case map_of (ph_saves s) i of
       None \<Rightarrow> s
     | Some d \<Rightarrow>
        (let s0 = s\<lparr>ph_saves := filter (\<lambda>p. fst p \<noteq> i) (ph_saves s)\<rparr> in
         case answer of
           Inr p \<Rightarrow> (clearPending d (s0\<lparr>ph_lastSaved := Some (savedSnapshot p), ph_progress := Some (savedSnapshot p)\<rparr>))
             \<lparr>ph_saving := False\<rparr>
         | Inl (ApiError code msg body) \<Rightarrow>
            (if code = 409 then s0\<lparr>ph_conflicts := ph_conflicts s0 @ [i]\<rparr> else s0\<lparr>ph_saving := False\<rparr>)
         | Inl _ \<Rightarrow> (saveOffline fresh now d s0)\<lparr>ph_saving := False\<rparr>))"

definition conflictResolved :: "nat \<Rightarrow> app_error + progress \<Rightarrow> progressHook \<Rightarrow> progressHook" where
  "conflictResolved i answer s =
    (if i \<notin> set (ph_conflicts s) then s
     else
      let s0 = s\<lparr>ph_conflicts := remove1 i (ph_conflicts s), ph_saving := False\<rparr> in
      case answer of
        Inr p \<Rightarrow> (applyLoadedProgress (fromServer p) s0)\<lparr>ph_pendingSave := None\<rparr>
      | Inl _ \<Rightarrow> s0)"

definition debouncedSave :: "position \<Rightarrow> progressHook \<Rightarrow> progressHook" where
  "debouncedSave d s = s\<lparr>ph_debounce := Some d\<rparr>"

definition debounceFires :: "ustring \<Rightarrow> progressHook \<Rightarrow> progressHook" where
  "debounceFires fresh s =
    (case ph_debounce s of Some d \<Rightarrow> saveProgress fresh d False (s\<lparr>ph_debounce := None\<rparr>) | None \<Rightarrow> s)"

definition autoSaveTick :: "progressHook \<Rightarrow> progressHook" where
  "autoSaveTick s =
    (case ph_pendingSave s of Some d \<Rightarrow> if ph_saving s then s else debouncedSave d s | None \<Rightarrow> s)"

definition pageHidden :: "ustring \<Rightarrow> progressHook \<Rightarrow> progressHook" where
  "pageHidden fresh s = (case ph_pendingSave s of Some d \<Rightarrow> saveProgress fresh d True s | None \<Rightarrow> s)"

definition handleBeforeUnload :: "ustring \<Rightarrow> progressHook \<Rightarrow> progressHook" where
  "handleBeforeUnload fresh s =
    (case ph_pendingSave s of
       Some d \<Rightarrow>
        (if hasMeaningfulChange d s
         then (case getDeviceId fresh s of (device, s1) \<Rightarrow> s1\<lparr>ph_sent := ph_sent s1 @ [savesTo d device s1]\<rparr>)
         else s)
     | None \<Rightarrow> s)"

definition updateProgress :: "ustring \<Rightarrow> real \<Rightarrow> progressHook \<Rightarrow> progressHook" where
  "updateProgress cfi percentage s =
    s\<lparr>ph_progress := Some \<lparr>ps_cfi = cfi, ps_percentage = Some percentage, ps_updated_at = None, ps_device_id = None,
        ps_remote = None\<rparr>,
      ph_pendingSave := Some (cfi, percentage)\<rparr>"

definition saveNow :: "ustring \<Rightarrow> progressHook \<Rightarrow> progressHook" where
  "saveNow fresh s =
    (let s1 = s\<lparr>ph_debounce := None\<rparr> in
     case ph_pendingSave s1 of Some d \<Rightarrow> saveProgress fresh d True s1 | None \<Rightarrow> s1)"

definition unmount :: "progressHook \<Rightarrow> progressHook" where
  "unmount s = s\<lparr>ph_debounce := None\<rparr>"

section \<open>Sending the queue\<close>

text \<open>The loop of \<^verbatim>\<open>syncOfflineProgressQueue\<close> up to its next request: it ends and writes \<^verbatim>\<open>nextQueue\<close>, fails on
  a snapshot that is not JSON, or sends a snapshot.\<close>

datatype syncNext = SyncDone "ustring list" | SyncFailed | SyncAsk ustring cachedProgress "ustring list" "ustring list"

fun syncAdvance :: "progressStorage \<Rightarrow> ustring list \<Rightarrow> ustring list \<Rightarrow> syncNext" where
  "syncAdvance st [] nextQueue = SyncDone nextQueue"
| "syncAdvance st (i # is) nextQueue =
    (case mapGet (st_progress st) i of
       None \<Rightarrow> syncAdvance st is (remove1 i nextQueue)
     | Some Malformed \<Rightarrow> SyncFailed
     | Some (Json c) \<Rightarrow> SyncAsk i c is nextQueue)"

definition syncFinish :: "ustring list \<Rightarrow> progressHook \<Rightarrow> progressHook" where
  "syncFinish nextQueue s = s\<lparr>ph_storage := (ph_storage s)\<lparr>st_pendingSync := Some (Json nextQueue)\<rparr>\<rparr>"

definition syncRequest :: "ustring \<Rightarrow> ustring \<Rightarrow> cachedProgress \<Rightarrow> progressHook \<Rightarrow> progressHook" where
  "syncRequest fresh i c s =
    (case (case truthy (cp_device_id c) of Some d \<Rightarrow> (d, s) | None \<Rightarrow> getDeviceId fresh s) of
       (device, s1) \<Rightarrow> s1\<lparr>ph_sent := ph_sent s1 @ [\<lparr>sr_bookId = i, sr_cfi = cp_cfi c, sr_percentage = cp_percentage c,
         sr_expectedUpdatedAt = None, sr_deviceId = Some device\<rparr>]\<rparr>)"

definition syncGo :: "ustring \<Rightarrow> ustring list \<Rightarrow> ustring list \<Rightarrow> progressHook \<Rightarrow> syncWait option \<times> progressHook" where
  "syncGo fresh is nextQueue s =
    (case syncAdvance (ph_storage s) is nextQueue of
       SyncDone nq \<Rightarrow> (None, syncFinish nq s)
     | SyncFailed \<Rightarrow> (None, s)
     | SyncAsk i c rest nq \<Rightarrow> (Some (i, rest, nq), syncRequest fresh i c s))"

definition syncOfflineProgressQueue :: "ustring \<Rightarrow> progressHook \<Rightarrow> syncWait option \<times> progressHook" where
  "syncOfflineProgressQueue fresh s =
    (case st_pendingSync (ph_storage s) of
       Some (Json q) \<Rightarrow> if q = [] then (None, s) else syncGo fresh q q s
     | _ \<Rightarrow> (None, s))"

text \<open>The answer to a snapshot that was sent: done or refused for good, or a failure of the network.\<close>

definition settled :: "app_error + progress \<Rightarrow> bool" where
  "settled answer = (case answer of Inr _ \<Rightarrow> True | Inl e \<Rightarrow> isApiError e)"

definition syncAnswered ::
  "ustring \<Rightarrow> syncWait \<Rightarrow> app_error + progress \<Rightarrow> progressHook \<Rightarrow> syncWait option \<times> progressHook" where
  "syncAnswered fresh w answer s =
    (case w of
       (i, rest, nq) \<Rightarrow>
        (if settled answer
         then syncGo fresh rest (remove1 i nq)
           (s\<lparr>ph_storage := (ph_storage s)\<lparr>st_progress := mapDelete i (st_progress (ph_storage s))\<rparr>\<rparr>)
         else (None, syncFinish nq s)))"

section \<open>Interleavings\<close>

datatype progress_event =
    Update ustring real
  | SaveNow ustring
  | Tick
  | DebounceFires ustring
  | Hidden ustring
  | Unload ustring
  | SaveAnswer ustring ustring nat "app_error + progress"
  | ConflictAnswer nat "app_error + progress"
  | Load "app_error + progress"
  | Refreshed ustring "app_error + progress"
  | SyncStart ustring
  | SyncAnswer ustring nat "app_error + progress"
  | Unmount

definition waitSync :: "syncWait list \<Rightarrow> syncWait option \<times> progressHook \<Rightarrow> progressHook" where
  "waitSync ws r = (case r of (w, s) \<Rightarrow> s\<lparr>ph_syncs := ws @ (case w of Some x \<Rightarrow> [x] | None \<Rightarrow> [])\<rparr>)"

fun progress_step :: "(ustring \<Rightarrow> jsnum) \<Rightarrow> progress_event \<Rightarrow> progressHook \<Rightarrow> progressHook" where
  "progress_step dp (Update cfi p) s = updateProgress cfi p s"
| "progress_step dp (SaveNow f) s = saveNow f s"
| "progress_step dp Tick s = autoSaveTick s"
| "progress_step dp (DebounceFires f) s = debounceFires f s"
| "progress_step dp (Hidden f) s = pageHidden f s"
| "progress_step dp (Unload f) s = handleBeforeUnload f s"
| "progress_step dp (SaveAnswer f now i a) s = saveAnswered f now i a s"
| "progress_step dp (ConflictAnswer i a) s = conflictResolved i a s"
| "progress_step dp (Load a) s = loadProgress dp a s"
| "progress_step dp (Refreshed f a) s = refreshRemoteProgress dp f a s"
| "progress_step dp (SyncStart f) s = waitSync (ph_syncs s) (syncOfflineProgressQueue f s)"
| "progress_step dp (SyncAnswer f k a) s =
    (if k < length (ph_syncs s)
     then waitSync (take k (ph_syncs s) @ drop (k + 1) (ph_syncs s)) (syncAnswered f (ph_syncs s ! k) a s) else s)"
| "progress_step dp Unmount s = unmount s"

definition progress_run :: "(ustring \<Rightarrow> jsnum) \<Rightarrow> progress_event list \<Rightarrow> ustring \<Rightarrow> progressStorage \<Rightarrow> progressHook" where
  "progress_run dp evs bookId st = fold (progress_step dp) evs (useProgress bookId st)"

section \<open>Frames\<close>

lemma getDeviceId_frame [simp]:
  "ph_bookId (snd (getDeviceId f s)) = ph_bookId s" "ph_progress (snd (getDeviceId f s)) = ph_progress s"
  "ph_lastSaved (snd (getDeviceId f s)) = ph_lastSaved s" "ph_pendingSave (snd (getDeviceId f s)) = ph_pendingSave s"
  "ph_saving (snd (getDeviceId f s)) = ph_saving s" "ph_saves (snd (getDeviceId f s)) = ph_saves s"
  "ph_conflicts (snd (getDeviceId f s)) = ph_conflicts s" "ph_sent (snd (getDeviceId f s)) = ph_sent s"
  "ph_syncs (snd (getDeviceId f s)) = ph_syncs s" "ph_nextSave (snd (getDeviceId f s)) = ph_nextSave s"
  "st_progress (ph_storage (snd (getDeviceId f s))) = st_progress (ph_storage s)"
  "st_pendingSync (ph_storage (snd (getDeviceId f s))) = st_pendingSync (ph_storage s)"
  by (simp_all add: getDeviceId_def split: option.splits)

lemma apply_frame [simp]:
  "ph_pendingSave (applyLoadedProgress d s) = ph_pendingSave s" "ph_saving (applyLoadedProgress d s) = ph_saving s"
  "ph_saves (applyLoadedProgress d s) = ph_saves s" "ph_conflicts (applyLoadedProgress d s) = ph_conflicts s"
  "ph_storage (applyLoadedProgress d s) = ph_storage s" "ph_bookId (applyLoadedProgress d s) = ph_bookId s"
  by (simp_all add: applyLoadedProgress_def Let_def split: option.splits)

lemma syncRequest_frame [simp]:
  "ph_pendingSave (syncRequest f i c s) = ph_pendingSave s" "ph_saving (syncRequest f i c s) = ph_saving s"
  "ph_saves (syncRequest f i c s) = ph_saves s" "ph_conflicts (syncRequest f i c s) = ph_conflicts s"
  "st_progress (ph_storage (syncRequest f i c s)) = st_progress (ph_storage s)"
  "\<exists>dev. ph_sent (syncRequest f i c s) = ph_sent s @ [\<lparr>sr_bookId = i, sr_cfi = cp_cfi c, sr_percentage = cp_percentage c,
     sr_expectedUpdatedAt = None, sr_deviceId = Some dev\<rparr>]"
  by (cases "truthy (cp_device_id c)"; simp add: syncRequest_def case_prod_beta)+

lemma syncGo_frame [simp]:
  "ph_pendingSave (snd (syncGo f is nq s)) = ph_pendingSave s" "ph_saving (snd (syncGo f is nq s)) = ph_saving s"
  "ph_saves (snd (syncGo f is nq s)) = ph_saves s" "ph_conflicts (snd (syncGo f is nq s)) = ph_conflicts s"
  by (simp_all add: syncGo_def syncFinish_def split: syncNext.splits)

lemma waitSync_frame [simp]:
  "ph_pendingSave (waitSync ws r) = ph_pendingSave (snd r)" "ph_saving (waitSync ws r) = ph_saving (snd r)"
  "ph_saves (waitSync ws r) = ph_saves (snd r)" "ph_conflicts (waitSync ws r) = ph_conflicts (snd r)"
  by (simp_all add: waitSync_def split: prod.splits)

section \<open>The queue is sent in order\<close>

lemma syncAdvance_shorter: "syncAdvance st is nq = SyncAsk i c rest nq' \<Longrightarrow> length rest < length is"
  by (induction st "is" nq rule: syncAdvance.induct) (auto split: option.splits storedJson.splits)

text \<open>One undisturbed run of the loop, with the answer to each book's request.\<close>

function syncLoop ::
  "ustring \<Rightarrow> (ustring \<Rightarrow> app_error + progress) \<Rightarrow> syncWait option \<times> progressHook \<Rightarrow> progressHook" where
  "syncLoop fresh answer (None, s) = s"
| "syncLoop fresh answer (Some (i, rest, nq), s) = syncLoop fresh answer (syncAnswered fresh (i, rest, nq) (answer i) s)"
  by pat_completeness auto
termination
  by (relation "measure (\<lambda>(f, a, w, s). case w of None \<Rightarrow> 0 | Some (i, rest, nq) \<Rightarrow> Suc (length rest))")
    (auto simp: syncAnswered_def syncGo_def split: syncNext.splits option.splits if_splits dest: syncAdvance_shorter)

definition sentSnapshots :: "progressStorage \<Rightarrow> ustring list \<Rightarrow> (ustring \<times> ustring option \<times> real option) list" where
  "sentSnapshots st is = concat (map (\<lambda>i. case mapGet (st_progress st) i of
     Some (Json c) \<Rightarrow> [(i, cp_cfi c, cp_percentage c)] | _ \<Rightarrow> []) is)"

definition sentData :: "saveRequest \<Rightarrow> ustring \<times> ustring option \<times> real option" where
  "sentData r = (sr_bookId r, sr_cfi r, sr_percentage r)"

definition handled :: "progressStorage \<Rightarrow> (ustring \<Rightarrow> app_error + progress) \<Rightarrow> ustring \<Rightarrow> bool" where
  "handled st answer i \<longleftrightarrow> mapGet (st_progress st) i = None \<or> settled (answer i)"

lemma handled_cong:
  assumes "i \<notin> set is" and "st_progress st' = mapDelete i (st_progress st)"
  shows "takeWhile (handled st' answer) is = takeWhile (handled st answer) is"
    "dropWhile (handled st' answer) is = dropWhile (handled st answer) is"
proof -
  have "handled st' answer j = handled st answer j" if "j \<in> set is" for j
    using assms that by (cases "j = i") (simp_all add: handled_def)
  then show "takeWhile (handled st' answer) is = takeWhile (handled st answer) is"
    "dropWhile (handled st' answer) is = dropWhile (handled st answer) is"
    by (auto intro: takeWhile_cong dropWhile_cong)
qed

lemma sentSnapshots_cong:
  "i \<notin> set is \<Longrightarrow> st_progress st' = mapDelete i (st_progress st) \<Longrightarrow> sentSnapshots st' is = sentSnapshots st is"
  by (auto simp: sentSnapshots_def intro!: arg_cong [of _ _ concat] map_cong)

lemma syncLoop_queue:
  fixes s :: progressHook and fresh :: ustring and answer :: "ustring \<Rightarrow> app_error + progress" and "is" :: "ustring list"
  assumes "distinct is" and "list_all (\<lambda>i. mapGet (st_progress (ph_storage s)) i \<noteq> Some Malformed) is"
  defines "r \<equiv> syncLoop fresh answer (syncGo fresh is is s)"
    and "hd1 \<equiv> \<lambda>st. takeWhile (handled st answer) is @ take 1 (dropWhile (handled st answer) is)"
  shows "st_pendingSync (ph_storage r) = Some (Json (dropWhile (handled (ph_storage s) answer) is)) \<and>
    (\<forall>i. mapGet (st_progress (ph_storage r)) i =
      (if i \<in> set (takeWhile (handled (ph_storage s) answer) is) then None else mapGet (st_progress (ph_storage s)) i)) \<and>
    map sentData (ph_sent r) = map sentData (ph_sent s) @ sentSnapshots (ph_storage s) (hd1 (ph_storage s))"
  using assms(1,2) unfolding r_def hd1_def
proof (induction "is" arbitrary: s)
  case Nil
  then show ?case by (simp add: syncGo_def syncFinish_def sentSnapshots_def)
next
  case (Cons i "is")
  let ?st = "ph_storage s"
  show ?case
  proof (cases "mapGet (st_progress ?st) i")
    case None
    then have "syncGo fresh (i # is) (i # is) s = syncGo fresh is is s" by (simp add: syncGo_def)
    then show ?thesis using Cons None by (simp add: sentSnapshots_def handled_def)
  next
    case (Some j)
    then obtain c where c: "mapGet (st_progress ?st) i = Some (Json c)" using Cons.prems by (cases j) auto
    let ?s = "syncRequest fresh i c s"
    have go: "syncGo fresh (i # is) (i # is) s = (Some (i, is, i # is), ?s)" using c by (simp add: syncGo_def)
    obtain dev where sent: "ph_sent ?s = ph_sent s @ [\<lparr>sr_bookId = i, sr_cfi = cp_cfi c, sr_percentage = cp_percentage c,
        sr_expectedUpdatedAt = None, sr_deviceId = Some dev\<rparr>]" using syncRequest_frame(6) by blast
    have one: "sentSnapshots ?st [i] = [(i, cp_cfi c, cp_percentage c)]" using c by (simp add: sentSnapshots_def)
    show ?thesis
    proof (cases "settled (answer i)")
      case True
      define s' where "s' = ?s\<lparr>ph_storage := (ph_storage ?s)\<lparr>st_progress := mapDelete i (st_progress (ph_storage ?s))\<rparr>\<rparr>"
      have ni: "i \<notin> set is" using Cons.prems(1) by simp
      have p: "st_progress (ph_storage s') = mapDelete i (st_progress ?st)" by (simp add: s'_def)
      have sent': "map sentData (ph_sent s') = map sentData (ph_sent s) @ [(i, cp_cfi c, cp_percentage c)]"
        using sent by (simp add: s'_def sentData_def del: syncRequest_frame(6))
      have ih: "list_all (\<lambda>j. mapGet (st_progress (ph_storage s')) j \<noteq> Some Malformed) is"
        using Cons.prems(2) by (auto simp: list_all_iff p)
      have l: "syncLoop fresh answer (syncGo fresh (i # is) (i # is) s) = syncLoop fresh answer (syncGo fresh is is s')"
        using True by (simp add: go syncAnswered_def s'_def)
      have snap: "sentSnapshots ?st (i # xs) = (i, cp_cfi c, cp_percentage c) # sentSnapshots ?st xs" for xs
        using c by (simp add: sentSnapshots_def)
      let ?hd = "takeWhile (handled ?st answer) is @ take 1 (dropWhile (handled ?st answer) is)"
      have "i \<notin> set ?hd" using ni by (auto dest: set_takeWhileD in_set_takeD set_dropWhileD)
      then have sn: "sentSnapshots (ph_storage s') ?hd = sentSnapshots ?st ?hd" using p by (rule sentSnapshots_cong)
      have d: "handled ?st answer i" using True by (simp add: handled_def)
      from Cons.IH [OF _ ih] Cons.prems(1) show ?thesis
        unfolding l handled_cong [OF ni p] sn sent' p using d snap by simp
    next
      case False
      with c go sent one show ?thesis
        by (simp add: syncAnswered_def syncFinish_def sentData_def handled_def del: syncRequest_frame(6))
    qed
  qed
qed

section \<open>The saving flag and the unsaved position\<close>

definition saving_ok :: "progressHook \<Rightarrow> bool" where
  "saving_ok s \<longleftrightarrow> (ph_saving s \<longrightarrow> ph_saves s \<noteq> [] \<or> ph_conflicts s \<noteq> [])"

lemma saveProgress_cases:
  obtains "saveProgress f d force s = s"
  | "ph_saves (saveProgress f d force s) = ph_saves s @ [(ph_nextSave s, d)]"
    "ph_pendingSave (saveProgress f d force s) = ph_pendingSave s"
proof (cases "\<not> force \<and> (ph_saving s \<or> \<not> hasMeaningfulChange d s)")
  case True
  then have "saveProgress f d force s = s" by (auto simp: saveProgress_def)
  then show thesis by (rule that(1))
next
  case False
  then show thesis by (intro that(2)) (auto simp: saveProgress_def case_prod_beta)
qed

lemma saveProgress_pending [simp]: "ph_pendingSave (saveProgress f d force s) = ph_pendingSave s"
  by (cases f d force s rule: saveProgress_cases) auto

lemma saveProgress_ok: "saving_ok s \<Longrightarrow> saving_ok (saveProgress f d force s)"
  by (cases f d force s rule: saveProgress_cases) (auto simp: saving_ok_def)

lemma clearPending_frame [simp]:
  "ph_saving (clearPending d s) = ph_saving s" "ph_saves (clearPending d s) = ph_saves s"
  "ph_conflicts (clearPending d s) = ph_conflicts s"
  "ph_storage (clearPending d s) = ph_storage s" "ph_bookId (clearPending d s) = ph_bookId s"
  "ph_progress (clearPending d s) = ph_progress s" "ph_lastSaved (clearPending d s) = ph_lastSaved s"
  by (simp_all add: clearPending_def)

lemma progress_step_ok:
  assumes "saving_ok s"
  shows "saving_ok (progress_step dp ev s)"
proof (cases ev)
  case (SaveNow f)
  with assms show ?thesis
    using saveProgress_ok [of "s\<lparr>ph_debounce := None\<rparr>"]
    by (auto simp: saveNow_def Let_def saving_ok_def split: option.splits)
next
  case (DebounceFires f)
  with assms show ?thesis
    using saveProgress_ok [of "s\<lparr>ph_debounce := None\<rparr>"]
    by (auto simp: debounceFires_def saving_ok_def split: option.splits)
next
  case (Hidden f)
  with assms show ?thesis by (auto simp: pageHidden_def saveProgress_ok split: option.splits)
next
  case (SaveAnswer f now i a)
  with assms show ?thesis
    by (auto simp: saveAnswered_def saving_ok_def Let_def split: option.splits sum.splits app_error.splits)
next
  case (ConflictAnswer i a)
  with assms show ?thesis by (auto simp: conflictResolved_def saving_ok_def Let_def split: sum.splits)
next
  case (SyncStart f)
  with assms show ?thesis
    by (auto simp: syncOfflineProgressQueue_def saving_ok_def split: option.splits storedJson.splits)
next
  case (SyncAnswer f k a)
  with assms show ?thesis
    by (auto simp: syncAnswered_def saving_ok_def syncFinish_def split: prod.splits)
qed (use assms in \<open>auto simp: saving_ok_def updateProgress_def autoSaveTick_def debouncedSave_def handleBeforeUnload_def
    loadProgress_def refreshRemoteProgress_def unmount_def Let_def case_prod_beta
    split: option.splits sum.splits storedJson.splits\<close>)

lemma saveOffline_pending:
  "ph_pendingSave (saveOffline f now d s) = (if ph_pendingSave s = Some d then None else ph_pendingSave s)"
  by (simp add: saveOffline_def case_prod_beta Let_def clearPending_def)

text \<open>The events that may take an unsaved position away: it is replaced by a newer one, its own save
  succeeded or was kept offline, or the server's position is taken after a conflict.\<close>

fun replaces :: "position \<Rightarrow> progressHook \<Rightarrow> progress_event \<Rightarrow> bool" where
  "replaces d s (Update cfi p) = True"
| "replaces d s (SaveAnswer f now i a) = (map_of (ph_saves s) i = Some d \<and>
     (case a of Inr _ \<Rightarrow> True | Inl e \<Rightarrow> \<not> isApiError e))"
| "replaces d s (ConflictAnswer i a) = (i \<in> set (ph_conflicts s) \<and> (case a of Inr _ \<Rightarrow> True | Inl _ \<Rightarrow> False))"
| "replaces d s _ = False"

lemma pending_kept:
  assumes "ph_pendingSave s = Some d" and "\<not> replaces d s ev"
  shows "ph_pendingSave (progress_step dp ev s) = Some d"
proof (cases ev)
  case (SaveAnswer f now i a)
  with assms show ?thesis
    by (auto simp: saveAnswered_def Let_def clearPending_def saveOffline_pending
        split: option.splits sum.splits app_error.splits)
next
  case (ConflictAnswer i a)
  with assms show ?thesis by (auto simp: conflictResolved_def Let_def split: sum.splits)
next
  case (SyncStart f)
  with assms show ?thesis
    by (auto simp: syncOfflineProgressQueue_def split: option.splits storedJson.splits)
next
  case (SyncAnswer f k a)
  with assms show ?thesis by (auto simp: syncAnswered_def syncFinish_def split: prod.splits)
qed (use assms in \<open>auto simp: saveNow_def debounceFires_def pageHidden_def autoSaveTick_def debouncedSave_def
    handleBeforeUnload_def loadProgress_def refreshRemoteProgress_def unmount_def Let_def case_prod_beta
    split: option.splits sum.splits storedJson.splits\<close>)

section \<open>Properties\<close>

text \<open>
  \<^bold>\<open>C19\<close> (the offline queue is sent in order and nothing is lost). An undisturbed run of
  \<^verbatim>\<open>syncOfflineProgressQueue\<close> sends the stored positions of the queued books in order up to the first that
  the network fails on; the books before it are gone from the queue and from the storage, and that book
  and all after it stay queued with their positions untouched.
\<close>

theorem sync_sends_queue:
  fixes s :: progressHook and fresh :: ustring and answer :: "ustring \<Rightarrow> app_error + progress" and queue :: "ustring list"
  assumes "st_pendingSync (ph_storage s) = Some (Json queue)" and "distinct queue"
    and "list_all (\<lambda>i. mapGet (st_progress (ph_storage s)) i \<noteq> Some Malformed) queue"
  defines "r \<equiv> syncLoop fresh answer (syncOfflineProgressQueue fresh s)"
    and "sent \<equiv> takeWhile (handled (ph_storage s) answer) queue"
    and "kept \<equiv> dropWhile (handled (ph_storage s) answer) queue"
  shows "st_pendingSync (ph_storage r) = Some (Json kept) \<and>
    (\<forall>i. mapGet (st_progress (ph_storage r)) i = (if i \<in> set sent then None else mapGet (st_progress (ph_storage s)) i)) \<and>
    map sentData (ph_sent r) = map sentData (ph_sent s) @ sentSnapshots (ph_storage s) (sent @ take 1 kept)"
proof (cases "queue = []")
  case True
  then show ?thesis
    using assms(1) by (simp add: r_def sent_def kept_def syncOfflineProgressQueue_def sentSnapshots_def)
next
  case False
  then have "syncOfflineProgressQueue fresh s = syncGo fresh queue queue s"
    using assms(1) by (simp add: syncOfflineProgressQueue_def)
  then show ?thesis
    using syncLoop_queue [OF assms(2,3), of fresh answer] by (simp add: r_def sent_def kept_def)
qed

definition sampleStorage :: progressStorage where
  "sampleStorage = \<lparr>st_progress = [([1], Json \<lparr>cp_cfi = Some [7], cp_percentage = Some 3, cp_updated_at = None, cp_device_id = Some [9]\<rparr>)],
     st_pendingSync = Some (Json [[2], [1]]), st_deviceId = Some [9]\<rparr>"

theorem sync_sends_queue_witness:
  "st_pendingSync (ph_storage (syncLoop [5] (\<lambda>_. Inl (NamedErr []))
      (syncOfflineProgressQueue [5] (useProgress [1] sampleStorage)))) = Some (Json [[1]])"
  using sync_sends_queue [of "useProgress [1] sampleStorage" "[[2], [1]]" "[5]" "\<lambda>_. Inl (NamedErr [])"]
  by (simp add: sampleStorage_def handled_def settled_def)

text \<open>
  \<^bold>\<open>C20\<close> (a position that cannot be sent is kept). When a save fails without an answer of the API, the
  position is stored for the book and the book is queued; a reader opened later on that storage starts at
  exactly this position, also if the server cannot be reached.
\<close>

theorem offline_position_recovered:
  fixes s :: progressHook and fresh now cfi :: ustring and i :: nat and e :: app_error
  assumes "map_of (ph_saves s) i = Some (cfi, percentage)" and "cfi \<noteq> []" and "\<not> isApiError e"
    and "st_pendingSync (ph_storage s) \<noteq> Some Malformed"
  defines "st \<equiv> ph_storage (saveAnswered fresh now i (Inl e) s)"
  shows "(\<exists>queue. st_pendingSync st = Some (Json queue) \<and> ph_bookId s \<in> set queue) \<and>
    (let h = useProgress (ph_bookId s) st; h' = loadProgress dateParse (Inl e') h in
     map_option ps_cfi (ph_progress h) = Some cfi \<and> map_option ps_percentage (ph_progress h) = Some (Some percentage) \<and>
     \<not> ph_isLoading h \<and>
     map_option ps_cfi (ph_progress h') = Some cfi \<and> map_option ps_percentage (ph_progress h') = Some (Some percentage))"
proof -
  let ?s0 = "s\<lparr>ph_saves := filter (\<lambda>p. fst p \<noteq> i) (ph_saves s)\<rparr>"
  have st: "st = ph_storage (saveOffline fresh now (cfi, percentage) ?s0)"
    using assms(1,3) by (cases e) (simp_all add: st_def saveAnswered_def Let_def)
  have "\<exists>dev. mapGet (st_progress st) (ph_bookId s) = Some (Json \<lparr>cp_cfi = Some cfi,
      cp_percentage = Some percentage, cp_updated_at = Some now, cp_device_id = Some dev\<rparr>)"
    unfolding st saveOffline_def case_prod_beta Let_def by simp
  then obtain dev where stored: "mapGet (st_progress st) (ph_bookId s) = Some (Json \<lparr>cp_cfi = Some cfi,
      cp_percentage = Some percentage, cp_updated_at = Some now, cp_device_id = Some dev\<rparr>)" by blast
  have "\<exists>queue. st_pendingSync st = Some (Json queue) \<and> ph_bookId s \<in> set queue"
    using assms(4) unfolding st saveOffline_def case_prod_beta Let_def
    by (auto simp: enqueueSync_def split: option.splits storedJson.splits)
  with stored assms(2) show ?thesis
    by (simp add: useProgress_def Let_def readOfflineProgressSnapshot_def truthy_def loadProgress_def applyLoadedProgress_def)
qed

theorem offline_position_recovered_witness:
  "let s = saveProgress [5] ([7], 12) True (useProgress [1] sampleStorage);
       h = useProgress [1] (ph_storage (saveAnswered [5] [6] 0 (Inl (NamedErr [])) s)) in
   map_option ps_cfi (ph_progress h) = Some [7]"
proof -
  let ?s = "saveProgress [5] ([7], 12) True (useProgress [1] sampleStorage)"
  have "map_of (ph_saves ?s) 0 = Some ([7], 12)" "ph_bookId ?s = [1]" "st_pendingSync (ph_storage ?s) \<noteq> Some Malformed"
    by (simp_all add: saveProgress_def case_prod_beta) (simp_all add: useProgress_def Let_def sampleStorage_def)
  then show ?thesis
    using offline_position_recovered [of ?s 0 "[7]" 12 "NamedErr []" "[5]" "[6]"] by (simp add: Let_def)
qed

text \<open>
  \<^bold>\<open>C21\<close> (saving always comes to an end, and unsaved positions are kept). After any sequence of events the
  \<^verbatim>\<open>saving\<close> flag is set only while an answer is outstanding, so saving is never blocked for good; and an
  unsaved position stays pending until it is replaced by a newer one, its own save succeeds or is kept
  offline, or the server's position is taken over after a conflict.
\<close>

theorem saving_ends_and_pending_kept:
  fixes evs :: "progress_event list" and dp :: "ustring \<Rightarrow> jsnum" and bookId :: ustring and st :: progressStorage
  defines "s \<equiv> progress_run dp evs bookId st"
  shows "(ph_saving s \<longrightarrow> ph_saves s \<noteq> [] \<or> ph_conflicts s \<noteq> []) \<and>
    (ph_pendingSave s = Some d \<and> \<not> replaces d s ev \<longrightarrow> ph_pendingSave (progress_step dp ev s) = Some d)"
proof -
  have "saving_ok (fold (progress_step dp) evs h)" if "saving_ok h" for h
    using that by (induction evs arbitrary: h) (simp_all add: progress_step_ok)
  moreover have "saving_ok (useProgress bookId st)" by (simp add: useProgress_def Let_def saving_ok_def)
  ultimately show ?thesis
    using pending_kept [of s d ev dp] by (auto simp: saving_ok_def s_def progress_run_def)
qed

theorem saving_ends_and_pending_kept_witness:
  "ph_pendingSave (progress_step (\<lambda>_. NaN) (SaveNow [5]) (progress_run (\<lambda>_. NaN) [Update [7] 12] [1] sampleStorage)) = Some ([7], 12)"
proof -
  have "ph_pendingSave (progress_run (\<lambda>_. NaN) [Update [7] 12] [1] sampleStorage) = Some ([7], 12)"
    by (simp add: progress_run_def updateProgress_def)
  then show ?thesis
    using saving_ends_and_pending_kept [of "\<lambda>_. NaN" "[Update [7] 12]" "[1]" sampleStorage "([7], 12)" "SaveNow [5]"] by simp
qed

definition storedIsNewer :: "(ustring \<Rightarrow> jsnum) \<Rightarrow> cachedProgress storedJson option \<Rightarrow> progress \<Rightarrow> bool" where
  "storedIsNewer dateParse cached p =
    (case cached of
       Some (Json c) \<Rightarrow> truthy (cp_cfi c) \<noteq> None \<and>
         later_than (timeOf dateParse (cp_updated_at c)) (timeOf dateParse (Some (pr_updated_at p)))
     | _ \<Rightarrow> False)"

lemma apply_server:
  assumes "pr_cfi p \<noteq> []"
  shows "map_option ps_cfi (ph_progress (applyLoadedProgress (fromServer p) s)) = Some (pr_cfi p)"
    "map_option ps_updated_at (ph_lastSaved (applyLoadedProgress (fromServer p) s)) = Some (Some (pr_updated_at p))"
  using assms by (simp_all add: applyLoadedProgress_def fromServer_def truthy_def Let_def)

lemma apply_cached:
  assumes "truthy (cp_cfi c) = Some x"
  shows "map_option ps_cfi (ph_progress (applyLoadedProgress c s)) = cp_cfi c"
    "map_option ps_updated_at (ph_lastSaved (applyLoadedProgress c s)) = Some (cp_updated_at c)"
proof -
  have "cp_cfi c = Some x" using assms by (simp add: truthy_eq_Some)
  with assms show "map_option ps_cfi (ph_progress (applyLoadedProgress c s)) = cp_cfi c"
    "map_option ps_updated_at (ph_lastSaved (applyLoadedProgress c s)) = Some (cp_updated_at c)"
    by (simp_all add: applyLoadedProgress_def Let_def)
qed

lemma apply_nothing: "truthy (cp_cfi c) = None \<Longrightarrow> applyLoadedProgress c s = s"
  by (simp add: applyLoadedProgress_def)

lemma loadProgress_newest:
  fixes s :: progressHook and dateParse :: "ustring \<Rightarrow> jsnum"
  assumes "pr_cfi p \<noteq> []"
  defines "cached \<equiv> mapGet (st_progress (ph_storage s)) (ph_bookId s)" and "h \<equiv> loadProgress dateParse (Inr p) s"
  shows "map_option ps_cfi (ph_progress h) =
      (if storedIsNewer dateParse cached p then cp_cfi (json_value (the cached)) else Some (pr_cfi p))"
    "map_option ps_updated_at (ph_lastSaved h) =
      Some (if storedIsNewer dateParse cached p then cp_updated_at (json_value (the cached)) else Some (pr_updated_at p))"
proof -
  note srv = apply_server [OF assms(1)]
  consider "cached = None \<or> cached = Some Malformed" | c where "cached = Some (Json c)" "truthy (cp_cfi c) = None"
    | c x where "cached = Some (Json c)" "truthy (cp_cfi c) = Some x"
    by (metis not_None_eq storedJson.exhaust)
  then have "map_option ps_cfi (ph_progress h) =
      (if storedIsNewer dateParse cached p then cp_cfi (json_value (the cached)) else Some (pr_cfi p)) \<and>
    map_option ps_updated_at (ph_lastSaved h) =
      Some (if storedIsNewer dateParse cached p then cp_updated_at (json_value (the cached)) else Some (pr_updated_at p))"
  proof cases
    case 1
    then show ?thesis using srv by (auto simp: h_def loadProgress_def Let_def storedIsNewer_def cached_def)
  next
    case (2 c)
    then show ?thesis
      using srv by (simp add: h_def loadProgress_def Let_def storedIsNewer_def apply_nothing cached_def [symmetric])
  next
    case (3 c x)
    then show ?thesis
      using srv apply_cached [OF 3(2)] by (simp add: h_def loadProgress_def Let_def storedIsNewer_def cached_def [symmetric])
  qed
  then show "map_option ps_cfi (ph_progress h) =
      (if storedIsNewer dateParse cached p then cp_cfi (json_value (the cached)) else Some (pr_cfi p))"
    "map_option ps_updated_at (ph_lastSaved h) =
      Some (if storedIsNewer dateParse cached p then cp_updated_at (json_value (the cached)) else Some (pr_updated_at p))"
    by blast+
qed

text \<open>
  The later position wins when a book is opened, and the server's after a conflict. Opening a book
  takes the server's position, or the stored one if that is dated later; after a conflicting save the
  server's position replaces the local one, nothing stays pending, and the next save names the server's
  version.
\<close>

lemma newest_position_wins:
  assumes "pr_cfi p \<noteq> []"
  shows "(let cached = mapGet (st_progress (ph_storage s)) (ph_bookId s); h = loadProgress dateParse (Inr p) s;
        newer = storedIsNewer dateParse cached p in
      map_option ps_cfi (ph_progress h) = (if newer then cp_cfi (json_value (the cached)) else Some (pr_cfi p)) \<and>
      map_option ps_updated_at (ph_lastSaved h) =
        Some (if newer then cp_updated_at (json_value (the cached)) else Some (pr_updated_at p))) \<and>
    (i \<in> set (ph_conflicts s) \<longrightarrow>
      (let h = conflictResolved i (Inr p) s in
       map_option ps_cfi (ph_progress h) = Some (pr_cfi p) \<and> ph_pendingSave h = None \<and>
       sr_expectedUpdatedAt (savesTo d device h) = Some (pr_updated_at p)))"
proof -
  have "sr_expectedUpdatedAt (savesTo d device (applyLoadedProgress (fromServer p) h)) = Some (pr_updated_at p)" for h
    using assms by (simp add: savesTo_def applyLoadedProgress_def fromServer_def truthy_def Let_def)
  then have "i \<in> set (ph_conflicts s) \<longrightarrow>
      (let h = conflictResolved i (Inr p) s in
       map_option ps_cfi (ph_progress h) = Some (pr_cfi p) \<and> ph_pendingSave h = None \<and>
       sr_expectedUpdatedAt (savesTo d device h) = Some (pr_updated_at p))"
    using apply_server(1) [OF assms] by (simp add: conflictResolved_def Let_def savesTo_def)
  with loadProgress_newest [OF assms, of dateParse s] show ?thesis unfolding Let_def by blast
qed

definition sampleRemote :: progress where
  "sampleRemote = \<lparr>pr_book_id = [1], pr_user_id = [2], pr_cfi = [8], pr_percentage = 40, pr_device_id = None, pr_updated_at = [3]\<rparr>"

theorem newest_position_wins_witness:
  "map_option ps_cfi (ph_progress (loadProgress (\<lambda>_. Fin 5) (Inr sampleRemote) (useProgress [1] sampleStorage))) = Some [8]"
proof -
  have "ph_bookId (useProgress [1] sampleStorage) = [1]" by (simp add: useProgress_def Let_def)
  then show ?thesis
    using newest_position_wins [of sampleRemote "useProgress [1] sampleStorage" "\<lambda>_. Fin 5"]
    by (simp add: sampleRemote_def Let_def sampleStorage_def storedIsNewer_def later_than_def timeOf_def truthy_def)
qed

text \<open>The queue that a run of \<^verbatim>\<open>syncOfflineProgressQueue\<close> writes at its end is computed from the queue it read
  at its start: a book queued in between is dropped from it.\<close>

lemma sync_drops_concurrent_entry:
  "let st = sampleStorage\<lparr>st_progress := mapSet [2] (Json \<lparr>cp_cfi = Some [7], cp_percentage = Some 3,
         cp_updated_at = None, cp_device_id = Some [9]\<rparr>) (st_progress sampleStorage), st_pendingSync := Some (Json [[2]])\<rparr>;
       s = progress_run (\<lambda>_. NaN) [SyncStart [5], Update [7] 12, SaveNow [5], SaveAnswer [5] [6] 0 (Inl (NamedErr [])),
         SyncAnswer [5] 0 (Inr sampleRemote)] [1] st in
   st_pendingSync (ph_storage s) = Some (Json []) \<and> mapHas (st_progress (ph_storage s)) [1]"
  by code_simp

end
