(* ===== verification/Shelf_View.thy ===== *)
theory Shelf_View
  imports Api_Types
begin

text \<open>
  The pure parts of \<^verbatim>\<open>frontend/src/hooks/useShelfData.ts\<close>: the stored sort order, categories, counts,
  filtering, merging of pages, file sizes, and what a renamed category does to the summary. The
  collation of \<^verbatim>\<open>localeCompare\<close> (as a sorting function) and \<^verbatim>\<open>toLowerCase\<close> are parameters.
\<close>

section \<open>Sort order\<close>

datatype SortOption = RecentRead | ByTitle | RecentAdded | ByAuthor

definition sortText :: "SortOption \<Rightarrow> ustring" where
  "sortText opt = (case opt of RecentRead \<Rightarrow> js ''recent_read'' | ByTitle \<Rightarrow> js ''title''
     | RecentAdded \<Rightarrow> js ''recent_added'' | ByAuthor \<Rightarrow> js ''author'')"

definition VALID_SORT_OPTIONS :: "SortOption list" where
  "VALID_SORT_OPTIONS = [RecentRead, ByTitle, RecentAdded, ByAuthor]"

definition sortOptionOf :: "ustring \<Rightarrow> SortOption option" where
  "sortOptionOf t = List.find (\<lambda>opt. sortText opt = t) VALID_SORT_OPTIONS"

text \<open>What the storage has under the key: nothing, no JSON (or reading it throws), a string, an object with
  or without a string \<^verbatim>\<open>sortBy\<close>, or another value.\<close>

datatype storedSort = SortMissing | SortUnreadable | SortString ustring | SortObject "ustring option" | SortOther

definition readShelfSort :: "storedSort \<Rightarrow> SortOption" where
  "readShelfSort st =
    (case (case st of SortString t \<Rightarrow> sortOptionOf t | SortObject (Some t) \<Rightarrow> sortOptionOf t | _ \<Rightarrow> None) of
       Some opt \<Rightarrow> opt | None \<Rightarrow> RecentRead)"

definition writeShelfSort :: "bool \<Rightarrow> SortOption \<Rightarrow> storedSort \<Rightarrow> storedSort" where
  "writeShelfSort writable opt st = (if writable then SortString (sortText opt) else st)"

section \<open>Categories\<close>

definition UNCATEGORIZED_FILTER_ID :: ustring where
  "UNCATEGORIZED_FILTER_ID = js ''uncategorized''"

text \<open>\<^verbatim>\<open>book.category?.trim()\<close> with the empty string taken as none.\<close>

definition categoryOf :: "book \<Rightarrow> ustring option" where
  "categoryOf b = truthy (map_option trim (bk_category b))"

text \<open>\<^verbatim>\<open>Array.from(new Set(xs))\<close>: first occurrences, in order.\<close>

definition unique :: "'a list \<Rightarrow> 'a list" where
  "unique xs = foldl (\<lambda>acc x. if x \<in> set acc then acc else acc @ [x]) [] xs"

definition deriveCategories :: "(ustring list \<Rightarrow> ustring list) \<Rightarrow> book list \<Rightarrow> ustring list" where
  "deriveCategories localeSort items = localeSort (unique (somes (map categoryOf items)))"

definition categories :: "(ustring list \<Rightarrow> ustring list) \<Rightarrow> book list \<Rightarrow> bookLibrarySummary option \<Rightarrow> ustring list" where
  "categories localeSort books summary =
    (case summary of None \<Rightarrow> deriveCategories localeSort books | Some sm \<Rightarrow> localeSort (map fst (sm_categories sm)))"

definition categoryGone :: "(ustring list \<Rightarrow> ustring list) \<Rightarrow> book list \<Rightarrow> bookLibrarySummary option \<Rightarrow> ustring option \<Rightarrow> bool" where
  "categoryGone localeSort books summary selected =
    (case truthy selected of
       None \<Rightarrow> False
     | Some c \<Rightarrow> c \<noteq> UNCATEGORIZED_FILTER_ID \<and> summary \<noteq> None \<and> c \<notin> set (categories localeSort books summary))"

section \<open>Counts\<close>

definition countBook :: "book \<Rightarrow> (ustring, int) omap \<Rightarrow> (ustring, int) omap" where
  "countBook b counts =
    (case categoryOf b of
       Some c \<Rightarrow> mapSet c (nullish (mapGet counts c) 0 + 1) counts
     | None \<Rightarrow> mapSet UNCATEGORIZED_FILTER_ID (nullish (mapGet counts UNCATEGORIZED_FILTER_ID) 0 + 1) counts)"

definition localCounts :: "book list \<Rightarrow> (ustring, int) omap" where
  "localCounts books = fold countBook books [(js ''all'', int (length books)), (UNCATEGORIZED_FILTER_ID, 0)]"

definition bookCounts :: "book list \<Rightarrow> bookLibrarySummary option \<Rightarrow> (ustring, int) omap" where
  "bookCounts books summary =
    (case summary of
       Some sm \<Rightarrow> fold (\<lambda>(k, v). mapSet k v) (sm_categories sm)
         [(js ''all'', sm_total sm), (UNCATEGORIZED_FILTER_ID, sm_uncategorized sm)]
     | None \<Rightarrow> localCounts books)"

section \<open>Filtering\<close>

fun contains :: "ustring \<Rightarrow> ustring \<Rightarrow> bool" where
  "contains [] needle = (needle = [])"
| "contains (c # cs) needle = (startsWith (c # cs) needle \<or> contains cs needle)"

fun joinWith :: "ustring \<Rightarrow> ustring list \<Rightarrow> ustring" where
  "joinWith d [] = []"
| "joinWith d [x] = x"
| "joinWith d (x # y # ys) = x @ d @ joinWith d (y # ys)"

definition haystack :: "(ustring \<Rightarrow> ustring) \<Rightarrow> book \<Rightarrow> ustring" where
  "haystack lower b = lower (joinWith (js '' '') (filter (\<lambda>x. x \<noteq> [])
     [bk_title b, bk_author b, bk_filename b, nullish (bk_category b) [], bk_format b]))"

definition searchedBooks :: "(ustring \<Rightarrow> ustring) \<Rightarrow> book list \<Rightarrow> book list option \<Rightarrow> ustring \<Rightarrow> book list" where
  "searchedBooks lower books results query =
    (let q = lower (trim query) in
     if q = [] then books
     else case results of
       Some r \<Rightarrow> r
     | None \<Rightarrow> filter (\<lambda>b. contains (haystack lower b) q) books)"

definition filteredBooks ::
  "(ustring \<Rightarrow> ustring) \<Rightarrow> book list \<Rightarrow> book list option \<Rightarrow> ustring \<Rightarrow> ustring option \<Rightarrow> book list" where
  "filteredBooks lower books results query selected =
    (let searched = searchedBooks lower books results query in
     case truthy selected of
       None \<Rightarrow> searched
     | Some c \<Rightarrow>
        (if c = UNCATEGORIZED_FILTER_ID then filter (\<lambda>b. categoryOf b = None) searched
         else filter (\<lambda>b. map_option trim (bk_category b) = Some c) searched))"

section \<open>Pages and updates\<close>

definition byId :: "book list \<Rightarrow> (ustring, book) omap" where
  "byId bs = fold (\<lambda>b m. mapSet (bk_id b) b m) bs []"

definition mergeBooks :: "book list \<Rightarrow> book list \<Rightarrow> book list" where
  "mergeBooks page current = map snd (fold (\<lambda>b m. mapSet (bk_id b) b m) page (byId current))"

definition replaceBooks :: "book list \<Rightarrow> book list \<Rightarrow> book list" where
  "replaceBooks updated current = map (\<lambda>b. nullish (mapGet (byId updated) (bk_id b)) b) current"

definition pendingBookIDs :: "book list \<Rightarrow> book list option \<Rightarrow> ustring" where
  "pendingBookIDs books results =
    joinWith (js '','') (map bk_id (filter (\<lambda>b. bk_processing_state b = Some Pending)
      (map snd (byId (books @ nullish results [])))))"

fun splitOn :: "nat \<Rightarrow> ustring \<Rightarrow> ustring list" where
  "splitOn d [] = [[]]"
| "splitOn d (c # cs) =
    (if c = d then [] # splitOn d cs
     else case splitOn d cs of w # ws \<Rightarrow> (c # w) # ws | [] \<Rightarrow> [[c]])"

definition pollIds :: "ustring \<Rightarrow> ustring list" where
  "pollIds pending = filter (\<lambda>i. i \<noteq> []) (splitOn 44 pending)"

definition addProgress :: "progress list \<Rightarrow> (ustring, real) omap \<Rightarrow> (ustring, real) omap" where
  "addProgress ps m = fold (\<lambda>p. mapSet (pr_book_id p) (pr_percentage p)) ps m"

definition recategorise :: "ustring list \<Rightarrow> ustring option \<Rightarrow> book list \<Rightarrow> book list" where
  "recategorise ids category bs = map (\<lambda>b. if bk_id b \<in> set ids then b\<lparr>bk_category := category\<rparr> else b) bs"

definition renameInSummary :: "ustring \<Rightarrow> ustring option \<Rightarrow> nat \<Rightarrow> bookLibrarySummary \<Rightarrow> bookLibrarySummary" where
  "renameInSummary current normalized updated sm =
    (let count = nullish (mapGet (sm_categories sm) current) (int updated);
         cats = mapDelete current (sm_categories sm);
         cats1 = (case normalized of Some c \<Rightarrow> mapSet c (nullish (mapGet cats c) 0 + count) cats | None \<Rightarrow> cats) in
     sm\<lparr>sm_categories := cats1,
        sm_uncategorized := sm_uncategorized sm + (if normalized = None then count else 0)\<rparr>)"

section \<open>File sizes\<close>

text \<open>\<^verbatim>\<open>x.toFixed(1)\<close> for \<open>x = n / d\<close>: the nearest tenth, halves up.\<close>

definition toFixed1 :: "nat \<Rightarrow> nat \<Rightarrow> ustring" where
  "toFixed1 n d = (let t = (20 * n + d) div (2 * d) in dec (t div 10) @ js ''.'' @ dec (t mod 10))"

definition formatFileSize :: "nat \<Rightarrow> ustring" where
  "formatFileSize bytes =
    (if bytes < 1024 then dec bytes @ js '' B''
     else if bytes < 1024 * 1024 then toFixed1 bytes 1024 @ js ''K''
     else toFixed1 bytes (1024 * 1024) @ js ''M'')"

section \<open>Lemmas\<close>

lemma stored_sort_is_read: "readShelfSort (writeShelfSort True opt st) = opt"
  by (cases opt) (simp_all add: readShelfSort_def writeShelfSort_def sortOptionOf_def VALID_SORT_OPTIONS_def
      sortText_def js_def)

lemma unique_snoc: "unique (xs @ [x]) = (if x \<in> set (unique xs) then unique xs else unique xs @ [x])"
  by (simp add: unique_def)

lemma set_unique [simp]: "set (unique xs) = set xs"
  by (induction xs rule: rev_induct) (auto simp: unique_snoc unique_def [of "[]"])

lemma distinct_unique [simp]: "distinct (unique xs)"
  by (induction xs rule: rev_induct) (auto simp: unique_snoc unique_def [of "[]"])

text \<open>A map filled from a list of books has their ids in order of first occurrence, each with the last book
  of that id.\<close>

definition lastBook :: "book list \<Rightarrow> ustring \<Rightarrow> book option" where
  "lastBook bs i = map_of (rev (map (\<lambda>b. (bk_id b, b)) bs)) i"

lemma keys_set: "map fst (mapSet k v m) = (if k \<in> set (map fst m) then map fst m else map fst m @ [k])"
  by (induction m) auto

lemma byId_spec: "map fst (byId bs) = unique (map bk_id bs) \<and> mapGet (byId bs) = lastBook bs"
proof (induction bs rule: rev_induct)
  case Nil
  then show ?case by (simp add: byId_def unique_def lastBook_def fun_eq_iff)
next
  case (snoc b bs)
  have "byId (bs @ [b]) = mapSet (bk_id b) b (byId bs)" by (simp add: byId_def)
  with snoc show ?case by (auto simp: keys_set unique_snoc lastBook_def fun_eq_iff)
qed

lemma mergeBooks_byId: "mergeBooks page current = map snd (byId (current @ page))"
  by (simp add: mergeBooks_def byId_def)

lemma values_of_keys: "distinct (map fst m) \<Longrightarrow> map snd m = map (\<lambda>k. the (mapGet m k)) (map fst m)"
  by (simp add: map_of_eq_Some_iff cong: map_cong) (auto intro!: map_cong)

lemma lastBook_id: "lastBook bs i = Some b \<Longrightarrow> bk_id b = i \<and> b \<in> set bs"
  by (auto simp: lastBook_def dest!: map_of_SomeD)

lemma lastBook_exists: "i \<in> set (map bk_id bs) \<Longrightarrow> \<exists>b. lastBook bs i = Some b"
  using byId_spec [of bs] by (metis map_of_eq_None_iff not_Some_eq set_map set_unique)

lemma byId_ids: "map (\<lambda>b. bk_id b) (map snd (byId bs)) = map fst (byId bs)"
proof -
  have d: "distinct (map fst (byId bs))" using byId_spec [of bs] by simp
  have "bk_id (the (lastBook bs i)) = i" if "i \<in> set (map bk_id bs)" for i
    using lastBook_exists [OF that] lastBook_id by auto
  then show ?thesis
    using byId_spec [of bs] by (simp add: values_of_keys [OF d] comp_def) (intro map_idI; simp)
qed

lemma mergeBooks_ids: "map bk_id (mergeBooks page current) = unique (map bk_id (current @ page))"
  using byId_ids [of "current @ page"] byId_spec [of "current @ page"] by (simp only: mergeBooks_byId)

lemma replaceBooks_ids [simp]: "map bk_id (replaceBooks updated current) = map bk_id current"
  unfolding replaceBooks_def using byId_spec [of updated] lastBook_id [of updated]
  by (auto simp: nullish_def split: option.splits)

lemma recategorise_ids [simp]: "map bk_id (recategorise ids c bs) = map bk_id bs"
  by (simp add: recategorise_def)

subsection \<open>Counting\<close>

abbreviation ALL_BOOKS :: ustring where "ALL_BOOKS \<equiv> js ''all''"

lemma fold_count:
  assumes "list_all (\<lambda>b. categoryOf b \<noteq> Some ALL_BOOKS \<and> categoryOf b \<noteq> Some UNCATEGORIZED_FILTER_ID) bs"
    and "mapGet m UNCATEGORIZED_FILTER_ID = Some n"
  shows "mapGet (fold countBook bs m) ALL_BOOKS = mapGet m ALL_BOOKS \<and>
    mapGet (fold countBook bs m) UNCATEGORIZED_FILTER_ID = Some (n + int (length (filter (\<lambda>b. categoryOf b = None) bs))) \<and>
    (c \<noteq> ALL_BOOKS \<and> c \<noteq> UNCATEGORIZED_FILTER_ID \<longrightarrow>
      nullish (mapGet (fold countBook bs m) c) 0 = nullish (mapGet m c) 0 + int (length (filter (\<lambda>b. categoryOf b = Some c) bs)))"
  using assms
proof (induction bs arbitrary: m n)
  case (Cons b bs)
  have ne: "ALL_BOOKS \<noteq> UNCATEGORIZED_FILTER_ID" by (simp add: UNCATEGORIZED_FILTER_ID_def js_def)
  show ?case
  proof (cases "categoryOf b")
    case None
    then have "mapGet (countBook b m) UNCATEGORIZED_FILTER_ID = Some (n + 1)"
      using Cons.prems by (simp add: countBook_def)
    with Cons.IH [of "countBook b m" "n + 1"] Cons.prems None ne show ?thesis by (simp add: countBook_def)
  next
    case (Some d)
    then have "mapGet (countBook b m) UNCATEGORIZED_FILTER_ID = Some n"
      using Cons.prems by (auto simp: countBook_def)
    with Cons.IH [of "countBook b m" n] Cons.prems Some show ?thesis by (auto simp: countBook_def)
  qed
qed simp

lemma sum_update:
  "wf_map m \<Longrightarrow> sum_list (map snd (mapSet k (v :: int) m)) = sum_list (map snd m) - nullish (mapGet m k) 0 + v"
proof (induction m)
  case (Cons p m)
  then show ?case by (cases p) (auto simp: wf_map_def)
qed simp

lemma sum_delete:
  assumes "wf_map m"
  shows "sum_list (map snd (mapDelete k m)) = sum_list (map snd (m :: (ustring, int) omap)) - nullish (mapGet m k) 0"
proof (cases "mapGet m k")
  case None
  then show ?thesis by (simp add: mapDelete_fresh mapHas_def)
next
  case (Some v)
  then have "mset (map snd m) = add_mset v (mset (map snd (mapDelete k m)))"
    using mset_delete [OF assms Some] by simp
  then have "sum_mset (mset (map snd m)) = v + sum_mset (mset (map snd (mapDelete k m)))"
    by (simp only: sum_mset.add_mset)
  then have "sum_list (map snd m) = v + sum_list (map snd (mapDelete k m))" by (simp only: sum_mset_sum_list)
  with Some show ?thesis by simp
qed

section \<open>Properties\<close>

text \<open>
  Merging a further page. The merged shelf has every id once, in the order of first appearance
  (the shown books first, then new ones), and for each id the last book received for it.
\<close>

lemma merge_pages:
  "mergeBooks page current =
     map (\<lambda>i. the (lastBook (current @ page) i)) (unique (map bk_id (current @ page))) \<and>
   map bk_id (mergeBooks page current) = unique (map bk_id (current @ page))"
proof -
  have d: "distinct (map fst (byId (current @ page)))" using byId_spec [of "current @ page"] by simp
  have "map snd (byId (current @ page)) = map (\<lambda>i. the (lastBook (current @ page) i)) (unique (map bk_id (current @ page)))"
    using values_of_keys [OF d] byId_spec [of "current @ page"] by simp
  then show ?thesis using mergeBooks_ids [of page current] mergeBooks_byId [of page current] by metis
qed

text \<open>
  Counts agree with the filters. Without a summary of the library, and if no category is called
  \<^verbatim>\<open>all\<close> or \<^verbatim>\<open>uncategorized\<close>, the count shown for all books, for the books without category, and for each
  category is the number of books that the corresponding filter shows.
\<close>

lemma counts_match_filters:
  assumes "list_all (\<lambda>b. categoryOf b \<noteq> Some ALL_BOOKS \<and> categoryOf b \<noteq> Some UNCATEGORIZED_FILTER_ID) books"
    and "c \<noteq> []" and "c \<noteq> ALL_BOOKS" and "c \<noteq> UNCATEGORIZED_FILTER_ID" and "lower [] = []"
  shows "mapGet (bookCounts books None) ALL_BOOKS = Some (int (length (filteredBooks lower books results [] None))) \<and>
    mapGet (bookCounts books None) UNCATEGORIZED_FILTER_ID =
      Some (int (length (filteredBooks lower books results [] (Some UNCATEGORIZED_FILTER_ID)))) \<and>
    nullish (mapGet (bookCounts books None) c) 0 = int (length (filteredBooks lower books results [] (Some c)))"
proof -
  let ?m = "[(ALL_BOOKS, int (length books)), (UNCATEGORIZED_FILTER_ID, 0)]"
  have ne: "ALL_BOOKS \<noteq> UNCATEGORIZED_FILTER_ID" "UNCATEGORIZED_FILTER_ID \<noteq> []"
    by (simp_all add: UNCATEGORIZED_FILTER_ID_def js_def)
  have "mapGet ?m UNCATEGORIZED_FILTER_ID = Some 0" using ne by simp
  note counts = fold_count [OF assms(1) this, of c]
  have shown: "searchedBooks lower books results [] = books"
    using assms(5) by (simp add: searchedBooks_def Let_def trim_Nil)
  have "(map_option trim (bk_category b) = Some c) = (categoryOf b = Some c)" for b
    using assms(2) by (auto simp: categoryOf_def truthy_def split: option.splits)
  then show ?thesis
    using counts ne assms(2,3,4) shown
    by (simp add: bookCounts_def localCounts_def filteredBooks_def Let_def truthy_def)
qed

text \<open>
  Renaming a category loses no book. Renaming or clearing a category of the summary keeps the
  number of books over all categories and the uncategorised ones together, also if the new name is
  already in use or equal to the old one.
\<close>

lemma rename_keeps_total:
  assumes "wf_map (sm_categories sm)" and "mapHas (sm_categories sm) current"
  shows "let r = renameInSummary current normalized updated sm in
    sum_list (map snd (sm_categories r)) + sm_uncategorized r = sum_list (map snd (sm_categories sm)) + sm_uncategorized sm \<and>
    sm_total r = sm_total sm \<and> wf_map (sm_categories r) \<and>
    (normalized \<noteq> Some current \<longrightarrow> \<not> mapHas (sm_categories r) current)"
proof -
  obtain n where n: "mapGet (sm_categories sm) current = Some n" using assms(2) by (auto simp: mapHas_def)
  have wf: "wf_map (mapDelete current (sm_categories sm))" using assms(1) by simp
  show ?thesis
    using n sum_update [OF wf] sum_delete [OF assms(1), of current] assms(1)
    by (cases normalized) (auto simp: renameInSummary_def Let_def)
qed

definition sampleSummary :: bookLibrarySummary where
  "sampleSummary = \<lparr>sm_total = 3, sm_uncategorized = 1, sm_categories = [([1], 2)]\<rparr>"

theorem rename_keeps_total_witness:
  "sm_total (renameInSummary [1] (Some [2]) 2 sampleSummary) = 3"
  using rename_keeps_total [of sampleSummary "[1]" "Some [2]" 2]
  by (simp add: sampleSummary_def wf_map_def mapHas_def Let_def)

definition sampleBook :: "ustring \<Rightarrow> ustring option \<Rightarrow> book" where
  "sampleBook i c = \<lparr>bk_id = i, bk_user_id = [], bk_title = [65], bk_author = [], bk_filename = [], bk_format = [],
     bk_size = 0, bk_content_hash = None, bk_cover_path = None, bk_cover_thumb_path = None, bk_processing_state = None,
     bk_category = c, bk_created_at = [], bk_last_read_at = None\<rparr>"

theorem counts_match_filters_witness:
  "mapGet (bookCounts [sampleBook [1] None] None) ALL_BOOKS = Some 1"
proof -
  have "list_all (\<lambda>b. categoryOf b \<noteq> Some ALL_BOOKS \<and> categoryOf b \<noteq> Some UNCATEGORIZED_FILTER_ID) [sampleBook [1] None]"
    by (simp add: sampleBook_def categoryOf_def truthy_def)
  from counts_match_filters [OF this, of "[1]" "\<lambda>x. x" None] show ?thesis
    by (simp add: js_def UNCATEGORIZED_FILTER_ID_def filteredBooks_def searchedBooks_def Let_def trim_Nil truthy_def)
qed

text \<open>A category called \<^verbatim>\<open>all\<close> is added to the count of all books.\<close>

lemma category_named_all_miscounted:
  "mapGet (bookCounts [sampleBook [1] (Some ALL_BOOKS)] None) ALL_BOOKS = Some 2"
  by (simp add: bookCounts_def localCounts_def countBook_def categoryOf_def sampleBook_def truthy_def js_def trim_def
      is_space_def UNCATEGORIZED_FILTER_ID_def)

end
