(* ===== verification/Shelf_Upload.thy ===== *)
theory Shelf_Upload
  imports Api_Types
begin

text \<open>
  \<^verbatim>\<open>uploadFiles\<close> of \<^verbatim>\<open>frontend/src/hooks/useShelfData.ts\<close>: up to three workers share one index into the list
  of files. A worker runs until it has called \<^verbatim>\<open>api.uploadBook\<close>; the end of that call (\<open>uploadEnded\<close>) counts
  the result and lets the worker take the next file. Files are represented by their sizes and positions.
\<close>

definition MAX_CONCURRENT_UPLOADS :: nat where "MAX_CONCURRENT_UPLOADS = 3"

record uploadRun =
  up_total :: nat
  up_nextIndex :: nat
  up_running :: "nat list"
  up_success :: nat
  up_failed :: nat
  up_completed :: nat
  up_failures :: "ustring list"
  up_shown :: "(nat \<times> nat) option"
  up_requested :: "nat list"

datatype uploadToast = ChooseFiles | AddedAll nat | AddedSome nat nat | UploadFailed "ustring option"

text \<open>One turn of a worker: it takes a file if one is left, and ends otherwise.\<close>

definition takeFile :: "uploadRun \<Rightarrow> uploadRun" where
  "takeFile u =
    (if up_nextIndex u < up_total u
     then u\<lparr>up_nextIndex := up_nextIndex u + 1, up_running := up_running u @ [up_nextIndex u],
            up_requested := up_requested u @ [up_nextIndex u]\<rparr>
     else u)"

definition uploadable :: "nat list \<Rightarrow> nat list" where
  "uploadable sizes = filter (\<lambda>n. 0 < n) sizes"

definition uploadStart :: "nat \<Rightarrow> uploadRun" where
  "uploadStart n = (takeFile ^^ (min MAX_CONCURRENT_UPLOADS n))
    \<lparr>up_total = n, up_nextIndex = 0, up_running = [], up_success = 0, up_failed = 0, up_completed = 0,
     up_failures = [], up_shown = Some (0, n), up_requested = []\<rparr>"

text \<open>\<open>message\<close> is \<^verbatim>\<open>err.message\<close> of a thrown \<^verbatim>\<open>Error\<close>.\<close>

definition countResult :: "ustring option + unit \<Rightarrow> uploadRun \<Rightarrow> uploadRun" where
  "countResult r u =
    (case r of
       Inr _ \<Rightarrow> u\<lparr>up_success := up_success u + 1\<rparr>
     | Inl message \<Rightarrow>
        u\<lparr>up_failed := up_failed u + 1,
          up_failures := up_failures u @ (case truthy (map_option trim message) of Some m \<Rightarrow> [m] | None \<Rightarrow> [])\<rparr>)"

definition uploadEnded :: "nat \<Rightarrow> ustring option + unit \<Rightarrow> uploadRun \<Rightarrow> uploadRun" where
  "uploadEnded i r u =
    (if i \<notin> set (up_running u) then u
     else
      let u1 = countResult r (u\<lparr>up_running := remove1 i (up_running u)\<rparr>);
          u2 = u1\<lparr>up_completed := up_completed u1 + 1, up_shown := Some (up_completed u1 + 1, up_total u1)\<rparr> in
      takeFile u2)"

definition uploadDone :: "uploadRun \<Rightarrow> bool" where
  "uploadDone u \<longleftrightarrow> up_running u = []"

text \<open>What follows \<^verbatim>\<open>Promise.all\<close>: the message, and whether the shelf is loaded again.\<close>

definition uploadReport :: "uploadRun \<Rightarrow> uploadToast \<times> bool" where
  "uploadReport u =
    (if 0 < up_success u \<and> up_failed u = 0 then AddedAll (up_success u)
     else if 0 < up_success u then AddedSome (up_success u) (up_failed u)
     else UploadFailed (case up_failures u of m # _ \<Rightarrow> Some m | [] \<Rightarrow> None),
     0 < up_success u)"

text \<open>A whole call: nothing happens for no file, a message for only empty files, and otherwise the pool
  runs on the given ends of requests.\<close>

datatype uploadResult = NoFiles | OnlyEmpty uploadToast | Uploading uploadRun

definition uploadFiles :: "nat list \<Rightarrow> (nat \<times> (ustring option + unit)) list \<Rightarrow> uploadResult" where
  "uploadFiles sizes ends =
    (if sizes = [] then NoFiles
     else if uploadable sizes = [] then OnlyEmpty ChooseFiles
     else Uploading (fold (\<lambda>(i, r). uploadEnded i r) ends (uploadStart (length (uploadable sizes)))))"

definition uploadFile :: "nat option \<Rightarrow> (nat \<times> (ustring option + unit)) list \<Rightarrow> uploadResult" where
  "uploadFile sz ends = (case sz of None \<Rightarrow> NoFiles | Some n \<Rightarrow> uploadFiles [n] ends)"

section \<open>Invariant\<close>

definition upload_inv :: "uploadRun \<Rightarrow> bool" where
  "upload_inv u \<longleftrightarrow> up_requested u = [0..<up_nextIndex u] \<and> up_nextIndex u \<le> up_total u \<and>
     distinct (up_running u) \<and> set (up_running u) \<subseteq> {..<up_nextIndex u} \<and>
     length (up_running u) \<le> MAX_CONCURRENT_UPLOADS \<and>
     up_completed u + length (up_running u) = up_nextIndex u \<and> up_success u + up_failed u = up_completed u \<and>
     (up_nextIndex u < up_total u \<longrightarrow> length (up_running u) = MAX_CONCURRENT_UPLOADS)"

lemma countResult_fields [simp]:
  "up_running (countResult r u) = up_running u" "up_nextIndex (countResult r u) = up_nextIndex u"
  "up_total (countResult r u) = up_total u" "up_requested (countResult r u) = up_requested u"
  "up_completed (countResult r u) = up_completed u"
  "up_success (countResult r u) + up_failed (countResult r u) = up_success u + up_failed u + 1"
  by (auto simp: countResult_def split: sum.splits)

lemma uploadStart_fields:
  assumes "k \<le> n" and "k \<le> MAX_CONCURRENT_UPLOADS"
  defines "u \<equiv> (takeFile ^^ k) \<lparr>up_total = n, up_nextIndex = 0, up_running = [], up_success = 0, up_failed = 0,
    up_completed = 0, up_failures = [], up_shown = Some (0, n), up_requested = []\<rparr>"
  shows "up_nextIndex u = k \<and> up_running u = [0..<k] \<and> up_requested u = [0..<k] \<and> up_total u = n \<and>
    up_success u = 0 \<and> up_failed u = 0 \<and> up_completed u = 0"
  using assms(1,2) unfolding u_def by (induction k) (auto simp: takeFile_def)

lemma uploadStart_inv: "upload_inv (uploadStart n)"
proof -
  let ?k = "min MAX_CONCURRENT_UPLOADS n"
  have "?k \<le> n" "?k \<le> MAX_CONCURRENT_UPLOADS" by simp_all
  note f = uploadStart_fields [OF this]
  show ?thesis
    unfolding upload_inv_def uploadStart_def using f by (auto simp: min_def)
qed

lemma uploadEnded_inv: "upload_inv u \<Longrightarrow> upload_inv (uploadEnded i r u)"
proof -
  assume inv: "upload_inv u"
  show ?thesis
  proof (cases "i \<in> set (up_running u)")
    case True
    then have len: "length (remove1 i (up_running u)) + 1 = length (up_running u)"
      by (simp add: length_remove1) (cases "up_running u"; simp)
    have d: "distinct (remove1 i (up_running u))" "set (remove1 i (up_running u)) \<subseteq> {..<up_nextIndex u}"
      using inv set_remove1_subset [of i "up_running u"] by (auto simp: upload_inv_def)
    define w where "w = (countResult r (u\<lparr>up_running := remove1 i (up_running u)\<rparr>))"
    define v where "v = w\<lparr>up_completed := up_completed w + 1, up_shown := Some (up_completed w + 1, up_total w)\<rparr>"
    have v: "up_running v = remove1 i (up_running u)" "up_nextIndex v = up_nextIndex u" "up_total v = up_total u"
      "up_requested v = up_requested u" "up_completed v = up_completed u + 1" "up_success v + up_failed v = up_completed v"
      using inv by (simp_all add: v_def w_def upload_inv_def)
    have e: "uploadEnded i r u = takeFile v" using True by (simp add: uploadEnded_def v_def w_def Let_def)
    show ?thesis
      using inv len d v unfolding upload_inv_def e by (auto simp: takeFile_def)
  next
    case False
    then show ?thesis using inv by (simp add: uploadEnded_def)
  qed
qed

lemma ended_total [simp]: "up_total (uploadEnded i r u) = up_total u"
  by (simp add: uploadEnded_def Let_def takeFile_def)

lemma start_total [simp]: "up_total (uploadStart n) = n"
  using uploadStart_fields [of "min MAX_CONCURRENT_UPLOADS n" n] by (simp add: uploadStart_def)

lemma upload_run_inv:
  "upload_inv u \<Longrightarrow> upload_inv (fold (\<lambda>(i, r). uploadEnded i r) ends u) \<and>
     up_total (fold (\<lambda>(i, r). uploadEnded i r) ends u) = up_total u"
  by (induction ends arbitrary: u) (auto simp: uploadEnded_inv)

section \<open>Properties\<close>

text \<open>
  \<^bold>\<open>C22\<close> (the upload pool). However the uploads end, at most three run at a time, every non-empty file is
  sent exactly once and in order, and when none runs any more all have been sent and each was counted
  as a success or a failure.
\<close>

theorem upload_pool:
  fixes ends :: "(nat \<times> (ustring option + unit)) list" and n :: nat
  defines "u \<equiv> fold (\<lambda>(i, r). uploadEnded i r) ends (uploadStart n)"
  shows "length (up_running u) \<le> 3 \<and> up_requested u = [0..<length (up_requested u)] \<and> length (up_requested u) \<le> n \<and>
    up_success u + up_failed u + length (up_running u) = length (up_requested u) \<and>
    (uploadDone u \<longrightarrow> up_requested u = [0..<n] \<and> up_success u + up_failed u = n)"
proof -
  have inv: "upload_inv u" and t: "up_total u = n" using upload_run_inv [OF uploadStart_inv, of ends n] by (simp_all add: u_def)
  then show ?thesis
    by (auto simp: upload_inv_def uploadDone_def MAX_CONCURRENT_UPLOADS_def le_eq_less_or_eq)
qed

theorem upload_pool_witness:
  "uploadDone (fold (\<lambda>(i, r). uploadEnded i r) [(0, Inr ())] (uploadStart 1)) \<and>
   up_requested (fold (\<lambda>(i, r). uploadEnded i r) [(0, Inr ())] (uploadStart 1)) = [0..<1]"
proof -
  have "uploadDone (fold (\<lambda>(i, r). uploadEnded i r) [(0, Inr ())] (uploadStart 1))" by code_simp
  then show ?thesis using upload_pool [of "[(0, Inr ())]" 1] by simp
qed

end
