(* ===== verification/Shelf_Data.thy ===== *)
theory Shelf_Data
  imports Shelf_View Shelf_Upload
begin

text \<open>
  The asynchronous part of \<^verbatim>\<open>useShelfData\<close> (\<^verbatim>\<open>frontend/src/hooks/useShelfData.ts\<close>): loading, paging,
  searching, polling and changing the shelf. Requests under way are kept in the state with what their
  closures captured (generation numbers, abort controllers); their answers arrive in any order.
\<close>

section \<open>State\<close>

definition BOOK_PAGE_SIZE :: nat where "BOOK_PAGE_SIZE = 50"

text \<open>The captured variables of each kind of request. The last component is the session in which it was
  issued; the program does not have it, it only names the account that the server answers for.\<close>

datatype shelfRequest =
    LoadPage nat nat nat
  | LoadSummary nat nat nat nat
  | LoadProgress nat nat nat
  | Summary nat nat
  | MorePage bool nat nat nat nat
  | MoreProgress nat nat nat nat
  | SearchPage nat nat nat
  | SearchProgress nat nat nat
  | Poll nat nat
  | DeleteBook ustring nat
  | DeleteBooks "ustring list" nat
  | UpdateCategory "ustring list" "ustring option" nat
  | RenameCategory ustring "ustring option" "ustring option" nat

datatype shelfToast = ErrorToast app_error ustring | NoticeToast ustring

record shelf =
  sf_authenticated :: bool
  sf_session :: nat
  sf_books :: "book list"
  sf_progress :: "(ustring, real) omap"
  sf_summary :: "bookLibrarySummary option"
  sf_isLoading :: bool
  sf_isLoadingMore :: bool
  sf_nextCursor :: "ustring option"
  sf_loadError :: "app_error option"
  sf_category :: "ustring option"
  sf_deletingId :: "ustring option"
  sf_isDeletingMany :: bool
  sf_isUpdatingMany :: bool
  sf_sortBy :: SortOption
  sf_storedSort :: storedSort
  sf_query :: ustring
  sf_results :: "book list option"
  sf_searchCursor :: "ustring option"
  sf_isSearching :: bool
  sf_revision :: nat
  sf_loadGen :: nat
  sf_loadingMore :: bool
  sf_searchGen :: nat
  sf_summaryGen :: nat
  sf_loadAbort :: "nat option"
  sf_moreAbort :: "nat option"
  sf_searchAbort :: "nat option"
  sf_searchTimer :: bool
  sf_loadTimer :: bool
  sf_pollStop :: "nat option"
  sf_aborted :: "nat list"
  sf_nextController :: nat
  sf_requests :: "shelfRequest list"
  sf_toasts :: "shelfToast list"

definition shelf_init :: "storedSort \<Rightarrow> shelf" where
  "shelf_init st = \<lparr>sf_authenticated = False, sf_session = 0, sf_books = [], sf_progress = [], sf_summary = None,
     sf_isLoading = True, sf_isLoadingMore = False, sf_nextCursor = None, sf_loadError = None, sf_category = None,
     sf_deletingId = None, sf_isDeletingMany = False, sf_isUpdatingMany = False, sf_sortBy = readShelfSort st,
     sf_storedSort = st,
     sf_query = [], sf_results = None, sf_searchCursor = None, sf_isSearching = False, sf_revision = 0,
     sf_loadGen = 0, sf_loadingMore = False, sf_searchGen = 0, sf_summaryGen = 0, sf_loadAbort = None,
     sf_moreAbort = None, sf_searchAbort = None, sf_searchTimer = False, sf_loadTimer = False, sf_pollStop = None,
     sf_aborted = [], sf_nextController = 0, sf_requests = [], sf_toasts = []\<rparr>"

section \<open>Controllers and requests\<close>

definition newController :: "shelf \<Rightarrow> nat \<times> shelf" where
  "newController s = (sf_nextController s, s\<lparr>sf_nextController := sf_nextController s + 1\<rparr>)"

definition abort :: "nat option \<Rightarrow> shelf \<Rightarrow> shelf" where
  "abort c s = (case c of Some i \<Rightarrow> s\<lparr>sf_aborted := i # sf_aborted s\<rparr> | None \<Rightarrow> s)"

definition issue :: "(nat \<Rightarrow> shelfRequest) \<Rightarrow> shelf \<Rightarrow> shelf" where
  "issue r s = s\<lparr>sf_requests := sf_requests s @ [r (sf_session s)]\<rparr>"

definition toastError :: "app_error \<Rightarrow> ustring \<Rightarrow> shelf \<Rightarrow> shelf" where
  "toastError e d s = s\<lparr>sf_toasts := sf_toasts s @ [ErrorToast e d]\<rparr>"

definition toastNotice :: "ustring \<Rightarrow> shelf \<Rightarrow> shelf" where
  "toastNotice m s = s\<lparr>sf_toasts := sf_toasts s @ [NoticeToast m]\<rparr>"

section \<open>Loading\<close>

definition setSortBy :: "bool \<Rightarrow> SortOption \<Rightarrow> shelf \<Rightarrow> shelf" where
  "setSortBy writable opt s = s\<lparr>sf_sortBy := opt, sf_storedSort := writeShelfSort writable opt (sf_storedSort s)\<rparr>"

definition loadLibrarySummary :: "shelf \<Rightarrow> shelf" where
  "loadLibrarySummary s =
    (let s1 = s\<lparr>sf_summaryGen := sf_summaryGen s + 1\<rparr> in issue (Summary (sf_summaryGen s1)) s1)"

definition summaryAnswered :: "nat \<Rightarrow> app_error + bookLibrarySummary \<Rightarrow> shelf \<Rightarrow> shelf" where
  "summaryAnswered gen answer s =
    (if gen \<noteq> sf_summaryGen s then s
     else case answer of Inr sm \<Rightarrow> s\<lparr>sf_summary := Some sm\<rparr> | Inl _ \<Rightarrow> s\<lparr>sf_summary := None\<rparr>)"

definition loadBooks :: "shelf \<Rightarrow> shelf" where
  "loadBooks s =
    (case newController (abort (sf_moreAbort s) (abort (sf_loadAbort s) s)) of
       (c, s1) \<Rightarrow>
        (let s2 = s1\<lparr>sf_loadAbort := Some c, sf_loadGen := sf_loadGen s1 + 1, sf_summaryGen := sf_summaryGen s1 + 1,
               sf_loadingMore := False, sf_isLoadingMore := False, sf_nextCursor := None, sf_isLoading := True,
               sf_loadError := None, sf_progress := []\<rparr> in
         issue (LoadPage (sf_loadGen s2) c) (issue (LoadSummary (sf_loadGen s2) (sf_summaryGen s2) c) s2)))"

definition loadCurrent :: "nat \<Rightarrow> nat \<Rightarrow> shelf \<Rightarrow> bool" where
  "loadCurrent gen c s \<longleftrightarrow> gen = sf_loadGen s \<and> c \<notin> set (sf_aborted s)"

definition loadSummaryAnswered :: "nat \<Rightarrow> nat \<Rightarrow> nat \<Rightarrow> app_error + bookLibrarySummary \<Rightarrow> shelf \<Rightarrow> shelf" where
  "loadSummaryAnswered gen sumGen c answer s =
    (case answer of
       Inr sm \<Rightarrow> if loadCurrent gen c s \<and> sumGen = sf_summaryGen s then s\<lparr>sf_summary := Some sm\<rparr> else s
     | Inl _ \<Rightarrow> s)"

definition finishLoading :: "nat \<Rightarrow> shelf \<Rightarrow> shelf" where
  "finishLoading gen s = (if gen = sf_loadGen s then s\<lparr>sf_isLoading := False\<rparr> else s)"

definition loadPageAnswered :: "nat \<Rightarrow> nat \<Rightarrow> app_error + bookPage \<Rightarrow> shelf \<Rightarrow> shelf" where
  "loadPageAnswered gen c answer s =
    finishLoading gen
      (if \<not> loadCurrent gen c s then s
       else case answer of
         Inr page \<Rightarrow>
          (let s1 = s\<lparr>sf_books := pg_books page, sf_nextCursor := pg_next_cursor page, sf_isLoading := False\<rparr> in
           if pg_books page = [] then s1 else issue (LoadProgress gen c) s1)
       | Inl e \<Rightarrow> s\<lparr>sf_books := [], sf_progress := [], sf_nextCursor := None, sf_loadError := Some e\<rparr>)"

definition mergeProgress :: "bool \<Rightarrow> app_error + progress list \<Rightarrow> shelf \<Rightarrow> shelf" where
  "mergeProgress current answer s =
    (case answer of
       Inr ps \<Rightarrow> if current then s\<lparr>sf_progress := addProgress ps (sf_progress s)\<rparr> else s
     | Inl _ \<Rightarrow> s)"

definition loadProgressAnswered :: "nat \<Rightarrow> nat \<Rightarrow> app_error + progress list \<Rightarrow> shelf \<Rightarrow> shelf" where
  "loadProgressAnswered gen c answer s = mergeProgress (loadCurrent gen c s) answer s"

section \<open>Further pages\<close>

definition loadMoreBooks :: "shelf \<Rightarrow> shelf" where
  "loadMoreBooks s =
    (let isSearch = trim (sf_query s) \<noteq> [];
         cursor = (if isSearch then sf_searchCursor s else sf_nextCursor s) in
     if truthy cursor = None \<or> sf_loadingMore s then s
     else case newController s of
       (c, s1) \<Rightarrow> issue (MorePage isSearch (sf_loadGen s1) (sf_searchGen s1) c)
         (s1\<lparr>sf_moreAbort := Some c, sf_loadingMore := True, sf_isLoadingMore := True\<rparr>))"

definition moreCurrent :: "nat \<Rightarrow> nat \<Rightarrow> nat \<Rightarrow> shelf \<Rightarrow> bool" where
  "moreCurrent lgen sgen c s \<longleftrightarrow> c \<notin> set (sf_aborted s) \<and> lgen = sf_loadGen s \<and> sgen = sf_searchGen s"

definition finishMore :: "nat \<Rightarrow> shelf \<Rightarrow> shelf" where
  "finishMore c s =
    (if sf_moreAbort s = Some c then s\<lparr>sf_loadingMore := False, sf_isLoadingMore := False\<rparr> else s)"

definition morePageAnswered :: "bool \<Rightarrow> nat \<Rightarrow> nat \<Rightarrow> nat \<Rightarrow> app_error + bookPage \<Rightarrow> shelf \<Rightarrow> shelf" where
  "morePageAnswered isSearch lgen sgen c answer s =
    finishMore c
      (case answer of
         Inr page \<Rightarrow>
          (if \<not> moreCurrent lgen sgen c s then s
           else
            let s1 = (if isSearch
                then s\<lparr>sf_results := Some (mergeBooks (pg_books page) (nullish (sf_results s) [])),
                       sf_searchCursor := pg_next_cursor page\<rparr>
                else s\<lparr>sf_books := mergeBooks (pg_books page) (sf_books s), sf_nextCursor := pg_next_cursor page\<rparr>) in
            if pg_books page = [] then s1 else issue (MoreProgress lgen sgen c) s1)
       | Inl e \<Rightarrow>
          (if c \<notin> set (sf_aborted s) \<and> lgen = sf_loadGen s then toastError e (js ''more'') s else s))"

definition moreProgressAnswered :: "nat \<Rightarrow> nat \<Rightarrow> nat \<Rightarrow> app_error + progress list \<Rightarrow> shelf \<Rightarrow> shelf" where
  "moreProgressAnswered lgen sgen c answer s = mergeProgress (moreCurrent lgen sgen c s) answer s"

section \<open>Effects\<close>

text \<open>The effect that loads the shelf: its clean-up, and its body for a logged-out and a logged-in user.\<close>

definition cleanLoadEffect :: "shelf \<Rightarrow> shelf" where
  "cleanLoadEffect s = abort (sf_moreAbort s) (abort (sf_loadAbort s) (s\<lparr>sf_loadTimer := False\<rparr>))"

definition loadEffect :: "shelf \<Rightarrow> shelf" where
  "loadEffect s =
    (if \<not> sf_authenticated s then
       (let s1 = s\<lparr>sf_loadGen := sf_loadGen s + 1, sf_searchGen := sf_searchGen s + 1,
              sf_summaryGen := sf_summaryGen s + 1, sf_loadingMore := False, sf_nextCursor := None, sf_results := None,
              sf_searchCursor := None, sf_summary := None, sf_books := [], sf_progress := []\<rparr> in
        abort (sf_moreAbort s1) (abort (sf_loadAbort s1) s1))
     else s\<lparr>sf_loadTimer := True\<rparr>)"

definition loadTimerFires :: "shelf \<Rightarrow> shelf" where
  "loadTimerFires s = (if sf_loadTimer s then loadBooks (s\<lparr>sf_loadTimer := False\<rparr>) else s)"

definition cleanSearchEffect :: "shelf \<Rightarrow> shelf" where
  "cleanSearchEffect s = abort (sf_searchAbort s) (s\<lparr>sf_searchTimer := False, sf_searchAbort := None\<rparr>)"

definition searchEffect :: "shelf \<Rightarrow> shelf" where
  "searchEffect s =
    (let s1 = (abort (sf_moreAbort s) (s\<lparr>sf_searchGen := sf_searchGen s + 1\<rparr>))
           \<lparr>sf_loadingMore := False, sf_isLoadingMore := False\<rparr> in
     if \<not> sf_authenticated s1 \<or> trim (sf_query s1) = []
     then s1\<lparr>sf_results := None, sf_searchCursor := None, sf_isSearching := False\<rparr>
     else case newController (s1\<lparr>sf_isSearching := True\<rparr>) of
       (c, s2) \<Rightarrow> s2\<lparr>sf_searchAbort := Some c, sf_searchTimer := True\<rparr>)"

definition searchTimerFires :: "shelf \<Rightarrow> shelf" where
  "searchTimerFires s =
    (case sf_searchAbort s of
       Some c \<Rightarrow> if sf_searchTimer s then issue (SearchPage (sf_searchGen s) c) (s\<lparr>sf_searchTimer := False\<rparr>) else s
     | None \<Rightarrow> s)"

definition searchCurrent :: "nat \<Rightarrow> nat \<Rightarrow> shelf \<Rightarrow> bool" where
  "searchCurrent gen c s \<longleftrightarrow> gen = sf_searchGen s \<and> c \<notin> set (sf_aborted s)"

definition searchPageAnswered :: "nat \<Rightarrow> nat \<Rightarrow> app_error + bookPage \<Rightarrow> shelf \<Rightarrow> shelf" where
  "searchPageAnswered gen c answer s =
    (let s1 = (if \<not> searchCurrent gen c s then s
         else case answer of
           Inr page \<Rightarrow>
            (let s0 = s\<lparr>sf_results := Some (pg_books page), sf_searchCursor := pg_next_cursor page\<rparr> in
             if pg_books page = [] then s0 else issue (SearchProgress gen c) s0)
         | Inl e \<Rightarrow> toastError e (js ''search'') (s\<lparr>sf_results := Some [], sf_searchCursor := None\<rparr>)) in
     if gen = sf_searchGen s1 then s1\<lparr>sf_isSearching := False\<rparr> else s1)"

definition searchProgressAnswered :: "nat \<Rightarrow> nat \<Rightarrow> app_error + progress list \<Rightarrow> shelf \<Rightarrow> shelf" where
  "searchProgressAnswered gen c answer s = mergeProgress (searchCurrent gen c s) answer s"

text \<open>The polling effect: \<open>sf_pollStop\<close> names the running effect; an answer to another one is ignored.\<close>

definition pollEffect :: "shelf \<Rightarrow> shelf" where
  "pollEffect s =
    (if \<not> sf_authenticated s \<or> pendingBookIDs (sf_books s) (sf_results s) = [] then s\<lparr>sf_pollStop := None\<rparr>
     else case newController s of (c, s1) \<Rightarrow> s1\<lparr>sf_pollStop := Some c\<rparr>)"

definition pollTimerFires :: "bool \<Rightarrow> shelf \<Rightarrow> shelf" where
  "pollTimerFires hidden s =
    (case sf_pollStop s of Some c \<Rightarrow> if hidden then s else issue (Poll c) s | None \<Rightarrow> s)"

definition pollAnswered :: "nat \<Rightarrow> app_error + book list \<Rightarrow> shelf \<Rightarrow> shelf" where
  "pollAnswered c answer s =
    (case answer of
       Inr updated \<Rightarrow>
        (if sf_pollStop s \<noteq> Some c then s
         else s\<lparr>sf_books := replaceBooks updated (sf_books s),
                sf_results := map_option (replaceBooks updated) (sf_results s)\<rparr>)
     | Inl _ \<Rightarrow> s)"

section \<open>Changes\<close>

definition dropBooks :: "ustring list \<Rightarrow> shelf \<Rightarrow> shelf" where
  "dropBooks ids s = s\<lparr>sf_books := filter (\<lambda>b. bk_id b \<notin> set ids) (sf_books s),
     sf_results := map_option (filter (\<lambda>b. bk_id b \<notin> set ids)) (sf_results s),
     sf_progress := fold mapDelete ids (sf_progress s)\<rparr>"

definition handleDelete :: "ustring \<Rightarrow> shelf \<Rightarrow> shelf" where
  "handleDelete i s = issue (DeleteBook i) (s\<lparr>sf_deletingId := Some i\<rparr>)"

definition deleteAnswered :: "ustring \<Rightarrow> app_error + unit \<Rightarrow> shelf \<Rightarrow> shelf" where
  "deleteAnswered i answer s =
    (case answer of
       Inr _ \<Rightarrow> toastNotice (js ''deleted'') (loadLibrarySummary (dropBooks [i] s))
     | Inl e \<Rightarrow> toastError e (js ''delete'') s)\<lparr>sf_deletingId := None\<rparr>"

definition uniqueIds :: "ustring list \<Rightarrow> ustring list" where
  "uniqueIds ids = filter (\<lambda>i. i \<noteq> []) (unique ids)"

definition handleDeleteMany :: "ustring list \<Rightarrow> shelf \<Rightarrow> shelf" where
  "handleDeleteMany ids s =
    (if uniqueIds ids = [] then s else issue (DeleteBooks (uniqueIds ids)) (s\<lparr>sf_isDeletingMany := True\<rparr>))"

definition deleteManyAnswered :: "ustring list \<Rightarrow> app_error + ustring list option \<Rightarrow> shelf \<Rightarrow> (nat \<times> nat) \<times> shelf" where
  "deleteManyAnswered ids answer s =
    (case answer of
       Inr deleted \<Rightarrow>
        (let gone = nullish deleted ids in
         ((length gone, 0), (toastNotice (dec (length gone)) (loadLibrarySummary (dropBooks gone s)))\<lparr>sf_isDeletingMany := False\<rparr>))
     | Inl e \<Rightarrow> ((0, length ids), (toastError e (js ''delete'') s)\<lparr>sf_isDeletingMany := False\<rparr>))"

definition handleUpdateCategoryMany :: "ustring list \<Rightarrow> ustring option \<Rightarrow> shelf \<Rightarrow> (nat \<times> nat) option \<times> shelf" where
  "handleUpdateCategoryMany ids category s =
    (let next = truthy (map_option trim category) in
     if uniqueIds ids = [] then (Some (0, 0), s)
     else if (case next of Some c \<Rightarrow> 50 < length c | None \<Rightarrow> False)
     then (Some (0, length (uniqueIds ids)), toastNotice (js ''too long'') s)
     else (None, issue (UpdateCategory (uniqueIds ids) next) (s\<lparr>sf_isUpdatingMany := True\<rparr>)))"

definition updateCategoryAnswered ::
  "ustring list \<Rightarrow> ustring option \<Rightarrow> app_error + book list option \<Rightarrow> shelf \<Rightarrow> (nat \<times> nat) \<times> shelf" where
  "updateCategoryAnswered ids category answer s =
    (case answer of
       Inr bs \<Rightarrow>
        (let updated = nullish bs [];
             s1 = s\<lparr>sf_books := replaceBooks updated (sf_books s),
                    sf_results := map_option (replaceBooks updated) (sf_results s)\<rparr> in
         ((length updated, 0), (toastNotice (nullish category (js ''cleared'')) (loadLibrarySummary s1))\<lparr>sf_isUpdatingMany := False\<rparr>))
     | Inl e \<Rightarrow> ((0, length ids), (toastError e (js ''category'') s)\<lparr>sf_isUpdatingMany := False\<rparr>))"

definition handleRenameCategory :: "ustring \<Rightarrow> ustring option \<Rightarrow> shelf \<Rightarrow> shelf" where
  "handleRenameCategory category next s =
    (if trim category = [] then s
     else issue (RenameCategory (trim category) (truthy (map_option trim next)) (sf_category s))
       (s\<lparr>sf_isUpdatingMany := True\<rparr>))"

definition renameAnswered ::
  "ustring \<Rightarrow> ustring option \<Rightarrow> ustring option \<Rightarrow> app_error + ustring list \<Rightarrow> shelf \<Rightarrow> (nat \<times> nat) \<times> shelf" where
  "renameAnswered current normalized selected answer s =
    (case answer of
       Inr ids \<Rightarrow>
        (let s1 = s\<lparr>sf_loadGen := sf_loadGen s + 1, sf_searchGen := sf_searchGen s + 1,
               sf_summaryGen := sf_summaryGen s + 1\<rparr>;
             s2 = abort (sf_moreAbort s1) (abort (sf_loadAbort s1) s1);
             s3 = s2\<lparr>sf_books := recategorise ids normalized (sf_books s2),
                sf_results := map_option (recategorise ids normalized) (sf_results s2),
                sf_summary := map_option (renameInSummary current normalized (length ids)) (sf_summary s2),
                sf_category := (if selected = Some current then normalized else sf_category s2),
                sf_revision := sf_revision s2 + 1\<rparr> in
         ((length ids, 0), (toastNotice (nullish normalized (js ''cleared'')) s3)\<lparr>sf_isUpdatingMany := False\<rparr>))
     | Inl e \<Rightarrow> ((0, 1), (toastError e (js ''rename'') s)\<lparr>sf_isUpdatingMany := False\<rparr>))"

definition hasMoreBooks :: "shelf \<Rightarrow> bool" where
  "hasMoreBooks s =
    (if trim (sf_query s) \<noteq> [] then sf_results s \<noteq> None \<and> truthy (sf_searchCursor s) \<noteq> None
     else truthy (sf_nextCursor s) \<noteq> None)"

section \<open>Events\<close>

definition rerunLoad :: "shelf \<Rightarrow> shelf" where
  "rerunLoad s = loadEffect (cleanLoadEffect s)"

definition rerunSearch :: "shelf \<Rightarrow> shelf" where
  "rerunSearch s = searchEffect (cleanSearchEffect s)"

datatype shelf_event =
    SetAuthenticated bool
  | SetQuery ustring
  | SetSort bool SortOption
  | SetCategory "ustring option"
  | LoadTimer | SearchTimer | PollTimer bool | PollAgain
  | LoadMore
  | UploadsAdded
  | Delete ustring
  | DeleteMany "ustring list"
  | UpdateMany "ustring list" "ustring option"
  | Rename ustring "ustring option"
  | PageAnswer shelfRequest "app_error + bookPage"
  | SummaryAnswer shelfRequest "app_error + bookLibrarySummary"
  | ProgressAnswer shelfRequest "app_error + progress list"
  | StatusAnswer shelfRequest "app_error + book list"
  | DeleteAnswer shelfRequest "app_error + unit"
  | DeleteManyAnswer shelfRequest "app_error + ustring list option"
  | UpdateAnswer shelfRequest "app_error + book list option"
  | RenameAnswer shelfRequest "app_error + ustring list"

definition received :: "shelfRequest \<Rightarrow> shelf \<Rightarrow> shelf" where
  "received r s = s\<lparr>sf_requests := remove1 r (sf_requests s)\<rparr>"

fun pageStep :: "shelfRequest \<Rightarrow> app_error + bookPage \<Rightarrow> shelf \<Rightarrow> shelf" where
  "pageStep (LoadPage g c k) a s = loadPageAnswered g c a s"
| "pageStep (MorePage b lg sg c k) a s = morePageAnswered b lg sg c a s"
| "pageStep (SearchPage g c k) a s = searchPageAnswered g c a s"
| "pageStep _ a s = s"

fun summaryStep :: "shelfRequest \<Rightarrow> app_error + bookLibrarySummary \<Rightarrow> shelf \<Rightarrow> shelf" where
  "summaryStep (LoadSummary g sg c k) a s = loadSummaryAnswered g sg c a s"
| "summaryStep (Summary g k) a s = summaryAnswered g a s"
| "summaryStep _ a s = s"

fun progressStep :: "shelfRequest \<Rightarrow> app_error + progress list \<Rightarrow> shelf \<Rightarrow> shelf" where
  "progressStep (LoadProgress g c k) a s = loadProgressAnswered g c a s"
| "progressStep (MoreProgress lg sg c k) a s = moreProgressAnswered lg sg c a s"
| "progressStep (SearchProgress g c k) a s = searchProgressAnswered g c a s"
| "progressStep _ a s = s"

text \<open>A change of the login runs the effects that depend on it and begins a new session; a renamed
  category runs the load and search effects through \<^verbatim>\<open>queryRevision\<close>.\<close>

fun shelf_step :: "shelf_event \<Rightarrow> shelf \<Rightarrow> shelf" where
  "shelf_step (SetAuthenticated b) s =
    (if b = sf_authenticated s then s
     else pollEffect (searchEffect (loadEffect (cleanSearchEffect (cleanLoadEffect
       (s\<lparr>sf_authenticated := b, sf_session := sf_session s + 1\<rparr>))))))"
| "shelf_step (SetQuery q) s = rerunSearch (s\<lparr>sf_query := q\<rparr>)"
| "shelf_step (SetSort writable opt) s = rerunSearch (rerunLoad (setSortBy writable opt s))"
| "shelf_step (SetCategory c) s = rerunSearch (rerunLoad (s\<lparr>sf_category := c\<rparr>))"
| "shelf_step LoadTimer s = loadTimerFires s"
| "shelf_step SearchTimer s = searchTimerFires s"
| "shelf_step (PollTimer hidden) s = pollTimerFires hidden s"
| "shelf_step PollAgain s = pollEffect s"
| "shelf_step LoadMore s = loadMoreBooks s"
| "shelf_step UploadsAdded s = loadBooks s"
| "shelf_step (Delete i) s = handleDelete i s"
| "shelf_step (DeleteMany ids) s = handleDeleteMany ids s"
| "shelf_step (UpdateMany ids c) s = snd (handleUpdateCategoryMany ids c s)"
| "shelf_step (Rename c n) s = handleRenameCategory c n s"
| "shelf_step (PageAnswer r a) s = pageStep r a (received r s)"
| "shelf_step (SummaryAnswer r a) s = summaryStep r a (received r s)"
| "shelf_step (ProgressAnswer r a) s = progressStep r a (received r s)"
| "shelf_step (StatusAnswer r a) s = (case r of Poll c k \<Rightarrow> pollAnswered c a (received r s) | _ \<Rightarrow> s)"
| "shelf_step (DeleteAnswer r a) s = (case r of DeleteBook i k \<Rightarrow> deleteAnswered i a (received r s) | _ \<Rightarrow> s)"
| "shelf_step (DeleteManyAnswer r a) s =
    (case r of DeleteBooks ids k \<Rightarrow> snd (deleteManyAnswered ids a (received r s)) | _ \<Rightarrow> s)"
| "shelf_step (UpdateAnswer r a) s =
    (case r of UpdateCategory ids c k \<Rightarrow> snd (updateCategoryAnswered ids c a (received r s)) | _ \<Rightarrow> s)"
| "shelf_step (RenameAnswer r a) s =
    (case r of
       RenameCategory current normalized selected k \<Rightarrow>
        (let s1 = snd (renameAnswered current normalized selected a (received r s)) in
         if sf_revision s1 = sf_revision s then s1 else rerunSearch (rerunLoad s1))
     | _ \<Rightarrow> s)"

section \<open>Sessions\<close>

text \<open>What the server answers: a request of session \<open>k\<close> gets books and progress of the account logged in
  then, whose book ids are those with \<open>own k\<close>; a request made without a login is refused. Sessions without
  a login are the even ones.\<close>

fun sessionOf :: "shelfRequest \<Rightarrow> nat" where
  "sessionOf (LoadPage g c k) = k"
| "sessionOf (LoadSummary g sg c k) = k"
| "sessionOf (LoadProgress g c k) = k"
| "sessionOf (Summary g k) = k"
| "sessionOf (MorePage b lg sg c k) = k"
| "sessionOf (MoreProgress lg sg c k) = k"
| "sessionOf (SearchPage g c k) = k"
| "sessionOf (SearchProgress g c k) = k"
| "sessionOf (Poll c k) = k"
| "sessionOf (DeleteBook i k) = k"
| "sessionOf (DeleteBooks ids k) = k"
| "sessionOf (UpdateCategory ids c k) = k"
| "sessionOf (RenameCategory c n sel k) = k"

definition fromAccount :: "(nat \<Rightarrow> ustring \<Rightarrow> bool) \<Rightarrow> shelfRequest \<Rightarrow> ustring list \<Rightarrow> bool" where
  "fromAccount own r ids \<longleftrightarrow> odd (sessionOf r) \<and> list_all (own (sessionOf r)) ids"

fun shelf_enabled :: "(nat \<Rightarrow> ustring \<Rightarrow> bool) \<Rightarrow> shelf_event \<Rightarrow> shelf \<Rightarrow> bool" where
  "shelf_enabled own (PageAnswer r a) s = (r \<in> set (sf_requests s) \<and>
     (case a of Inr page \<Rightarrow> fromAccount own r (map bk_id (pg_books page)) | Inl _ \<Rightarrow> True))"
| "shelf_enabled own (SummaryAnswer r a) s = (r \<in> set (sf_requests s) \<and>
     (case a of Inr _ \<Rightarrow> fromAccount own r [] | Inl _ \<Rightarrow> True))"
| "shelf_enabled own (ProgressAnswer r a) s = (r \<in> set (sf_requests s) \<and>
     (case a of Inr ps \<Rightarrow> fromAccount own r (map pr_book_id ps) | Inl _ \<Rightarrow> True))"
| "shelf_enabled own (StatusAnswer r a) s = (r \<in> set (sf_requests s))"
| "shelf_enabled own (DeleteAnswer r a) s = (r \<in> set (sf_requests s))"
| "shelf_enabled own (DeleteManyAnswer r a) s = (r \<in> set (sf_requests s))"
| "shelf_enabled own (UpdateAnswer r a) s = (r \<in> set (sf_requests s))"
| "shelf_enabled own (RenameAnswer r a) s = (r \<in> set (sf_requests s))"
| "shelf_enabled own _ s = True"

inductive shelf_reach :: "(nat \<Rightarrow> ustring \<Rightarrow> bool) \<Rightarrow> shelf \<Rightarrow> bool" for own where
  start: "shelf_reach own (shelf_init st)"
| step: "shelf_reach own s \<Longrightarrow> shelf_enabled own ev s \<Longrightarrow> shelf_reach own (shelf_step ev s)"

fun shelf_run :: "(nat \<Rightarrow> ustring \<Rightarrow> bool) \<Rightarrow> shelf_event list \<Rightarrow> shelf \<Rightarrow> bool" where
  "shelf_run own [] s = True"
| "shelf_run own (ev # evs) s = (shelf_enabled own ev s \<and> shelf_run own evs (shelf_step ev s))"

lemma shelf_reach_run: "shelf_reach own s \<Longrightarrow> shelf_run own evs s \<Longrightarrow> shelf_reach own (fold shelf_step evs s)"
  by (induction evs arbitrary: s) (auto intro: shelf_reach.step)

section \<open>Stale answers\<close>

text \<open>The contract behind the generation counters: a counter never goes back, and moves on whenever a login
  ends; so a request that captured the counter is either outdated or of the present session.\<close>

locale generation_guard =
  fixes gen :: "'s \<Rightarrow> nat" and session :: "'s \<Rightarrow> nat" and moves :: "'s \<Rightarrow> 's \<Rightarrow> bool"
  assumes gen_mono: "moves s s' \<Longrightarrow> gen s \<le> gen s'"
    and gen_session: "moves s s' \<Longrightarrow> session s' \<noteq> session s \<Longrightarrow> odd (session s) \<Longrightarrow> gen s < gen s'"
begin

definition guarded :: "nat \<Rightarrow> nat \<Rightarrow> 's \<Rightarrow> bool" where
  "guarded g k s \<longleftrightarrow> g \<le> gen s \<and> (g = gen s \<longrightarrow> k = session s \<or> even k)"

lemma guarded_now: "guarded (gen s) (session s) s"
  by (simp add: guarded_def)

lemma guarded_moves:
  assumes "moves s s'" and "guarded g k s"
  shows "guarded g k s'"
proof (cases "g = gen s'")
  case True
  then have eq: "gen s = gen s'" "g = gen s" using gen_mono [OF assms(1)] assms(2) by (auto simp: guarded_def)
  then have "session s' = session s \<or> even (session s)" using gen_session [OF assms(1)] by auto
  then show ?thesis using assms(2) eq by (auto simp: guarded_def)
next
  case False
  then show ?thesis using gen_mono [OF assms(1)] assms(2) by (auto simp: guarded_def)
qed

lemma guarded_current: "guarded g k s \<Longrightarrow> g = gen s \<Longrightarrow> odd k \<Longrightarrow> k = session s"
  by (auto simp: guarded_def)

end

definition moves :: "shelf \<Rightarrow> shelf \<Rightarrow> bool" where
  "moves s s' \<longleftrightarrow> sf_loadGen s \<le> sf_loadGen s' \<and> sf_searchGen s \<le> sf_searchGen s' \<and> sf_summaryGen s \<le> sf_summaryGen s' \<and>
    (sf_session s' = sf_session s \<or> even (sf_session s) \<or>
     sf_loadGen s < sf_loadGen s' \<and> sf_searchGen s < sf_searchGen s' \<and> sf_summaryGen s < sf_summaryGen s')"

interpretation load: generation_guard sf_loadGen sf_session moves
  by unfold_locales (auto simp: moves_def)

interpretation search: generation_guard sf_searchGen sf_session moves
  by unfold_locales (auto simp: moves_def)

interpretation summary: generation_guard sf_summaryGen sf_session moves
  by unfold_locales (auto simp: moves_def)

fun req_ok :: "shelf \<Rightarrow> shelfRequest \<Rightarrow> bool" where
  "req_ok s (LoadPage g c k) = load.guarded g k s"
| "req_ok s (LoadSummary g sg c k) = load.guarded g k s"
| "req_ok s (LoadProgress g c k) = load.guarded g k s"
| "req_ok s (Summary g k) = summary.guarded g k s"
| "req_ok s (MorePage b lg sg c k) = load.guarded lg k s"
| "req_ok s (MoreProgress lg sg c k) = load.guarded lg k s"
| "req_ok s (SearchPage g c k) = search.guarded g k s"
| "req_ok s (SearchProgress g c k) = search.guarded g k s"
| "req_ok s _ = True"

lemma req_ok_moves: "moves s s' \<Longrightarrow> req_ok s r \<Longrightarrow> req_ok s' r"
  by (cases r) (auto intro: load.guarded_moves search.guarded_moves summary.guarded_moves)

definition data_ok :: "(nat \<Rightarrow> ustring \<Rightarrow> bool) \<Rightarrow> shelf \<Rightarrow> bool" where
  "data_ok own s \<longleftrightarrow> list_all (own (sf_session s)) (map bk_id (sf_books s)) \<and>
     list_all (own (sf_session s)) (map bk_id (nullish (sf_results s) [])) \<and>
     list_all (own (sf_session s)) (map fst (sf_progress s)) \<and> (\<not> sf_authenticated s \<longrightarrow> sf_summary s = None)"

definition shelf_inv :: "(nat \<Rightarrow> ustring \<Rightarrow> bool) \<Rightarrow> shelf \<Rightarrow> bool" where
  "shelf_inv own s \<longleftrightarrow> data_ok own s \<and> list_all (req_ok s) (sf_requests s) \<and> (sf_authenticated s = odd (sf_session s))"

text \<open>A step within a session: the counters move on, the data shown stay those of the session, and new
  requests carry the present counters.\<close>

definition good_step :: "(nat \<Rightarrow> ustring \<Rightarrow> bool) \<Rightarrow> shelf \<Rightarrow> shelf \<Rightarrow> bool" where
  "good_step own s s' \<longleftrightarrow> moves s s' \<and> sf_session s' = sf_session s \<and> sf_authenticated s' = sf_authenticated s \<and>
     (data_ok own s \<longrightarrow> data_ok own s') \<and>
     list_all (\<lambda>r. r \<in> set (sf_requests s) \<or> req_ok s' r) (sf_requests s')"

lemma good_step_inv: "shelf_inv own s \<Longrightarrow> good_step own s s' \<Longrightarrow> shelf_inv own s'"
  by (auto simp: shelf_inv_def good_step_def list_all_iff intro: req_ok_moves)

lemma good_step_refl [simp]: "good_step own s s"
  by (simp add: good_step_def moves_def list_all_iff)

lemma good_step_trans:
  assumes "good_step own s s'" and "good_step own s' s''"
  shows "good_step own s s''"
  using assms req_ok_moves [of s' s''] by (auto simp: good_step_def moves_def list_all_iff)

text \<open>A change of other fields only, with the counters moved on.\<close>

lemma good_fields:
  assumes "sf_session s' = sf_session s" and "sf_authenticated s' = sf_authenticated s"
    and "sf_loadGen s \<le> sf_loadGen s'" and "sf_searchGen s \<le> sf_searchGen s'" and "sf_summaryGen s \<le> sf_summaryGen s'"
    and "set (sf_requests s') \<subseteq> set (sf_requests s)" and "data_ok own s \<Longrightarrow> data_ok own s'"
  shows "good_step own s s'"
  using assms by (auto simp: good_step_def moves_def list_all_iff)

lemma good_issue:
  assumes "req_ok s (r (sf_session s))"
  shows "good_step own s (issue r s)"
proof -
  have "moves s (issue r s)" by (simp add: moves_def issue_def)
  then show ?thesis
    using assms req_ok_moves by (auto simp: good_step_def issue_def data_ok_def list_all_iff)
qed

lemma good_abort: "good_step own s (abort c s)"
  by (rule good_fields) (auto simp: abort_def data_ok_def split: option.splits)

lemma good_received: "good_step own s (received r s)"
  by (rule good_fields) (auto simp: received_def data_ok_def intro: set_remove1_subset [THEN subsetD])

lemma abort_fields [simp]:
  "sf_session (abort c s) = sf_session s" "sf_authenticated (abort c s) = sf_authenticated s"
  "sf_loadGen (abort c s) = sf_loadGen s" "sf_searchGen (abort c s) = sf_searchGen s"
  "sf_summaryGen (abort c s) = sf_summaryGen s" "sf_requests (abort c s) = sf_requests s"
  "sf_books (abort c s) = sf_books s" "sf_results (abort c s) = sf_results s"
  "sf_progress (abort c s) = sf_progress s" "sf_summary (abort c s) = sf_summary s"
  "sf_query (abort c s) = sf_query s" "sf_revision (abort c s) = sf_revision s"
  "data_ok own (abort c s) = data_ok own s"
  by (simp_all add: abort_def data_ok_def split: option.splits)

lemma issue_fields [simp]:
  "sf_session (issue r s) = sf_session s" "sf_authenticated (issue r s) = sf_authenticated s"
  "sf_loadGen (issue r s) = sf_loadGen s" "sf_searchGen (issue r s) = sf_searchGen s"
  "sf_summaryGen (issue r s) = sf_summaryGen s"
  by (simp_all add: issue_def)

lemmas guarded_now = load.guarded_now search.guarded_now summary.guarded_now

lemma good_loadBooks: "good_step own s (loadBooks s)"
proof -
  let ?s1 = "abort (sf_moreAbort s) (abort (sf_loadAbort s) s)"
  let ?c = "sf_nextController ?s1"
  define s2 where "s2 = ?s1\<lparr>sf_nextController := ?c + 1, sf_loadAbort := Some ?c, sf_loadGen := sf_loadGen ?s1 + 1,
    sf_summaryGen := sf_summaryGen ?s1 + 1, sf_loadingMore := False, sf_isLoadingMore := False, sf_nextCursor := None,
    sf_isLoading := True, sf_loadError := None, sf_progress := []\<rparr>"
  have "good_step own s s2" by (rule good_fields) (simp_all add: s2_def data_ok_def)
  moreover have "good_step own s2 (issue (LoadSummary (sf_loadGen s2) (sf_summaryGen s2) ?c) s2)"
    by (rule good_issue) (simp add: guarded_now)
  moreover have "good_step own s' (issue (LoadPage (sf_loadGen s2) ?c) s')"
    if "sf_loadGen s' = sf_loadGen s2" for s'
    using load.guarded_now [of s'] that by (intro good_issue) simp
  ultimately have "good_step own s (issue (LoadPage (sf_loadGen s2) ?c)
      (issue (LoadSummary (sf_loadGen s2) (sf_summaryGen s2) ?c) s2))"
    by (meson good_step_trans issue_fields(3))
  then show ?thesis by (simp add: loadBooks_def newController_def Let_def s2_def)
qed

lemma good_summary: "good_step own s (loadLibrarySummary s)"
proof -
  let ?s = "s\<lparr>sf_summaryGen := sf_summaryGen s + 1\<rparr>"
  have "good_step own s ?s" by (rule good_fields) (simp_all add: data_ok_def)
  moreover have "good_step own ?s (issue (Summary (sf_summaryGen ?s)) ?s)"
    using summary.guarded_now [of ?s] by (intro good_issue) simp
  ultimately show ?thesis unfolding loadLibrarySummary_def Let_def by (rule good_step_trans)
qed

lemma good_toast: "good_step own s (toastError e d s)" "good_step own s (toastNotice m s)"
  by (rule good_fields; simp add: toastError_def toastNotice_def data_ok_def)+

lemma good_loadMore: "good_step own s (loadMoreBooks s)"
proof (cases "loadMoreBooks s = s")
  case False
  let ?isSearch = "trim (sf_query s) \<noteq> []"
  let ?s = "s\<lparr>sf_nextController := sf_nextController s + 1, sf_moreAbort := Some (sf_nextController s),
    sf_loadingMore := True, sf_isLoadingMore := True\<rparr>"
  have "good_step own s ?s" by (rule good_fields) (simp_all add: data_ok_def)
  moreover have "good_step own ?s (issue (MorePage ?isSearch (sf_loadGen s) (sf_searchGen s) (sf_nextController s)) ?s)"
    using load.guarded_now [of ?s] by (intro good_issue) simp
  moreover have "loadMoreBooks s = issue (MorePage ?isSearch (sf_loadGen s) (sf_searchGen s) (sf_nextController s)) ?s"
    using False by (auto simp: loadMoreBooks_def Let_def newController_def split: if_splits)
  ultimately show ?thesis by (metis good_step_trans)
qed simp

lemma good_loadEffect: "good_step own s (loadEffect s)"
proof (cases "sf_authenticated s")
  case False
  then show ?thesis
    by (intro good_fields) (simp_all add: loadEffect_def Let_def, simp add: data_ok_def)
next
  case True
  then show ?thesis by (intro good_fields) (simp_all add: loadEffect_def data_ok_def)
qed

lemma good_cleanLoad: "good_step own s (cleanLoadEffect s)"
  by (rule good_fields) (simp_all add: cleanLoadEffect_def, simp add: data_ok_def)

lemma good_cleanSearch: "good_step own s (cleanSearchEffect s)"
  by (rule good_fields) (simp_all add: cleanSearchEffect_def, simp add: data_ok_def)

lemma data_ok_frame:
  "data_ok own (s\<lparr>sf_searchCursor := a, sf_isSearching := b\<rparr>) = data_ok own s"
  by (simp add: data_ok_def)

lemma searchEffect_fields [simp]:
  "sf_session (searchEffect s) = sf_session s" "sf_authenticated (searchEffect s) = sf_authenticated s"
  "sf_loadGen (searchEffect s) = sf_loadGen s" "sf_searchGen (searchEffect s) = sf_searchGen s + 1"
  "sf_summaryGen (searchEffect s) = sf_summaryGen s" "sf_requests (searchEffect s) = sf_requests s"
  "sf_books (searchEffect s) = sf_books s" "sf_progress (searchEffect s) = sf_progress s"
  "sf_summary (searchEffect s) = sf_summary s"
  by (simp_all add: searchEffect_def Let_def newController_def)

lemma searchEffect_results: "sf_results (searchEffect s) = None \<or> sf_results (searchEffect s) = sf_results s"
  by (simp add: searchEffect_def Let_def newController_def)

lemma good_searchEffect: "good_step own s (searchEffect s)"
  using searchEffect_results [of s]
  by (intro good_fields) (auto simp: data_ok_def)

lemma good_rerun: "good_step own s (rerunLoad s)" "good_step own s (rerunSearch s)"
  unfolding rerunLoad_def rerunSearch_def
  by (metis good_step_trans good_loadEffect good_cleanLoad good_searchEffect good_cleanSearch)+

lemma good_pollEffect: "good_step own s (pollEffect s)"
  by (rule good_fields) (auto simp: pollEffect_def newController_def data_ok_def)

lemma good_pollTimer: "good_step own s (pollTimerFires h s)"
  by (auto simp: pollTimerFires_def split: option.splits intro!: good_issue)

lemma good_searchTimer: "good_step own s (searchTimerFires s)"
proof (cases "searchTimerFires s = s")
  case False
  then obtain c where e: "searchTimerFires s = issue (SearchPage (sf_searchGen s) c) (s\<lparr>sf_searchTimer := False\<rparr>)"
    by (auto simp: searchTimerFires_def split: option.splits if_splits)
  have "good_step own s (s\<lparr>sf_searchTimer := False\<rparr>)" by (rule good_fields) (simp_all add: data_ok_def)
  moreover have "good_step own (s\<lparr>sf_searchTimer := False\<rparr>) (searchTimerFires s)"
    unfolding e using search.guarded_now [of "s\<lparr>sf_searchTimer := False\<rparr>"] by (intro good_issue) simp
  ultimately show ?thesis by (rule good_step_trans)
qed simp

text \<open>Deleting and replacing books.\<close>

lemma keys_fold_delete: "set (map fst (fold mapDelete ids m)) \<subseteq> set (map fst m)"
proof (induction ids arbitrary: m)
  case (Cons i ids)
  have "set (map fst (mapDelete i m)) \<subseteq> set (map fst m)" by (auto simp: AList.delete_eq)
  with Cons [of "mapDelete i m"] show ?case by auto
qed simp

lemma good_dropBooks: "good_step own s (dropBooks ids s)"
proof (rule good_fields)
  assume d: "data_ok own s"
  have "list_all (own (sf_session s)) (map fst (fold mapDelete ids (sf_progress s)))"
    using d keys_fold_delete [of ids "sf_progress s"] unfolding data_ok_def list_all_iff by blast
  moreover have "list_all (own (sf_session s)) (map bk_id (nullish (map_option (filter (\<lambda>b. bk_id b \<notin> set ids)) (sf_results s)) []))"
    using d by (cases "sf_results s") (auto simp: data_ok_def list_all_iff)
  ultimately show "data_ok own (dropBooks ids s)"
    using d by (auto simp: data_ok_def dropBooks_def list_all_iff)
qed (simp_all add: dropBooks_def)

definition sameIds :: "(book list \<Rightarrow> book list) \<Rightarrow> bool" where
  "sameIds f \<longleftrightarrow> (\<forall>bs. map bk_id (f bs) = map bk_id bs)"

lemma same_ids: "sameIds (replaceBooks u)" "sameIds (recategorise ids c)"
  by (simp_all add: sameIds_def)

lemma data_ok_sameIds:
  assumes "sameIds f" and "data_ok own s" and "sf_session s' = sf_session s" and "sf_authenticated s' = sf_authenticated s"
    and "sf_books s' = f (sf_books s)" and "sf_results s' = map_option f (sf_results s)" and "sf_progress s' = sf_progress s"
    and "sf_summary s' = None \<or> sf_summary s \<noteq> None"
  shows "data_ok own s'"
proof -
  have f: "map bk_id (f bs) = map bk_id bs" for bs using assms(1) by (simp add: sameIds_def)
  have "map bk_id (nullish (sf_results s') []) = map bk_id (nullish (sf_results s) [])"
    using assms(6) f by (cases "sf_results s") simp_all
  with assms f show ?thesis by (auto simp: data_ok_def)
qed

lemma good_pollAnswered: "good_step own s (pollAnswered c a s)"
proof (cases "pollAnswered c a s = s")
  case False
  then obtain u where e: "pollAnswered c a s = s\<lparr>sf_books := replaceBooks u (sf_books s),
      sf_results := map_option (replaceBooks u) (sf_results s)\<rparr>"
    by (auto simp: pollAnswered_def split: sum.splits if_splits)
  show ?thesis
    by (rule good_fields) (simp_all add: e, rule data_ok_sameIds [OF same_ids(1) [of u]], auto simp: data_ok_def)
qed simp

lemma good_after:
  assumes "good_step own s s1" and "good_step own s1 s2" and "sf_requests s3 = sf_requests s2"
    and "sf_session s3 = sf_session s2" and "sf_authenticated s3 = sf_authenticated s2" and "sf_loadGen s3 = sf_loadGen s2"
    and "sf_searchGen s3 = sf_searchGen s2" and "sf_summaryGen s3 = sf_summaryGen s2" and "data_ok own s3 = data_ok own s2"
  shows "good_step own s s3"
  by (rule good_step_trans [OF good_step_trans [OF assms(1,2)] good_fields]) (use assms(3-9) in auto)

lemma good_deleteAnswered: "good_step own s (deleteAnswered i a s)"
proof (cases a)
  case (Inr u)
  let ?s1 = "loadLibrarySummary (dropBooks [i] s)"
  have "good_step own s ?s1" by (rule good_step_trans [OF good_dropBooks good_summary])
  from good_after [OF this good_toast(2)] Inr show ?thesis by (simp add: deleteAnswered_def data_ok_def)
next
  case (Inl e)
  from good_after [OF good_step_refl good_toast(1)] Inl show ?thesis by (simp add: deleteAnswered_def data_ok_def)
qed

lemma good_deleteMany: "good_step own s (snd (deleteManyAnswered ids a s))"
proof (cases a)
  case (Inr g)
  let ?s1 = "loadLibrarySummary (dropBooks (nullish g ids) s)"
  have "good_step own s ?s1" by (rule good_step_trans [OF good_dropBooks good_summary])
  from good_after [OF this good_toast(2)] Inr show ?thesis by (simp add: deleteManyAnswered_def Let_def data_ok_def)
next
  case (Inl e)
  from good_after [OF good_step_refl good_toast(1)] Inl show ?thesis by (simp add: deleteManyAnswered_def data_ok_def)
qed

lemma good_updateCategory: "good_step own s (snd (updateCategoryAnswered ids c a s))"
proof (cases a)
  case (Inr bs)
  let ?u = "nullish bs []"
  let ?s1 = "s\<lparr>sf_books := replaceBooks ?u (sf_books s), sf_results := map_option (replaceBooks ?u) (sf_results s)\<rparr>"
  have "good_step own s ?s1"
    by (rule good_fields) (simp_all, rule data_ok_sameIds [OF same_ids(1) [of ?u]], auto simp: data_ok_def)
  from good_step_trans [OF this good_summary] have "good_step own s (loadLibrarySummary ?s1)" .
  from good_after [OF this good_toast(2)] Inr show ?thesis by (simp add: updateCategoryAnswered_def Let_def data_ok_def)
next
  case (Inl e)
  from good_after [OF good_step_refl good_toast(1)] Inl show ?thesis by (simp add: updateCategoryAnswered_def data_ok_def)
qed

lemma good_rename: "good_step own s (snd (renameAnswered current n sel a s))"
proof (cases a)
  case (Inr ids)
  define s2 where "s2 = abort (sf_moreAbort s) (abort (sf_loadAbort s)
    (s\<lparr>sf_loadGen := sf_loadGen s + 1, sf_searchGen := sf_searchGen s + 1, sf_summaryGen := sf_summaryGen s + 1\<rparr>))"
  define s3 where "s3 = s2\<lparr>sf_books := recategorise ids n (sf_books s2), sf_results := map_option (recategorise ids n) (sf_results s2),
    sf_summary := map_option (renameInSummary current n (length ids)) (sf_summary s2),
    sf_category := (if sel = Some current then n else sf_category s2), sf_revision := sf_revision s2 + 1\<rparr>"
  have 1: "good_step own s s2" by (rule good_fields) (simp_all add: s2_def, simp add: data_ok_def)
  have "data_ok own s3" if "data_ok own s2"
    by (rule data_ok_sameIds [OF same_ids(2) that]) (auto simp: s3_def)
  then have 2: "good_step own s2 s3" by (intro good_fields) (simp_all add: s3_def)
  from good_after [OF good_step_trans [OF 1 2] good_toast(2)] Inr show ?thesis
    by (simp add: renameAnswered_def Let_def s2_def s3_def data_ok_def)
next
  case (Inl e)
  from good_after [OF good_step_refl good_toast(1)] Inl show ?thesis by (simp add: renameAnswered_def data_ok_def)
qed

text \<open>Answers with data: they are taken over only if their request is of the present session.\<close>

lemma own_merge:
  assumes "list_all P (map bk_id bs)" and "list_all P (map bk_id page)"
  shows "list_all P (map bk_id (mergeBooks page bs))"
  unfolding mergeBooks_ids using assms by (auto simp: list_all_iff)

lemma keys_addProgress: "set (map fst (addProgress ps m)) = set (map pr_book_id ps) \<union> set (map fst m)"
  unfolding addProgress_def by (induction ps arbitrary: m) (auto simp: dom_update)

lemma good_mergeProgress:
  assumes "\<And>ps. a = Inr ps \<Longrightarrow> cur \<Longrightarrow> list_all (own (sf_session s)) (map pr_book_id ps)"
  shows "good_step own s (mergeProgress cur a s)"
proof (cases "\<exists>ps. a = Inr ps \<and> cur")
  case True
  then obtain ps where p: "a = Inr ps" "cur" by blast
  have own: "list_all (own (sf_session s)) (map pr_book_id ps)" using assms p by blast
  have "list_all (own (sf_session s)) (map fst (addProgress ps (sf_progress s)))" if "data_ok own s"
    using that own unfolding data_ok_def list_all_iff keys_addProgress by blast
  with p show ?thesis by (intro good_fields) (auto simp: mergeProgress_def data_ok_def)
next
  case False
  then have "mergeProgress cur a s = s" by (auto simp: mergeProgress_def split: sum.splits)
  then show ?thesis by simp
qed

text \<open>A successful answer of the request \<open>r\<close> that is current belongs to the present session.\<close>

lemma current_load:
  assumes "load.guarded g k s" and "g = sf_loadGen s" and "odd k"
  shows "k = sf_session s"
  using assms by (rule load.guarded_current)

lemma current_search:
  assumes "search.guarded g k s" and "g = sf_searchGen s" and "odd k"
  shows "k = sf_session s"
  using assms by (rule search.guarded_current)

lemma good_if: "(c \<Longrightarrow> good_step own s a) \<Longrightarrow> (\<not> c \<Longrightarrow> good_step own s b) \<Longrightarrow> good_step own s (if c then a else b)"
  by simp

lemma good_finishLoading: "good_step own s s' \<Longrightarrow> good_step own s (finishLoading gen s')"
  by (rule good_step_trans, assumption, rule good_fields) (auto simp: finishLoading_def data_ok_def)

lemma good_finishMore: "good_step own s s' \<Longrightarrow> good_step own s (finishMore c s')"
  by (rule good_step_trans, assumption, rule good_fields) (auto simp: finishMore_def data_ok_def)

lemma good_loadPage:
  assumes "load.guarded g k s" and "\<And>page. a = Inr page \<Longrightarrow> odd k \<and> list_all (own k) (map bk_id (pg_books page))"
  shows "good_step own s (loadPageAnswered g c a s)"
proof -
  consider "\<not> loadCurrent g c s" | e where "loadCurrent g c s" "a = Inl e" | page where "loadCurrent g c s" "a = Inr page"
    by (cases a) auto
  then show ?thesis
  proof cases
    case 1
    then show ?thesis unfolding loadPageAnswered_def by (intro good_finishLoading) simp
  next
    case (2 e)
    then show ?thesis
      unfolding loadPageAnswered_def by (intro good_finishLoading good_fields) (auto simp: data_ok_def)
  next
    case (3 page)
    let ?s = "s\<lparr>sf_books := pg_books page, sf_nextCursor := pg_next_cursor page, sf_isLoading := False\<rparr>"
    have g: "g = sf_loadGen s" using 3 by (simp add: loadCurrent_def)
    then have "k = sf_session s" using current_load [OF assms(1)] assms(2) [OF 3(2)] by blast
    then have 1: "good_step own s ?s"
      using assms(2) [OF 3(2)] by (intro good_fields) (auto simp: data_ok_def)
    have 2: "good_step own ?s (issue (LoadProgress g c) ?s)"
      using load.guarded_now [of ?s] g by (intro good_issue) simp
    show ?thesis
      using 3 1 good_step_trans [OF 1 2] unfolding loadPageAnswered_def
      by (intro good_finishLoading, cases "pg_books page = []") (simp_all add: Let_def)
  qed
qed

lemma good_morePage:
  assumes "load.guarded lg k s" and "\<And>page. a = Inr page \<Longrightarrow> odd k \<and> list_all (own k) (map bk_id (pg_books page))"
  shows "good_step own s (morePageAnswered b lg sg c a s)"
proof -
  consider e where "a = Inl e" | page where "\<not> moreCurrent lg sg c s" "a = Inr page"
    | page where "moreCurrent lg sg c s" "a = Inr page"
    by (cases a) auto
  then show ?thesis
  proof cases
    case 1
    then show ?thesis unfolding morePageAnswered_def by (intro good_finishMore) (simp add: good_toast)
  next
    case 2
    then show ?thesis unfolding morePageAnswered_def by (intro good_finishMore) simp
  next
    case (3 page)
    let ?s = "if b then s\<lparr>sf_results := Some (mergeBooks (pg_books page) (nullish (sf_results s) [])), sf_searchCursor := pg_next_cursor page\<rparr>
      else s\<lparr>sf_books := mergeBooks (pg_books page) (sf_books s), sf_nextCursor := pg_next_cursor page\<rparr>"
    have g: "lg = sf_loadGen s" using 3 by (simp add: moreCurrent_def)
    then have k: "k = sf_session s" using current_load [OF assms(1)] assms(2) [OF 3(2)] by blast
    have "data_ok own ?s" if "data_ok own s"
      using that assms(2) [OF 3(2)] k by (auto simp: data_ok_def intro!: own_merge)
    then have 1: "good_step own s ?s" by (intro good_fields) auto
    have 2: "good_step own ?s (issue (MoreProgress lg sg c) ?s)"
      using load.guarded_now [of ?s] g by (intro good_issue) (simp split: if_splits)
    show ?thesis
      using 3 1 good_step_trans [OF 1 2] unfolding morePageAnswered_def
      by (intro good_finishMore, cases "pg_books page = []") (simp_all add: Let_def)
  qed
qed

lemma good_searchPage:
  assumes "search.guarded g k s" and "\<And>page. a = Inr page \<Longrightarrow> odd k \<and> list_all (own k) (map bk_id (pg_books page))"
  shows "good_step own s (searchPageAnswered g c a s)"
proof -
  let ?s1 = "if \<not> searchCurrent g c s then s
     else case a of
       Inr page \<Rightarrow>
        (let s0 = s\<lparr>sf_results := Some (pg_books page), sf_searchCursor := pg_next_cursor page\<rparr> in
         if pg_books page = [] then s0 else issue (SearchProgress g c) s0)
     | Inl e \<Rightarrow> toastError e (js ''search'') (s\<lparr>sf_results := Some [], sf_searchCursor := None\<rparr>)"
  have "good_step own s ?s1"
  proof (cases a)
    case (Inl e)
    have "good_step own s (s\<lparr>sf_results := Some [], sf_searchCursor := None\<rparr>)" by (rule good_fields) (simp_all add: data_ok_def)
    from good_step_trans [OF this good_toast(1)] Inl show ?thesis by simp
  next
    case (Inr page)
    let ?s0 = "s\<lparr>sf_results := Some (pg_books page), sf_searchCursor := pg_next_cursor page\<rparr>"
    show ?thesis
    proof (cases "searchCurrent g c s")
      case True
      then have g: "g = sf_searchGen s" by (simp add: searchCurrent_def)
      then have "k = sf_session s" using current_search [OF assms(1)] assms(2) [OF Inr] by blast
      then have 1: "good_step own s ?s0" using assms(2) [OF Inr] by (intro good_fields) (auto simp: data_ok_def)
      have 2: "good_step own ?s0 (issue (SearchProgress g c) ?s0)"
        using search.guarded_now [of ?s0] g by (intro good_issue) simp
      show ?thesis using True Inr 1 good_step_trans [OF 1 2] by (cases "pg_books page = []") (simp_all add: Let_def)
    qed (use Inr in simp)
  qed
  moreover have "good_step own s' (if g = sf_searchGen s' then s'\<lparr>sf_isSearching := False\<rparr> else s')" for s'
    by (rule good_fields) (auto simp: data_ok_def)
  ultimately show ?thesis unfolding searchPageAnswered_def Let_def by (rule good_step_trans)
qed

lemma good_summaries:
  assumes "\<And>sm. a = Inr sm \<Longrightarrow> odd k"
  shows "load.guarded g k s \<Longrightarrow> sf_authenticated s = odd (sf_session s) \<Longrightarrow> good_step own s (loadSummaryAnswered g sg c a s)"
    and "summary.guarded g k s \<Longrightarrow> sf_authenticated s = odd (sf_session s) \<Longrightarrow> good_step own s (summaryAnswered g a s)"
proof -
  assume auth: "sf_authenticated s = odd (sf_session s)"
  { assume guard: "load.guarded g k s"
    show "good_step own s (loadSummaryAnswered g sg c a s)"
    proof (rule good_fields)
      show "data_ok own (loadSummaryAnswered g sg c a s)" if "data_ok own s"
        using that assms auth current_load [OF guard]
        by (auto simp: data_ok_def loadSummaryAnswered_def loadCurrent_def split: sum.splits)
    qed (auto simp: loadSummaryAnswered_def split: sum.splits) }
  assume guard: "summary.guarded g k s"
  show "good_step own s (summaryAnswered g a s)"
  proof (rule good_fields)
    show "data_ok own (summaryAnswered g a s)" if "data_ok own s"
      using that assms auth summary.guarded_current [OF guard]
      by (auto simp: data_ok_def summaryAnswered_def split: sum.splits)
  qed (auto simp: summaryAnswered_def split: sum.splits)
qed

lemma received_ok: "shelf_inv own s \<Longrightarrow> r \<in> set (sf_requests s) \<Longrightarrow> shelf_inv own (received r s) \<and> req_ok (received r s) r"
proof
  assume inv: "shelf_inv own s" and r: "r \<in> set (sf_requests s)"
  show "shelf_inv own (received r s)" by (rule good_step_inv [OF inv good_received])
  have "moves s (received r s)" by (simp add: moves_def received_def)
  then show "req_ok (received r s) r" using inv r by (auto simp: shelf_inv_def list_all_iff intro: req_ok_moves)
qed

lemma page_inv:
  assumes "shelf_inv own s" and "req_ok s r"
    and "\<And>page. a = Inr page \<Longrightarrow> fromAccount own r (map bk_id (pg_books page))"
  shows "shelf_inv own (pageStep r a s)"
proof -
  have "good_step own s (pageStep r a s)"
    using assms(2,3)
    by (cases r) (auto simp: fromAccount_def intro!: good_loadPage good_morePage good_searchPage)
  then show ?thesis by (rule good_step_inv [OF assms(1)])
qed

lemma summary_inv:
  assumes "shelf_inv own s" and "req_ok s r" and "\<And>sm. a = Inr sm \<Longrightarrow> fromAccount own r []"
  shows "shelf_inv own (summaryStep r a s)"
proof -
  have "sf_authenticated s = odd (sf_session s)" using assms(1) by (simp add: shelf_inv_def)
  then have "good_step own s (summaryStep r a s)"
    using assms(2,3) good_summaries [of a "sessionOf r"] by (cases r) (simp_all add: fromAccount_def)
  then show ?thesis by (rule good_step_inv [OF assms(1)])
qed

lemma progress_inv:
  assumes "shelf_inv own s" and "req_ok s r" and "\<And>ps. a = Inr ps \<Longrightarrow> fromAccount own r (map pr_book_id ps)"
  shows "shelf_inv own (progressStep r a s)"
proof -
  have "good_step own s (progressStep r a s)"
    using assms(2,3)
    by (cases r) (auto simp: fromAccount_def loadProgressAnswered_def moreProgressAnswered_def searchProgressAnswered_def
        loadCurrent_def moreCurrent_def searchCurrent_def intro!: good_mergeProgress dest: current_load current_search)
  then show ?thesis by (rule good_step_inv [OF assms(1)])
qed

text \<open>The change of a login: the effects clear the shelf of a user who leaves.\<close>

lemma owned_by_nobody:
  assumes "list_all (own k) (map f xs)" and "\<And>i. \<not> own k i"
  shows "xs = []"
  using assms by (cases xs) simp_all

lemma login_inv:
  assumes inv: "shelf_inv own s" and b: "b \<noteq> sf_authenticated s" and nobody: "\<And>k i. even k \<Longrightarrow> \<not> own k i"
  shows "shelf_inv own (shelf_step (SetAuthenticated b) s)"
proof -
  let ?s0 = "s\<lparr>sf_authenticated := b, sf_session := sf_session s + 1\<rparr>"
  define s1 where "s1 = loadEffect (cleanSearchEffect (cleanLoadEffect ?s0))"
  have auth: "b = even (sf_session s)" using inv b by (auto simp: shelf_inv_def)
  have f: "sf_session s1 = sf_session s + 1" "sf_authenticated s1 = b" "sf_requests s1 = sf_requests s"
    "sf_searchGen s \<le> sf_searchGen s1" "sf_loadGen s \<le> sf_loadGen s1" "sf_summaryGen s \<le> sf_summaryGen s1"
    "\<not> b \<Longrightarrow> sf_loadGen s < sf_loadGen s1 \<and> sf_searchGen s < sf_searchGen s1 \<and> sf_summaryGen s < sf_summaryGen s1"
    by (simp_all add: s1_def loadEffect_def cleanSearchEffect_def cleanLoadEffect_def Let_def)
  have m: "moves s s1" using f auth by (auto simp: moves_def)
  have d: "data_ok own s1"
  proof (cases b)
    case False
    then show ?thesis
      by (simp add: s1_def loadEffect_def cleanSearchEffect_def cleanLoadEffect_def Let_def data_ok_def)
  next
    case True
    then have none: "sf_books s = []" "nullish (sf_results s) [] = []" "sf_progress s = []"
      using inv owned_by_nobody [of own "sf_session s"] nobody [of "sf_session s"] auth
      unfolding shelf_inv_def data_ok_def by blast+
    then show ?thesis
      using True by (simp add: s1_def loadEffect_def cleanSearchEffect_def cleanLoadEffect_def data_ok_def)
  qed
  have "shelf_inv own s1"
    using inv d f m auth by (auto simp: shelf_inv_def list_all_iff intro: req_ok_moves)
  then have "shelf_inv own (pollEffect (searchEffect s1))"
    by (meson good_step_inv good_searchEffect good_pollEffect)
  then show ?thesis using b by (simp add: s1_def)
qed

lemma good_handlers:
  "good_step own s (handleDelete i s)" "good_step own s (handleDeleteMany ids s)"
  "good_step own s (snd (handleUpdateCategoryMany ids c s))" "good_step own s (handleRenameCategory cat n s)"
proof -
  have set: "good_step own s (s\<lparr>sf_deletingId := x\<rparr>)" "good_step own s (s\<lparr>sf_isDeletingMany := y\<rparr>)"
    "good_step own s (s\<lparr>sf_isUpdatingMany := y\<rparr>)" for x y
    by (rule good_fields; simp add: data_ok_def)+
  have iss: "good_step own t (issue (DeleteBook i) t)" "good_step own t (issue (DeleteBooks js) t)"
    "good_step own t (issue (UpdateCategory js m) t)" "good_step own t (issue (RenameCategory d m e) t)" for t i js m d e
    by (rule good_issue; simp)+
  show "good_step own s (handleDelete i s)" "good_step own s (handleDeleteMany ids s)"
    "good_step own s (snd (handleUpdateCategoryMany ids c s))" "good_step own s (handleRenameCategory cat n s)"
    unfolding handleDelete_def handleDeleteMany_def handleUpdateCategoryMany_def handleRenameCategory_def Let_def
    using good_step_trans [OF set(1) iss(1)] good_step_trans [OF set(2) iss(2)] good_step_trans [OF set(3) iss(3)]
      good_step_trans [OF set(3) iss(4)] good_toast(2)
    by simp_all
qed

lemma good_setters:
  "good_step own s (s\<lparr>sf_query := q\<rparr>)" "good_step own s (setSortBy w opt s)" "good_step own s (s\<lparr>sf_category := c\<rparr>)"
  "good_step own s (s\<lparr>sf_loadTimer := False\<rparr>)"
  by (rule good_fields; simp add: setSortBy_def data_ok_def)+

lemma good_loadTimer: "good_step own s (loadTimerFires s)"
  using good_step_trans [OF good_setters(4) good_loadBooks] by (simp add: loadTimerFires_def)

lemma rerun_both: "good_step own s t \<Longrightarrow> good_step own s (rerunSearch (rerunLoad t))"
  by (meson good_step_trans good_rerun)

lemma shelf_step_inv:
  assumes inv: "shelf_inv own s" and ev: "shelf_enabled own ev s" and nobody: "\<And>k i. even k \<Longrightarrow> \<not> own k i"
  shows "shelf_inv own (shelf_step ev s)"
proof (cases ev)
  case (SetAuthenticated b)
  then show ?thesis using login_inv [OF inv _ nobody, of b] inv by (cases "b = sf_authenticated s") auto
next
  case (PageAnswer r a)
  then show ?thesis using page_inv [of own "received r s" r a] received_ok [OF inv, of r] ev by (auto split: sum.splits)
next
  case (SummaryAnswer r a)
  then show ?thesis using summary_inv [of own "received r s" r a] received_ok [OF inv, of r] ev by (auto split: sum.splits)
next
  case (ProgressAnswer r a)
  then show ?thesis using progress_inv [of own "received r s" r a] received_ok [OF inv, of r] ev by (auto split: sum.splits)
next
  case (RenameAnswer r a)
  have "good_step own s (shelf_step ev s)"
    using RenameAnswer rerun_both [OF good_step_trans [OF good_received good_rename]] good_step_trans [OF good_received good_rename]
    by (auto simp: Let_def split: shelfRequest.splits)
  then show ?thesis by (rule good_step_inv [OF inv])
qed (use good_step_inv [OF inv] inv good_step_trans [OF good_received good_pollAnswered]
    good_step_trans [OF good_received good_deleteAnswered] good_step_trans [OF good_received good_deleteMany]
    good_step_trans [OF good_received good_updateCategory] good_step_trans [OF good_setters(1) good_rerun(2)]
    rerun_both [OF good_setters(2)] rerun_both [OF good_setters(3)]
    good_loadTimer good_searchTimer good_pollTimer good_pollEffect good_loadMore good_loadBooks good_handlers
    in \<open>auto split: shelfRequest.splits\<close>)

section \<open>Properties\<close>

text \<open>
  \<^bold>\<open>C23\<close> (accounts on one shelf do not mix). Answers arrive in any order and arbitrarily late, also after
  the user has logged out or another one has logged in. Provided that the server answers a request for
  the account that was logged in when it was sent and refuses requests without a login, every book and
  every progress shown belongs to the account of the present session, and nothing is shown while nobody
  is logged in.
\<close>

theorem shelf_accounts_isolated:
  assumes "shelf_reach own s" and "\<And>k i. even k \<Longrightarrow> \<not> own k i"
  shows "list_all (own (sf_session s)) (map bk_id (sf_books s)) \<and>
    list_all (own (sf_session s)) (map bk_id (nullish (sf_results s) [])) \<and>
    list_all (own (sf_session s)) (map fst (sf_progress s)) \<and>
    (\<not> sf_authenticated s \<longrightarrow> sf_books s = [] \<and> nullish (sf_results s) [] = [] \<and> sf_progress s = [] \<and> sf_summary s = None)"
proof -
  have "shelf_inv own s"
    using assms(1)
  proof (induction rule: shelf_reach.induct)
    case (start st)
    show ?case by (simp add: shelf_inv_def shelf_init_def data_ok_def)
  qed (use shelf_step_inv assms(2) in blast)
  then show ?thesis
    using owned_by_nobody [of own "sf_session s" bk_id] owned_by_nobody [of own "sf_session s" fst "sf_progress s"]
      assms(2) [of "sf_session s"]
    unfolding shelf_inv_def data_ok_def by blast
qed

text \<open>A user whose first page is still under way logs out, and another one logs in: the late page of the
  first user is not shown.\<close>

definition lateTrace :: "shelf_event list" where
  "lateTrace = [SetAuthenticated True, LoadTimer, SetAuthenticated False,
     PageAnswer (LoadPage 1 0 1) (Inr \<lparr>pg_books = [sampleBook [1] None], pg_next_cursor = None\<rparr>)]"

theorem shelf_accounts_isolated_witness:
  "sf_books (fold shelf_step lateTrace (shelf_init SortMissing)) = []"
proof -
  let ?own = "\<lambda>k i. odd k \<and> i = [k]"
  let ?s = "fold shelf_step lateTrace (shelf_init SortMissing)"
  have "shelf_run ?own lateTrace (shelf_init SortMissing)" and out: "\<not> sf_authenticated ?s" by code_simp+
  then have "shelf_reach ?own ?s" by (simp add: shelf_reach_run shelf_reach.start)
  from shelf_accounts_isolated [OF this] out show ?thesis by simp
qed

end
