(* ===== verification/Stored_Zip.thy ===== *)
theory Stored_Zip
  imports Uri_Component
begin

text \<open>
  The ZIP writer of \<^verbatim>\<open>frontend/src/lib/book-preview.ts\<close>: the table-driven CRC-32, the little-endian header
  fields, and \<^verbatim>\<open>createStoredZip\<close>, which writes entries without compression. Bytes are 8-bit words and
  checksums 32-bit words; a header field takes the low bits of its number, as the source's masks do. A
  reader written from the ZIP format gives the meaning of an archive.
\<close>

unbundle bit_operations_syntax

type_synonym bytes = "8 word list"

section \<open>CRC-32\<close>

definition crcBit :: "32 word \<Rightarrow> 32 word" where
  "crcBit crc = (if crc AND 1 \<noteq> 0 then 0xedb88320 XOR drop_bit 1 crc else drop_bit 1 crc)"

fun crcSteps :: "nat \<Rightarrow> 32 word \<Rightarrow> 32 word" where
  "crcSteps 0 crc = crc"
| "crcSteps (Suc n) crc = crcSteps n (crcBit crc)"

definition getCrcTable :: "32 word list" where
  "getCrcTable = map (\<lambda>index. crcSteps 8 (word_of_nat index)) [0..<256]"

definition crcUpdate :: "32 word list \<Rightarrow> 8 word \<Rightarrow> 32 word \<Rightarrow> 32 word" where
  "crcUpdate table byte crc = table ! unat ((crc XOR ucast byte) AND 0xff) XOR drop_bit 8 crc"

definition getCrc32 :: "bytes \<Rightarrow> 32 word" where
  "getCrc32 bs = fold (crcUpdate getCrcTable) bs 0xffffffff XOR 0xffffffff"

section \<open>Header fields\<close>

text \<open>Writing into a typed array of the right length; an index beyond its end would be ignored.\<close>

definition setUint16 :: "nat \<Rightarrow> 32 word \<Rightarrow> bytes \<Rightarrow> bytes" where
  "setUint16 off value bs = bs[off := ucast (value AND 0xff), off + 1 := ucast (drop_bit 8 value AND 0xff)]"

definition setUint32 :: "nat \<Rightarrow> 32 word \<Rightarrow> bytes \<Rightarrow> bytes" where
  "setUint32 off value bs = bs[off := ucast (value AND 0xff), off + 1 := ucast (drop_bit 8 value AND 0xff),
     off + 2 := ucast (drop_bit 16 value AND 0xff), off + 3 := ucast (drop_bit 24 value AND 0xff)]"

definition setBytes :: "bytes \<Rightarrow> nat \<Rightarrow> bytes \<Rightarrow> bytes" where
  "setBytes xs off bs = take off bs @ xs @ drop (off + length xs) bs"

definition concatUint8Arrays :: "bytes list \<Rightarrow> bytes" where
  "concatUint8Arrays chunks =
    snd (fold (\<lambda>chunk (offset, output). (offset + length chunk, setBytes chunk offset output)) chunks
      (0, replicate (foldl (\<lambda>s chunk. s + length chunk) 0 chunks) 0))"

definition encodeText :: "ustring \<Rightarrow> bytes" where
  "encodeText s = map word_of_nat (concat (map utf8 (scalar_values s)))"

section \<open>The archive\<close>

definition localHeader :: "bytes \<Rightarrow> 32 word \<Rightarrow> nat \<Rightarrow> bytes" where
  "localHeader name crc len =
    (setBytes name 30 \<circ> setUint16 26 (word_of_nat (length name)) \<circ> setUint32 22 (word_of_nat len) \<circ>
     setUint32 18 (word_of_nat len) \<circ> setUint32 14 crc \<circ> setUint16 12 0 \<circ> setUint16 10 0 \<circ> setUint16 8 0 \<circ>
     setUint16 6 0x0800 \<circ> setUint16 4 20 \<circ> setUint32 0 0x04034b50) (replicate (30 + length name) 0)"

definition centralHeader :: "bytes \<Rightarrow> 32 word \<Rightarrow> nat \<Rightarrow> nat \<Rightarrow> bytes" where
  "centralHeader name crc len offset =
    (setBytes name 46 \<circ> setUint32 42 (word_of_nat offset) \<circ> setUint16 28 (word_of_nat (length name)) \<circ>
     setUint32 24 (word_of_nat len) \<circ> setUint32 20 (word_of_nat len) \<circ> setUint32 16 crc \<circ> setUint16 14 0 \<circ>
     setUint16 12 0 \<circ> setUint16 10 0 \<circ> setUint16 8 0x0800 \<circ> setUint16 6 20 \<circ> setUint16 4 20 \<circ>
     setUint32 0 0x02014b50) (replicate (46 + length name) 0)"

definition endRecord :: "nat \<Rightarrow> nat \<Rightarrow> nat \<Rightarrow> bytes" where
  "endRecord n dirLen offset =
    (setUint32 16 (word_of_nat offset) \<circ> setUint32 12 (word_of_nat dirLen) \<circ> setUint16 10 (word_of_nat n) \<circ>
     setUint16 8 (word_of_nat n) \<circ> setUint32 0 0x06054b50) (replicate 22 0)"

text \<open>The loop over the entries: file chunks, directory chunks, and the running offset.\<close>

definition addEntry :: "ustring \<times> bytes \<Rightarrow> bytes list \<times> bytes list \<times> nat \<Rightarrow> bytes list \<times> bytes list \<times> nat" where
  "addEntry entry acc =
    (case (entry, acc) of
       ((path, data), (files, dir, offset)) \<Rightarrow>
        (let name = encodeText path; crc = getCrc32 data; header = localHeader name crc (length data) in
         (files @ [header, data], dir @ [centralHeader name crc (length data) offset],
          offset + (length header + length data))))"

definition createStoredZip :: "(ustring \<times> bytes) list \<Rightarrow> bytes" where
  "createStoredZip entries =
    (case fold addEntry entries ([], [], 0) of
       (files, dir, offset) \<Rightarrow>
        (let directory = concatUint8Arrays dir in
         concat (files @ [directory, endRecord (length entries) (length directory) offset])))"

section \<open>Meaning of an archive\<close>

definition get16 :: "bytes \<Rightarrow> nat \<Rightarrow> nat" where
  "get16 bs off = unat (bs ! off) + 256 * unat (bs ! (off + 1))"

definition get32 :: "bytes \<Rightarrow> nat \<Rightarrow> nat" where
  "get32 bs off = get16 bs off + 65536 * get16 bs (off + 2)"

definition slice :: "bytes \<Rightarrow> nat \<Rightarrow> nat \<Rightarrow> bytes" where
  "slice bs off n = take n (drop off bs)"

text \<open>One file, found through its directory entry at \<open>off\<close>; the checksum must agree.\<close>

definition readEntry :: "bytes \<Rightarrow> nat \<Rightarrow> (bytes \<times> bytes) option" where
  "readEntry z off =
    (let crc = get32 z (off + 16); size = get32 z (off + 24); nlen = get16 z (off + 28); loc = get32 z (off + 42);
         name = slice z (off + 46) nlen;
         start = loc + 30 + get16 z (loc + 26) + get16 z (loc + 28);
         data = slice z start size in
     if get32 z off = 0x02014b50 \<and> get32 z loc = 0x04034b50 \<and> get16 z (off + 10) = 0 \<and> get16 z (loc + 8) = 0 \<and>
        slice z (loc + 30) (get16 z (loc + 26)) = name \<and> start + size \<le> length z \<and> unat (getCrc32 data) = crc
     then Some (name, data) else None)"

fun readEntries :: "nat \<Rightarrow> bytes \<Rightarrow> nat \<Rightarrow> (bytes \<times> bytes) list option" where
  "readEntries 0 z off = Some []"
| "readEntries (Suc n) z off =
    (case readEntry z off of
       None \<Rightarrow> None
     | Some e \<Rightarrow>
        (case readEntries n z (off + 46 + get16 z (off + 28) + get16 z (off + 30) + get16 z (off + 32)) of
           None \<Rightarrow> None | Some es \<Rightarrow> Some (e # es)))"

definition unzip :: "bytes \<Rightarrow> (bytes \<times> bytes) list option" where
  "unzip z =
    (let e = length z - 22 in
     if length z < 22 \<or> get32 z e \<noteq> 0x06054b50 then None
     else readEntries (get16 z (e + 10)) z (get32 z (e + 16)))"

section \<open>Checksum\<close>

lemma crcBit_xor: "crcBit (a XOR b) = crcBit a XOR crcBit b"
proof -
  have parity: "(c AND 1 \<noteq> 0) = bit c 0" for c :: "32 word"
    by (simp add: and_one_eq bit_0 odd_iff_mod_2_eq_one mod2_eq_if)
  have "bit (crcBit (a XOR b)) n = bit (crcBit a XOR crcBit b) n" for n
    by (auto simp: crcBit_def parity bit_simps)
  then show ?thesis by (rule bit_eqI)
qed

lemma crcSteps_xor: "crcSteps n (a XOR b) = crcSteps n a XOR crcSteps n b"
  by (induction n arbitrary: a b) (simp_all add: crcBit_xor)

lemma crcSteps_Suc: "crcSteps (Suc n) c = crcBit (crcSteps n c)"
  by (induction n arbitrary: c) simp_all

lemma crcBit_even: "\<not> bit c 0 \<Longrightarrow> crcBit c = drop_bit 1 c"
  by (simp add: crcBit_def and_one_eq bit_0 mod2_eq_if)

text \<open>Bits above the ones worked off are only shifted down.\<close>

lemma crcSteps_high: "(\<And>k. k < n \<Longrightarrow> \<not> bit c k) \<Longrightarrow> crcSteps n c = drop_bit n c"
proof (induction n)
  case (Suc n)
  have "\<not> bit (drop_bit n c) 0" using Suc.prems [of n] by (simp add: bit_simps)
  moreover have "crcSteps n c = drop_bit n c" using Suc by simp
  ultimately show ?case by (simp add: crcSteps_Suc crcBit_even del: crcSteps.simps)
qed simp

text \<open>The checksum by its definition: the bits of the message, lowest first, through the shift register.\<close>

definition crcSerial :: "bool list \<Rightarrow> 32 word \<Rightarrow> 32 word" where
  "crcSerial bits c = fold (\<lambda>b c. crcBit (c XOR of_bool b)) bits c"

definition bitsOf :: "8 word \<Rightarrow> bool list" where
  "bitsOf byte = map (bit byte) [0..<8]"

definition crc32_spec :: "bytes \<Rightarrow> 32 word" where
  "crc32_spec bs = crcSerial (concat (map bitsOf bs)) 0xffffffff XOR 0xffffffff"

lemma take_bit_Suc_xor: "take_bit (Suc n) m = take_bit n m XOR (if bit m n then push_bit n 1 else 0)" for m :: "32 word"
  by (rule bit_eqI) (auto simp: bit_simps less_Suc_eq)

lemma crcSerial_bits:
  fixes m c :: "32 word"
  assumes "n \<le> 32"
  shows "crcSerial (map (bit m) [0..<n]) c = crcSteps n (c XOR take_bit n m)"
  using assms
proof (induction n)
  case (Suc n)
  have "crcSteps n (push_bit n 1) = 1"
    using Suc.prems by (subst crcSteps_high) (auto simp: bit_simps intro: bit_eqI)
  moreover have "crcSteps n 0 = 0" by (subst crcSteps_high) simp_all
  ultimately have "crcSteps n (if bit m n then push_bit n 1 else 0) = of_bool (bit m n)" by simp
  then have "crcSteps (Suc n) (c XOR take_bit (Suc n) m) = crcBit (crcSteps n (c XOR take_bit n m) XOR of_bool (bit m n))"
    unfolding crcSteps_Suc take_bit_Suc_xor by (simp add: crcSteps_xor xor.assoc)
  then show ?case using Suc by (simp add: crcSerial_def)
qed (simp add: crcSerial_def)

lemma crcUpdate_serial: "crcUpdate getCrcTable b c = crcSerial (bitsOf b) c"
proof -
  let ?m = "ucast b :: 32 word" and ?x = "(c XOR ucast b) AND (0xff :: 32 word)"
  have mask: "(0xff :: 32 word) = mask 8" by (simp add: mask_eq_exp_minus_1)
  have x: "?x = take_bit 8 (c XOR ?m)" unfolding mask take_bit_eq_mask ..
  have "unat (take_bit 8 w) < 256" for w :: "32 word"
    using take_bit_nat_less_exp [of 8 "unat w"] by (simp add: unsigned_take_bit_eq)
  then have "unat ?x < 256" unfolding x .
  then have t: "getCrcTable ! unat ?x = crcSteps 8 ?x" by (simp add: getCrcTable_def)
  have m: "take_bit 8 ?m = ?m" by (rule bit_eqI) (auto simp: bit_simps dest: bit_imp_le_length)
  have "c XOR ?m = ?x XOR push_bit 8 (drop_bit 8 c)"
    unfolding x by (rule bit_eqI) (auto simp: bit_simps dest: bit_imp_le_length)
  then have "crcSteps 8 (c XOR ?m) = crcSteps 8 ?x XOR crcSteps 8 (push_bit 8 (drop_bit 8 c))" by (metis crcSteps_xor)
  also have "crcSteps 8 (push_bit 8 (drop_bit 8 c)) = drop_bit 8 c"
    by (subst crcSteps_high) (use bit_imp_le_length [of c] in \<open>force simp: bit_simps intro!: bit_eqI\<close>)+
  finally have "crcUpdate getCrcTable b c = crcSteps 8 (c XOR ?m)" by (simp add: crcUpdate_def t)
  also have "\<dots> = crcSerial (map (bit ?m) [0..<8]) c" using crcSerial_bits [of 8 ?m c] m by simp
  also have "map (bit ?m) [0..<8] = bitsOf b" by (auto simp: bitsOf_def bit_simps)
  finally show ?thesis .
qed

lemma crcSerial_append: "crcSerial (xs @ ys) c = crcSerial ys (crcSerial xs c)"
  by (simp add: crcSerial_def)

lemma crc_table_serial: "getCrc32 bs = crc32_spec bs"
proof -
  have "fold (crcUpdate getCrcTable) bs c = crcSerial (concat (map bitsOf bs)) c" for c
  proof (induction bs arbitrary: c)
    case Nil
    then show ?case by (simp add: crcSerial_def)
  qed (simp add: crcSerial_append crcUpdate_serial)
  then show ?thesis by (simp add: getCrc32_def crc32_spec_def)
qed

section \<open>Fields of the headers\<close>

lemma unat_drop_bit: "unat (drop_bit k w) = unat w div 2 ^ k" for w :: "32 word"
proof -
  have "take_bit 32 (unat w) = unat w" using unsigned_less [of w] by (simp add: take_bit_nat_eq_self_iff)
  then show ?thesis unfolding unsigned_drop_bit_eq by (simp add: drop_bit_eq_div)
qed

lemma byte_of: "unat (ucast (drop_bit k w AND 0xff) :: 8 word) = unat w div 2 ^ k mod 256" for w :: "32 word"
proof -
  have "(0xff :: 32 word) = mask 8" by (simp add: mask_eq_exp_minus_1)
  then have "drop_bit k w AND 0xff = take_bit 8 (drop_bit k w)" by (simp add: take_bit_eq_mask)
  moreover have "(ucast (take_bit 8 v) :: 8 word) = ucast v" for v :: "32 word"
    by (rule bit_eqI) (auto simp: bit_simps dest: bit_imp_le_length)
  ultimately have "unat (ucast (drop_bit k w AND 0xff) :: 8 word) = unat (ucast (drop_bit k w) :: 8 word)" by simp
  also have "\<dots> = unat w div 2 ^ k mod 256"
    unfolding unsigned_ucast_eq unat_drop_bit by (simp add: take_bit_eq_mod)
  finally show ?thesis .
qed

text \<open>Writing and reading fields, as a memory: a field reads as it was written last, and other fields keep
  their bytes.\<close>

lemma set_length [simp]:
  "length (setUint16 off v bs) = length bs" "length (setUint32 off v bs) = length bs"
  "off + length xs \<le> length bs \<Longrightarrow> length (setBytes xs off bs) = length bs"
  by (simp_all add: setUint16_def setUint32_def setBytes_def)

lemma get16_set:
  assumes "off + 2 \<le> length bs"
  shows "get16 (setUint16 off v bs) off = unat v mod 65536"
proof -
  have "get16 (setUint16 off v bs) off = unat v div 2 ^ 0 mod 256 + 256 * (unat v div 2 ^ 8 mod 256)"
    unfolding byte_of [symmetric] using assms by (simp add: get16_def setUint16_def)
  then show ?thesis using mod_mult2_eq [of "unat v" 256 256] by simp
qed

lemma setUint32_split: "setUint32 off v bs = setUint16 (off + 2) (drop_bit 16 v) (setUint16 off v bs)"
  by (simp add: setUint32_def setUint16_def drop_bit_drop_bit numeral_3_eq_3)

lemma get16_set_other [simp]:
  "off + 2 \<le> k \<or> k + 2 \<le> off \<Longrightarrow> get16 (setUint16 off v bs) k = get16 bs k"
  by (auto simp: get16_def setUint16_def)

lemma get16_set32_other [simp]:
  "off + 4 \<le> k \<or> k + 2 \<le> off \<Longrightarrow> get16 (setUint32 off v bs) k = get16 bs k"
  unfolding setUint32_split by (subst get16_set_other, force, subst get16_set_other) auto

lemma get32_set_other [simp]:
  "off + 2 \<le> k \<or> k + 4 \<le> off \<Longrightarrow> get32 (setUint16 off v bs) k = get32 bs k"
  "off + 4 \<le> k \<or> k + 4 \<le> off \<Longrightarrow> get32 (setUint32 off v bs) k = get32 bs k"
  unfolding get32_def by (subst (1 2) get16_set_other get16_set32_other; force)+

lemma unat_split: "unat v mod 65536 + 65536 * (unat (drop_bit 16 v) mod 65536) = unat v" for v :: "32 word"
proof -
  have "unat v < 65536 * 65536" using unsigned_less [of v] by simp
  then have "unat v div 65536 mod 65536 = unat v div 65536" by (simp add: less_mult_imp_div_less)
  then show ?thesis unfolding unat_drop_bit by simp
qed

lemma get32_set:
  assumes "off + 4 \<le> length bs"
  shows "get32 (setUint32 off v bs) off = unat v"
proof -
  have "get16 (setUint32 off v bs) (off + 2) = unat (drop_bit 16 v) mod 65536"
    unfolding setUint32_split using assms by (intro get16_set) simp
  moreover have "get16 (setUint32 off v bs) off = unat v mod 65536"
    unfolding setUint32_split using assms by (simp add: get16_set)
  ultimately show ?thesis using unat_split [of v] by (simp add: get32_def)
qed

lemma get_setBytes [simp]:
  "k + 2 \<le> off \<Longrightarrow> off \<le> length bs \<Longrightarrow> get16 (setBytes xs off bs) k = get16 bs k"
  "k + 4 \<le> off \<Longrightarrow> off \<le> length bs \<Longrightarrow> get32 (setBytes xs off bs) k = get32 bs k"
  by (simp_all add: setBytes_def get16_def get32_def nth_append)

lemma slice_setBytes: "off \<le> length bs \<Longrightarrow> slice (setBytes xs off bs) off (length xs) = xs"
  by (simp add: setBytes_def slice_def)

lemma get_zero: "k + 2 \<le> n \<Longrightarrow> get16 (replicate n 0) k = 0"
  by (simp add: get16_def)

lemma unat_of_nat32: "n < 2 ^ 32 \<Longrightarrow> unat (word_of_nat n :: 32 word) = n"
  by (simp add: unsigned_of_nat take_bit_nat_eq_self)

lemma localHeader_fields:
  "length (localHeader name crc len) = 30 + length name" "get32 (localHeader name crc len) 0 = 0x04034b50"
  "get16 (localHeader name crc len) 8 = 0" "get16 (localHeader name crc len) 28 = 0"
  "length name < 65536 \<Longrightarrow> get16 (localHeader name crc len) 26 = length name"
  "slice (localHeader name crc len) 30 (length name) = name"
  by (simp_all add: localHeader_def get16_set get32_set get_zero slice_setBytes unat_of_nat32)

lemma centralHeader_fields:
  "length (centralHeader name crc len off) = 46 + length name" "get32 (centralHeader name crc len off) 0 = 0x02014b50"
  "get16 (centralHeader name crc len off) 10 = 0" "get32 (centralHeader name crc len off) 16 = unat crc"
  "len < 2 ^ 32 \<Longrightarrow> get32 (centralHeader name crc len off) 24 = len"
  "length name < 65536 \<Longrightarrow> get16 (centralHeader name crc len off) 28 = length name"
  "get16 (centralHeader name crc len off) 30 = 0" "get16 (centralHeader name crc len off) 32 = 0"
  "off < 2 ^ 32 \<Longrightarrow> get32 (centralHeader name crc len off) 42 = off"
  "slice (centralHeader name crc len off) 46 (length name) = name"
  by (simp_all add: centralHeader_def get16_set get32_set get_zero slice_setBytes unat_of_nat32)

lemma endRecord_fields:
  "length (endRecord n dirLen off) = 22" "get32 (endRecord n dirLen off) 0 = 0x06054b50"
  "n < 65536 \<Longrightarrow> get16 (endRecord n dirLen off) 10 = n" "off < 2 ^ 32 \<Longrightarrow> get32 (endRecord n dirLen off) 16 = off"
  by (simp_all add: endRecord_def get16_set get32_set get_zero unat_of_nat32)

section \<open>Layout of the archive\<close>

lemma concat_loop:
  assumes "length (concat chunks) \<le> length rest"
  shows "fold (\<lambda>chunk (offset, output). (offset + length chunk, setBytes chunk offset output)) chunks (length pre, pre @ rest) =
    (length (pre @ concat chunks), pre @ concat chunks @ drop (length (concat chunks)) rest)"
  using assms
proof (induction chunks arbitrary: pre rest)
  case (Cons c cs)
  have "setBytes c (length pre) (pre @ rest) = (pre @ c) @ drop (length c) rest" by (simp add: setBytes_def)
  then show ?case
    using Cons.IH [of "drop (length c) rest" "pre @ c"] Cons.prems by (simp add: add.commute)
qed simp

lemma concatUint8Arrays_concat [simp]: "concatUint8Arrays chunks = concat chunks"
proof -
  have "foldl (\<lambda>s chunk. s + length chunk) n chunks = n + length (concat chunks)" for n and chunks :: "bytes list"
    by (induction chunks arbitrary: n) simp_all
  then show ?thesis
    using concat_loop [of chunks "replicate (length (concat chunks)) 0" "[]"] by (simp add: concatUint8Arrays_def)
qed

definition fileOf :: "ustring \<times> bytes \<Rightarrow> bytes" where
  "fileOf e = localHeader (encodeText (fst e)) (getCrc32 (snd e)) (length (snd e)) @ snd e"

definition dirEntry :: "ustring \<times> bytes \<Rightarrow> nat \<Rightarrow> bytes" where
  "dirEntry e off = centralHeader (encodeText (fst e)) (getCrc32 (snd e)) (length (snd e)) off"

fun directoryOf :: "(ustring \<times> bytes) list \<Rightarrow> nat \<Rightarrow> bytes" where
  "directoryOf [] off = []"
| "directoryOf (e # es) off = dirEntry e off @ directoryOf es (off + length (fileOf e))"

definition filesOf :: "(ustring \<times> bytes) list \<Rightarrow> bytes" where
  "filesOf es = concat (map fileOf es)"

lemma addEntries:
  "case fold addEntry es (files, dir, off) of (files', dir', off') \<Rightarrow>
     concat files' = concat files @ filesOf es \<and> concat dir' = concat dir @ directoryOf es off \<and>
     off' = off + length (filesOf es)"
proof (induction es arbitrary: files dir off)
  case (Cons e es)
  obtain path data where e: "e = (path, data)" by fastforce
  show ?case
    using Cons.IH [of "files @ [localHeader (encodeText path) (getCrc32 data) (length data), data]"
        "dir @ [dirEntry e off]" "off + length (fileOf e)"]
    by (simp add: addEntry_def e Let_def dirEntry_def fileOf_def filesOf_def localHeader_fields split: prod.splits)
qed (simp add: filesOf_def)

lemma createStoredZip_layout:
  "createStoredZip es = filesOf es @ directoryOf es 0 @ endRecord (length es) (length (directoryOf es 0)) (length (filesOf es))"
  using addEntries [where es = es and files = "[]" and dir = "[]" and off = 0] by (simp add: createStoredZip_def Let_def split: prod.splits)

section \<open>Reading it back\<close>

lemma get_shift: "get16 (a @ b) (length a + k) = get16 b k" "get32 (a @ b) (length a + k) = get32 b k"
  by (simp_all add: get16_def get32_def nth_append numeral_3_eq_3)

lemma slice_shift: "slice (a @ b) (length a + k) n = slice b k n"
  by (simp add: slice_def)

lemma get_prefix:
  "k + 2 \<le> length a \<Longrightarrow> get16 (a @ b) k = get16 a k" "k + 4 \<le> length a \<Longrightarrow> get32 (a @ b) k = get32 a k"
  by (simp_all add: get16_def get32_def nth_append)

lemma slice_prefix: "k + n \<le> length a \<Longrightarrow> slice (a @ b) k n = slice a k n"
  by (simp add: slice_def)

text \<open>A file between \<open>pre\<close> and \<open>mid\<close> whose directory entry follows \<open>mid\<close>.\<close>

lemma readEntry_ok:
  fixes e :: "ustring \<times> bytes"
  defines "name \<equiv> encodeText (fst e)"
  assumes z: "z = pre @ fileOf e @ mid @ dirEntry e (length pre) @ rest" and off: "off = length (pre @ fileOf e @ mid)"
    and bounds: "length pre < 2 ^ 32" "length (snd e) < 2 ^ 32" "length name < 65536"
  shows "readEntry z off = Some (name, snd e)"
    and "get16 z (off + 28) = length name" "get16 z (off + 30) = 0" "get16 z (off + 32) = 0"
proof -
  let ?ch = "centralHeader name (getCrc32 (snd e)) (length (snd e)) (length pre)"
  let ?lh = "localHeader name (getCrc32 (snd e)) (length (snd e))"
  have z1: "z = (pre @ fileOf e @ mid) @ ?ch @ rest" using z by (simp add: dirEntry_def name_def)
  have c: "get16 z (off + k) = get16 ?ch k" if "k + 2 \<le> 46" for k
    using that get_prefix(1) [of k ?ch rest] unfolding z1 off get_shift by (simp add: centralHeader_fields)
  have c': "get32 z (off + k) = get32 ?ch k" if "k + 4 \<le> 46" for k
    using that get_prefix(2) [of k ?ch rest] unfolding z1 off get_shift by (simp add: centralHeader_fields)
  have z2: "z = pre @ ?lh @ (snd e @ mid @ ?ch @ rest)" using z by (simp add: dirEntry_def fileOf_def name_def)
  have l: "get16 z (length pre + k) = get16 ?lh k" if "k + 2 \<le> 30" for k
    using that get_prefix(1) [of k ?lh "snd e @ mid @ ?ch @ rest"] unfolding z2 get_shift by (simp add: localHeader_fields)
  have l': "get32 z (length pre + k) = get32 ?lh k" if "k + 4 \<le> 30" for k
    using that get_prefix(2) [of k ?lh "snd e @ mid @ ?ch @ rest"] unfolding z2 get_shift by (simp add: localHeader_fields)
  have n1: "slice z (off + 46) (length name) = name"
    unfolding z1 off slice_shift by (subst slice_prefix) (simp_all add: centralHeader_fields)
  have n2: "slice z (length pre + 30) (length name) = name"
    unfolding z2 slice_shift by (subst slice_prefix) (simp_all add: localHeader_fields)
  have d: "slice z (length pre + 30 + length name) (length (snd e)) = snd e"
    using slice_shift [of "pre @ ?lh" "snd e @ mid @ ?ch @ rest" 0 "length (snd e)"] unfolding z2
    by (simp add: localHeader_fields slice_def)
  have len: "length pre + 30 + length name + length (snd e) \<le> length z" unfolding z2 by (simp add: localHeader_fields)
  show "get16 z (off + 28) = length name" "get16 z (off + 30) = 0" "get16 z (off + 32) = 0"
    using bounds by (simp_all add: c centralHeader_fields)
  show "readEntry z off = Some (name, snd e)"
    using bounds n1 n2 d len c' [of 0] l' [of 0]
    by (simp add: readEntry_def Let_def c c' l l' centralHeader_fields localHeader_fields)
qed

lemma readEntries_ok:
  assumes "z = pre @ filesOf es @ mid @ directoryOf es (length pre) @ rest" and "off = length (pre @ filesOf es @ mid)"
    and "length pre + length (filesOf es) < 2 ^ 32" and "list_all (\<lambda>e. length (encodeText (fst e)) < 65536) es"
  shows "readEntries (length es) z off = Some (map (\<lambda>e. (encodeText (fst e), snd e)) es)"
  using assms
proof (induction es arbitrary: pre mid off)
  case (Cons e es)
  let ?pre = "pre @ fileOf e" and ?mid = "mid @ dirEntry e (length pre)"
  have z: "z = pre @ fileOf e @ (filesOf es @ mid) @ dirEntry e (length pre) @ (directoryOf es (length ?pre) @ rest)"
    using Cons.prems(1) by (simp add: filesOf_def)
  have off: "off = length (pre @ fileOf e @ (filesOf es @ mid))" using Cons.prems(2) by (simp add: filesOf_def)
  have b: "length pre < 2 ^ 32" "length (snd e) < 2 ^ 32" "length (encodeText (fst e)) < 65536"
    using Cons.prems(3,4) by (simp_all add: filesOf_def fileOf_def)
  note head = readEntry_ok [OF z off b]
  have "readEntries (length es) z (off + 46 + length (encodeText (fst e))) = Some (map (\<lambda>e. (encodeText (fst e), snd e)) es)"
  proof (rule Cons.IH)
    show "z = ?pre @ filesOf es @ ?mid @ directoryOf es (length ?pre) @ rest" using z by simp
    show "off + 46 + length (encodeText (fst e)) = length (?pre @ filesOf es @ ?mid)"
      using off by (simp add: dirEntry_def centralHeader_fields)
  qed (use Cons.prems(3,4) in \<open>simp_all add: filesOf_def\<close>)
  then show ?case using head by simp
qed simp

lemma unzip_stored:
  assumes "length (filesOf es) < 2 ^ 32" and "length es < 65536" and "list_all (\<lambda>e. length (encodeText (fst e)) < 65536) es"
  shows "unzip (createStoredZip es) = Some (map (\<lambda>e. (encodeText (fst e), snd e)) es)"
proof -
  let ?d = "directoryOf es 0"
  let ?e = "endRecord (length es) (length ?d) (length (filesOf es))"
  let ?z = "filesOf es @ ?d @ ?e"
  have z: "?z = (filesOf es @ ?d) @ ?e" by simp
  have len: "length ?z - 22 = length (filesOf es @ ?d) + 0" "\<not> length ?z < 22" by (simp_all add: endRecord_fields)
  have f: "get32 ?z (length ?z - 22) = 0x06054b50" "get16 ?z (length ?z - 22 + 10) = length es"
    "get32 ?z (length ?z - 22 + 16) = length (filesOf es)"
    unfolding len add.assoc using assms unfolding z get_shift by (simp_all add: endRecord_fields)
  have "readEntries (length es) ?z (length (filesOf es)) = Some (map (\<lambda>e. (encodeText (fst e), snd e)) es)"
    by (rule readEntries_ok [where pre = "[]" and mid = "[]" and rest = ?e]) (use assms in simp_all)
  then show ?thesis unfolding createStoredZip_layout unzip_def Let_def f using len(2) by simp
qed

section \<open>Properties\<close>


text \<open>
  \<^bold>\<open>C27\<close> (archives can be read back). Up to the limits of the format (4 GB, 65535 entries, names of 65535
  bytes), a reader that follows the end record, the directory and the local headers and checks the
  checksums finds exactly the entries that were written, in order, with their names and data.
\<close>

theorem zip_round_trip:
  assumes "length (createStoredZip es) < 2 ^ 32" and "length es < 65536"
    and "list_all (\<lambda>e. length (encodeText (fst e)) < 65536) es"
  shows "unzip (createStoredZip es) = Some (map (\<lambda>e. (encodeText (fst e), snd e)) es)"
proof -
  have "length (filesOf es) < 2 ^ 32" using assms(1) by (simp add: createStoredZip_layout)
  then show ?thesis using assms(2,3) by (rule unzip_stored)
qed

theorem zip_round_trip_witness:
  "unzip (createStoredZip [([97], [1, 2]), ([98], [])]) = Some [([97], [1, 2]), ([98], [])]"
proof -
  have n: "encodeText [97] = [97]" "encodeText [98] = [98]"
    by (simp_all add: encodeText_def utf8_def is_high_def is_low_def)
  show ?thesis
    using zip_round_trip [of "[([97], [1, 2]), ([98], [])]"]
    by (simp add: n createStoredZip_layout filesOf_def fileOf_def dirEntry_def localHeader_fields centralHeader_fields
        endRecord_fields)
qed

end
