(* ===== verification/Book_Preview.thy ===== *)
theory Book_Preview
  imports Stored_Zip Ssml_Text
begin

text \<open>
  The preview of a book before its upload (\<^verbatim>\<open>frontend/src/lib/book-preview.ts\<close>): metadata texts, the paths
  of an EPUB, and the rewriting of an archive whose files are nested in a folder or whose container
  file has another casing. The entries that zip.js reads and the book that foliate makes are arguments,
  and so is \<^verbatim>\<open>toLowerCase\<close>; errors of either are of type \<open>'e\<close>.
\<close>

section \<open>Texts\<close>

datatype textValue =
    TextString ustring
  | TextArray "textValue list"
  | TextObject "textValue option" "textValue option" "textValue option"
  | TextOther

fun joinComma :: "ustring list \<Rightarrow> ustring" where
  "joinComma [] = []"
| "joinComma [x] = x"
| "joinComma (x # y # ys) = x @ js '', '' @ joinComma (y # ys)"

fun normalizeTextValue :: "textValue \<Rightarrow> ustring" where
  "normalizeTextValue (TextString s) = s"
| "normalizeTextValue (TextArray vs) = joinComma (filter (\<lambda>s. s \<noteq> []) (map normalizeTextValue vs))"
| "normalizeTextValue (TextObject name title label) =
    (case name of Some v \<Rightarrow> normalizeTextValue v | None \<Rightarrow>
      (case title of Some v \<Rightarrow> normalizeTextValue v | None \<Rightarrow>
        (case label of Some v \<Rightarrow> normalizeTextValue v | None \<Rightarrow> [])))"
| "normalizeTextValue TextOther = []"

text \<open>\<^verbatim>\<open>name.replace(/\.[^.]+$/, '')\<close>: the extension goes, unless the name ends with a dot.\<close>

definition withoutExtension :: "ustring \<Rightarrow> ustring" where
  "withoutExtension name =
    (let ext = takeWhile (\<lambda>c. c \<noteq> 46) (rev name) in
     if ext \<noteq> [] \<and> length ext < length name then take (length name - length ext - 1) name else name)"

section \<open>Paths\<close>

definition SLASH :: nat where "SLASH = 47"

definition getNormalizedZipPath :: "ustring \<Rightarrow> ustring" where
  "getNormalizedZipPath path =
    (let p = dropWhile (\<lambda>c. c = SLASH) (map (\<lambda>c. if c = 92 then SLASH else c) path) in
     if startsWith p (js ''./'') then drop 2 p else p)"

definition CONTAINER_LOWER :: ustring where "CONTAINER_LOWER = js ''meta-inf/container.xml''"
definition CONTAINER :: ustring where "CONTAINER = js ''META-INF/container.xml''"

definition getCanonicalEpubPath :: "(ustring \<Rightarrow> ustring) \<Rightarrow> ustring \<Rightarrow> ustring \<Rightarrow> ustring" where
  "getCanonicalEpubPath lower path rootPrefix =
    (let p = getNormalizedZipPath path;
         q = getNormalizedZipPath (if rootPrefix \<noteq> [] \<and> startsWith p rootPrefix then drop (length rootPrefix) p else p) in
     if lower q = CONTAINER_LOWER then CONTAINER else q)"

definition isEpubFile :: "(ustring \<Rightarrow> ustring) \<Rightarrow> ustring \<Rightarrow> ustring \<Rightarrow> bool" where
  "isEpubFile lower name type \<longleftrightarrow> endsWith (lower name) (js ''.epub'') \<or> type = js ''application/epub+zip''"

definition isZipFile :: "bytes \<Rightarrow> bool" where
  "isZipFile content \<longleftrightarrow> take 4 content = [0x50, 0x4b, 0x03, 0x04]"

definition replaceChar :: "nat \<Rightarrow> ustring \<Rightarrow> ustring \<Rightarrow> ustring" where
  "replaceChar c by s = concat (map (\<lambda>d. if d = c then by else [d]) s)"

definition escapePath :: "ustring \<Rightarrow> ustring" where
  "escapePath p = replaceChar 62 (js ''&gt;'') (replaceChar 60 (js ''&lt;'')
     (replaceChar 34 (js ''&quot;'') (replaceChar 38 (js ''&amp;'') p)))"

definition getContainerXml :: "ustring \<Rightarrow> ustring" where
  "getContainerXml opfPath =
    js ''<?xml version=\"1.0\" encoding=\"UTF-8\"?>'' @ [10] @
    js ''<container version=\"1.0\" xmlns=\"urn:oasis:names:tc:opendocument:xmlns:container\">'' @ [10] @
    js ''  <rootfiles>'' @ [10] @
    js ''    <rootfile full-path=\"'' @ escapePath opfPath @ js ''\" media-type=\"application/oebps-package+xml\"/>'' @ [10] @
    js ''  </rootfiles>'' @ [10] @
    js ''</container>''"

text \<open>The pattern \<^verbatim>\<open>/full-path\s*=\s*["']([^"']+)["']/i\<close>: its group, at the first place where it matches.\<close>

definition isQuote :: "nat \<Rightarrow> bool" where "isQuote c \<longleftrightarrow> c = 34 \<or> c = 39"

definition fullPathAt :: "ustring \<Rightarrow> ustring option" where
  "fullPathAt s =
    (if map foldCase (take 9 s) \<noteq> js ''full-path'' then None
     else case dropWhile is_space (drop 9 s) of
       [] \<Rightarrow> None
     | c # cs \<Rightarrow>
        (if c \<noteq> 61 then None
         else case dropWhile is_space cs of
           [] \<Rightarrow> None
         | q # qs \<Rightarrow>
            (let v = takeWhile (\<lambda>d. \<not> isQuote d) qs in
             if isQuote q \<and> v \<noteq> [] \<and> length v < length qs then Some v else None)))"

fun findFullPath :: "ustring \<Rightarrow> ustring option" where
  "findFullPath [] = None"
| "findFullPath (c # cs) = (case fullPathAt (c # cs) of Some v \<Rightarrow> Some v | None \<Rightarrow> findFullPath cs)"

section \<open>Rewriting an archive\<close>

record 'e zipEntry =
  ze_filename :: ustring
  ze_directory :: bool
  ze_text :: "'e + ustring"
  ze_blob :: "'e + bytes"

definition isContainerEntry :: "(ustring \<Rightarrow> ustring) \<Rightarrow> 'e zipEntry \<Rightarrow> bool" where
  "isContainerEntry lower e \<longleftrightarrow>
    (let p = lower (getNormalizedZipPath (ze_filename e)) in
     p = CONTAINER_LOWER \<or> endsWith p (js ''/meta-inf/container.xml''))"

definition isOpfEntry :: "(ustring \<Rightarrow> ustring) \<Rightarrow> 'e zipEntry \<Rightarrow> bool" where
  "isOpfEntry lower e \<longleftrightarrow> \<not> ze_directory e \<and> endsWith (lower (getNormalizedZipPath (ze_filename e))) (js ''.opf'')"

text \<open>\<^verbatim>\<open>s.lastIndexOf(t)\<close> for a non-empty \<open>t\<close>, and \<^verbatim>\<open>s.slice(0, i)\<close>.\<close>

definition lastIndexOf :: "ustring \<Rightarrow> ustring \<Rightarrow> int" where
  "lastIndexOf s t =
    (case filter (\<lambda>i. startsWith (drop i s) t) (rev [0..<length s]) of i # _ \<Rightarrow> int i | [] \<Rightarrow> -1)"

definition sliceTo :: "ustring \<Rightarrow> int \<Rightarrow> ustring" where
  "sliceTo s i = (if 0 \<le> i then take (nat i) s else take (nat (int (length s) + i)) s)"

definition containerOpfPathOf :: "'e zipEntry option \<Rightarrow> 'e + ustring" where
  "containerOpfPathOf c =
    (case c of
       None \<Rightarrow> Inr []
     | Some e \<Rightarrow> (case ze_text e of Inl err \<Rightarrow> Inl err | Inr t \<Rightarrow> Inr (case findFullPath t of Some v \<Rightarrow> v | None \<Rightarrow> [])))"

definition pathOf :: "'e zipEntry option \<Rightarrow> ustring" where
  "pathOf c = (case c of Some e \<Rightarrow> getNormalizedZipPath (ze_filename e) | None \<Rightarrow> [])"

definition rootPrefixOf :: "(ustring \<Rightarrow> ustring) \<Rightarrow> ustring \<Rightarrow> ustring \<Rightarrow> ustring" where
  "rootPrefixOf lower containerPath opfPath =
    sliceTo containerPath (lastIndexOf (lower (if containerPath \<noteq> [] then containerPath else opfPath)) CONTAINER_LOWER)"

fun rewriteEntries ::
  "(ustring \<Rightarrow> ustring) \<Rightarrow> ustring \<Rightarrow> bytes \<Rightarrow> 'e zipEntry list \<Rightarrow> (ustring \<times> bytes) list \<Rightarrow> 'e + (ustring \<times> bytes) list" where
  "rewriteEntries lower rootPrefix xml [] acc = Inr acc"
| "rewriteEntries lower rootPrefix xml (e # es) acc =
    (let p = getCanonicalEpubPath lower (ze_filename e) rootPrefix in
     if ze_directory e \<or> p = [] \<or> p \<in> set (map fst acc) then rewriteEntries lower rootPrefix xml es acc
     else if p = CONTAINER then rewriteEntries lower rootPrefix xml es (acc @ [(p, xml)])
     else case ze_blob e of
       Inl err \<Rightarrow> Inl err
     | Inr data \<Rightarrow> rewriteEntries lower rootPrefix xml es (acc @ [(p, data)]))"

text \<open>\<open>None\<close>: the file is returned as it is; otherwise the entries of the new archive.\<close>

definition rewrittenEntries :: "(ustring \<Rightarrow> ustring) \<Rightarrow> 'e zipEntry list \<Rightarrow> 'e + (ustring \<times> bytes) list option" where
  "rewrittenEntries lower entries =
    (let containerEntry = List.find (isContainerEntry lower) entries;
         opfEntry = List.find (isOpfEntry lower) entries in
     case containerOpfPathOf containerEntry of
       Inl err \<Rightarrow> Inl err
     | Inr containerOpfPath \<Rightarrow>
        (if containerEntry = None \<and> opfEntry = None \<and> containerOpfPath = [] then Inr None
         else
          let containerPath = pathOf containerEntry; opfPath = pathOf opfEntry;
              rootPrefix = rootPrefixOf lower containerPath opfPath;
              canonicalOpfPath = getCanonicalEpubPath lower (if containerOpfPath \<noteq> [] then containerOpfPath else opfPath) rootPrefix;
              xml = encodeText (getContainerXml canonicalOpfPath) in
          if containerEntry \<noteq> None \<and> containerPath = CONTAINER then Inr None
          else case rewriteEntries lower rootPrefix xml entries [] of
            Inl err \<Rightarrow> Inl err
          | Inr out \<Rightarrow> Inr (Some (if CONTAINER \<in> set (map fst out) then out else out @ [(CONTAINER, xml)]))))"

definition normalizeEpubStructure :: "(ustring \<Rightarrow> ustring) \<Rightarrow> 'e + 'e zipEntry list \<Rightarrow> bytes \<Rightarrow> 'e + bytes" where
  "normalizeEpubStructure lower entries content =
    (case entries of
       Inl err \<Rightarrow> Inl err
     | Inr es \<Rightarrow>
        (case rewrittenEntries lower es of
           Inl err \<Rightarrow> Inl err
         | Inr None \<Rightarrow> Inr content
         | Inr (Some out) \<Rightarrow> Inr (createStoredZip out)))"

section \<open>The preview\<close>

record bookPreview =
  pv_title :: ustring
  pv_author :: ustring
  pv_cover :: "bytes option"

record 'e foliateBook =
  fb_title :: textValue
  fb_author :: textValue
  fb_cover :: "'e + bytes option"

record previewFile =
  pf_name :: ustring
  pf_type :: ustring
  pf_content :: bytes

definition previewContent :: "(ustring \<Rightarrow> ustring) \<Rightarrow> 'e + 'e zipEntry list \<Rightarrow> previewFile \<Rightarrow> bytes" where
  "previewContent lower entries file =
    (if isEpubFile lower (pf_name file) (pf_type file) \<or> isZipFile (pf_content file)
     then (case normalizeEpubStructure lower entries (pf_content file) of Inr c \<Rightarrow> c | Inl _ \<Rightarrow> pf_content file)
     else pf_content file)"

text \<open>Loading the reader's script: \<open>promise\<close> is \<^verbatim>\<open>foliateLoadPromise\<close> with what it settles to, and \<open>script\<close> what
  a script element added now would give.\<close>

definition ensureFoliateLoaded :: "bool \<Rightarrow> 'e + unit \<Rightarrow> ('e + unit) option \<Rightarrow> ('e + unit) \<times> ('e + unit) option" where
  "ensureFoliateLoaded present script promise =
    (if present then (Inr (), promise)
     else case promise of Some r \<Rightarrow> (r, promise) | None \<Rightarrow> (script, Some script))"

definition previewOf :: "previewFile \<Rightarrow> 'e foliateBook \<Rightarrow> 'e + bookPreview" where
  "previewOf file book =
    (case fb_cover book of
       Inl err \<Rightarrow> Inl err
     | Inr cover \<Rightarrow>
        (let t = normalizeTextValue (fb_title book) in
         Inr \<lparr>pv_title = (if t \<noteq> [] then t else withoutExtension (pf_name file)),
              pv_author = normalizeTextValue (fb_author book), pv_cover = cover\<rparr>))"

text \<open>\<open>makeBook\<close> is \<^verbatim>\<open>window.foliateMakeBook\<close> after loading, and \<open>unavailable\<close> the error thrown without it.\<close>

definition extractBookPreview ::
  "(ustring \<Rightarrow> ustring) \<Rightarrow> 'e \<Rightarrow> 'e + unit \<Rightarrow> (bytes \<Rightarrow> 'e + 'e foliateBook) option \<Rightarrow> 'e + 'e zipEntry list \<Rightarrow> previewFile \<Rightarrow> 'e + bookPreview" where
  "extractBookPreview lower unavailable loaded makeBook entries file =
    (case (loaded, makeBook) of
       (Inl err, _) \<Rightarrow> Inl err
     | (_, None) \<Rightarrow> Inl unavailable
     | (_, Some mk) \<Rightarrow>
        (case mk (previewContent lower entries file) of
           Inl err \<Rightarrow> Inl err
         | Inr book \<Rightarrow> previewOf file book))"

section \<open>Lemmas\<close>

text \<open>What the loop keeps for a path: what was there, or the first entry with that path.\<close>

definition firstEntry :: "(ustring \<Rightarrow> ustring) \<Rightarrow> ustring \<Rightarrow> 'e zipEntry list \<Rightarrow> ustring \<Rightarrow> 'e zipEntry option" where
  "firstEntry lower rootPrefix es p =
    List.find (\<lambda>e. \<not> ze_directory e \<and> getCanonicalEpubPath lower (ze_filename e) rootPrefix = p) es"

definition keeps :: "(ustring \<Rightarrow> ustring) \<Rightarrow> ustring \<Rightarrow> bytes \<Rightarrow> 'e zipEntry list \<Rightarrow> (ustring \<times> bytes) list \<Rightarrow> ustring \<Rightarrow> bytes option \<Rightarrow> bool" where
  "keeps lower rp xml es acc p r \<longleftrightarrow>
    (case mapGet acc p of
       Some d \<Rightarrow> r = Some d
     | None \<Rightarrow>
        (case firstEntry lower rp es p of
           None \<Rightarrow> r = None
         | Some e \<Rightarrow> (if p = CONTAINER then r = Some xml else \<exists>d. ze_blob e = Inr d \<and> r = Some d)))"

lemma keeps_skip:
  assumes "ze_directory e \<or> getCanonicalEpubPath lower (ze_filename e) rp \<in> insert [] (set (map fst acc))" and "p \<noteq> []"
  shows "keeps lower rp xml (e # es) acc p r = keeps lower rp xml es acc p r"
proof (cases "mapGet acc p")
  case None
  then have "p \<notin> set (map fst acc)" by (simp add: map_of_eq_None_iff)
  then have "firstEntry lower rp (e # es) p = firstEntry lower rp es p" using assms by (auto simp: firstEntry_def)
  then show ?thesis using None by (simp add: keeps_def)
qed (simp add: keeps_def)

lemma keeps_add:
  fixes e :: "'e zipEntry" and lower :: "ustring \<Rightarrow> ustring" and rp :: ustring
  defines "q \<equiv> getCanonicalEpubPath lower (ze_filename e) rp"
  assumes "\<not> ze_directory e" and "q \<notin> set (map fst acc)" and "keeps lower rp xml es (acc @ [(q, d)]) p r"
    and "if q = CONTAINER then d = xml else ze_blob e = Inr d"
  shows "keeps lower rp xml (e # es) acc p r"
proof (cases "p = q")
  case True
  have "mapGet acc q = None" using assms(3) by (simp add: map_of_eq_None_iff)
  then show ?thesis using assms True by (auto simp: keeps_def firstEntry_def map_add_def split: if_splits)
next
  case False
  then have "firstEntry lower rp (e # es) p = firstEntry lower rp es p" "mapGet (acc @ [(q, d)]) p = mapGet acc p"
    by (auto simp: firstEntry_def q_def map_add_def split: option.splits)
  moreover have "keeps lower rp xml es (acc @ [(q, d)]) p r" by (fact assms(4))
  ultimately show ?thesis unfolding keeps_def by (simp only:)
qed

lemma rewrite_spec:
  assumes "rewriteEntries lower rp xml es acc = Inr out" and "distinct (map fst acc)" and "[] \<notin> set (map fst acc)"
  shows "distinct (map fst out) \<and> [] \<notin> set (map fst out) \<and> (\<forall>p. p \<noteq> [] \<longrightarrow> keeps lower rp xml es acc p (mapGet out p))"
  using assms
proof (induction es arbitrary: acc)
  case Nil
  then show ?case by (auto simp: keeps_def firstEntry_def split: option.splits)
next
  case (Cons e es)
  let ?p = "getCanonicalEpubPath lower (ze_filename e) rp"
  consider (skip) "ze_directory e \<or> ?p \<in> insert [] (set (map fst acc))"
    | (add) d where "\<not> ze_directory e" "?p \<noteq> []" "?p \<notin> set (map fst acc)"
      "if ?p = CONTAINER then d = xml else ze_blob e = Inr d"
      "rewriteEntries lower rp xml es (acc @ [(?p, d)]) = Inr out"
    using Cons.prems(1) by (auto simp: Let_def split: sum.splits if_splits)
  then show ?case
  proof cases
    case skip
    then have "rewriteEntries lower rp xml es acc = Inr out" using Cons.prems(1) by (auto simp: Let_def)
    from Cons.IH [OF this Cons.prems(2,3)] show ?thesis using keeps_skip [OF skip] by blast
  next
    case (add d)
    have "distinct (map fst (acc @ [(?p, d)]))" "[] \<notin> set (map fst (acc @ [(?p, d)]))"
      using Cons.prems(2,3) add by auto
    from Cons.IH [OF add(5) this] show ?thesis using keeps_add [OF add(1,3) _ add(4)] by blast
  qed
qed

text \<open>The pattern also ends a value at the other kind of quote: the path of a package file with an
  apostrophe in its name is cut off.\<close>

lemma full_path_cut_at_apostrophe:
  "findFullPath (js ''full-path=\"it'' @ [39] @ js ''s.opf\"'') = Some (js ''it'')"
  by (simp add: js_def fullPathAt_def foldCase_def is_space_def isQuote_def)

text \<open>A script that failed to load once is not loaded again: every later preview fails with the old error.\<close>

lemma failed_load_is_final:
  "fst (ensureFoliateLoaded False script (snd (ensureFoliateLoaded False (Inl err) None))) = Inl err"
  by (simp add: ensureFoliateLoaded_def)

text \<open>A failure of the normalisation is not one of the preview: the book is read from the original file.\<close>

lemma preview_without_normalisation:
  "extractBookPreview lower unavailable (Inr ()) (Some mk) (Inl err) file =
    (case mk (pf_content file) of Inl e \<Rightarrow> Inl e | Inr book \<Rightarrow> previewOf file book)"
  by (simp add: extractBookPreview_def previewContent_def normalizeEpubStructure_def)

section \<open>Properties\<close>


text \<open>An archive whose only file is in a folder, without a container file.\<close>

definition nestedEntry :: "unit zipEntry" where
  "nestedEntry = \<lparr>ze_filename = js ''/a.opf'', ze_directory = False, ze_text = Inr [], ze_blob = Inr [1]\<rparr>"


end
