(* ===== verification/Speech_Slices.thy ===== *)
theory Speech_Slices
  imports Uri_Component
begin

text \<open>
  Cutting of sentences for speech synthesis (\<^verbatim>\<open>frontend/src/lib/tts-batch.ts\<close>, \<^verbatim>\<open>indexSSML\<close> to
  \<^verbatim>\<open>TTSSpeechBuffer.appendNext\<close>). The speech XML is a tree of elements and texts. Parameters of the
  definitions are the estimate of the speaking time of a text at a rate (\<open>est\<close>), the serialisation of XML
  (\<open>serialize\<close>), which characters are letters or numbers (\<open>alnum\<close>), and the two operations on positions of the EPUB library (\<open>point\<close>, \<open>buildRange\<close>). Nothing is assumed
  of them.
\<close>

section \<open>Binary search\<close>

function firstEndingFrom :: "'a::linorder list \<Rightarrow> 'a \<Rightarrow> bool \<Rightarrow> nat \<Rightarrow> nat \<Rightarrow> nat" where
  "firstEndingFrom ends offset inclusive low high =
    (if low < high then
       let middle = (low + high) div 2 in
       if (if inclusive then offset \<le> ends ! middle else offset < ends ! middle)
       then firstEndingFrom ends offset inclusive low middle
       else firstEndingFrom ends offset inclusive (middle + 1) high
     else low)"
  by pat_completeness auto
termination
  by (relation "measure (\<lambda>(ends, offset, inclusive, low, high). high - low)") auto

declare firstEndingFrom.simps [simp del]

definition firstEndingAfter :: "'a::linorder list \<Rightarrow> 'a \<Rightarrow> bool \<Rightarrow> nat" where
  "firstEndingAfter ends offset inclusive = firstEndingFrom ends offset inclusive 0 (length ends)"

section \<open>The speech tree\<close>

text \<open>An XML node: a text or CDATA section, an element with its local name and attributes, or a node without
  text (a comment or a processing instruction).\<close>

datatype xml =
    XmlText ustring
  | XmlElement ustring "(ustring \<times> ustring) list" "xml list"
  | XmlOther ustring

fun textContent :: "xml \<Rightarrow> ustring" where
  "textContent (XmlText t) = t"
| "textContent (XmlElement n as cs) = concat (map textContent cs)"
| "textContent (XmlOther t) = []"

datatype speechNode =
  SpeechNode (sn_node: xml) (sn_start: nat) (sn_end: nat) (sn_children: "speechNode list") (sn_atomic: bool)
    (sn_seconds: real)

record speechTree =
  sp_root :: speechNode
  sp_text :: ustring
  sp_atomics :: "speechNode list"

definition lowerAscii :: "ustring \<Rightarrow> ustring" where
  "lowerAscii s = map (\<lambda>c. if 65 \<le> c \<and> c \<le> 90 then c + 32 else c) s"

definition pronunciationElements :: "ustring list" where
  "pronunciationElements = [js ''phoneme'', js ''sub'', js ''say-as'']"

fun isAtomic :: "xml \<Rightarrow> bool" where
  "isAtomic (XmlElement n as cs) = (lowerAscii n \<in> set pronunciationElements)"
| "isAtomic _ = False"

fun isElement :: "ustring \<Rightarrow> xml \<Rightarrow> bool" where
  "isElement name (XmlElement n as cs) = (lowerAscii n = name)"
| "isElement name _ = False"

fun attribute :: "ustring \<Rightarrow> xml \<Rightarrow> ustring" where
  "attribute name (XmlElement n as cs) = (case map_of as name of Some v \<Rightarrow> v | None \<Rightarrow> [])"
| "attribute name _ = []"

text \<open>The time of an element with a pronunciation override.\<close>

definition pronunciationSeconds :: "(ustring \<Rightarrow> real) \<Rightarrow> (nat \<Rightarrow> bool) \<Rightarrow> xml \<Rightarrow> ustring \<Rightarrow> real" where
  "pronunciationSeconds est alnum x body =
    (let override = (if attribute (js ''alias'') x \<noteq> [] then attribute (js ''alias'') x else attribute (js ''ph'') x);
         phonemeSeconds = (if isElement (js ''phoneme'') x
           then real (length (scalar_values (filter (\<lambda>c. \<not> is_space c) override))) / 12 else 0);
         spellingSeconds = (if lowerAscii (attribute (js ''interpret-as'') x) \<in> {js ''characters'', js ''spell-out''}
           then real (length (filter alnum (scalar_values body))) / 2.5 else 0) in
     max (max (est body) (est override)) (max phonemeSeconds spellingSeconds))"

text \<open>\<^verbatim>\<open>visit\<close>: offsets run through the tree from left to right. The time of a pronunciation override is that
  of the outermost element that has one.\<close>

fun visit :: "(xml \<Rightarrow> ustring \<Rightarrow> real) \<Rightarrow> xml \<Rightarrow> bool \<Rightarrow> nat \<Rightarrow> speechNode"
  and visitAll :: "(xml \<Rightarrow> ustring \<Rightarrow> real) \<Rightarrow> xml list \<Rightarrow> bool \<Rightarrow> nat \<Rightarrow> speechNode list" where
  "visit override (XmlText t) inside offset = SpeechNode (XmlText t) offset (offset + length t) [] False 0"
| "visit override (XmlElement n as cs) inside offset =
    (let x = XmlElement n as cs; a = isAtomic x; children = visitAll override cs (inside \<or> a) offset in
     SpeechNode x offset (offset + length (textContent x)) children a
       (if a \<and> \<not> inside then override x (textContent x) else 0))"
| "visit override (XmlOther t) inside offset = SpeechNode (XmlOther t) offset offset [] False 0"
| "visitAll override [] inside offset = []"
| "visitAll override (x # xs) inside offset =
    visit override x inside offset # visitAll override xs inside (offset + length (textContent x))"

fun outermostAtomics :: "speechNode \<Rightarrow> speechNode list" where
  "outermostAtomics (SpeechNode x s e cs a secs) =
    (if a then [SpeechNode x s e cs a secs] else concat (map outermostAtomics cs))"

definition indexSSML :: "(xml \<Rightarrow> ustring \<Rightarrow> real) \<Rightarrow> xml \<Rightarrow> speechTree" where
  "indexSSML override doc =
    (let t = visit override doc False 0 in
     \<lparr>sp_root = t, sp_text = textContent doc,
      sp_atomics = sort_key sn_start (sort_key (\<lambda>a. - int (sn_end a)) (outermostAtomics t))\<rparr>)"

definition speechSpeed :: "jsnum \<Rightarrow> real" where
  "speechSpeed rate = max 0.25 (1 + fin rate / 100)"

definition sub :: "'a list \<Rightarrow> nat \<Rightarrow> nat \<Rightarrow> 'a list" where
  "sub s a b = take (b - a) (drop a s)"

definition slicedDuration :: "(ustring \<Rightarrow> real) \<Rightarrow> speechTree \<Rightarrow> jsnum \<Rightarrow> real \<Rightarrow> nat \<Rightarrow> nat \<Rightarrow> real" where
  "slicedDuration est tree rate budget start stop =
    foldl (\<lambda>seconds a.
        if sn_start a < start \<or> stop < sn_end a \<or> budget < sn_seconds a / speechSpeed rate then seconds
        else seconds + (sn_seconds a - est (sub (sp_text tree) (sn_start a) (sn_end a))))
      (est (sub (sp_text tree) start stop))
      (takeWhile (\<lambda>a. sn_start a < stop)
        (drop (firstEndingAfter (map sn_end (sp_atomics tree)) start False) (sp_atomics tree)))
    / speechSpeed rate"

definition readNormally :: "nat \<Rightarrow> nat \<Rightarrow> jsnum \<Rightarrow> real \<Rightarrow> speechNode \<Rightarrow> bool" where
  "readNormally start stop rate budget n \<longleftrightarrow>
    sn_atomic n \<and> (sn_start n < start \<or> stop < sn_end n \<or> budget < sn_seconds n / speechSpeed rate)"

definition outside :: "nat \<Rightarrow> nat \<Rightarrow> speechNode \<Rightarrow> bool" where
  "outside start stop n \<longleftrightarrow> sn_end n < start \<or> stop \<le> sn_start n \<or> sn_end n = start \<and> sn_start n < start"

definition childrenFrom :: "nat \<Rightarrow> nat \<Rightarrow> speechNode list \<Rightarrow> speechNode list" where
  "childrenFrom start stop cs =
    takeWhile (\<lambda>c. sn_start c < stop) (drop (firstEndingAfter (map sn_end cs) start True) cs)"

text \<open>\<^verbatim>\<open>copy\<close>: a text node, and an override that is cut or too long, become the part of the text in the
  slice; other elements are cloned with the children that reach into it.\<close>

lemma childrenFrom_subset: "c \<in> set (childrenFrom start stop cs) \<Longrightarrow> c \<in> set cs"
  unfolding childrenFrom_def by (meson in_set_dropD set_takeWhileD)

definition slicedText :: "ustring \<Rightarrow> nat \<Rightarrow> nat \<Rightarrow> speechNode \<Rightarrow> xml" where
  "slicedText text start stop n = XmlText (sub text (max start (sn_start n)) (min stop (sn_end n)))"

function copySlice :: "ustring \<Rightarrow> nat \<Rightarrow> nat \<Rightarrow> jsnum \<Rightarrow> real \<Rightarrow> speechNode \<Rightarrow> xml option" where
  "copySlice text start stop rate budget n =
    (if outside start stop n then None
     else if readNormally start stop rate budget n then Some (slicedText text start stop n)
     else case sn_node n of
       XmlText _ \<Rightarrow> Some (slicedText text start stop n)
     | XmlOther t \<Rightarrow> Some (XmlOther t)
     | XmlElement name as _ \<Rightarrow>
        Some (XmlElement name as
          (somes (map (copySlice text start stop rate budget) (childrenFrom start stop (sn_children n))))))"
  by pat_completeness auto
termination
proof (relation "measure (\<lambda>(text, start, stop, rate, budget, n). size n)")
  show "((t, start, stop, rate, budget, c), t, start, stop, rate, budget, n) \<in> measure (\<lambda>(text, start, stop, rate, budget, n). size n)"
    if "c \<in> set (childrenFrom start stop (sn_children n))" for t start stop rate budget c n
  proof -
    have "c \<in> set (sn_children n)" using that by (rule childrenFrom_subset)
    then show ?thesis by (cases n) (simp add: size_list_estimation' less_Suc_eq_le)
  qed
qed simp

declare copySlice.simps [simp del]

definition sliceSSML :: "speechTree \<Rightarrow> nat \<Rightarrow> nat \<Rightarrow> jsnum \<Rightarrow> real \<Rightarrow> xml option" where
  "sliceSSML tree start stop rate budget = copySlice (sp_text tree) start stop rate budget (sp_root tree)"

section \<open>Text of a slice\<close>

lemma firstEndingFrom_spec:
  assumes "sorted ends" and "high \<le> length ends" and "low \<le> high"
    and "\<And>i. i < low \<Longrightarrow> \<not> (if incl then offset \<le> ends ! i else offset < ends ! i)"
    and "\<And>i. high \<le> i \<Longrightarrow> i < length ends \<Longrightarrow> if incl then offset \<le> ends ! i else offset < ends ! i"
  defines "r \<equiv> firstEndingFrom ends offset incl low high"
  shows "r \<le> length ends \<and> (\<forall>i<r. \<not> (if incl then offset \<le> ends ! i else offset < ends ! i)) \<and>
    (\<forall>i. r \<le> i \<longrightarrow> i < length ends \<longrightarrow> (if incl then offset \<le> ends ! i else offset < ends ! i))"
  using assms(1-5) unfolding r_def
proof (induction ends offset incl low high rule: firstEndingFrom.induct)
  case (1 ends offset incl low high)
  let ?P = "\<lambda>i. if incl then offset \<le> ends ! i else offset < ends ! i"
  let ?m = "(low + high) div 2"
  have up: "?P j" if "?P i" "i \<le> j" "j < length ends" for i j
    using that sorted_nth_mono [OF "1.prems"(1) that(2,3)] by (auto split: if_splits)
  show ?case
  proof (cases "low < high")
    case True
    show ?thesis
    proof (cases "?P ?m")
      case m: True
      have "\<And>i. ?m \<le> i \<Longrightarrow> i < length ends \<Longrightarrow> ?P i" using up m by blast
      then show ?thesis
        using "1.IH"(1) [OF True refl m "1.prems"(1) _ _ "1.prems"(4)] "1.prems"(2) True m
        by (subst (1 2 3) firstEndingFrom.simps) (simp add: Let_def)
    next
      case m: False
      have "\<And>i. i < ?m + 1 \<Longrightarrow> \<not> ?P i" using up [of _ ?m] m "1.prems"(2) True by fastforce
      then show ?thesis
        using "1.IH"(2) [OF True refl m "1.prems"(1,2) _ _ "1.prems"(5)] True m
        by (subst (1 2 3) firstEndingFrom.simps) (simp add: Let_def)
    qed
  next
    case False
    then have "low = high" using "1.prems"(3) by simp
    then show ?thesis using "1.prems"(2,4,5) by (subst (1 2 3) firstEndingFrom.simps) auto
  qed
qed

lemma firstEndingAfter_spec:
  assumes "sorted ends"
  shows "i < firstEndingAfter ends offset True \<Longrightarrow> ends ! i < offset"
    and "firstEndingAfter ends offset True \<le> length ends"
  using firstEndingFrom_spec [OF assms, of "length ends" 0 True offset] unfolding firstEndingAfter_def by auto

fun contiguous :: "speechNode list \<Rightarrow> nat \<Rightarrow> nat \<Rightarrow> bool" where
  "contiguous [] a b = (a = b)"
| "contiguous (c # cs) a b = (sn_start c = a \<and> sn_start c \<le> sn_end c \<and> contiguous cs (sn_end c) b)"

lemma contiguous_le: "contiguous cs a b \<Longrightarrow> a \<le> b"
  by (induction cs arbitrary: a) fastforce+

lemma contiguous_bounds: "contiguous cs a b \<Longrightarrow> c \<in> set cs \<Longrightarrow> a \<le> sn_start c \<and> sn_start c \<le> sn_end c \<and> sn_end c \<le> b"
  by (induction cs arbitrary: a) (auto dest: contiguous_le order_trans)

lemma contiguous_sorted: "contiguous cs a b \<Longrightarrow> sorted (map sn_end cs) \<and> sorted (map sn_start cs)"
proof (induction cs arbitrary: a)
  case (Cons c cs)
  then have "contiguous cs (sn_end c) b" by simp
  with Cons contiguous_bounds [OF this] show ?case by fastforce
qed simp

lemma sub_append: "a \<le> b \<Longrightarrow> b \<le> c \<Longrightarrow> sub s a b @ sub s b c = sub s a c"
  using take_add [of "b - a" "c - b" "drop a s"] by (simp add: sub_def)

lemma sub_empty: "b \<le> a \<Longrightarrow> sub s a b = []"
  by (simp add: sub_def)

text \<open>The part of a node's text that is in the slice.\<close>

definition part :: "ustring \<Rightarrow> nat \<Rightarrow> nat \<Rightarrow> speechNode \<Rightarrow> ustring" where
  "part t start stop n = sub t (max start (sn_start n)) (min stop (sn_end n))"

lemma parts_contiguous:
  "contiguous cs a b \<Longrightarrow> concat (map (part t start stop) cs) = sub t (max start a) (min stop b)"
proof (induction cs arbitrary: a)
  case Nil
  then show ?case by (simp add: sub_empty)
next
  case (Cons c cs)
  let ?e = "sn_end c"
  have c: "a \<le> ?e" "?e \<le> b" "contiguous cs ?e b" "sn_start c = a" using Cons.prems contiguous_le by auto
  have "concat (map (part t start stop) (c # cs)) = sub t (max start a) (min stop ?e) @ sub t (max start ?e) (min stop b)"
    using Cons.IH [OF c(3)] c(4) part_def [of t start stop c] by simp
  also have "\<dots> = sub t (max start a) (min stop b)"
  proof -
    consider "?e \<le> start" | "stop \<le> ?e" "start < ?e" | "start < ?e" "?e < stop" by linarith
    then show ?thesis
    proof cases
      case 1
      then have "sub t (max start a) (min stop ?e) = []" "max start a = start" "max start ?e = start"
        using c by (auto intro: sub_empty)
      then show ?thesis by simp
    next
      case 2
      then have "sub t (max start ?e) (min stop b) = []" "min stop ?e = min stop b" using c by (auto intro: sub_empty)
      then show ?thesis by simp
    next
      case 3
      then show ?thesis using sub_append [of "max start a" ?e "min stop b" t] c by simp
    qed
  qed
  finally show ?case .
qed

lemma concat_map_empty: "(\<And>x. x \<in> set xs \<Longrightarrow> f x = []) \<Longrightarrow> concat (map f xs) = []"
  by (induction xs) auto

lemma parts_children:
  assumes "contiguous cs a b"
  shows "concat (map (part t start stop) (childrenFrom start stop cs)) = concat (map (part t start stop) cs)"
proof -
  let ?i = "firstEndingAfter (map sn_end cs) start True"
  let ?in = "\<lambda>c. sn_start c < stop"
  have s: "sorted (map sn_end cs)" "sorted (map sn_start cs)" using contiguous_sorted [OF assms] by auto
  have before: "concat (map (part t start stop) (take ?i cs)) = []"
  proof (rule concat_map_empty)
    fix c assume "c \<in> set (take ?i cs)"
    then obtain j where "j < ?i" "j < length cs" "c = cs ! j" by (auto simp: in_set_conv_nth)
    then have "sn_end c < start" using firstEndingAfter_spec(1) [OF s(1), of j start] by simp
    then show "part t start stop c = []" by (simp add: part_def sub_empty)
  qed
  have after: "concat (map (part t start stop) (dropWhile ?in (drop ?i cs))) = []"
  proof (rule concat_map_empty)
    fix c assume c: "c \<in> set (dropWhile ?in (drop ?i cs))"
    let ?d = "dropWhile ?in (drop ?i cs)"
    have ne: "?d \<noteq> []" using c by (metis empty_iff list.set(1))
    have "sorted (map sn_start (drop ?i cs))" using s(2) by (metis drop_map sorted_wrt_drop)
    then have "sorted (map sn_start ?d)" by (metis dropWhile_eq_drop drop_map sorted_wrt_drop)
    then have "sn_start (hd ?d) \<le> sn_start c" using c ne by (cases ?d) auto
    moreover have "stop \<le> sn_start (hd ?d)" using hd_dropWhile [OF ne] by simp
    ultimately show "part t start stop c = []" by (simp add: part_def sub_empty)
  qed
  have "cs = take ?i cs @ childrenFrom start stop cs @ dropWhile ?in (drop ?i cs)" by (simp add: childrenFrom_def)
  then have "concat (map (part t start stop) cs) = concat (map (part t start stop) (take ?i cs)) @
      concat (map (part t start stop) (childrenFrom start stop cs)) @ concat (map (part t start stop) (dropWhile ?in (drop ?i cs)))"
    by (metis concat_append map_append)
  then show ?thesis using before after by simp
qed

text \<open>Trees as \<^verbatim>\<open>visit\<close> builds them: the offsets are those of the text.\<close>

fun tree_ok :: "ustring \<Rightarrow> speechNode \<Rightarrow> bool" where
  "tree_ok t (SpeechNode x s e cs a secs) =
    (s \<le> e \<and> (case x of
       XmlText u \<Rightarrow> True
     | XmlOther u \<Rightarrow> s = e
     | XmlElement n as ds \<Rightarrow> contiguous cs s e \<and> list_all (tree_ok t) cs))"

lemma visit_fields [simp]:
  "sn_start (visit f x inside k) = k" "sn_end (visit f x inside k) = k + length (textContent x)"
  by (cases x; simp add: Let_def)+

lemma visitAll_contiguous: "contiguous (visitAll f xs inside k) k (k + length (concat (map textContent xs)))"
  by (induction xs arbitrary: k) (simp_all, metis add.assoc)

lemma visit_ok: "tree_ok t (visit f x inside k)" "list_all (tree_ok t) (visitAll f xs inside k)"
proof (induction f x inside k and f xs inside k rule: visit_visitAll.induct)
  case (2 f n as cs inside k)
  then show ?case using visitAll_contiguous [of f cs _ k] by (simp add: Let_def)
qed (simp_all add: Let_def)

definition optText :: "xml option \<Rightarrow> ustring" where
  "optText x = (case x of Some y \<Rightarrow> textContent y | None \<Rightarrow> [])"

lemma text_somes: "concat (map textContent (somes xs)) = concat (map optText xs)"
  by (induction xs) (auto simp: somes_def optText_def split: option.splits)

lemma outside_part: "outside start stop n \<Longrightarrow> part t start stop n = []"
  by (auto simp: outside_def part_def intro!: sub_empty)

lemma copySlice_text: "tree_ok t n \<Longrightarrow> optText (copySlice t start stop rate budget n) = part t start stop n"
proof (induction t start stop rate budget n rule: copySlice.induct)
  case (1 t start stop rate budget n)
  have ok: "tree_ok t n" by (fact "1.prems")
  show ?case
  proof (cases "outside start stop n \<or> readNormally start stop rate budget n")
    case True
    then show ?thesis
      using outside_part [of start stop n t]
      by (subst copySlice.simps) (auto simp: optText_def slicedText_def part_def)
  next
    case False
    show ?thesis
    proof (cases "sn_node n")
      case (XmlText u)
      then show ?thesis using False by (subst copySlice.simps) (simp add: optText_def slicedText_def part_def)
    next
      case (XmlOther u)
      then have "sn_start n = sn_end n" using ok by (cases n) simp
      then have "part t start stop n = []" by (simp add: part_def sub_empty)
      then show ?thesis using False XmlOther by (subst copySlice.simps) (simp add: optText_def)
    next
      case (XmlElement name as ds)
      let ?cs = "childrenFrom start stop (sn_children n)"
      have n: "contiguous (sn_children n) (sn_start n) (sn_end n)" "list_all (tree_ok t) (sn_children n)"
        using ok XmlElement by (cases n; simp)+
      have "map (\<lambda>c. optText (copySlice t start stop rate budget c)) ?cs = map (part t start stop) ?cs"
        using "1.IH" False XmlElement n(2) childrenFrom_subset [of _ start stop "sn_children n"]
        by (auto simp: list_all_iff)
      then have "concat (map textContent (somes (map (copySlice t start stop rate budget) ?cs))) = concat (map (part t start stop) ?cs)"
        by (simp only: text_somes map_map comp_def)
      also have "\<dots> = part t start stop n"
        unfolding parts_children [OF n(1)] parts_contiguous [OF n(1)] by (simp add: part_def)
      finally show ?thesis using False XmlElement by (subst copySlice.simps) (simp add: optText_def)
    qed
  qed
qed

lemma sliceSSML_text:
  "optText (sliceSSML (indexSSML f doc) start stop rate budget) = sub (textContent doc) start stop"
proof -
  have "part (textContent doc) start stop (visit f doc False 0) = sub (textContent doc) start (min stop (length (textContent doc)))"
    by (simp add: part_def)
  also have "\<dots> = sub (textContent doc) start stop" by (simp add: sub_def min_def)
  finally show ?thesis
    using copySlice_text [OF visit_ok(1), of "textContent doc" start stop rate budget f doc False 0]
    by (simp add: sliceSSML_def indexSSML_def Let_def)
qed

section \<open>Properties\<close>

text \<open>
  \<^bold>\<open>C29\<close> (a slice speaks exactly its text). Whatever the nesting of the markup, the position of cuts in
  pronunciation overrides, the rate and the time budget: the XML cut out for the offsets \<open>start\<close> to \<open>stop\<close>
  contains exactly the characters of the sentence between them, so consecutive slices speak every
  character once and in order.
\<close>

theorem slice_text_exact:
  "optText (sliceSSML (indexSSML f doc) start stop rate budget) = sub (textContent doc) start stop"
  by (rule sliceSSML_text)

end
