(* ===== verification/Speech_Buffer.thy ===== *)
theory Speech_Buffer
  imports Speech_Slices
begin

text \<open>
  \<^verbatim>\<open>TTSSpeechBuffer\<close> of \<^verbatim>\<open>frontend/src/lib/tts-batch.ts\<close>: sentences come from an asynchronous source, long ones
  are cut into slices, and slices are put together into chunks of audio. What the source delivers at each
  \<^verbatim>\<open>await\<close> is a list of events; a disposal while it is awaited is one of them. Calls are serialised by
  \<^verbatim>\<open>this.reading\<close>, so they do not interleave. The record \<open>tools\<close> collects the parameters of the model: the
  estimate of speaking times, letters and numbers, parsing and serialisation of XML, the positions of the
  EPUB library, the texts that are skipped, and the final markup with its length in bytes.
\<close>

section \<open>Data\<close>

record ttsWord =
  wd_text :: ustring
  wd_cfi :: ustring
  wd_start :: "int option"
  wd_end :: "int option"

record textRange =
  tr_start :: int
  tr_end :: int
  tr_cfi :: ustring

record ttsSentence =
  se_ssml :: ustring
  se_text :: ustring
  se_cfi :: ustring
  se_section :: nat
  se_ranges :: "textRange list option"
  se_words :: "ttsWord list"

record bufferedSentence =
  bs_sentence :: ttsSentence
  bs_sourceIndex :: nat
  bs_sentenceCfi :: ustring
  bs_sentenceText :: ustring
  bs_rawRoot :: "xml option"
  bs_rawBytes :: "nat option"
  bs_duration :: real

record pendingSentence =
  pd_sentence :: ttsSentence
  pd_tree :: speechTree
  pd_offsets :: "nat list"
  pd_position :: nat
  pd_sourceIndex :: nat

record tools =
  tl_est :: "ustring \<Rightarrow> real"
  tl_alnum :: "nat \<Rightarrow> bool"
  tl_parse :: "ustring \<Rightarrow> xml option"
  tl_serialize :: "xml \<Rightarrow> ustring"
  tl_point :: "ustring \<Rightarrow> int \<Rightarrow> ustring"
  tl_buildRange :: "ustring \<Rightarrow> ustring \<Rightarrow> ustring"
  tl_skippable :: "ustring \<Rightarrow> bool"
  tl_azure :: "xml \<Rightarrow> ustring"

datatype bufferError = TooLarge | BrokenTree | SourceFailed | Stuck

datatype sourceEvent = NextSentence ttsSentence | SourceError | DisposedMeanwhile

record speechBuffer =
  sb_source :: "sourceEvent list"
  sb_sentences :: "bufferedSentence list"
  sb_base :: nat
  sb_sourceIndex :: nat
  sb_pending :: "pendingSentence option"
  sb_done :: bool
  sb_disposed :: bool

definition newBuffer :: "sourceEvent list \<Rightarrow> speechBuffer" where
  "newBuffer src = \<lparr>sb_source = src, sb_sentences = [], sb_base = 0, sb_sourceIndex = 0, sb_pending = None,
     sb_done = False, sb_disposed = False\<rparr>"

definition dispose :: "speechBuffer \<Rightarrow> speechBuffer" where
  "dispose b = b\<lparr>sb_disposed := True, sb_sentences := [], sb_pending := None\<rparr>"

definition TTS_FIRST_CHUNK_SECONDS :: real where "TTS_FIRST_CHUNK_SECONDS = 12"
definition MAX_CHUNK_BYTES :: nat where "MAX_CHUNK_BYTES = 30 * 1024"
definition ENVELOPE_BYTES :: nat where "ENVELOPE_BYTES = 1024"
definition MAX_SLICE_SECONDS :: real where "MAX_SLICE_SECONDS = TTS_FIRST_CHUNK_SECONDS / 2"
definition SENTENCE_PAUSE_SECONDS :: real where "SENTENCE_PAUSE_SECONDS = 0.24"

definition utf8Length :: "ustring \<Rightarrow> nat" where
  "utf8Length s = length (concat (map utf8 (scalar_values s)))"

section \<open>Slices of a sentence\<close>

definition rangeCFI :: "tools \<Rightarrow> ttsSentence \<Rightarrow> int \<Rightarrow> int \<Rightarrow> ustring" where
  "rangeCFI env sentence start stop =
    (case se_ranges sentence of
       None \<Rightarrow> se_cfi sentence
     | Some ranges \<Rightarrow>
        (let i = firstEndingAfter (map tr_end ranges) start False;
             k = firstEndingAfter (map tr_end ranges) stop True in
         if ranges = [] \<or> length ranges \<le> i \<or> length ranges \<le> k then se_cfi sentence
         else tl_buildRange env
           (tl_point env (tr_cfi (ranges ! i)) (start - tr_start (ranges ! i)))
           (tl_point env (tr_cfi (ranges ! k)) (stop - tr_start (ranges ! k)))))"

definition slicedWord :: "tools \<Rightarrow> ttsSentence \<Rightarrow> int \<Rightarrow> int \<Rightarrow> ttsWord \<Rightarrow> ttsWord list" where
  "slicedWord env source start stop w =
    (case (wd_start w, wd_end w) of
       (Some ws, Some we) \<Rightarrow>
        (let from' = max start ws; to = min stop we in
         if ws < 0 \<or> to \<le> from' then []
         else [\<lparr>wd_text = sub (se_text source) (nat from') (nat to),
                wd_cfi = (if from' = ws \<and> to = we then wd_cfi w else rangeCFI env source from' to),
                wd_start = Some (from' - start), wd_end = Some (to - start)\<rparr>])
     | _ \<Rightarrow> [])"

definition slicedWords :: "tools \<Rightarrow> ttsSentence \<Rightarrow> int \<Rightarrow> int \<Rightarrow> ttsWord list" where
  "slicedWords env source start stop =
    (let ends = map (\<lambda>w. case wd_end w of Some e \<Rightarrow> e | None \<Rightarrow> 0) (se_words source) in
     concat (map (slicedWord env source start stop)
       (takeWhile (\<lambda>w. case wd_start w of Some s \<Rightarrow> s < stop | None \<Rightarrow> False)
         (drop (firstEndingAfter ends start False) (se_words source)))))"

definition slicedRanges :: "tools \<Rightarrow> ttsSentence \<Rightarrow> int \<Rightarrow> int \<Rightarrow> textRange list option" where
  "slicedRanges env source start stop =
    map_option (\<lambda>ranges. map (\<lambda>r.
        let from' = max start (tr_start r); to = min stop (tr_end r) in
        \<lparr>tr_start = from' - start, tr_end = to - start, tr_cfi = rangeCFI env source from' to\<rparr>)
      (takeWhile (\<lambda>r. tr_start r < stop) (drop (firstEndingAfter (map tr_end ranges) start False) ranges)))
      (se_ranges source)"

definition sliceSentence :: "tools \<Rightarrow> ttsSentence \<Rightarrow> speechTree \<Rightarrow> nat \<Rightarrow> nat \<Rightarrow> xml \<Rightarrow> ttsSentence" where
  "sliceSentence env source tree start stop rawRoot =
    (if start = 0 \<and> stop = length (se_text source) \<and> sp_atomics tree = [] then source
     else source\<lparr>se_text := sub (se_text source) start stop, se_cfi := rangeCFI env source (int start) (int stop),
       se_ssml := tl_serialize env rawRoot, se_words := slicedWords env source (int start) (int stop),
       se_ranges := slicedRanges env source (int start) (int stop)\<rparr>)"

text \<open>Punctuation that may get a pause: the fullwidth and ASCII comma, enumeration comma, semicolons, colons, full stops, exclamation and question marks, ellipsis and line feed.\<close>

definition pausePunctuation :: "nat list" where
  "pausePunctuation = [65292, 44, 12289, 65307, 59, 65306, 58, 12290, 46, 33, 65281, 65311, 63, 8230, 10]"

fun elements :: "ustring \<Rightarrow> xml \<Rightarrow> nat" where
  "elements name (XmlElement n as cs) = sum_list (map (\<lambda>c. (case c of XmlElement m _ _ \<Rightarrow> of_bool (m = name) | _ \<Rightarrow> 0) + elements name c) cs)"
| "elements name _ = 0"

fun childElements :: "xml \<Rightarrow> nat" where
  "childElements (XmlElement n as cs) = length (filter (\<lambda>c. case c of XmlElement _ _ _ \<Rightarrow> True | _ \<Rightarrow> False) cs)"
| "childElements _ = 0"

definition conservativeBytes :: "tools \<Rightarrow> xml \<Rightarrow> ustring \<Rightarrow> nat" where
  "conservativeBytes env x t =
    utf8Length (tl_serialize env x) + length (filter (\<lambda>c. c \<in> set pausePunctuation) t) * 64 + childElements x * 80 +
    elements (js ''mark'') x * 40"

section \<open>Where to cut\<close>

text \<open>The end of the slice grows while it is short enough. The distance to the position doubles; it is positive
  at the only call.\<close>

function growHigh :: "(nat \<Rightarrow> real) \<Rightarrow> real \<Rightarrow> nat \<Rightarrow> nat \<Rightarrow> nat \<Rightarrow> nat" where
  "growHigh duration budget position len high =
    (if position < high \<and> high < len \<and> duration high \<le> budget
     then growHigh duration budget position len (min len (position + (high - position) * 2)) else high)"
  by pat_completeness auto
termination
  by (relation "measure (\<lambda>(duration, budget, position, len, high). len - high)") auto

function bestEnd :: "(nat \<Rightarrow> real) \<Rightarrow> real \<Rightarrow> nat \<Rightarrow> nat \<Rightarrow> nat \<Rightarrow> nat" where
  "bestEnd duration budget low high best =
    (if low \<le> high \<and> 0 < high then
       let middle = (low + high) div 2 in
       if duration middle \<le> budget then bestEnd duration budget (middle + 1) high middle
       else bestEnd duration budget low (middle - 1) best
     else best)"
  by pat_completeness auto
termination
  by (relation "measure (\<lambda>(duration, budget, low, high, best). Suc high - low)") auto

function firstOffset :: "nat list \<Rightarrow> nat \<Rightarrow> nat \<Rightarrow> nat \<Rightarrow> nat" where
  "firstOffset offsets target from' to =
    (if from' < to then
       let middle = (from' + to) div 2 in
       if target \<le> offsets ! middle then firstOffset offsets target from' middle
       else firstOffset offsets target (middle + 1) to
     else from')"
  by pat_completeness auto
termination
  by (relation "measure (\<lambda>(offsets, target, from', to). to - from')") auto

declare growHigh.simps [simp del] bestEnd.simps [simp del] firstOffset.simps [simp del]

text \<open>A slice does not end inside a pronunciation override that fits into the next one.\<close>

definition beforeAtomic :: "speechTree \<Rightarrow> nat list \<Rightarrow> jsnum \<Rightarrow> real \<Rightarrow> nat \<Rightarrow> nat \<Rightarrow> nat" where
  "beforeAtomic tree offsets rate budget position best =
    (case List.find (\<lambda>a. offsets ! position < sn_start a \<and> offsets ! best < sn_end a \<and> sn_seconds a / speechSpeed rate \<le> budget)
        (takeWhile (\<lambda>a. sn_start a < offsets ! best)
          (drop (firstEndingAfter (map sn_end (sp_atomics tree)) (offsets ! position) False) (sp_atomics tree))) of
       Some a \<Rightarrow> firstOffset offsets (sn_start a) (position + 1) best
     | None \<Rightarrow> best)"

definition cutByTime :: "tools \<Rightarrow> pendingSentence \<Rightarrow> jsnum \<Rightarrow> real \<Rightarrow> nat" where
  "cutByTime env p rate budget =
    (let offsets = pd_offsets p; position = pd_position p; len = length offsets - 1;
         duration = (\<lambda>e. slicedDuration (tl_est env) (pd_tree p) rate budget (offsets ! position) (offsets ! e));
         high = growHigh duration budget position len (min len (position + 64));
         best = bestEnd duration budget (position + 1) high position;
         best1 = (if best = position then position + 1 else best) in
     beforeAtomic (pd_tree p) offsets rate budget position best1)"

definition sliceAt :: "tools \<Rightarrow> pendingSentence \<Rightarrow> jsnum \<Rightarrow> real \<Rightarrow> nat \<Rightarrow> (xml \<times> ttsSentence \<times> nat) option" where
  "sliceAt env p rate budget best =
    (let start = pd_offsets p ! pd_position p; stop = pd_offsets p ! best in
     case sliceSSML (pd_tree p) start stop rate budget of
       None \<Rightarrow> None
     | Some x \<Rightarrow>
        (let s = sliceSentence env (pd_sentence p) (pd_tree p) start stop x in
         Some (x, s, conservativeBytes env x (se_text s))))"

text \<open>Slices that are too large are halved, down to one character.\<close>

function fitBytes :: "tools \<Rightarrow> pendingSentence \<Rightarrow> jsnum \<Rightarrow> real \<Rightarrow> nat \<Rightarrow> bufferError + nat \<times> xml \<times> ttsSentence \<times> nat" where
  "fitBytes env p rate budget best =
    (case sliceAt env p rate budget best of
       None \<Rightarrow> Inl BrokenTree
     | Some (x, s, n) \<Rightarrow>
        (if MAX_CHUNK_BYTES - ENVELOPE_BYTES < n then
           (if pd_position p + 1 < best
            then fitBytes env p rate budget (pd_position p + max 1 ((best - pd_position p) div 2))
            else Inl TooLarge)
         else Inr (best, x, s, n)))"
  by pat_completeness auto
termination
  by (relation "measure (\<lambda>(env, p, rate, budget, best). best - pd_position p)") auto

declare fitBytes.simps [simp del]

definition appendNext :: "tools \<Rightarrow> real \<Rightarrow> jsnum \<Rightarrow> pendingSentence \<Rightarrow> speechBuffer \<Rightarrow> bufferError + speechBuffer" where
  "appendNext env targetSeconds rate p b =
    (let budget = min MAX_SLICE_SECONDS targetSeconds in
     case fitBytes env p rate budget (cutByTime env p rate budget) of
       Inl e \<Rightarrow> Inl e
     | Inr (best, x, s, n) \<Rightarrow>
        (let d = slicedDuration (tl_est env) (pd_tree p) rate budget (pd_offsets p ! pd_position p) (pd_offsets p ! best) in
         Inr (b\<lparr>sb_sentences := sb_sentences b @
             [\<lparr>bs_sentence = s, bs_sourceIndex = pd_sourceIndex p, bs_sentenceCfi = se_cfi (pd_sentence p),
               bs_sentenceText = se_text (pd_sentence p), bs_rawRoot = Some x, bs_rawBytes = Some n,
               bs_duration = d * speechSpeed rate\<rparr>],
           sb_pending := (if best = length (pd_offsets p) - 1 then None else Some (p\<lparr>pd_position := best\<rparr>))\<rparr>)))"

section \<open>A cut makes progress\<close>

lemma growHigh_bounds:
  "position < high \<Longrightarrow> high \<le> len \<Longrightarrow>
    position < growHigh d budget position len high \<and> growHigh d budget position len high \<le> len"
proof (induction d budget position len high rule: growHigh.induct)
  case (1 d budget position len high)
  show ?case
  proof (cases "position < high \<and> high < len \<and> d high \<le> budget")
    case True
    then have "position < min len (position + (high - position) * 2)" by simp
    with "1.IH" [OF True] True show ?thesis by (subst (1 2) growHigh.simps) simp
  next
    case False
    then show ?thesis using "1.prems" by (subst (1 2) growHigh.simps) auto
  qed
qed

lemma bestEnd_bounds: "0 < low \<Longrightarrow> bestEnd d budget low high best = best \<or>
  low \<le> bestEnd d budget low high best \<and> bestEnd d budget low high best \<le> high"
proof (induction d budget low high best rule: bestEnd.induct)
  case (1 d budget low high best)
  let ?m = "(low + high) div 2"
  show ?case
  proof (cases "low \<le> high \<and> 0 < high")
    case True
    then have m: "low \<le> ?m" "?m \<le> high" by auto
    show ?thesis
    proof (cases "d ?m \<le> budget")
      case d: True
      then have "bestEnd d budget low high best = bestEnd d budget (?m + 1) high ?m"
        using True by (subst bestEnd.simps) (simp add: Let_def)
      then show ?thesis using "1.IH"(1) [OF True refl d] m by auto
    next
      case d: False
      then have "bestEnd d budget low high best = bestEnd d budget low (?m - 1) best"
        using True by (subst bestEnd.simps) (simp add: Let_def)
      then show ?thesis using "1.IH"(2) [OF True refl d "1.prems"] m by linarith
    qed
  qed (subst (1 2 3) bestEnd.simps, auto)
qed

lemma firstOffset_bounds: "from' \<le> to \<Longrightarrow> from' \<le> firstOffset offs target from' to \<and> firstOffset offs target from' to \<le> to"
proof (induction offs target from' to rule: firstOffset.induct)
  case (1 offs target from' to)
  let ?m = "(from' + to) div 2"
  show ?case
  proof (cases "from' < to")
    case True
    show ?thesis
    proof (cases "target \<le> offs ! ?m")
      case t: True
      then have "firstOffset offs target from' to = firstOffset offs target from' ?m"
        using True by (subst firstOffset.simps) (simp add: Let_def)
      moreover have m: "from' \<le> ?m" "?m \<le> to" using True by auto
      ultimately show ?thesis using "1.IH"(1) [OF True refl t m(1)] by linarith
    next
      case t: False
      then have "firstOffset offs target from' to = firstOffset offs target (?m + 1) to"
        using True by (subst firstOffset.simps) (simp add: Let_def)
      moreover have m: "?m + 1 \<le> to" "from' \<le> ?m" using True by auto
      ultimately show ?thesis using "1.IH"(2) [OF True refl t m(1)] by linarith
    qed
  next
    case False
    then show ?thesis using "1.prems" by (subst (1 2) firstOffset.simps) simp
  qed
qed

lemma beforeAtomic_bounds:
  "position < best \<Longrightarrow> position < beforeAtomic tree offs rate budget position best \<and>
    beforeAtomic tree offs rate budget position best \<le> best"
  using firstOffset_bounds [of "position + 1" best offs]
  by (auto simp: beforeAtomic_def Suc_le_eq split: option.splits)

lemma cutByTime_bounds:
  assumes "pd_position p < length (pd_offsets p) - 1"
  shows "pd_position p < cutByTime env p rate budget \<and> cutByTime env p rate budget \<le> length (pd_offsets p) - 1"
proof -
  let ?len = "length (pd_offsets p) - 1" and ?pos = "pd_position p"
  let ?d = "\<lambda>e. slicedDuration (tl_est env) (pd_tree p) rate budget (pd_offsets p ! ?pos) (pd_offsets p ! e)"
  let ?high = "growHigh ?d budget ?pos ?len (min ?len (?pos + 64))"
  define best where "best = (let e = bestEnd ?d budget (?pos + 1) ?high ?pos in if e = ?pos then ?pos + 1 else e)"
  have "?high \<le> ?len" using growHigh_bounds [of ?pos "min ?len (?pos + 64)" ?len] assms by simp
  then have b: "?pos < best" "best \<le> ?len"
    using bestEnd_bounds [of "?pos + 1" ?d budget ?high ?pos] assms by (auto simp: best_def Let_def)
  have "cutByTime env p rate budget = beforeAtomic (pd_tree p) (pd_offsets p) rate budget ?pos best"
    by (simp add: cutByTime_def best_def Let_def)
  then show ?thesis using beforeAtomic_bounds [OF b(1), of "pd_tree p" "pd_offsets p" rate budget] b(2) by simp
qed

lemma fitBytes_result:
  assumes "fitBytes env p rate budget best = Inr (best', x, s, n)" and "pd_position p < best"
  shows "pd_position p < best' \<and> best' \<le> best \<and> sliceAt env p rate budget best' = Some (x, s, n) \<and>
    n \<le> MAX_CHUNK_BYTES - ENVELOPE_BYTES"
  using assms
proof (induction env p rate budget best rule: fitBytes.induct)
  case (1 env p rate budget best)
  let ?next = "pd_position p + max 1 ((best - pd_position p) div 2)"
  obtain y t m where a: "sliceAt env p rate budget best = Some (y, t, m)"
    using "1.prems"(1) by (subst (asm) fitBytes.simps) (auto split: option.splits)
  show ?case
  proof (cases "MAX_CHUNK_BYTES - ENVELOPE_BYTES < m")
    case True
    then have c: "pd_position p + 1 < best"
      using "1.prems"(1) a by (subst (asm) fitBytes.simps) (auto split: if_splits)
    then have "fitBytes env p rate budget ?next = Inr (best', x, s, n)"
      using "1.prems"(1) a True by (subst (asm) fitBytes.simps) simp
    with "1.IH" [OF a refl refl True c] c show ?thesis by auto
  next
    case False
    then show ?thesis using "1.prems" a by (subst (asm) fitBytes.simps) auto
  qed
qed

lemma fitBytes_not_stuck: "fitBytes env p rate budget best \<noteq> Inl Stuck"
proof (induction env p rate budget best rule: fitBytes.induct)
  case (1 env p rate budget best)
  then show ?case by (subst fitBytes.simps) (auto split: option.splits)
qed

text \<open>The pending sentence after a slice.\<close>

lemma appendNext_result:
  assumes "appendNext env target rate p b = Inr b'" and "pd_position p < length (pd_offsets p) - 1"
  obtains best x s n e where "pd_position p < best" "best \<le> length (pd_offsets p) - 1"
    "sliceAt env p rate (min MAX_SLICE_SECONDS target) best = Some (x, s, n)" "n \<le> MAX_CHUNK_BYTES - ENVELOPE_BYTES"
    "bs_sentence e = s" "bs_sourceIndex e = pd_sourceIndex p" "bs_rawRoot e = Some x" "bs_rawBytes e = Some n"
    "b' = b\<lparr>sb_sentences := sb_sentences b @ [e],
      sb_pending := (if best = length (pd_offsets p) - 1 then None else Some (p\<lparr>pd_position := best\<rparr>))\<rparr>"
proof -
  let ?bud = "min MAX_SLICE_SECONDS target"
  obtain best x s n where f: "fitBytes env p rate ?bud (cutByTime env p rate ?bud) = Inr (best, x, s, n)"
    using assms(1) by (auto simp: appendNext_def Let_def split: sum.splits)
  have c: "pd_position p < cutByTime env p rate ?bud" "cutByTime env p rate ?bud \<le> length (pd_offsets p) - 1"
    using cutByTime_bounds [OF assms(2)] by auto
  note r = fitBytes_result [OF f c(1)]
  let ?e = "\<lparr>bs_sentence = s, bs_sourceIndex = pd_sourceIndex p, bs_sentenceCfi = se_cfi (pd_sentence p),
    bs_sentenceText = se_text (pd_sentence p), bs_rawRoot = Some x, bs_rawBytes = Some n,
    bs_duration = slicedDuration (tl_est env) (pd_tree p) rate ?bud (pd_offsets p ! pd_position p) (pd_offsets p ! best) * speechSpeed rate\<rparr>"
  have "b' = b\<lparr>sb_sentences := sb_sentences b @ [?e],
      sb_pending := (if best = length (pd_offsets p) - 1 then None else Some (p\<lparr>pd_position := best\<rparr>))\<rparr>"
    using f assms(1) by (simp add: appendNext_def Let_def)
  then show ?thesis using that [of best x s n ?e] r c(2) by simp
qed

section \<open>Filling the buffer\<close>

text \<open>The pattern \<^verbatim>\<open>/<(?:[\w.-]+:)?(?:phoneme|sub|say-as)(?:\s|>)/i\<close>. A prefix ends at its first colon, so only the
  longest run of name characters can be one.\<close>

definition nameChar :: "nat \<Rightarrow> bool" where
  "nameChar c \<longleftrightarrow> 48 \<le> c \<and> c \<le> 57 \<or> 65 \<le> c \<and> c \<le> 90 \<or> 97 \<le> c \<and> c \<le> 122 \<or> c \<in> {95, 46, 45}"

definition overrideName :: "ustring \<Rightarrow> bool" where
  "overrideName s \<longleftrightarrow> list_ex (\<lambda>n. lowerAscii (take (length n) s) = n \<and>
     (case drop (length n) s of c # _ \<Rightarrow> is_space c \<or> c = 62 | [] \<Rightarrow> False)) pronunciationElements"

fun mentionsOverride :: "ustring \<Rightarrow> bool" where
  "mentionsOverride [] = False"
| "mentionsOverride (c # cs) =
    (c = 60 \<and> (overrideName cs \<or>
       (case dropWhile nameChar cs of
          d # ds \<Rightarrow> d = 58 \<and> takeWhile nameChar cs \<noteq> [] \<and> overrideName ds | [] \<Rightarrow> False)) \<or> mentionsOverride cs)"

text \<open>Ends of the characters (code points) of a text, in UTF-16 units.\<close>

fun codePointEnds :: "nat \<Rightarrow> ustring \<Rightarrow> nat list" where
  "codePointEnds k [] = []"
| "codePointEnds k [u] = [k + 1]"
| "codePointEnds k (u # v # us) =
    (if is_high u \<and> is_low v then (k + 2) # codePointEnds (k + 2) us else (k + 1) # codePointEnds (k + 1) (v # us))"

definition indexOf :: "ustring \<Rightarrow> ustring \<Rightarrow> int \<Rightarrow> int" where
  "indexOf s t start =
    (case filter (\<lambda>i. nat start \<le> i \<and> startsWith (drop i s) t) [0..<Suc (length s)] of i # _ \<Rightarrow> int i | [] \<Rightarrow> -1)"

fun locateWords :: "ustring \<Rightarrow> int \<Rightarrow> ttsWord list \<Rightarrow> ttsWord list" where
  "locateWords t searchOffset [] = []"
| "locateWords t searchOffset (w # ws) =
    (let start = (case wd_start w of Some k \<Rightarrow> k | None \<Rightarrow> indexOf t (wd_text w) searchOffset);
         stop = (case wd_end w of Some k \<Rightarrow> k | None \<Rightarrow> start + int (length (wd_text w))) in
     w\<lparr>wd_start := Some start, wd_end := Some stop\<rparr> # locateWords t stop ws)"

definition smallSentence :: "tools \<Rightarrow> ttsSentence \<Rightarrow> real \<Rightarrow> jsnum \<Rightarrow> bool" where
  "smallSentence env s targetSeconds rate \<longleftrightarrow>
    tl_est env (se_text s) / speechSpeed rate \<le> min MAX_SLICE_SECONDS targetSeconds \<and> utf8Length (se_ssml s) \<le> 512 \<and>
    \<not> mentionsOverride (se_ssml s)"

definition parsedRoot :: "tools \<Rightarrow> ustring \<Rightarrow> ttsSentence \<Rightarrow> xml" where
  "parsedRoot env fallback s =
    (case tl_parse env (se_ssml s) of Some x \<Rightarrow> x | None \<Rightarrow> XmlElement fallback [] [XmlText (se_text s)])"

definition beginSentence :: "tools \<Rightarrow> ttsSentence \<Rightarrow> real \<Rightarrow> jsnum \<Rightarrow> speechBuffer \<Rightarrow> speechBuffer" where
  "beginSentence env s targetSeconds rate b =
    (if smallSentence env s targetSeconds rate
     then b\<lparr>sb_sentences := sb_sentences b @
         [\<lparr>bs_sentence = s, bs_sourceIndex = sb_sourceIndex b, bs_sentenceCfi = se_cfi s, bs_sentenceText = se_text s,
           bs_rawRoot = None, bs_rawBytes = None, bs_duration = tl_est env (se_text s)\<rparr>],
       sb_sourceIndex := sb_sourceIndex b + 1\<rparr>
     else b\<lparr>sb_pending := Some
         \<lparr>pd_sentence = s\<lparr>se_words := locateWords (se_text s) 0 (se_words s)\<rparr>,
          pd_tree = indexSSML (pronunciationSeconds (tl_est env) (tl_alnum env)) (parsedRoot env (js ''parsererror'') s),
          pd_offsets = 0 # codePointEnds 0 (se_text s), pd_position = 0, pd_sourceIndex = sb_sourceIndex b\<rparr>,
       sb_sourceIndex := sb_sourceIndex b + 1\<rparr>)"

lemma beginSentence_fields [simp]:
  "sb_source (beginSentence env s target rate b) = sb_source b" "sb_base (beginSentence env s target rate b) = sb_base b"
  "sb_disposed (beginSentence env s target rate b) = sb_disposed b" "sb_done (beginSentence env s target rate b) = sb_done b"
  by (simp_all add: beginSentence_def)

lemma dispose_fields [simp]:
  "sb_source (dispose b) = sb_source b" "sb_base (dispose b) = sb_base b" "sb_disposed (dispose b)"
  by (simp_all add: dispose_def)

definition remaining :: "speechBuffer \<Rightarrow> nat" where
  "remaining b = (case sb_pending b of None \<Rightarrow> 0 | Some p \<Rightarrow> length (pd_offsets p) - pd_position p)"

lemma appendNext_smaller:
  assumes "appendNext env target rate p b = Inr b'" and "pd_position p < length (pd_offsets p) - 1" and "sb_pending b = Some p"
  shows "sb_source b' = sb_source b \<and> remaining b' < remaining b"
  using appendNext_result [OF assms(1,2)] by (rule appendNext_result [OF assms(1,2)]) (use assms(3) in \<open>auto simp: remaining_def\<close>)

text \<open>\<^verbatim>\<open>ensure\<close>: the result, or the error thrown, and the buffer. A pending sentence without a rest would be cut
  forever; \<open>Stuck\<close> stands for that and does not occur.\<close>

definition available :: "nat \<Rightarrow> speechBuffer \<Rightarrow> bool" where
  "available index b \<longleftrightarrow> \<not> sb_disposed b \<and> sb_base b \<le> index \<and> index < sb_base b + length (sb_sentences b)"

function ensure :: "tools \<Rightarrow> nat \<Rightarrow> real \<Rightarrow> jsnum \<Rightarrow> speechBuffer \<Rightarrow> (bufferError + bool) \<times> speechBuffer" where
  "ensure env index targetSeconds rate b =
    (if sb_disposed b \<or> sb_done b \<or> index < sb_base b + length (sb_sentences b) then (Inr (available index b), b)
     else case sb_pending b of
       Some p \<Rightarrow>
        (if \<not> pd_position p < length (pd_offsets p) - 1 then (Inl Stuck, b)
         else case appendNext env targetSeconds rate p b of
           Inl e \<Rightarrow> (Inl e, b)
         | Inr b' \<Rightarrow> ensure env index targetSeconds rate b')
     | None \<Rightarrow>
        (case sb_source b of
           [] \<Rightarrow> (let b' = b\<lparr>sb_done := True\<rparr> in (Inr (available index b'), b'))
         | SourceError # evs \<Rightarrow> (Inl SourceFailed, b\<lparr>sb_source := evs\<rparr>)
         | DisposedMeanwhile # evs \<Rightarrow> (Inr False, dispose (b\<lparr>sb_source := evs\<rparr>))
         | NextSentence s # evs \<Rightarrow>
            (if tl_skippable env (se_text s) then ensure env index targetSeconds rate (b\<lparr>sb_source := evs\<rparr>)
             else ensure env index targetSeconds rate (beginSentence env s targetSeconds rate (b\<lparr>sb_source := evs\<rparr>)))))"
  by pat_completeness auto
termination
proof (relation "measures [\<lambda>(env, index, target, rate, b). length (sb_source b), \<lambda>(env, index, target, rate, b). remaining b]")
qed (use appendNext_smaller in \<open>auto simp: beginSentence_def Let_def\<close>)

declare ensure.simps [simp del]

text \<open>The steps of the loop as an induction rule over one run, from its last step backwards.\<close>

lemma ensure_run [consumes 1, case_names Stop End Failed Disposed Skip Begin Stuck TooLarge Cut]:
  assumes "ensure env index target rate b = (r, b')"
    and "\<And>b. sb_disposed b \<or> sb_done b \<or> index < sb_base b + length (sb_sentences b) \<Longrightarrow> P b (Inr (available index b)) b"
    and "\<And>b. \<lbrakk>\<not> sb_disposed b; \<not> sb_done b; sb_pending b = None; sb_source b = []\<rbrakk> \<Longrightarrow>
      P b (Inr (available index (b\<lparr>sb_done := True\<rparr>))) (b\<lparr>sb_done := True\<rparr>)"
    and "\<And>b evs. \<lbrakk>\<not> sb_disposed b; \<not> sb_done b; sb_pending b = None; sb_source b = SourceError # evs\<rbrakk> \<Longrightarrow>
      P b (Inl SourceFailed) (b\<lparr>sb_source := evs\<rparr>)"
    and "\<And>b evs. \<lbrakk>\<not> sb_disposed b; \<not> sb_done b; sb_pending b = None; sb_source b = DisposedMeanwhile # evs\<rbrakk> \<Longrightarrow>
      P b (Inr False) (dispose (b\<lparr>sb_source := evs\<rparr>))"
    and "\<And>b s evs r b'. \<lbrakk>\<not> sb_disposed b; \<not> sb_done b; sb_pending b = None; sb_source b = NextSentence s # evs;
      tl_skippable env (se_text s); P (b\<lparr>sb_source := evs\<rparr>) r b'\<rbrakk> \<Longrightarrow> P b r b'"
    and "\<And>b s evs r b'. \<lbrakk>\<not> sb_disposed b; \<not> sb_done b; sb_pending b = None; sb_source b = NextSentence s # evs;
      \<not> tl_skippable env (se_text s); P (beginSentence env s target rate (b\<lparr>sb_source := evs\<rparr>)) r b'\<rbrakk> \<Longrightarrow> P b r b'"
    and "\<And>b p. \<lbrakk>sb_pending b = Some p; \<not> pd_position p < length (pd_offsets p) - 1\<rbrakk> \<Longrightarrow> P b (Inl Stuck) b"
    and "\<And>b p e. \<lbrakk>\<not> sb_disposed b; \<not> sb_done b; sb_pending b = Some p; appendNext env target rate p b = Inl e\<rbrakk> \<Longrightarrow> P b (Inl e) b"
    and "\<And>b p b1 r b'. \<lbrakk>\<not> sb_disposed b; \<not> sb_done b; sb_pending b = Some p; pd_position p < length (pd_offsets p) - 1;
      appendNext env target rate p b = Inr b1; P b1 r b'\<rbrakk> \<Longrightarrow> P b r b'"
  shows "P b r b'"
  using assms
proof (induction env index target rate b rule: ensure.induct)
  case (1 env index target rate b)
  note run = "1.prems"(1) and IH = "1.IH" and rules = "1.prems"(2-)
  show ?case
  proof (cases "sb_disposed b \<or> sb_done b \<or> index < sb_base b + length (sb_sentences b)")
    case True
    then show ?thesis using run rules(1) by (subst (asm) ensure.simps) auto
  next
    case go: False
    show ?thesis
    proof (cases "sb_pending b")
      case None
      show ?thesis
      proof (cases "sb_source b")
        case Nil
        then show ?thesis using run go None rules(2) by (subst (asm) ensure.simps) (auto simp: Let_def)
      next
        case (Cons e evs)
        show ?thesis
        proof (cases e)
          case (NextSentence s)
          have eq: "ensure env index target rate
              (if tl_skippable env (se_text s) then b\<lparr>sb_source := evs\<rparr>
               else beginSentence env s target rate (b\<lparr>sb_source := evs\<rparr>)) = (r, b')"
            using run go None Cons NextSentence by (subst (asm) ensure.simps) (simp split: if_splits)
          show ?thesis
          proof (cases "tl_skippable env (se_text s)")
            case True
            with eq have "ensure env index target rate (b\<lparr>sb_source := evs\<rparr>) = (r, b')" by simp
            then have "P (b\<lparr>sb_source := evs\<rparr>) r b'"
              by (rule IH(1) [OF go None Cons NextSentence True]) (fact rules)+
            then show ?thesis using rules(5) [of b s evs] go None Cons NextSentence True by blast
          next
            case False
            with eq have "ensure env index target rate (beginSentence env s target rate (b\<lparr>sb_source := evs\<rparr>)) = (r, b')" by simp
            then have "P (beginSentence env s target rate (b\<lparr>sb_source := evs\<rparr>)) r b'"
              by (rule IH(2) [OF go None Cons NextSentence False]) (fact rules)+
            then show ?thesis using rules(6) [of b s evs] go None Cons NextSentence False by blast
          qed
        qed (use run go None Cons rules(3,4) in \<open>subst (asm) ensure.simps, auto\<close>)+
      qed
    next
      case (Some p)
      show ?thesis
      proof (cases "pd_position p < length (pd_offsets p) - 1")
        case pos: True
        show ?thesis
        proof (cases "appendNext env target rate p b")
          case (Inl e)
          then show ?thesis using run go Some pos rules(8) by (subst (asm) ensure.simps) auto
        next
          case (Inr b1)
          then have "ensure env index target rate b1 = (r, b')" using run go Some pos by (subst (asm) ensure.simps) simp
          note run1 = this
          have "P b1 r b'" by (rule IH(3) [OF go Some _ Inr run1]) (use pos in simp, (fact rules)+)
          then show ?thesis using rules(9) [of b p b1] go Some pos Inr by blast
        qed
      next
        case False
        then show ?thesis using run go Some rules(7) by (subst (asm) ensure.simps) auto
      qed
    qed
  qed
qed

text \<open>What \<^verbatim>\<open>ensure\<close> does to the buffer: nothing, or it works off the source or the pending sentence, or it
  notes that the source has ended.\<close>

definition works_off :: "speechBuffer \<Rightarrow> speechBuffer \<Rightarrow> bool" where
  "works_off b b' \<longleftrightarrow> length (sb_source b') < length (sb_source b) \<or>
     length (sb_source b') = length (sb_source b) \<and> remaining b' < remaining b"

lemma works_off_trans: "works_off b b' \<Longrightarrow> works_off b' b'' \<Longrightarrow> works_off b b''"
  by (auto simp: works_off_def)

lemma ensure_progress:
  "ensure env index target rate b = (r, b') \<Longrightarrow> b' = b \<or> b' = b\<lparr>sb_done := True\<rparr> \<or> works_off b b'"
proof (induction rule: ensure_run)
  case (Cut b p b1 r b')
  have "works_off b b1" using appendNext_smaller [OF Cut(5,4,3)] by (simp add: works_off_def)
  then show ?case using Cut(6) by (auto simp: works_off_def remaining_def)
qed (auto simp: works_off_def remaining_def)

lemma ensure_available: "ensure env index target rate b = (r, b') \<Longrightarrow> r = Inr True \<Longrightarrow> available index b'"
  by (induction rule: ensure_run) auto

text \<open>The order that decreases when an index has become available and the loop goes on to the next one.\<close>

definition ahead :: "nat \<Rightarrow> speechBuffer \<Rightarrow> nat" where
  "ahead index b = sb_base b + length (sb_sentences b) - index"

lemma ensure_next:
  assumes "ensure env index target rate b = (Inr True, b')" and "sb_source b'' = sb_source b'"
    and "remaining b'' = remaining b'" and "sb_base b'' = sb_base b'" and "length (sb_sentences b'') = length (sb_sentences b')"
  shows "length (sb_source b'') < length (sb_source b) \<or> length (sb_source b'') = length (sb_source b) \<and>
    (remaining b'' < remaining b \<or> remaining b'' = remaining b \<and> ahead (index + 1) b'' < ahead index b)"
proof -
  have "available index b'" using ensure_available [OF assms(1)] by simp
  then have a: "ahead (index + 1) b'' < ahead index b'" using assms(4,5) by (auto simp: available_def ahead_def)
  consider "b' = b" | "b' = b\<lparr>sb_done := True\<rparr>" | "works_off b b'" using ensure_progress [OF assms(1)] by blast
  then show ?thesis
  proof cases
    case 2
    then show ?thesis using a assms(2,3) by (simp add: ahead_def remaining_def)
  qed (use a assms(2,3) in \<open>auto simp: works_off_def\<close>)
qed

section \<open>Chunks of audio\<close>

record speechMark =
  sk_name :: nat
  sk_text :: ustring
  sk_cfi :: ustring
  sk_sentenceCfi :: ustring
  sk_sentenceText :: ustring
  sk_sentenceIndex :: nat
  sk_weight :: real

record audioChunk =
  ck_ssml :: ustring
  ck_marks :: "speechMark list"
  ck_startIndex :: nat
  ck_endIndex :: nat
  ck_seconds :: real

record batch =
  ba_entries :: "bufferedSentence list"
  ba_seconds :: real
  ba_bytes :: nat
  ba_nodes :: "xml list"

fun childNodes :: "xml \<Rightarrow> xml list" where
  "childNodes (XmlElement n as cs) = cs"
| "childNodes _ = []"

definition getRawRoot :: "tools \<Rightarrow> bufferedSentence \<Rightarrow> xml" where
  "getRawRoot env e = (case bs_rawRoot e of Some x \<Rightarrow> x | None \<Rightarrow> parsedRoot env (js ''speak'') (bs_sentence e))"

definition breakElement :: xml where
  "breakElement = XmlElement (js ''break'') [(js ''time'', js ''240ms'')] []"

datatype batchStep = Taken batch bufferedSentence | Full bufferedSentence | OverLimit bufferedSentence

text \<open>One turn of the loop: the entry with its XML and size filled in, and whether it joins the batch.\<close>

definition addToBatch :: "tools \<Rightarrow> real \<Rightarrow> jsnum \<Rightarrow> bufferedSentence \<Rightarrow> batch \<Rightarrow> batchStep" where
  "addToBatch env targetSeconds rate e ba =
    (let addPause = ba_entries ba \<noteq> [] \<and> bs_sourceIndex (last (ba_entries ba)) \<noteq> bs_sourceIndex e;
         seconds = bs_duration e / speechSpeed rate + (if addPause then SENTENCE_PAUSE_SECONDS else 0) in
     if ba_entries ba \<noteq> [] \<and> targetSeconds < ba_seconds ba + seconds then Full e
     else
      let x = getRawRoot env e;
          n = (case bs_rawBytes e of Some k \<Rightarrow> k | None \<Rightarrow> conservativeBytes env x (se_text (bs_sentence e)));
          e' = e\<lparr>bs_rawRoot := Some x, bs_rawBytes := Some n\<rparr>;
          addedBytes = n + (if addPause then 21 else 0) in
      if MAX_CHUNK_BYTES < ba_bytes ba + addedBytes then (if ba_entries ba = [] then OverLimit e' else Full e')
      else Taken \<lparr>ba_entries = ba_entries ba @ [e'], ba_seconds = ba_seconds ba + seconds, ba_bytes = ba_bytes ba + addedBytes,
          ba_nodes = ba_nodes ba @ (if addPause then [breakElement] else []) @ childNodes x\<rparr> e')"

definition storeEntry :: "nat \<Rightarrow> bufferedSentence \<Rightarrow> speechBuffer \<Rightarrow> speechBuffer" where
  "storeEntry index e b = b\<lparr>sb_sentences := (sb_sentences b)[index - sb_base b := e]\<rparr>"

lemma storeEntry_fields [simp]:
  "sb_source (storeEntry index e b) = sb_source b" "remaining (storeEntry index e b) = remaining b"
  "sb_base (storeEntry index e b) = sb_base b" "length (sb_sentences (storeEntry index e b)) = length (sb_sentences b)"
  by (simp_all add: storeEntry_def remaining_def)

function collectBatch :: "tools \<Rightarrow> real \<Rightarrow> jsnum \<Rightarrow> nat \<Rightarrow> batch \<Rightarrow> speechBuffer \<Rightarrow> (bufferError + batch) \<times> speechBuffer" where
  "collectBatch env targetSeconds rate index ba b =
    (case ensure env index targetSeconds rate b of
       (Inl e, b') \<Rightarrow> (Inl e, b')
     | (Inr False, b') \<Rightarrow> (Inr ba, b')
     | (Inr True, b') \<Rightarrow>
        (case addToBatch env targetSeconds rate (sb_sentences b' ! (index - sb_base b')) ba of
           Full e \<Rightarrow> (Inr ba, storeEntry index e b')
         | OverLimit e \<Rightarrow> (Inl TooLarge, storeEntry index e b')
         | Taken ba' e \<Rightarrow>
            (if targetSeconds \<le> ba_seconds ba' then (Inr ba', storeEntry index e b')
             else collectBatch env targetSeconds rate (index + 1) ba' (storeEntry index e b'))))"
  by pat_completeness auto
termination
proof (relation "measures [\<lambda>(env, target, rate, index, ba, b). length (sb_source b),
    \<lambda>(env, target, rate, index, ba, b). remaining b, \<lambda>(env, target, rate, index, ba, b). ahead index b]", goal_cases)
  case (2 env target rate index ba b x b' y ba' e)
  then have "ensure env index target rate b = (Inr True, b')" by simp
  from ensure_next [OF this, of "storeEntry index e b'"] show ?case by auto
qed simp

declare collectBatch.simps [simp del]

fun wordMarks :: "tools \<Rightarrow> jsnum \<Rightarrow> bufferedSentence \<Rightarrow> nat \<Rightarrow> int \<Rightarrow> ttsWord list \<Rightarrow> speechMark list" where
  "wordMarks env rate e idx searchOffset [] = []"
| "wordMarks env rate e idx searchOffset (w # ws) =
    (let t = se_text (bs_sentence e);
         start = (case wd_start w of Some k \<Rightarrow> k | None \<Rightarrow> indexOf t (wd_text w) searchOffset);
         stop = (case ws of
             [] \<Rightarrow> int (length t)
           | v # _ \<Rightarrow> (case wd_start v of Some k \<Rightarrow> k
               | None \<Rightarrow> indexOf t (wd_text v) (max 0 start + int (length (wd_text w)))));
         stop' = (if stop < 0 then int (length t) else stop) in
     \<lparr>sk_name = 0, sk_text = wd_text w, sk_cfi = wd_cfi w, sk_sentenceCfi = bs_sentenceCfi e,
      sk_sentenceText = bs_sentenceText e, sk_sentenceIndex = idx,
      sk_weight = tl_est env (sub t (nat (max 0 start)) (nat stop')) / speechSpeed rate\<rparr>
     # wordMarks env rate e idx (max 0 start + int (length (wd_text w))) ws)"

definition entryMarks :: "tools \<Rightarrow> jsnum \<Rightarrow> nat \<Rightarrow> bufferedSentence \<Rightarrow> speechMark list" where
  "entryMarks env rate idx e =
    (let s = bs_sentence e in
     wordMarks env rate e idx 0 (if se_words s \<noteq> [] then se_words s
       else [\<lparr>wd_text = se_text s, wd_cfi = se_cfi s, wd_start = Some 0, wd_end = Some (int (length (se_text s)))\<rparr>]))"

definition chunkMarks :: "tools \<Rightarrow> jsnum \<Rightarrow> nat \<Rightarrow> bufferedSentence list \<Rightarrow> speechMark list" where
  "chunkMarks env rate startIndex es =
    (let ms = concat (map2 (\<lambda>k e. entryMarks env rate (startIndex + k) e) [0..<length es] es) in
     map2 (\<lambda>n m. m\<lparr>sk_name := n\<rparr>) [0..<length ms] ms)"

definition dropOld :: "nat \<Rightarrow> speechBuffer \<Rightarrow> speechBuffer" where
  "dropOld startIndex b =
    (let keepFrom = max (sb_base b) (startIndex - 256) in
     b\<lparr>sb_sentences := drop (keepFrom - sb_base b) (sb_sentences b), sb_base := keepFrom\<rparr>)"

definition finishChunk :: "tools \<Rightarrow> jsnum \<Rightarrow> nat \<Rightarrow> batch \<Rightarrow> bufferError + audioChunk" where
  "finishChunk env rate startIndex ba =
    (let ssml = tl_azure env (XmlElement (js ''speak'') [] (ba_nodes ba)) in
     if MAX_CHUNK_BYTES < utf8Length ssml then Inl TooLarge
     else Inr \<lparr>ck_ssml = ssml, ck_marks = chunkMarks env rate startIndex (ba_entries ba), ck_startIndex = startIndex,
       ck_endIndex = startIndex + length (ba_entries ba) - 1, ck_seconds = ba_seconds ba\<rparr>)"

definition readChunk ::
  "tools \<Rightarrow> ustring \<Rightarrow> ustring \<Rightarrow> nat \<Rightarrow> jsnum \<Rightarrow> jsnum \<Rightarrow> speechBuffer \<Rightarrow> (bufferError + audioChunk option) \<times> speechBuffer" where
  "readChunk env voiceName style startIndex target rate b =
    (case target of
       Fin t \<Rightarrow>
        (if t \<le> 0 then (Inr None, b)
         else case ensure env startIndex t rate b of
           (Inl e, b') \<Rightarrow> (Inl e, b')
         | (Inr False, b') \<Rightarrow> (Inr None, b')
         | (Inr True, b') \<Rightarrow>
            (case collectBatch env t rate startIndex
                \<lparr>ba_entries = [], ba_seconds = 0, ba_bytes = ENVELOPE_BYTES + utf8Length (voiceName @ style) * 6, ba_nodes = []\<rparr>
                (dropOld startIndex b') of
               (Inl e, b'') \<Rightarrow> (Inl e, b'')
             | (Inr ba, b'') \<Rightarrow>
                (if sb_disposed b'' \<or> ba_entries ba = [] then (Inr None, b'')
                 else (case finishChunk env rate startIndex ba of Inl e \<Rightarrow> Inl e | Inr c \<Rightarrow> Inr (Some c), b''))))
     | _ \<Rightarrow> (Inr None, b))"

section \<open>Going to the next or previous sentence\<close>

definition sourceAt :: "nat \<Rightarrow> speechBuffer \<Rightarrow> nat" where
  "sourceAt index b = bs_sourceIndex (sb_sentences b ! (index - sb_base b))"

function nextSource :: "tools \<Rightarrow> jsnum \<Rightarrow> nat \<Rightarrow> nat \<Rightarrow> speechBuffer \<Rightarrow> (bufferError + nat option) \<times> speechBuffer" where
  "nextSource env rate src cursor b =
    (case ensure env cursor MAX_SLICE_SECONDS rate b of
       (Inl e, b') \<Rightarrow> (Inl e, b')
     | (Inr False, b') \<Rightarrow> (Inr None, b')
     | (Inr True, b') \<Rightarrow>
        (if sourceAt cursor b' \<noteq> src then (Inr (Some cursor), b') else nextSource env rate src (cursor + 1) b'))"
  by pat_completeness auto
termination
proof (relation "measures [\<lambda>(env, rate, src, cursor, b). length (sb_source b),
    \<lambda>(env, rate, src, cursor, b). remaining b, \<lambda>(env, rate, src, cursor, b). ahead cursor b]", goal_cases)
  case (2 env rate src cursor b x b' y)
  then have "ensure env cursor MAX_SLICE_SECONDS rate b = (Inr True, b')" by simp
  from ensure_next [OF this refl refl refl refl] show ?case by auto
qed simp

fun skipBack :: "nat \<Rightarrow> speechBuffer \<Rightarrow> nat \<Rightarrow> nat option" where
  "skipBack src b 0 = (if sb_base b = 0 \<and> sourceAt 0 b \<noteq> src then Some 0 else None)"
| "skipBack src b (Suc c) = (if Suc c < sb_base b then None else if sourceAt (Suc c) b = src then skipBack src b c else Some (Suc c))"

fun sentenceStart :: "nat \<Rightarrow> speechBuffer \<Rightarrow> nat \<Rightarrow> nat" where
  "sentenceStart src b 0 = 0"
| "sentenceStart src b (Suc c) = (if sb_base b < Suc c \<and> sourceAt c b = src then sentenceStart src b c else Suc c)"

definition abandonPending :: "nat \<Rightarrow> nat \<Rightarrow> speechBuffer \<Rightarrow> nat \<times> speechBuffer" where
  "abandonPending src cursor b =
    (case sb_pending b of
       Some p \<Rightarrow>
        (if pd_sourceIndex p = src
         then let n = sb_base b + length (sb_sentences b) in (n, b\<lparr>sb_base := n, sb_sentences := [], sb_pending := None\<rparr>)
         else (cursor, b))
     | None \<Rightarrow> (cursor, b))"

definition adjacentSentenceIndex :: "tools \<Rightarrow> jsnum \<Rightarrow> nat \<Rightarrow> bool \<Rightarrow> speechBuffer \<Rightarrow> (bufferError + nat option) \<times> speechBuffer" where
  "adjacentSentenceIndex env rate index forward b =
    (case ensure env index MAX_SLICE_SECONDS rate b of
       (Inl e, b') \<Rightarrow> (Inl e, b')
     | (Inr False, b') \<Rightarrow> (Inr None, b')
     | (Inr True, b') \<Rightarrow>
        (let src = sourceAt index b' in
         if forward then (case abandonPending src (index + 1) b' of (cursor, b'') \<Rightarrow> nextSource env rate src cursor b'')
         else
          (Inr (if index = 0 then None
             else map_option (\<lambda>c. sentenceStart (sourceAt c b') b' c) (skipBack src b' (index - 1))), b')))"

section \<open>Nothing is lost\<close>

lemma codePointEnds_sorted: "sorted_wrt (<) (k # codePointEnds k t) \<and> last (k # codePointEnds k t) = k + length t"
proof (induction k t rule: codePointEnds.induct)
  case (3 k u v us)
  have less: "k < x" if "sorted_wrt (<) ((k + d) # xs)" "x \<in> set ((k + d) # xs)" "0 < d" for d x and xs :: "nat list"
    using that by fastforce
  show ?case
  proof (cases "is_high u \<and> is_low v")
    case True
    with 3(1) [OF True] less [of 2 "codePointEnds (k + 2) us"] show ?thesis by auto
  next
    case False
    with 3(2) [OF False] less [of 1 "codePointEnds (k + 1) (v # us)"] show ?thesis by (auto simp del: codePointEnds.simps(2))
  qed
qed simp_all

definition pending_ok :: "pendingSentence \<Rightarrow> bool" where
  "pending_ok p \<longleftrightarrow> pd_offsets p = 0 # codePointEnds 0 (se_text (pd_sentence p)) \<and>
     pd_position p < length (pd_offsets p) - 1"

lemma offsets_of:
  assumes "pending_ok p"
  shows "i < k \<Longrightarrow> k < length (pd_offsets p) \<Longrightarrow> pd_offsets p ! i < pd_offsets p ! k"
    and "pd_offsets p ! (length (pd_offsets p) - 1) = length (se_text (pd_sentence p))"
proof -
  have o: "pd_offsets p = 0 # codePointEnds 0 (se_text (pd_sentence p))" using assms by (simp add: pending_ok_def)
  have c: "sorted_wrt (<) (pd_offsets p)" "last (pd_offsets p) = length (se_text (pd_sentence p))"
    using codePointEnds_sorted [of 0 "se_text (pd_sentence p)"] unfolding o by auto
  show "i < k \<Longrightarrow> k < length (pd_offsets p) \<Longrightarrow> pd_offsets p ! i < pd_offsets p ! k"
    using c(1) by (simp add: sorted_wrt_nth_less)
  show "pd_offsets p ! (length (pd_offsets p) - 1) = length (se_text (pd_sentence p))"
    using c(2) o by (metis last_conv_nth list.distinct(1))
qed

text \<open>The text buffered so far, and the text of the pending sentence that is not cut yet.\<close>

definition entryText :: "bufferedSentence \<Rightarrow> ustring" where
  "entryText e = se_text (bs_sentence e)"

definition spoken :: "speechBuffer \<Rightarrow> ustring" where
  "spoken b = concat (map entryText (sb_sentences b)) @
     (case sb_pending b of None \<Rightarrow> [] | Some p \<Rightarrow> drop (pd_offsets p ! pd_position p) (se_text (pd_sentence p)))"

fun eventText :: "tools \<Rightarrow> sourceEvent \<Rightarrow> ustring" where
  "eventText env (NextSentence s) = (if tl_skippable env (se_text s) then [] else se_text s)"
| "eventText env _ = []"

definition buffer_ok :: "speechBuffer \<Rightarrow> bool" where
  "buffer_ok b \<longleftrightarrow> (case sb_pending b of Some p \<Rightarrow> pending_ok p | None \<Rightarrow> True) \<and>
     (sb_done b \<longrightarrow> sb_pending b = None \<and> sb_source b = []) \<and> list_all (\<lambda>e. entryText e \<noteq> []) (sb_sentences b)"

lemma sliceSentence_text: "stop \<le> length (se_text s) \<Longrightarrow> se_text (sliceSentence env s tree start stop x) = sub (se_text s) start stop"
  by (simp add: sliceSentence_def sub_def)

lemma sub_drop: "a \<le> b \<Longrightarrow> sub t a b @ drop b t = drop a t"
  using append_take_drop_id [of "b - a" "drop a t"] by (simp add: sub_def)

lemma appendNext_ok:
  assumes a: "appendNext env target rate p b = Inr b'" and b: "buffer_ok b" "sb_pending b = Some p" "\<not> sb_done b"
  shows "buffer_ok b' \<and> spoken b' = spoken b \<and> sb_source b' = sb_source b \<and> sb_disposed b' = sb_disposed b \<and> \<not> sb_done b'"
proof -
  let ?o = "pd_offsets p" and ?t = "se_text (pd_sentence p)" and ?k = "pd_position p"
  have p: "pending_ok p" using b by (simp add: buffer_ok_def)
  then have pos: "?k < length ?o - 1" unfolding pending_ok_def by blast
  from a pos obtain best x s n e where r: "?k < best" "best \<le> length ?o - 1"
    "sliceAt env p rate (min MAX_SLICE_SECONDS target) best = Some (x, s, n)" "bs_sentence e = s"
    and b': "b' = b\<lparr>sb_sentences := sb_sentences b @ [e],
      sb_pending := (if best = length ?o - 1 then None else Some (p\<lparr>pd_position := best\<rparr>))\<rparr>"
    by (rule appendNext_result)
  have o: "?o ! ?k < ?o ! best" "?o ! (length ?o - 1) = length ?t" using offsets_of [OF p] r pos by auto
  have "length ?o - 1 < length ?o" using pos by linarith
  then have le: "?o ! best \<le> length ?t" using offsets_of(1) [OF p, of best "length ?o - 1"] o(2) r(2) pos by (cases "best = length ?o - 1") auto
  have "s = sliceSentence env (pd_sentence p) (pd_tree p) (?o ! ?k) (?o ! best) x"
    using r(3) by (auto simp: sliceAt_def Let_def split: option.splits)
  then have t: "entryText e = sub ?t (?o ! ?k) (?o ! best)"
    using r(4) sliceSentence_text [OF le] by (simp add: entryText_def)
  have ne: "entryText e \<noteq> []" using t o(1) le by (simp add: sub_def)
  have sp: "entryText e @ drop (?o ! best) ?t = drop (?o ! ?k) ?t" using sub_drop [of "?o ! ?k" "?o ! best" ?t] o(1) t by simp
  have "spoken b' = spoken b" using sp o(2) b(2) by (auto simp: spoken_def b')
  moreover have "buffer_ok b'" using p ne r(2) b by (auto simp: buffer_ok_def b' pending_ok_def)
  ultimately show ?thesis using b(3) by (simp add: b')
qed

lemma beginSentence_ok:
  assumes "buffer_ok b" and "sb_pending b = None" and "\<not> sb_done b" and "se_text s \<noteq> []"
  shows "buffer_ok (beginSentence env s target rate b) \<and> spoken (beginSentence env s target rate b) = spoken b @ se_text s"
proof -
  have "codePointEnds 0 (se_text s) \<noteq> []" using assms(4) by (cases "se_text s" rule: remdups_adj.cases) auto
  then show ?thesis
    using assms by (auto simp: buffer_ok_def beginSentence_def spoken_def pending_ok_def entryText_def)
qed

lemma appendNext_not_stuck: "appendNext env target rate p b \<noteq> Inl Stuck"
proof
  assume "appendNext env target rate p b = Inl Stuck"
  then have "fitBytes env p rate (min MAX_SLICE_SECONDS target) (cutByTime env p rate (min MAX_SLICE_SECONDS target)) = Inl Stuck"
    by (auto simp: appendNext_def Let_def split: sum.splits)
  then show False using fitBytes_not_stuck by blast
qed

lemma ensure_ok:
  assumes "ensure env index target rate b = (r, b')" and "buffer_ok b" and "tl_skippable env []" and "\<not> sb_disposed b"
  shows "r \<noteq> Inl Stuck \<and> (sb_disposed b' \<or> buffer_ok b' \<and>
    (\<exists>used. sb_source b = used @ sb_source b' \<and> spoken b' = spoken b @ concat (map (eventText env) used)) \<and>
    (r = Inr False \<longrightarrow> index < sb_base b' \<or> sb_done b'))"
  using assms
proof (induction rule: ensure_run)
  case (Stop b)
  then show ?case by (auto simp: available_def)
next
  case (End b)
  then show ?case by (auto simp: buffer_ok_def spoken_def)
next
  case (Failed b evs)
  then show ?case by (auto simp: buffer_ok_def spoken_def intro: exI [of _ "[SourceError]"])
next
  case (Disposed b evs)
  then show ?case by (simp add: dispose_def)
next
  case (Skip b s evs r b')
  have "buffer_ok (b\<lparr>sb_source := evs\<rparr>)" "spoken (b\<lparr>sb_source := evs\<rparr>) = spoken b"
    using Skip by (simp_all add: buffer_ok_def spoken_def)
  with Skip(6) [OF this(1) Skip.prems(2)] show ?case using Skip by (auto intro: exI [of _ "NextSentence s # _"])
next
  case (Begin b s evs r b')
  let ?b = "b\<lparr>sb_source := evs\<rparr>" and ?b1 = "beginSentence env s target rate (b\<lparr>sb_source := evs\<rparr>)"
  have "se_text s \<noteq> []" using Begin by auto
  moreover have "buffer_ok ?b" "spoken ?b = spoken b" using Begin by (simp_all add: buffer_ok_def spoken_def)
  ultimately have b1: "buffer_ok ?b1" "spoken ?b1 = spoken b @ se_text s" "\<not> sb_disposed ?b1" "sb_source ?b1 = evs"
    using beginSentence_ok [of ?b s env target rate] Begin by (auto simp: beginSentence_def)
  from Begin(6) [OF b1(1) Begin.prems(2) b1(3)] b1(2,4) show ?case
    using Begin(4,5) by (auto intro: exI [of _ "NextSentence s # _"])
next
  case (Stuck b p)
  then show ?case by (auto simp: buffer_ok_def pending_ok_def)
next
  case (TooLarge b p e)
  then show ?case using appendNext_not_stuck by auto
next
  case (Cut b p b1 r b')
  from appendNext_ok [OF Cut(5) Cut.prems(1) Cut(3,2)] Cut(6) Cut.prems show ?case by auto
qed

lemma ensure_base: "ensure env index target rate b = (r, b') \<Longrightarrow> sb_base b' = sb_base b"
proof (induction rule: ensure_run)
  case (Cut b p b1 r b')
  then show ?case by (auto simp: appendNext_def Let_def split: sum.splits)
qed simp_all

definition ensureAll :: "tools \<Rightarrow> (nat \<times> real \<times> jsnum) list \<Rightarrow> speechBuffer \<Rightarrow> speechBuffer" where
  "ensureAll env calls b = fold (\<lambda>(index, target, rate) b. snd (ensure env index target rate b)) calls b"

definition complete :: "tools \<Rightarrow> sourceEvent list \<Rightarrow> speechBuffer \<Rightarrow> bool" where
  "complete env src b \<longleftrightarrow> buffer_ok b \<and> sb_base b = 0 \<and>
     (\<exists>used. src = used @ sb_source b \<and> spoken b = concat (map (eventText env) used))"

lemma ensure_complete:
  assumes "tl_skippable env []" and "sb_disposed b \<or> complete env src b"
  shows "sb_disposed (snd (ensure env index target rate b)) \<or> complete env src (snd (ensure env index target rate b))"
proof (cases "sb_disposed b")
  case True
  then show ?thesis by (subst (1 2) ensure.simps) simp
next
  case False
  then have c: "complete env src b" using assms(2) by blast
  obtain r b' where e: "ensure env index target rate b = (r, b')" by fastforce
  have "sb_disposed b' \<or> complete env src b'"
    using ensure_ok [OF e _ assms(1) False] ensure_base [OF e] c by (fastforce simp: complete_def)
  then show ?thesis by (simp add: e)
qed

section \<open>Properties\<close>

text \<open>
  \<^bold>\<open>C30\<close> (reading ends, and nothing is left out). For any sequence of requests with any target lengths and
  rates, unless the buffer is disposed: filling it always returns (the endless cut \<open>Stuck\<close> is never
  reached), no buffered slice is empty, and the slices in order together with the rest of the sentence
  being cut are exactly the texts of the sentences taken from the source, without the skipped ones. When
  a request finds no further slice, every sentence of the source has been buffered completely.
\<close>

theorem speech_complete:
  fixes env :: tools and src :: "sourceEvent list" and calls :: "(nat \<times> real \<times> jsnum) list"
  defines "b \<equiv> ensureAll env calls (newBuffer src)"
  assumes "tl_skippable env []"
  shows "sb_disposed b \<or>
    list_all (\<lambda>e. entryText e \<noteq> []) (sb_sentences b) \<and>
    (\<exists>used. src = used @ sb_source b \<and> spoken b = concat (map (eventText env) used)) \<and>
    (case ensure env index target rate b of (r, b') \<Rightarrow> r \<noteq> Inl Stuck \<and>
      (r = Inr False \<longrightarrow> sb_disposed b' \<or> concat (map entryText (sb_sentences b')) = concat (map (eventText env) src)))"
proof -
  have "sb_disposed (ensureAll env calls c) \<or> complete env src (ensureAll env calls c)"
    if "sb_disposed c \<or> complete env src c" for c
    using that unfolding ensureAll_def
    by (induction calls arbitrary: c) (auto simp: ensure_complete assms(2) split: prod.splits)
  moreover have "complete env src (newBuffer src)" by (simp add: complete_def buffer_ok_def newBuffer_def spoken_def)
  ultimately have c: "sb_disposed b \<or> complete env src b" unfolding b_def by blast
  obtain r b' where e: "ensure env index target rate b = (r, b')" by fastforce
  have "r \<noteq> Inl Stuck \<and> (r = Inr False \<longrightarrow> sb_disposed b' \<or> concat (map entryText (sb_sentences b')) = concat (map (eventText env) src))"
    if nd: "\<not> sb_disposed b"
  proof -
    have cb: "complete env src b" using c nd by blast
    then have ok: "buffer_ok b" by (simp add: complete_def)
    have "r = Inr False \<longrightarrow> sb_disposed b' \<or> sb_done b'"
      using ensure_ok [OF e ok assms(2) nd] ensure_base [OF e] cb by (auto simp: complete_def)
    moreover have "sb_disposed b' \<or> complete env src b'" using ensure_complete [OF assms(2) c, of index target rate] e by simp
    ultimately show ?thesis
      using ensure_ok [OF e ok assms(2) nd] by (auto simp: complete_def buffer_ok_def spoken_def)
  qed
  then show ?thesis using c e by (auto simp: complete_def buffer_ok_def)
qed

definition sampleTools :: tools where
  "sampleTools = \<lparr>tl_est = (\<lambda>t. 1), tl_alnum = (\<lambda>c. True), tl_parse = (\<lambda>t. None), tl_serialize = textContent,
     tl_point = (\<lambda>c k. c), tl_buildRange = (@), tl_skippable = (\<lambda>t. t = []), tl_azure = textContent\<rparr>"

definition sampleSentence :: ttsSentence where
  "sampleSentence = \<lparr>se_ssml = [], se_text = [65, 66], se_cfi = [], se_section = 0, se_ranges = None, se_words = []\<rparr>"

theorem speech_complete_witness:
  "concat (map entryText (sb_sentences (snd (ensure sampleTools 1 6 (Fin 0) (newBuffer [NextSentence sampleSentence]))))) = [65, 66]"
proof -
  have small: "smallSentence sampleTools sampleSentence 6 (Fin 0)"
    by (simp add: smallSentence_def sampleTools_def sampleSentence_def speechSpeed_def MAX_SLICE_SECONDS_def
        TTS_FIRST_CHUNK_SECONDS_def utf8Length_def)
  have "\<exists>b'. ensure sampleTools 1 6 (Fin 0) (newBuffer [NextSentence sampleSentence]) = (Inr False, b') \<and> \<not> sb_disposed b'"
    using small by (simp add: ensure.simps newBuffer_def beginSentence_def available_def Let_def sampleTools_def sampleSentence_def)
  moreover have "tl_skippable sampleTools []" by (simp add: sampleTools_def)
  ultimately show ?thesis
    using speech_complete [of sampleTools "[]" "[NextSentence sampleSentence]" 1 6 "Fin 0"]
    by (auto simp: ensureAll_def newBuffer_def) (simp_all add: sampleTools_def sampleSentence_def)
qed

end
