(* ===== verification/Narration.thy ===== *)
theory Narration
  imports Speech_Buffer Tts_Request
begin

text \<open>
  \<^verbatim>\<open>frontend/src/hooks/useTTS.ts\<close> with \<^verbatim>\<open>useTTSSleepTimer.ts\<close> and \<^verbatim>\<open>useTTSForegroundResume.ts\<close>: the hook that turns
  a book into a continuous narration. It takes chunks from a speech buffer, hands them to the player one
  after the other, prepares further chunks while one is playing, and reacts to the user, to the player and
  to the page becoming visible.

  The references of the hook are a record. An \<^verbatim>\<open>async\<close> function runs up to its next \<^verbatim>\<open>await\<close> and leaves a
  \<open>suspension\<close> with what it needs to go on; functions that wait for another function of the hook are the
  \<open>frame\<close>s of that wait. Promises that are settled already continue at once. What the player, the storage,
  the wake lock and the speech buffer are told is the list of \<open>command\<close>s; what they answer are events.
  A call of \<^verbatim>\<open>backendTTS.pause\<close> or \<^verbatim>\<open>stop\<close> reports the new state to the hook at once, as \<^verbatim>\<open>setState\<close> does.
  Not modelled: the texts of the status line, diagnostics, and the highlighting of the current mark in the
  page, of which only the request is recorded.
\<close>

section \<open>State\<close>

datatype narrState = StoppedN | PlayingN | PausedN

record ttsSettings =
  st_rate :: real
  st_voiceName :: ustring
  st_style :: "ustring option"
  st_bySentence :: bool

text \<open>A chunk as an object: the number distinguishes chunks of equal content.\<close>

type_synonym piece = "nat \<times> audioChunk"

datatype frame =
    AdvanceFrame nat
  | BeginFrame nat
  | BeginWake nat
  | ResumePlay nat
  | ResumeAdvance nat
  | ResumeBegin nat
  | ResumeWake nat

record playing =
  py_piece :: piece
  py_operation :: nat
  py_ssml :: ustring
  py_fallback :: bool
  py_retried :: bool
  py_attempt :: nat
  py_controller :: nat
  py_frames :: "frame list"

record filling =
  fl_entry :: nat
  fl_generation :: nat
  fl_source :: nat
  fl_ratio :: real
  fl_seconds :: real
  fl_index :: nat

text \<open>The stages of a jump; \<open>Adjacent\<close> knows whether the sentence before the buffer was looked up already.\<close>

datatype jumpStage = FirstPrevious | Adjacent bool nat | SecondPrevious nat | Target

datatype suspension =
    WFill filling
  | WAdvanceFill nat nat "frame list"
  | WAdvanceChunk nat nat "frame list"
  | WBeginChunk nat "frame list"
  | WSpeak playing
  | WRetry playing
  | WResumeAudio nat
  | WWake "frame list"
  | WJump nat nat bool jumpStage

datatype command =
    Speak nat piece ustring
  | PlayerResume
  | PlayerPause
  | PlayerStop
  | BeginSession
  | ClearPreloadQueueOnly
  | ClearPreload
  | PreloadMultiple "ustring list"
  | SetSettings ttsSettings
  | OpenSource nat "ustring option"
  | DisposeSource nat
  | ReadChunk nat nat real
  | ReadAdjacent nat nat bool
  | ReadPreviousCFI ustring
  | SaveSession bool
  | ClearSession
  | RequestWakeLock
  | ReleaseWakeLock
  | Highlight

record narr =
  na_operation :: nat
  na_generation :: nat
  na_wants :: bool
  na_source :: "nat option"
  na_sources :: nat
  na_current :: "piece option"
  na_pending :: "piece list"
  na_pieces :: nat
  na_filling :: "(nat \<times> nat) option"
  na_entries :: nat
  na_controller :: "nat option"
  na_controllers :: nat
  na_aborted :: "nat list"
  na_advancing :: "nat option"
  na_resuming :: "nat option"
  na_measured :: "nat option"
  na_ratios :: "ustring \<times> real \<times> ustring option \<rightharpoonup> real"
  na_settings :: ttsSettings
  na_mark :: "speechMark option"
  na_highlighted :: bool
  na_preparing :: bool
  na_prompt :: bool
  na_state :: narrState
  na_sleep :: "(real \<times> real) option"
  na_sleepTimeout :: bool
  na_waits :: "suspension list"
  na_commands :: "command list"

text \<open>What the hook reads from its surroundings: the time, whether the page is visible, the player's answers,
  whether the document can be narrated, the saved and the current position, the first index the speech
  buffer still has, and the markup of the plain text of a chunk.\<close>

record surroundings =
  en_now :: real
  en_visible :: bool
  en_hasCurrentAudio :: bool
  en_hasEnded :: bool
  en_needsResume :: bool
  en_supported :: bool
  en_savedCfi :: "ustring option"
  en_lastCfi :: "ustring option"
  en_firstIndex :: nat
  en_plainSSML :: "ustring \<Rightarrow> ustring"

definition narr_init :: "ttsSettings \<Rightarrow> narr" where
  "narr_init settings = \<lparr>na_operation = 0, na_generation = 0, na_wants = False, na_source = None, na_sources = 0,
     na_current = None, na_pending = [], na_pieces = 0, na_filling = None, na_entries = 0, na_controller = None,
     na_controllers = 0, na_aborted = [], na_advancing = None, na_resuming = None, na_measured = None, na_ratios = Map.empty,
     na_settings = settings, na_mark = None, na_highlighted = False, na_preparing = False, na_prompt = False,
     na_state = StoppedN, na_sleep = None, na_sleepTimeout = False, na_waits = [], na_commands = []\<rparr>"

section \<open>Small operations\<close>

definition tell :: "command \<Rightarrow> narr \<Rightarrow> narr" where
  "tell c s = s\<lparr>na_commands := na_commands s @ [c]\<rparr>"

definition await :: "suspension \<Rightarrow> narr \<Rightarrow> narr" where
  "await w s = s\<lparr>na_waits := na_waits s @ [w]\<rparr>"

definition abortRetries :: "narr \<Rightarrow> narr" where
  "abortRetries s = s\<lparr>na_aborted := (case na_controller s of None \<Rightarrow> na_aborted s | Some k \<Rightarrow> k # na_aborted s),
     na_controller := None\<rparr>"

text \<open>The state change the player reports.\<close>

definition playerState :: "narrState \<Rightarrow> narr \<Rightarrow> narr" where
  "playerState st s =
    (let s1 = s\<lparr>na_state := st\<rparr>;
         s2 = (if st \<noteq> StoppedN then tell (SaveSession False) s1 else s1) in
     if st = PausedN then tell ReleaseWakeLock s2 else s2)"

definition setPlayerState :: "narrState \<Rightarrow> narr \<Rightarrow> narr" where
  "setPlayerState st s = (if na_state s = st then s else playerState st s)"

definition backendPause :: "narr \<Rightarrow> narr" where
  "backendPause s = setPlayerState PausedN (tell PlayerPause s)"

definition backendStop :: "narr \<Rightarrow> narr" where
  "backendStop s = setPlayerState StoppedN (tell PlayerStop s)"

definition dismissResumePrompt :: "narr \<Rightarrow> narr" where
  "dismissResumePrompt s = s\<lparr>na_prompt := False\<rparr>"

definition synthesisKey :: "narr \<Rightarrow> ustring \<times> real \<times> ustring option" where
  "synthesisKey s = (st_voiceName (na_settings s), st_rate (na_settings s), st_style (na_settings s))"

definition ratioOf :: "narr \<Rightarrow> real" where
  "ratioOf s = (case na_ratios s (synthesisKey s) of Some r \<Rightarrow> r | None \<Rightarrow> 1)"

definition calibratedTarget :: "real \<Rightarrow> narr \<Rightarrow> real" where
  "calibratedTarget seconds s = seconds / ratioOf s"

definition TTS_CHUNK_SECONDS :: real where "TTS_CHUNK_SECONDS = 90"
definition TTS_BUFFER_SECONDS :: real where "TTS_BUFFER_SECONDS = 180"

section \<open>Stopping and pausing\<close>

definition clearSleepTimerTimeout :: "narr \<Rightarrow> narr" where
  "clearSleepTimerTimeout s = s\<lparr>na_sleepTimeout := False\<rparr>"

definition clearSleepTimer :: "narr \<Rightarrow> narr" where
  "clearSleepTimer s = (clearSleepTimerTimeout s)\<lparr>na_sleep := None\<rparr>"

definition setSleepTimerForMinutes :: "real \<Rightarrow> real \<Rightarrow> narr \<Rightarrow> narr" where
  "setSleepTimerForMinutes minutes now s =
    (clearSleepTimerTimeout s)\<lparr>na_sleep := Some (minutes, now + minutes * 60 * 1000), na_sleepTimeout := True\<rparr>"

definition resetBuffer :: "narr \<Rightarrow> narr" where
  "resetBuffer s =
    (let s1 = (abortRetries s)\<lparr>na_preparing := False, na_generation := na_generation s + 1, na_operation := na_operation s + 1,
           na_advancing := None, na_resuming := None\<rparr>;
         s2 = (case na_source s1 of None \<Rightarrow> s1 | Some k \<Rightarrow> tell (DisposeSource k) s1);
         s3 = s2\<lparr>na_source := None, na_current := None, na_pending := [], na_filling := None, na_measured := None,
           na_highlighted := False\<rparr> in
     tell ClearPreloadQueueOnly (backendStop s3))"

definition stopNarration :: "narr \<Rightarrow> narr" where
  "stopNarration s =
    (let s1 = tell ClearSession (clearSleepTimer (resetBuffer (s\<lparr>na_wants := False\<rparr>))) in
     tell ReleaseWakeLock ((dismissResumePrompt s1)\<lparr>na_mark := None\<rparr>))"

definition pauseNarration :: "narr \<Rightarrow> narr" where
  "pauseNarration s =
    (let s1 = (abortRetries s)\<lparr>na_preparing := False, na_wants := False, na_operation := na_operation s + 1,
           na_advancing := None, na_resuming := None\<rparr> in
     tell ReleaseWakeLock (tell (SaveSession True) (dismissResumePrompt (backendPause s1))))"

text \<open>\<^verbatim>\<open>sleepExpired\<close>: whether the time has come, and the state after stopping in that case.\<close>

definition sleepDue :: "real \<Rightarrow> narr \<Rightarrow> bool" where
  "sleepDue now s \<longleftrightarrow> (case na_sleep s of None \<Rightarrow> False | Some (minutes, endsAt) \<Rightarrow> endsAt \<noteq> 0 \<and> endsAt \<le> now)"

definition sleepStop :: "narr \<Rightarrow> narr" where
  "sleepStop s = clearSleepTimer (stopNarration s)"

section \<open>Returning from an asynchronous function\<close>

definition endAdvance :: "nat \<Rightarrow> narr \<Rightarrow> narr" where
  "endAdvance op s = (if na_advancing s = Some op then s\<lparr>na_advancing := None\<rparr> else s)"

definition endPreparing :: "nat \<Rightarrow> narr \<Rightarrow> narr" where
  "endPreparing op s = (if op = na_operation s then s\<lparr>na_preparing := False\<rparr> else s)"

definition endResume :: "nat \<Rightarrow> narr \<Rightarrow> narr" where
  "endResume op s = (if na_resuming s = Some op then s\<lparr>na_resuming := None\<rparr> else s)"

fun unwind :: "bool \<Rightarrow> frame list \<Rightarrow> narr \<Rightarrow> narr" where
  "unwind ok [] s = s"
| "unwind ok (AdvanceFrame op # fs) s = unwind True fs (endAdvance op s)"
| "unwind ok (BeginFrame op # fs) s =
    (if ok then await (WWake (BeginWake op # fs)) (tell RequestWakeLock s) else unwind True fs (endPreparing op s))"
| "unwind ok (BeginWake op # fs) s = unwind True fs (endPreparing op s)"
| "unwind ok (ResumePlay op # fs) s =
    (if \<not> ok then unwind True fs (endResume op s)
     else if op \<noteq> na_operation s \<or> na_state s \<noteq> PlayingN then unwind True fs (endResume op s)
     else await (WWake (ResumeWake op # fs)) (tell RequestWakeLock (dismissResumePrompt s)))"
| "unwind ok (ResumeAdvance op # fs) s =
    (if op \<noteq> na_operation s \<or> na_state s \<noteq> PlayingN then unwind True fs (endResume op s)
     else await (WWake (ResumeWake op # fs)) (tell RequestWakeLock (dismissResumePrompt s)))"
| "unwind ok (ResumeBegin op # fs) s = unwind True fs (endResume op s)"
| "unwind ok (ResumeWake op # fs) s = unwind True fs (endResume op (tell Highlight s))"

section \<open>Playing a chunk\<close>

definition activeFor :: "nat \<Rightarrow> narr \<Rightarrow> bool" where
  "activeFor op s \<longleftrightarrow> op = na_operation s \<and> na_wants s"

definition playReturn :: "bool \<Rightarrow> playing \<Rightarrow> narr \<Rightarrow> narr" where
  "playReturn ok p s =
    (let s1 = (if na_controller s = Some (py_controller p) then s\<lparr>na_controller := None\<rparr> else s) in
     unwind ok (py_frames p) (endPreparing (py_operation p) s1))"

text \<open>One turn of the loop of \<^verbatim>\<open>retryTTSRequest\<close>.\<close>

definition speakAttempt :: "playing \<Rightarrow> narr \<Rightarrow> narr" where
  "speakAttempt p s =
    (if py_controller p \<in> set (na_aborted s) then playReturn False p s
     else await (WSpeak p) (tell (Speak (na_generation s) (py_piece p) (py_ssml p)) s))"

definition playLoop :: "real \<Rightarrow> playing \<Rightarrow> narr \<Rightarrow> narr" where
  "playLoop now p s =
    (if \<not> activeFor (py_operation p) s then playReturn False p s
     else if sleepDue now s then playReturn False p (sleepStop s)
     else speakAttempt p s)"

definition playChunk :: "real \<Rightarrow> piece \<Rightarrow> nat \<Rightarrow> frame list \<Rightarrow> narr \<Rightarrow> narr" where
  "playChunk now c op frames s =
    (let s1 = abortRetries (s\<lparr>na_current := Some c\<rparr>);
         s2 = s1\<lparr>na_controller := Some (na_controllers s), na_controllers := na_controllers s + 1, na_preparing := True\<rparr> in
     playLoop now \<lparr>py_piece = c, py_operation = op, py_ssml = ck_ssml (snd c), py_fallback = False, py_retried = False,
       py_attempt = 0, py_controller = na_controllers s, py_frames = frames\<rparr> s2)"

text \<open>An error that \<^verbatim>\<open>retryTTSRequest\<close> throws into the loop of \<^verbatim>\<open>playChunk\<close>.\<close>

definition playThrown :: "surroundings \<Rightarrow> js_error \<Rightarrow> playing \<Rightarrow> narr \<Rightarrow> narr" where
  "playThrown e err p s =
    (if \<not> activeFor (py_operation p) s \<or> classifyTTSError err = Cancelled then playReturn False p s
     else if \<not> py_fallback p \<and> classifyTTSError err = InvalidSsml
     then playLoop (en_now e) (p\<lparr>py_fallback := True, py_ssml := en_plainSSML e (ck_ssml (snd (py_piece p))), py_attempt := 0\<rparr>) s
     else playReturn False p ((tell (SaveSession True) (backendPause s))\<lparr>na_prompt := True\<rparr>))"

section \<open>Advancing to the next chunk\<close>

definition advancePlay :: "real \<Rightarrow> nat \<Rightarrow> frame list \<Rightarrow> piece \<Rightarrow> narr \<Rightarrow> narr" where
  "advancePlay now op frames c s = playChunk now c op (AdvanceFrame op # frames) s"

definition advanceGot :: "real \<Rightarrow> nat \<Rightarrow> frame list \<Rightarrow> piece option \<Rightarrow> narr \<Rightarrow> narr" where
  "advanceGot now op frames c s =
    (if \<not> activeFor op s then unwind True (AdvanceFrame op # frames) s
     else case c of
       None \<Rightarrow> unwind True (AdvanceFrame op # frames) (stopNarration s)
     | Some p \<Rightarrow> advancePlay now op frames p s)"

definition nextIndex :: "piece option \<Rightarrow> nat" where
  "nextIndex c = (case c of None \<Rightarrow> 0 | Some p \<Rightarrow> ck_endIndex (snd p) + 1)"

definition advanceGo :: "real \<Rightarrow> nat \<Rightarrow> frame list \<Rightarrow> narr \<Rightarrow> narr" where
  "advanceGo now op frames s =
    (if \<not> activeFor op s then unwind True (AdvanceFrame op # frames) s
     else case na_pending s of
       c # cs \<Rightarrow> advanceGot now op frames (Some c) (s\<lparr>na_pending := cs\<rparr>)
     | [] \<Rightarrow>
        (case na_source s of
           None \<Rightarrow> advanceGot now op frames None s
         | Some k \<Rightarrow> await (WAdvanceChunk op (nextIndex (na_current s)) frames)
             (tell (ReadChunk k (nextIndex (na_current s)) (calibratedTarget TTS_CHUNK_SECONDS s)) s)))"

definition advance :: "real \<Rightarrow> frame list \<Rightarrow> narr \<Rightarrow> narr" where
  "advance now frames s =
    (if na_advancing s \<noteq> None \<or> \<not> na_wants s then unwind True frames s
     else if sleepDue now s then unwind True frames (sleepStop s)
     else
      (let op = na_operation s; s1 = s\<lparr>na_advancing := Some op\<rparr> in
       case (na_pending s, na_filling s) of
         ([], Some (_, entry)) \<Rightarrow> await (WAdvanceFill op entry frames) s1
       | _ \<Rightarrow> advanceGo now op frames s1))"

text \<open>The error branch of \<^verbatim>\<open>advance\<close>.\<close>

definition advanceFailed :: "nat \<Rightarrow> frame list \<Rightarrow> narr \<Rightarrow> narr" where
  "advanceFailed op frames s =
    unwind True (AdvanceFrame op # frames) (if op \<noteq> na_operation s then s else (backendPause s)\<lparr>na_prompt := True\<rparr>)"

section \<open>Preparing further chunks\<close>

definition takeWaits :: "(suspension \<Rightarrow> bool) \<Rightarrow> narr \<Rightarrow> suspension list \<times> narr" where
  "takeWaits f s = (filter f (na_waits s), s\<lparr>na_waits := filter (\<lambda>w. \<not> f w) (na_waits s)\<rparr>)"

fun waitsForFill :: "nat \<Rightarrow> suspension \<Rightarrow> bool" where
  "waitsForFill entry (WAdvanceFill op en fs) = (en = entry)"
| "waitsForFill entry _ = False"

fun goOn :: "real \<Rightarrow> suspension \<Rightarrow> narr \<Rightarrow> narr" where
  "goOn now (WAdvanceFill op en fs) s = advanceGo now op fs s"
| "goOn now _ s = s"

text \<open>The promise of a fill settles: the reference is cleared, and whoever waits for it goes on.\<close>

definition clearFilling :: "nat \<Rightarrow> narr \<Rightarrow> narr" where
  "clearFilling entry s = (case na_filling s of Some (g, en) \<Rightarrow> (if en = entry then s\<lparr>na_filling := None\<rparr> else s) | None \<Rightarrow> s)"

definition settleFill :: "real \<Rightarrow> nat \<Rightarrow> narr \<Rightarrow> narr" where
  "settleFill now entry s =
    (case takeWaits (waitsForFill entry) (clearFilling entry s) of (ws, s1) \<Rightarrow> fold (goOn now) ws s1)"

definition fillDone :: "real \<Rightarrow> filling \<Rightarrow> narr \<Rightarrow> narr" where
  "fillDone now f s = settleFill now (fl_entry f)
    (if fl_generation f = na_generation s then tell (PreloadMultiple (map (\<lambda>p. ck_ssml (snd p)) (na_pending s))) s else s)"

text \<open>One turn of the loop of \<^verbatim>\<open>fill\<close>.\<close>

definition lastPiece :: "narr \<Rightarrow> piece option" where
  "lastPiece s = (if na_pending s \<noteq> [] then Some (last (na_pending s)) else na_current s)"

definition fillLoop :: "real \<Rightarrow> filling \<Rightarrow> narr \<Rightarrow> narr" where
  "fillLoop now f s =
    (if fl_seconds f < TTS_BUFFER_SECONDS \<and> na_source s = Some (fl_source f) \<and> fl_generation f = na_generation s
     then case lastPiece s of
         None \<Rightarrow> settleFill now (fl_entry f) s
       | Some p \<Rightarrow> await (WFill (f\<lparr>fl_index := nextIndex (Some p)\<rparr>))
           (tell (ReadChunk (fl_source f) (nextIndex (Some p)) (calibratedTarget TTS_CHUNK_SECONDS s)) s)
     else fillDone now f s)"

definition preloadBuffer :: "real \<Rightarrow> narr \<Rightarrow> narr" where
  "preloadBuffer now s =
    (case (na_source s, na_current s) of
       (Some k, Some c) \<Rightarrow>
        (if (case na_filling s of Some (g, _) \<Rightarrow> g = na_generation s | None \<Rightarrow> False) then s
         else fillLoop now \<lparr>fl_entry = na_entries s, fl_generation = na_generation s, fl_source = k, fl_ratio = ratioOf s,
             fl_seconds = sum_list (map (\<lambda>p. ck_seconds (snd p) * ratioOf s) (na_pending s)), fl_index = 0\<rparr>
           (s\<lparr>na_filling := Some (na_generation s, na_entries s), na_entries := na_entries s + 1\<rparr>))
     | _ \<Rightarrow> s)"

text \<open>The answer of the speech buffer to a fill: a chunk, nothing, or an error.\<close>

definition fillGot :: "real \<Rightarrow> filling \<Rightarrow> (unit + piece option) \<Rightarrow> narr \<Rightarrow> narr" where
  "fillGot now f r s =
    (case r of
       Inl _ \<Rightarrow> settleFill now (fl_entry f) s
     | Inr None \<Rightarrow> fillDone now f s
     | Inr (Some p) \<Rightarrow>
        (if fl_generation f \<noteq> na_generation s then fillDone now f s
         else fillLoop now (f\<lparr>fl_seconds := fl_seconds f + ck_seconds (snd p) * fl_ratio f\<rparr>)
           (s\<lparr>na_pending := na_pending s @ [p]\<rparr>)))"

section \<open>The answer of the player to a chunk\<close>

definition playSucceeded :: "surroundings \<Rightarrow> playing \<Rightarrow> narr \<Rightarrow> narr" where
  "playSucceeded e p s =
    (if \<not> activeFor (py_operation p) s then playReturn False p s
     else playReturn True p (preloadBuffer (en_now e) (dismissResumePrompt s)))"

definition speakAnswered :: "surroundings \<Rightarrow> (js_error + unit) \<Rightarrow> playing \<Rightarrow> narr \<Rightarrow> narr" where
  "speakAnswered e r p s =
    (if py_controller p \<in> set (na_aborted s) then playThrown e cancelled p s
     else case r of
       Inr _ \<Rightarrow> playSucceeded e p s
     | Inl err \<Rightarrow>
        (if giveUp (py_attempt p) err then playThrown e err p s
         else await (WRetry (p\<lparr>py_retried := True\<rparr>)) s))"

text \<open>The delay before a repeated request is over, or was cut short by an abort.\<close>

definition retryElapsed :: "surroundings \<Rightarrow> playing \<Rightarrow> narr \<Rightarrow> narr" where
  "retryElapsed e p s =
    (if py_controller p \<in> set (na_aborted s) then playThrown e cancelled p s
     else speakAttempt (p\<lparr>py_attempt := py_attempt p + 1\<rparr>) s)"

section \<open>Starting, resuming and jumping\<close>

definition orElse :: "ustring option \<Rightarrow> ustring option \<Rightarrow> ustring option" where
  "orElse a b = (case a of Some x \<Rightarrow> (if x = [] then b else Some x) | None \<Rightarrow> b)"

definition beginNarration :: "surroundings \<Rightarrow> ustring option \<Rightarrow> frame list \<Rightarrow> narr \<Rightarrow> narr" where
  "beginNarration e fromCFI frames s =
    (if \<not> en_supported e then unwind True frames s
     else
      (let s1 = (tell BeginSession (resetBuffer s))\<lparr>na_wants := True\<rparr>;
           k = na_sources s1;
           s2 = tell (OpenSource k (orElse (orElse fromCFI (en_savedCfi e)) (en_lastCfi e)))
             (s1\<lparr>na_source := Some k, na_sources := k + 1, na_preparing := True\<rparr>) in
       await (WBeginChunk (na_operation s1) frames)
         (tell (ReadChunk k 0 (calibratedTarget TTS_FIRST_CHUNK_SECONDS s2)) s2)))"

definition beginGot :: "real \<Rightarrow> nat \<Rightarrow> frame list \<Rightarrow> (unit + piece option) \<Rightarrow> narr \<Rightarrow> narr" where
  "beginGot now op frames r s =
    (case r of
       Inl _ \<Rightarrow> unwind True (BeginWake op # frames)
         (if op \<noteq> na_operation s then s else (backendPause s)\<lparr>na_prompt := True\<rparr>)
     | Inr c \<Rightarrow>
        (if \<not> activeFor op s then unwind True (BeginWake op # frames) s
         else case c of
           None \<Rightarrow> unwind True (BeginWake op # frames) (stopNarration s)
         | Some p \<Rightarrow> playChunk now p op (BeginFrame op # frames) s))"

definition resumeNarration :: "surroundings \<Rightarrow> narr \<Rightarrow> narr" where
  "resumeNarration e s =
    (if na_resuming s \<noteq> None then s
     else if sleepDue (en_now e) s then sleepStop s
     else
      (let s1 = s\<lparr>na_wants := True\<rparr> in
       if na_state s1 = PlayingN \<and> \<not> en_needsResume e \<and> \<not> en_hasEnded e then s1
       else
        (let op = na_operation s1 + 1; s2 = s1\<lparr>na_operation := op, na_resuming := Some op\<rparr> in
         if en_hasCurrentAudio e then await (WResumeAudio op) (tell PlayerResume s2)
         else if en_hasEnded e then advance (en_now e) [ResumeAdvance op] s2
         else case na_current s2 of
           Some c \<Rightarrow> playChunk (en_now e) c op [ResumePlay op] s2
         | None \<Rightarrow> beginNarration e None [ResumeBegin op] s2)))"

text \<open>\<^verbatim>\<open>backendTTS.resume()\<close> resolves, with the player in the state it reports then, or rejects.\<close>

definition resumeAnswered :: "nat \<Rightarrow> bool \<Rightarrow> narr \<Rightarrow> narr" where
  "resumeAnswered op ok s =
    (if ok then unwind True [ResumeAdvance op] s
     else unwind True [ResumeBegin op] (if op \<noteq> na_operation s then s else (backendPause s)\<lparr>na_prompt := True\<rparr>))"

definition startNarration :: "surroundings \<Rightarrow> narr \<Rightarrow> narr" where
  "startNarration e s =
    (if na_preparing s \<or> na_state s = PlayingN \<and> \<not> en_needsResume e then pauseNarration s
     else if na_state s = PausedN \<or> na_current s \<noteq> None then resumeNarration e s
     else beginNarration e None [] s)"

section \<open>Jumping by sentence\<close>

text \<open>\<^verbatim>\<open>mark.sentenceCfi || mark.cfi\<close>, if it is not empty.\<close>

definition markCfi :: "narr \<Rightarrow> ustring option" where
  "markCfi s = (case na_mark s of
     None \<Rightarrow> None
   | Some m \<Rightarrow> orElse (Some (sk_sentenceCfi m)) (orElse (Some (sk_cfi m)) None))"

definition jumpFailed :: "nat \<Rightarrow> narr \<Rightarrow> narr" where
  "jumpFailed op s = (if op = na_operation s then s\<lparr>na_prompt := True\<rparr> else s)"

definition jumpTarget :: "nat \<Rightarrow> nat \<Rightarrow> bool \<Rightarrow> nat \<Rightarrow> narr \<Rightarrow> narr" where
  "jumpTarget op k back index s =
    await (WJump op k back Target) (tell (ReadChunk k index (calibratedTarget TTS_FIRST_CHUNK_SECONDS s)) s)"

definition jumpAdjacent :: "nat \<Rightarrow> nat \<Rightarrow> bool \<Rightarrow> bool \<Rightarrow> narr \<Rightarrow> narr" where
  "jumpAdjacent op k back checked s =
    (case (na_mark s, na_current s) of
       (Some m, _) \<Rightarrow> await (WJump op k back (Adjacent checked (sk_sentenceIndex m))) (tell (ReadAdjacent k (sk_sentenceIndex m) back) s)
     | (None, Some c) \<Rightarrow> await (WJump op k back (Adjacent checked (ck_startIndex (snd c)))) (tell (ReadAdjacent k (ck_startIndex (snd c)) back) s)
     | (None, None) \<Rightarrow> jumpFailed op s)"

definition jumpReset :: "narr \<Rightarrow> narr" where
  "jumpReset s =
    (let s1 = (abortRetries s)\<lparr>na_operation := na_operation s + 1, na_generation := na_generation s + 1, na_filling := None,
           na_advancing := None, na_resuming := None, na_wants := True\<rparr> in
     tell (SaveSession True) (tell ClearPreloadQueueOnly ((backendPause s1)\<lparr>na_pending := []\<rparr>)))"

definition jump :: "bool \<Rightarrow> surroundings \<Rightarrow> narr \<Rightarrow> narr" where
  "jump back e s =
    (case (na_source s, na_current s) of
       (Some k, Some c) \<Rightarrow>
        (let s1 = jumpReset s; op = na_operation s1 in
         if back \<and> (case na_mark s1 of Some m \<Rightarrow> sk_sentenceIndex m | None \<Rightarrow> 0) \<le> en_firstIndex e
         then case markCfi s1 of
             Some cfi \<Rightarrow> await (WJump op k back FirstPrevious) (tell (ReadPreviousCFI cfi) s1)
           | None \<Rightarrow> jumpAdjacent op k back True s1
         else jumpAdjacent op k back False s1)
     | _ \<Rightarrow> s)"

definition jumpPreviousGot :: "surroundings \<Rightarrow> nat \<Rightarrow> nat \<Rightarrow> bool \<Rightarrow> nat option \<Rightarrow> ustring option \<Rightarrow> narr \<Rightarrow> narr" where
  "jumpPreviousGot e op k back index previous s =
    (if op \<noteq> na_operation s then s
     else case orElse previous None of
       Some cfi \<Rightarrow> beginNarration e (Some cfi) [] s
     | None \<Rightarrow> (case index of None \<Rightarrow> jumpAdjacent op k back True s | Some i \<Rightarrow> jumpTarget op k back i s))"

definition jumpAdjacentGot :: "nat \<Rightarrow> nat \<Rightarrow> bool \<Rightarrow> bool \<Rightarrow> nat \<Rightarrow> nat option \<Rightarrow> narr \<Rightarrow> narr" where
  "jumpAdjacentGot op k back checked current adjacent s =
    (if op \<noteq> na_operation s then s
     else case adjacent of
       Some i \<Rightarrow> jumpTarget op k back i s
     | None \<Rightarrow>
        (if \<not> back then stopNarration s
         else if checked then jumpTarget op k back current s
         else case markCfi s of
             Some cfi \<Rightarrow> await (WJump op k back (SecondPrevious current)) (tell (ReadPreviousCFI cfi) s)
           | None \<Rightarrow> jumpTarget op k back current s))"

definition jumpTargetGot :: "real \<Rightarrow> nat \<Rightarrow> piece option \<Rightarrow> narr \<Rightarrow> narr" where
  "jumpTargetGot now op c s =
    (if op \<noteq> na_operation s then s
     else case c of Some p \<Rightarrow> playChunk now p op [] s | None \<Rightarrow> stopNarration s)"

section \<open>Settings, the player's reports and the page\<close>

definition updateSettings :: "surroundings \<Rightarrow> ttsSettings \<Rightarrow> narr \<Rightarrow> narr" where
  "updateSettings e updated s =
    (let previous = na_settings s in
     if updated = previous then s
     else
      (let s1 = tell (SaveSession True) (tell (SetSettings updated) (s\<lparr>na_settings := updated\<rparr>)) in
       if st_voiceName previous = st_voiceName updated \<and> st_rate previous = st_rate updated \<and> st_style previous = st_style updated
       then tell Highlight (s1\<lparr>na_highlighted := False\<rparr>)
       else if na_wants s1 then beginNarration e None [] s1
       else if na_state s1 = PausedN then backendPause (resetBuffer s1)
       else s1))"

definition markChanged :: "speechMark \<Rightarrow> nat \<Rightarrow> bool \<Rightarrow> narr \<Rightarrow> narr" where
  "markChanged m index visible s =
    (let s1 = tell (SaveSession (index = 0)) (s\<lparr>na_mark := Some m\<rparr>) in if visible then tell Highlight s1 else s1)"

definition observedRatio :: "real \<Rightarrow> audioChunk \<Rightarrow> real" where
  "observedRatio duration c = max (1 / 2) (min 2 (duration / ck_seconds c))"

definition timeUpdated :: "real \<Rightarrow> real \<Rightarrow> narr \<Rightarrow> narr" where
  "timeUpdated now duration s =
    (let s1 = (case na_current s of
         Some (k, c) \<Rightarrow>
          (if na_measured s \<noteq> Some k \<and> 0 < duration \<and> 0 < ck_seconds c
           then s\<lparr>na_measured := Some k, na_ratios := (na_ratios s)(synthesisKey s \<mapsto>
             (case na_ratios s (synthesisKey s) of
                None \<Rightarrow> observedRatio duration c
              | Some prior \<Rightarrow> 7 / 10 * prior + 3 / 10 * observedRatio duration c))\<rparr>
           else s)
       | None \<Rightarrow> s) in
     if sleepDue now s1 then sleepStop s1 else s1)"

definition unmountNarration :: "narr \<Rightarrow> narr" where
  "unmountNarration s =
    tell ReleaseWakeLock (clearSleepTimerTimeout (tell ClearPreload (resetBuffer (tell (SaveSession True) (s\<lparr>na_wants := False\<rparr>)))))"

definition foregroundResume :: "surroundings \<Rightarrow> narr \<Rightarrow> narr" where
  "foregroundResume e s =
    (if \<not> en_visible e \<or> \<not> na_wants s \<or> na_controller s \<noteq> None then s
     else if sleepDue (en_now e) s then sleepStop s
     else
      (let s1 = tell Highlight (tell (SaveSession False) s) in
       if en_needsResume e \<or> na_state s1 = PausedN \<or> en_hasEnded e then resumeNarration e s1
       else if na_state s1 = PlayingN then tell RequestWakeLock s1 else s1))"

definition narrationHidden :: "narr \<Rightarrow> narr" where
  "narrationHidden s =
    tell ReleaseWakeLock (tell (SaveSession True) (if na_state s = PlayingN then s\<lparr>na_wants := True\<rparr> else s))"

definition sleepTimeout :: "narr \<Rightarrow> narr" where
  "sleepTimeout s = (if na_sleepTimeout s then stopNarration (clearSleepTimer s) else s)"

definition gestureResume :: "surroundings \<Rightarrow> narr \<Rightarrow> narr" where
  "gestureResume e s = (if na_prompt s \<and> na_wants s then foregroundResume e s else s)"

section \<open>Events\<close>

datatype answer =
    GotChunk "unit + audioChunk option"
  | GotSpeech "js_error + unit"
  | GotIndex "unit + nat option"
  | GotCfi "unit + ustring option"
  | Resumed bool
  | Elapsed
  | WakeSettled

datatype event =
    NStart surroundings
  | NResume surroundings
  | NPause
  | NStop
  | NJump bool surroundings
  | NSettings surroundings ttsSettings
  | NSleepFor real real
  | NSleepClear
  | NSleepTimeout
  | NState narrState
  | NMark speechMark nat bool
  | NEnded real
  | NTrigger real
  | NTime real real
  | NForeground surroundings
  | NGesture surroundings
  | NHidden
  | NFreeze
  | NUnmount
  | NAnswer nat answer surroundings

text \<open>A chunk that arrives is a new object.\<close>

definition newPiece :: "audioChunk option \<Rightarrow> narr \<Rightarrow> piece option \<times> narr" where
  "newPiece c s = (map_option (Pair (na_pieces s)) c, s\<lparr>na_pieces := na_pieces s + 1\<rparr>)"

fun chunkGot :: "real \<Rightarrow> suspension \<Rightarrow> (unit + audioChunk option) \<Rightarrow> narr \<Rightarrow> narr" where
  "chunkGot now (WFill f) r s = (case r of Inl u \<Rightarrow> fillGot now f (Inl u) s
     | Inr c \<Rightarrow> (case newPiece c s of (p, s1) \<Rightarrow> fillGot now f (Inr p) s1))"
| "chunkGot now (WAdvanceChunk op i fs) r s = (case r of Inl u \<Rightarrow> advanceFailed op fs s
     | Inr c \<Rightarrow> (case newPiece c s of (p, s1) \<Rightarrow> advanceGot now op fs p s1))"
| "chunkGot now (WBeginChunk op fs) r s = (case r of Inl u \<Rightarrow> beginGot now op fs (Inl u) s
     | Inr c \<Rightarrow> (case newPiece c s of (p, s1) \<Rightarrow> beginGot now op fs (Inr p) s1))"
| "chunkGot now (WJump op k back st) r s = (case r of Inl u \<Rightarrow> jumpFailed op s
     | Inr c \<Rightarrow> (case newPiece c s of (p, s1) \<Rightarrow> jumpTargetGot now op p s1))"
| "chunkGot now _ r s = s"

text \<open>Which answers fit a wait.\<close>

fun fits :: "suspension \<Rightarrow> answer \<Rightarrow> bool" where
  "fits (WFill f) a = (case a of GotChunk _ \<Rightarrow> True | _ \<Rightarrow> False)"
| "fits (WAdvanceChunk op i fs) a = (case a of GotChunk _ \<Rightarrow> True | _ \<Rightarrow> False)"
| "fits (WBeginChunk op fs) a = (case a of GotChunk _ \<Rightarrow> True | _ \<Rightarrow> False)"
| "fits (WSpeak p) a = (case a of GotSpeech _ \<Rightarrow> True | _ \<Rightarrow> False)"
| "fits (WRetry p) a = (a = Elapsed)"
| "fits (WResumeAudio op) a = (case a of Resumed _ \<Rightarrow> True | _ \<Rightarrow> False)"
| "fits (WWake fs) a = (a = WakeSettled)"
| "fits (WJump op k back Target) a = (case a of GotChunk _ \<Rightarrow> True | _ \<Rightarrow> False)"
| "fits (WJump op k back (Adjacent ch i)) a = (case a of GotIndex _ \<Rightarrow> True | _ \<Rightarrow> False)"
| "fits (WJump op k back FirstPrevious) a = (case a of GotCfi _ \<Rightarrow> True | _ \<Rightarrow> False)"
| "fits (WJump op k back (SecondPrevious i)) a = (case a of GotCfi _ \<Rightarrow> True | _ \<Rightarrow> False)"
| "fits (WAdvanceFill op en fs) a = False"

fun answered :: "surroundings \<Rightarrow> suspension \<Rightarrow> answer \<Rightarrow> narr \<Rightarrow> narr" where
  "answered e w (GotChunk r) s = chunkGot (en_now e) w r s"
| "answered e (WSpeak p) (GotSpeech r) s = speakAnswered e r p s"
| "answered e (WRetry p) Elapsed s = retryElapsed e p s"
| "answered e (WResumeAudio op) (Resumed ok) s = resumeAnswered op ok s"
| "answered e (WWake fs) WakeSettled s = unwind True fs s"
| "answered e (WJump op k back (Adjacent ch i)) (GotIndex r) s =
    (case r of Inl u \<Rightarrow> jumpFailed op s | Inr a \<Rightarrow> jumpAdjacentGot op k back ch i a s)"
| "answered e (WJump op k back FirstPrevious) (GotCfi r) s =
    (case r of Inl u \<Rightarrow> jumpFailed op s | Inr c \<Rightarrow> jumpPreviousGot e op k back None c s)"
| "answered e (WJump op k back (SecondPrevious i)) (GotCfi r) s =
    (case r of Inl u \<Rightarrow> jumpFailed op s | Inr c \<Rightarrow> jumpPreviousGot e op k back (Some i) c s)"
| "answered e _ _ s = s"

text \<open>The answer to one of the waits, given by its position.\<close>

definition answerStep :: "surroundings \<Rightarrow> nat \<Rightarrow> answer \<Rightarrow> narr \<Rightarrow> narr" where
  "answerStep e i a s =
    (if i < length (na_waits s) \<and> fits (na_waits s ! i) a
     then answered e (na_waits s ! i) a (s\<lparr>na_waits := take i (na_waits s) @ drop (Suc i) (na_waits s)\<rparr>)
     else s)"

fun narr_step :: "event \<Rightarrow> narr \<Rightarrow> narr" where
  "narr_step (NStart e) s = startNarration e s"
| "narr_step (NResume e) s = resumeNarration e s"
| "narr_step NPause s = pauseNarration s"
| "narr_step NStop s = stopNarration s"
| "narr_step (NJump back e) s = jump back e s"
| "narr_step (NSettings e st) s = updateSettings e st s"
| "narr_step (NSleepFor minutes now) s = setSleepTimerForMinutes minutes now s"
| "narr_step NSleepClear s = clearSleepTimer s"
| "narr_step NSleepTimeout s = sleepTimeout s"
| "narr_step (NState st) s = setPlayerState st s"
| "narr_step (NMark m i v) s = markChanged m i v s"
| "narr_step (NEnded now) s = advance now [] s"
| "narr_step (NTrigger now) s = preloadBuffer now s"
| "narr_step (NTime now d) s = timeUpdated now d s"
| "narr_step (NForeground e) s = foregroundResume e s"
| "narr_step (NGesture e) s = gestureResume e s"
| "narr_step NHidden s = narrationHidden s"
| "narr_step NFreeze s = tell (SaveSession True) s"
| "narr_step NUnmount s = unmountNarration s"
| "narr_step (NAnswer k a e) s = answerStep e k a s"

definition narr_run :: "event list \<Rightarrow> narr \<Rightarrow> narr" where
  "narr_run es s = fold narr_step es s"


section \<open>Silence after a pause or stop\<close>

fun isStart :: "command \<Rightarrow> bool" where
  "isStart (Speak g p x) = True"
| "isStart PlayerResume = True"
| "isStart _ = False"

text \<open>The requests that make the player sound, in the order they were made.\<close>

definition started :: "narr \<Rightarrow> command list" where
  "started s = filter isStart (na_commands s)"

text \<open>What a wait may still do while nothing is wanted: a request to the player was aborted, a jump is outdated.\<close>

fun harmless :: "nat list \<Rightarrow> nat \<Rightarrow> suspension \<Rightarrow> bool" where
  "harmless ab oper (WSpeak p) \<longleftrightarrow> py_controller p \<in> set ab"
| "harmless ab oper (WRetry p) \<longleftrightarrow> py_controller p \<in> set ab"
| "harmless ab oper (WJump op k back st) \<longleftrightarrow> op < oper"
| "harmless ab oper _ \<longleftrightarrow> True"

definition calm :: "command list \<Rightarrow> narr \<Rightarrow> bool" where
  "calm n s \<longleftrightarrow> \<not> na_wants s \<and> na_state s \<noteq> PlayingN \<and> list_all (\<lambda>w. harmless (na_aborted s) (na_operation s) w) (na_waits s) \<and>
     started s = n"

lemma harmless_mono:
  "harmless ab oper w \<Longrightarrow> set ab \<subseteq> set ab' \<Longrightarrow> oper \<le> oper' \<Longrightarrow> harmless ab' oper' w"
  by (cases w) auto

lemma calm_fields:
  assumes "calm n s" and "na_wants s' = na_wants s" and "na_state s' \<noteq> PlayingN" and "na_waits s' = na_waits s"
    and "set (na_aborted s) \<subseteq> set (na_aborted s')" and "na_operation s \<le> na_operation s'" and "started s' = started s"
  shows "calm n s'"
  using assms harmless_mono by (fastforce simp: calm_def list_all_iff)

named_theorems calm_rules

lemma started_tell [simp]: "started (tell c s) = started s @ (if isStart c then [c] else [])"
  by (simp add: started_def tell_def)

lemma tell_fields [simp]:
  "na_state (tell c s) = na_state s" "na_wants (tell c s) = na_wants s" "na_waits (tell c s) = na_waits s" "na_aborted (tell c s) = na_aborted s"
  "na_operation (tell c s) = na_operation s" "na_generation (tell c s) = na_generation s" "na_source (tell c s) = na_source s"
  "na_current (tell c s) = na_current s" "na_pending (tell c s) = na_pending s" "na_filling (tell c s) = na_filling s"
  "na_controller (tell c s) = na_controller s" "na_advancing (tell c s) = na_advancing s" "na_sleep (tell c s) = na_sleep s"
  "na_sources (tell c s) = na_sources s" "na_resuming (tell c s) = na_resuming s" "na_controllers (tell c s) = na_controllers s"
  "na_entries (tell c s) = na_entries s" "na_mark (tell c s) = na_mark s"
  "na_pieces (tell c s) = na_pieces s" "na_settings (tell c s) = na_settings s"
  by (simp_all add: tell_def)

lemma playerState_fields [simp]:
  "na_wants (setPlayerState st s) = na_wants s" "na_waits (setPlayerState st s) = na_waits s"
  "na_aborted (setPlayerState st s) = na_aborted s" "na_operation (setPlayerState st s) = na_operation s"
  "na_generation (setPlayerState st s) = na_generation s" "na_source (setPlayerState st s) = na_source s"
  "na_current (setPlayerState st s) = na_current s" "na_pending (setPlayerState st s) = na_pending s"
  "na_filling (setPlayerState st s) = na_filling s" "na_controller (setPlayerState st s) = na_controller s"
  "na_advancing (setPlayerState st s) = na_advancing s" "na_sleep (setPlayerState st s) = na_sleep s"
  "na_sources (setPlayerState st s) = na_sources s" "na_resuming (setPlayerState st s) = na_resuming s"
  "na_controllers (setPlayerState st s) = na_controllers s" "na_entries (setPlayerState st s) = na_entries s"
  "na_mark (setPlayerState st s) = na_mark s"
  "na_pieces (setPlayerState st s) = na_pieces s" "na_settings (setPlayerState st s) = na_settings s"
  by (simp_all add: setPlayerState_def playerState_def Let_def)

lemma backendPause_fields [simp]:
  "na_wants (backendPause s) = na_wants s" "na_waits (backendPause s) = na_waits s" "na_aborted (backendPause s) = na_aborted s"
  "na_operation (backendPause s) = na_operation s" "na_generation (backendPause s) = na_generation s"
  "na_source (backendPause s) = na_source s" "na_current (backendPause s) = na_current s" "na_pending (backendPause s) = na_pending s"
  "na_filling (backendPause s) = na_filling s" "na_controller (backendPause s) = na_controller s"
  "na_advancing (backendPause s) = na_advancing s" "na_sleep (backendPause s) = na_sleep s" "na_sources (backendPause s) = na_sources s"
  "na_resuming (backendPause s) = na_resuming s" "na_controllers (backendPause s) = na_controllers s"
  "na_entries (backendPause s) = na_entries s" "na_mark (backendPause s) = na_mark s"
  "na_pieces (backendPause s) = na_pieces s" "na_settings (backendPause s) = na_settings s"
  by (simp_all add: backendPause_def)

lemma backendStop_fields [simp]:
  "na_wants (backendStop s) = na_wants s" "na_waits (backendStop s) = na_waits s" "na_aborted (backendStop s) = na_aborted s"
  "na_operation (backendStop s) = na_operation s" "na_generation (backendStop s) = na_generation s"
  "na_source (backendStop s) = na_source s" "na_current (backendStop s) = na_current s" "na_pending (backendStop s) = na_pending s"
  "na_filling (backendStop s) = na_filling s" "na_controller (backendStop s) = na_controller s"
  "na_advancing (backendStop s) = na_advancing s" "na_sleep (backendStop s) = na_sleep s" "na_sources (backendStop s) = na_sources s"
  "na_resuming (backendStop s) = na_resuming s" "na_controllers (backendStop s) = na_controllers s"
  "na_entries (backendStop s) = na_entries s" "na_mark (backendStop s) = na_mark s"
  "na_pieces (backendStop s) = na_pieces s" "na_settings (backendStop s) = na_settings s"
  by (simp_all add: backendStop_def)

lemma started_upd [simp]:
  "started (s\<lparr>na_operation := a\<rparr>) = started s" "started (s\<lparr>na_generation := a\<rparr>) = started s" "started (s\<lparr>na_wants := b\<rparr>) = started s"
  "started (s\<lparr>na_source := c\<rparr>) = started s" "started (s\<lparr>na_sources := a\<rparr>) = started s" "started (s\<lparr>na_current := d\<rparr>) = started s"
  "started (s\<lparr>na_pending := e\<rparr>) = started s" "started (s\<lparr>na_pieces := a\<rparr>) = started s" "started (s\<lparr>na_filling := f\<rparr>) = started s"
  "started (s\<lparr>na_entries := a\<rparr>) = started s" "started (s\<lparr>na_controller := c\<rparr>) = started s" "started (s\<lparr>na_controllers := a\<rparr>) = started s"
  "started (s\<lparr>na_aborted := g\<rparr>) = started s" "started (s\<lparr>na_advancing := c\<rparr>) = started s" "started (s\<lparr>na_resuming := c\<rparr>) = started s"
  "started (s\<lparr>na_measured := c\<rparr>) = started s" "started (s\<lparr>na_ratios := h\<rparr>) = started s" "started (s\<lparr>na_settings := i\<rparr>) = started s"
  "started (s\<lparr>na_mark := j\<rparr>) = started s" "started (s\<lparr>na_highlighted := b\<rparr>) = started s" "started (s\<lparr>na_preparing := b\<rparr>) = started s"
  "started (s\<lparr>na_prompt := b\<rparr>) = started s" "started (s\<lparr>na_state := k\<rparr>) = started s" "started (s\<lparr>na_sleep := l\<rparr>) = started s"
  "started (s\<lparr>na_sleepTimeout := b\<rparr>) = started s" "started (s\<lparr>na_waits := m\<rparr>) = started s"
  by (simp_all add: started_def)

lemma abort_operation [simp]: "na_operation (abortRetries s) = na_operation s"
  by (simp add: abortRetries_def)

lemma calm_tell [calm_rules]: "calm n s \<Longrightarrow> \<not> isStart c \<Longrightarrow> calm n (tell c s)"
  by (simp add: calm_def)

lemma calm_await [calm_rules]: "calm n s \<Longrightarrow> harmless (na_aborted s) (na_operation s) w \<Longrightarrow> calm n (await w s)"
  by (simp add: calm_def await_def started_def)

lemma calm_upd [calm_rules]:
  assumes "calm n s"
  shows "calm n (s\<lparr>na_generation := a\<rparr>)" "calm n (s\<lparr>na_source := c\<rparr>)" "calm n (s\<lparr>na_current := d\<rparr>)" "calm n (s\<lparr>na_pending := e\<rparr>)"
    "calm n (s\<lparr>na_pieces := a\<rparr>)" "calm n (s\<lparr>na_filling := f\<rparr>)" "calm n (s\<lparr>na_entries := a\<rparr>)" "calm n (s\<lparr>na_controller := c\<rparr>)"
    "calm n (s\<lparr>na_advancing := c\<rparr>)" "calm n (s\<lparr>na_resuming := c\<rparr>)" "calm n (s\<lparr>na_measured := c\<rparr>)" "calm n (s\<lparr>na_ratios := h\<rparr>)"
    "calm n (s\<lparr>na_settings := i\<rparr>)" "calm n (s\<lparr>na_mark := j\<rparr>)" "calm n (s\<lparr>na_highlighted := b\<rparr>)" "calm n (s\<lparr>na_preparing := b\<rparr>)"
    "calm n (s\<lparr>na_prompt := b\<rparr>)" "calm n (s\<lparr>na_sleep := l\<rparr>)" "calm n (s\<lparr>na_sleepTimeout := b\<rparr>)" "calm n (s\<lparr>na_wants := False\<rparr>)"
    "calm n (s\<lparr>na_waits := filter q (na_waits s)\<rparr>)"
  using assms by (auto simp: calm_def list_all_iff)

lemma calm_operation [calm_rules]: "calm n s \<Longrightarrow> na_operation s \<le> a \<Longrightarrow> calm n (s\<lparr>na_operation := a\<rparr>)"
  by (rule calm_fields) (auto simp: calm_def)

lemma calm_abort [calm_rules]: "calm n s \<Longrightarrow> calm n (abortRetries s)"
  unfolding abortRetries_def by (rule calm_fields) (auto simp: calm_def split: option.splits)

lemma calm_state [calm_rules]: "calm n s \<Longrightarrow> st \<noteq> PlayingN \<Longrightarrow> calm n (setPlayerState st s)"
  by (auto simp: setPlayerState_def playerState_def Let_def calm_def)

lemma calm_backend [calm_rules]: "calm n s \<Longrightarrow> calm n (backendPause s)" "calm n s \<Longrightarrow> calm n (backendStop s)"
  by (simp_all add: backendPause_def backendStop_def calm_rules)

lemma calm_sleep [calm_rules]: "calm n s \<Longrightarrow> calm n (clearSleepTimer s)" "calm n s \<Longrightarrow> calm n (clearSleepTimerTimeout s)"
  "calm n s \<Longrightarrow> calm n (dismissResumePrompt s)"
  by (simp_all add: clearSleepTimer_def clearSleepTimerTimeout_def dismissResumePrompt_def calm_rules)

lemma calm_reset [calm_rules]: "calm n s \<Longrightarrow> calm n (resetBuffer s)"
  by (auto simp: resetBuffer_def Let_def calm_rules abort_operation split: option.splits)

lemma calm_stop [calm_rules]: "calm n s \<Longrightarrow> calm n (stopNarration s)"
  by (simp add: stopNarration_def Let_def calm_rules)

lemma calm_ends [calm_rules]: "calm n s \<Longrightarrow> calm n (endAdvance op s)" "calm n s \<Longrightarrow> calm n (endPreparing op s)"
  "calm n s \<Longrightarrow> calm n (endResume op s)" "calm n s \<Longrightarrow> calm n (sleepStop s)"
  by (simp_all add: endAdvance_def endPreparing_def endResume_def sleepStop_def calm_rules)

lemma calm_unwind [calm_rules]: "calm n s \<Longrightarrow> calm n (unwind ok fs s)"
  by (induction ok fs s rule: unwind.induct) (simp_all add: calm_rules)

lemma calm_not_active: "calm n s \<Longrightarrow> \<not> activeFor op s"
  by (simp add: calm_def activeFor_def)

lemma calm_play [calm_rules]:
  "calm n s \<Longrightarrow> calm n (playReturn ok p s)" "calm n s \<Longrightarrow> calm n (playThrown e err p s)"
  "calm n s \<Longrightarrow> calm n (advanceGot now op fs c s)" "calm n s \<Longrightarrow> calm n (advanceGo now op fs s)"
  "calm n s \<Longrightarrow> calm n (advance now fs s)" "calm n s \<Longrightarrow> calm n (advanceFailed op fs s)"
  by (simp_all add: playReturn_def playThrown_def advanceGot_def advanceGo_def advance_def advanceFailed_def Let_def
      calm_not_active calm_rules) (simp add: calm_def)

lemma calm_goOn [calm_rules]: "calm n s \<Longrightarrow> calm n (goOn now w s)"
  by (cases w) (simp_all add: calm_rules)

lemma calm_fold: "calm n s \<Longrightarrow> calm n (fold (goOn now) ws s)"
  by (induction ws arbitrary: s) (simp_all add: calm_rules)

lemma calm_take: "calm n s \<Longrightarrow> calm n (snd (takeWaits f s))"
  by (simp add: takeWaits_def calm_rules)

lemma calm_clear: "calm n s \<Longrightarrow> calm n (clearFilling en s)"
  by (auto simp: clearFilling_def calm_rules split: option.splits)

lemma calm_fill [calm_rules]:
  "calm n s \<Longrightarrow> calm n (settleFill now en s)" "calm n s \<Longrightarrow> calm n (fillDone now f s)" "calm n s \<Longrightarrow> calm n (fillLoop now f s)"
  "calm n s \<Longrightarrow> calm n (fillGot now f r s)" "calm n s \<Longrightarrow> calm n (preloadBuffer now s)"
proof -
  have settle: "calm n s \<Longrightarrow> calm n (settleFill now en s)" for now en s
    unfolding settleFill_def case_prod_beta by (intro calm_fold calm_take calm_clear)
  then have don: "calm n s \<Longrightarrow> calm n (fillDone now f s)" for now f s by (simp add: fillDone_def calm_rules)
  have loop: "calm n s \<Longrightarrow> calm n (fillLoop now f s)" for now f s
    using settle don by (auto simp: fillLoop_def calm_rules split: option.splits)
  show "calm n s \<Longrightarrow> calm n (settleFill now en s)" "calm n s \<Longrightarrow> calm n (fillDone now f s)" "calm n s \<Longrightarrow> calm n (fillLoop now f s)"
    "calm n s \<Longrightarrow> calm n (fillGot now f r s)" "calm n s \<Longrightarrow> calm n (preloadBuffer now s)"
    using settle don loop by (auto simp: fillGot_def preloadBuffer_def calm_rules split: option.splits sum.splits)
qed

lemma calm_speak [calm_rules]:
  "calm n s \<Longrightarrow> py_controller p \<in> set (na_aborted s) \<Longrightarrow> calm n (speakAnswered e r p s)"
  "calm n s \<Longrightarrow> py_controller p \<in> set (na_aborted s) \<Longrightarrow> calm n (retryElapsed e p s)"
  by (simp_all add: speakAnswered_def retryElapsed_def calm_rules)

lemma calm_begin [calm_rules]: "calm n s \<Longrightarrow> calm n (beginGot now op fs r s)" "calm n s \<Longrightarrow> calm n (resumeAnswered op ok s)"
  by (auto simp: beginGot_def resumeAnswered_def calm_not_active calm_rules split: sum.splits)

lemma calm_jump [calm_rules]:
  assumes "calm n s" and "op < na_operation s"
  shows "calm n (jumpPreviousGot e op k back i c s)" "calm n (jumpAdjacentGot op k back ch j a s)" "calm n (jumpTargetGot now op d s)"
    "calm n (jumpFailed op s)"
  using assms by (simp_all add: jumpPreviousGot_def jumpAdjacentGot_def jumpTargetGot_def jumpFailed_def)

lemma calm_answered:
  assumes "calm n s" and "harmless (na_aborted s) (na_operation s) w"
  shows "calm n (answered e w a s)"
proof -
  have "calm n (chunkGot now w r s)" for now r
    using assms by (cases w) (auto simp: newPiece_def calm_rules split: sum.splits)
  then show ?thesis using assms
    by (cases "(e, w, a, s)" rule: answered.cases) (auto simp: calm_rules split: sum.splits)
qed

text \<open>Events that do not ask for playback. That the player does not start to play by itself is shown for the
  player in \<open>Tts_Playback\<close>.\<close>

fun quietEvent :: "event \<Rightarrow> bool" where
  "quietEvent (NStart e) = False"
| "quietEvent (NResume e) = False"
| "quietEvent (NJump back e) = False"
| "quietEvent (NState st) = (st \<noteq> PlayingN)"
| "quietEvent _ = True"

lemma calm_step: "calm n s \<Longrightarrow> quietEvent ev \<Longrightarrow> calm n (narr_step ev s)"
proof (cases ev)
  case (NAnswer k a e)
  assume c: "calm n s"
  have "calm n (s\<lparr>na_waits := take k (na_waits s) @ drop (Suc k) (na_waits s)\<rparr>)"
    using c by (auto simp: calm_def list_all_iff dest: in_set_takeD in_set_dropD)
  moreover have "harmless (na_aborted s) (na_operation s) (na_waits s ! k)" if "k < length (na_waits s)"
    using c that by (auto simp: calm_def list_all_length)
  ultimately show ?thesis using c NAnswer by (auto simp: answerStep_def intro!: calm_answered)
next
  case (NTime now d)
  assume "calm n s"
  then show ?thesis using NTime by (auto simp: timeUpdated_def Let_def calm_rules split: option.splits)
next
  case (NForeground e)
  assume "calm n s"
  then show ?thesis using NForeground by (simp add: foregroundResume_def calm_def)
next
  case (NGesture e)
  assume "calm n s"
  then show ?thesis using NGesture by (simp add: gestureResume_def calm_def)
next
  case NHidden
  assume c: "calm n s"
  then have "na_state s \<noteq> PlayingN" by (simp add: calm_def)
  then show ?thesis using c NHidden by (simp add: narrationHidden_def calm_rules)
next
  case (NSettings e st)
  assume c: "calm n s"
  then have "\<not> na_wants s" by (simp add: calm_def)
  then show ?thesis using c NSettings by (simp add: updateSettings_def Let_def calm_rules)
next
  case NPause
  assume "calm n s"
  then show ?thesis using NPause by (simp add: pauseNarration_def Let_def calm_rules)
qed (auto simp: sleepTimeout_def markChanged_def setSleepTimerForMinutes_def unmountNarration_def Let_def calm_rules)

lemma calm_run: "calm n s \<Longrightarrow> list_all quietEvent es \<Longrightarrow> calm n (narr_run es s)"
  unfolding narr_run_def by (induction es arbitrary: s) (auto intro: calm_step)

section \<open>Every request under way can be aborted\<close>

fun controllerOf :: "suspension \<Rightarrow> nat list" where
  "controllerOf (WSpeak p) = [py_controller p]"
| "controllerOf (WRetry p) = [py_controller p]"
| "controllerOf _ = []"

fun jumpOf :: "suspension \<Rightarrow> nat" where
  "jumpOf (WJump op k back st) = op"
| "jumpOf _ = 0"

definition controllers :: "suspension list \<Rightarrow> nat list" where
  "controllers ws = concat (map controllerOf ws)"

definition abortable :: "narr \<Rightarrow> nat \<Rightarrow> bool" where
  "abortable s c \<longleftrightarrow> c < na_controllers s \<and> (c \<in> set (na_aborted s) \<or> na_controller s = Some c)"

definition tidy :: "narr \<Rightarrow> bool" where
  "tidy s \<longleftrightarrow> distinct (controllers (na_waits s)) \<and> list_all (abortable s) (controllers (na_waits s)) \<and>
     (\<forall>c. na_controller s = Some c \<longrightarrow> c < na_controllers s) \<and> list_all (\<lambda>c. c < na_controllers s) (na_aborted s) \<and>
     list_all (\<lambda>w. jumpOf w \<le> na_operation s) (na_waits s)"

text \<open>A function that continues after its wait was removed still owns its controller.\<close>

definition owns :: "nat \<Rightarrow> narr \<Rightarrow> bool" where
  "owns c s \<longleftrightarrow> tidy s \<and> c \<notin> set (controllers (na_waits s)) \<and> abortable s c"

lemma controllers_append [simp]: "controllers (ws @ vs) = controllers ws @ controllers vs" "controllers [w] = controllerOf w"
  by (simp_all add: controllers_def)

lemma controllers_filter: "set (controllers (filter q ws)) \<subseteq> set (controllers ws)"
  "distinct (controllers ws) \<Longrightarrow> distinct (controllers (filter q ws))"
proof -
  show "set (controllers (filter q ws)) \<subseteq> set (controllers ws)" for ws by (auto simp: controllers_def)
  then show "distinct (controllers ws) \<Longrightarrow> distinct (controllers (filter q ws))"
    by (induction ws) (auto simp: controllers_def subset_eq)
qed

named_theorems tidy_rules

lemma tidy_upd [tidy_rules]:
  assumes "tidy s"
  shows "tidy (s\<lparr>na_generation := a\<rparr>)" "tidy (s\<lparr>na_source := c\<rparr>)" "tidy (s\<lparr>na_current := d\<rparr>)" "tidy (s\<lparr>na_pending := e\<rparr>)"
    "tidy (s\<lparr>na_pieces := a\<rparr>)" "tidy (s\<lparr>na_filling := f\<rparr>)" "tidy (s\<lparr>na_entries := a\<rparr>)" "tidy (s\<lparr>na_sources := a\<rparr>)"
    "tidy (s\<lparr>na_advancing := c\<rparr>)" "tidy (s\<lparr>na_resuming := c\<rparr>)" "tidy (s\<lparr>na_measured := c\<rparr>)" "tidy (s\<lparr>na_ratios := h\<rparr>)"
    "tidy (s\<lparr>na_settings := i\<rparr>)" "tidy (s\<lparr>na_mark := j\<rparr>)" "tidy (s\<lparr>na_highlighted := b\<rparr>)" "tidy (s\<lparr>na_preparing := b\<rparr>)"
    "tidy (s\<lparr>na_prompt := b\<rparr>)" "tidy (s\<lparr>na_sleep := l\<rparr>)" "tidy (s\<lparr>na_sleepTimeout := b\<rparr>)" "tidy (s\<lparr>na_wants := b\<rparr>)"
    "tidy (s\<lparr>na_state := k\<rparr>)"
  using assms by (auto simp: tidy_def abortable_def cong: list.pred_cong)

lemma tidy_tell [tidy_rules]: "tidy s \<Longrightarrow> tidy (tell c s)"
  by (auto simp: tidy_def abortable_def cong: list.pred_cong)

lemma tidy_operation [tidy_rules]: "tidy s \<Longrightarrow> na_operation s \<le> a \<Longrightarrow> tidy (s\<lparr>na_operation := a\<rparr>)"
  by (auto simp: tidy_def abortable_def list_all_iff)

lemma tidy_await [tidy_rules]:
  "tidy s \<Longrightarrow> controllerOf w = [] \<Longrightarrow> jumpOf w \<le> na_operation s \<Longrightarrow> tidy (await w s)"
  by (auto simp: tidy_def abortable_def list_all_iff await_def)

lemma tidy_await_speak: "owns c s \<Longrightarrow> controllerOf w = [c] \<Longrightarrow> jumpOf w = 0 \<Longrightarrow> tidy (await w s)"
  by (auto simp: owns_def tidy_def abortable_def list_all_iff await_def)

lemma tidy_forget [tidy_rules]: "tidy s \<Longrightarrow> tidy (s\<lparr>na_waits := filter q (na_waits s)\<rparr>)"
  using controllers_filter [where ws = "na_waits s" and q = q] by (auto simp: tidy_def abortable_def list_all_iff)

lemma tidy_abort [tidy_rules]: "tidy s \<Longrightarrow> tidy (abortRetries s)"
  by (auto simp: tidy_def abortable_def list_all_iff abortRetries_def split: option.splits)

lemma tidy_state [tidy_rules]: "tidy s \<Longrightarrow> tidy (setPlayerState st s)" "tidy s \<Longrightarrow> tidy (backendPause s)"
  "tidy s \<Longrightarrow> tidy (backendStop s)"
  by (simp_all add: backendPause_def backendStop_def setPlayerState_def playerState_def Let_def tidy_rules)

lemma tidy_ends [tidy_rules]: "tidy s \<Longrightarrow> tidy (endAdvance op s)" "tidy s \<Longrightarrow> tidy (endPreparing op s)" "tidy s \<Longrightarrow> tidy (endResume op s)"
  "tidy s \<Longrightarrow> tidy (clearSleepTimer s)" "tidy s \<Longrightarrow> tidy (clearSleepTimerTimeout s)" "tidy s \<Longrightarrow> tidy (dismissResumePrompt s)"
  by (simp_all add: endAdvance_def endPreparing_def endResume_def clearSleepTimer_def clearSleepTimerTimeout_def
      dismissResumePrompt_def tidy_rules)

lemma tidy_reset [tidy_rules]: "tidy s \<Longrightarrow> tidy (resetBuffer s)"
  by (auto simp: resetBuffer_def Let_def tidy_rules split: option.splits)

lemma tidy_stop [tidy_rules]: "tidy s \<Longrightarrow> tidy (stopNarration s)" "tidy s \<Longrightarrow> tidy (sleepStop s)" "tidy s \<Longrightarrow> tidy (pauseNarration s)"
  by (simp_all add: stopNarration_def sleepStop_def pauseNarration_def Let_def tidy_rules)

lemma tidy_unwind [tidy_rules]: "tidy s \<Longrightarrow> tidy (unwind ok fs s)"
  by (induction ok fs s rule: unwind.induct) (simp_all add: tidy_rules)

lemma controllers_stop [simp]: "na_waits (sleepStop s) = na_waits s" "na_controllers (sleepStop s) = na_controllers s"
  by (auto simp: sleepStop_def stopNarration_def resetBuffer_def clearSleepTimer_def clearSleepTimerTimeout_def abortRetries_def dismissResumePrompt_def Let_def split: option.splits)

lemma aborted_stop: "c \<in> set (na_aborted s) \<or> na_controller s = Some c \<Longrightarrow> c \<in> set (na_aborted (sleepStop s))"
  by (auto simp: sleepStop_def stopNarration_def resetBuffer_def clearSleepTimer_def clearSleepTimerTimeout_def abortRetries_def dismissResumePrompt_def Let_def split: option.splits)

lemma tidy_playReturn [tidy_rules]: "tidy s \<Longrightarrow> py_controller p \<notin> set (controllers (na_waits s)) \<Longrightarrow> tidy (playReturn ok p s)"
proof -
  assume a: "tidy s" "py_controller p \<notin> set (controllers (na_waits s))"
  then have "na_controller s = Some (py_controller p) \<Longrightarrow> tidy (s\<lparr>na_controller := None\<rparr>)"
    by (auto simp: tidy_def abortable_def list_all_iff)
  then show ?thesis using a by (simp add: playReturn_def Let_def tidy_rules)
qed

lemma owns_tell: "owns c s \<Longrightarrow> owns c (tell x s)"
  by (auto simp: owns_def tidy_rules abortable_def)

lemma owns_sleepStop: "owns c s \<Longrightarrow> owns c (sleepStop s)"
  using aborted_stop by (auto simp: owns_def tidy_rules abortable_def)

lemma tidy_attempt: "owns (py_controller p) s \<Longrightarrow> tidy (speakAttempt p s)"
  by (auto simp: speakAttempt_def owns_def tidy_playReturn intro!: tidy_await_speak [where c = "py_controller p"])
    (auto simp: owns_def tidy_rules abortable_def)

lemma tidy_loop: "owns (py_controller p) s \<Longrightarrow> tidy (playLoop now p s)"
  using tidy_attempt owns_sleepStop [of "py_controller p" s]
  by (auto simp: playLoop_def owns_def intro!: tidy_playReturn)

lemma tidy_playChunk [tidy_rules]: "tidy s \<Longrightarrow> tidy (playChunk now c op fs s)"
proof -
  let ?s = "(abortRetries (s\<lparr>na_current := Some c\<rparr>))\<lparr>na_controller := Some (na_controllers s),
    na_controllers := na_controllers s + 1, na_preparing := True\<rparr>"
  assume "tidy s"
  then have "owns (na_controllers s) ?s"
    by (auto simp: owns_def tidy_def abortable_def list_all_iff abortRetries_def less_Suc_eq split: option.splits)
  then show ?thesis using tidy_loop by (auto simp: playChunk_def Let_def)
qed

lemma tidy_thrown: "owns (py_controller p) s \<Longrightarrow> tidy (playThrown e err p s)"
proof -
  assume o: "owns (py_controller p) s"
  then have "owns (py_controller (p\<lparr>py_fallback := True, py_ssml := x, py_attempt := 0\<rparr>)) s" for x by simp
  from tidy_loop [OF this] show ?thesis using o
    by (auto simp: playThrown_def owns_def intro!: tidy_rules)
qed

lemma tidy_advance [tidy_rules]:
  "tidy s \<Longrightarrow> tidy (advanceGot now op fs c s)" "tidy s \<Longrightarrow> tidy (advanceGo now op fs s)"
  "tidy s \<Longrightarrow> tidy (advance now fs s)" "tidy s \<Longrightarrow> tidy (advanceFailed op fs s)"
proof -
  have got: "tidy s \<Longrightarrow> tidy (advanceGot now op fs c s)" for op fs c s
    by (auto simp: advanceGot_def advancePlay_def tidy_rules split: option.splits)
  then have go: "tidy s \<Longrightarrow> tidy (advanceGo now op fs s)" for op fs s
    by (auto simp: advanceGo_def tidy_rules split: list.splits option.splits)
  show "tidy s \<Longrightarrow> tidy (advanceGot now op fs c s)" "tidy s \<Longrightarrow> tidy (advanceGo now op fs s)" "tidy s \<Longrightarrow> tidy (advanceFailed op fs s)"
    using got go by (simp_all add: advanceFailed_def tidy_rules)
  show "tidy s \<Longrightarrow> tidy (advance now fs s)"
    using go by (auto simp: advance_def Let_def tidy_rules split: list.splits option.splits)
qed

lemma tidy_fold: "tidy s \<Longrightarrow> tidy (fold (goOn now) ws s)"
proof (induction ws arbitrary: s)
  case (Cons w ws)
  then show ?case by (cases w) (auto intro: tidy_rules)
qed simp

lemma tidy_settle [tidy_rules]: "tidy s \<Longrightarrow> tidy (settleFill now en s)"
proof -
  have "tidy s \<Longrightarrow> tidy (clearFilling en s)" "tidy s \<Longrightarrow> tidy (snd (takeWaits f s))" for s f
    by (auto simp: clearFilling_def takeWaits_def tidy_rules split: option.splits)
  then show "tidy s \<Longrightarrow> ?thesis" unfolding settleFill_def case_prod_beta by (intro tidy_fold) blast
qed

lemma tidy_fill [tidy_rules]:
  "tidy s \<Longrightarrow> tidy (fillDone now f s)" "tidy s \<Longrightarrow> tidy (fillLoop now f s)"
  "tidy s \<Longrightarrow> tidy (fillGot now f r s)" "tidy s \<Longrightarrow> tidy (preloadBuffer now s)"
proof -
  have don: "tidy s \<Longrightarrow> tidy (fillDone now f s)" for now f s by (simp add: fillDone_def tidy_rules)
  then have loop: "tidy s \<Longrightarrow> tidy (fillLoop now f s)" for now f s by (auto simp: fillLoop_def tidy_rules split: option.splits)
  show "tidy s \<Longrightarrow> tidy (fillDone now f s)" "tidy s \<Longrightarrow> tidy (fillLoop now f s)"
    "tidy s \<Longrightarrow> tidy (fillGot now f r s)" "tidy s \<Longrightarrow> tidy (preloadBuffer now s)"
    using don loop by (auto simp: fillGot_def preloadBuffer_def tidy_rules split: option.splits sum.splits)
qed

text \<open>A controller without a wait gets none back by what others do: new waits for the player have new controllers.\<close>

definition free :: "nat \<Rightarrow> narr \<Rightarrow> bool" where
  "free c s \<longleftrightarrow> c < na_controllers s \<and> c \<notin> set (controllers (na_waits s))"

named_theorems free_rules

lemma free_fields: "free c s \<Longrightarrow> na_waits s' = na_waits s \<Longrightarrow> na_controllers s' = na_controllers s \<Longrightarrow> free c s'"
  by (simp add: free_def)

lemma free_small [free_rules]:
  assumes "free c s"
  shows "free c (tell x s)" "free c (endAdvance op s)" "free c (endPreparing op s)" "free c (endResume op s)"
    "free c (dismissResumePrompt s)" "free c (stopNarration s)" "free c (sleepStop s)" "free c (abortRetries s)"
    "free c (s\<lparr>na_current := d\<rparr>)" "free c (s\<lparr>na_pending := e\<rparr>)" "free c (s\<lparr>na_controller := f\<rparr>)" "free c (clearFilling en s)"
    "free c (s\<lparr>na_filling := g\<rparr>)" "free c (s\<lparr>na_entries := i\<rparr>)"
  by (rule free_fields [OF assms]; auto simp: endAdvance_def endPreparing_def endResume_def dismissResumePrompt_def stopNarration_def
      sleepStop_def resetBuffer_def clearSleepTimer_def clearSleepTimerTimeout_def abortRetries_def clearFilling_def Let_def
      split: option.splits)+

lemma free_await [free_rules]: "free c s \<Longrightarrow> c \<notin> set (controllerOf w) \<Longrightarrow> free c (await w s)"
  by (simp add: free_def await_def)

lemma free_unwind [free_rules]: "free c s \<Longrightarrow> free c (unwind ok fs s)"
  by (induction ok fs s rule: unwind.induct) (simp_all add: free_rules)

lemma free_playReturn [free_rules]: "free c s \<Longrightarrow> free c (playReturn ok p s)"
  by (simp add: playReturn_def Let_def free_rules)

lemma free_playChunk [free_rules]: "free c s \<Longrightarrow> free c (playChunk now d op fs s)"
proof -
  let ?s = "(abortRetries (s\<lparr>na_current := Some d\<rparr>))\<lparr>na_controller := Some (na_controllers s),
    na_controllers := na_controllers s + 1, na_preparing := True\<rparr>"
  assume a: "free c s"
  then have "free c ?s" "c \<noteq> na_controllers s" by (simp_all add: free_def abortRetries_def)
  then show ?thesis by (simp add: playChunk_def playLoop_def speakAttempt_def Let_def free_rules)
qed

lemma free_goOn: "free c s \<Longrightarrow> free c (goOn now w s)"
  by (cases w) (auto simp: advanceGo_def advanceGot_def advancePlay_def free_rules split: list.splits option.splits)

lemma free_fold: "free c s \<Longrightarrow> free c (fold (goOn now) ws s)"
  by (induction ws arbitrary: s) (simp_all add: free_goOn)

lemma free_settle [free_rules]: "free c s \<Longrightarrow> free c (settleFill now en s)"
proof -
  have "free c s \<Longrightarrow> free c (snd (takeWaits f s))" for s f
    using controllers_filter(1) by (auto simp: takeWaits_def free_def)
  then show "free c s \<Longrightarrow> ?thesis" unfolding settleFill_def case_prod_beta by (intro free_fold) (simp add: free_rules)
qed

lemma free_preload [free_rules]: "free c s \<Longrightarrow> free c (preloadBuffer now s)"
  by (auto simp: preloadBuffer_def fillLoop_def fillDone_def free_rules split: option.splits)

lemma owns_free: "owns c s \<Longrightarrow> free c s"
  by (simp add: owns_def free_def abortable_def)

lemma tidy_speak [tidy_rules]:
  assumes o: "owns (py_controller p) s"
  shows "tidy (speakAnswered e r p s)" "tidy (retryElapsed e p s)"
proof -
  have t: "tidy s" using o by (simp add: owns_def)
  have f: "free (py_controller p) (preloadBuffer now (dismissResumePrompt s))" for now
    using owns_free [OF o] by (simp add: free_rules)
  have "tidy (playSucceeded e p s)"
    using t o f [of "en_now e"] by (auto simp: playSucceeded_def owns_def free_def intro!: tidy_rules)
  then show "tidy (speakAnswered e r p s)"
    using o tidy_thrown [OF o]
    by (auto simp: speakAnswered_def split: sum.splits intro!: tidy_await_speak [where c = "py_controller p"])
  show "tidy (retryElapsed e p s)" using tidy_thrown [OF o] tidy_attempt [of "p\<lparr>py_attempt := py_attempt p + 1\<rparr>" s] o
    by (simp add: retryElapsed_def)
qed

lemma tidy_begin [tidy_rules]: "tidy s \<Longrightarrow> tidy (beginNarration e cfi fs s)" "tidy s \<Longrightarrow> tidy (beginGot now op fs r s)"
  by (auto simp: beginNarration_def beginGot_def Let_def tidy_rules split: sum.splits option.splits)

lemma tidy_resume [tidy_rules]: "tidy s \<Longrightarrow> tidy (resumeNarration e s)" "tidy s \<Longrightarrow> tidy (resumeAnswered op ok s)"
  by (auto simp: resumeNarration_def resumeAnswered_def Let_def tidy_rules split: option.splits)

lemma tidy_jumps [tidy_rules]:
  assumes "tidy s" and "op \<le> na_operation s"
  shows "tidy (jumpFailed op s)" "tidy (jumpTarget op k back i s)" "tidy (jumpAdjacent op k back ch s)"
    "tidy (jumpPreviousGot e op k back j c s)" "tidy (jumpAdjacentGot op k back ch i a s)" "tidy (jumpTargetGot now op d s)"
  using assms by (auto simp: jumpFailed_def jumpTarget_def jumpAdjacent_def jumpPreviousGot_def jumpAdjacentGot_def jumpTargetGot_def
      tidy_rules split: option.splits)

lemma tidy_jumpReset [tidy_rules]: "tidy s \<Longrightarrow> tidy (jumpReset s)"
  by (simp add: jumpReset_def Let_def tidy_rules)

lemma tidy_jump [tidy_rules]: "tidy s \<Longrightarrow> tidy (jump back e s)"
  by (simp add: jump_def Let_def tidy_rules split: option.split)

lemma wait_removed:
  assumes "i < length xs"
  shows "\<exists>as bs. xs = as @ (xs ! i) # bs \<and> take i xs @ drop (Suc i) xs = as @ bs"
  using id_take_nth_drop [OF assms] by blast

lemma abortable_waits [simp]: "abortable (s\<lparr>na_waits := ws\<rparr>) = abortable s"
  by (simp add: abortable_def fun_eq_iff)

lemma list_all_removed: "list_all P xs \<Longrightarrow> list_all P (take i xs @ drop (Suc i) xs)"
  by (auto simp: list_all_iff dest: in_set_takeD in_set_dropD)

lemma owns_removed:
  assumes "tidy s" and "i < length (na_waits s)" and "controllerOf (na_waits s ! i) = [c]"
  shows "owns c (s\<lparr>na_waits := take i (na_waits s) @ drop (Suc i) (na_waits s)\<rparr>)"
proof -
  from wait_removed [OF assms(2)] obtain as bs where
    x: "na_waits s = as @ (na_waits s ! i) # bs" "take i (na_waits s) @ drop (Suc i) (na_waits s) = as @ bs" by blast
  have "controllers (na_waits s) = controllers as @ c # controllers bs" using assms(3) by (subst x(1)) (simp add: controllers_def)
  moreover have "list_all (\<lambda>w. jumpOf w \<le> na_operation s) (as @ bs)"
    using assms(1) list_all_removed [of _ "na_waits s" i] by (simp add: x(2) tidy_def)
  ultimately show ?thesis using assms(1) by (auto simp: x(2) owns_def tidy_def abortable_def)
qed

lemma tidy_removed:
  assumes "tidy s" and "i < length (na_waits s)"
  shows "tidy (s\<lparr>na_waits := take i (na_waits s) @ drop (Suc i) (na_waits s)\<rparr>)"
proof -
  from wait_removed [OF assms(2)] obtain as bs where
    x: "na_waits s = as @ (na_waits s ! i) # bs" "take i (na_waits s) @ drop (Suc i) (na_waits s) = as @ bs" by blast
  have "controllers (na_waits s) = controllers as @ controllerOf (na_waits s ! i) @ controllers bs"
    by (subst x(1)) (simp add: controllers_def)
  moreover have "list_all (\<lambda>w. jumpOf w \<le> na_operation s) (as @ bs)"
    using assms(1) list_all_removed [of _ "na_waits s" i] by (simp add: x(2) tidy_def)
  ultimately show ?thesis using assms(1) by (auto simp: x(2) tidy_def abortable_def list_all_iff)
qed

lemma tidy_chunkGot: "tidy s \<Longrightarrow> jumpOf w \<le> na_operation s \<Longrightarrow> tidy (chunkGot now w r s)"
  by (cases w) (auto simp: newPiece_def tidy_rules split: sum.splits)

lemma tidy_answered:
  assumes "tidy s" and "jumpOf w \<le> na_operation s" and "\<And>c. controllerOf w = [c] \<Longrightarrow> owns c s"
  shows "tidy (answered e w a s)"
  using assms tidy_chunkGot by (cases "(e, w, a, s)" rule: answered.cases) (auto simp: tidy_rules split: sum.splits)

lemma tidy_answerStep: "tidy s \<Longrightarrow> tidy (answerStep e i a s)"
proof (cases "i < length (na_waits s)")
  case True
  assume t: "tidy s"
  then have "jumpOf (na_waits s ! i) \<le> na_operation s" using True by (simp add: tidy_def list_all_length)
  then show ?thesis using tidy_removed [OF t True] owns_removed [OF t True] t
    by (simp add: answerStep_def tidy_answered)
qed (simp add: answerStep_def)

lemma tidy_step: "tidy s \<Longrightarrow> tidy (narr_step ev s)"
proof (cases ev)
  case (NAnswer i a e)
  assume "tidy s"
  then show ?thesis using NAnswer tidy_answerStep by simp
next
  case (NTime now d)
  assume "tidy s"
  then show ?thesis using NTime by (auto simp: timeUpdated_def Let_def tidy_rules split: option.splits)
qed (auto simp: startNarration_def updateSettings_def setSleepTimerForMinutes_def sleepTimeout_def markChanged_def
    foregroundResume_def gestureResume_def narrationHidden_def unmountNarration_def Let_def tidy_rules)

lemma tidy_init: "tidy (narr_init st)"
  by (simp add: narr_init_def tidy_def controllers_def)

lemma tidy_run: "tidy s \<Longrightarrow> tidy (narr_run es s)"
  unfolding narr_run_def by (induction es arbitrary: s) (auto intro: tidy_step)

lemma calm_reset_wait:
  assumes "tidy s" and "w \<in> set (na_waits s)" and "na_operation s < oper"
    and "\<And>c. c \<in> set (na_aborted s) \<or> na_controller s = Some c \<Longrightarrow> c \<in> set ab"
  shows "harmless ab oper w"
proof -
  have "controllerOf w = [c] \<Longrightarrow> abortable s c" for c
    using assms(1,2) by (auto simp: tidy_def list_all_iff controllers_def)
  moreover have "jumpOf w < oper" using assms(1-3) by (auto simp: tidy_def list_all_iff intro: le_less_trans)
  ultimately show ?thesis using assms(4) by (cases w) (auto simp: abortable_def)
qed

lemma calm_after_pause: "tidy s \<Longrightarrow> calm (started s) (pauseNarration s)"
  by (auto simp: calm_def pauseNarration_def Let_def abortRetries_def dismissResumePrompt_def list_all_iff backendPause_def
      setPlayerState_def playerState_def split: option.splits intro!: calm_reset_wait [of s])

lemma calm_after_stop: "tidy s \<Longrightarrow> calm (started s) (stopNarration s)"
  by (auto simp: calm_def stopNarration_def resetBuffer_def Let_def abortRetries_def dismissResumePrompt_def list_all_iff backendStop_def
      clearSleepTimer_def clearSleepTimerTimeout_def setPlayerState_def playerState_def split: option.splits intro!: calm_reset_wait [of s])

text \<open>
  \<^bold>\<open>C2\<close> (a pause or stop is final). After any run of the hook, a pause or a stop ends the narration: as long as the
  user does not ask for playback again, neither an answer that comes late, nor a timer, a report of the player, a
  change of the settings or the page becoming visible makes the hook start the player, the narration is not
  wanted any more, and the state is not playing.
\<close>

theorem silence_after_pause:
  assumes "ev = NPause \<or> ev = NStop" and "list_all quietEvent later"
  shows "let s = narr_run earlier (narr_init st); t = narr_run later (narr_step ev s) in
    started t = started s \<and> \<not> na_wants t \<and> na_state t \<noteq> PlayingN"
proof -
  let ?s = "narr_run earlier (narr_init st)"
  have "calm (started ?s) (narr_step ev ?s)"
    using assms(1) tidy_run [OF tidy_init] calm_after_pause calm_after_stop by auto
  from calm_run [OF this assms(2)] show ?thesis by (simp add: calm_def)
qed

text \<open>A chunk is requested from the player when the user pauses; the answer, an error that would be repeated, a
  second page visit and a late chunk change nothing.\<close>

definition exampleSettings :: ttsSettings where
  "exampleSettings = \<lparr>st_rate = 1, st_voiceName = [], st_style = None, st_bySentence = False\<rparr>"

definition examplePage :: surroundings where
  "examplePage = \<lparr>en_now = 0, en_visible = True, en_hasCurrentAudio = False, en_hasEnded = False, en_needsResume = False,
     en_supported = True, en_savedCfi = None, en_lastCfi = None, en_firstIndex = 0, en_plainSSML = (\<lambda>x. x)\<rparr>"

definition exampleChunk :: "nat \<Rightarrow> nat \<Rightarrow> audioChunk" where
  "exampleChunk i j = \<lparr>ck_ssml = [], ck_marks = [], ck_startIndex = i, ck_endIndex = j, ck_seconds = 200\<rparr>"

theorem silence_after_pause_witness:
  "let s = narr_run [NStart examplePage, NAnswer 0 (GotChunk (Inr (Some (exampleChunk 0 3)))) examplePage] (narr_init exampleSettings);
       t = narr_run [NAnswer 0 (GotSpeech (Inl OtherThrown)) examplePage, NForeground examplePage, NEnded 0] (narr_step NPause s) in
     length (started s) = 1 \<and> na_wants s \<and> started t = started s \<and> \<not> na_wants t \<and> na_state t \<noteq> PlayingN"
proof -
  let ?s = "narr_run [NStart examplePage, NAnswer 0 (GotChunk (Inr (Some (exampleChunk 0 3)))) examplePage] (narr_init exampleSettings)"
  have "length (started ?s) = 1" "na_wants ?s" by code_simp+
  then show ?thesis
    using silence_after_pause [of NPause "[NAnswer 0 (GotSpeech (Inl OtherThrown)) examplePage, NForeground examplePage, NEnded 0]"
        "[NStart examplePage, NAnswer 0 (GotChunk (Inr (Some (exampleChunk 0 3)))) examplePage]" exampleSettings] by (simp add: Let_def)
qed

end
