(* ===== verification/Narration_Order.thy ===== *)
theory Narration_Order
  imports Narration
begin

text \<open>
  What the narration of \<^verbatim>\<open>useTTS.ts\<close> reads aloud, in order: the chunks handed to the player between two commands
  of the user follow each other without a gap.
\<close>

section \<open>The order of what is read aloud\<close>

fun chain :: "piece list \<Rightarrow> bool" where
  "chain (a # b # ps) \<longleftrightarrow> ck_startIndex (snd b) = ck_endIndex (snd a) + 1 \<and> chain (b # ps)"
| "chain _ \<longleftrightarrow> True"

definition line :: "narr \<Rightarrow> piece list" where
  "line s = (case na_current s of None \<Rightarrow> [] | Some c \<Rightarrow> [c]) @ na_pending s"

fun speech :: "command \<Rightarrow> (nat \<times> piece) option" where
  "speech (Speak g p x) = Some (g, p)"
| "speech _ = None"

text \<open>The chunks handed to the player, each with the generation it was handed over in. A generation begins with
  a start, a jump or a change of the voice.\<close>

definition speeches :: "narr \<Rightarrow> (nat \<times> piece) list" where
  "speeches s = somes (map speech (na_commands s))"

fun follows :: "nat \<times> piece \<Rightarrow> nat \<times> piece \<Rightarrow> bool" where
  "follows (g, p) (h, q) \<longleftrightarrow> g < h \<or> g = h \<and> (q = p \<or> ck_startIndex (snd q) = ck_endIndex (snd p) + 1)"

definition fresh :: "narr \<Rightarrow> bool" where
  "fresh s \<longleftrightarrow> list_all (\<lambda>(g, p). g < na_generation s) (speeches s)"

definition spoken_ok :: "narr \<Rightarrow> bool" where
  "spoken_ok s \<longleftrightarrow> successively follows (speeches s) \<and> list_all (\<lambda>(g, p). g \<le> na_generation s) (speeches s) \<and>
     (speeches s \<noteq> [] \<and> fst (last (speeches s)) = na_generation s \<longrightarrow> na_current s = Some (snd (last (speeches s))))"

definition plain :: "frame list \<Rightarrow> bool" where
  "plain fs \<longleftrightarrow> list_all (\<lambda>f. case f of AdvanceFrame op \<Rightarrow> False | _ \<Rightarrow> True) fs"

definition framed :: "nat \<Rightarrow> frame list \<Rightarrow> bool" where
  "framed op fs \<longleftrightarrow> plain fs \<or> (\<exists>gs. fs = AdvanceFrame op # gs \<and> plain gs)"

text \<open>The operation on whose behalf the next chunk is determined or played.\<close>

fun mainOp :: "suspension \<Rightarrow> nat option" where
  "mainOp (WAdvanceFill op en fs) = Some op"
| "mainOp (WAdvanceChunk op i fs) = Some op"
| "mainOp (WBeginChunk op fs) = Some op"
| "mainOp (WSpeak p) = Some (py_operation p)"
| "mainOp (WRetry p) = Some (py_operation p)"
| "mainOp (WJump op k back st) = Some op"
| "mainOp _ = None"

definition mains :: "narr \<Rightarrow> nat" where
  "mains s = length (filter (\<lambda>w. mainOp w = Some (na_operation s)) (na_waits s))"

fun liveFill :: "nat \<Rightarrow> suspension \<Rightarrow> bool" where
  "liveFill g (WFill f) = (fl_generation f = g)"
| "liveFill g _ = False"

fun waitOk :: "narr \<Rightarrow> suspension \<Rightarrow> bool" where
  "waitOk s (WFill f) \<longleftrightarrow> fl_generation f \<le> na_generation s \<and> (fl_generation f = na_generation s \<longrightarrow>
     na_filling s = Some (na_generation s, fl_entry f) \<and> na_current s \<noteq> None \<and> fl_index f = nextIndex (lastPiece s)) \<and>
     fl_entry f < na_entries s \<and> (\<forall>g. na_filling s = Some (g, fl_entry f) \<longrightarrow> fl_generation f = na_generation s)"
| "waitOk s (WAdvanceFill op en fs) \<longleftrightarrow> plain fs \<and> op \<le> na_operation s \<and> (op = na_operation s \<longrightarrow>
     na_filling s = Some (na_generation s, en) \<and> na_advancing s = Some op)"
| "waitOk s (WAdvanceChunk op i fs) \<longleftrightarrow> plain fs \<and> op \<le> na_operation s \<and> (op = na_operation s \<longrightarrow>
     na_filling s = None \<and> na_advancing s = Some op \<and> na_pending s = [] \<and> i = nextIndex (na_current s))"
| "waitOk s (WBeginChunk op fs) \<longleftrightarrow> plain fs \<and> op \<le> na_operation s \<and> (op = na_operation s \<longrightarrow>
     na_filling s = None \<and> na_controller s = None \<and> na_pending s = [] \<and> fresh s)"
| "waitOk s (WJump op k back st) \<longleftrightarrow> op \<le> na_operation s \<and> (op = na_operation s \<longrightarrow>
     na_wants s \<and> na_filling s = None \<and> na_controller s = None \<and> na_pending s = [] \<and> fresh s)"
| "waitOk s (WSpeak p) \<longleftrightarrow> framed (py_operation p) (py_frames p) \<and> py_operation p \<le> na_operation s \<and>
     (na_controller s = Some (py_controller p) \<longrightarrow> na_current s = Some (py_piece p))"
| "waitOk s (WRetry p) \<longleftrightarrow> framed (py_operation p) (py_frames p) \<and> py_operation p \<le> na_operation s \<and>
     (na_controller s = Some (py_controller p) \<longrightarrow> na_current s = Some (py_piece p))"
| "waitOk s (WWake fs) \<longleftrightarrow> plain fs"
| "waitOk s (WResumeAudio op) \<longleftrightarrow> True"

definition ordered :: "narr \<Rightarrow> bool" where
  "ordered s \<longleftrightarrow> chain (line s) \<and> (na_current s = None \<longrightarrow> na_pending s = []) \<and>
     (na_filling s \<noteq> None \<longrightarrow> fst (the (na_filling s)) = na_generation s) \<and>
     list_all (waitOk s) (na_waits s) \<and> length (filter (liveFill (na_generation s)) (na_waits s)) \<le> 1 \<and> spoken_ok s"

definition om :: "nat \<Rightarrow> narr \<Rightarrow> bool" where
  "om n s \<longleftrightarrow> ordered s \<and> mains s \<le> n"

text \<open>States that agree on all of this.\<close>

definition alike :: "narr \<Rightarrow> narr \<Rightarrow> bool" where
  "alike s s' \<longleftrightarrow> na_operation s' = na_operation s \<and> na_generation s' = na_generation s \<and> na_current s' = na_current s \<and>
     na_pending s' = na_pending s \<and> na_filling s' = na_filling s \<and> na_advancing s' = na_advancing s \<and>
     na_controller s' = na_controller s \<and> (na_wants s \<longrightarrow> na_wants s') \<and> na_waits s' = na_waits s \<and>
     speeches s' = speeches s \<and> na_entries s' = na_entries s"

lemma alike_waitOk:
  assumes "alike s s'"
  shows "waitOk s w \<Longrightarrow> waitOk s' w"
  using assms by (cases w) (auto simp: alike_def fresh_def lastPiece_def)

lemma alike_om: "alike s s' \<Longrightarrow> om n s \<Longrightarrow> om n s'"
proof -
  assume a: "alike s s'" and o: "om n s"
  have "list_all (waitOk s') (na_waits s')"
    using o alike_waitOk [OF a] a by (auto simp: om_def ordered_def list_all_iff alike_def)
  then show "om n s'" using a o by (simp add: om_def ordered_def alike_def line_def spoken_ok_def mains_def)
qed

lemma speeches_tell [simp]: "speeches (tell c s) = speeches s @ (case speech c of None \<Rightarrow> [] | Some x \<Rightarrow> [x])"
  by (simp add: speeches_def tell_def somes_def)

lemma speeches_upd [simp]:
  "speeches (s\<lparr>na_operation := a\<rparr>) = speeches s" "speeches (s\<lparr>na_generation := a\<rparr>) = speeches s" "speeches (s\<lparr>na_wants := b\<rparr>) = speeches s"
  "speeches (s\<lparr>na_source := c\<rparr>) = speeches s" "speeches (s\<lparr>na_sources := a\<rparr>) = speeches s" "speeches (s\<lparr>na_current := d\<rparr>) = speeches s"
  "speeches (s\<lparr>na_pending := e\<rparr>) = speeches s" "speeches (s\<lparr>na_pieces := a\<rparr>) = speeches s" "speeches (s\<lparr>na_filling := f\<rparr>) = speeches s"
  "speeches (s\<lparr>na_entries := a\<rparr>) = speeches s" "speeches (s\<lparr>na_controller := c\<rparr>) = speeches s" "speeches (s\<lparr>na_controllers := a\<rparr>) = speeches s"
  "speeches (s\<lparr>na_aborted := g\<rparr>) = speeches s" "speeches (s\<lparr>na_advancing := c\<rparr>) = speeches s" "speeches (s\<lparr>na_resuming := c\<rparr>) = speeches s"
  "speeches (s\<lparr>na_measured := c\<rparr>) = speeches s" "speeches (s\<lparr>na_ratios := h\<rparr>) = speeches s" "speeches (s\<lparr>na_settings := i\<rparr>) = speeches s"
  "speeches (s\<lparr>na_mark := j\<rparr>) = speeches s" "speeches (s\<lparr>na_highlighted := b\<rparr>) = speeches s" "speeches (s\<lparr>na_preparing := b\<rparr>) = speeches s"
  "speeches (s\<lparr>na_prompt := b\<rparr>) = speeches s" "speeches (s\<lparr>na_state := k\<rparr>) = speeches s" "speeches (s\<lparr>na_sleep := l\<rparr>) = speeches s"
  "speeches (s\<lparr>na_sleepTimeout := b\<rparr>) = speeches s" "speeches (s\<lparr>na_waits := m\<rparr>) = speeches s"
  by (simp_all add: speeches_def)

lemma speeches_backend [simp]: "speeches (setPlayerState st s) = speeches s" "speeches (backendPause s) = speeches s"
  "speeches (backendStop s) = speeches s"
  by (simp_all add: setPlayerState_def playerState_def backendPause_def backendStop_def Let_def)

lemma abortRetries_fields [simp]:
  "na_operation (abortRetries s) = na_operation s" "na_generation (abortRetries s) = na_generation s"
  "na_current (abortRetries s) = na_current s" "na_pending (abortRetries s) = na_pending s" "na_filling (abortRetries s) = na_filling s"
  "na_advancing (abortRetries s) = na_advancing s" "na_waits (abortRetries s) = na_waits s" "na_controller (abortRetries s) = None"
  "na_source (abortRetries s) = na_source s" "na_wants (abortRetries s) = na_wants s" "speeches (abortRetries s) = speeches s"
  "na_controllers (abortRetries s) = na_controllers s" "na_entries (abortRetries s) = na_entries s" "na_mark (abortRetries s) = na_mark s"
  by (simp_all add: abortRetries_def)

named_theorems om_rules

lemma om_small [om_rules]:
  assumes "om n s"
  shows "speech c = None \<Longrightarrow> om n (tell c s)" "om n (endPreparing op s)" "om n (endResume op s)" "om n (dismissResumePrompt s)"
    "om n (setPlayerState st s)" "om n (backendPause s)" "om n (s\<lparr>na_prompt := b\<rparr>)" "om n (s\<lparr>na_preparing := b\<rparr>)"
    "om n (s\<lparr>na_wants := True\<rparr>)" "om n (clearSleepTimer s)" "om n (clearSleepTimerTimeout s)" "om n (s\<lparr>na_pieces := k\<rparr>)"
    "om n (s\<lparr>na_mark := m\<rparr>)" "om n (s\<lparr>na_highlighted := b\<rparr>)" "om n (s\<lparr>na_settings := st'\<rparr>)" "om n (s\<lparr>na_measured := d\<rparr>)"
    "om n (s\<lparr>na_ratios := r\<rparr>)" "om n (s\<lparr>na_sleep := l\<rparr>)" "om n (s\<lparr>na_sleepTimeout := b\<rparr>)"
    "om n (s\<lparr>na_resuming := d\<rparr>)" "om n (s\<lparr>na_source := d\<rparr>)" "om n (s\<lparr>na_sources := k\<rparr>)"
  by (rule alike_om [OF _ assms]; simp add: alike_def endPreparing_def endResume_def dismissResumePrompt_def clearSleepTimer_def
      clearSleepTimerTimeout_def)+

lemma await_fields [simp]:
  "na_operation (await w s) = na_operation s" "na_generation (await w s) = na_generation s" "na_current (await w s) = na_current s"
  "na_pending (await w s) = na_pending s" "na_filling (await w s) = na_filling s" "na_advancing (await w s) = na_advancing s"
  "na_controller (await w s) = na_controller s" "na_wants (await w s) = na_wants s" "na_waits (await w s) = na_waits s @ [w]"
  "speeches (await w s) = speeches s" "na_controllers (await w s) = na_controllers s"
  "na_entries (await w s) = na_entries s" "na_aborted (await w s) = na_aborted s"
  by (simp_all add: await_def)

lemma waitOk_await [simp]: "waitOk (await w s) v = waitOk s v"
  by (cases v) (simp_all add: fresh_def lastPiece_def)

lemma ordered_await: "ordered s \<Longrightarrow> waitOk s w \<Longrightarrow> \<not> liveFill (na_generation s) w \<Longrightarrow> ordered (await w s)"
  by (simp add: ordered_def spoken_ok_def line_def list_all_iff)

lemma mains_await: "mains (await w s) = mains s + (if mainOp w = Some (na_operation s) then 1 else 0)"
  by (simp add: mains_def)

lemma om_await [om_rules]: "om n s \<Longrightarrow> mainOp w = None \<Longrightarrow> waitOk s w \<Longrightarrow> \<not> liveFill (na_generation s) w \<Longrightarrow> om n (await w s)"
  by (simp add: om_def ordered_await mains_await)

text \<open>A function that runs on behalf of an operation has no wait of its own left.\<close>

definition runs :: "nat \<Rightarrow> narr \<Rightarrow> bool" where
  "runs op s \<longleftrightarrow> om (Suc 0) s \<and> (op = na_operation s \<longrightarrow> mains s = 0)"

lemma runs_await: "runs op s \<Longrightarrow> mainOp w = Some op \<Longrightarrow> waitOk s w \<Longrightarrow> om (Suc 0) (await w s)"
proof -
  have "mainOp w = Some op \<Longrightarrow> \<not> liveFill g w" for g by (cases w) auto
  then show "runs op s \<Longrightarrow> mainOp w = Some op \<Longrightarrow> waitOk s w \<Longrightarrow> ?thesis" by (auto simp: runs_def om_def ordered_await mains_await)
qed

lemma om_mono: "om 0 s \<Longrightarrow> om n s"
  by (simp add: om_def)

lemma plain_simps [simp]: "plain []" "plain (AdvanceFrame op # fs) = False" "plain (BeginFrame op # fs) = plain fs"
  "plain (BeginWake op # fs) = plain fs" "plain (ResumePlay op # fs) = plain fs" "plain (ResumeAdvance op # fs) = plain fs"
  "plain (ResumeBegin op # fs) = plain fs" "plain (ResumeWake op # fs) = plain fs"
  by (simp_all add: plain_def)

lemma om_unwind_plain [om_rules]: "om n s \<Longrightarrow> plain fs \<Longrightarrow> om n (unwind ok fs s)"
  by (induction ok fs s rule: unwind.induct) (simp_all add: om_rules)

text \<open>The end of an \<^verbatim>\<open>advance\<close>: another live one would have to have the same operation.\<close>

lemma om_endAdvance:
  assumes "om n s" and "op = na_operation s \<longrightarrow> mains s = 0"
  shows "om n (endAdvance op s)"
proof (cases "na_advancing s = Some op")
  case True
  let ?s = "s\<lparr>na_advancing := None\<rparr>"
  have "waitOk ?s w" if "w \<in> set (na_waits s)" for w
  proof -
    have "waitOk s w" using assms(1) that by (auto simp: om_def ordered_def list_all_iff)
    moreover have "mainOp w \<noteq> Some (na_operation s)" if "op = na_operation s"
      using assms(2) that \<open>w \<in> set (na_waits s)\<close> by (auto simp: mains_def filter_empty_conv)
    ultimately show ?thesis using True by (cases w) (auto simp: fresh_def lastPiece_def)
  qed
  then show ?thesis using assms(1) True
    by (auto simp: endAdvance_def om_def ordered_def list_all_iff mains_def spoken_ok_def line_def)
qed (use assms in \<open>simp add: endAdvance_def\<close>)

lemma om_runs: "om 0 s \<Longrightarrow> runs op s" "runs op s \<Longrightarrow> op = na_operation s \<Longrightarrow> om 0 s"
  by (auto simp: runs_def om_def)

lemma om_unwind: "om n s \<Longrightarrow> framed op fs \<Longrightarrow> op = na_operation s \<longrightarrow> mains s = 0 \<Longrightarrow> om n (unwind ok fs s)"
  using om_endAdvance [of n s op] by (auto simp: framed_def om_unwind_plain)

lemma framed_simps [simp]: "framed op (AdvanceFrame op # fs) = plain fs" "plain fs \<Longrightarrow> framed op fs"
  by (auto simp: framed_def)

text \<open>A new operation outdates all waits; a new generation also outdates the fills and what was spoken.\<close>

lemma waitOk_op: "waitOk s w \<Longrightarrow> mainOp w = Some op \<Longrightarrow> op \<le> na_operation s"
  by (cases w) auto

lemma om_bumped:
  assumes "om n s" and "na_operation s' = na_operation s + 1" and "na_generation s' = na_generation s" and "na_current s' = na_current s"
    and "na_pending s' = na_pending s" and "na_filling s' = na_filling s" and "na_waits s' = na_waits s" and "speeches s' = speeches s"
    and "na_controller s' = na_controller s \<or> na_controller s' = None" and "na_entries s' = na_entries s"
  shows "om 0 s'"
proof -
  have ok: "waitOk s w" if "w \<in> set (na_waits s)" for w using assms(1) that by (auto simp: om_def ordered_def list_all_iff)
  have "waitOk s' w" if "w \<in> set (na_waits s)" for w
    using ok [OF that] assms(2-) by (cases w) (auto simp: fresh_def lastPiece_def)
  moreover have "mains s' = 0" using ok waitOk_op assms(2,7) by (fastforce simp: mains_def filter_empty_conv)
  ultimately show ?thesis using assms by (simp add: om_def ordered_def list_all_iff spoken_ok_def line_def)
qed

lemma om_renewed:
  assumes "om n s" and "na_operation s' = na_operation s + 1" and "na_generation s' = na_generation s + 1"
    and "na_pending s' = []" and "na_filling s' = None" and "na_waits s' = na_waits s" and "speeches s' = speeches s"
    and "na_controller s' = None" and "na_entries s' = na_entries s"
  shows "om 0 s' \<and> fresh s'"
proof -
  have ok: "waitOk s w" if "w \<in> set (na_waits s)" for w using assms(1) that by (auto simp: om_def ordered_def list_all_iff)
  have old: "list_all (\<lambda>(g, p). g \<le> na_generation s) (speeches s)" using assms(1) by (simp add: om_def ordered_def spoken_ok_def)
  have "waitOk s' w \<and> \<not> liveFill (na_generation s') w" if "w \<in> set (na_waits s)" for w
    using ok [OF that] assms(2-) by (cases w) (auto simp: fresh_def lastPiece_def)
  then have w: "list_all (waitOk s') (na_waits s')" "filter (liveFill (na_generation s')) (na_waits s') = []"
    using assms(6) by (simp_all add: list_all_iff filter_empty_conv)
  have m: "mains s' = 0" using ok waitOk_op assms(2,6) by (fastforce simp: mains_def filter_empty_conv)
  have f: "fresh s'" using old assms(3,7) by (auto simp: fresh_def list_all_iff)
  have "fst (last (speeches s)) \<noteq> na_generation s'" if "speeches s \<noteq> []"
  proof -
    obtain g p where l: "last (speeches s) = (g, p)" by (cases "last (speeches s)")
    then have "(g, p) \<in> set (speeches s)" using last_in_set [OF that] by simp
    then show ?thesis using f l assms(7) by (auto simp: fresh_def list_all_iff)
  qed
  moreover have "list_all (\<lambda>(g, p). g \<le> na_generation s') (speeches s')"
    using old assms(3,7) by (auto simp: list_all_iff)
  ultimately have "spoken_ok s'" using assms(1,7) by (auto simp: spoken_ok_def om_def ordered_def)
  moreover have "chain (line s')" by (simp add: line_def assms(4) split: option.split)
  ultimately show ?thesis using assms(4,5) w m f by (simp add: om_def ordered_def)
qed

lemma om_reset: "om n s \<Longrightarrow> om 0 (resetBuffer s) \<and> fresh (resetBuffer s)"
  by (rule om_renewed [of n s]) (auto simp: resetBuffer_def Let_def split: option.splits)

lemma reset_fields [simp]:
  "na_current (resetBuffer s) = None" "na_pending (resetBuffer s) = []" "na_filling (resetBuffer s) = None"
  "na_generation (resetBuffer s) = na_generation s + 1" "na_operation (resetBuffer s) = na_operation s + 1"
  "na_waits (resetBuffer s) = na_waits s" "speeches (resetBuffer s) = speeches s" "na_controller (resetBuffer s) = None"
  "na_entries (resetBuffer s) = na_entries s"
  by (auto simp: resetBuffer_def Let_def split: option.splits)

lemma om_stop: "om n s \<Longrightarrow> om 0 (stopNarration s)" "om n s \<Longrightarrow> om 0 (sleepStop s)"
proof -
  have "speeches (clearSleepTimer s) = speeches s" "speeches (dismissResumePrompt s) = speeches s" for s
    by (simp_all add: clearSleepTimer_def clearSleepTimerTimeout_def dismissResumePrompt_def)
  then show a: "om n s \<Longrightarrow> om 0 (stopNarration s)" for s
    by (rule_tac om_renewed [THEN conjunct1])
      (auto simp: stopNarration_def Let_def clearSleepTimer_def clearSleepTimerTimeout_def dismissResumePrompt_def)
  show "om n s \<Longrightarrow> om 0 (sleepStop s)" unfolding sleepStop_def by (intro om_small a)
qed

lemma om_pause: "om n s \<Longrightarrow> om 0 (pauseNarration s)"
  by (rule om_bumped) (auto simp: pauseNarration_def Let_def dismissResumePrompt_def)

lemma runs_unwind: "runs op s \<Longrightarrow> framed op fs \<Longrightarrow> om (Suc 0) (unwind ok fs s)"
  by (simp add: runs_def om_unwind)

lemma runs_small:
  assumes "runs op s"
  shows "speech c = None \<Longrightarrow> runs op (tell c s)" "runs op (backendPause s)" "runs op (s\<lparr>na_prompt := b\<rparr>)" "runs op (endPreparing o' s)"
    "runs op (dismissResumePrompt s)"
  using assms om_small [of "Suc 0" s]
  by (auto simp: runs_def mains_def endPreparing_def dismissResumePrompt_def)

lemma om_noController: "om n s \<Longrightarrow> om n (s\<lparr>na_controller := None\<rparr>)"
proof -
  have "waitOk s w \<Longrightarrow> waitOk (s\<lparr>na_controller := None\<rparr>) w" for w by (cases w) (auto simp: fresh_def lastPiece_def)
  then show "om n s \<Longrightarrow> ?thesis" by (auto simp: om_def ordered_def list_all_iff mains_def spoken_ok_def line_def)
qed

lemma runs_playReturn: "runs (py_operation p) s \<Longrightarrow> framed (py_operation p) (py_frames p) \<Longrightarrow> om (Suc 0) (playReturn ok p s)"
proof -
  assume r: "runs (py_operation p) s" and f: "framed (py_operation p) (py_frames p)"
  have "runs (py_operation p) (s\<lparr>na_controller := None\<rparr>)" using r om_noController [of "Suc 0" s] by (simp add: runs_def mains_def)
  then show ?thesis using r f by (simp add: playReturn_def Let_def runs_unwind [of "py_operation p"] runs_small)
qed

lemma om_speakAgain:
  assumes "om n s" and "na_current s = Some p" and "na_controller s \<noteq> None"
  shows "om n (tell (Speak (na_generation s) p x) s)"
proof -
  let ?s = "tell (Speak (na_generation s) p x) s"
  have "waitOk s w \<Longrightarrow> waitOk ?s w" for w using assms(3) by (cases w) (auto simp: lastPiece_def)
  moreover have "spoken_ok ?s" if ok: "spoken_ok s"
  proof -
    have "follows (last (speeches s)) (na_generation s, p)" if "speeches s \<noteq> []"
      using ok that assms(2) last_in_set [OF that] by (cases "last (speeches s)") (auto simp: spoken_ok_def list_all_iff)
    then show ?thesis using ok assms(2) by (auto simp: spoken_ok_def successively_append_iff)
  qed
  ultimately show ?thesis using assms(1) by (auto simp: om_def ordered_def list_all_iff mains_def line_def)
qed

lemma runs_attempt:
  assumes "runs (py_operation p) s" and "framed (py_operation p) (py_frames p)" and "py_operation p \<le> na_operation s"
    and "owns (py_controller p) s" and "na_controller s = Some (py_controller p) \<longrightarrow> na_current s = Some (py_piece p)"
  shows "om (Suc 0) (speakAttempt p s)"
proof (cases "py_controller p \<in> set (na_aborted s)")
  case False
  let ?s = "tell (Speak (na_generation s) (py_piece p) (py_ssml p)) s"
  have c: "na_controller s = Some (py_controller p)" using False assms(4) by (simp add: owns_def abortable_def)
  then have "runs (py_operation p) ?s"
    using om_speakAgain [of "Suc 0" s "py_piece p" "py_ssml p"] assms(1,5) by (simp add: runs_def mains_def)
  then show ?thesis using False assms c by (simp add: speakAttempt_def runs_await)
qed (use assms runs_playReturn in \<open>simp add: speakAttempt_def\<close>)

lemma runs_loop:
  assumes "runs (py_operation p) s" and "framed (py_operation p) (py_frames p)" and "py_operation p \<le> na_operation s"
    and "owns (py_controller p) s" and "na_controller s = Some (py_controller p) \<longrightarrow> na_current s = Some (py_piece p)"
  shows "om (Suc 0) (playLoop now p s)"
proof -
  have "om (Suc 0) s" using assms(1) by (simp add: runs_def)
  then have "runs (py_operation p) (sleepStop s)" by (rule om_runs(1) [OF om_stop(2)])
  then show ?thesis using assms runs_attempt [OF assms] by (simp add: playLoop_def runs_playReturn)
qed

text \<open>Handing over a new chunk, with the pending chunks that remain.\<close>

definition next_ok :: "piece \<Rightarrow> piece list \<Rightarrow> narr \<Rightarrow> bool" where
  "next_ok p ps s \<longleftrightarrow> chain (p # ps) \<and>
     (na_filling s \<noteq> None \<longrightarrow> na_current s \<noteq> None \<and> nextIndex (Some (last (p # ps))) = nextIndex (lastPiece s)) \<and>
     (speeches s \<noteq> [] \<longrightarrow> follows (last (speeches s)) (na_generation s, p))"

lemma handed_over:
  assumes "om 0 s" and "tidy s" and n: "next_ok p ps s"
    and t: "na_operation t = na_operation s" "na_generation t = na_generation s" "na_filling t = na_filling s" "na_wants t = na_wants s"
    "na_advancing t = na_advancing s" "na_waits t = na_waits s" "na_entries t = na_entries s" "na_current t = Some p"
    "na_pending t = ps" "na_controller t = Some (na_controllers s)" "speeches t = speeches s @ [(na_generation s, p)]"
  shows "om 0 t"
proof -
  have "waitOk t w" if w: "w \<in> set (na_waits s)" for w
  proof -
    have ok: "waitOk s w" "mainOp w \<noteq> Some (na_operation s)"
      using assms(1) w by (auto simp: om_def ordered_def list_all_iff mains_def filter_empty_conv)
    have c: "controllerOf w = [c] \<Longrightarrow> c < na_controllers s" for c
      using assms(2) w by (auto simp: tidy_def abortable_def list_all_iff controllers_def)
    have l: "lastPiece t = Some (last (p # ps))" by (simp add: lastPiece_def t)
    show ?thesis using ok c n by (cases w) (auto simp: next_ok_def t l)
  qed
  moreover have "spoken_ok t" using assms(1) n
    by (auto simp: t om_def ordered_def spoken_ok_def next_ok_def successively_append_iff)
  ultimately show ?thesis using assms(1) n by (simp add: om_def ordered_def line_def next_ok_def mains_def list_all_iff t)
qed

lemma om_playChunk:
  assumes o: "om 0 s" and t: "tidy s" and a: "activeFor op s" and n: "next_ok p ps s" and f: "framed op fs"
  shows "om (Suc 0) (playChunk now p op fs (s\<lparr>na_pending := ps\<rparr>))"
proof -
  define s1 where "s1 = (abortRetries (s\<lparr>na_pending := ps, na_current := Some p\<rparr>))\<lparr>na_controller := Some (na_controllers s),
    na_controllers := na_controllers s + 1, na_preparing := True\<rparr>"
  define t where "t = tell (Speak (na_generation s) p (ck_ssml (snd p))) s1"
  let ?p = "\<lparr>py_piece = p, py_operation = op, py_ssml = ck_ssml (snd p), py_fallback = False, py_retried = False,
       py_attempt = 0, py_controller = na_controllers s, py_frames = fs\<rparr>"
  have op: "op = na_operation s" using a by (simp add: activeFor_def)
  have s1: "na_operation s1 = na_operation s" "na_generation s1 = na_generation s" "na_filling s1 = na_filling s" "na_wants s1 = na_wants s"
    "na_advancing s1 = na_advancing s" "na_waits s1 = na_waits s" "na_entries s1 = na_entries s" "na_current s1 = Some p"
    "na_pending s1 = ps" "na_controller s1 = Some (na_controllers s)" "speeches s1 = speeches s"
    by (simp_all add: s1_def)
  then have t: "na_operation t = na_operation s" "na_generation t = na_generation s" "na_filling t = na_filling s" "na_wants t = na_wants s"
    "na_advancing t = na_advancing s" "na_waits t = na_waits s" "na_entries t = na_entries s" "na_current t = Some p"
    "na_pending t = ps" "na_controller t = Some (na_controllers s)" "speeches t = speeches s @ [(na_generation s, p)]"
    by (simp_all add: t_def)
  then have "om 0 t" by (rule handed_over [OF o assms(2) n])
  then have speak: "om (Suc 0) (await (WSpeak ?p) t)" using op f t by (intro runs_await [OF om_runs(1)]) auto
  have fr: "na_controllers s \<notin> set (na_aborted s1)"
    using assms(2) by (auto simp: s1_def tidy_def list_all_iff abortRetries_def split: option.splits)
  have "om 0 (sleepStop s1)"
    by (rule om_renewed [OF o, THEN conjunct1])
      (auto simp: s1 sleepStop_def stopNarration_def Let_def clearSleepTimer_def clearSleepTimerTimeout_def dismissResumePrompt_def)
  then have stop: "om (Suc 0) (playReturn False ?p (sleepStop s1))" using f by (intro runs_playReturn om_runs(1)) auto
  have "playChunk now p op fs (s\<lparr>na_pending := ps\<rparr>) = playLoop now ?p s1" by (simp add: playChunk_def s1_def Let_def)
  then show ?thesis using speak stop a fr s1(1,2,4) by (simp add: playLoop_def speakAttempt_def activeFor_def t_def)
qed

lemma chain_tl: "chain (a # ps) \<Longrightarrow> chain ps"
  by (cases ps) auto

lemma chain_snoc: "chain (ps @ [a, b]) \<longleftrightarrow> chain (ps @ [a]) \<and> ck_startIndex (snd b) = ck_endIndex (snd a) + 1"
  by (induction ps rule: chain.induct) auto

lemma om_facts: "om n s \<Longrightarrow> chain (line s)" "om n s \<Longrightarrow> na_current s = None \<Longrightarrow> na_pending s = []"
  "om n s \<Longrightarrow> na_filling s = Some (g, en) \<Longrightarrow> g = na_generation s" "om n s \<Longrightarrow> w \<in> set (na_waits s) \<Longrightarrow> waitOk s w"
  "om n s \<Longrightarrow> spoken_ok s"
  by (auto simp: om_def ordered_def list_all_iff)

text \<open>The last chunk spoken in this generation is the current one, so its successor may follow.\<close>

lemma follows_current:
  assumes "om n s" and "\<And>c. na_current s = Some c \<Longrightarrow> p = c \<or> ck_startIndex (snd p) = ck_endIndex (snd c) + 1"
    and "speeches s \<noteq> []"
  shows "follows (last (speeches s)) (na_generation s, p)"
  using om_facts(5) [OF assms(1)] assms(2) last_in_set [OF assms(3)]
  by (cases "last (speeches s)") (auto simp: spoken_ok_def list_all_iff)

lemma follows_fresh:
  assumes "fresh s" and "speeches s \<noteq> []"
  shows "follows (last (speeches s)) (na_generation s, p)"
proof -
  obtain g q where l: "last (speeches s) = (g, q)" by (cases "last (speeches s)")
  then have "(g, q) \<in> set (speeches s)" using last_in_set [OF assms(2)] by simp
  then show ?thesis using assms(1) l by (auto simp: fresh_def list_all_iff)
qed

lemma next_pending:
  assumes "om n s" and "na_pending s = c # cs"
  shows "next_ok c cs s"
proof -
  obtain d where d: "na_current s = Some d" using om_facts(2) [OF assms(1)] assms(2) by (cases "na_current s") auto
  have ch: "chain (d # c # cs)" using om_facts(1) [OF assms(1)] d assms(2) by (simp add: line_def)
  have "follows (last (speeches s)) (na_generation s, c)" if "speeches s \<noteq> []"
    using follows_current [OF assms(1) _ that] ch d by simp
  then show ?thesis using ch d assms(2) by (simp add: next_ok_def lastPiece_def)
qed

lemma next_read:
  assumes "om n s" and "na_filling s = None" and "na_pending s = []" and "ck_startIndex (snd p) = nextIndex (na_current s)"
  shows "next_ok p [] s"
  using follows_current [OF assms(1)] assms by (auto simp: next_ok_def nextIndex_def split: option.splits)

definition got_ok :: "nat \<Rightarrow> piece option \<Rightarrow> narr \<Rightarrow> bool" where
  "got_ok op c s \<longleftrightarrow> (\<forall>p. c = Some p \<and> activeFor op s \<longrightarrow> next_ok p (na_pending s) s)"

lemma runs_advanceGot:
  assumes "runs op s" and "tidy s" and "plain fs" and "got_ok op c s"
  shows "om (Suc 0) (advanceGot now op fs c s)"
proof (cases "activeFor op s")
  case True
  then have o: "om 0 s" using assms(1) om_runs(2) by (simp add: activeFor_def)
  show ?thesis
  proof (cases c)
    case None
    have "runs op (stopNarration s)" by (rule om_runs(1) [OF om_stop(1) [OF o]])
    from runs_unwind [OF this, of "AdvanceFrame op # fs"] show ?thesis using None True assms(3) by (simp add: advanceGot_def)
  next
    case (Some p)
    then show ?thesis using True assms om_playChunk [OF o assms(2) True, of p "na_pending s" "AdvanceFrame op # fs"]
      by (simp add: advanceGot_def advancePlay_def got_ok_def)
  qed
next
  case False
  then show ?thesis using runs_unwind [OF assms(1), of "AdvanceFrame op # fs"] assms(3) by (simp add: advanceGot_def)
qed

lemma runs_advanceGo:
  assumes "runs op s" and "tidy s" and "plain fs" and "activeFor op s \<longrightarrow> na_advancing s = Some op"
    and "activeFor op s \<and> na_pending s = [] \<longrightarrow> na_filling s = None"
  shows "om (Suc 0) (advanceGo now op fs s)"
proof (cases "activeFor op s")
  case True
  then have o: "om 0 s" using assms(1) om_runs(2) by (simp add: activeFor_def)
  show ?thesis
  proof (cases "na_pending s")
    case (Cons c cs)
    have "om (Suc 0) (playChunk now c op (AdvanceFrame op # fs) (s\<lparr>na_pending := cs\<rparr>))"
      using om_playChunk [OF o assms(2) True next_pending [OF o Cons]] assms(3) by simp
    then show ?thesis using True Cons by (simp add: advanceGo_def advanceGot_def advancePlay_def activeFor_def)
  next
    case Nil
    show ?thesis
    proof (cases "na_source s")
      case None
      then show ?thesis using runs_advanceGot [OF assms(1-3), of None] True Nil by (simp add: advanceGo_def got_ok_def)
    next
      case (Some k)
      let ?c = "ReadChunk k (nextIndex (na_current s)) (calibratedTarget TTS_CHUNK_SECONDS s)"
      have "runs op (tell ?c s)" using runs_small(1) [OF assms(1), of ?c] by simp
      then have "om (Suc 0) (await (WAdvanceChunk op (nextIndex (na_current s)) fs) (tell ?c s))"
        using True Nil assms(3-5) by (intro runs_await [of op]) (auto simp: activeFor_def)
      then show ?thesis using True Nil Some by (simp add: advanceGo_def)
    qed
  qed
next
  case False
  then show ?thesis using runs_unwind [OF assms(1), of "AdvanceFrame op # fs"] assms(3) by (simp add: advanceGo_def)
qed

lemma om_advancing: "om 0 s \<Longrightarrow> om 0 (s\<lparr>na_advancing := d\<rparr>)"
proof -
  have "waitOk s w \<Longrightarrow> mainOp w \<noteq> Some (na_operation s) \<Longrightarrow> waitOk (s\<lparr>na_advancing := d\<rparr>) w" for w
    by (cases w) (auto simp: fresh_def lastPiece_def)
  then show "om 0 s \<Longrightarrow> ?thesis"
    by (auto simp: om_def ordered_def list_all_iff mains_def spoken_ok_def line_def filter_empty_conv)
qed

lemma om_advance:
  assumes "om 0 s" and "tidy s" and "plain fs"
  shows "om (Suc 0) (advance now fs s)"
proof -
  let ?s = "s\<lparr>na_advancing := Some (na_operation s)\<rparr>"
  have a: "om 0 ?s" "tidy ?s" using om_advancing [OF assms(1)] assms(2) by (auto intro: tidy_rules)
  have go: "om (Suc 0) (advanceGo now (na_operation s) fs ?s)" if "na_pending s = [] \<longrightarrow> na_filling s = None"
    using that by (intro runs_advanceGo om_runs(1) a assms(3)) auto
  have wait: "om (Suc 0) (await (WAdvanceFill (na_operation s) en fs) ?s)" if "na_filling s = Some (g, en)" for g en
    using om_facts(3) [OF assms(1) that] that assms(3) by (intro runs_await [OF om_runs(1) [OF a(1)]]) auto
  have u: "om (Suc 0) (unwind True fs s)" "om (Suc 0) (unwind True fs (sleepStop s))"
    using om_unwind_plain [OF om_mono [OF assms(1)] assms(3)] om_unwind_plain [OF om_mono [OF om_stop(2) [OF assms(1)]] assms(3)] by auto
  show ?thesis
    using u go wait by (cases "na_pending s"; cases "na_filling s") (auto simp: advance_def Let_def split: prod.splits)
qed

lemma endAdvance_fields [simp]: "na_operation (endAdvance op s) = na_operation s" "mains (endAdvance op s) = mains s"
    "na_filling (endAdvance op s) = na_filling s"
  by (simp_all add: endAdvance_def mains_def)

lemma operation_unwind [simp]: "na_operation (unwind ok fs s) = na_operation s" "mains (unwind ok fs s) = mains s"
    "na_filling (unwind ok fs s) = na_filling s"
  by (induction ok fs s rule: unwind.induct)
    (simp_all add: endAdvance_def endPreparing_def endResume_def dismissResumePrompt_def mains_await mains_def)

lemma advancing_unwind: "plain fs \<Longrightarrow> na_advancing (unwind ok fs s) = na_advancing s"
  by (induction ok fs s rule: unwind.induct) (simp_all add: endPreparing_def endResume_def dismissResumePrompt_def)

lemma operation_stop [simp]: "na_operation (stopNarration s) = na_operation s + 1" "na_operation (sleepStop s) = na_operation s + 1"
  by (simp_all add: sleepStop_def stopNarration_def clearSleepTimer_def clearSleepTimerTimeout_def dismissResumePrompt_def Let_def)

lemma operation_play: "na_operation s \<le> na_operation (playChunk now p op fs s)"
  by (simp add: playChunk_def playLoop_def speakAttempt_def playReturn_def endPreparing_def Let_def)

lemma operation_goOn: "na_operation s \<le> na_operation (goOn now w s)"
  by (cases w) (auto simp: advanceGo_def advanceGot_def advancePlay_def split: list.splits option.splits
      intro: order_trans [OF _ operation_play])

text \<open>Whoever waits for a fill that has settled goes on, at most one of them for the current operation.\<close>

fun waiter_ok :: "narr \<Rightarrow> suspension \<Rightarrow> bool" where
  "waiter_ok s (WAdvanceFill op en fs) \<longleftrightarrow> plain fs \<and> op \<le> na_operation s \<and>
     (op = na_operation s \<longrightarrow> na_advancing s = Some op \<and> na_filling s = None)"
| "waiter_ok s _ \<longleftrightarrow> False"

definition current_waits :: "suspension list \<Rightarrow> narr \<Rightarrow> nat" where
  "current_waits ws s = length (filter (\<lambda>w. mainOp w = Some (na_operation s)) ws)"

lemma stale_waiter:
  assumes "om n s" and "waiter_ok s w" and "mainOp w \<noteq> Some (na_operation s)"
  shows "om n (goOn now w s)" "na_operation (goOn now w s) = na_operation s" "mains (goOn now w s) = mains s"
    "waiter_ok s v \<Longrightarrow> waiter_ok (goOn now w s) v"
proof -
  obtain op en fs where w: "w = WAdvanceFill op en fs" "plain fs" "op \<noteq> na_operation s" using assms by (cases w) auto
  have g: "goOn now w s = unwind True (AdvanceFrame op # fs) s" using w by (simp add: advanceGo_def activeFor_def)
  show "om n (goOn now w s)" unfolding g using assms(1) w(2,3) by (intro om_unwind [of _ _ op]) auto
  show "na_operation (goOn now w s) = na_operation s" "mains (goOn now w s) = mains s" unfolding g by simp_all
  show "waiter_ok s v \<Longrightarrow> waiter_ok (goOn now w s) v"
    unfolding g using w(2,3) by (cases v) (auto simp: advancing_unwind endAdvance_def)
qed

lemma outdated_waiters:
  "om n s \<Longrightarrow> list_all (waiter_ok s) ws \<Longrightarrow> current_waits ws s = 0 \<Longrightarrow> om n (fold (goOn now) ws s)"
proof (induction ws arbitrary: s)
  case (Cons w ws)
  have w: "mainOp w \<noteq> Some (na_operation s)" using Cons.prems(3) by (simp add: current_waits_def split: if_splits)
  note g = stale_waiter [where now = now, OF Cons.prems(1) _ w]
  have "list_all (waiter_ok (goOn now w s)) ws" using Cons.prems(2) g(4) by (auto simp: list_all_iff)
  moreover have "current_waits ws (goOn now w s) = 0" using Cons.prems g(2) w by (simp add: current_waits_def)
  ultimately show ?case using Cons g(1) by simp
qed simp

lemma outdated_later:
  assumes "list_all (waiter_ok s) ws" and "current_waits ws s = 0" and "na_operation s \<le> na_operation s'"
  shows "list_all (waiter_ok s') ws \<and> current_waits ws s' = 0"
proof -
  have "waiter_ok s' w \<and> mainOp w \<noteq> Some (na_operation s')" if "w \<in> set ws" for w
  proof -
    have "waiter_ok s w" "mainOp w \<noteq> Some (na_operation s)"
      using assms that by (auto simp: list_all_iff current_waits_def filter_empty_conv)
    then show ?thesis using assms(3) by (cases w) auto
  qed
  then show ?thesis by (auto simp: list_all_iff current_waits_def filter_empty_conv)
qed

lemma waiters_go_on:
  "om n s \<Longrightarrow> n \<le> Suc 0 \<Longrightarrow> tidy s \<Longrightarrow> list_all (waiter_ok s) ws \<Longrightarrow> current_waits ws s + mains s \<le> n \<Longrightarrow>
    om n (fold (goOn now) ws s)"
proof (induction ws arbitrary: s)
  case (Cons w ws)
  show ?case
  proof (cases "mainOp w = Some (na_operation s)")
    case True
    then have "Suc (current_waits ws s + mains s) \<le> n" using Cons.prems(5) by (simp add: current_waits_def)
    then have z: "current_waits ws s = 0" "mains s = 0" "n = Suc 0" using Cons.prems(2) by linarith+
    obtain op en fs where w: "w = WAdvanceFill op en fs" "plain fs" "op = na_operation s" "na_advancing s = Some op" "na_filling s = None"
      using Cons.prems(4) True by (cases w) auto
    have "om (Suc 0) (goOn now w s)"
      unfolding w(1) goOn.simps using Cons.prems(1,3) w z by (intro runs_advanceGo) (auto simp: runs_def)
    moreover have "list_all (waiter_ok (goOn now w s)) ws \<and> current_waits ws (goOn now w s) = 0"
      using Cons.prems(4) z(1) operation_goOn by (intro outdated_later [of s]) auto
    ultimately show ?thesis using outdated_waiters z(3) by simp
  next
    case False
    note g = stale_waiter [where now = now, OF Cons.prems(1) _ False]
    have "tidy (goOn now w s)" using tidy_fold [OF Cons.prems(3), of now "[w]"] by simp
    moreover have "list_all (waiter_ok (goOn now w s)) ws" using Cons.prems(4) g(4) by (auto simp: list_all_iff)
    moreover have "current_waits ws (goOn now w s) + mains (goOn now w s) \<le> n"
      using Cons.prems(4,5) g(2,3) False by (simp add: current_waits_def)
    ultimately show ?thesis using Cons g(1) by simp
  qed
qed simp

text \<open>A fill settles.\<close>

lemma taken_waits:
  assumes "om n s" and "na_filling s = Some (na_generation s, en) \<Longrightarrow> filter (liveFill (na_generation s)) (na_waits s) = []"
  defines "s' \<equiv> snd (takeWaits (waitsForFill en) (clearFilling en s))" and "ws \<equiv> fst (takeWaits (waitsForFill en) (clearFilling en s))"
  shows "om n s' \<and> list_all (waiter_ok s') ws \<and> current_waits ws s' + mains s' \<le> n"
proof -
  have cf: "na_filling s \<noteq> Some (na_generation s, en) \<Longrightarrow> clearFilling en s = s"
    using om_facts(3) [OF assms(1), of _ en] by (cases "na_filling s") (auto simp: clearFilling_def split: if_splits)
  have cf': "na_filling s = Some (na_generation s, en) \<Longrightarrow> clearFilling en s = s\<lparr>na_filling := None\<rparr>"
    by (simp add: clearFilling_def)
  have s': "s' = s\<lparr>na_filling := (if na_filling s = Some (na_generation s, en) then None else na_filling s),
      na_waits := filter (\<lambda>w. \<not> waitsForFill en w) (na_waits s)\<rparr>"
    unfolding s'_def takeWaits_def snd_conv using cf cf' by (cases "na_filling s = Some (na_generation s, en)") simp_all
  have f: "na_operation s' = na_operation s" "na_generation s' = na_generation s" "na_current s' = na_current s" "na_pending s' = na_pending s"
    "na_advancing s' = na_advancing s" "na_controller s' = na_controller s" "na_wants s' = na_wants s" "speeches s' = speeches s"
    "na_entries s' = na_entries s" "na_waits s' = filter (\<lambda>w. \<not> waitsForFill en w) (na_waits s)"
    "na_filling s' = (if na_filling s = Some (na_generation s, en) then None else na_filling s)"
    unfolding s' by simp_all
  have ws: "ws = filter (waitsForFill en) (na_waits s)"
    unfolding ws_def takeWaits_def fst_conv by (cases "na_filling s") (auto simp: clearFilling_def)
  have ok: "waitOk s w" if "w \<in> set (na_waits s)" for w using om_facts(4) [OF assms(1) that] .
  have "waitOk s' w" if "w \<in> set (na_waits s)" "\<not> waitsForFill en w" for w
  proof -
    have "na_filling s = Some (na_generation s, en) \<Longrightarrow> \<not> liveFill (na_generation s) w"
      using assms(2) that(1) by (auto simp: filter_empty_conv)
    moreover have "lastPiece s' = lastPiece s" by (simp add: lastPiece_def f)
    ultimately show ?thesis using ok [OF that(1)] that(2)
      by (cases "na_filling s = Some (na_generation s, en)"; cases w) (simp_all add: f fresh_def, fastforce?)
  qed
  then have w: "list_all (waitOk s') (na_waits s')" by (simp add: f list_all_iff)
  have "waiter_ok s' w" if "w \<in> set (na_waits s)" "waitsForFill en w" for w
    using ok [OF that(1)] that(2) by (cases w) (auto simp: f)
  then have "list_all (waiter_ok s') ws" by (simp add: ws list_all_iff)
  moreover have "current_waits ws s' + mains s' = mains s"
    using sum_length_filter_compl [of "waitsForFill en" "filter (\<lambda>w. mainOp w = Some (na_operation s)) (na_waits s)"]
    by (simp add: current_waits_def mains_def f ws conj_commute)
  moreover have "filter (liveFill (na_generation s')) (na_waits s') = filter (liveFill (na_generation s)) (na_waits s)"
  proof -
    have "liveFill g w \<Longrightarrow> \<not> waitsForFill en w" for g w by (cases w) auto
    then show ?thesis by (auto simp: f(2,10) intro: filter_cong)
  qed
  ultimately show ?thesis using assms(1) w f(1-9,11)
    by (simp add: om_def ordered_def line_def spoken_ok_def)
qed

lemma om_settle:
  assumes "om n s" and "n \<le> Suc 0" and "tidy s"
    and "na_filling s = Some (na_generation s, en) \<Longrightarrow> filter (liveFill (na_generation s)) (na_waits s) = []"
  shows "om n (settleFill now en s)"
proof -
  have "tidy (clearFilling en s)" using assms(3) by (auto simp: clearFilling_def tidy_rules split: option.splits)
  then have "tidy (snd (takeWaits (waitsForFill en) (clearFilling en s)))" by (simp add: takeWaits_def tidy_rules)
  then show ?thesis unfolding settleFill_def case_prod_beta
    using taken_waits [OF assms(1,4)] assms(2) by (intro waiters_go_on) auto
qed

lemma om_await_fill:
  assumes "om n s" and "waitOk s (WFill f)" and "filter (liveFill (na_generation s)) (na_waits s) = []"
  shows "om n (await (WFill f) s)"
  using assms by (simp add: om_def ordered_def spoken_ok_def line_def list_all_iff mains_await)

text \<open>A fill that is not waiting: if it is of the current generation, it is the one that is noted.\<close>

definition filler :: "filling \<Rightarrow> narr \<Rightarrow> bool" where
  "filler f s \<longleftrightarrow> fl_entry f < na_entries s \<and> (fl_generation f = na_generation s \<longrightarrow> na_filling s = Some (na_generation s, fl_entry f)) \<and>
     (na_filling s = Some (na_generation s, fl_entry f) \<longrightarrow>
        fl_generation f = na_generation s \<and> filter (liveFill (na_generation s)) (na_waits s) = [])"

lemma om_fillDone: "om n s \<Longrightarrow> n \<le> Suc 0 \<Longrightarrow> tidy s \<Longrightarrow> filler f s \<Longrightarrow> om n (fillDone now f s)"
  unfolding fillDone_def by (rule om_settle) (auto simp: om_small tidy_rules filler_def split: if_splits)

lemma om_fillLoop:
  assumes "om n s" and "n \<le> Suc 0" and "tidy s" and "filler f s"
  shows "om n (fillLoop now f s)"
proof (cases "fl_seconds f < TTS_BUFFER_SECONDS \<and> na_source s = Some (fl_source f) \<and> fl_generation f = na_generation s")
  case True
  show ?thesis
  proof (cases "lastPiece s")
    case None
    then show ?thesis using True om_settle [OF assms(1-3), of "fl_entry f"] assms(4) by (simp add: fillLoop_def filler_def)
  next
    case (Some p)
    let ?s = "tell (ReadChunk (fl_source f) (nextIndex (Some p)) (calibratedTarget TTS_CHUNK_SECONDS s)) s"
    have "na_current s \<noteq> None" using Some om_facts(2) [OF assms(1)] by (metis lastPiece_def option.distinct(1))
    moreover have "lastPiece ?s = lastPiece s" by (simp add: lastPiece_def)
    ultimately have "om n (await (WFill (f\<lparr>fl_index := nextIndex (Some p)\<rparr>)) ?s)"
      using True assms Some by (intro om_await_fill om_small) (auto simp: filler_def)
    then show ?thesis using True Some by (simp add: fillLoop_def)
  qed
next
  case False
  then show ?thesis using om_fillDone [OF assms] by (auto simp: fillLoop_def)
qed

text \<open>Nobody is fetching the next chunk for the player.\<close>

fun fetches :: "nat \<Rightarrow> suspension \<Rightarrow> bool" where
  "fetches oper (WAdvanceChunk op i fs) = (op = oper)"
| "fetches oper (WBeginChunk op fs) = (op = oper)"
| "fetches oper (WJump op k back st) = (op = oper)"
| "fetches oper _ = False"

definition fetching :: "narr \<Rightarrow> bool" where
  "fetching s \<longleftrightarrow> list_ex (fetches (na_operation s)) (na_waits s)"

lemma om_newFill:
  assumes "om n s" and "na_filling s = None" and "\<not> fetching s"
  defines "s' \<equiv> s\<lparr>na_filling := Some (na_generation s, na_entries s), na_entries := na_entries s + 1\<rparr>"
  shows "om n s' \<and> filter (liveFill (na_generation s)) (na_waits s) = []"
proof -
  have "waitOk s' w \<and> \<not> liveFill (na_generation s) w" if "w \<in> set (na_waits s)" for w
  proof -
    have "waitOk s w" "\<not> fetches (na_operation s) w"
      using om_facts(4) [OF assms(1) that] assms(3) that by (auto simp: fetching_def list_ex_iff)
    then show ?thesis using assms(2) by (cases w) (auto simp: s'_def fresh_def lastPiece_def)
  qed
  then show ?thesis using assms(1)
    by (auto simp: s'_def om_def ordered_def list_all_iff mains_def spoken_ok_def line_def filter_empty_conv)
qed

lemma om_preload:
  assumes "om n s" and "n \<le> Suc 0" and "tidy s" and "\<not> fetching s"
  shows "om n (preloadBuffer now s)"
proof (cases "na_filling s")
  case None
  let ?s = "s\<lparr>na_filling := Some (na_generation s, na_entries s), na_entries := na_entries s + 1\<rparr>"
  have n: "om n ?s" "filter (liveFill (na_generation s)) (na_waits s) = []" using om_newFill [OF assms(1) None assms(4)] by auto
  have "om n (fillLoop now \<lparr>fl_entry = na_entries s, fl_generation = na_generation s, fl_source = k, fl_ratio = r, fl_seconds = x,
      fl_index = 0\<rparr> ?s)" for k r x
    using n assms(2,3) by (intro om_fillLoop) (auto simp: filler_def tidy_rules)
  then show ?thesis using None assms(1) by (auto simp: preloadBuffer_def split: option.splits)
next
  case (Some ge)
  obtain g e where ge: "ge = (g, e)" by (cases ge)
  have "g = na_generation s" using om_facts(3) [OF assms(1), of g e] Some ge by simp
  then show ?thesis using Some ge assms(1) by (auto simp: preloadBuffer_def split: option.splits)
qed

lemma om_fillGot:
  assumes o: "om (Suc 0) s" and t: "tidy s" and f: "filler f s"
    and l: "fl_generation f = na_generation s \<longrightarrow> na_current s \<noteq> None \<and> fl_index f = nextIndex (lastPiece s)"
    and h: "\<And>p. r = Inr (Some p) \<Longrightarrow> ck_startIndex (snd p) = fl_index f"
  shows "om (Suc 0) (fillGot now f r s)"
proof (cases "\<exists>p. r = Inr (Some p) \<and> fl_generation f = na_generation s")
  case True
  then obtain p where p: "r = Inr (Some p)" "fl_generation f = na_generation s" by blast
  let ?s = "s\<lparr>na_pending := na_pending s @ [p]\<rparr>"
  obtain c where c: "na_current s = Some c" using l p(2) by auto
  have lp: "lastPiece s = Some (last (c # na_pending s))" by (simp add: lastPiece_def c)
  have "chain (line ?s)"
  proof -
    have x: "c # na_pending s = butlast (c # na_pending s) @ [last (c # na_pending s)]" by (metis append_butlast_last_id list.distinct(1))
    have "chain (butlast (c # na_pending s) @ [last (c # na_pending s), p])"
      unfolding chain_snoc x [symmetric] using om_facts(1) [OF o] h [OF p(1)] l p(2) lp c by (simp add: line_def nextIndex_def)
    moreover have "line ?s = (c # na_pending s) @ [p]" by (simp add: line_def c)
    ultimately show ?thesis using x by (metis append.assoc append_Cons append_Nil)
  qed
  moreover have "waitOk ?s w" if "w \<in> set (na_waits s)" for w
  proof -
    have "\<not> liveFill (na_generation s) w" using f p(2) that by (auto simp: filler_def filter_empty_conv)
    then show ?thesis using om_facts(4) [OF o that] f p(2) by (cases w) (auto simp: filler_def fresh_def lastPiece_def)
  qed
  ultimately have "om (Suc 0) ?s" using o c by (auto simp: om_def ordered_def list_all_iff mains_def spoken_ok_def)
  moreover have "filler (f\<lparr>fl_seconds := x\<rparr>) ?s" for x using f by (simp add: filler_def)
  ultimately show ?thesis using p t by (simp add: fillGot_def om_fillLoop tidy_rules)
next
  case False
  then show ?thesis using om_fillDone [OF o _ t f] om_settle [OF o _ t, of "fl_entry f"] f
    by (auto simp: fillGot_def filler_def split: sum.splits option.splits)
qed

section \<open>The order is kept by every event\<close>

lemma no_fetching: "om 0 s \<Longrightarrow> \<not> fetching s"
proof -
  have "fetches oper w \<Longrightarrow> mainOp w = Some oper" for oper w by (cases w) auto
  then show "om 0 s \<Longrightarrow> ?thesis" by (auto simp: om_def mains_def fetching_def list_ex_iff filter_empty_conv)
qed

lemma runs_succeeded:
  assumes "runs (py_operation p) s" and "framed (py_operation p) (py_frames p)" and "tidy s"
  shows "om (Suc 0) (playSucceeded e p s)"
proof (cases "activeFor (py_operation p) s")
  case True
  then have "om 0 (dismissResumePrompt s)" using assms(1) om_runs(2) by (intro om_small) (simp add: activeFor_def)
  then have "om 0 (preloadBuffer (en_now e) (dismissResumePrompt s))"
    using no_fetching tidy_ends(6) [OF assms(3)] by (intro om_preload) auto
  then show ?thesis using True assms(2) by (simp add: playSucceeded_def runs_playReturn om_runs(1))
next
  case False
  then show ?thesis using assms by (simp add: playSucceeded_def runs_playReturn)
qed

lemma runs_thrown:
  assumes "runs (py_operation p) s" and "framed (py_operation p) (py_frames p)" and "py_operation p \<le> na_operation s"
    and "owns (py_controller p) s" and "na_controller s = Some (py_controller p) \<longrightarrow> na_current s = Some (py_piece p)"
  shows "om (Suc 0) (playThrown e err p s)"
proof -
  let ?p = "p\<lparr>py_fallback := True, py_ssml := en_plainSSML e (ck_ssml (snd (py_piece p))), py_attempt := 0\<rparr>"
  have "om (Suc 0) (playLoop (en_now e) ?p s)" using assms by (intro runs_loop) simp_all
  then show ?thesis using assms(1,2) by (simp add: playThrown_def runs_playReturn runs_small)
qed

lemma runs_speakAnswered:
  assumes "runs (py_operation p) s" and "framed (py_operation p) (py_frames p)" and "py_operation p \<le> na_operation s"
    and "owns (py_controller p) s" and "na_controller s = Some (py_controller p) \<longrightarrow> na_current s = Some (py_piece p)"
  shows "om (Suc 0) (speakAnswered e r p s)" "om (Suc 0) (retryElapsed e p s)"
proof -
  have t: "tidy s" using assms(4) by (simp add: owns_def)
  have "om (Suc 0) (await (WRetry (p\<lparr>py_retried := True\<rparr>)) s)"
    using assms by (intro runs_await [OF assms(1)]) simp_all
  then show "om (Suc 0) (speakAnswered e r p s)"
    using runs_thrown [OF assms] runs_succeeded [OF assms(1,2) t] by (simp add: speakAnswered_def split: sum.split)
  have "om (Suc 0) (speakAttempt (p\<lparr>py_attempt := py_attempt p + 1\<rparr>) s)" using assms by (intro runs_attempt) simp_all
  then show "om (Suc 0) (retryElapsed e p s)" using runs_thrown [OF assms] by (simp add: retryElapsed_def)
qed

lemma om_begin:
  assumes "om n s" and "n \<le> Suc 0" and "plain fs"
  shows "om (Suc 0) (beginNarration e cfi fs s)"
proof -
  let ?r = "(tell BeginSession (resetBuffer s))\<lparr>na_wants := True\<rparr>"
  let ?c = "OpenSource (na_sources ?r) (orElse (orElse cfi (en_savedCfi e)) (en_lastCfi e))"
  let ?s = "tell ?c (?r\<lparr>na_source := Some (na_sources ?r), na_sources := na_sources ?r + 1, na_preparing := True\<rparr>)"
  let ?t = "tell (ReadChunk (na_sources ?r) 0 (calibratedTarget TTS_FIRST_CHUNK_SECONDS ?s)) ?s"
  have r: "om 0 (resetBuffer s)" "fresh (resetBuffer s)" using om_reset [OF assms(1)] by auto
  have "om 0 ?t" by (intro om_small r(1)) simp_all
  moreover have "fresh ?t" using r(2) by (simp add: fresh_def)
  ultimately have "om (Suc 0) (await (WBeginChunk (na_operation ?r) fs) ?t)"
    using assms(3) by (intro runs_await [OF om_runs(1)]) auto
  moreover have "om (Suc 0) (unwind True fs s)" using assms by (intro om_unwind_plain) (auto simp: om_def)
  ultimately show ?thesis by (simp add: beginNarration_def Let_def)
qed

lemma runs_beginGot:
  assumes "runs op s" and "tidy s" and "plain fs" and "op = na_operation s \<longrightarrow> na_filling s = None \<and> na_pending s = [] \<and> fresh s"
  shows "om (Suc 0) (beginGot now op fs r s)"
proof -
  have p: "om (Suc 0) (playChunk now p op (BeginFrame op # fs) s)" if a: "activeFor op s" for p
  proof -
    have op: "op = na_operation s" using a by (simp add: activeFor_def)
    have "next_ok p (na_pending s) s" using assms(4) op follows_fresh by (simp add: next_ok_def)
    from om_playChunk [OF om_runs(2) [OF assms(1) op] assms(2) a this, of "BeginFrame op # fs"] show ?thesis using assms(3) by simp
  qed
  have "om (Suc 0) s" using assms(1) by (simp add: runs_def)
  then show ?thesis using p assms(3) om_mono [OF om_stop(1)]
    by (auto simp: beginGot_def split: sum.splits option.splits intro!: om_small om_unwind_plain)
qed

lemma om_resume:
  assumes "om (Suc 0) s" and "tidy s"
  shows "om (Suc 0) (resumeNarration e s)"
proof -
  define t where "t = s\<lparr>na_wants := True, na_operation := na_operation s + 1, na_resuming := Some (na_operation s + 1)\<rparr>"
  have o: "om 0 t" unfolding t_def by (rule om_bumped [OF assms(1)]) simp_all
  have tt: "tidy t" unfolding t_def using assms(2) by (intro tidy_rules) simp_all
  have "om (Suc 0) (await (WResumeAudio (na_operation s + 1)) (tell PlayerResume t))"
    by (rule om_await [OF om_mono [OF om_small(1) [OF o]]]) simp_all
  moreover have "om (Suc 0) (advance (en_now e) [ResumeAdvance (na_operation s + 1)] t)" using o tt by (intro om_advance) simp_all
  moreover have "om (Suc 0) (playChunk (en_now e) c (na_operation s + 1) [ResumePlay (na_operation s + 1)] t)" if "na_current t = Some c" for c
  proof -
    have "follows (last (speeches t)) (na_generation t, c)" if "speeches t \<noteq> []" using follows_current [OF o _ that] \<open>na_current t = Some c\<close> by simp
    then have "next_ok c (na_pending t) t" using om_facts(1) [OF o] that by (simp add: next_ok_def lastPiece_def line_def)
    from om_playChunk [OF o tt _ this, of "na_operation s + 1" "[ResumePlay (na_operation s + 1)]"] show ?thesis
      by (simp add: activeFor_def t_def)
  qed
  moreover have "om (Suc 0) (beginNarration e None [ResumeBegin (na_operation s + 1)] t)" by (rule om_begin [OF o]) simp_all
  moreover have "om (Suc 0) (sleepStop s)" by (rule om_mono [OF om_stop(2) [OF assms(1)]])
  moreover have "resumeNarration e s =
    (if na_resuming s \<noteq> None then s
     else if sleepDue (en_now e) s then sleepStop s
     else if na_state s = PlayingN \<and> \<not> en_needsResume e \<and> \<not> en_hasEnded e then s\<lparr>na_wants := True\<rparr>
     else if en_hasCurrentAudio e then await (WResumeAudio (na_operation s + 1)) (tell PlayerResume t)
     else if en_hasEnded e then advance (en_now e) [ResumeAdvance (na_operation s + 1)] t
     else case na_current t of
         Some c \<Rightarrow> playChunk (en_now e) c (na_operation s + 1) [ResumePlay (na_operation s + 1)] t
       | None \<Rightarrow> beginNarration e None [ResumeBegin (na_operation s + 1)] t)"
    by (simp add: resumeNarration_def Let_def t_def split: option.split)
  ultimately show ?thesis using assms(1) om_small(9) [OF assms(1)] by (cases "na_current t") simp_all
qed

lemma runs_resumeAnswered: "om (Suc 0) s \<Longrightarrow> om (Suc 0) (resumeAnswered op ok s)"
  by (simp add: resumeAnswered_def om_unwind_plain om_small del: unwind.simps)

text \<open>A jump that is still current: nothing is pending, nothing was spoken since it began.\<close>

definition jumping :: "nat \<Rightarrow> narr \<Rightarrow> bool" where
  "jumping op s \<longleftrightarrow> runs op s \<and> tidy s \<and> op \<le> na_operation s \<and> (op = na_operation s \<longrightarrow>
     na_wants s \<and> na_filling s = None \<and> na_controller s = None \<and> na_pending s = [] \<and> fresh s)"

lemma jumping_await: "jumping op s \<Longrightarrow> speech c = None \<Longrightarrow> om (Suc 0) (await (WJump op k back st) (tell c s))"
  by (rule runs_await [OF runs_small(1)]) (auto simp: jumping_def fresh_def)

lemma jumping_om: "jumping op s \<Longrightarrow> om (Suc 0) s"
  by (simp add: jumping_def runs_def)

lemma om_jumps:
  assumes "jumping op s"
  shows "om (Suc 0) (jumpFailed op s)" "om (Suc 0) (jumpTarget op k back i s)" "om (Suc 0) (jumpAdjacent op k back ch s)"
    "om (Suc 0) (jumpPreviousGot e op k back j c s)" "om (Suc 0) (jumpAdjacentGot op k back ch i a s)" "om (Suc 0) (jumpTargetGot now op d s)"
proof -
  have o: "om (Suc 0) s" by (rule jumping_om [OF assms])
  show f: "om (Suc 0) (jumpFailed op s)" using o by (simp add: jumpFailed_def om_small)
  show t: "om (Suc 0) (jumpTarget op k back i s)" for i using assms by (simp add: jumpTarget_def jumping_await)
  show a: "om (Suc 0) (jumpAdjacent op k back ch s)" for ch
    using assms f by (auto simp: jumpAdjacent_def jumping_await split: option.splits)
  show "om (Suc 0) (jumpPreviousGot e op k back j c s)"
    using o t a om_begin [OF o, of "[]"] by (auto simp: jumpPreviousGot_def split: option.splits)
  show "om (Suc 0) (jumpAdjacentGot op k back ch i a s)"
    using o t assms om_mono [OF om_stop(1) [OF o]] by (auto simp: jumpAdjacentGot_def jumping_await split: option.splits)
  have "om (Suc 0) (playChunk now p op [] s)" if op: "op = na_operation s" for p
  proof -
    have "next_ok p (na_pending s) s" "activeFor op s"
      using assms op follows_fresh by (auto simp: jumping_def next_ok_def activeFor_def)
    then show ?thesis
      using om_playChunk [OF om_runs(2) [OF _ op], of op p "na_pending s" "[]" now] assms by (simp add: jumping_def)
  qed
  then show "om (Suc 0) (jumpTargetGot now op d s)"
    using o om_mono [OF om_stop(1) [OF o]] by (auto simp: jumpTargetGot_def split: option.splits)
qed

lemma om_jump:
  assumes "om (Suc 0) s" and "tidy s"
  shows "om (Suc 0) (jump back e s)"
proof -
  have r: "om 0 (jumpReset s) \<and> fresh (jumpReset s)" by (rule om_renewed [OF assms(1)]) (simp_all add: jumpReset_def Let_def)
  have "tidy (jumpReset s)" using assms(2) by (rule tidy_rules)
  then have j: "jumping (na_operation (jumpReset s)) (jumpReset s)"
    using r om_runs(1) by (simp add: jumping_def) (simp add: jumpReset_def Let_def)
  have "om (Suc 0) (await (WJump (na_operation (jumpReset s)) k back FirstPrevious) (tell (ReadPreviousCFI cfi) (jumpReset s)))" for k cfi
    using j by (rule jumping_await) simp
  then show ?thesis using assms(1) om_jumps(3) [OF j] by (auto simp: jump_def Let_def split: option.split)
qed

lemma om_settings:
  assumes "om (Suc 0) s"
  shows "om (Suc 0) (updateSettings e st s)"
proof -
  let ?s = "tell (SaveSession True) (tell (SetSettings st) (s\<lparr>na_settings := st\<rparr>))"
  have s: "om (Suc 0) ?s" by (intro om_small assms) simp_all
  have "om (Suc 0) (backendPause (resetBuffer ?s))" by (rule om_small(6) [OF om_mono [OF conjunct1 [OF om_reset [OF s]]]])
  moreover have "om (Suc 0) (tell Highlight (?s\<lparr>na_highlighted := False\<rparr>))" by (intro om_small s) simp_all
  moreover have "om (Suc 0) (beginNarration e None [] ?s)" by (rule om_begin [OF s]) simp_all
  ultimately show ?thesis using s assms by (simp add: updateSettings_def Let_def)
qed

lemma om_foreground:
  assumes "om (Suc 0) s" and "tidy s"
  shows "om (Suc 0) (foregroundResume e s)"
proof -
  let ?s = "tell Highlight (tell (SaveSession False) s)"
  have s: "om (Suc 0) ?s" "tidy ?s" using assms(2) by (auto intro!: om_small assms(1) tidy_rules)
  have "om (Suc 0) (sleepStop s)" by (rule om_mono [OF om_stop(2) [OF assms(1)]])
  then show ?thesis using s assms(1) om_resume [OF s] by (simp add: foregroundResume_def Let_def om_small)
qed

text \<open>The wait that is answered is taken from the list.\<close>

definition without :: "nat \<Rightarrow> narr \<Rightarrow> narr" where
  "without i s = s\<lparr>na_waits := take i (na_waits s) @ drop (Suc i) (na_waits s)\<rparr>"

lemma without_fields [simp]:
  "na_operation (without i s) = na_operation s" "na_generation (without i s) = na_generation s" "na_current (without i s) = na_current s"
  "na_pending (without i s) = na_pending s" "na_filling (without i s) = na_filling s" "na_advancing (without i s) = na_advancing s"
  "na_controller (without i s) = na_controller s" "na_wants (without i s) = na_wants s" "speeches (without i s) = speeches s"
  "na_entries (without i s) = na_entries s" "lastPiece (without i s) = lastPiece s" "fresh (without i s) = fresh s"
  by (simp_all add: without_def lastPiece_def fresh_def)

lemma waitOk_without [simp]: "waitOk (without i s) w = waitOk s w"
  by (cases w) simp_all

lemma filter_without:
  assumes "i < length (na_waits s)" and "P (na_waits s ! i)"
  shows "length (filter P (na_waits s)) = Suc (length (filter P (na_waits (without i s))))"
  by (subst id_take_nth_drop [OF assms(1)]) (simp add: without_def assms(2))

lemma om_without:
  assumes "om n s"
  shows "om n (without i s)"
proof -
  have l: "length (filter P (take i xs @ drop (Suc i) xs)) \<le> length (filter P xs)" for P and xs :: "suspension list"
  proof (cases "i < length xs")
    case True
    then show ?thesis by (subst (3) id_take_nth_drop [OF True]) simp
  qed simp
  have "list_all (waitOk s) (take i (na_waits s) @ drop (Suc i) (na_waits s))"
    using assms by (intro list_all_removed) (simp add: om_def ordered_def)
  then have "list_all (waitOk (without i s)) (na_waits (without i s))" by (simp add: list_all_iff) (simp add: without_def)
  moreover have "length (filter (liveFill (na_generation s)) (na_waits (without i s))) \<le> length (filter (liveFill (na_generation s)) (na_waits s))"
    "mains (without i s) \<le> mains s"
    using l by (auto simp: mains_def without_def)
  ultimately show ?thesis using assms by (auto simp: om_def ordered_def line_def spoken_ok_def)
qed

lemma runs_without:
  assumes "om (Suc 0) s" and "i < length (na_waits s)" and "mainOp (na_waits s ! i) = Some op"
  shows "runs op (without i s)"
  using assms om_without [OF assms(1), of i] filter_without [OF assms(2), of "\<lambda>w. mainOp w = Some (na_operation s)"]
  by (auto simp: runs_def om_def mains_def)

lemma filler_without:
  assumes "om n s" and "i < length (na_waits s)" and "na_waits s ! i = WFill f"
  shows "filler f (without i s)"
proof -
  have ok: "waitOk s (WFill f)" using om_facts(4) [OF assms(1)] nth_mem [OF assms(2)] assms(3) by metis
  have "filter (liveFill (na_generation s)) (na_waits (without i s)) = []" if "fl_generation f = na_generation s"
    using filter_without [OF assms(2), of "liveFill (na_generation s)"] assms(1,3) that by (simp add: om_def ordered_def)
  then show ?thesis using ok by (auto simp: filler_def)
qed

text \<open>A chunk that was read from an index begins there.\<close>

fun honestAnswer :: "suspension \<Rightarrow> answer \<Rightarrow> bool" where
  "honestAnswer (WFill f) (GotChunk (Inr (Some c))) \<longleftrightarrow> ck_startIndex c = fl_index f"
| "honestAnswer (WAdvanceChunk op i fs) (GotChunk (Inr (Some c))) \<longleftrightarrow> ck_startIndex c = i"
| "honestAnswer _ _ \<longleftrightarrow> True"

lemma runs_pieces: "runs op s \<Longrightarrow> runs op (s\<lparr>na_pieces := k\<rparr>)"
  by (simp add: runs_def om_small mains_def)

lemma om_fillAnswered:
  assumes "om (Suc 0) s" and "tidy s" and "i < length (na_waits s)" and "na_waits s ! i = WFill f"
    and h: "honestAnswer (WFill f) (GotChunk r)"
  shows "om (Suc 0) (chunkGot now (WFill f) r (without i s))"
proof -
  let ?s = "without i s"
  have ok: "waitOk s (WFill f)" using om_facts(4) [OF assms(1)] nth_mem [OF assms(3)] assms(4) by metis
  have t: "tidy ?s" using tidy_removed [OF assms(2,3)] by (simp add: without_def)
  note o = om_without [OF assms(1), of i] and f = filler_without [OF assms(1,3,4)]
  show ?thesis
  proof (cases r)
    case (Inl u)
    then show ?thesis using om_fillGot [OF o t f, of "Inl u" now] ok by simp
  next
    case (Inr c)
    let ?t = "?s\<lparr>na_pieces := na_pieces ?s + 1\<rparr>"
    have "om (Suc 0) (fillGot now f (Inr (map_option (Pair (na_pieces ?s)) c)) ?t)"
    proof (rule om_fillGot)
      show "om (Suc 0) ?t" "tidy ?t" using o t by (auto intro: om_small tidy_rules)
      show "filler f ?t" using f by (simp add: filler_def)
      show "fl_generation f = na_generation ?t \<longrightarrow> na_current ?t \<noteq> None \<and> fl_index f = nextIndex (lastPiece ?t)"
        using ok by (auto simp: lastPiece_def)
      show "ck_startIndex (snd p) = fl_index f" if "Inr (map_option (Pair (na_pieces ?s)) c) = Inr (Some p)" for p :: piece
        using that h Inr by auto
    qed
    then show ?thesis using Inr by (simp add: newPiece_def)
  qed
qed

lemma runs_advanceFailed: "runs op s \<Longrightarrow> plain fs \<Longrightarrow> om (Suc 0) (advanceFailed op fs s)"
  unfolding advanceFailed_def by (rule runs_unwind [of op]) (auto intro: runs_small)

lemma om_chunkAnswered:
  assumes "om (Suc 0) s" and "tidy s" and "i < length (na_waits s)" and "w = na_waits s ! i" and "honestAnswer w (GotChunk r)"
  shows "om (Suc 0) (chunkGot now w r (without i s))"
proof -
  let ?s = "without i s"
  define t where "t = ?s\<lparr>na_pieces := Suc (na_pieces ?s)\<rparr>"
  have ok: "waitOk s w" using om_facts(4) [OF assms(1)] nth_mem [OF assms(3)] assms(4) by metis
  have o: "om (Suc 0) ?s" by (rule om_without [OF assms(1)])
  have ty: "tidy ?s" "tidy t" using tidy_removed [OF assms(2,3)] by (auto simp: without_def t_def intro: tidy_rules)
  have r: "runs op ?s \<and> runs op t" if "mainOp w = Some op" for op
    using runs_without [OF assms(1,3)] runs_pieces that assms(4) by (auto simp: t_def)
  have tf: "na_operation t = na_operation s" "na_wants t = na_wants s" "na_current t = na_current s" "na_pending t = na_pending s"
    "na_filling t = na_filling s" "na_controller t = na_controller s" "fresh t = fresh s"
    by (simp_all add: t_def fresh_def)
  show ?thesis
  proof (cases w)
    case (WFill f)
    then show ?thesis using om_fillAnswered [OF assms(1-3)] assms(4,5) by simp
  next
    case (WAdvanceChunk op j fs)
    have p: "plain fs" using ok WAdvanceChunk by simp
    have "got_ok op (map_option (Pair (na_pieces ?s)) c) t" if "r = Inr c" for c
      unfolding got_ok_def using r [of op] WAdvanceChunk ok assms(5) that
      by (auto simp: tf activeFor_def runs_def intro!: next_read [of "Suc 0"])
    then have "om (Suc 0) (advanceGot now op fs (map_option (Pair (na_pieces ?s)) c) t)" if "r = Inr c" for c
      using that r [of op] WAdvanceChunk ty p by (intro runs_advanceGot) auto
    then show ?thesis using r [of op] WAdvanceChunk p runs_advanceFailed
      by (auto simp: newPiece_def t_def [symmetric] split: sum.split)
  next
    case (WBeginChunk op fs)
    have "om (Suc 0) (beginGot now op fs x ?s)" "om (Suc 0) (beginGot now op fs x t)" for x
      using r [of op] WBeginChunk ok ty by (auto simp: tf intro!: runs_beginGot)
    then show ?thesis using WBeginChunk by (auto simp: newPiece_def t_def [symmetric] split: sum.split)
  next
    case (WJump op k bk st)
    have "jumping op ?s" "jumping op t" using r [of op] WJump ok ty by (auto simp: jumping_def tf)
    then show ?thesis using WJump om_jumps(1,6) by (auto simp: newPiece_def t_def [symmetric] split: sum.split)
  qed (use o in simp_all)
qed

lemma om_answered:
  assumes "om (Suc 0) s" and "tidy s" and "i < length (na_waits s)" and "w = na_waits s ! i" and "honestAnswer w a"
  shows "om (Suc 0) (answered e w a (without i s))"
proof -
  let ?s = "without i s"
  have ok: "waitOk s w" using om_facts(4) [OF assms(1)] nth_mem [OF assms(3)] assms(4) by metis
  have o: "om (Suc 0) ?s" by (rule om_without [OF assms(1)])
  have ty: "tidy ?s" using tidy_removed [OF assms(2,3)] by (simp add: without_def)
  have r: "mainOp w = Some op \<Longrightarrow> runs op ?s" for op using runs_without [OF assms(1,3)] assms(4) by simp
  have j: "jumping op ?s" if "w = WJump op k bk st" for op k bk st using r [of op] ok ty that by (auto simp: jumping_def)
  have own: "controllerOf w = [c] \<Longrightarrow> owns c ?s" for c using owns_removed [OF assms(2,3)] assms(4) by (simp add: without_def)
  have sp: "om (Suc 0) (speakAnswered e x p ?s)" if "w = WSpeak p" for x p
    using that ok r [of "py_operation p"] own by (intro runs_speakAnswered) auto
  have re: "om (Suc 0) (retryElapsed e p ?s)" if "w = WRetry p" for p
    using that ok r [of "py_operation p"] own by (intro runs_speakAnswered) auto
  have wk: "om (Suc 0) (unwind True fs ?s)" if "w = WWake fs" for fs using that ok o by (simp add: om_unwind_plain)
  have ch: "om (Suc 0) (chunkGot now w x ?s)" if "a = GotChunk x" for now x
    using om_chunkAnswered [OF assms(1-4)] assms(5) that by simp
  show ?thesis
    using o sp re wk ch runs_resumeAnswered [OF o] j [THEN om_jumps(1)] j [THEN om_jumps(4)] j [THEN om_jumps(5)]
    by (cases "(e, w, a, ?s)" rule: answered.cases) (auto split: sum.split)
qed

text \<open>
  What the surroundings must respect. A chunk read from an index begins there. The player asks for further
  chunks and reports the end of a chunk only while a chunk is loaded: not while the next one is being read
  or jumped to, and it reports no end while a chunk is still being requested.
\<close>

fun requests :: "nat \<Rightarrow> suspension \<Rightarrow> bool" where
  "requests oper (WSpeak p) = (py_operation p = oper)"
| "requests oper (WRetry p) = (py_operation p = oper)"
| "requests oper (WBeginChunk op fs) = (op = oper)"
| "requests oper (WJump op k back st) = (op = oper)"
| "requests oper _ = False"

definition requesting :: "narr \<Rightarrow> bool" where
  "requesting s \<longleftrightarrow> list_ex (requests (na_operation s)) (na_waits s)"

fun proper :: "event \<Rightarrow> narr \<Rightarrow> bool" where
  "proper (NTrigger now) s \<longleftrightarrow> \<not> fetching s"
| "proper (NEnded now) s \<longleftrightarrow> \<not> requesting s"
| "proper (NAnswer i a e) s \<longleftrightarrow> (i < length (na_waits s) \<longrightarrow> honestAnswer (na_waits s ! i) a)"
| "proper _ s \<longleftrightarrow> True"

fun proper_run :: "event list \<Rightarrow> narr \<Rightarrow> bool" where
  "proper_run [] s \<longleftrightarrow> True"
| "proper_run (ev # es) s \<longleftrightarrow> proper ev s \<and> proper_run es (narr_step ev s)"

text \<open>If the player reports an end, the hook is waiting for nothing or is advancing already.\<close>

lemma advance_blocked:
  assumes "om n s" and "\<not> requesting s" and "mains s \<noteq> 0"
  shows "na_advancing s \<noteq> None"
proof -
  obtain w where w: "w \<in> set (na_waits s)" "mainOp w = Some (na_operation s)"
    using assms(3) by (auto simp: mains_def filter_empty_conv)
  have "waitOk s w" "\<not> requests (na_operation s) w"
    using om_facts(4) [OF assms(1) w(1)] assms(2) w(1) by (auto simp: requesting_def list_ex_iff)
  then show ?thesis using w(2) by (cases w) auto
qed

lemma om_ended:
  assumes "om (Suc 0) s" and "tidy s" and "\<not> requesting s"
  shows "om (Suc 0) (advance now [] s)"
proof (cases "mains s = 0")
  case True
  then have "om 0 s" using assms(1) by (simp add: om_def)
  then show ?thesis using assms(2) by (rule om_advance) simp
next
  case False
  then show ?thesis using advance_blocked [OF assms(1,3)] assms(1) by (simp add: advance_def)
qed

lemma om_time: "om n s \<Longrightarrow> om n (timeUpdated now d s)"
proof -
  assume o: "om n s"
  have "om n (if sleepDue now t then sleepStop t else t)" if "om n t" for t using that om_mono [OF om_stop(2) [OF that]] by simp
  then show ?thesis using o by (auto simp: timeUpdated_def Let_def om_small split: option.split)
qed

lemma om_start: "om (Suc 0) s \<Longrightarrow> tidy s \<Longrightarrow> om (Suc 0) (startNarration e s)"
  using om_mono [OF om_pause] om_resume om_begin [of "Suc 0" s "[]"] by (simp add: startNarration_def)

lemma om_unmount: "om n s \<Longrightarrow> om n (unmountNarration s)"
proof -
  assume "om n s"
  then have "om 0 (resetBuffer (tell (SaveSession True) (s\<lparr>na_wants := False\<rparr>)))"
    by (rule om_renewed [THEN conjunct1]) simp_all
  from om_small(11) [OF om_small(1) [OF om_mono [OF this, of n], of ClearPreload]] show ?thesis
    by (simp add: unmountNarration_def om_small(1))
qed

lemma om_step:
  assumes "om (Suc 0) s" and "tidy s" and "proper ev s"
  shows "om (Suc 0) (narr_step ev s)"
proof (cases ev)
  case (NAnswer i a e)
  then show ?thesis using om_answered [OF assms(1,2), of i _ a e] assms(1,3) by (auto simp: answerStep_def without_def)
next
  case (NSleepTimeout)
  then show ?thesis using assms(1) om_mono [OF om_stop(1) [OF om_small(10) [OF assms(1)]]] by (simp add: sleepTimeout_def)
next
  case (NTrigger now)
  then show ?thesis using assms by (simp add: om_preload)
next
  case (NGesture e)
  then show ?thesis using assms om_foreground [OF assms(1,2)] by (simp add: gestureResume_def)
next
  case (NSettings e st)
  then show ?thesis using om_settings [OF assms(1)] by simp
next
  case NPause
  then show ?thesis using om_mono [OF om_pause [OF assms(1)]] by simp
next
  case NStop
  then show ?thesis using om_mono [OF om_stop(1) [OF assms(1)]] by simp
qed (use assms in \<open>simp_all add: om_ended om_time om_start om_resume om_jump om_foreground om_unmount om_small
    setSleepTimerForMinutes_def markChanged_def narrationHidden_def Let_def\<close>)

lemma om_init: "om (Suc 0) (narr_init st)"
  by (simp add: narr_init_def om_def ordered_def line_def spoken_ok_def speeches_def mains_def somes_def)

lemma om_run: "om (Suc 0) s \<Longrightarrow> tidy s \<Longrightarrow> proper_run es s \<Longrightarrow> om (Suc 0) (narr_run es s)"
  unfolding narr_run_def by (induction es arbitrary: s) (auto intro: om_step tidy_step)

section \<open>Runs\<close>

text \<open>The first chunk is read and played, a second one is prepared, and played at the end of the first.\<close>

definition sampleRun :: "event list" where
  "sampleRun = [NStart examplePage, NAnswer 0 (GotChunk (Inr (Some (exampleChunk 0 3)))) examplePage,
     NAnswer 0 (GotSpeech (Inr ())) examplePage, NAnswer 0 (GotChunk (Inr (Some (exampleChunk 4 6)))) examplePage, NEnded 0]"

section \<open>A reader that leaves nothing out\<close>

text \<open>
  The specification of the narration: a reader that has read a chunk may read it again, go on with the chunk
  that begins behind it, or, when a new generation was begun by the user, with any chunk.
\<close>

type_synonym reader = "(nat \<times> piece) option"

fun accept :: "nat \<times> piece \<Rightarrow> reader \<Rightarrow> reader option" where
  "accept x None = Some (Some x)"
| "accept (h, q) (Some (g, p)) =
    (if g < h \<or> g = h \<and> (q = p \<or> ck_startIndex (snd q) = ck_endIndex (snd p) + 1) then Some (Some (h, q)) else None)"

definition narrator :: "(nat \<times> piece) list \<Rightarrow> reader option" where
  "narrator xs = fold (\<lambda>x r. Option.bind r (accept x)) xs (Some None)"

lemma narrator_follows: "successively follows xs \<Longrightarrow> narrator xs = Some (if xs = [] then None else Some (last xs))"
proof (induction xs rule: rev_induct)
  case (snoc x xs)
  then have "narrator xs = Some (if xs = [] then None else Some (last xs))" "xs \<noteq> [] \<Longrightarrow> follows (last xs) x"
    by (auto simp: successively_append_iff)
  then show ?case by (cases "last xs"; cases x) (auto simp: narrator_def)
qed (simp add: narrator_def)

text \<open>How far the hook has come, as that reader sees it.\<close>

definition readSoFar :: "narr \<Rightarrow> reader" where
  "readSoFar s = (if speeches s = [] then None else Some (last (speeches s)))"



section \<open>The speech buffer as the source of the chunks\<close>

text \<open>Runs in which the chunks read behind another one come from a given source.\<close>

fun deliveredAnswer :: "(nat \<Rightarrow> audioChunk \<Rightarrow> bool) \<Rightarrow> suspension \<Rightarrow> answer \<Rightarrow> bool" where
  "deliveredAnswer d (WFill f) (GotChunk (Inr (Some c))) \<longleftrightarrow> d (fl_index f) c"
| "deliveredAnswer d (WAdvanceChunk op i fs) (GotChunk (Inr (Some c))) \<longleftrightarrow> d i c"
| "deliveredAnswer d _ _ \<longleftrightarrow> True"

fun delivered :: "(nat \<Rightarrow> audioChunk \<Rightarrow> bool) \<Rightarrow> event \<Rightarrow> narr \<Rightarrow> bool" where
  "delivered d (NTrigger now) s \<longleftrightarrow> \<not> fetching s"
| "delivered d (NEnded now) s \<longleftrightarrow> \<not> requesting s"
| "delivered d (NAnswer i a e) s \<longleftrightarrow> (i < length (na_waits s) \<longrightarrow> deliveredAnswer d (na_waits s ! i) a)"
| "delivered d _ s \<longleftrightarrow> True"

fun delivered_run :: "(nat \<Rightarrow> audioChunk \<Rightarrow> bool) \<Rightarrow> event list \<Rightarrow> narr \<Rightarrow> bool" where
  "delivered_run d [] s \<longleftrightarrow> True"
| "delivered_run d (ev # es) s \<longleftrightarrow> delivered d ev s \<and> delivered_run d es (narr_step ev s)"

locale chunk_source =
  fixes delivers :: "nat \<Rightarrow> audioChunk \<Rightarrow> bool"
  assumes begins_there: "delivers i c \<Longrightarrow> ck_startIndex c = i"
begin

lemma delivered_proper: "delivered delivers ev s \<Longrightarrow> proper ev s"
proof -
  have "deliveredAnswer delivers w a \<Longrightarrow> honestAnswer w a" for w a
    using begins_there by (cases "(w, a)" rule: honestAnswer.cases) simp_all
  then show "delivered delivers ev s \<Longrightarrow> ?thesis" by (cases ev) auto
qed

lemma delivered_run_proper: "delivered_run delivers es s \<Longrightarrow> proper_run es s"
  by (induction es arbitrary: s) (auto intro: delivered_proper)

lemma narrated_in_order: "delivered_run delivers es (narr_init st) \<Longrightarrow> successively follows (speeches (narr_run es (narr_init st)))"
  using om_facts(5) [OF om_run [OF om_init tidy_init delivered_run_proper]] by (simp add: spoken_ok_def)

end

text \<open>What \<^verbatim>\<open>readChunk\<close> of the speech buffer returns for an index, with any settings and any state of the buffer.\<close>

definition readFrom :: "nat \<Rightarrow> audioChunk \<Rightarrow> bool" where
  "readFrom i c \<longleftrightarrow> (\<exists>env voice style target rate b. fst (readChunk env voice style i target rate b) = Inr (Some c))"

lemma readChunk_begins_there: "fst (readChunk env voice style i target rate b) = Inr (Some c) \<Longrightarrow> ck_startIndex c = i"
  by (auto simp: readChunk_def finishChunk_def Let_def split: jsnum.splits if_splits prod.splits sum.splits bool.splits)

interpretation buffer: chunk_source readFrom
  using readChunk_begins_there by unfold_locales (auto simp: readFrom_def)

lemma buffer_narrated_in_order:
  "delivered_run readFrom es (narr_init st) \<Longrightarrow> narrator (speeches (narr_run es (narr_init st))) = Some (readSoFar (narr_run es (narr_init st)))"
  using narrator_follows [OF buffer.narrated_in_order] by (simp add: readSoFar_def)

section \<open>What happens otherwise\<close>

text \<open>
  The condition on the player matters: \<^verbatim>\<open>jump\<close> empties the pending chunks and forgets the fill, but keeps the
  current chunk until the target was read. If the player asks for further chunks in between, they are taken
  from behind the old chunk, and are read after the target of the jump.
\<close>

definition jumpRun :: "event list" where
  "jumpRun = [NStart examplePage, NAnswer 0 (GotChunk (Inr (Some (exampleChunk 0 3)))) examplePage,
     NAnswer 0 (GotSpeech (Inr ())) examplePage, NJump False examplePage, NTrigger 0,
     NAnswer 3 (GotChunk (Inr (Some (exampleChunk 4 6)))) examplePage, NAnswer 2 (GotIndex (Inr (Some 1))) examplePage,
     NAnswer 2 (GotChunk (Inr (Some (exampleChunk 1 2)))) examplePage, NAnswer 2 (GotSpeech (Inr ())) examplePage, NEnded 0]"

lemma fill_during_jump_skips_text:
  "speeches (narr_run jumpRun (narr_init exampleSettings)) =
     [(1, 0, exampleChunk 0 3), (2, 2, exampleChunk 1 2), (2, 1, exampleChunk 4 6)]"
  by code_simp

text \<open>
  A chunk that ends while a fill is under way makes \<^verbatim>\<open>advance\<close> wait for it. A resume in between begins a new
  operation, and its own \<^verbatim>\<open>advance\<close> returns at once, because the old one is still noted as advancing; when the
  fill is done, the old one sees that it is outdated. The narration is wanted, but nothing goes on.
\<close>

definition stallRun :: "event list" where
  "stallRun = [NStart examplePage, NAnswer 0 (GotChunk (Inr (Some (exampleChunk 0 3)))) examplePage,
     NAnswer 0 (GotSpeech (Inr ())) examplePage, NAnswer 1 WakeSettled examplePage, NState PlayingN, NState PausedN, NEnded 0,
     NForeground (examplePage\<lparr>en_hasEnded := True\<rparr>), NAnswer 0 (GotChunk (Inr (Some (exampleChunk 4 6)))) examplePage]"

lemma resume_during_advance_stalls:
  "let s = narr_run stallRun (narr_init exampleSettings) in
     na_wants s \<and> na_waits s = [] \<and> na_pending s = [(1, exampleChunk 4 6)] \<and> speeches s = [(1, 0, exampleChunk 0 3)]"
  by code_simp

end
