(* ===== verification/Js_Regex.thy ===== *)
theory Js_Regex
  imports Uri_Component
begin

text \<open>
  The regular expressions of JavaScript, as far as the program uses them: without groups that are read, without
  back references, and with greedy quantifiers only. Matching is by backtracking: the ends of the possible matches
  from a position, in the order in which the engine tries them. With the flag \<^verbatim>\<open>u\<close> a class is asked about code
  points, otherwise about code units. An iteration of a quantifier that matches nothing ends it, as in the
  language definition.
\<close>

section \<open>Matching\<close>

datatype regex =
    Nothing
  | Chars "nat \<Rightarrow> bool"
  | Then regex regex
  | Or regex regex
  | Many regex
  | AtStart
  | AtEnd
  | WordBoundary "nat \<Rightarrow> bool"
  | NotAfter "nat \<Rightarrow> bool"

text \<open>The code point that begins at a position and the one that ends there.\<close>

definition pairAt :: "ustring \<Rightarrow> nat \<Rightarrow> bool" where
  "pairAt s i \<longleftrightarrow> i + 1 < length s \<and> is_high (s ! i) \<and> is_low (s ! (i + 1))"

definition widthAt :: "bool \<Rightarrow> ustring \<Rightarrow> nat \<Rightarrow> nat" where
  "widthAt u s i = (if u \<and> pairAt s i then 2 else 1)"

definition codeAt :: "bool \<Rightarrow> ustring \<Rightarrow> nat \<Rightarrow> nat" where
  "codeAt u s i = (if u \<and> pairAt s i then 65536 + (s ! i - 55296) * 1024 + (s ! (i + 1) - 56320) else s ! i)"

definition codeBefore :: "bool \<Rightarrow> ustring \<Rightarrow> nat \<Rightarrow> nat" where
  "codeBefore u s i = (if u \<and> 2 \<le> i \<and> pairAt s (i - 2) then codeAt u s (i - 2) else s ! (i - 1))"

text \<open>The characters of \<^verbatim>\<open>\\w\<close>. With the flags \<^verbatim>\<open>i\<close> and \<^verbatim>\<open>u\<close> together the long s and the Kelvin sign are among them.\<close>

definition wordChar :: "nat \<Rightarrow> bool" where
  "wordChar c \<longleftrightarrow> is_digit c \<or> 65 \<le> c \<and> c \<le> 90 \<or> 97 \<le> c \<and> c \<le> 122 \<or> c = 95"

definition wordCharIU :: "nat \<Rightarrow> bool" where
  "wordCharIU c \<longleftrightarrow> wordChar c \<or> c = 383 \<or> c = 8490"

definition wordAt :: "(nat \<Rightarrow> bool) \<Rightarrow> ustring \<Rightarrow> nat \<Rightarrow> bool" where
  "wordAt w s i \<longleftrightarrow> i < length s \<and> w (s ! i)"

text \<open>At most \<open>n\<close> iterations, the longest first; iterations that make no progress are not counted.\<close>

fun repeated :: "nat \<Rightarrow> (nat \<Rightarrow> nat list) \<Rightarrow> nat \<Rightarrow> nat list" where
  "repeated 0 f i = [i]"
| "repeated (Suc n) f i = concat (map (repeated n f) (filter (\<lambda>j. i < j) (f i))) @ [i]"

primrec ends :: "bool \<Rightarrow> ustring \<Rightarrow> regex \<Rightarrow> nat \<Rightarrow> nat list" where
  "ends u s Nothing i = [i]"
| "ends u s (Chars p) i = (if i < length s \<and> p (codeAt u s i) then [i + widthAt u s i] else [])"
| "ends u s (Then a b) i = concat (map (ends u s b) (ends u s a i))"
| "ends u s (Or a b) i = ends u s a i @ ends u s b i"
| "ends u s (Many a) i = repeated (length s - i) (ends u s a) i"
| "ends u s AtStart i = (if i = 0 then [i] else [])"
| "ends u s AtEnd i = (if i = length s then [i] else [])"
| "ends u s (WordBoundary w) i = (if (0 < i \<and> wordAt w s (i - 1)) \<noteq> wordAt w s i then [i] else [])"
| "ends u s (NotAfter p) i = (if 0 < i \<and> p (codeBefore u s i) then [] else [i])"

definition matchAt :: "bool \<Rightarrow> ustring \<Rightarrow> regex \<Rightarrow> nat \<Rightarrow> nat option" where
  "matchAt u s r i = (case ends u s r i of [] \<Rightarrow> None | j # _ \<Rightarrow> Some j)"

text \<open>All matches with the flag \<^verbatim>\<open>g\<close>, from a position on, each with its end.\<close>

fun matchesFrom :: "nat \<Rightarrow> bool \<Rightarrow> ustring \<Rightarrow> regex \<Rightarrow> nat \<Rightarrow> (nat \<times> nat) list" where
  "matchesFrom 0 u s r i = []"
| "matchesFrom (Suc n) u s r i =
    (if length s < i then []
     else case matchAt u s r i of
       Some j \<Rightarrow> (i, j) # matchesFrom n u s r (if j = i then i + widthAt u s i else j)
     | None \<Rightarrow> matchesFrom n u s r (i + widthAt u s i))"

definition matchAll :: "bool \<Rightarrow> regex \<Rightarrow> ustring \<Rightarrow> (nat \<times> nat) list" where
  "matchAll u r s = matchesFrom (length s + 1) u s r 0"

definition test :: "bool \<Rightarrow> regex \<Rightarrow> ustring \<Rightarrow> bool" where
  "test u r s \<longleftrightarrow> matchAll u r s \<noteq> []"

definition slice :: "ustring \<Rightarrow> nat \<Rightarrow> nat \<Rightarrow> ustring" where
  "slice s i j = take (j - i) (drop i s)"

text \<open>\<^verbatim>\<open>s.replace(pattern, by)\<close> with the flag \<^verbatim>\<open>g\<close>, and the matched texts of \<^verbatim>\<open>s.match(pattern)\<close>.\<close>

fun replaceFrom :: "ustring \<Rightarrow> ustring \<Rightarrow> nat \<Rightarrow> (nat \<times> nat) list \<Rightarrow> ustring" where
  "replaceFrom s by i [] = drop i s"
| "replaceFrom s by i ((a, b) # ms) = slice s i a @ by @ replaceFrom s by b ms"

definition replace :: "bool \<Rightarrow> regex \<Rightarrow> ustring \<Rightarrow> ustring \<Rightarrow> ustring" where
  "replace u r by s = replaceFrom s by 0 (matchAll u r s)"

definition matched :: "bool \<Rightarrow> regex \<Rightarrow> ustring \<Rightarrow> ustring list" where
  "matched u r s = map (\<lambda>(i, j). slice s i j) (matchAll u r s)"

section \<open>Building patterns\<close>

definition oneOf :: "nat list \<Rightarrow> regex" where
  "oneOf cs = Chars (\<lambda>c. c \<in> set cs)"

primrec sequence :: "regex list \<Rightarrow> regex" where
  "sequence [] = Nothing"
| "sequence (r # rs) = Then r (sequence rs)"

fun choice :: "regex list \<Rightarrow> regex" where
  "choice [] = Chars (\<lambda>c. False)"
| "choice [r] = r"
| "choice (r # rs) = Or r (choice rs)"

definition some :: "regex \<Rightarrow> regex" where
  "some r = Then r (Many r)"

definition maybe :: "regex \<Rightarrow> regex" where
  "maybe r = Or r Nothing"

definition atLeast :: "nat \<Rightarrow> regex \<Rightarrow> regex" where
  "atLeast n r = Then (sequence (replicate n r)) (Many r)"

text \<open>A literal, and a literal with the flag \<^verbatim>\<open>i\<close>. Of the letters that are folded to ASCII ones, only the long s and
  the Kelvin sign are not ASCII; they are folded with the flags \<^verbatim>\<open>i\<close> and \<^verbatim>\<open>u\<close> together.\<close>

definition foldLetter :: "bool \<Rightarrow> nat \<Rightarrow> nat" where
  "foldLetter u c = (if 65 \<le> c \<and> c \<le> 90 then c + 32 else if u \<and> c = 383 then 115 else if u \<and> c = 8490 then 107 else c)"

definition literal :: "string \<Rightarrow> regex" where
  "literal w = sequence (map (\<lambda>c. Chars (\<lambda>d. d = c)) (js w))"

definition literalI :: "bool \<Rightarrow> string \<Rightarrow> regex" where
  "literalI u w = sequence (map (\<lambda>c. Chars (\<lambda>d. foldLetter u d = foldLetter u c)) (js w))"

section \<open>Facts\<close>

lemma widthAt_pos: "0 < widthAt u s i"
  by (simp add: widthAt_def)

lemma widthAt_bound: "i < length s \<Longrightarrow> i + widthAt u s i \<le> length s"
  by (auto simp: widthAt_def pairAt_def)

lemma repeated_bounds:
  assumes "\<And>i j. j \<in> set (f i) \<Longrightarrow> i \<le> n \<Longrightarrow> i \<le> j \<and> j \<le> n"
  shows "j \<in> set (repeated k f i) \<Longrightarrow> i \<le> n \<Longrightarrow> i \<le> j \<and> j \<le> n"
proof (induction k arbitrary: i)
  case (Suc k)
  from Suc.prems(1) consider "j = i" | m where "m \<in> set (f i)" "i < m" "j \<in> set (repeated k f m)" by auto
  then show ?case
  proof cases
    case 2
    then show ?thesis using Suc.IH [of m] assms [of m i] Suc.prems(2) by auto
  qed (use Suc.prems in simp)
qed simp

lemma ends_bounds: "j \<in> set (ends u s r i) \<Longrightarrow> i \<le> length s \<Longrightarrow> i \<le> j \<and> j \<le> length s"
proof (induction r arbitrary: i j)
  case (Chars p)
  then show ?case using widthAt_bound by (auto split: if_splits)
next
  case (Then a b)
  then obtain m where "m \<in> set (ends u s a i)" "j \<in> set (ends u s b m)" by auto
  then show ?case using Then.IH(1) [of m i] Then.IH(2) [of j m] Then.prems(2) by simp
next
  case (Many r)
  then have "j \<in> set (repeated (length s - i) (ends u s r) i)" by (simp only: ends.simps)
  then show ?case by (rule repeated_bounds [rotated]) (use Many in auto)
qed (auto split: if_splits)

text \<open>The matches of a pattern come in order and do not overlap.\<close>

fun inOrder :: "nat \<Rightarrow> (nat \<times> nat) list \<Rightarrow> nat \<Rightarrow> bool" where
  "inOrder i [] n \<longleftrightarrow> i \<le> n"
| "inOrder i ((a, b) # ms) n \<longleftrightarrow> i \<le> a \<and> a \<le> b \<and> inOrder b ms n"

lemma inOrder_mono: "inOrder i ms n \<Longrightarrow> k \<le> i \<Longrightarrow> inOrder k ms n"
  by (induction k ms n rule: inOrder.induct) auto

lemma matchesFrom_inOrder: "i \<le> length s \<Longrightarrow> inOrder i (matchesFrom n u s r i) (length s)"
proof (induction n arbitrary: i)
  case (Suc n)
  have step: "inOrder i (matchesFrom n u s r k) (length s)" if "i \<le> k" "i \<le> length s" for i k
  proof (cases "k \<le> length s")
    case True
    then show ?thesis using Suc.IH inOrder_mono that by blast
  qed (cases n; use that in auto)
  show ?case
  proof (cases "matchAt u s r i")
    case None
    then show ?thesis using Suc.prems step by simp
  next
    case (Some j)
    then have "i \<le> j" "j \<le> length s"
      using ends_bounds [of j u s r i] Suc.prems by (auto simp: matchAt_def split: list.splits)
    then show ?thesis using Some Suc.prems step by simp
  qed
qed simp

lemma matchAll_inOrder: "inOrder 0 (matchAll u r s) (length s)"
  unfolding matchAll_def by (rule matchesFrom_inOrder) simp

lemma inOrder_bound: "inOrder i ms n \<Longrightarrow> (a, b) \<in> set ms \<Longrightarrow> i \<le> a \<and> a \<le> b \<and> b \<le> n"
proof (induction i ms n rule: inOrder.induct)
  case (2 i c d ms n)
  have "d \<le> n" if "inOrder d ms n" for d using that by (induction d ms n rule: inOrder.induct) auto
  then show ?case using 2 by fastforce
qed simp

text \<open>What a class matches. A unit that is no surrogate is a code point of its own.\<close>

definition covers :: "(nat \<Rightarrow> bool) \<Rightarrow> ustring \<Rightarrow> nat \<Rightarrow> nat \<Rightarrow> bool" where
  "covers p s i j \<longleftrightarrow> (\<forall>k. i \<le> k \<and> k < j \<and> \<not> is_high (s ! k) \<and> \<not> is_low (s ! k) \<longrightarrow> p (s ! k))"

lemma covers_refl [simp]: "covers p s i i"
  by (auto simp: covers_def)

lemma covers_trans: "covers p s i j \<Longrightarrow> covers p s j k \<Longrightarrow> covers p s i k"
  unfolding covers_def by (meson leI)

lemma then_covers:
  assumes "j \<in> set (ends u s (Then a b) i)" and "\<And>m. m \<in> set (ends u s a i) \<Longrightarrow> covers p s i m"
    and "\<And>m. j \<in> set (ends u s b m) \<Longrightarrow> covers p s m j"
  shows "covers p s i j"
proof -
  obtain m where "m \<in> set (ends u s a i)" "j \<in> set (ends u s b m)" using assms(1) by auto
  then show ?thesis using assms(2,3) covers_trans by blast
qed

lemma repeated_covers:
  assumes "\<And>i j. j \<in> set (f i) \<Longrightarrow> covers p s i j"
  shows "j \<in> set (repeated n f i) \<Longrightarrow> covers p s i j"
proof (induction n arbitrary: i)
  case (Suc n)
  then consider "j = i" | m where "m \<in> set (f i)" "j \<in> set (repeated n f m)" by auto
  then show ?case
  proof cases
    case 2
    then show ?thesis using Suc.IH assms covers_trans by blast
  qed simp
qed simp

lemma chars_cover: "j \<in> set (ends u s (Chars p) i) \<Longrightarrow> covers p s i j"
proof -
  assume j: "j \<in> set (ends u s (Chars p) i)"
  then have p: "i < length s" "p (codeAt u s i)" "j = i + widthAt u s i" by (auto split: if_splits)
  show ?thesis
  proof (cases "u \<and> pairAt s i")
    case True
    then have "is_high (s ! i)" "is_low (s ! Suc i)" "j = i + 2" using p by (auto simp: pairAt_def widthAt_def)
    then show ?thesis by (auto simp: covers_def less_Suc_eq numeral_2_eq_2)
  next
    case False
    then show ?thesis using p by (auto simp: covers_def widthAt_def codeAt_def less_Suc_eq_le)
  qed
qed

lemma many_cover: "j \<in> set (ends u s (Many (Chars p)) i) \<Longrightarrow> covers p s i j"
  using repeated_covers [of "ends u s (Chars p)" p s j "length s - i" i] chars_cover by (simp only: ends.simps)

lemma some_cover: "j \<in> set (ends u s (some (Chars p)) i) \<Longrightarrow> covers p s i j"
  unfolding some_def by (erule then_covers [OF _ chars_cover many_cover])

lemma sequence_cover: "j \<in> set (ends u s (sequence (replicate n (Chars p))) i) \<Longrightarrow> covers p s i j"
proof (induction n arbitrary: i)
  case (Suc n)
  then obtain m where "m \<in> set (ends u s (Chars p) i)" "j \<in> set (ends u s (sequence (replicate n (Chars p))) m)"
    by (auto simp del: ends.simps(2))
  then show ?case using Suc.IH chars_cover covers_trans by blast
qed simp

lemma atLeast_cover: "j \<in> set (ends u s (atLeast n (Chars p)) i) \<Longrightarrow> covers p s i j"
  unfolding atLeast_def by (erule then_covers [OF _ sequence_cover many_cover])

lemma matchesFrom_matchAt: "(a, b) \<in> set (matchesFrom n u s r i) \<Longrightarrow> b \<in> set (ends u s r a)"
  by (induction n arbitrary: i) (auto simp: matchAt_def split: if_splits list.splits)

lemma matchAll_ends: "(a, b) \<in> set (matchAll u r s) \<Longrightarrow> b \<in> set (ends u s r a)"
  unfolding matchAll_def by (rule matchesFrom_matchAt)

text \<open>A character that no match covers is still there after a replacement.\<close>

lemma replaceFrom_keeps:
  "inOrder i ms (length s) \<Longrightarrow> i \<le> k \<Longrightarrow> k < length s \<Longrightarrow> (\<And>a b. (a, b) \<in> set ms \<Longrightarrow> \<not> (a \<le> k \<and> k < b)) \<Longrightarrow>
    s ! k \<in> set (replaceFrom s by i ms)"
proof (induction s "by" i ms rule: replaceFrom.induct)
  case (1 s "by" i)
  then show ?case by (auto simp: in_set_conv_nth intro!: exI [of _ "k - i"])
next
  case (2 s "by" i a b ms)
  show ?case
  proof (cases "k < a")
    case True
    then have "s ! k \<in> set (slice s i a)" using 2(3,4)
      by (auto simp: slice_def in_set_conv_nth intro!: exI [of _ "k - i"])
    then show ?thesis by simp
  next
    case False
    then have "b \<le> k" using 2(5) [of a b] by auto
    then show ?thesis using 2 by auto
  qed
qed

lemma replace_keeps:
  assumes "c \<in> set s" and "\<not> p c" and "\<not> is_high c" and "\<not> is_low c" and "r = Chars p \<or> r = some (Chars p)"
  shows "c \<in> set (replace u r by s)"
proof -
  obtain k where k: "k < length s" "s ! k = c" using assms(1) by (auto simp: in_set_conv_nth)
  have "\<not> (a \<le> k \<and> k < b)" if "(a, b) \<in> set (matchAll u r s)" for a b
    using matchAll_ends [OF that] chars_cover some_cover assms(2-5) k(2) unfolding covers_def by blast
  then show ?thesis unfolding replace_def using replaceFrom_keeps [OF matchAll_inOrder, of k] k by auto
qed

end
