(* ===== verification/Speech_Text.thy ===== *)
theory Speech_Text
  imports Js_Regex Speech_Slices
begin

text \<open>
  \<^verbatim>\<open>frontend/src/lib/tts-text.ts\<close>: where a text pauses, the breaks that are written into the speech markup at
  these places, and how long a text takes to say. The properties of characters that the patterns ask for, the
  decomposition of letters and the lower case are tables of Unicode, given by the argument \<open>unicode\<close>. The
  markup is that of \<open>Speech_Slices\<close>; CDATA sections are taken as texts there, and the markup read here has none.
\<close>

record unicode =
  uc_letter :: "nat \<Rightarrow> bool"
  uc_number :: "nat \<Rightarrow> bool"
  uc_mark :: "nat \<Rightarrow> bool"
  uc_punctuation :: "nat \<Rightarrow> bool"
  uc_symbol :: "nat \<Rightarrow> bool"
  uc_cjk :: "nat \<Rightarrow> bool"
  uc_nfd :: "ustring \<Rightarrow> ustring"
  uc_lower :: "ustring \<Rightarrow> ustring"

section \<open>Normalising\<close>

definition isZeroWidth :: "nat \<Rightarrow> bool" where
  "isZeroWidth c \<longleftrightarrow> c = 160 \<or> 8203 \<le> c \<and> c \<le> 8205 \<or> c = 65279"

definition normalizeText :: "ustring \<Rightarrow> ustring" where
  "normalizeText t =
    replace False (atLeast 3 (oneOf [10])) [10, 10]
    (replace False (sequence [Many (Chars is_space), maybe (oneOf [13]), oneOf [10], Many (Chars is_space)]) [10]
    (replace False (some (oneOf [32, 9])) [32]
    (replace False (Chars isZeroWidth) [32] t)))"

section \<open>Pauses\<close>

definition notSpaceOrTag :: regex where
  "notSpaceOrTag = Chars (\<lambda>c. \<not> is_space c \<and> c \<noteq> 60 \<and> c \<noteq> 62)"

definition digit :: regex where
  "digit = Chars is_digit"

definition hostChar :: "unicode \<Rightarrow> regex" where
  "hostChar uc = Chars (\<lambda>c. uc_letter uc c \<or> is_digit c \<or> c = 95 \<or> c = 45)"

definition abbreviations :: "string list" where
  "abbreviations = [''mr'', ''mrs'', ''ms'', ''dr'', ''prof'', ''sr'', ''jr'', ''st'', ''vs'', ''etc'', ''no'', ''fig'', ''inc'', ''ltd'']"

definition boundary :: regex where
  "boundary = WordBoundary wordCharIU"

text \<open>The patterns for addresses (the first two), numbers, abbreviations and initials.\<close>

definition urlPattern :: regex where
  "urlPattern = Then (Or (sequence [literalI True ''http'', maybe (literalI True ''s''), literal ''://'']) (literalI True ''www.''))
     (some notSpaceOrTag)"

definition hostPattern :: "unicode \<Rightarrow> regex" where
  "hostPattern uc = sequence [boundary, some (hostChar uc), Many (Then (literal ''.'') (some (hostChar uc))), literal ''.'',
     atLeast 2 (Chars (uc_letter uc)), maybe (Then (literal ''/'') (Many notSpaceOrTag))]"

definition numberTail :: regex where
  "numberTail = Then (oneOf (js ''.,:'')) (some digit)"

definition numberPatterns :: "unicode \<Rightarrow> regex list" where
  "numberPatterns uc =
    [sequence [boundary, maybe (literalI True ''v''), some digit, some numberTail, boundary],
     sequence [NotAfter (\<lambda>c. uc_letter uc c \<or> uc_number uc c), literal ''.'', some digit, Many numberTail, boundary],
     sequence [boundary, choice (map (literalI True) abbreviations), literal ''.''],
     Then boundary (atLeast 2 (Then (Chars (\<lambda>c. 97 \<le> foldLetter True c \<and> foldLetter True c \<le> 122)) (literal ''.'')))]"

text \<open>The punctuation at the end of an address belongs to the sentence.\<close>

definition trailingPunctuation :: regex where
  "trailingPunctuation =
    Or (Then (some (oneOf [65292, 12290, 65307, 65306, 65281, 65311, 44, 59, 33, 63])) AtEnd)
       (sequence [NotAfter (\<lambda>c. c = 46), literal ''.'', AtEnd])"

definition protectedPunctuation :: "unicode \<Rightarrow> ustring \<Rightarrow> nat list" where
  "protectedPunctuation uc t =
    concat (map (\<lambda>r. concat (map (\<lambda>(i, j). [i..<i + length (replace True trailingPunctuation [] (slice t i j))]) (matchAll True r t)))
        [urlPattern, hostPattern uc]) @
    concat (map (\<lambda>r. concat (map (\<lambda>(i, j). [i..<j]) (matchAll True r t))) (numberPatterns uc))"

definition commaChars :: "nat list" where "commaChars = [65292, 44, 12289]"
definition semicolonChars :: "nat list" where "semicolonChars = [65307, 59]"
definition colonChars :: "nat list" where "colonChars = [65306, 58]"
definition stopChars :: "nat list" where "stopChars = [12290, 46, 33, 65281, 65311, 63, 8230]"

definition punctuationPattern :: regex where
  "punctuationPattern = choice [oneOf (commaChars @ semicolonChars @ colonChars), some (oneOf stopChars), some (oneOf [10])]"

definition pauseSeconds :: "ustring \<Rightarrow> real" where
  "pauseSeconds token =
    (if length token = 1 \<and> hd token \<in> set commaChars then 12 / 100
     else if length token = 1 \<and> hd token \<in> set semicolonChars then 22 / 100
     else if length token = 1 \<and> hd token \<in> set colonChars then 18 / 100
     else if 10 \<in> set token then 36 / 100
     else if 2 \<le> length token \<and> list_all (\<lambda>c. c = 46 \<or> c = 8230) token \<or> 8230 \<in> set token then 26 / 100
     else 32 / 100)"

definition pausesInText :: "unicode \<Rightarrow> ustring \<Rightarrow> (nat \<times> real) list" where
  "pausesInText uc t =
    (let guarded = protectedPunctuation uc t in
     map (\<lambda>(i, j). (j, pauseSeconds (slice t i j))) (filter (\<lambda>(i, j). i \<notin> set guarded) (matchAll True punctuationPattern t)))"

section \<open>Following speech\<close>

definition alnum :: "unicode \<Rightarrow> nat \<Rightarrow> bool" where
  "alnum uc c \<longleftrightarrow> uc_letter uc c \<or> uc_number uc c"

definition speechPattern :: "unicode \<Rightarrow> regex" where
  "speechPattern uc = Chars (alnum uc)"

definition pausePattern :: regex where
  "pausePattern = sequence [AtStart,
     Many (Chars (\<lambda>c. is_space c \<or> c \<in> set [8221, 8217, 34, 39, 65289, 41, 93, 125, 187])),
     oneOf (commaChars @ semicolonChars @ colonChars @ stopChars @ [10])]"

definition PRONUNCIATION_ELEMENTS :: "ustring list" where
  "PRONUNCIATION_ELEMENTS = map js [''break'', ''bookmark'', ''mark'', ''phoneme'', ''say-as'', ''sub'']"

definition SENTENCE_ELEMENTS :: "ustring list" where
  "SENTENCE_ELEMENTS = map js [''s'', ''p'']"

datatype signal = Speech | Pause

fun firstSome :: "'a option list \<Rightarrow> 'a option" where
  "firstSome [] = None"
| "firstSome (None # xs) = firstSome xs"
| "firstSome (Some x # xs) = Some x"

fun followingSignal :: "unicode \<Rightarrow> xml \<Rightarrow> signal option" where
  "followingSignal uc (XmlText t) =
    (if test True pausePattern t then Some Pause else if test True (speechPattern uc) t then Some Speech else None)"
| "followingSignal uc (XmlElement n as cs) =
    (if lowerAscii n = js ''break'' \<or> lowerAscii n \<in> set SENTENCE_ELEMENTS then Some Pause
     else firstSome (map (followingSignal uc) cs))"
| "followingSignal uc (XmlOther t) = None"

section \<open>The texts of the markup\<close>

text \<open>
  The texts in the order of the document, each with the answer of \<^verbatim>\<open>hasFollowingSpeech\<close> for its node, and the
  places where a context ends. The flag handed down is that answer if no later node of the same parent says more.
\<close>

datatype leaf = Leaf ustring bool | ContextEnd

fun leaves :: "unicode \<Rightarrow> bool \<Rightarrow> xml \<Rightarrow> leaf list"
  and leavesAll :: "unicode \<Rightarrow> bool \<Rightarrow> xml list \<Rightarrow> leaf list" where
  "leaves uc follow (XmlText t) = [Leaf t follow]"
| "leaves uc follow (XmlElement n as cs) =
    (if lowerAscii n \<in> set PRONUNCIATION_ELEMENTS
     then (if lowerAscii n \<in> {js ''bookmark'', js ''mark''} then [] else [ContextEnd])
     else
      (let inner = leavesAll uc (n \<notin> set SENTENCE_ELEMENTS \<and> follow) cs in
       if lowerAscii n \<in> set SENTENCE_ELEMENTS then ContextEnd # inner @ [ContextEnd] else inner))"
| "leaves uc follow (XmlOther t) = []"
| "leavesAll uc follow [] = []"
| "leavesAll uc follow (x # xs) =
    leaves uc (case firstSome (map (followingSignal uc) xs) of Some sg \<Rightarrow> sg = Speech | None \<Rightarrow> follow) x @ leavesAll uc follow xs"

fun contexts :: "leaf list \<Rightarrow> (ustring \<times> bool) list list" where
  "contexts [] = [[]]"
| "contexts (ContextEnd # ls) = [] # contexts ls"
| "contexts (Leaf t f # ls) = (case contexts ls of c # cs \<Rightarrow> ((t, f) # c) # cs | [] \<Rightarrow> [[(t, f)]])"

record speechText =
  tx_raw :: ustring
  tx_text :: ustring
  tx_start :: nat
  tx_follow :: bool

fun speechTexts :: "nat \<Rightarrow> (ustring \<times> bool) list \<Rightarrow> speechText list" where
  "speechTexts start [] = []"
| "speechTexts start ((t, f) # c) =
    \<lparr>tx_raw = t, tx_text = normalizeText t, tx_start = start, tx_follow = f\<rparr> # speechTexts (start + length (normalizeText t)) c"

section \<open>Breaks\<close>

text \<open>The loop that finds the text in which a pause ends.\<close>

function entryFor :: "speechText list \<Rightarrow> nat \<Rightarrow> nat \<Rightarrow> nat" where
  "entryFor es stop k =
    (if k + 1 < length es \<and> tx_start (es ! k) + length (tx_text (es ! k)) < stop then entryFor es stop (k + 1) else k)"
  by auto
termination by (relation "measure (\<lambda>(es, stop, k). length es - k)") auto

declare entryFor.simps [simp del]

definition redundant :: "unicode \<Rightarrow> ustring \<Rightarrow> speechText \<Rightarrow> nat \<Rightarrow> bool" where
  "redundant uc context e stop \<longleftrightarrow>
    test True pausePattern (drop stop context) \<or>
    \<not> test True (speechPattern uc) (drop stop context) \<and> \<not> tx_follow e \<or>
    trim (tx_text e) = [] \<and> \<not> test True (speechPattern uc) (take stop context)"

text \<open>The pauses that are written, each with the number of its text and its end in it.\<close>

fun placePauses :: "unicode \<Rightarrow> ustring \<Rightarrow> speechText list \<Rightarrow> nat \<Rightarrow> (nat \<times> real) list \<Rightarrow> (nat \<times> nat \<times> real) list" where
  "placePauses uc context es k [] = []"
| "placePauses uc context es k ((stop, seconds) # ps) =
    (let k' = entryFor es stop k; e = es ! k' in
     (if redundant uc context e stop then [] else [(k', stop - tx_start e, seconds)]) @ placePauses uc context es k' ps)"

definition breakTime :: "real \<Rightarrow> xml" where
  "breakTime seconds = XmlElement (js ''break'') [(js ''time'', dec (nat \<lfloor>seconds * 1000 + 1 / 2\<rfloor>) @ js ''ms'')] []"

fun fragment :: "ustring \<Rightarrow> nat \<Rightarrow> (nat \<times> real) list \<Rightarrow> xml list" where
  "fragment t start [] = [XmlText (drop start t)]"
| "fragment t start ((stop, seconds) # ps) = XmlText (slice t start stop) # breakTime seconds # fragment t stop ps"

definition replacement :: "(nat \<times> nat \<times> real) list \<Rightarrow> nat \<Rightarrow> speechText \<Rightarrow> xml list" where
  "replacement ps k e =
    (let own = map snd (filter (\<lambda>(i, p). i = k) ps) in
     if trim (tx_raw e) = [] \<and> own = [] then [XmlText (tx_raw e)] else fragment (tx_text e) 0 own)"

text \<open>A context: its texts that are not empty, in order, with what replaces them.\<close>

definition enhanceContext :: "unicode \<Rightarrow> (ustring \<times> bool) list \<Rightarrow> xml list list" where
  "enhanceContext uc c =
    (let es = speechTexts 0 (filter (\<lambda>(t, f). normalizeText t \<noteq> []) c);
         context = concat (map tx_text es);
         ps = (if es = [] then [] else placePauses uc context es 0 (pausesInText uc context)) in
     map2 (replacement ps) [0..<length es] es)"

text \<open>The replacements are put in place of the texts they belong to.\<close>

fun plug :: "xml \<Rightarrow> xml list list \<Rightarrow> xml list \<times> xml list list"
  and plugAll :: "xml list \<Rightarrow> xml list list \<Rightarrow> xml list \<times> xml list list" where
  "plug (XmlText t) rs =
    (if normalizeText t = [] then ([XmlText t], rs) else case rs of r # rs' \<Rightarrow> (r, rs') | [] \<Rightarrow> ([XmlText t], []))"
| "plug (XmlElement n as cs) rs =
    (if lowerAscii n \<in> set PRONUNCIATION_ELEMENTS then ([XmlElement n as cs], rs)
     else case plugAll cs rs of (cs', rs') \<Rightarrow> ([XmlElement n as cs'], rs'))"
| "plug (XmlOther t) rs = ([XmlOther t], rs)"
| "plugAll [] rs = ([], rs)"
| "plugAll (x # xs) rs = (case plug x rs of (ys, rs') \<Rightarrow> case plugAll xs rs' of (zs, rs'') \<Rightarrow> (ys @ zs, rs''))"

definition enhanceProsodyBreaks :: "unicode \<Rightarrow> xml \<Rightarrow> xml list" where
  "enhanceProsodyBreaks uc x =
    fst (plug x (concat (map (enhanceContext uc) (contexts (leaves uc False x)))))"

section \<open>Speaking time\<close>

definition estimateWordSeconds :: "unicode \<Rightarrow> ustring \<Rightarrow> real" where
  "estimateWordSeconds uc word =
    (let letters = replace True (Chars (\<lambda>c. \<not> uc_letter uc c)) [] (uc_lower uc (replace True (Chars (uc_mark uc)) [] (uc_nfd uc word)));
         groups = length (matchAll False (some (oneOf (js ''aeiouy''))) letters);
         syllables = (if groups = 0 then 1 else groups);
         silent = 1 < syllables \<and> endsWith letters (js ''e'') \<and>
           \<not> test False (sequence [oneOf (js ''bcdfghjklmnpqrstvwxz''), literal ''le'', AtEnd]) letters in
     24 / 100 + 16 / 100 * max 1 (max (real (if silent then syllables - 1 else syllables)) (real (length letters) / 6)))"

definition wordPattern :: "unicode \<Rightarrow> regex" where
  "wordPattern uc = (let part = some (Chars (\<lambda>c. uc_letter uc c \<or> uc_mark uc c)) in
     Then part (Many (Then (oneOf [39, 8217, 45]) part)))"

definition estimateSpokenSeconds :: "unicode \<Rightarrow> ustring \<Rightarrow> jsnum \<Rightarrow> real" where
  "estimateSpokenSeconds uc t rate =
    (let normalized = normalizeText t;
         cjk = length (matchAll True (Chars (uc_cjk uc)) normalized);
         remaining = replace True (Chars (uc_cjk uc)) [32] normalized;
         spokenWords = matched True (wordPattern uc) remaining;
         digits = length (matchAll True (Chars (uc_number uc)) remaining) in
     if cjk + length spokenWords + digits = 0 then 0
     else
      (real cjk / 4 + sum_list (map (estimateWordSeconds uc) spokenWords) + real digits / 5 +
        sum_list (map snd (pausesInText uc normalized))) / max (1 / 4) (1 + (if isFinite rate then fin rate else 0) / 100))"

section \<open>Nothing is lost\<close>

text \<open>
  What may become of a node: a text becomes its normalised text, cut by breaks (a blank text without breaks may
  stay as it is); a pronunciation element and what it contains stays; other elements keep their name, their
  attributes and the order of their children.
\<close>

definition isBreak :: "xml \<Rightarrow> bool" where
  "isBreak x \<longleftrightarrow> (\<exists>v. x = XmlElement (js ''break'') [(js ''time'', v)] [])"

fun isText :: "xml \<Rightarrow> bool" where
  "isText (XmlText t) = True"
| "isText _ = False"

definition spokenAs :: "ustring \<Rightarrow> xml list \<Rightarrow> bool" where
  "spokenAs t ys \<longleftrightarrow> list_all (\<lambda>y. isText y \<or> isBreak y) ys \<and>
     (concat (map textContent ys) = normalizeText t \<or> (trim t = [] \<or> normalizeText t = []) \<and> ys = [XmlText t])"

inductive paused :: "xml \<Rightarrow> xml list \<Rightarrow> bool" where
  spoken: "spokenAs t ys \<Longrightarrow> paused (XmlText t) ys"
| atom: "lowerAscii n \<in> set PRONUNCIATION_ELEMENTS \<Longrightarrow> paused (XmlElement n as cs) [XmlElement n as cs]"
| inner: "list_all2 paused cs yss \<Longrightarrow> paused (XmlElement n as cs) [XmlElement n as (concat yss)]"
| other: "paused (XmlOther t) [XmlOther t]"

lemma inOrder_sorted: "inOrder i ms n \<Longrightarrow> sorted (map snd ms) \<and> (\<forall>m \<in> set ms. i \<le> snd m)"
  by (induction i ms n rule: inOrder.induct) auto

lemma pauses_sorted: "sorted (map fst (pausesInText uc t))"
proof -
  have "sorted (map snd (matchAll True punctuationPattern t))" using inOrder_sorted [OF matchAll_inOrder] by blast
  then have "sorted (map snd (filter P (matchAll True punctuationPattern t)))" for P by (rule sorted_filter)
  then show ?thesis by (simp add: pausesInText_def Let_def comp_def case_prod_beta)
qed

lemma placed_from: "(k, stop, seconds) \<in> set (placePauses uc ctx es j ps) \<Longrightarrow>
    \<exists>q. (q, seconds) \<in> set ps \<and> stop = q - tx_start (es ! k)"
  by (induction uc ctx es j ps rule: placePauses.induct) (auto simp: Let_def split: if_splits)

lemma placed_sorted:
  "sorted (map fst ps) \<Longrightarrow> sorted (map fst (map snd (filter (\<lambda>(i, p). i = k) (placePauses uc ctx es j ps))))"
proof (induction ps arbitrary: j)
  case (Cons p ps)
  obtain stop seconds where p: "p = (stop, seconds)" by (cases p)
  let ?j = "entryFor es stop j"
  let ?later = "map fst (map snd (filter (\<lambda>(i, p). i = k) (placePauses uc ctx es ?j ps)))"
  have "stop - tx_start (es ! k) \<le> e" if "e \<in> set ?later" for e
  proof -
    obtain s where "(k, e, s) \<in> set (placePauses uc ctx es ?j ps)" using \<open>e \<in> set ?later\<close> by auto
    then obtain q where "(q, s) \<in> set ps" "e = q - tx_start (es ! k)" using placed_from by metis
    then show ?thesis using Cons.prems p by (auto intro!: diff_le_mono)
  qed
  moreover have "sorted ?later" using Cons by simp
  ultimately show ?case by (cases "k = ?j") (simp_all add: p Let_def)
qed simp

lemma fragment_text:
  "sorted (map fst ps) \<Longrightarrow> \<forall>p \<in> set ps. start \<le> fst p \<Longrightarrow> concat (map textContent (fragment t start ps)) = drop start t"
proof (induction t start ps rule: fragment.induct)
  case (2 t start stop seconds ps)
  have "slice t start stop @ drop stop t = drop start t"
    using "2.prems"(2) by (simp add: slice_def) (metis add.commute append_take_drop_id drop_drop le_add_diff_inverse2)
  then show ?case using 2 by (auto simp: breakTime_def)
qed simp

lemma fragment_nodes: "list_all (\<lambda>y. isText y \<or> isBreak y) (fragment t start ps)"
  by (induction t start ps rule: fragment.induct) (auto simp: isBreak_def breakTime_def)

lemma replacement_spoken:
  assumes "sorted (map fst (map snd (filter (\<lambda>(i, p). i = k) ps)))" and "tx_text e = normalizeText (tx_raw e)"
  shows "spokenAs (tx_raw e) (replacement ps k e)"
  using assms fragment_text [OF assms(1), of 0 "tx_text e"] fragment_nodes by (auto simp: replacement_def Let_def spokenAs_def)

lemma speechTexts_fields: "map tx_raw (speechTexts start c) = map fst c" "e \<in> set (speechTexts start c) \<Longrightarrow> tx_text e = normalizeText (tx_raw e)"
  by (induction start c rule: speechTexts.induct) auto

lemma context_spoken: "list_all2 spokenAs (filter (\<lambda>t. normalizeText t \<noteq> []) (map fst c)) (enhanceContext uc c)"
proof -
  define es where "es = speechTexts 0 (filter (\<lambda>(t, f). normalizeText t \<noteq> []) c)"
  define ps where "ps = (if es = [] then [] else placePauses uc (concat (map tx_text es)) es 0 (pausesInText uc (concat (map tx_text es))))"
  have "sorted (map fst (map snd (filter (\<lambda>(i, p). i = k) ps)))" for k
    using placed_sorted [OF pauses_sorted] by (simp add: ps_def)
  then have "spokenAs (tx_raw (es ! k)) (replacement ps k (es ! k))" if "k < length es" for k
    using nth_mem [OF that] speechTexts_fields(2) [of "es ! k" 0] unfolding es_def by (intro replacement_spoken) blast+
  then have "list_all2 spokenAs (map tx_raw es) (map2 (replacement ps) [0..<length es] es)"
    by (simp add: list_all2_conv_all_nth)
  moreover have "map tx_raw es = filter (\<lambda>t. normalizeText t \<noteq> []) (map fst c)"
    unfolding es_def speechTexts_fields(1) by (induction c) auto
  ultimately show ?thesis unfolding enhanceContext_def Let_def es_def [symmetric] ps_def [symmetric] by simp
qed

fun leafTexts :: "leaf list \<Rightarrow> ustring list" where
  "leafTexts [] = []"
| "leafTexts (ContextEnd # ls) = leafTexts ls"
| "leafTexts (Leaf t f # ls) = (if normalizeText t = [] then leafTexts ls else t # leafTexts ls)"

lemma leafTexts_append [simp]: "leafTexts (ks @ ls) = leafTexts ks @ leafTexts ls"
  by (induction ks rule: leafTexts.induct) auto

lemma contexts_texts: "contexts ls \<noteq> [] \<and> leafTexts ls = concat (map (\<lambda>c. filter (\<lambda>t. normalizeText t \<noteq> []) (map fst c)) (contexts ls))"
  by (induction ls rule: contexts.induct) (auto split: list.splits)

lemma contexts_spoken: "list_all2 spokenAs (leafTexts ls) (concat (map (enhanceContext uc) (contexts ls)))"
proof -
  have "list_all2 spokenAs (concat (map (\<lambda>c. filter (\<lambda>t. normalizeText t \<noteq> []) (map fst c)) cs)) (concat (map (enhanceContext uc) cs))" for cs
    by (induction cs) (auto intro: list_all2_appendI context_spoken)
  then show ?thesis using contexts_texts by metis
qed

lemma plug_paused:
  "list_all2 spokenAs (leafTexts (leaves uc f x)) rs \<Longrightarrow> snd (plug x (rs @ rest)) = rest \<and> paused x (fst (plug x (rs @ rest)))"
  "list_all2 spokenAs (leafTexts (leavesAll uc f xs)) rs \<Longrightarrow>
    snd (plugAll xs (rs @ rest)) = rest \<and> (\<exists>yss. fst (plugAll xs (rs @ rest)) = concat yss \<and> list_all2 paused xs yss)"
proof (induction uc f x and uc f xs arbitrary: rs rest and rs rest rule: leaves_leavesAll.induct)
  case (1 uc f t)
  then show ?case by (auto simp: list_all2_Cons1 spokenAs_def intro!: paused.spoken split: if_splits)
next
  case (2 uc f n as cs)
  show ?case
  proof (cases "lowerAscii n \<in> set PRONUNCIATION_ELEMENTS")
    case True
    then show ?thesis using 2 by (auto intro: paused.atom split: if_splits)
  next
    case False
    then have "list_all2 spokenAs (leafTexts (leavesAll uc (n \<notin> set SENTENCE_ELEMENTS \<and> f) cs)) rs"
      using "2.prems" by (simp add: Let_def split: if_splits)
    from "2.IH" [OF False this, of rest] show ?thesis using False by (auto simp: case_prod_beta intro: paused.inner)
  qed
next
  case (5 uc f x xs)
  obtain r1 r2 where rs: "rs = r1 @ r2"
    "list_all2 spokenAs (leafTexts (leaves uc (case firstSome (map (followingSignal uc) xs) of Some sg \<Rightarrow> sg = Speech | None \<Rightarrow> f) x)) r1"
    "list_all2 spokenAs (leafTexts (leavesAll uc f xs)) r2"
    using "5.prems" by (auto simp: list_all2_append1)
  have a: "snd (plug x (rs @ rest)) = r2 @ rest" "paused x (fst (plug x (rs @ rest)))" using "5.IH"(1) [OF rs(2), of "r2 @ rest"] rs(1) by auto
  from "5.IH"(2) [OF rs(3), of rest] obtain yss where
    b: "snd (plugAll xs (r2 @ rest)) = rest" "fst (plugAll xs (r2 @ rest)) = concat yss" "list_all2 paused xs yss" by blast
  then have "fst (plugAll (x # xs) (rs @ rest)) = concat (fst (plug x (rs @ rest)) # yss)" using a by (simp add: case_prod_beta)
  moreover have "list_all2 paused (x # xs) (fst (plug x (rs @ rest)) # yss)" using a b by simp
  moreover have "snd (plugAll (x # xs) (rs @ rest)) = rest" using a b by (simp add: case_prod_beta)
  ultimately show ?case by blast
qed (auto intro: paused.other)

lemma breaks_of_element: "paused x (enhanceProsodyBreaks uc x)"
  using plug_paused(1) [OF contexts_spoken, where rest = "[]"] by (simp add: enhanceProsodyBreaks_def)


section \<open>Bounds of the speaking time\<close>

lemma pauseSeconds_bounds: "12 / 100 \<le> pauseSeconds t \<and> pauseSeconds t \<le> 36 / 100"
  by (simp add: pauseSeconds_def)

lemma pauses_nonneg: "0 \<le> sum_list (map snd (pausesInText uc t))"
proof (intro sum_list_nonneg)
  have "0 \<le> pauseSeconds s" for s using pauseSeconds_bounds [of s] by simp
  then show "0 \<le> x" if "x \<in> set (map snd (pausesInText uc t))" for x using that by (auto simp: pausesInText_def Let_def)
qed

lemma wordSeconds_bound: "4 / 10 \<le> estimateWordSeconds uc w"
proof -
  have "24 / 100 + 16 / 100 * 1 \<le> 24 / 100 + 16 / 100 * max 1 x" for x :: real by simp
  then show ?thesis by (simp add: estimateWordSeconds_def Let_def)
qed

lemma words_bound: "4 / 10 * real (length ws) \<le> sum_list (map (estimateWordSeconds uc) ws)"
  using wordSeconds_bound by (induction ws) (auto simp: algebra_simps intro: add_mono)

text \<open>What is said in a text: its ideographs, words and digits.\<close>

definition spokenUnits :: "unicode \<Rightarrow> ustring \<Rightarrow> nat" where
  "spokenUnits uc t =
    (let normalized = normalizeText t; remaining = replace True (Chars (uc_cjk uc)) [32] normalized in
     length (matchAll True (Chars (uc_cjk uc)) normalized) + length (matchAll True (wordPattern uc) remaining) +
     length (matchAll True (Chars (uc_number uc)) remaining))"

definition speedOf :: "jsnum \<Rightarrow> real" where
  "speedOf rate = max (1 / 4) (1 + (if isFinite rate then fin rate else 0) / 100)"

text \<open>
  Speaking time. The estimated time is never negative, grows by at least a fifth of a second for every
  ideograph, word and digit, is zero for a text without any, and at another rate is the time at the normal
  rate divided by the speed, which is at least a quarter, for a rate that is not a number as well.
\<close>

lemma spoken_time_bounds:
  "0 \<le> estimateSpokenSeconds uc t rate \<and>
   real (spokenUnits uc t) / 5 \<le> estimateSpokenSeconds uc t rate * speedOf rate \<and>
   (estimateSpokenSeconds uc t rate = 0 \<longleftrightarrow> spokenUnits uc t = 0) \<and>
   estimateSpokenSeconds uc t rate = estimateSpokenSeconds uc t (Fin 0) / speedOf rate"
proof -
  let ?n = "normalizeText t"
  let ?r = "replace True (Chars (uc_cjk uc)) [32] ?n"
  let ?w = "matched True (wordPattern uc) ?r"
  let ?k = "real (length (matchAll True (Chars (uc_cjk uc)) ?n))" and ?d = "real (length (matchAll True (Chars (uc_number uc)) ?r))"
  let ?x = "?k / 4 + sum_list (map (estimateWordSeconds uc) ?w) + ?d / 5 + sum_list (map snd (pausesInText uc ?n))"
  have sp: "0 < speedOf rate" by (simp add: speedOf_def)
  have w: "length (matchAll True (wordPattern uc) ?r) = length ?w" by (simp add: matched_def)
  have e: "estimateSpokenSeconds uc t q = (if spokenUnits uc t = 0 then 0 else ?x / speedOf q)" for q
    by (simp add: estimateSpokenSeconds_def spokenUnits_def Let_def speedOf_def w)
  have "real (spokenUnits uc t) = ?k + real (length ?w) + ?d" by (simp add: spokenUnits_def Let_def w)
  then have x: "real (spokenUnits uc t) / 5 \<le> ?x"
    using words_bound [of ?w uc] pauses_nonneg [of uc ?n] by simp
  obtain y where y: "estimateSpokenSeconds uc t q = (if spokenUnits uc t = 0 then 0 else y / speedOf q)" "real (spokenUnits uc t) / 5 \<le> y" for q
    using e x by blast
  have "speedOf (Fin 0) = 1" by (simp add: speedOf_def)
  moreover have "spokenUnits uc t \<noteq> 0 \<Longrightarrow> 0 < y" by (rule less_le_trans [OF _ y(2)]) simp
  ultimately show ?thesis using y sp by auto
qed

end
