(* ===== verification/Speech_Markup.thy ===== *)
theory Speech_Markup
  imports Speech_Text Ssml_Text Speech_Buffer
begin

text \<open>
  The part of \<^verbatim>\<open>frontend/src/lib/tts.ts\<close> that decides which texts are not read (\<^verbatim>\<open>isSkippableTTSText\<close>) and builds
  the markup for the speech service (\<^verbatim>\<open>buildAzureSSML\<close>). The XML parser and serialiser of the browser are
  arguments: \<open>parse\<close> gives the nodes of the document, one of which is an element, or \<open>None\<close> for a text that
  is not XML. Attributes are named as they are written, elements have no prefix. The rate is a whole number.
  With these functions the tools of the speech buffer are complete but for the browser's.
\<close>

section \<open>Texts that are not read\<close>

definition getSignificantLines :: "ustring \<Rightarrow> ustring list" where
  "getSignificantLines t =
    (let ms = matchAll False (Then (maybe (oneOf [13])) (oneOf [10])) t;
         starts = 0 # map snd ms; stops = map fst ms @ [length t] in
     filter (\<lambda>l. l \<noteq> []) (map trim (map2 (slice t) starts stops)))"

definition occurrences :: "regex \<Rightarrow> ustring \<Rightarrow> nat" where
  "occurrences r t = length (matchAll False r t)"

definition notSpace :: regex where
  "notSpace = Chars (\<lambda>c. \<not> is_space c)"

text \<open>Both tests ask for at least two lines that look like it, and half of all lines.\<close>

definition isTableLine :: "ustring \<Rightarrow> bool" where
  "isTableLine line \<longleftrightarrow> 2 \<le> occurrences (oneOf [124]) line \<or> 2 \<le> occurrences (oneOf [9]) line \<or>
     2 \<le> occurrences (sequence [notSpace, atLeast 2 (Chars is_space), notSpace]) line"

definition isTableLikeTTSText :: "ustring \<Rightarrow> bool" where
  "isTableLikeTTSText t =
    (let ls = getSignificantLines t; found = length (filter isTableLine ls) in
     2 \<le> length ls \<and> 2 \<le> found \<and> 1 / 2 \<le> (real found / real (length ls)))"

definition startingWord :: "string list \<Rightarrow> regex" where
  "startingWord ws = sequence [AtStart, Many (Chars is_space), choice (map literal ws), WordBoundary wordChar]"

definition quotes :: "nat list" where "quotes = [34, 39]"

definition codeLinePatterns :: "regex list" where
  "codeLinePatterns =
    [startingWord [''import'', ''export'', ''const'', ''let'', ''var'', ''function'', ''class'', ''interface'', ''type'', ''return''],
     startingWord [''if'', ''else'', ''for'', ''while'', ''switch'', ''case'', ''try'', ''catch'', ''finally''],
     startingWord [''public'', ''private'', ''protected'', ''static'', ''async'', ''await''],
     sequence [AtStart, Many (Chars is_space), some (oneOf (js ''{}[]();,'')), AtEnd],
     choice [literal ''=>'', literal ''==='', literal ''!=='', literal ''&&'', literal ''||'',
       sequence [literal ''<'', maybe (literal ''/''), Chars (\<lambda>c. 97 \<le> foldLetter False c \<and> foldLetter False c \<le> 122),
         Many (Chars (\<lambda>c. wordChar c \<or> c = 58 \<or> c = 45)), Many (Chars (\<lambda>c. c \<noteq> 62)), literal ''>'']],
     sequence [AtStart, Many (Chars is_space), maybe (oneOf quotes), some (Chars (\<lambda>c. wordChar c \<or> c = 45)), maybe (oneOf quotes),
       Many (Chars is_space), literal '':'', Many (Chars is_space), Chars (\<lambda>c. c \<in> set (quotes @ js ''{['') \<or> is_digit c)]]"

definition isCodeLine :: "ustring \<Rightarrow> bool" where
  "isCodeLine line \<longleftrightarrow> list_ex (\<lambda>r. test False r line) codeLinePatterns \<or>
     24 / 100 < (real (occurrences (oneOf (js ''{}[]();=<>/&|:'')) line) / real (max (length line) 1))"

definition isCodeLikeTTSText :: "ustring \<Rightarrow> bool" where
  "isCodeLikeTTSText t =
    (let ls = getSignificantLines t; found = length (filter isCodeLine ls) in
     2 \<le> length ls \<and> 2 \<le> found \<and> 1 / 2 \<le> (real found / real (length ls)))"

definition allOf :: "bool \<Rightarrow> nat \<Rightarrow> (nat \<Rightarrow> bool) \<Rightarrow> ustring \<Rightarrow> bool" where
  "allOf u n p t = test u (sequence [AtStart, atLeast n (Chars p), AtEnd]) t"

definition isSkippableTTSText :: "unicode \<Rightarrow> ustring \<Rightarrow> bool" where
  "isSkippableTTSText uc t =
    (let normalized = trim (replace False (Chars isZeroWidth) [] (replace False (some (Chars is_space)) [32] t));
         compact = replace False (some (Chars is_space)) [] normalized in
     normalized = [] \<or>
     allOf False 1 (\<lambda>c. c \<in> set [183, 8226, 42, 95, 45, 46, 12290, 65294, 8230]) compact \<or>
     allOf True 1 (\<lambda>c. uc_punctuation uc c \<or> uc_symbol uc c) compact \<and> length compact \<le> 8 \<or>
     allOf False 3 (\<lambda>c. c = 46) compact \<or> allOf False 1 (\<lambda>c. c = 8230) compact \<or>
     isTableLikeTTSText t \<or> isCodeLikeTTSText t)"

section \<open>The markup for the service\<close>

record azureSettings =
  az_rate :: int
  az_voiceName :: ustring
  az_style :: ustring

definition rateText :: "int \<Rightarrow> ustring" where
  "rateText rate = (if 0 \<le> rate then js ''+'' @ dec (nat rate) else js ''-'' @ dec (nat (- rate))) @ js ''%''"

definition inferLocaleFromVoice :: "ustring \<Rightarrow> ustring" where
  "inferLocaleFromVoice voiceName =
    (let lower = Chars (\<lambda>c. 97 \<le> c \<and> c \<le> 122); upper = Chars (\<lambda>c. 65 \<le> c \<and> c \<le> 90) in
     case matchAt False voiceName (sequence [lower, lower, maybe lower, literal ''-'', upper, upper, literal ''-'']) 0 of
       Some j \<Rightarrow> take (j - 1) voiceName
     | None \<Rightarrow> js ''zh-CN'')"

fun isElementNode :: "xml \<Rightarrow> bool" where
  "isElementNode (XmlElement n as cs) = True"
| "isElementNode _ = False"

definition documentElement :: "xml list \<Rightarrow> xml option" where
  "documentElement nodes = find isElementNode nodes"

definition getTextFromSSML :: "(ustring \<Rightarrow> xml list option) \<Rightarrow> ustring \<Rightarrow> ustring" where
  "getTextFromSSML parse ssml =
    (let t = (case Option.bind (parse ssml) documentElement of Some r \<Rightarrow> trim (textContent r) | None \<Rightarrow> []) in
     if t \<noteq> [] then t else stripSSML ssml)"

text \<open>\<^verbatim>\<open>mark\<close> elements with a name become \<^verbatim>\<open>bookmark\<close>s, and \<^verbatim>\<open>lang\<close> elements give way to their children.\<close>

fun bookmarks :: "xml \<Rightarrow> xml" where
  "bookmarks (XmlElement n as cs) =
    (if n = js ''mark'' \<and> attribute (js ''name'') (XmlElement n as cs) \<noteq> []
     then XmlElement (js ''bookmark'') [(js ''mark'', attribute (js ''name'') (XmlElement n as cs))] []
     else XmlElement n as (map bookmarks cs))"
| "bookmarks x = x"

fun withoutLang :: "xml \<Rightarrow> xml list" where
  "withoutLang (XmlElement n as cs) =
    (let inner = concat (map withoutLang cs) in if n = js ''lang'' then inner else [XmlElement n as inner])"
| "withoutLang x = [x]"

definition sourceNodes :: "xml list option \<Rightarrow> ustring \<Rightarrow> xml list" where
  "sourceNodes parsed content =
    (case parsed of
       Some nodes \<Rightarrow>
        (case documentElement nodes of
           Some (XmlElement n as cs) \<Rightarrow> concat (map (withoutLang \<circ> bookmarks) (if lowerAscii n = js ''speak'' then cs else nodes))
         | _ \<Rightarrow> [XmlText content])
     | None \<Rightarrow> [XmlText content])"

definition languageOf :: "xml list option \<Rightarrow> azureSettings \<Rightarrow> ustring" where
  "languageOf parsed settings =
    (let given = (case Option.bind parsed documentElement of
         Some r \<Rightarrow> (if attribute (js ''xml:lang'') r \<noteq> [] then attribute (js ''xml:lang'') r else attribute (js ''lang'') r)
       | None \<Rightarrow> []) in
     if given \<noteq> [] then given else inferLocaleFromVoice (az_voiceName settings))"

text \<open>The elements around the spoken nodes.\<close>

definition envelope :: "ustring \<Rightarrow> azureSettings \<Rightarrow> xml \<Rightarrow> xml" where
  "envelope lang settings prosody =
    XmlElement (js ''speak'') [(js ''version'', js ''1.0''), (js ''xmlns'', js ''http://www.w3.org/2001/10/synthesis''),
        (js ''xmlns:mstts'', js ''http://www.w3.org/2001/mstts''), (js ''xml:lang'', lang)]
      [XmlElement (js ''voice'') [(js ''name'', az_voiceName settings)]
        [if az_style settings \<noteq> []
         then XmlElement (js ''mstts:express-as'') [(js ''style'', az_style settings), (js ''styledegree'', js ''1.0'')] [prosody]
         else prosody]]"

definition azureDocument :: "unicode \<Rightarrow> (ustring \<Rightarrow> xml list option) \<Rightarrow> ustring \<Rightarrow> azureSettings \<Rightarrow> xml" where
  "azureDocument uc parse content settings =
    (let prosody = XmlElement (js ''prosody'') [(js ''rate'', rateText (az_rate settings))] (sourceNodes (parse content) content) in
     envelope (languageOf (parse content) settings) settings (hd (enhanceProsodyBreaks uc prosody)))"

definition buildAzureSSML :: "unicode \<Rightarrow> (ustring \<Rightarrow> xml list option) \<Rightarrow> (xml \<Rightarrow> ustring) \<Rightarrow> ustring \<Rightarrow> azureSettings \<Rightarrow> ustring" where
  "buildAzureSSML uc parse serialize content settings = serialize (azureDocument uc parse content settings)"

section \<open>What is read\<close>

lemma allOf_covers:
  assumes "allOf u n p t" and "c \<in> set t" and "\<not> is_high c" and "\<not> is_low c"
  shows "p c"
proof -
  obtain a b where m: "(a, b) \<in> set (matchAll u (sequence [AtStart, atLeast n (Chars p), AtEnd]) t)"
    using assms(1) unfolding allOf_def test_def by (metis list.set_intros(1) neq_Nil_conv surj_pair)
  then have "b \<in> set (ends u t (sequence [AtStart, atLeast n (Chars p), AtEnd]) a)" by (rule matchAll_ends)
  then have "a = 0" "length t \<in> set (ends u t (atLeast n (Chars p)) 0)" by (auto split: if_splits)
  then have "covers p t 0 (length t)" using atLeast_cover by blast
  then show ?thesis using assms(2-4) by (auto simp: covers_def in_set_conv_nth)
qed

lemma trim_keeps: "c \<in> set s \<Longrightarrow> \<not> is_space c \<Longrightarrow> c \<in> set (trim s)"
proof -
  have d: "c \<in> set s \<Longrightarrow> \<not> is_space c \<Longrightarrow> c \<in> set (dropWhile is_space s)" for s by (induction s) auto
  show "c \<in> set s \<Longrightarrow> \<not> is_space c \<Longrightarrow> ?thesis" using d [of s] d [of "rev (dropWhile is_space s)"] by (simp add: trim_def)
qed

text \<open>A character of a text that makes it worth reading.\<close>

definition readable :: "unicode \<Rightarrow> nat \<Rightarrow> bool" where
  "readable uc c \<longleftrightarrow> \<not> is_space c \<and> \<not> isZeroWidth c \<and> \<not> is_high c \<and> \<not> is_low c \<and> \<not> uc_punctuation uc c \<and> \<not> uc_symbol uc c \<and>
     c \<notin> set [183, 8226, 42, 95, 45, 46, 12290, 65294, 8230]"

text \<open>
  Prose is read. A text of one line with a character that is neither white space nor punctuation, a letter or
  an ideograph say, is never skipped; and a text that is skipped for its looks has at least two lines that
  look like a table or like code, and these are half of its lines.
\<close>

lemma prose_is_read:
  assumes "c \<in> set t" and "readable uc c" and "isSkippableTTSText uc t"
  shows "2 \<le> length (getSignificantLines t) \<and>
    (let found = max (length (filter isTableLine (getSignificantLines t))) (length (filter isCodeLine (getSignificantLines t))) in
     2 \<le> found \<and> length (getSignificantLines t) \<le> 2 * found)"
proof -
  let ?n = "trim (replace False (Chars isZeroWidth) [] (replace False (some (Chars is_space)) [32] t))"
  let ?c = "replace False (some (Chars is_space)) [] ?n"
  have n: "c \<in> set ?n" using assms(1,2) by (intro trim_keeps replace_keeps [where p = isZeroWidth] replace_keeps [where p = is_space]) (auto simp: readable_def)
  then have c: "c \<in> set ?c" using assms(2) by (intro replace_keeps [where p = is_space]) (auto simp: readable_def)
  have "\<not> allOf u k p ?c" if "\<not> p c" for u k p using allOf_covers [OF _ c] assms(2) that by (auto simp: readable_def)
  then have "isTableLikeTTSText t \<or> isCodeLikeTTSText t"
    using assms(2,3) n by (auto simp: isSkippableTTSText_def Let_def readable_def)
  moreover have half: "n \<le> 2 * k" if "1 / 2 \<le> real k / real n" "2 \<le> n" for n k :: nat
  proof -
    have "real n \<le> real (2 * k)" using that by (simp add: field_simps)
    then show ?thesis by (simp only: of_nat_le_iff)
  qed
  ultimately show ?thesis
    using half [of "length (filter isTableLine (getSignificantLines t))" "length (getSignificantLines t)"] half [of "length (filter isCodeLine (getSignificantLines t))" "length (getSignificantLines t)"]
    by (auto simp: isTableLikeTTSText_def isCodeLikeTTSText_def Let_def)
qed

text \<open>Tables of Unicode for ASCII texts.\<close>

definition asciiTables :: unicode where
  "asciiTables = \<lparr>uc_letter = (\<lambda>c. 65 \<le> c \<and> c \<le> 90 \<or> 97 \<le> c \<and> c \<le> 122), uc_number = is_digit, uc_mark = (\<lambda>c. False),
     uc_punctuation = (\<lambda>c. 33 \<le> c \<and> c \<le> 47 \<or> 58 \<le> c \<and> c \<le> 64 \<or> 91 \<le> c \<and> c \<le> 96), uc_symbol = (\<lambda>c. 123 \<le> c \<and> c \<le> 126),
     uc_cjk = (\<lambda>c. False), uc_nfd = id, uc_lower = lowerAscii\<rparr>"

definition sampleTable :: ustring where
  "sampleTable = js ''a|b|c'' @ [10] @ js ''d|e|f''"

theorem prose_is_read_witness:
  "isSkippableTTSText asciiTables sampleTable \<and> 2 \<le> length (getSignificantLines sampleTable)"
proof -
  have m: "matchAll False (Then (maybe (oneOf [13])) (oneOf [10])) sampleTable = [(5, 6)]"
    by (simp add: matchAll_def matchAt_def maybe_def oneOf_def codeAt_def widthAt_def sampleTable_def js_def)
  have l: "getSignificantLines sampleTable = [js ''a|b|c'', js ''d|e|f'']"
    by (simp add: getSignificantLines_def m) (simp add: slice_def sampleTable_def js_def trim_def is_space_def)
  have "occurrences (oneOf [124]) (js ''a|b|c'') = 2" "occurrences (oneOf [124]) (js ''d|e|f'') = 2"
    by (simp_all add: occurrences_def matchAll_def matchAt_def oneOf_def codeAt_def widthAt_def js_def)
  then have s: "isSkippableTTSText asciiTables sampleTable"
    by (simp add: isSkippableTTSText_def isTableLikeTTSText_def isTableLine_def l Let_def)
  have "97 \<in> set sampleTable" "readable asciiTables 97"
    by (simp_all add: sampleTable_def js_def readable_def asciiTables_def is_space_def isZeroWidth_def is_high_def is_low_def)
  then show ?thesis using prose_is_read [OF _ _ s, of 97] s by blast
qed

lemma skippable_empty [simp]: "isSkippableTTSText uc []"
  by (simp add: isSkippableTTSText_def Let_def replace_def matchAll_def matchAt_def some_def)

section \<open>The markup keeps the text\<close>

fun emptyMarks :: "xml \<Rightarrow> bool" where
  "emptyMarks (XmlElement n as cs) \<longleftrightarrow> (n = js ''mark'' \<longrightarrow> textContent (XmlElement n as cs) = []) \<and> list_all emptyMarks cs"
| "emptyMarks _ \<longleftrightarrow> True"

lemma bookmarks_text: "emptyMarks x \<Longrightarrow> textContent (bookmarks x) = textContent x"
proof (induction x rule: bookmarks.induct)
  case (1 n as cs)
  show ?case
  proof (cases "n = js ''mark'' \<and> attribute (js ''name'') (XmlElement n as cs) \<noteq> []")
    case False
    then have "map (\<lambda>x. textContent (bookmarks x)) cs = map textContent cs" using 1 by (simp add: list_all_iff)
    then have "concat (map (\<lambda>x. textContent (bookmarks x)) cs) = concat (map textContent cs)" by (rule arg_cong)
    then show ?thesis using False by (auto simp: comp_def)
  qed (use 1 in simp)
qed simp_all

lemma withoutLang_text: "concat (map textContent (withoutLang x)) = textContent x"
proof (induction x rule: withoutLang.induct)
  case (1 n as cs)
  have "concat (map textContent (concat (map withoutLang xs))) = concat (map (\<lambda>x. concat (map textContent (withoutLang x))) xs)" for xs
    by (induction xs) simp_all
  then have "concat (map textContent (concat (map withoutLang cs))) = concat (map textContent cs)" using 1 by (simp cong: map_cong)
  then show ?case by (simp add: Let_def)
qed simp_all

lemma source_text:
  assumes "list_all emptyMarks nodes"
  shows "concat (map textContent (concat (map (withoutLang \<circ> bookmarks) nodes))) = concat (map textContent nodes)"
  using assms by (induction nodes) (simp_all add: withoutLang_text bookmarks_text)

inductive_cases paused_element: "paused (XmlElement n as cs) ys"

text \<open>
  The request says what the sentence says. The markup sent to the speech service is the spoken nodes, without
  language elements and with bookmarks for marks, in which only breaks were added and white space normalised,
  inside the voice, style and rate of the settings; and if marks are empty, as the reader writes them, the
  spoken nodes have exactly the text of the sentence.
\<close>

lemma azure_keeps_speech:
  "(\<exists>yss. azureDocument uc parse content settings =
      envelope (languageOf (parse content) settings) settings
        (XmlElement (js ''prosody'') [(js ''rate'', rateText (az_rate settings))] (concat yss)) \<and>
      list_all2 paused (sourceNodes (parse content) content) yss) \<and>
   (\<forall>as cs. parse content = Some [XmlElement (js ''speak'') as cs] \<and> list_all emptyMarks cs \<longrightarrow>
      concat (map textContent (sourceNodes (parse content) content)) = textContent (XmlElement (js ''speak'') as cs))"
proof (intro conjI allI impI)
  let ?p = "XmlElement (js ''prosody'') [(js ''rate'', rateText (az_rate settings))] (sourceNodes (parse content) content)"
  have "lowerAscii (js ''prosody'') \<notin> set PRONUNCIATION_ELEMENTS"
    by (simp add: PRONUNCIATION_ELEMENTS_def lowerAscii_def js_def)
  then obtain yss where y: "enhanceProsodyBreaks uc ?p = [XmlElement (js ''prosody'') [(js ''rate'', rateText (az_rate settings))] (concat yss)]"
    "list_all2 paused (sourceNodes (parse content) content) yss"
    using paused_element [OF breaks_of_element] by blast
  then show "\<exists>yss. azureDocument uc parse content settings =
      envelope (languageOf (parse content) settings) settings
        (XmlElement (js ''prosody'') [(js ''rate'', rateText (az_rate settings))] (concat yss)) \<and>
      list_all2 paused (sourceNodes (parse content) content) yss"
    by (auto simp: azureDocument_def Let_def)
next
  fix as cs
  assume "parse content = Some [XmlElement (js ''speak'') as cs] \<and> list_all emptyMarks cs"
  then show "concat (map textContent (sourceNodes (parse content) content)) = textContent (XmlElement (js ''speak'') as cs)"
    using source_text [of cs] by (simp add: sourceNodes_def documentElement_def lowerAscii_def js_def)
qed

theorem azure_keeps_speech_witness:
  "concat (map textContent (sourceNodes (Some [XmlElement (js ''speak'') [] [XmlText (js ''hi''), XmlElement (js ''mark'') [(js ''name'', js ''0'')] []]]) [])) = js ''hi''"
proof -
  let ?cs = "[XmlText (js ''hi''), XmlElement (js ''mark'') [(js ''name'', js ''0'')] []]"
  show ?thesis
    using azure_keeps_speech [of asciiTables "\<lambda>_. Some [XmlElement (js ''speak'') [] ?cs]" "[]"
        "\<lparr>az_rate = 0, az_voiceName = [], az_style = []\<rparr>"] by simp
qed

section \<open>The tools of the speech buffer\<close>

text \<open>What the speech buffer calls: the functions of the program, with the browser's parser, serialiser and positions.\<close>

definition speechTools ::
  "unicode \<Rightarrow> (ustring \<Rightarrow> xml list option) \<Rightarrow> (xml \<Rightarrow> ustring) \<Rightarrow> (ustring \<Rightarrow> int \<Rightarrow> ustring) \<Rightarrow> (ustring \<Rightarrow> ustring \<Rightarrow> ustring) \<Rightarrow>
    azureSettings \<Rightarrow> tools" where
  "speechTools uc parse serialize point buildRange settings =
    \<lparr>tl_est = (\<lambda>t. estimateSpokenSeconds uc t (Fin 0)), tl_alnum = alnum uc, tl_parse = (\<lambda>t. Option.bind (parse t) documentElement),
     tl_serialize = serialize, tl_point = point, tl_buildRange = buildRange, tl_skippable = isSkippableTTSText uc,
     tl_azure = (\<lambda>x. buildAzureSSML uc parse serialize (serialize x) settings)\<rparr>"

lemma speechTools_skip_empty: "tl_skippable (speechTools uc parse serialize point buildRange settings) []"
  by (simp add: speechTools_def)

end
