(* ===== verification/Tts_Session.thy ===== *)
theory Tts_Session
  imports Prelude
begin

text \<open>
  \<^verbatim>\<open>frontend/src/hooks/useTTSSession.ts\<close>: where the narration of a book stopped. Positions are collected
  and written to \<^verbatim>\<open>localStorage\<close> at most every two seconds, at once when a flush is asked for, and when the
  book changes or the hook is unmounted. An entry of the storage is the object its text stands for, or
  \<open>None\<close> for a text that is not JSON. Times are those of \<^verbatim>\<open>Date.now()\<close>; the timer is its due time. The
  settings in a snapshot are of any type. Shown here: apart from the delay, the hook is the map from books
  to the position saved last.
\<close>

section \<open>State and operations\<close>

record 's ttsSnapshot =
  sn_cfi :: ustring
  sn_markName :: "ustring option"
  sn_markText :: "ustring option"
  sn_timestamp :: real
  sn_settings :: 's

record sessionMark =
  ma_cfi :: ustring
  ma_name :: ustring
  ma_text :: ustring

record 's ttsSession =
  ss_storage :: "(ustring, 's ttsSnapshot option) omap"
  ss_pending :: "(ustring \<times> 's ttsSnapshot) option"
  ss_timer :: "real option"
  ss_lastWrite :: "real option"
  ss_bookId :: ustring

definition TTS_SESSION_TTL :: real where
  "TTS_SESSION_TTL = 7 * 24 * 60 * 60 * 1000"

definition getTTSSessionKey :: "ustring \<Rightarrow> ustring option" where
  "getTTSSessionKey bookId = (if bookId = [] then None else Some (js ''z-reader-tts-session:'' @ bookId))"

definition writePending :: "bool \<Rightarrow> real \<Rightarrow> 's ttsSession \<Rightarrow> 's ttsSession" where
  "writePending writable now s =
    (let t = s\<lparr>ss_timer := None, ss_pending := None\<rparr> in
     case ss_pending s of
       None \<Rightarrow> t
     | Some (key, snapshot) \<Rightarrow>
        (if writable then t\<lparr>ss_storage := mapSet key (Some snapshot) (ss_storage s), ss_lastWrite := Some now\<rparr> else t))"

definition loadTTSSession :: "bool \<Rightarrow> bool \<Rightarrow> real \<Rightarrow> 's ttsSession \<Rightarrow> 's ttsSnapshot option \<times> 's ttsSession" where
  "loadTTSSession readable removable now s =
    (case getTTSSessionKey (ss_bookId s) of
       None \<Rightarrow> (None, s)
     | Some key \<Rightarrow>
        (if \<not> readable then (None, s)
         else case mapGet (ss_storage s) key of
           Some (Some parsed) \<Rightarrow>
            (if sn_cfi parsed = [] \<or> TTS_SESSION_TTL < now - sn_timestamp parsed
             then (None, if removable then s\<lparr>ss_storage := mapDelete key (ss_storage s)\<rparr> else s)
             else (Some parsed, s))
         | _ \<Rightarrow> (None, s)))"

text \<open>\<^verbatim>\<open>currentMarkRef.current?.cfi || viewRef.current?.lastLocation?.cfi\<close>; a missing position is empty.\<close>

definition positionOf :: "sessionMark option \<Rightarrow> ustring \<Rightarrow> ustring" where
  "positionOf mark location = (case mark of Some m \<Rightarrow> (if ma_cfi m = [] then location else ma_cfi m) | None \<Rightarrow> location)"

definition snapshotOf :: "real \<Rightarrow> sessionMark option \<Rightarrow> ustring \<Rightarrow> 's \<Rightarrow> 's ttsSnapshot" where
  "snapshotOf now mark location settings =
    \<lparr>sn_cfi = positionOf mark location, sn_markName = map_option ma_name mark, sn_markText = map_option ma_text mark,
     sn_timestamp = now, sn_settings = settings\<rparr>"

definition saveTTSSession ::
  "bool \<Rightarrow> bool \<Rightarrow> real \<Rightarrow> sessionMark option \<Rightarrow> ustring \<Rightarrow> 's \<Rightarrow> 's ttsSession \<Rightarrow> 's ttsSession" where
  "saveTTSSession writable flush now mark location settings s =
    (case getTTSSessionKey (ss_bookId s) of
       None \<Rightarrow> s
     | Some key \<Rightarrow>
        (if positionOf mark location = [] then s
         else
          (let t = s\<lparr>ss_pending := Some (key, snapshotOf now mark location settings)\<rparr>;
               due = (case ss_lastWrite s of None \<Rightarrow> True | Some w \<Rightarrow> 2000 \<le> now - w) in
           if flush \<or> due then writePending writable now t
           else if ss_timer s = None
           then t\<lparr>ss_timer := Some (now + (2000 - (case ss_lastWrite s of None \<Rightarrow> 0 | Some w \<Rightarrow> now - w)))\<rparr>
           else t)))"

definition clearTTSSession :: "bool \<Rightarrow> 's ttsSession \<Rightarrow> 's ttsSession" where
  "clearTTSSession removable s =
    (case getTTSSessionKey (ss_bookId s) of
       None \<Rightarrow> s
     | Some key \<Rightarrow>
        s\<lparr>ss_timer := None, ss_pending := None, ss_lastWrite := None,
          ss_storage := (if removable then mapDelete key (ss_storage s) else ss_storage s)\<rparr>)"

definition changeBook :: "bool \<Rightarrow> real \<Rightarrow> ustring \<Rightarrow> 's ttsSession \<Rightarrow> 's ttsSession" where
  "changeBook writable now bookId s = (writePending writable now s)\<lparr>ss_bookId := bookId\<rparr>"

definition timerFires :: "bool \<Rightarrow> real \<Rightarrow> 's ttsSession \<Rightarrow> 's ttsSession" where
  "timerFires writable now s = (case ss_timer s of None \<Rightarrow> s | Some due \<Rightarrow> if due \<le> now then writePending writable now s else s)"

datatype 's sessionEvent =
    SessionSave bool "sessionMark option" ustring 's
  | SessionTimer
  | SessionClear
  | SessionBook ustring
  | SessionLoad

text \<open>A step at a time, with a storage that is available.\<close>

fun session_step :: "real \<times> 's sessionEvent \<Rightarrow> 's ttsSession \<Rightarrow> 's ttsSession" where
  "session_step (now, SessionSave flush mark location settings) s = saveTTSSession True flush now mark location settings s"
| "session_step (now, SessionTimer) s = timerFires True now s"
| "session_step (now, SessionClear) s = clearTTSSession True s"
| "session_step (now, SessionBook bookId) s = changeBook True now bookId s"
| "session_step (now, SessionLoad) s = snd (loadTTSSession True True now s)"

definition session_init :: "(ustring, 's ttsSnapshot option) omap \<Rightarrow> ustring \<Rightarrow> 's ttsSession" where
  "session_init storage bookId = \<lparr>ss_storage = storage, ss_pending = None, ss_timer = None, ss_lastWrite = None, ss_bookId = bookId\<rparr>"

section \<open>The map from books to positions\<close>

record 's positions =
  po_saved :: "ustring \<Rightarrow> 's ttsSnapshot option option"
  po_book :: ustring

text \<open>What was saved last for a key, written or not.\<close>

definition positionsOf :: "'s ttsSession \<Rightarrow> 's positions" where
  "positionsOf s = \<lparr>po_saved = (\<lambda>key. case ss_pending s of
       Some (k, snapshot) \<Rightarrow> (if k = key then Some (Some snapshot) else mapGet (ss_storage s) key)
     | None \<Rightarrow> mapGet (ss_storage s) key), po_book = ss_bookId s\<rparr>"

definition outdated :: "real \<Rightarrow> 's ttsSnapshot \<Rightarrow> bool" where
  "outdated now snapshot \<longleftrightarrow> sn_cfi snapshot = [] \<or> TTS_SESSION_TTL < now - sn_timestamp snapshot"

fun positions_step :: "real \<times> 's sessionEvent \<Rightarrow> 's positions \<Rightarrow> 's positions" where
  "positions_step (now, SessionSave flush mark location settings) p =
    (case getTTSSessionKey (po_book p) of
       Some key \<Rightarrow> (if positionOf mark location = [] then p
         else p\<lparr>po_saved := (po_saved p)(key \<mapsto> Some (snapshotOf now mark location settings))\<rparr>)
     | None \<Rightarrow> p)"
| "positions_step (now, SessionClear) p =
    (case getTTSSessionKey (po_book p) of Some key \<Rightarrow> p\<lparr>po_saved := (po_saved p)(key := None)\<rparr> | None \<Rightarrow> p)"
| "positions_step (now, SessionBook bookId) p = p\<lparr>po_book := bookId\<rparr>"
| "positions_step (now, SessionTimer) p = p"
| "positions_step (now, SessionLoad) p =
    (case getTTSSessionKey (po_book p) of
       Some key \<Rightarrow> (case po_saved p key of
          Some (Some snapshot) \<Rightarrow> (if outdated now snapshot then p\<lparr>po_saved := (po_saved p)(key := None)\<rparr> else p)
        | _ \<Rightarrow> p)
     | None \<Rightarrow> p)"

text \<open>Time does not run backwards, and a timer fires within a day of its due time.\<close>

fun timely :: "real \<Rightarrow> (real \<times> 's sessionEvent) list \<Rightarrow> 's ttsSession \<Rightarrow> bool" where
  "timely before [] s \<longleftrightarrow> True"
| "timely before ((now, ev) # es) s \<longleftrightarrow> before \<le> now \<and>
     (case ss_timer s of Some due \<Rightarrow> now \<le> due + 24 * 60 * 60 * 1000 | None \<Rightarrow> True) \<and> timely now es (session_step (now, ev) s)"

definition session_inv :: "real \<Rightarrow> 's ttsSession \<Rightarrow> bool" where
  "session_inv now s \<longleftrightarrow> (\<forall>w. ss_lastWrite s = Some w \<longrightarrow> w \<le> now) \<and>
     (\<forall>due. ss_timer s = Some due \<longrightarrow> ss_lastWrite s = Some (due - 2000)) \<and>
     (\<forall>key snapshot. ss_pending s = Some (key, snapshot) \<longrightarrow> getTTSSessionKey (ss_bookId s) = Some key \<and>
        sn_cfi snapshot \<noteq> [] \<and> (\<exists>due. ss_timer s = Some due \<and> due - 2000 \<le> sn_timestamp snapshot))"

lemma session_inv_write:
  assumes "session_inv before s" and "before \<le> now" and "ss_lastWrite t = ss_lastWrite s"
  shows "session_inv now (writePending True now t)"
  using assms by (fastforce simp: session_inv_def writePending_def Let_def split: option.splits)

lemma session_inv_save:
  assumes "session_inv before s" and "before \<le> now"
  shows "session_inv now (saveTTSSession True flush now mark location settings s)"
proof -
  have later: "session_inv now s" using assms by (fastforce simp: session_inv_def)
  show ?thesis
  proof (cases "getTTSSessionKey (ss_bookId s)")
    case (Some key)
    let ?t = "s\<lparr>ss_pending := Some (key, snapshotOf now mark location settings)\<rparr>"
    have w: "session_inv now (writePending True now ?t)" by (rule session_inv_write [OF assms]) simp
    have q: "session_inv now (if ss_timer s = None then ?t\<lparr>ss_timer := Some (2000 + w)\<rparr> else ?t)"
      if "ss_lastWrite s = Some w" "positionOf mark location \<noteq> []" for w
      using later that Some by (auto simp: session_inv_def snapshotOf_def)
    show ?thesis
      using later w q Some by (cases "ss_lastWrite s"; cases "ss_timer s") (simp_all add: saveTTSSession_def Let_def)
  qed (simp add: saveTTSSession_def later)
qed

lemma session_inv_step:
  assumes "session_inv before s" and "before \<le> now"
  shows "session_inv now (session_step (now, ev) s)"
proof -
  have later: "session_inv now s" using assms by (fastforce simp: session_inv_def)
  have w: "session_inv now (writePending True now s)" by (rule session_inv_write [OF assms]) simp
  have "ss_pending (writePending True now s) = None" by (simp add: writePending_def Let_def split: option.split)
  then have "session_inv now (changeBook True now b s)" for b using w by (simp add: changeBook_def session_inv_def)
  then show ?thesis using later w session_inv_save [OF assms]
    by (cases ev) (auto simp: timerFires_def clearTTSSession_def loadTTSSession_def session_inv_def split: option.splits)
qed

lemma positions_write [simp]: "positionsOf (writePending True now s) = positionsOf s"
  by (auto simp: positionsOf_def writePending_def Let_def fun_eq_iff split: option.splits)

lemma positions_save:
  assumes "session_inv before s"
  shows "positionsOf (saveTTSSession True flush now mark location settings s) =
    positions_step (now, SessionSave flush mark location settings) (positionsOf s)"
proof (cases "getTTSSessionKey (ss_bookId s)")
  case (Some key)
  have k: "ss_pending s = Some (k, x) \<Longrightarrow> k = key" for k x using assms Some by (auto simp: session_inv_def)
  show ?thesis using Some
    by (auto simp: saveTTSSession_def Let_def positionsOf_def fun_eq_iff writePending_def dest: k split: option.splits)
qed (simp add: saveTTSSession_def positionsOf_def)

lemma positions_load:
  assumes "session_inv before s" and "case ss_timer s of Some due \<Rightarrow> now \<le> due + 24 * 60 * 60 * 1000 | None \<Rightarrow> True"
  shows "positionsOf (snd (loadTTSSession True True now s)) = positions_step (now, SessionLoad) (positionsOf s)"
proof (cases "ss_pending s")
  case None
  then show ?thesis
    by (auto simp: loadTTSSession_def positionsOf_def outdated_def fun_eq_iff split: option.splits)
next
  case (Some p)
  obtain key snapshot where p: "p = (key, snapshot)" by (cases p)
  then obtain due where "ss_timer s = Some due" "due - 2000 \<le> sn_timestamp snapshot" "sn_cfi snapshot \<noteq> []"
    "getTTSSessionKey (ss_bookId s) = Some key"
    using assms(1) Some by (auto simp: session_inv_def)
  moreover from this have "\<not> outdated now snapshot" using assms(2) by (simp add: outdated_def TTS_SESSION_TTL_def)
  ultimately show ?thesis using Some p
    by (auto simp: loadTTSSession_def positionsOf_def fun_eq_iff split: option.splits)
qed

lemma positions_refined:
  assumes "session_inv before s" and "case ss_timer s of Some due \<Rightarrow> now \<le> due + 24 * 60 * 60 * 1000 | None \<Rightarrow> True"
  shows "positionsOf (session_step (now, ev) s) = positions_step (now, ev) (positionsOf s)"
proof (cases ev)
  case SessionClear
  have k: "ss_pending s = Some (k, x) \<Longrightarrow> getTTSSessionKey (ss_bookId s) = Some k" for k x using assms by (auto simp: session_inv_def)
  show ?thesis using SessionClear
    by (auto simp: clearTTSSession_def positionsOf_def fun_eq_iff dest: k split: option.splits)
next
  case (SessionBook b)
  have "positionsOf (t\<lparr>ss_bookId := b\<rparr>) = (positionsOf t)\<lparr>po_book := b\<rparr>" for t :: "'a ttsSession"
    by (simp add: positionsOf_def fun_eq_iff split: option.split)
  then show ?thesis using SessionBook by (simp add: changeBook_def)
qed (use positions_save [OF assms(1)] positions_load [OF assms] in \<open>simp_all add: timerFires_def split: option.split\<close>)

lemma session_run:
  "session_inv before s \<Longrightarrow> timely before es s \<Longrightarrow> positionsOf (fold session_step es s) = fold positions_step es (positionsOf s) \<and>
    (\<exists>now. session_inv now (fold session_step es s))"
proof (induction es arbitrary: before s)
  case (Cons x es)
  obtain now ev where x: "x = (now, ev)" by (cases x)
  have t: "before \<le> now" "case ss_timer s of Some due \<Rightarrow> now \<le> due + 24 * 60 * 60 * 1000 | None \<Rightarrow> True"
    "timely now es (session_step (now, ev) s)" using Cons.prems(2) x by auto
  show ?case
    using Cons.IH [OF session_inv_step [OF Cons.prems(1) t(1)] t(3)] positions_refined [OF Cons.prems(1) t(2)] x by simp
qed auto

text \<open>
  \<^bold>\<open>C32\<close> (the last position is kept). Through any sequence of saves, with and without flush, timers, loads, clears and
  changes of the book, what is written or waiting to be written is exactly what the map from books to the
  position saved last says, cleared or expired entries apart; and a position that waits has a timer that
  writes it at most two seconds after it was saved.
\<close>

theorem session_refines_positions:
  assumes "timely before es (session_init storage bookId)"
  shows "let s = fold session_step es (session_init storage bookId) in
    positionsOf s = fold positions_step es \<lparr>po_saved = mapGet storage, po_book = bookId\<rparr> \<and>
    (\<forall>key snapshot. ss_pending s = Some (key, snapshot) \<longrightarrow> (\<exists>due. ss_timer s = Some due \<and> due \<le> sn_timestamp snapshot + 2000))"
proof -
  have "session_inv before (session_init storage bookId)" by (simp add: session_inv_def session_init_def)
  from session_run [OF this assms] obtain now where
    r: "positionsOf (fold session_step es (session_init storage bookId)) = fold positions_step es (positionsOf (session_init storage bookId))"
    "session_inv now (fold session_step es (session_init storage bookId))" by blast
  have "positionsOf (session_init storage bookId) = \<lparr>po_saved = mapGet storage, po_book = bookId\<rparr>"
    by (simp add: positionsOf_def session_init_def)
  then show ?thesis using r by (auto simp: session_inv_def Let_def)
qed

text \<open>The first save is written at once, the second waits, and the third, of another book, makes it be written.\<close>

definition sampleMark :: "ustring \<Rightarrow> sessionMark" where
  "sampleMark cfi = \<lparr>ma_cfi = cfi, ma_name = [], ma_text = []\<rparr>"

definition sampleSession :: "(real \<times> unit sessionEvent) list" where
  "sampleSession = [(10, SessionSave False (Some (sampleMark [1])) [] ()), (500, SessionSave False (Some (sampleMark [2])) [] ()),
     (600, SessionBook (js ''c'')), (700, SessionSave True None [3] ())]"

theorem session_refines_positions_witness:
  "timely 0 sampleSession (session_init [] (js ''b'')) \<and>
   map_option (map_option sn_cfi) (po_saved (positionsOf (fold session_step sampleSession (session_init [] (js ''b'')))) (js ''z-reader-tts-session:b'')) = Some (Some [2])"
proof -
  have t: "timely 0 sampleSession (session_init [] (js ''b''))" by code_simp
  have "map_option (map_option sn_cfi) (po_saved (fold positions_step sampleSession \<lparr>po_saved = mapGet [], po_book = js ''b''\<rparr>)
    (js ''z-reader-tts-session:b'')) = Some (Some [2])" by code_simp
  then show ?thesis using t session_refines_positions [OF t] by (simp add: Let_def)
qed

end
