(* ===== verification/Tts_Support.thy ===== *)
theory Tts_Support
  imports Prelude "HOL-Library.Word"
begin

text \<open>
  Small parts of the narration: \<^verbatim>\<open>frontend/src/lib/tts-queue.ts\<close> with the segment numbers of
  \<^verbatim>\<open>tts-helpers.ts\<close>, the list of voices (\<^verbatim>\<open>mergeVoicesWithFallback\<close> in \<^verbatim>\<open>tts.ts\<close>), and the local diagnostics
  (\<^verbatim>\<open>tts-diagnostics.ts\<close>). What the queue is given to read a text and to build the markup are arguments of
  the definitions. Shown here: a queue is short, has no markup twice and numbers its segments in order; a list of
  voices has every voice once and always the preferred one; and the diagnostics never contain anything but
  numbers, truth values and the listed words.
\<close>

section \<open>The queue\<close>

datatype segmentState = IdleS | QueuedS | LoadingS | ReadyS | PlayingS | FailedS | SkippedS
datatype segmentSource = CurrentText | Lookahead

record queueSegment =
  qs_id :: ustring
  qs_index :: nat
  qs_source :: segmentSource
  qs_ssml :: ustring
  qs_enhanced :: ustring
  qs_fallback :: ustring
  qs_text :: ustring
  qs_state :: segmentState
  qs_createdAt :: real

definition TTS_LOOKAHEAD_SENTENCE_COUNT :: nat where
  "TTS_LOOKAHEAD_SENTENCE_COUNT = 6"

text \<open>The hash in 32-bit arithmetic, and its magnitude in base 36.\<close>

definition segmentHash :: "ustring \<Rightarrow> 32 word" where
  "segmentHash s = foldl (\<lambda>h c. 31 * h + of_nat c) 0 s"

definition digit36 :: "nat \<Rightarrow> nat" where
  "digit36 d = (if d < 10 then 48 + d else 87 + d)"

fun base36 :: "nat \<Rightarrow> ustring" where
  "base36 n = (if n < 36 then [digit36 n] else base36 (n div 36) @ [digit36 (n mod 36)])"

definition createTTSQueueSegmentId :: "ustring \<Rightarrow> nat \<Rightarrow> ustring" where
  "createTTSQueueSegmentId ssml i = dec i @ js '':'' @ base36 (nat \<bar>sint (segmentHash ssml)\<bar>)"

text \<open>\<open>textOf\<close> is \<^verbatim>\<open>getTextFromSSML\<close>, \<open>skippable\<close> is \<^verbatim>\<open>isSkippableTTSText\<close>.\<close>

definition createTTSQueueSegment ::
  "(ustring \<Rightarrow> ustring) \<Rightarrow> (ustring \<Rightarrow> bool) \<Rightarrow> (ustring \<Rightarrow> ustring) \<Rightarrow> real \<Rightarrow> ustring \<Rightarrow> nat \<Rightarrow> segmentSource \<Rightarrow> queueSegment option" where
  "createTTSQueueSegment textOf skippable build now ssml i source =
    (let t = textOf ssml in
     if t = [] \<or> skippable t then None
     else Some \<lparr>qs_id = createTTSQueueSegmentId (build ssml) i, qs_index = i, qs_source = source, qs_ssml = ssml,
       qs_enhanced = build ssml, qs_fallback = build t, qs_text = t,
       qs_state = (if source = CurrentText then IdleS else QueuedS), qs_createdAt = now\<rparr>)"

definition isSpeakableSSML :: "(ustring \<Rightarrow> ustring) \<Rightarrow> (ustring \<Rightarrow> bool) \<Rightarrow> ustring option \<Rightarrow> bool" where
  "isSpeakableSSML textOf skippable ssml =
    (case ssml of None \<Rightarrow> False | Some s \<Rightarrow> s \<noteq> [] \<and> textOf s \<noteq> [] \<and> \<not> skippable (textOf s))"

definition updateTTSQueueSegmentState :: "queueSegment list \<Rightarrow> ustring \<Rightarrow> segmentState \<Rightarrow> queueSegment list" where
  "updateTTSQueueSegmentState queue i st = map (\<lambda>q. if qs_id q \<noteq> i then q else q\<lparr>qs_state := st\<rparr>) queue"

definition getRelevantQueueSSMLs :: "queueSegment list \<Rightarrow> ustring list" where
  "getRelevantQueueSSMLs queue = map qs_enhanced (filter (\<lambda>q. qs_state q \<noteq> FailedS \<and> qs_state q \<noteq> SkippedS) queue)"

definition countReadyQueueSegments :: "queueSegment list \<Rightarrow> nat" where
  "countReadyQueueSegments queue = length (filter (\<lambda>q. qs_state q = ReadyS) queue)"

definition addSegment ::
  "(ustring \<Rightarrow> ustring) \<Rightarrow> (ustring \<Rightarrow> bool) \<Rightarrow> (ustring \<Rightarrow> ustring) \<Rightarrow> real \<Rightarrow> ustring \<times> segmentSource \<Rightarrow> queueSegment list \<Rightarrow> queueSegment list" where
  "addSegment textOf skippable build now raw queue =
    (case createTTSQueueSegment textOf skippable build now (fst raw) (length queue) (snd raw) of
       None \<Rightarrow> queue
     | Some q \<Rightarrow> (if qs_enhanced q \<in> set (map qs_enhanced queue) then queue else queue @ [q]))"

definition rebuildTTSSpeechQueue ::
  "(ustring \<Rightarrow> ustring) \<Rightarrow> (ustring \<Rightarrow> bool) \<Rightarrow> (ustring \<Rightarrow> ustring) \<Rightarrow> real \<Rightarrow> ustring option \<Rightarrow> ustring list \<Rightarrow> queueSegment list" where
  "rebuildTTSSpeechQueue textOf skippable build now current ahead =
    fold (addSegment textOf skippable build now)
      ((case current of Some s \<Rightarrow> (if s = [] then [] else [(s, CurrentText)]) | None \<Rightarrow> []) @
       map (\<lambda>s. (s, Lookahead)) (take TTS_LOOKAHEAD_SENTENCE_COUNT ahead)) []"

section \<open>Voices\<close>

record voice =
  vo_Name :: ustring
  vo_DisplayName :: ustring
  vo_LocalName :: ustring
  vo_ShortName :: ustring
  vo_Gender :: ustring
  vo_Locale :: ustring
  vo_StyleList :: "ustring list option"

definition namedVoice :: "ustring \<Rightarrow> voice \<Rightarrow> voice" where
  "namedVoice name v = v\<lparr>vo_Name := name, vo_ShortName := name\<rparr>"

definition voiceName :: "voice \<Rightarrow> ustring" where
  "voiceName v = (if vo_ShortName v = [] then vo_Name v else vo_ShortName v)"

definition preferredVoice :: "ustring \<Rightarrow> voice" where
  "preferredVoice name = \<lparr>vo_Name = name, vo_DisplayName = name, vo_LocalName = name, vo_ShortName = name, vo_Gender = [],
     vo_Locale = (if startsWith name (js ''zh-'') then js ''zh-CN'' else []), vo_StyleList = Some [js ''general'']\<rparr>"

text \<open>The built-in voices are the argument \<open>builtin\<close>.\<close>

definition mergeVoicesWithFallback :: "voice list \<Rightarrow> voice list \<Rightarrow> ustring \<Rightarrow> voice list" where
  "mergeVoicesWithFallback builtin voices preferred =
    (let merged = fold (\<lambda>v m. mapSet (voiceName v) (namedVoice (voiceName v) v) m) (builtin @ voices) [];
         all = (if preferred \<noteq> [] \<and> \<not> mapHas merged preferred then mapSet preferred (preferredVoice preferred) merged else merged) in
     map snd all)"

section \<open>Diagnostics\<close>

datatype diagnosticValue = DNumber jsnum | DBool bool | DText ustring | DNull | DUndefined

record ttsDiagnostic =
  dg_timestamp :: ustring
  dg_event :: ustring
  dg_visibility :: ustring
  dg_detail :: "(ustring \<times> diagnosticValue) list"

definition NUMERIC_FIELDS :: "ustring list" where
  "NUMERIC_FIELDS = map js [''time'', ''duration'', ''readyState'', ''requestId'', ''code'', ''latencyMs'', ''gapMs'',
     ''seconds'', ''chunks'', ''attempt'', ''delayMs'', ''ssmlBytes'', ''bytes'', ''averageLatencyMs'',
     ''estimatedSeconds'', ''ratio'', ''preloaded'', ''queued'', ''activePreloads'']"

definition BOOLEAN_FIELDS :: "ustring list" where
  "BOOLEAN_FIELDS = map js [''paused'', ''ended'', ''replacing'', ''continuous'']"

definition ENUM_FIELDS :: "(ustring \<times> ustring list) list" where
  "ENUM_FIELDS =
    [(js ''state'', map js [''stopped'', ''playing'', ''paused'']),
     (js ''source'', map js [''cache'', ''preload'', ''network'']),
     (js ''name'', map js [''NotAllowedError'', ''NotSupportedError'', ''AbortError'', ''TimeoutError'', ''Error'', ''TypeError'', ''unknown'']),
     (js ''kind'', map js [''cancelled'', ''timeout'', ''network'', ''rate-limit'', ''invalid-ssml'', ''unauthorized'', ''permission'',
        ''transient'', ''permanent''])]"

definition safeField :: "ustring \<times> diagnosticValue \<Rightarrow> bool" where
  "safeField f =
    (if fst f \<in> set NUMERIC_FIELDS then (case snd f of DNumber n \<Rightarrow> isFinite n | _ \<Rightarrow> False)
     else if fst f \<in> set BOOLEAN_FIELDS then (case snd f of DBool b \<Rightarrow> True | _ \<Rightarrow> False)
     else (case snd f of DText t \<Rightarrow> (case map_of ENUM_FIELDS (fst f) of Some ws \<Rightarrow> t \<in> set ws | None \<Rightarrow> False) | _ \<Rightarrow> False))"

definition safeDetail :: "(ustring \<times> diagnosticValue) list \<Rightarrow> (ustring \<times> diagnosticValue) list" where
  "safeDetail detail = filter safeField detail"

text \<open>The pattern \<^verbatim>\<open>^[a-z][a-z0-9.-]{0,63}$\<close> of event names.\<close>

definition eventName :: "ustring \<Rightarrow> bool" where
  "eventName e \<longleftrightarrow> e \<noteq> [] \<and> length e \<le> 64 \<and> 97 \<le> hd e \<and> hd e \<le> 122 \<and>
     list_all (\<lambda>c. 97 \<le> c \<and> c \<le> 122 \<or> is_digit c \<or> c = 46 \<or> c = 45) (tl e)"

text \<open>\<open>enabled\<close> says whether the storage has the switch; a storage that fails leaves the diagnostics off.\<close>

definition recordTTSDiagnostic ::
  "bool \<Rightarrow> ustring \<Rightarrow> ustring \<Rightarrow> ustring \<Rightarrow> (ustring \<times> diagnosticValue) list \<Rightarrow> ttsDiagnostic list \<Rightarrow> ttsDiagnostic list" where
  "recordTTSDiagnostic enabled timestamp visibility event detail entries =
    (if \<not> enabled \<or> \<not> eventName event then entries
     else
      (let added = entries @ [\<lparr>dg_timestamp = timestamp, dg_event = event, dg_visibility = visibility, dg_detail = safeDetail detail\<rparr>] in
       drop (length added - 200) added))"

record diagnosticsSummary =
  su_firstAudioLatencyMs :: "real list"
  su_chunkGapMs :: "real list"
  su_bufferMissCount :: nat
  su_retryCount :: nat
  su_recoverySuccessCount :: nat
  su_bufferReadySeconds :: "real list"

definition addSample :: "real list \<Rightarrow> diagnosticValue option \<Rightarrow> real list" where
  "addSample samples v = (case v of Some (DNumber (Fin r)) \<Rightarrow> (if 0 \<le> r then samples @ [r] else samples) | _ \<Rightarrow> samples)"

definition addDiagnostic :: "diagnosticsSummary \<Rightarrow> ttsDiagnostic \<Rightarrow> diagnosticsSummary" where
  "addDiagnostic s d =
    (let e = dg_event d; field = map_of (dg_detail d);
         s1 = (if e = js ''first-audio'' then s\<lparr>su_firstAudioLatencyMs := addSample (su_firstAudioLatencyMs s) (field (js ''latencyMs''))\<rparr> else s);
         s2 = (if e = js ''chunk-gap'' then s1\<lparr>su_chunkGapMs := addSample (su_chunkGapMs s1) (field (js ''gapMs''))\<rparr> else s1);
         s3 = (if e = js ''buffer-miss'' then s2\<lparr>su_bufferMissCount := su_bufferMissCount s2 + 1\<rparr> else s2);
         s4 = (if e = js ''request-retry'' then s3\<lparr>su_retryCount := su_retryCount s3 + 1\<rparr> else s3);
         s5 = (if e = js ''recovery-success'' then s4\<lparr>su_recoverySuccessCount := su_recoverySuccessCount s4 + 1\<rparr> else s4) in
     if e = js ''buffer-ready'' then s5\<lparr>su_bufferReadySeconds := addSample (su_bufferReadySeconds s5) (field (js ''seconds''))\<rparr> else s5)"

definition summarizeTTSDiagnostics :: "ttsDiagnostic list \<Rightarrow> diagnosticsSummary" where
  "summarizeTTSDiagnostics events = foldl addDiagnostic
    \<lparr>su_firstAudioLatencyMs = [], su_chunkGapMs = [], su_bufferMissCount = 0, su_retryCount = 0, su_recoverySuccessCount = 0,
     su_bufferReadySeconds = []\<rparr> events"

section \<open>Properties\<close>

lemma addSegment_queue:
  assumes "distinct (map qs_enhanced queue)" and "map qs_index queue = [0..<length queue]" and "list_all (\<lambda>q. \<not> skippable (qs_text q)) queue"
  shows "let queue' = addSegment textOf skippable build now raw queue in
    distinct (map qs_enhanced queue') \<and> map qs_index queue' = [0..<length queue'] \<and> list_all (\<lambda>q. \<not> skippable (qs_text q)) queue' \<and>
    length queue' \<le> Suc (length queue)"
  using assms by (auto simp: addSegment_def createTTSQueueSegment_def Let_def)

lemma addSegments_queue:
  "distinct (map qs_enhanced queue) \<Longrightarrow> map qs_index queue = [0..<length queue] \<Longrightarrow> list_all (\<lambda>q. \<not> skippable (qs_text q)) queue \<Longrightarrow>
   (let queue' = fold (addSegment textOf skippable build now) raws queue in
    distinct (map qs_enhanced queue') \<and> map qs_index queue' = [0..<length queue'] \<and> list_all (\<lambda>q. \<not> skippable (qs_text q)) queue' \<and>
    length queue' \<le> length raws + length queue)"
proof (induction raws arbitrary: queue)
  case (Cons raw raws)
  note a = addSegment_queue [OF Cons.prems, of textOf build now raw]
  from Cons.IH [of "addSegment textOf skippable build now raw queue"] a show ?case by (auto simp: Let_def)
qed simp

text \<open>The queue has at most seven segments, none twice, numbered in order, and all of them are read.\<close>

lemma queue_shape:
  "let queue = rebuildTTSSpeechQueue textOf skippable build now current ahead in
   length queue \<le> 7 \<and> distinct (map qs_enhanced queue) \<and> map qs_index queue = [0..<length queue] \<and>
   list_all (\<lambda>q. \<not> skippable (qs_text q)) queue"
proof -
  let ?raws = "(case current of Some s \<Rightarrow> (if s = [] then [] else [(s, CurrentText)]) | None \<Rightarrow> []) @
    map (\<lambda>s. (s, Lookahead)) (take TTS_LOOKAHEAD_SENTENCE_COUNT ahead)"
  have "length ?raws \<le> 7" by (auto simp: TTS_LOOKAHEAD_SENTENCE_COUNT_def split: option.split)
  then show ?thesis using addSegments_queue [of "[]" skippable textOf build now ?raws]
    by (auto simp: rebuildTTSSpeechQueue_def Let_def)
qed

text \<open>
  Diagnostics are anonymous. Whatever the program reports, the list of diagnostics has at most 200 entries, and
  each of them consists of a short event name and of fields that are finite numbers, truth values or one of
  the listed words, each under a name that is meant for it: no text of a book, address or token can be in it.
\<close>

lemma diagnostics_anonymous:
  "let entries = fold (\<lambda>(enabled, timestamp, visibility, event, detail). recordTTSDiagnostic enabled timestamp visibility event detail) reports [] in
   length entries \<le> 200 \<and> list_all (\<lambda>d. eventName (dg_event d) \<and> list_all safeField (dg_detail d)) entries"
proof -
  have "length (fold (\<lambda>(enabled, timestamp, visibility, event, detail). recordTTSDiagnostic enabled timestamp visibility event detail) reports es) \<le> 200 \<and>
    list_all (\<lambda>d. eventName (dg_event d) \<and> list_all safeField (dg_detail d))
      (fold (\<lambda>(enabled, timestamp, visibility, event, detail). recordTTSDiagnostic enabled timestamp visibility event detail) reports es)"
    if "length es \<le> 200" "list_all (\<lambda>d. eventName (dg_event d) \<and> list_all safeField (dg_detail d)) es" for es
    using that
  proof (induction reports arbitrary: es)
    case (Cons r reports)
    obtain enabled timestamp visibility event detail where r: "r = (enabled, timestamp, visibility, event, detail)" by (cases r)
    let ?es = "recordTTSDiagnostic enabled timestamp visibility event detail es"
    have "length ?es \<le> 200" using Cons.prems(1) by (auto simp: recordTTSDiagnostic_def Let_def)
    moreover have "list_all (\<lambda>d. eventName (dg_event d) \<and> list_all safeField (dg_detail d)) ?es"
      using Cons.prems(2) by (auto simp: recordTTSDiagnostic_def Let_def safeDetail_def list_all_iff dest: in_set_dropD)
    ultimately show ?case using Cons.IH r by simp
  qed simp
  from this [of "[]"] show ?thesis by (simp add: Let_def)
qed

text \<open>Every voice is listed once, and the preferred one always is.\<close>

lemma merged_voices:
  "distinct (map vo_Name (mergeVoicesWithFallback builtin voices preferred)) \<and>
   (preferred \<noteq> [] \<longrightarrow> preferred \<in> set (map vo_Name (mergeVoicesWithFallback builtin voices preferred)))"
proof -
  let ?ok = "\<lambda>m. wf_map m \<and> list_all (\<lambda>(k, v). vo_Name v = k) m"
  have set_ok: "?ok (mapSet k v m)" if "?ok m" "vo_Name v = k" for k v and m :: "(ustring, voice) omap"
  proof -
    have "list_all (\<lambda>(k, v). vo_Name v = k) m \<Longrightarrow> list_all (\<lambda>(k, v). vo_Name v = k) (mapSet k v m)"
      using that(2) by (induction m) auto
    then show ?thesis using that by simp
  qed
  have fold_ok: "?ok (fold (\<lambda>v m. mapSet (voiceName v) (namedVoice (voiceName v) v) m) vs m)" if "?ok m" for vs m
    using that
  proof (induction vs arbitrary: m)
    case (Cons v vs)
    then show ?case using set_ok [of m "namedVoice (voiceName v) v" "voiceName v"] by (simp add: namedVoice_def)
  qed simp
  define merged where "merged = fold (\<lambda>v m. mapSet (voiceName v) (namedVoice (voiceName v) v) m) (builtin @ voices) []"
  define all where "all = (if preferred \<noteq> [] \<and> \<not> mapHas merged preferred then mapSet preferred (preferredVoice preferred) merged else merged)"
  have m: "?ok merged" unfolding merged_def by (rule fold_ok) simp
  have "?ok (mapSet preferred (preferredVoice preferred) merged)" by (rule set_ok [OF m]) (simp add: preferredVoice_def)
  then have "?ok all" using m by (simp add: all_def)
  moreover have "preferred \<noteq> [] \<Longrightarrow> preferred \<in> fst ` set all" by (auto simp: all_def mapHas_keys AList.dom_update)
  ultimately have "map vo_Name (map snd all) = map fst all" "distinct (map fst all)" "preferred \<noteq> [] \<longrightarrow> preferred \<in> set (map fst all)"
    by (auto simp: wf_map_def list_all_iff)
  then show ?thesis unfolding mergeVoicesWithFallback_def Let_def merged_def [symmetric] all_def [symmetric] by metis
qed

end
