(* ===== verification/Service_Worker.thy ===== *)
theory Service_Worker
  imports Offline_Books
begin

text \<open>
  \<^verbatim>\<open>frontend/public/sw.js\<close>: the service worker that answers the page's requests from the network or from
  Cache Storage. It works on the same Cache Storage as the offline books, so its state contains the
  \<open>cache_storage\<close> of \<open>Offline_Books\<close>. A request is handled in two steps: the event, up to the call of
  \<^verbatim>\<open>fetch\<close>, and the answer of the network, which may come after any number of other events. The entries a
  cache was given without a \<^verbatim>\<open>Vary\<close> header are found by their address alone; a same-origin address is
  written as its path and query, as \<open>Offline_Books\<close> does. Which storage operations fail is part of each
  event.
\<close>

section \<open>State\<close>

record swRequest =
  rq_method :: ustring
  rq_url :: ustring
  rq_pathname :: ustring
  rq_navigate :: bool

datatype responseType = Basic | Cors | OtherType

record swResponse =
  rs_status :: nat
  rs_type :: responseType
  rs_content :: cached

datatype swAnswer =
    NotIntercepted
  | FromNetwork swResponse
  | FromCache cached
  | Unavailable ustring
  | NetworkError

datatype strategy = NetworkFirst | CacheFirst

record storageHealth =
  sh_open :: bool
  sh_match :: bool
  sh_put :: bool
  sh_keys :: bool
  sh_delete :: "ustring \<Rightarrow> bool"

record serviceWorker =
  sw_caches :: cache_storage
  sw_fetching :: "(nat \<times> strategy \<times> swRequest) list"
  sw_answers :: "(nat \<times> swAnswer) list"
  sw_events :: nat

section \<open>Cache Storage\<close>

definition CACHE_NAME :: ustring where
  "CACHE_NAME = js ''z-reader-v0.1.5''"

definition STATIC_ASSETS :: "ustring list" where
  "STATIC_ASSETS = [js ''/'', js ''/login'', js ''/manifest.json'', js ''/icons/icon-192.png'', js ''/icons/icon-512.png'']"

text \<open>\<^verbatim>\<open>caches.match\<close> asks the caches in the order they were made.\<close>

fun cachesMatch :: "cache_storage \<Rightarrow> ustring \<Rightarrow> cached option" where
  "cachesMatch [] url = None"
| "cachesMatch ((name, c) # st) url = (case mapGet c url of Some r \<Rightarrow> Some r | None \<Rightarrow> cachesMatch st url)"

definition cachesOpen :: "cache_storage \<Rightarrow> cache_storage" where
  "cachesOpen st = (if mapHas st CACHE_NAME then st else mapSet CACHE_NAME [] st)"

definition put :: "ustring \<Rightarrow> cached \<Rightarrow> cache_storage \<Rightarrow> cache_storage" where
  "put url r st = mapSet CACHE_NAME (mapSet url r (the_cache st CACHE_NAME)) st"

section \<open>Strategies\<close>

definition networkFirst :: "storageHealth \<Rightarrow> swRequest \<Rightarrow> (unit + swResponse) \<Rightarrow> cache_storage \<Rightarrow> swAnswer \<times> cache_storage" where
  "networkFirst h rq network st =
    (case network of
       Inr r \<Rightarrow>
        (FromNetwork r,
         if rs_status r = 200 \<and> (rs_type r = Basic \<or> rs_type r = Cors) \<and> sh_put h then put (rq_url rq) (rs_content r) st else st)
     | Inl _ \<Rightarrow>
        (if \<not> sh_match h then (NetworkError, st)
         else case cachesMatch st (rq_url rq) of
           Some r \<Rightarrow> (FromCache r, st)
         | None \<Rightarrow>
            (if rq_navigate rq
             then (case cachesMatch st (js ''/'') of Some r \<Rightarrow> FromCache r | None \<Rightarrow> NetworkError, st)
             else (Unavailable (js ''Offline Content Unavailable''), st))))"

definition cacheFirst :: "storageHealth \<Rightarrow> swRequest \<Rightarrow> (unit + swResponse) \<Rightarrow> cache_storage \<Rightarrow> swAnswer \<times> cache_storage" where
  "cacheFirst h rq network st =
    (case network of
       Inr r \<Rightarrow> (FromNetwork r, if rs_status r = 200 \<and> sh_put h then put (rq_url rq) (rs_content r) st else st)
     | Inl _ \<Rightarrow> (Unavailable (js ''Offline Asset Unavailable''), st))"

section \<open>Events\<close>

fun includesText :: "ustring \<Rightarrow> ustring \<Rightarrow> bool" where
  "includesText [] p \<longleftrightarrow> p = []"
| "includesText (c # s) p \<longleftrightarrow> startsWith (c # s) p \<or> includesText s p"

definition respondWith :: "nat \<Rightarrow> swAnswer \<Rightarrow> serviceWorker \<Rightarrow> serviceWorker" where
  "respondWith i a s = s\<lparr>sw_answers := sw_answers s @ [(i, a)]\<rparr>"

text \<open>The event up to \<^verbatim>\<open>fetch(request)\<close>: requests are told apart by a number.\<close>

definition fetchEvent :: "storageHealth \<Rightarrow> swRequest \<Rightarrow> serviceWorker \<Rightarrow> serviceWorker" where
  "fetchEvent h rq s0 =
    (let i = sw_events s0; s = s0\<lparr>sw_events := i + 1\<rparr>;
         opened = (\<lambda>st. if \<not> sh_open h then respondWith i NetworkError s
           else s\<lparr>sw_caches := cachesOpen (sw_caches s), sw_fetching := sw_fetching s @ [(i, st, rq)]\<rparr>) in
     if rq_method rq \<noteq> js ''GET'' then respondWith i NotIntercepted s
     else if includesText (rq_pathname rq) (js ''/foliate/'')
     then (if \<not> sh_match h then respondWith i NetworkError s
           else case cachesMatch (sw_caches s) (rq_url rq) of
             Some r \<Rightarrow> respondWith i (FromCache r) s
           | None \<Rightarrow> opened CacheFirst)
     else if startsWith (rq_pathname rq) (js ''/api/'') then respondWith i NotIntercepted s
     else opened NetworkFirst)"

definition networkAnswer :: "storageHealth \<Rightarrow> nat \<Rightarrow> (unit + swResponse) \<Rightarrow> serviceWorker \<Rightarrow> serviceWorker" where
  "networkAnswer h i network s =
    (case mapGet (sw_fetching s) i of
       None \<Rightarrow> s
     | Some (st, rq) \<Rightarrow>
        (case (case st of NetworkFirst \<Rightarrow> networkFirst | CacheFirst \<Rightarrow> cacheFirst) h rq network (sw_caches s) of
           (a, caches) \<Rightarrow> respondWith i a (s\<lparr>sw_caches := caches, sw_fetching := mapDelete i (sw_fetching s)\<rparr>)))"

text \<open>\<^verbatim>\<open>cache.addAll\<close> stores all of its requests or, if one of them fails, none.\<close>

definition install :: "storageHealth \<Rightarrow> (ustring \<Rightarrow> unit + swResponse) \<Rightarrow> serviceWorker \<Rightarrow> serviceWorker" where
  "install h network s =
    (if \<not> sh_open h then s
     else
      (let st = cachesOpen (sw_caches s);
           ok = (\<lambda>url. case network url of Inl _ \<Rightarrow> False | Inr r \<Rightarrow> 200 \<le> rs_status r \<and> rs_status r < 300 \<and> rs_status r \<noteq> 206) in
       s\<lparr>sw_caches := (if sh_put h \<and> list_all ok STATIC_ASSETS
           then fold (\<lambda>url. case network url of Inl _ \<Rightarrow> id | Inr r \<Rightarrow> put url (rs_content r)) STATIC_ASSETS st else st)\<rparr>))"

definition activate :: "storageHealth \<Rightarrow> serviceWorker \<Rightarrow> serviceWorker" where
  "activate h s =
    (if \<not> sh_keys h then s
     else s\<lparr>sw_caches := filter (\<lambda>(name, c). name = CACHE_NAME \<or> \<not> sh_delete h name) (sw_caches s)\<rparr>)"

datatype swEvent =
    SwInstall storageHealth "ustring \<Rightarrow> unit + swResponse"
  | SwActivate storageHealth
  | SwFetch storageHealth swRequest
  | SwNetwork storageHealth nat "unit + swResponse"

fun sw_step :: "swEvent \<Rightarrow> serviceWorker \<Rightarrow> serviceWorker" where
  "sw_step (SwInstall h network) s = install h network s"
| "sw_step (SwActivate h) s = activate h s"
| "sw_step (SwFetch h rq) s = fetchEvent h rq s"
| "sw_step (SwNetwork h i network) s = networkAnswer h i network s"

definition sw_run :: "swEvent list \<Rightarrow> serviceWorker \<Rightarrow> serviceWorker" where
  "sw_run es s = fold sw_step es s"

section \<open>Accounts\<close>

text \<open>Which addresses the worker may keep. The URL parser of the platform is the argument \<open>pathOf\<close>.\<close>

definition public :: "(ustring \<Rightarrow> ustring) \<Rightarrow> ustring \<Rightarrow> bool" where
  "public pathOf url \<longleftrightarrow> includesText (pathOf url) (js ''/foliate/'') \<or> \<not> startsWith (pathOf url) (js ''/api/'')"

definition publicCache :: "(ustring \<Rightarrow> ustring) \<Rightarrow> book_cache \<Rightarrow> bool" where
  "publicCache pathOf c \<longleftrightarrow> list_all (public pathOf) (map fst c)"

fun addressed :: "(ustring \<Rightarrow> ustring) \<Rightarrow> swEvent \<Rightarrow> bool" where
  "addressed pathOf (SwFetch h rq) \<longleftrightarrow> rq_pathname rq = pathOf (rq_url rq)"
| "addressed pathOf _ \<longleftrightarrow> True"

definition worker_ok :: "(ustring \<Rightarrow> ustring) \<Rightarrow> cache_storage \<Rightarrow> serviceWorker \<Rightarrow> bool" where
  "worker_ok pathOf before s \<longleftrightarrow> publicCache pathOf (the_cache (sw_caches s) CACHE_NAME) \<and>
     list_all (\<lambda>(i, st, rq). public pathOf (rq_url rq)) (sw_fetching s) \<and>
     (\<forall>name. name \<noteq> CACHE_NAME \<longrightarrow> the_cache (sw_caches s) name = the_cache before name \<or> the_cache (sw_caches s) name = [])"

lemma worker_cache_set [simp]: "the_cache (mapSet n c st) name = (if name = n then c else the_cache st name)"
  by (simp add: the_cache_def)

lemma the_cache_open [simp]: "the_cache (cachesOpen st) name = the_cache st name"
  by (auto simp: cachesOpen_def the_cache_def mapHas_def nullish_def split: option.splits)

lemma mapGet_filter: "mapGet (filter (\<lambda>(n, c). P n) st) name = (if P name then mapGet st name else None)"
  by (induction st) auto

lemma worker_fields:
  assumes "worker_ok pathOf b s"
  shows "worker_ok pathOf b (respondWith i a s)" "worker_ok pathOf b (s\<lparr>sw_events := n\<rparr>)"
    "worker_ok pathOf b (s\<lparr>sw_caches := cachesOpen (sw_caches s)\<rparr>)"
    "worker_ok pathOf b (s\<lparr>sw_fetching := mapDelete i (sw_fetching s)\<rparr>)"
    "public pathOf (rq_url rq) \<Longrightarrow> worker_ok pathOf b (s\<lparr>sw_fetching := sw_fetching s @ [(i, st, rq)]\<rparr>)"
  using assms by (auto simp: worker_ok_def respondWith_def list_all_iff AList.delete_eq)

lemma worker_put:
  assumes "worker_ok pathOf b s" and "public pathOf url"
  shows "worker_ok pathOf b (s\<lparr>sw_caches := put url r (sw_caches s)\<rparr>)"
proof -
  have "publicCache pathOf (mapSet url r c)" if "publicCache pathOf c" for c
    using that assms(2) by (simp add: publicCache_def list.pred_set AList.dom_update)
  then show ?thesis using assms(1) by (auto simp: worker_ok_def put_def)
qed

lemma worker_fetch:
  assumes "worker_ok pathOf b s" and "rq_pathname rq = pathOf (rq_url rq)"
  shows "worker_ok pathOf b (fetchEvent h rq s)"
proof -
  let ?s = "s\<lparr>sw_events := sw_events s + 1\<rparr>"
  have s: "worker_ok pathOf b ?s" "worker_ok pathOf b (respondWith (sw_events s) a ?s)" for a
    using worker_fields(1,2) assms(1) by blast+
  have "worker_ok pathOf b (?s\<lparr>sw_caches := cachesOpen (sw_caches ?s), sw_fetching := sw_fetching ?s @ [(sw_events s, st, rq)]\<rparr>)"
    if "public pathOf (rq_url rq)" for st
    using worker_fields(5) [OF worker_fields(3) [OF s(1)] that] by simp
  then show ?thesis using s assms(2) by (simp add: fetchEvent_def Let_def public_def split: option.split)
qed

lemma worker_answer:
  assumes "worker_ok pathOf b s"
  shows "worker_ok pathOf b (networkAnswer h i network s)"
proof (cases "mapGet (sw_fetching s) i")
  case (Some x)
  obtain st rq where x: "x = (st, rq)" by (cases x)
  have p: "public pathOf (rq_url rq)" using map_of_SomeD [OF Some] assms x by (auto simp: worker_ok_def list_all_iff)
  have k: "worker_ok pathOf b (s\<lparr>sw_caches := put (rq_url rq) r (sw_caches s), sw_fetching := mapDelete i (sw_fetching s)\<rparr>)" for r
    using worker_fields(4) [OF worker_put [OF assms p]] by simp
  have "worker_ok pathOf b (s\<lparr>sw_caches := snd (networkFirst h rq network (sw_caches s)), sw_fetching := mapDelete i (sw_fetching s)\<rparr>)"
    "worker_ok pathOf b (s\<lparr>sw_caches := snd (cacheFirst h rq network (sw_caches s)), sw_fetching := mapDelete i (sw_fetching s)\<rparr>)"
    using k worker_fields(4) [OF assms] by (simp_all add: networkFirst_def cacheFirst_def split: sum.split option.split)
  then show ?thesis unfolding networkAnswer_def Some x
    by (cases st) (simp_all add: case_prod_beta worker_fields(1))
qed (use assms in \<open>simp add: networkAnswer_def\<close>)

lemma worker_install:
  assumes "worker_ok pathOf b s" and "list_all (public pathOf) STATIC_ASSETS"
  shows "worker_ok pathOf b (install h network s)"
proof -
  have f: "worker_ok pathOf b (t\<lparr>sw_caches := fold (\<lambda>url. case network url of Inl _ \<Rightarrow> id | Inr r \<Rightarrow> put url (rs_content r)) urls (sw_caches t)\<rparr>)"
    if "worker_ok pathOf b t" "list_all (public pathOf) urls" for t urls
    using that
  proof (induction urls arbitrary: t)
    case (Cons u us)
    let ?f = "case network u of Inl _ \<Rightarrow> id | Inr r \<Rightarrow> put u (rs_content r)"
    have "worker_ok pathOf b (t\<lparr>sw_caches := ?f (sw_caches t)\<rparr>)"
      using Cons.prems worker_put [of pathOf b t u] by (simp split: sum.split)
    then show ?case using Cons.IH [of "t\<lparr>sw_caches := ?f (sw_caches t)\<rparr>"] Cons.prems by simp
  qed simp
  show ?thesis using f [OF worker_fields(3) [OF assms(1)] assms(2)] worker_fields(3) [OF assms(1)] assms(1)
    by (simp add: install_def Let_def)
qed

lemma worker_activate: "worker_ok pathOf b s \<Longrightarrow> worker_ok pathOf b (activate h s)"
  using mapGet_filter [of "\<lambda>name. name = CACHE_NAME \<or> \<not> sh_delete h name" "sw_caches s"]
  by (auto simp: worker_ok_def activate_def the_cache_def nullish_def)

lemma worker_run:
  assumes "worker_ok pathOf b s" and "list_all (public pathOf) STATIC_ASSETS" and "list_all (addressed pathOf) es"
  shows "worker_ok pathOf b (sw_run es s)"
  using assms(1,3) unfolding sw_run_def
proof (induction es arbitrary: s)
  case (Cons e es)
  have "worker_ok pathOf b (sw_step e s)"
    using Cons.prems assms(2) by (cases e) (auto simp: worker_fetch worker_answer worker_install worker_activate)
  then show ?case using Cons by simp
qed simp

text \<open>
  \<^bold>\<open>C33\<close> (the worker keeps nothing that belongs to an account). Whatever is installed, activated, requested and
  answered, in any order and with any storage failures, the shared cache of the worker never contains an
  answer of the service (an address below \<^verbatim>\<open>/api/\<close>, unless it names the reader's own files), and the caches
  that hold the offline books of the accounts get no entries from the worker: each is as it was, or was
  deleted as a whole.
\<close>

theorem worker_keeps_nothing_private:
  assumes "list_all (addressed pathOf) es" and "\<And>url. url \<in> set STATIC_ASSETS \<Longrightarrow> pathOf url = url"
    and "publicCache pathOf (the_cache (sw_caches s) CACHE_NAME)" and "sw_fetching s = []"
  shows "publicCache pathOf (the_cache (sw_caches (sw_run es s)) CACHE_NAME) \<and>
    (\<forall>name. name \<noteq> CACHE_NAME \<longrightarrow> the_cache (sw_caches (sw_run es s)) name \<in> {the_cache (sw_caches s) name, []})"
proof -
  have "list_all (public pathOf) STATIC_ASSETS"
    using assms(2) by (simp add: public_def STATIC_ASSETS_def startsWith_def js_def)
  moreover have "worker_ok pathOf (sw_caches s) s" using assms(3,4) by (simp add: worker_ok_def)
  ultimately have "worker_ok pathOf (sw_caches s) (sw_run es s)" using assms(1) worker_run by blast
  then show ?thesis by (simp add: worker_ok_def)
qed

text \<open>A request for the list of books is left to the browser, a page is fetched and kept, and an account's cache stays.\<close>

definition healthyStorage :: storageHealth where
  "healthyStorage = \<lparr>sh_open = True, sh_match = True, sh_put = True, sh_keys = True, sh_delete = (\<lambda>_. True)\<rparr>"

definition sampleAnswer :: swResponse where
  "sampleAnswer = \<lparr>rs_status = 200, rs_type = Basic, rs_content = \<lparr>ca_body = BlobBody [1, 2], ca_headers = []\<rparr>\<rparr>"

definition beforeQuery :: "ustring \<Rightarrow> ustring" where
  "beforeQuery url = takeWhile (\<lambda>c. c \<noteq> 63) url"

definition getRequest :: "ustring \<Rightarrow> swRequest" where
  "getRequest url = \<lparr>rq_method = js ''GET'', rq_url = url, rq_pathname = beforeQuery url, rq_navigate = False\<rparr>"

definition sampleWorker :: serviceWorker where
  "sampleWorker = \<lparr>sw_caches = [(js ''z-reader-offline-books-v1:u'', [(js ''/__z-reader-offline-books/b'', rs_content sampleAnswer)])],
     sw_fetching = [], sw_answers = [], sw_events = 0\<rparr>"

definition sampleWorkerRun :: "swEvent list" where
  "sampleWorkerRun = [SwFetch healthyStorage (getRequest (js ''/api/books?page=1'')), SwFetch healthyStorage (getRequest (js ''/shelf'')),
     SwNetwork healthyStorage 1 (Inr sampleAnswer)]"

theorem worker_keeps_nothing_private_witness:
  "map fst (the_cache (sw_caches (sw_run sampleWorkerRun sampleWorker)) CACHE_NAME) = [js ''/shelf''] \<and>
   publicCache beforeQuery (the_cache (sw_caches (sw_run sampleWorkerRun sampleWorker)) CACHE_NAME)"
proof -
  have "list_all (addressed beforeQuery) sampleWorkerRun" by (simp add: sampleWorkerRun_def getRequest_def)
  moreover have "url \<in> set STATIC_ASSETS \<Longrightarrow> beforeQuery url = url" for url by (auto simp: STATIC_ASSETS_def beforeQuery_def js_def)
  moreover have "publicCache beforeQuery (the_cache (sw_caches sampleWorker) CACHE_NAME)" "sw_fetching sampleWorker = []"
    by (simp_all add: sampleWorker_def the_cache_def CACHE_NAME_def publicCache_def nullish_def)
  moreover have "map fst (the_cache (sw_caches (sw_run sampleWorkerRun sampleWorker)) CACHE_NAME) = [js ''/shelf'']" by code_simp
  ultimately show ?thesis using worker_keeps_nothing_private by blast
qed

section \<open>A new version\<close>

text \<open>
  When a changed worker is activated it deletes every cache but its own, and with them the offline books and
  the partial downloads of all accounts.
\<close>

lemma activate_deletes_offline_books:
  assumes "cacheName u = Some name" and "sh_keys h" and "sh_delete h name"
  shows "fst (getPartialBookDownload env u b (sw_caches (activate h s))) = None \<and>
    (\<forall>entry. fst (getOfflineBookEntry env f u b hash (sw_caches (activate h s))) \<noteq> Inr (Some entry))"
proof -
  let ?st = "sw_caches (activate h s)"
  have "name \<noteq> CACHE_NAME" using assms(1) by (auto simp: cacheName_def CACHE_PREFIX_def CACHE_NAME_def js_def)
  then have "the_cache ?st name = []"
    using assms(2,3) mapGet_filter [of "\<lambda>name. name = CACHE_NAME \<or> \<not> sh_delete h name" "sw_caches s" name]
    by (simp add: activate_def the_cache_def nullish_def)
  then show ?thesis by (rule empty_cache_forgets [OF assms(1)])
qed

end
