(* ===== verification/Epub_Cfi.thy ===== *)
theory Epub_Cfi
  imports Uri_Component "HOL-Library.List_Lexorder" "HOL-Library.Product_Lexorder"
begin

text \<open>
  \<^verbatim>\<open>public/foliate/epubcfi.js\<close>: canonical fragment identifiers, the form in which reading positions, bookmarks and
  the sentences of the narration are stored. This theory holds the strings: the tokenizer with its states,
  the parser, printing, collapsing and building ranges, and comparing. Steps and offsets are natural
  numbers or \<^verbatim>\<open>NaN\<close> (\<open>None\<close>), and decimals keep their digits, so that numbers beyond the precision of
  doubles are not rounded as the program would.
\<close>

section \<open>Characters and numbers\<close>

text \<open>\<^verbatim>\<open>Array.from\<close> keeps surrogate pairs together.\<close>

fun arrayFrom :: "ustring \<Rightarrow> ustring list" where
  "arrayFrom [] = []"
| "arrayFrom [c] = [[c]]"
| "arrayFrom (c # d # cs) = (if is_high c \<and> is_low d then [c, d] # arrayFrom cs else [c] # arrayFrom (d # cs))"

definition isNumber :: "ustring \<Rightarrow> bool" where
  "isNumber ch \<longleftrightarrow> list_ex is_digit ch"

text \<open>\<^verbatim>\<open>parseInt\<close> on a string of digits.\<close>

definition parseInt :: "ustring \<Rightarrow> nat option" where
  "parseInt v = (if v = [] then None else Some (digits_value v))"

text \<open>A decimal: the whole part and the digits of the fraction without zeros at the end.\<close>

datatype cfiNumber = Decimal nat ustring | NotNumber

definition stripZeros :: "ustring \<Rightarrow> ustring" where
  "stripZeros f = rev (dropWhile (\<lambda>c. c = 48) (rev f))"

text \<open>\<^verbatim>\<open>parseFloat\<close> on a string of digits and points.\<close>

definition parseFloat :: "ustring \<Rightarrow> cfiNumber" where
  "parseFloat v =
    (let whole = takeWhile is_digit v;
         fraction = (case dropWhile is_digit v of c # cs \<Rightarrow> if c = 46 then takeWhile is_digit cs else [] | [] \<Rightarrow> []) in
     if whole = [] \<and> fraction = [] then NotNumber else Decimal (digits_value whole) (stripZeros fraction))"

fun numberText :: "cfiNumber \<Rightarrow> ustring" where
  "numberText (Decimal w f) = dec w @ (if f = [] then [] else 46 # f)"
| "numberText NotNumber = js ''NaN''"

definition countText :: "nat option \<Rightarrow> ustring" where
  "countText n = (case n of Some k \<Rightarrow> dec k | None \<Rightarrow> js ''NaN'')"

definition truthyNumber :: "cfiNumber \<Rightarrow> bool" where
  "truthyNumber n \<longleftrightarrow> n \<noteq> NotNumber \<and> n \<noteq> Decimal 0 []"

section \<open>Wrapping\<close>

text \<open>The pattern \<^verbatim>\<open>^epubcfi\((.*)\)$\<close>, whose point matches no line terminator; the result is the group.\<close>

definition lineTerminator :: "nat \<Rightarrow> bool" where
  "lineTerminator c \<longleftrightarrow> c \<in> {10, 13, 8232, 8233}"

definition isCFI :: "ustring \<Rightarrow> ustring option" where
  "isCFI x =
    (let inner = take (length x - 9) (drop 8 x) in
     if 9 \<le> length x \<and> startsWith x (js ''epubcfi('') \<and> last x = 41 \<and> \<not> list_ex lineTerminator inner then Some inner else None)"

definition escapeCFI :: "ustring \<Rightarrow> ustring" where
  "escapeCFI s = concat (map (\<lambda>c. if c \<in> {94, 91, 93, 40, 41, 44, 59, 61} then [94, c] else [c]) s)"

definition wrap :: "ustring \<Rightarrow> ustring" where
  "wrap x = (if isCFI x \<noteq> None then x else js ''epubcfi('' @ x @ [41])"

definition unwrap :: "ustring \<Rightarrow> ustring" where
  "unwrap x = (case isCFI x of Some inner \<Rightarrow> inner | None \<Rightarrow> x)"

fun join :: "'a \<Rightarrow> 'a list list \<Rightarrow> 'a list" where
  "join c [] = []"
| "join c [x] = x"
| "join c (x # y # xs) = x @ c # join c (y # xs)"

definition joinIndir :: "ustring list \<Rightarrow> ustring" where
  "joinIndir xs = js ''epubcfi('' @ join 33 (map unwrap xs) @ [41]"

section \<open>The tokenizer\<close>

datatype cfiToken =
    Indirection | Comma
  | Step "nat option" | Offset "nat option"
  | Temporal cfiNumber | Spatial cfiNumber
  | Bracket ustring | Param ustring ustring

text \<open>The variables of the loop; the state is empty when it is \<^verbatim>\<open>null\<close> or \<^verbatim>\<open>undefined\<close>.\<close>

record lexer =
  lx_tokens :: "cfiToken list"
  lx_state :: ustring
  lx_escape :: bool
  lx_value :: ustring

definition lexPush :: "cfiToken \<Rightarrow> lexer \<Rightarrow> lexer" where
  "lexPush t l = l\<lparr>lx_tokens := lx_tokens l @ [t], lx_state := [], lx_value := []\<rparr>"

definition lexCat :: "ustring \<Rightarrow> lexer \<Rightarrow> lexer" where
  "lexCat ch l = l\<lparr>lx_value := lx_value l @ ch, lx_escape := False\<rparr>"

text \<open>The last statement of the loop: characters that start a token.\<close>

definition lexStart :: "ustring \<Rightarrow> lexer \<Rightarrow> lexer" where
  "lexStart ch l = (if ch \<in> {[47], [58], [126], [64], [91], [33], [44]} then l\<lparr>lx_state := ch\<rparr> else l)"

definition lexBracket :: "ustring \<Rightarrow> lexer \<Rightarrow> lexer" where
  "lexBracket ch l =
    (let pushed = lexPush (Bracket (lx_value l)) l in
     if ch = [59] \<and> \<not> lx_escape l then pushed\<lparr>lx_state := [59]\<rparr>
     else if ch = [44] \<and> \<not> lx_escape l then pushed\<lparr>lx_state := [91]\<rparr>
     else if ch = [93] \<and> \<not> lx_escape l then pushed
     else lexCat ch l)"

definition lexParam :: "ustring \<Rightarrow> lexer \<Rightarrow> lexer" where
  "lexParam ch l =
    (let pushed = lexPush (Param (lx_state l) (lx_value l)) l in
     if ch = [61] \<and> \<not> lx_escape l then l\<lparr>lx_state := 59 # lx_value l, lx_value := []\<rparr>
     else if ch = [59] \<and> \<not> lx_escape l then pushed\<lparr>lx_state := [59]\<rparr>
     else if ch = [93] \<and> \<not> lx_escape l then pushed
     else lexCat ch l)"

definition lexStep :: "ustring \<Rightarrow> lexer \<Rightarrow> lexer" where
  "lexStep ch l =
    (let st = lx_state l in
     if ch = [94] \<and> \<not> lx_escape l then l\<lparr>lx_escape := True\<rparr>
     else if st = [33] then lexStart ch (lexPush Indirection l)
     else if st = [44] then lexStart ch (lexPush Comma l)
     else if st = [47] \<or> st = [58]
     then (if isNumber ch then lexCat ch l
           else lexStart ch (lexPush ((if st = [47] then Step else Offset) (parseInt (lx_value l))) l))
     else if st = [126]
     then (if isNumber ch \<or> ch = [46] then lexCat ch l else lexStart ch (lexPush (Temporal (parseFloat (lx_value l))) l))
     else if st = [64]
     then (if ch = [58] then (lexPush (Spatial (parseFloat (lx_value l))) l)\<lparr>lx_state := [64]\<rparr>
           else if isNumber ch \<or> ch = [46] then lexCat ch l
           else lexStart ch (lexPush (Spatial (parseFloat (lx_value l))) l))
     else if st = [91] then lexBracket ch l
     else if startsWith st [59] then lexParam ch l
     else lexStart ch l)"

definition lexInit :: lexer where
  "lexInit = \<lparr>lx_tokens = [], lx_state = [], lx_escape = False, lx_value = []\<rparr>"

definition tokenizer :: "ustring \<Rightarrow> cfiToken list" where
  "tokenizer str = lx_tokens (fold lexStep (arrayFrom (trim str) @ [[]]) lexInit)"

section \<open>The parser\<close>

definition findIndices :: "'a list \<Rightarrow> ('a \<Rightarrow> bool) \<Rightarrow> nat list" where
  "findIndices arr f = filter (\<lambda>i. f (arr ! i)) [0..<length arr]"

text \<open>\<open>from\<close> is one more than the index \<^verbatim>\<open>a\<close> of the separator before the piece.\<close>

fun pieces :: "'a list \<Rightarrow> nat \<Rightarrow> nat list \<Rightarrow> 'a list list" where
  "pieces arr from [] = []"
| "pieces arr from (b # bs) = take (b - from) (drop from arr) # pieces arr (b + 1) bs"

definition splitAt :: "'a list \<Rightarrow> nat list \<Rightarrow> 'a list list" where
  "splitAt arr is = pieces arr 0 (is @ [length arr])"

definition findTokens :: "cfiToken list \<Rightarrow> cfiToken \<Rightarrow> nat list" where
  "findTokens tokens t = findIndices tokens (\<lambda>u. u = t)"

record cfiPart =
  pt_index :: "nat option"
  pt_id :: "ustring option"
  pt_offset :: "nat option option"
  pt_temporal :: "cfiNumber option"
  pt_spatial :: "cfiNumber list option"
  pt_text :: "ustring list option"
  pt_side :: "ustring option"

definition newPart :: "nat option \<Rightarrow> cfiPart" where
  "newPart n = \<lparr>pt_index = n, pt_id = None, pt_offset = None, pt_temporal = None, pt_spatial = None, pt_text = None, pt_side = None\<rparr>"

text \<open>A property of \<^verbatim>\<open>undefined\<close> is read or set; and the error of a range whose offset is too large.\<close>

datatype cfiError = TypeError | IndexSizeError

text \<open>\<open>added opt v\<close> is \<^verbatim>\<open>(opt ?? []).concat(v)\<close>.\<close>

definition added :: "'a list option \<Rightarrow> 'a \<Rightarrow> 'a list option" where
  "added opt v = Some ((case opt of None \<Rightarrow> [] | Some vs \<Rightarrow> vs) @ [v])"

text \<open>What a token other than a step does to the last part, and whether the loop goes on without setting
  \<^verbatim>\<open>state\<close>; the state is compared with \<^verbatim>\<open>'/'\<close> only, and \<open>afterStep\<close> is the outcome.\<close>

fun assignToken :: "cfiToken \<Rightarrow> bool \<Rightarrow> cfiPart \<Rightarrow> cfiPart \<times> bool" where
  "assignToken (Offset v) afterStep p = (p\<lparr>pt_offset := Some v\<rparr>, False)"
| "assignToken (Temporal v) afterStep p = (p\<lparr>pt_temporal := Some v\<rparr>, False)"
| "assignToken (Spatial v) afterStep p = (p\<lparr>pt_spatial := added (pt_spatial p) v\<rparr>, False)"
| "assignToken (Param s v) afterStep p = (if s = [59, 115] then p\<lparr>pt_side := Some v\<rparr> else p, False)"
| "assignToken (Bracket v) afterStep p =
    (if afterStep \<and> v \<noteq> [] then (p\<lparr>pt_id := Some v\<rparr>, False) else (p\<lparr>pt_text := added (pt_text p) v\<rparr>, afterStep))"
| "assignToken t afterStep p = (p, False)"

definition needsPart :: "cfiToken \<Rightarrow> bool" where
  "needsPart t = (case t of Indirection \<Rightarrow> False | Comma \<Rightarrow> False | Param s v \<Rightarrow> s = [59, 115] | _ \<Rightarrow> True)"

fun parserFrom :: "cfiToken list \<Rightarrow> bool \<Rightarrow> cfiPart list \<Rightarrow> cfiError + cfiPart list" where
  "parserFrom [] afterStep parts = Inr parts"
| "parserFrom (Step n # ts) afterStep parts = parserFrom ts True (parts @ [newPart n])"
| "parserFrom (t # ts) afterStep parts =
    (if parts = [] then (if needsPart t then Inl TypeError else parserFrom ts False parts)
     else (case assignToken t afterStep (last parts) of (p, after) \<Rightarrow> parserFrom ts after (butlast parts @ [p])))"

definition parser :: "cfiToken list \<Rightarrow> cfiError + cfiPart list" where
  "parser tokens = parserFrom tokens False []"

fun sequenceSum :: "('e + 'a) list \<Rightarrow> 'e + 'a list" where
  "sequenceSum [] = Inr []"
| "sequenceSum (Inl e # xs) = Inl e"
| "sequenceSum (Inr x # xs) = (case sequenceSum xs of Inl e \<Rightarrow> Inl e | Inr ys \<Rightarrow> Inr (x # ys))"

definition parserIndir :: "cfiToken list \<Rightarrow> cfiError + cfiPart list list" where
  "parserIndir tokens = sequenceSum (map parser (splitAt tokens (findTokens tokens Indirection)))"

datatype cfi =
    Point "cfiPart list list"
  | Ranged "cfiPart list list" "cfiPart list list" "cfiPart list list option"

text \<open>With a single comma there is no end; what follows a third comma is parsed and dropped.\<close>

definition parse :: "ustring \<Rightarrow> cfiError + cfi" where
  "parse s =
    (let tokens = tokenizer (unwrap s); commas = findTokens tokens Comma in
     if commas = [] then (case parserIndir tokens of Inl e \<Rightarrow> Inl e | Inr p \<Rightarrow> Inr (Point p))
     else (case sequenceSum (map parserIndir (splitAt tokens commas)) of
             Inl e \<Rightarrow> Inl e
           | Inr (parent # start # rest) \<Rightarrow> Inr (Ranged parent start (case rest of [] \<Rightarrow> None | finish # ignored \<Rightarrow> Some finish))
           | Inr _ \<Rightarrow> Inl TypeError))"

section \<open>Printing\<close>

definition paramText :: "cfiPart \<Rightarrow> ustring" where
  "paramText p = (case pt_side p of Some s \<Rightarrow> if s = [] then [] else js '';s='' @ s | None \<Rightarrow> [])"

definition truthyText :: "ustring option \<Rightarrow> bool" where
  "truthyText s \<longleftrightarrow> s \<noteq> None \<and> s \<noteq> Some []"

definition partToString :: "cfiPart \<Rightarrow> ustring" where
  "partToString p =
    47 # countText (pt_index p)
    @ (if truthyText (pt_id p) then 91 # escapeCFI (the (pt_id p)) @ paramText p @ [93] else [])
    @ (case pt_offset p of
         Some v \<Rightarrow> if (case pt_index p of Some n \<Rightarrow> odd n | None \<Rightarrow> False) then 58 # countText v else []
       | None \<Rightarrow> [])
    @ (case pt_temporal p of Some t \<Rightarrow> if truthyNumber t then 126 # numberText t else [] | None \<Rightarrow> [])
    @ (case pt_spatial p of Some xs \<Rightarrow> 64 # join 58 (map numberText xs) | None \<Rightarrow> [])
    @ (if pt_text p \<noteq> None \<or> \<not> truthyText (pt_id p) \<and> truthyText (pt_side p)
       then 91 # (case pt_text p of Some ts \<Rightarrow> join 44 (map escapeCFI ts) | None \<Rightarrow> []) @ paramText p @ [93] else [])"

definition pathToString :: "cfiPart list list \<Rightarrow> ustring" where
  "pathToString p = join 33 (map (\<lambda>parts. concat (map partToString parts)) p)"

fun toInnerString :: "cfi \<Rightarrow> cfiError + ustring" where
  "toInnerString (Point p) = Inr (pathToString p)"
| "toInnerString (Ranged parent start None) = Inl TypeError"
| "toInnerString (Ranged parent start (Some finish)) = Inr (join 44 [pathToString parent, pathToString start, pathToString finish])"

definition toString :: "cfi \<Rightarrow> cfiError + ustring" where
  "toString x = (case toInnerString x of Inl e \<Rightarrow> Inl e | Inr s \<Rightarrow> Inr (wrap s))"

section \<open>Ranges\<close>

text \<open>Paths from the parser are never empty; for an empty second one the code would append \<^verbatim>\<open>undefined\<close>, which
  is an error here.\<close>

definition concatArrays :: "'a list list \<Rightarrow> 'a list list \<Rightarrow> cfiError + 'a list list" where
  "concatArrays a b =
    (if a = [] \<or> b = [] then Inl TypeError else Inr (butlast a @ [last a @ hd b] @ tl b))"

fun collapse :: "cfi \<Rightarrow> bool \<Rightarrow> cfiError + cfiPart list list" where
  "collapse (Point p) toEnd = Inr p"
| "collapse (Ranged parent start finish) toEnd =
    (if toEnd then (case finish of None \<Rightarrow> Inl TypeError | Some f \<Rightarrow> concatArrays parent f) else concatArrays parent start)"

text \<open>\<open>offsetFalsy\<close> is \<^verbatim>\<open>!a?.offset\<close>.\<close>

definition offsetFalsy :: "cfiPart \<Rightarrow> bool" where
  "offsetFalsy p \<longleftrightarrow> pt_offset p \<in> {None, Some None, Some (Some 0)}"

text \<open>\<^verbatim>\<open>a?.index === b?.index\<close> for two parts; \<^verbatim>\<open>NaN\<close> is not equal to itself.\<close>

definition sameIndex :: "cfiPart \<Rightarrow> cfiPart \<Rightarrow> bool" where
  "sameIndex a b \<longleftrightarrow> pt_index a \<noteq> None \<and> pt_index a = pt_index b"

fun splitLocal :: "cfiPart list \<Rightarrow> cfiPart list \<Rightarrow> cfiPart list \<times> cfiPart list \<times> cfiPart list" where
  "splitLocal (a # as) (b # bs) =
    (if sameIndex a b \<and> offsetFalsy a \<and> offsetFalsy b
     then (case splitLocal as bs of (parent, start, finish) \<Rightarrow> (a # parent, start, finish))
     else ([], a # as, b # bs))"
| "splitLocal as bs = ([], as, bs)"

definition buildRangePaths :: "cfiPart list list \<Rightarrow> cfiPart list list \<Rightarrow> cfiError + ustring" where
  "buildRangePaths from to =
    (if from = [] \<or> to = [] then Inl TypeError
     else (case splitLocal (last from) (last to) of
       (parent, start, finish) \<Rightarrow> toString (Ranged (butlast from @ [parent]) [start] (Some [finish]))))"

definition buildRange :: "cfi \<Rightarrow> cfi \<Rightarrow> cfiError + ustring" where
  "buildRange from to =
    (case collapse from False of
       Inl e \<Rightarrow> Inl e
     | Inr f \<Rightarrow> (case collapse to True of Inl e \<Rightarrow> Inl e | Inr t \<Rightarrow> buildRangePaths f t))"

text \<open>\<^verbatim>\<open>collapse\<close> and \<^verbatim>\<open>buildRange\<close> on strings.\<close>

definition collapseString :: "ustring \<Rightarrow> bool \<Rightarrow> cfiError + ustring" where
  "collapseString s toEnd =
    (case parse s of Inl e \<Rightarrow> Inl e | Inr x \<Rightarrow>
       (case collapse x toEnd of Inl e \<Rightarrow> Inl e | Inr p \<Rightarrow> toString (Point p)))"

definition buildRangeStrings :: "ustring \<Rightarrow> ustring \<Rightarrow> cfiError + ustring" where
  "buildRangeStrings from to =
    (case parse from of Inl e \<Rightarrow> Inl e | Inr f \<Rightarrow> (case parse to of Inl e \<Rightarrow> Inl e | Inr t \<Rightarrow> buildRange f t))"

section \<open>Comparing\<close>

definition lessNumber :: "nat option \<Rightarrow> nat option \<Rightarrow> bool" where
  "lessNumber a b = (case (a, b) of (Some m, Some n) \<Rightarrow> m < n | _ \<Rightarrow> False)"

fun offsetOf :: "cfiPart \<Rightarrow> nat option" where
  "offsetOf p = (case pt_offset p of Some (Some n) \<Rightarrow> Some n | _ \<Rightarrow> None)"

fun compareParts :: "cfiPart list \<Rightarrow> cfiPart list \<Rightarrow> int" where
  "compareParts [] [] = 0"
| "compareParts [] (y # ys) = - 1"
| "compareParts (x # xs) [] = 1"
| "compareParts (x # xs) (y # ys) =
    (if lessNumber (pt_index y) (pt_index x) then 1
     else if lessNumber (pt_index x) (pt_index y) then - 1
     else if xs = [] \<and> ys = []
     then (if lessNumber (offsetOf y) (offsetOf x) then 1 else if lessNumber (offsetOf x) (offsetOf y) then - 1 else 0)
     else compareParts xs ys)"

fun comparePaths :: "cfiPart list list \<Rightarrow> cfiPart list list \<Rightarrow> int" where
  "comparePaths [] [] = 0"
| "comparePaths (p # a) [] = (if compareParts p [] \<noteq> 0 then compareParts p [] else comparePaths a [])"
| "comparePaths [] (q # b) = (if compareParts [] q \<noteq> 0 then compareParts [] q else comparePaths [] b)"
| "comparePaths (p # a) (q # b) = (if compareParts p q \<noteq> 0 then compareParts p q else comparePaths a b)"

text \<open>Points are compared as they are; as soon as one is a range, first the starts and then the ends.\<close>

fun compareCollapsed :: "cfi \<Rightarrow> cfi \<Rightarrow> bool \<Rightarrow> cfiError + int" where
  "compareCollapsed a b toEnd =
    (case collapse a toEnd of Inl e \<Rightarrow> Inl e | Inr p \<Rightarrow>
       (case collapse b toEnd of Inl e \<Rightarrow> Inl e | Inr q \<Rightarrow> Inr (comparePaths p q)))"

fun compare :: "cfi \<Rightarrow> cfi \<Rightarrow> cfiError + int" where
  "compare (Point p) (Point q) = Inr (comparePaths p q)"
| "compare a b =
    (case compareCollapsed a b False of
       Inl e \<Rightarrow> Inl e
     | Inr c \<Rightarrow> if c \<noteq> 0 then Inr c else compareCollapsed a b True)"

definition compareStrings :: "ustring \<Rightarrow> ustring \<Rightarrow> cfiError + int" where
  "compareStrings a b =
    (case parse a of Inl e \<Rightarrow> Inl e | Inr x \<Rightarrow> (case parse b of Inl e \<Rightarrow> Inl e | Inr y \<Rightarrow> compare x y))"

section \<open>Positions without a package document\<close>

definition fakeFromIndex :: "nat \<Rightarrow> ustring" where
  "fakeFromIndex index = wrap (js ''/6/'' @ dec ((index + 1) * 2))"

definition fakeToIndex :: "cfiPart list \<Rightarrow> cfiError + real option" where
  "fakeToIndex parts = (if parts = [] then Inl TypeError else Inr (map_option (\<lambda>n. real n / 2 - 1) (pt_index (last parts))))"

text \<open>\<^verbatim>\<open>parts.shift()\<close> twice; a position that has no step gives an \<^verbatim>\<open>undefined\<close> step, which cannot be printed.\<close>

definition fromCalibrePos :: "ustring \<Rightarrow> cfiError + ustring" where
  "fromCalibrePos pos =
    (case parse pos of
       Inr (Point ((item # parts) # paths)) \<Rightarrow> toString (Point [[newPart (Some 6), item], tl parts])
     | _ \<Rightarrow> Inl TypeError)"

definition fromCalibreHighlight :: "nat \<Rightarrow> ustring \<Rightarrow> ustring \<Rightarrow> cfiError + ustring" where
  "fromCalibreHighlight spineIndex startCfi endCfi =
    (let pre = fakeFromIndex spineIndex @ [33] in buildRangeStrings (pre @ drop 2 startCfi) (pre @ drop 2 endCfi))"

section \<open>The tokenizer on printed text\<close>

text \<open>No surrogate means anything to the tokenizer, so it may as well read code units.\<close>

definition run :: "ustring \<Rightarrow> lexer \<Rightarrow> lexer" where
  "run s l = fold (\<lambda>c. lexStep [c]) s l"

lemma run_simps [simp]: "run [] l = l" "run (c # s) l = run s (lexStep [c] l)" "run (s @ t) l = run t (run s l)"
  by (simp_all add: run_def)

lemmas lexer_defs = lexStep_def lexStart_def lexPush_def lexCat_def lexBracket_def lexParam_def Let_def

lemma surrogate_pair:
  assumes "is_high c" and "is_low d"
  shows "lexStep [c, d] l = lexStep [d] (lexStep [c] l)"
proof -
  have "c \<ge> 55296" "d \<ge> 55296" using assms by (auto simp: is_high_def is_low_def)
  then show ?thesis
    by (auto simp: lexer_defs isNumber_def is_digit_def startsWith_def)
qed

lemma tokenizer_units: "fold lexStep (arrayFrom s) l = run s l"
  by (induction s arbitrary: l rule: arrayFrom.induct) (auto simp: surrogate_pair)

lemma tokenizer_run: "tokenizer s = lx_tokens (lexStep [] (run (trim s) lexInit))"
  by (simp add: tokenizer_def tokenizer_units)

text \<open>A lexer between two tokens: what it still holds is pushed by the next delimiter.\<close>

definition lexed :: "cfiToken list \<Rightarrow> ustring \<Rightarrow> ustring \<Rightarrow> lexer" where
  "lexed ts st v = \<lparr>lx_tokens = ts, lx_state = st, lx_escape = False, lx_value = v\<rparr>"

lemma lexed_simps [simp]:
  "lx_tokens (lexed ts st v) = ts" "lx_state (lexed ts st v) = st" "lx_value (lexed ts st v) = v" "\<not> lx_escape (lexed ts st v)"
  "lexPush t (lexed ts st v) = lexed (ts @ [t]) [] []"
  by (simp_all add: lexed_def lexPush_def)

definition ready :: "lexer \<Rightarrow> bool" where
  "ready l \<longleftrightarrow> \<not> lx_escape l \<and> lx_state l \<in> {[], [33], [44], [47], [58], [126], [64]} \<and> (lx_state l = [] \<longrightarrow> lx_value l = [])"

definition pendingTokens :: "lexer \<Rightarrow> cfiToken list" where
  "pendingTokens l =
    (let st = lx_state l; v = lx_value l in
     if st = [33] then [Indirection] else if st = [44] then [Comma]
     else if st = [47] then [Step (parseInt v)] else if st = [58] then [Offset (parseInt v)]
     else if st = [126] then [Temporal (parseFloat v)] else if st = [64] then [Spatial (parseFloat v)] else [])"

definition flushed :: "lexer \<Rightarrow> cfiToken list" where
  "flushed l = lx_tokens l @ pendingTokens l"

lemma ready_lexed:
  assumes "ready l"
  obtains ts st v where "l = lexed ts st v" "st \<in> {[], [33], [44], [47], [58], [126], [64]}" "st = [] \<longrightarrow> v = []"
  using assms by (cases l) (auto simp: ready_def lexed_def)

lemma flush:
  assumes "ready l" and "ch \<noteq> [94]" and "\<not> isNumber ch" and "ch \<noteq> [46]" and "ch \<noteq> [58] \<or> lx_state l \<noteq> [64]"
  shows "lexStep ch l = lexStart ch (lexed (flushed l) [] [])"
proof -
  obtain ts st v where l: "l = lexed ts st v" "st \<in> {[], [33], [44], [47], [58], [126], [64]}" "st = [] \<longrightarrow> v = []"
    using assms(1) by (rule ready_lexed)
  from l(2) show ?thesis
    using assms(2-5) l(1,3) by (elim insertE emptyE) (simp_all add: lexStep_def Let_def flushed_def pendingTokens_def startsWith_def)
qed

lemma delimiter:
  assumes "ready l" and "c \<in> {47, 58, 126, 64, 91, 33, 44}" and "c \<noteq> 58 \<or> lx_state l \<noteq> [64]"
  shows "lexStep [c] l = lexed (flushed l) [c] []"
proof -
  have "\<not> isNumber [c]" "c \<noteq> 94" "c \<noteq> 46" using assms(2) by (auto simp: isNumber_def is_digit_def)
  then have "lexStep [c] l = lexStart [c] (lexed (flushed l) [] [])" using assms by (intro flush) auto
  then show ?thesis using assms(2) by (auto simp: lexStart_def lexed_def)
qed

lemma delimited:
  assumes "ready l" and "ch = [] \<or> ch = [41]"
  shows "lexStep ch l = lexed (flushed l) [] []"
  using flush [of l ch] assms by (auto simp: lexStart_def isNumber_def is_digit_def)

lemma run_digits:
  assumes "list_all is_digit d" and "st \<in> {[47], [58], [126], [64]}"
  shows "run d (lexed ts st v) = lexed ts st (v @ d)"
  using assms(1)
proof (induction d arbitrary: v)
  case (Cons c d)
  have "lexStep [c] (lexed ts st v) = lexed ts st (v @ [c])"
    using Cons.prems assms(2) by (auto simp: lexer_defs lexed_def isNumber_def is_digit_def)
  then show ?case using Cons by simp
qed simp

lemma run_point:
  assumes "st \<in> {[126], [64]}"
  shows "lexStep [46] (lexed ts st v) = lexed ts st (v @ [46])"
  using assms by (auto simp: lexer_defs lexed_def isNumber_def is_digit_def)

definition wfNumber :: "cfiNumber \<Rightarrow> bool" where
  "wfNumber n = (case n of Decimal w f \<Rightarrow> list_all is_digit f \<and> (f \<noteq> [] \<longrightarrow> last f \<noteq> 48) | NotNumber \<Rightarrow> False)"

lemma dec_ne [simp]: "dec n \<noteq> []"
  by (subst dec.simps) simp

lemma run_number:
  assumes "wfNumber n" and "st \<in> {[126], [64]}"
  shows "run (numberText n) (lexed ts st []) = lexed ts st (numberText n)"
proof -
  obtain w f where n: "n = Decimal w f" "list_all is_digit f" using assms(1) by (auto simp: wfNumber_def split: cfiNumber.splits)
  then show ?thesis using assms(2) dec_digits by (auto simp: run_digits run_point)
qed

lemma stripZeros_id: "f = [] \<or> last f \<noteq> 48 \<Longrightarrow> stripZeros f = f"
  by (cases "rev f") (auto simp: stripZeros_def last_rev [symmetric])

lemma parseFloat_text: "wfNumber n \<Longrightarrow> parseFloat (numberText n) = n"
proof -
  assume "wfNumber n"
  then obtain w f where n: "n = Decimal w f" "list_all is_digit f" "f \<noteq> [] \<longrightarrow> last f \<noteq> 48"
    by (auto simp: wfNumber_def split: cfiNumber.splits)
  have "takeWhile is_digit (dec w @ x) = dec w @ takeWhile is_digit x" "dropWhile is_digit (dec w @ x) = dropWhile is_digit x" for x
    using dec_digits [of w] by (simp_all add: list_all_iff)
  moreover have "takeWhile is_digit f = f" using n(2) by (simp add: list_all_iff takeWhile_eq_all_conv)
  then have "stripZeros (takeWhile is_digit f) = f" using n(3) stripZeros_id by metis
  moreover have "takeWhile is_digit (dec w) = dec w" "dropWhile is_digit (dec w) = []"
    using dec_digits [of w] by (simp_all add: list_all_iff takeWhile_eq_all_conv)
  moreover have "\<not> is_digit 46" by (simp add: is_digit_def)
  ultimately show ?thesis using n(1,3) by (auto simp: parseFloat_def Let_def stripZeros_id)
qed

lemma parseInt_dec [simp]: "parseInt (dec n) = Some n"
  by (simp add: parseInt_def)

text \<open>Escaped text inside brackets, and parameters.\<close>

lemma run_escaped: "run (escapeCFI s) (lexed ts [91] v) = lexed ts [91] (v @ s)"
proof (induction s arbitrary: v)
  case (Cons c s)
  have "run (escapeCFI [c]) (lexed ts [91] v) = lexed ts [91] (v @ [c])"
    by (auto simp: escapeCFI_def lexer_defs lexed_def)
  then show ?case using Cons by (simp add: escapeCFI_def)
qed (simp add: escapeCFI_def)

lemma bracket_ends:
  "lexStep [93] (lexed ts [91] v) = lexed (ts @ [Bracket v]) [] []"
  "lexStep [44] (lexed ts [91] v) = lexed (ts @ [Bracket v]) [91] []"
  "lexStep [59] (lexed ts [91] v) = lexed (ts @ [Bracket v]) [59] []"
  by (simp_all add: lexer_defs lexed_def)

definition plainSide :: "ustring \<Rightarrow> bool" where
  "plainSide s \<longleftrightarrow> s \<noteq> [] \<and> set s \<inter> {94, 61, 59, 93} = {}"

lemma run_plain:
  assumes "set s \<inter> {94, 61, 59, 93} = {}"
  shows "run s (lexed ts [59, 115] v) = lexed ts [59, 115] (v @ s)"
  using assms
proof (induction s arbitrary: v)
  case (Cons c s)
  have "lexStep [c] (lexed ts [59, 115] v) = lexed ts [59, 115] (v @ [c])"
    using Cons.prems by (auto simp: lexer_defs lexed_def startsWith_def)
  then show ?case using Cons by simp
qed simp

definition sideTokens :: "cfiPart \<Rightarrow> cfiToken list" where
  "sideTokens p = (case pt_side p of Some s \<Rightarrow> [Param [59, 115] s] | None \<Rightarrow> [])"

lemma run_param:
  assumes "\<And>s. pt_side p = Some s \<Longrightarrow> plainSide s"
  shows "run (paramText p @ [93]) (lexed ts [91] v) = lexed (ts @ Bracket v # sideTokens p) [] []"
proof (cases "pt_side p")
  case None
  then show ?thesis by (simp add: paramText_def sideTokens_def bracket_ends)
next
  case (Some s)
  have "run (js ''s='') (lexed (ts @ [Bracket v]) [59] []) = lexed (ts @ [Bracket v]) [59, 115] []"
    by (simp add: js_def lexer_defs lexed_def startsWith_def)
  then have "run (js '';s='') (lexed ts [91] v) = lexed (ts @ [Bracket v]) [59, 115] []"
    by (simp add: js_def bracket_ends)
  moreover have "lexStep [93] (lexed us [59, 115] s) = lexed (us @ [Param [59, 115] s]) [] []" for us
    by (simp add: lexer_defs lexed_def startsWith_def)
  ultimately show ?thesis using Some assms [OF Some] by (simp add: paramText_def sideTokens_def plainSide_def run_plain)
qed

lemma run_texts:
  assumes "ts \<noteq> []"
  shows "run (join 44 (map escapeCFI ts)) (lexed us [91] []) = lexed (us @ map Bracket (butlast ts)) [91] (last ts)"
  using assms by (induction ts arbitrary: us rule: induct_list012) (simp_all add: run_escaped bracket_ends)

lemma next_spatial: "wfNumber a \<Longrightarrow> lexStep [58] (lexed us [64] (numberText a)) = lexed (us @ [Spatial a]) [64] []"
  by (simp add: lexer_defs lexed_def parseFloat_text)

lemma run_spatial:
  assumes "xs \<noteq> []" and "list_all wfNumber xs"
  shows "run (join 58 (map numberText xs)) (lexed us [64] []) = lexed (us @ map Spatial (butlast xs)) [64] (numberText (last xs))"
  using assms by (induction xs arbitrary: us rule: induct_list012) (simp_all add: run_number next_spatial)

section \<open>Parts and paths, printed and read back\<close>

text \<open>The parts that survive printing: an offset only after an odd step, a text only after something that
  keeps it from being read as an id, and a side only with brackets to stand in.\<close>

definition wfPart :: "cfiPart \<Rightarrow> bool" where
  "wfPart p \<longleftrightarrow>
    (case pt_index p of
       None \<Rightarrow> False
     | Some n \<Rightarrow> (case pt_offset p of None \<Rightarrow> True | Some None \<Rightarrow> False | Some (Some k) \<Rightarrow> odd n)) \<and>
    pt_id p \<noteq> Some [] \<and>
    (case pt_temporal p of None \<Rightarrow> True | Some t \<Rightarrow> wfNumber t \<and> truthyNumber t) \<and>
    (case pt_spatial p of None \<Rightarrow> True | Some xs \<Rightarrow> xs \<noteq> [] \<and> list_all wfNumber xs) \<and>
    (case pt_text p of None \<Rightarrow> True
     | Some ts \<Rightarrow> ts \<noteq> [] \<and> (pt_id p \<noteq> None \<or> pt_offset p \<noteq> None \<or> pt_temporal p \<noteq> None \<or> pt_spatial p \<noteq> None)) \<and>
    (case pt_side p of None \<Rightarrow> True | Some s \<Rightarrow> plainSide s \<and> (pt_id p \<noteq> None \<or> pt_text p \<noteq> None))"

definition idTokens :: "cfiPart \<Rightarrow> cfiToken list" where
  "idTokens p = (case pt_id p of None \<Rightarrow> [] | Some i \<Rightarrow> Bracket i # sideTokens p)"

definition offsetTokens :: "cfiPart \<Rightarrow> cfiToken list" where
  "offsetTokens p = (case pt_offset p of None \<Rightarrow> [] | Some v \<Rightarrow> [Offset v])"

definition temporalTokens :: "cfiPart \<Rightarrow> cfiToken list" where
  "temporalTokens p = (case pt_temporal p of None \<Rightarrow> [] | Some t \<Rightarrow> [Temporal t])"

definition spatialTokens :: "cfiPart \<Rightarrow> cfiToken list" where
  "spatialTokens p = (case pt_spatial p of None \<Rightarrow> [] | Some xs \<Rightarrow> map Spatial xs)"

definition textTokens :: "cfiPart \<Rightarrow> cfiToken list" where
  "textTokens p = (case pt_text p of None \<Rightarrow> [] | Some ts \<Rightarrow> map Bracket ts @ sideTokens p)"

definition partTokens :: "cfiPart \<Rightarrow> cfiToken list" where
  "partTokens p = Step (pt_index p) # idTokens p @ offsetTokens p @ temporalTokens p @ spatialTokens p @ textTokens p"

text \<open>The strings of the five optional pieces.\<close>

definition idText :: "cfiPart \<Rightarrow> ustring" where
  "idText p = (case pt_id p of None \<Rightarrow> [] | Some i \<Rightarrow> 91 # escapeCFI i @ paramText p @ [93])"

definition offsetText :: "cfiPart \<Rightarrow> ustring" where
  "offsetText p = (case pt_offset p of None \<Rightarrow> [] | Some v \<Rightarrow> 58 # countText v)"

definition temporalText :: "cfiPart \<Rightarrow> ustring" where
  "temporalText p = (case pt_temporal p of None \<Rightarrow> [] | Some t \<Rightarrow> 126 # numberText t)"

definition spatialText :: "cfiPart \<Rightarrow> ustring" where
  "spatialText p = (case pt_spatial p of None \<Rightarrow> [] | Some xs \<Rightarrow> 64 # join 58 (map numberText xs))"

definition textText :: "cfiPart \<Rightarrow> ustring" where
  "textText p = (case pt_text p of None \<Rightarrow> [] | Some ts \<Rightarrow> 91 # join 44 (map escapeCFI ts) @ paramText p @ [93])"

lemmas pieces_defs = idText_def offsetText_def temporalText_def spatialText_def textText_def
  idTokens_def offsetTokens_def temporalTokens_def spatialTokens_def textTokens_def

lemma wfPart_string:
  assumes "wfPart p"
  shows "partToString p = (47 # dec (the (pt_index p))) @ idText p @ offsetText p @ temporalText p @ spatialText p @ textText p"
proof -
  obtain n where n: "pt_index p = Some n" using assms by (auto simp: wfPart_def split: option.splits)
  have id: "truthyText (pt_id p) \<longleftrightarrow> pt_id p \<noteq> None" using assms by (simp add: wfPart_def truthyText_def)
  have "(pt_offset p \<noteq> None \<longrightarrow> odd n) \<and> (case pt_temporal p of None \<Rightarrow> True | Some t \<Rightarrow> truthyNumber t)"
    using assms n by (auto simp: wfPart_def split: option.splits)
  moreover have "truthyText (pt_side p) \<and> pt_id p = None \<longrightarrow> pt_text p \<noteq> None"
    using assms by (auto simp: wfPart_def truthyText_def split: option.splits)
  ultimately show ?thesis
    using n id
    by (cases "pt_id p"; cases "pt_offset p"; cases "pt_temporal p"; cases "pt_text p")
       (simp_all add: partToString_def pieces_defs countText_def)
qed

definition emits :: "lexer \<Rightarrow> ustring \<Rightarrow> cfiToken list \<Rightarrow> bool" where
  "emits l s ts \<longleftrightarrow> ready (run s l) \<and> flushed (run s l) = flushed l @ ts"

lemma emits_append: "emits l s ts \<Longrightarrow> emits (run s l) s' ts' \<Longrightarrow> emits l (s @ s') (ts @ ts')"
  by (simp add: emits_def)

lemma emits_ready: "emits l s ts \<Longrightarrow> ready (run s l)"
  by (simp add: emits_def)

lemma ready_lexedI [simp]:
  "ready (lexed ts st v) \<longleftrightarrow> st \<in> {[], [33], [44], [47], [58], [126], [64]} \<and> (st = [] \<longrightarrow> v = [])"
  by (auto simp: ready_def)

lemma emits_Nil: "ready l \<Longrightarrow> emits l [] []"
  by (simp add: emits_def)

lemma emits_index: "ready l \<Longrightarrow> emits l (47 # dec n) [Step (Some n)] \<and> lx_state (run (47 # dec n) l) = [47]"
  using dec_digits [of n] by (simp add: emits_def delimiter run_digits flushed_def pendingTokens_def)

lemma emits_id:
  assumes "wfPart p" and "ready l" and "lx_state l \<noteq> [64]"
  shows "emits l (idText p) (idTokens p) \<and> lx_state (run (idText p) l) \<noteq> [64]"
proof (cases "pt_id p")
  case (Some i)
  have "pt_side p = Some s \<Longrightarrow> plainSide s" for s using assms(1) by (simp add: wfPart_def)
  then have "run (idText p) l = lexed (flushed l @ Bracket i # sideTokens p) [] []"
    using Some assms(2) run_param [of p "flushed l" i] by (simp add: idText_def delimiter run_escaped)
  then show ?thesis using Some by (simp add: emits_def idTokens_def flushed_def pendingTokens_def)
qed (use assms in \<open>simp add: idText_def idTokens_def emits_Nil\<close>)

lemma emits_offset:
  assumes "wfPart p" and "ready l" and "lx_state l \<noteq> [64]"
  shows "emits l (offsetText p) (offsetTokens p)"
proof (cases "pt_offset p")
  case (Some v)
  then obtain k where "v = Some k" using assms(1) by (auto simp: wfPart_def split: option.splits)
  then show ?thesis
    using Some assms(2,3) dec_digits [of k]
    by (simp add: emits_def offsetText_def offsetTokens_def countText_def delimiter run_digits flushed_def pendingTokens_def)
qed (use assms in \<open>simp add: offsetText_def offsetTokens_def emits_Nil\<close>)

lemma emits_temporal:
  assumes "wfPart p" and "ready l"
  shows "emits l (temporalText p) (temporalTokens p)"
proof (cases "pt_temporal p")
  case (Some t)
  then have "wfNumber t" using assms(1) by (simp add: wfPart_def)
  then show ?thesis
    using Some assms(2)
    by (simp add: emits_def temporalText_def temporalTokens_def delimiter run_number parseFloat_text flushed_def pendingTokens_def)
qed (use assms in \<open>simp add: temporalText_def temporalTokens_def emits_Nil\<close>)

lemma emits_spatial:
  assumes "wfPart p" and "ready l"
  shows "emits l (spatialText p) (spatialTokens p)"
proof (cases "pt_spatial p")
  case (Some xs)
  then have xs: "xs \<noteq> []" "list_all wfNumber xs" using assms(1) by (simp_all add: wfPart_def)
  then have "wfNumber (last xs)" by (simp add: list_all_iff)
  moreover have "map Spatial (butlast xs) @ [Spatial (last xs)] = map Spatial xs"
    using xs(1) by (cases xs rule: rev_cases) simp_all
  ultimately show ?thesis
    using Some assms(2) xs
    by (simp add: emits_def spatialText_def spatialTokens_def delimiter run_spatial parseFloat_text flushed_def pendingTokens_def)
qed (use assms in \<open>simp add: spatialText_def spatialTokens_def emits_Nil\<close>)

lemma emits_text:
  assumes "wfPart p" and "ready l"
  shows "emits l (textText p) (textTokens p)"
proof (cases "pt_text p")
  case (Some ts)
  then have ts: "ts \<noteq> []" and "pt_side p = Some s \<Longrightarrow> plainSide s" for s using assms(1) by (simp_all add: wfPart_def)
  then have "run (textText p) l = lexed (flushed l @ map Bracket (butlast ts) @ Bracket (last ts) # sideTokens p) [] []"
    using Some assms(2) run_param [of p "flushed l @ map Bracket (butlast ts)" "last ts"] by (simp add: textText_def delimiter run_texts)
  moreover have "map Bracket (butlast ts) @ Bracket (last ts) # us = map Bracket ts @ us" for us
    using ts by (cases ts rule: rev_cases) simp_all
  ultimately show ?thesis using Some by (simp add: emits_def textTokens_def flushed_def pendingTokens_def)
qed (use assms in \<open>simp add: textText_def textTokens_def emits_Nil\<close>)

lemma emits_part:
  assumes "wfPart p" and "ready l"
  shows "emits l (partToString p) (partTokens p)"
proof -
  obtain n where n: "pt_index p = Some n" using assms(1) by (auto simp: wfPart_def split: option.splits)
  let ?i = "47 # dec n"
  have i: "emits l ?i [Step (Some n)]" "lx_state (run ?i l) = [47]" using emits_index [OF assms(2)] by blast+
  have d: "emits (run ?i l) (idText p) (idTokens p)" "lx_state (run (idText p) (run ?i l)) \<noteq> [64]"
    using emits_id [OF assms(1) emits_ready [OF i(1)]] i(2) by simp_all
  note e = emits_append [OF i(1) d(1)]
  note e = emits_append [OF e emits_offset [OF assms(1) emits_ready [OF e]]]
  have "emits l ((?i @ idText p) @ offsetText p) (([Step (Some n)] @ idTokens p) @ offsetTokens p)"
    using e d(2) by simp
  note e = this
  note e = emits_append [OF e emits_temporal [OF assms(1) emits_ready [OF e]]]
  note e = emits_append [OF e emits_spatial [OF assms(1) emits_ready [OF e]]]
  note e = emits_append [OF e emits_text [OF assms(1) emits_ready [OF e]]]
  then show ?thesis using n by (simp add: wfPart_string [OF assms(1)] partTokens_def)
qed

lemma emits_parts: "list_all wfPart ps \<Longrightarrow> ready l \<Longrightarrow> emits l (concat (map partToString ps)) (concat (map partTokens ps))"
proof (induction ps arbitrary: l)
  case (Cons p ps)
  then show ?case using emits_append [OF emits_part] emits_ready [OF emits_part] by simp
qed (simp add: emits_Nil)

lemma emits_join:
  assumes "\<And>x l. x \<in> set xs \<Longrightarrow> ready l \<Longrightarrow> emits l (f x) (g x)" and "ready l" and "xs \<noteq> []"
    and "(c, t) \<in> {(33, Indirection), (44, Comma)}"
  shows "emits l (join c (map f xs)) (join t (map g xs))"
  using assms(1,2,3)
proof (induction xs arbitrary: l rule: induct_list012)
  case (3 x y zs)
  have x: "emits l (f x) (g x)" using 3 by simp
  have "emits (run (f x) l) [c] [t]"
    using emits_ready [OF x] assms(4) by (auto simp: emits_def delimiter flushed_def pendingTokens_def)
  note xc = emits_append [OF x this]
  have "emits (run (f x @ [c]) l) (join c (map f (y # zs))) (join t (map g (y # zs)))"
    using 3 emits_ready [OF xc] by simp
  from emits_append [OF xc this] show ?case by simp
qed simp_all

definition pathTokens :: "cfiPart list list \<Rightarrow> cfiToken list" where
  "pathTokens p = join Indirection (map (\<lambda>parts. concat (map partTokens parts)) p)"

definition wfPath :: "cfiPart list list \<Rightarrow> bool" where
  "wfPath p \<longleftrightarrow> p \<noteq> [] \<and> list_all (list_all wfPart) p"

lemma emits_path: "wfPath p \<Longrightarrow> ready l \<Longrightarrow> emits l (pathToString p) (pathTokens p)"
  unfolding pathToString_def pathTokens_def
  by (rule emits_join) (auto simp: wfPath_def list_all_iff intro: emits_parts)

text \<open>Printed text needs no trimming and does not look wrapped.\<close>

definition solid :: "ustring \<Rightarrow> bool" where
  "solid s \<longleftrightarrow> s \<noteq> [] \<and> \<not> is_space (hd s) \<and> hd s \<noteq> 101 \<and> \<not> is_space (last s)"

definition clean :: "ustring \<Rightarrow> bool" where
  "clean s \<longleftrightarrow> s = [] \<or> solid s"

lemma solid_append: "solid s \<Longrightarrow> clean t \<Longrightarrow> solid (s @ t)"
  by (auto simp: solid_def clean_def)

lemma clean_append: "clean s \<Longrightarrow> clean t \<Longrightarrow> clean (s @ t)"
  by (auto simp: solid_def clean_def)

lemma digit_solid: "is_digit c \<Longrightarrow> \<not> is_space c"
  by (auto simp: is_digit_def is_space_def)

lemma last_digits: "list_all is_digit d \<Longrightarrow> d \<noteq> [] \<Longrightarrow> \<not> is_space (last d)"
  by (simp add: list_all_iff digit_solid)

lemma last_number: "wfNumber n \<Longrightarrow> \<not> is_space (last (numberText n)) \<and> numberText n \<noteq> []"
  using last_digits [OF dec_digits] by (auto simp: wfNumber_def last_digits split: cfiNumber.splits)

lemma last_join: "xs \<noteq> [] \<Longrightarrow> (\<forall>x\<in>set xs. x \<noteq> []) \<Longrightarrow> join c xs \<noteq> [] \<and> last (join c xs) = last (last xs)"
  by (induction xs rule: induct_list012) auto

lemma solid_part: "wfPart p \<Longrightarrow> solid (partToString p)"
proof -
  assume p: "wfPart p"
  have marks: "\<not> is_space 47" "\<not> is_space 91" "\<not> is_space 93" "\<not> is_space 58" "\<not> is_space 126" "\<not> is_space 64"
    by (simp_all add: is_space_def)
  have "clean (idText p)" "clean (textText p)"
    by (auto simp: idText_def textText_def solid_def clean_def marks split: option.splits)
  moreover have "clean (offsetText p)"
    using p last_digits [OF dec_digits] by (auto simp: wfPart_def offsetText_def countText_def solid_def clean_def marks split: option.splits)
  moreover have "clean (temporalText p)"
    using p last_number by (auto simp: wfPart_def temporalText_def solid_def clean_def marks split: option.splits)
  moreover have "clean (spatialText p)"
  proof (cases "pt_spatial p")
    case (Some xs)
    then have xs: "xs \<noteq> []" "\<forall>x\<in>set xs. wfNumber x" using p by (simp_all add: wfPart_def list_all_iff)
    then have "\<not> is_space (last (numberText (last xs)))" using last_number by simp
    then show ?thesis
      using Some xs last_number last_join [of "map numberText xs" 58]
      by (auto simp: spatialText_def solid_def clean_def marks last_map)
  qed (simp add: spatialText_def clean_def)
  moreover have "solid (47 # dec n)" for n using last_digits [OF dec_digits] by (simp add: solid_def clean_def marks)
  ultimately show ?thesis unfolding wfPart_string [OF p] by (intro solid_append clean_append)
qed

lemma clean_concat: "(\<And>s. s \<in> set ss \<Longrightarrow> solid s) \<Longrightarrow> clean (concat ss)"
  by (induction ss) (simp_all add: clean_def solid_append)

lemma clean_join:
  assumes "\<not> is_space c" and "c \<noteq> 101" and "\<And>s. s \<in> set ss \<Longrightarrow> clean s"
  shows "clean (join c ss)"
  using assms(3)
proof (induction ss rule: induct_list012)
  case (3 x y zs)
  then have "clean (join c (y # zs))" by simp
  then have "clean (c # join c (y # zs))" using assms(1,2) by (auto simp: solid_def clean_def)
  moreover have "clean x" using 3 by simp
  ultimately show ?case using clean_append by simp
qed (simp_all add: clean_def)

lemma clean_path: "wfPath p \<Longrightarrow> clean (pathToString p)"
  unfolding pathToString_def
  by (rule clean_join) (auto simp: wfPath_def list_all_iff is_space_def intro!: clean_concat solid_part)

lemma wrap_clean: "clean s \<Longrightarrow> wrap s = js ''epubcfi('' @ s @ [41]"
proof -
  assume "clean s"
  then have "take (Suc 0) s \<noteq> [101]" by (cases s) (auto simp: solid_def clean_def)
  then have "\<not> startsWith s (js ''epubcfi('')" by (cases s) (auto simp: startsWith_def js_def)
  then show ?thesis by (simp add: wrap_def isCFI_def Let_def)
qed

lemma isCFI_wrapped: "isCFI (js ''epubcfi('' @ s @ [41]) = (if list_ex lineTerminator s then None else Some s)"
proof -
  have "length (js ''epubcfi('') = 8" by (simp add: js_def)
  then show ?thesis by (simp add: isCFI_def Let_def)
qed

lemma wrapped_tokens:
  assumes "clean s" and "emits lexInit s ts"
  shows "tokenizer (unwrap (wrap s)) = ts"
proof -
  have f: "ready (run s lexInit)" "flushed (run s lexInit) = ts"
    using assms(2) by (simp_all add: emits_def flushed_def pendingTokens_def lexInit_def)
  note w = wrap_clean [OF assms(1)]
  have i: "run (js ''epubcfi('') lexInit = lexInit"
    by (simp add: js_def lexInit_def lexer_defs startsWith_def)
  have "trim (wrap s) = wrap s" by (rule trim_id) (simp_all add: w js_def is_space_def)
  then have "tokenizer (wrap s) = ts"
    using f by (simp add: tokenizer_run w i delimited flushed_def [of "lexed _ _ _"] pendingTokens_def)
  moreover have "trim s = s" using assms(1) by (auto simp: solid_def clean_def intro: trim_id)
  then have "tokenizer s = ts" using f by (simp add: tokenizer_run delimited)
  ultimately show ?thesis by (simp add: unwrap_def w isCFI_wrapped)
qed

section \<open>Splitting\<close>

fun splitOn :: "'a \<Rightarrow> 'a list \<Rightarrow> 'a list list" where
  "splitOn t [] = [[]]"
| "splitOn t (x # xs) = (if x = t then [] # splitOn t xs else (x # hd (splitOn t xs)) # tl (splitOn t xs))"

lemma splitOn_ne [simp]: "splitOn t xs \<noteq> []"
  by (induction xs) auto

lemma splitOn_none: "t \<notin> set xs \<Longrightarrow> splitOn t xs = [xs]"
  by (induction xs) auto

lemma splitOn_append: "t \<notin> set xs \<Longrightarrow> splitOn t (xs @ t # ys) = xs # splitOn t ys"
  by (induction xs) auto

lemma splitOn_join: "xss \<noteq> [] \<Longrightarrow> \<forall>xs\<in>set xss. t \<notin> set xs \<Longrightarrow> splitOn t (join t xss) = xss"
  by (induction xss rule: induct_list012) (auto simp: splitOn_none splitOn_append)

lemma pieces_splitOn:
  assumes "from \<le> length arr"
  shows "pieces arr from (filter (\<lambda>i. arr ! i = t) [from..<length arr] @ [length arr]) = splitOn t (drop from arr)"
  using assms
proof (induction "length arr - from" arbitrary: "from")
  case (Suc k)
  let ?rest = "filter (\<lambda>i. arr ! i = t) [Suc from..<length arr] @ [length arr]"
  have f: "from < length arr" using Suc by simp
  then have d: "drop from arr = arr ! from # drop (Suc from) arr" and u: "[from..<length arr] = from # [Suc from..<length arr]"
    by (simp_all add: Cons_nth_drop_Suc upt_conv_Cons)
  have ih: "pieces arr (Suc from) ?rest = splitOn t (drop (Suc from) arr)" using Suc f by simp
  show ?case
  proof (cases "arr ! from = t")
    case True
    then show ?thesis using ih d u by simp
  next
    case False
    obtain b bs where b: "?rest = b # bs" by (cases ?rest) auto
    then have "b \<in> set ?rest" by simp
    then have "Suc from \<le> b" using f by auto
    then have "take (b - from) (drop from arr) = arr ! from # take (b - Suc from) (drop (Suc from) arr)"
      using d by (simp add: take_Cons' Suc_diff_le)
    moreover have "splitOn t (drop (Suc from) arr) = take (b - Suc from) (drop (Suc from) arr) # pieces arr (Suc b) bs"
      using ih b by simp
    ultimately show ?thesis using False b d u by simp
  qed
qed simp

lemma splitAt_splitOn: "splitAt ts (findTokens ts t) = splitOn t ts"
  using pieces_splitOn [of 0 ts t] by (simp add: splitAt_def findTokens_def findIndices_def)

lemma findTokens_Nil: "findTokens ts t = [] \<longleftrightarrow> t \<notin> set ts"
  by (auto simp: findTokens_def findIndices_def filter_empty_conv in_set_conv_nth)

section \<open>The parser on tokens of parts\<close>

lemma parse_side:
  "parserFrom (sideTokens p @ ts) a (parts @ [q]) =
    parserFrom ts (a \<and> pt_side p = None) (parts @ [q\<lparr>pt_side := (if pt_side p = None then pt_side q else pt_side p)\<rparr>])"
  by (cases "pt_side p") (simp_all add: sideTokens_def)

lemma parse_id:
  assumes "pt_id p \<noteq> Some []" and "pt_id q = None"
  shows "parserFrom (idTokens p @ ts) True (parts @ [q]) =
    parserFrom ts (pt_id p = None) (parts @ [q\<lparr>pt_id := pt_id p, pt_side := (if pt_id p = None \<or> pt_side p = None then pt_side q else pt_side p)\<rparr>])"
  using assms by (cases q; cases "pt_id p") (simp_all add: idTokens_def parse_side)

lemma parse_offset:
  assumes "pt_offset q = None"
  shows "parserFrom (offsetTokens p @ ts) a (parts @ [q]) =
    parserFrom ts (a \<and> pt_offset p = None) (parts @ [q\<lparr>pt_offset := pt_offset p\<rparr>])"
  using assms by (cases q; cases "pt_offset p") (simp_all add: offsetTokens_def)

lemma parse_temporal:
  assumes "pt_temporal q = None"
  shows "parserFrom (temporalTokens p @ ts) a (parts @ [q]) =
    parserFrom ts (a \<and> pt_temporal p = None) (parts @ [q\<lparr>pt_temporal := pt_temporal p\<rparr>])"
  using assms by (cases q; cases "pt_temporal p") (simp_all add: temporalTokens_def)

lemma parse_spatials:
  "xs \<noteq> [] \<Longrightarrow> parserFrom (map Spatial xs @ ts) a (parts @ [q]) =
    parserFrom ts False (parts @ [q\<lparr>pt_spatial := Some ((case pt_spatial q of None \<Rightarrow> [] | Some vs \<Rightarrow> vs) @ xs)\<rparr>])"
proof (induction xs arbitrary: a q)
  case (Cons x xs)
  then show ?case by (cases "xs = []") (simp_all add: added_def)
qed simp

lemma parse_spatial:
  assumes "pt_spatial p \<noteq> Some []" and "pt_spatial q = None"
  shows "parserFrom (spatialTokens p @ ts) a (parts @ [q]) =
    parserFrom ts (a \<and> pt_spatial p = None) (parts @ [q\<lparr>pt_spatial := pt_spatial p\<rparr>])"
  using assms by (cases q; cases "pt_spatial p") (simp_all add: spatialTokens_def parse_spatials)

lemma parse_texts:
  "xs \<noteq> [] \<Longrightarrow> parserFrom (map Bracket xs @ ts) False (parts @ [q]) =
    parserFrom ts False (parts @ [q\<lparr>pt_text := Some ((case pt_text q of None \<Rightarrow> [] | Some vs \<Rightarrow> vs) @ xs)\<rparr>])"
proof (induction xs arbitrary: q)
  case (Cons x xs)
  then show ?case by (cases "xs = []") (simp_all add: added_def)
qed simp

lemma parse_text:
  assumes "pt_text p \<noteq> Some []" and "pt_text q = None" and "pt_text p \<noteq> None \<longrightarrow> \<not> a"
  shows "parserFrom (textTokens p @ ts) a (parts @ [q]) =
    parserFrom ts a (parts @ [q\<lparr>pt_text := pt_text p, pt_side := (if pt_text p = None \<or> pt_side p = None then pt_side q else pt_side p)\<rparr>])"
  using assms by (cases q; cases "pt_text p") (simp_all add: textTokens_def parse_texts parse_side)

lemma parse_part:
  assumes "wfPart p"
  shows "\<exists>a'. parserFrom (partTokens p @ ts) a parts = parserFrom ts a' (parts @ [p])"
proof -
  let ?side = "if pt_id p = None \<or> pt_side p = None then None else pt_side p"
  let ?a = "pt_id p = None \<and> pt_offset p = None \<and> pt_temporal p = None \<and> pt_spatial p = None"
  have ne: "pt_id p \<noteq> Some []" "pt_spatial p \<noteq> Some []" "pt_text p \<noteq> Some []" "pt_text p \<noteq> None \<longrightarrow> \<not> ?a"
    "pt_side p = None \<or> pt_id p \<noteq> None \<or> pt_text p \<noteq> None"
    using assms by (auto simp: wfPart_def split: option.splits)
  have "parserFrom (partTokens p @ ts) a parts =
    parserFrom (idTokens p @ offsetTokens p @ temporalTokens p @ spatialTokens p @ textTokens p @ ts) True (parts @ [newPart (pt_index p)])"
    by (simp add: partTokens_def)
  also have "\<dots> = parserFrom (textTokens p @ ts) ?a
      (parts @ [(newPart (pt_index p))\<lparr>pt_id := pt_id p, pt_side := ?side, pt_offset := pt_offset p, pt_temporal := pt_temporal p,
        pt_spatial := pt_spatial p\<rparr>])"
    using ne(1,2) by (simp add: parse_id parse_offset parse_temporal parse_spatial newPart_def cong: if_cong)
  also have "\<dots> = parserFrom ts ?a (parts @ [\<lparr>pt_index = pt_index p, pt_id = pt_id p, pt_offset = pt_offset p,
      pt_temporal = pt_temporal p, pt_spatial = pt_spatial p, pt_text = pt_text p,
      pt_side = (if pt_text p = None \<or> pt_side p = None then ?side else pt_side p)\<rparr>])"
    by (subst parse_text [OF ne(3) _ ne(4)]) (simp_all add: newPart_def)
  finally have "parserFrom (partTokens p @ ts) a parts = parserFrom ts ?a (parts @ [\<lparr>pt_index = pt_index p, pt_id = pt_id p,
      pt_offset = pt_offset p, pt_temporal = pt_temporal p, pt_spatial = pt_spatial p, pt_text = pt_text p,
      pt_side = (if pt_text p = None \<or> pt_side p = None then ?side else pt_side p)\<rparr>])" .
  moreover have "(if pt_text p = None \<or> pt_side p = None then ?side else pt_side p) = pt_side p" using ne(5) by auto
  ultimately show ?thesis by (cases p) auto
qed

lemma parse_parts: "list_all wfPart ps \<Longrightarrow> parserFrom (concat (map partTokens ps)) a parts = Inr (parts @ ps)"
proof (induction ps arbitrary: a parts)
  case (Cons p ps)
  then show ?case using parse_part [of p "concat (map partTokens ps)" a parts] by fastforce
qed simp

lemma part_tokens_plain: "t \<in> {Indirection, Comma} \<Longrightarrow> t \<notin> set (concat (map partTokens ps))"
  by (auto simp: partTokens_def pieces_defs sideTokens_def split: option.splits)

lemma sequenceSum_map: "(\<And>x. x \<in> set xs \<Longrightarrow> f x = Inr (g x)) \<Longrightarrow> sequenceSum (map f xs) = Inr (map g xs)"
  by (induction xs) simp_all

lemma parse_path: "wfPath p \<Longrightarrow> parserIndir (pathTokens p) = Inr p"
proof -
  assume p: "wfPath p"
  let ?tokens = "map (\<lambda>parts. concat (map partTokens parts)) p"
  have "\<forall>xs\<in>set ?tokens. Indirection \<notin> set xs"
    using part_tokens_plain [of Indirection] by (simp only: set_map ball_simps) blast
  then have "splitOn Indirection (pathTokens p) = ?tokens"
    unfolding pathTokens_def using p by (intro splitOn_join) (simp_all add: wfPath_def)
  then have "parserIndir (pathTokens p) = sequenceSum (map (\<lambda>parts. parser (concat (map partTokens parts))) p)"
    by (simp add: parserIndir_def splitAt_splitOn comp_def)
  also have "\<dots> = Inr (map (\<lambda>x. x) p)"
    using p by (intro sequenceSum_map) (simp add: wfPath_def list_all_iff parser_def parse_parts)
  finally show ?thesis by simp
qed

lemma set_join: "set (join t xss) \<subseteq> insert t (\<Union>xs\<in>set xss. set xs)"
  by (induction xss rule: induct_list012) auto

lemma path_tokens_plain: "Comma \<notin> set (pathTokens p)"
  using set_join [of Indirection "map (\<lambda>parts. concat (map partTokens parts)) p"] part_tokens_plain [of Comma]
  unfolding pathTokens_def by (auto simp del: set_concat)

fun wfCfi :: "cfi \<Rightarrow> bool" where
  "wfCfi (Point p) \<longleftrightarrow> wfPath p"
| "wfCfi (Ranged parent start finish) \<longleftrightarrow> wfPath parent \<and> wfPath start \<and> (case finish of None \<Rightarrow> False | Some f \<Rightarrow> wfPath f)"

fun cfiTokens :: "cfi \<Rightarrow> cfiToken list" where
  "cfiTokens (Point p) = pathTokens p"
| "cfiTokens (Ranged parent start finish) =
    (case finish of None \<Rightarrow> [] | Some f \<Rightarrow> join Comma (map pathTokens [parent, start, f]))"

lemma parse_of_tokens:
  assumes "wfCfi x" and "tokenizer (unwrap s) = cfiTokens x"
  shows "parse s = Inr x"
proof (cases x)
  case (Point p)
  then show ?thesis using assms path_tokens_plain [of p] parse_path [of p] by (simp add: parse_def Let_def findTokens_Nil)
next
  case (Ranged p t finish)
  then obtain f where x: "x = Ranged p t (Some f)" "wfPath p" "wfPath t" "wfPath f" using assms(1) by (cases finish) simp_all
  let ?ts = "join Comma (map pathTokens [p, t, f])"
  have "splitOn Comma ?ts = map pathTokens [p, t, f]" using path_tokens_plain by (intro splitOn_join) auto
  moreover have "findTokens ?ts Comma \<noteq> []" by (simp add: findTokens_Nil)
  ultimately show ?thesis using x assms(2) by (simp add: parse_def splitAt_splitOn parse_path)
qed

lemma cfi_string:
  assumes "wfCfi x"
  obtains t where "toString x = Inr (wrap t)" "clean t" "\<forall>l. ready l \<longrightarrow> emits l t (cfiTokens x)"
proof (cases x)
  case (Point p)
  then show thesis using assms that [of "pathToString p"] clean_path emits_path by (simp add: toString_def)
next
  case (Ranged p s finish)
  then obtain f where x: "x = Ranged p s (Some f)" "wfPath p" "wfPath s" "wfPath f" using assms by (cases finish) simp_all
  let ?t = "join 44 (map pathToString [p, s, f])"
  have "clean ?t" by (rule clean_join) (use x clean_path in \<open>auto simp: is_space_def\<close>)
  moreover have "emits l ?t (cfiTokens x)" if "ready l" for l
    unfolding x(1) cfiTokens.simps option.case by (rule emits_join) (use x that emits_path in auto)
  ultimately show thesis using that [of ?t] x(1) by (simp add: toString_def)
qed

lemma ready_init: "ready lexInit" "flushed lexInit = []"
  by (simp_all add: lexInit_def ready_def flushed_def pendingTokens_def)

lemma parse_printed: "wfCfi x \<Longrightarrow> \<exists>s. toString x = Inr s \<and> parse s = Inr x"
  using cfi_string [of x] wrapped_tokens parse_of_tokens ready_init(1) by metis

text \<open>
  \<^bold>\<open>C4\<close> (identifiers survive printing). A point or range whose parts can be written down is printed without an
  error, and parsing what is printed gives it back, with every id, offset, text assertion and side, whatever
  characters ids and texts contain.
\<close>

theorem cfi_round_trip:
  assumes "wfCfi x"
  shows "\<exists>s. toString x = Inr s \<and> parse s = Inr x"
  using assms by (rule parse_printed)

text \<open>A range with ids, an offset, text assertions with special characters and a side.\<close>

definition sample_range :: cfi where
  "sample_range =
    Ranged [[newPart (Some 6), (newPart (Some 4))\<lparr>pt_id := Some (js ''ch(1)'')\<rparr>], [newPart (Some 4)]]
      [[newPart (Some 2), (newPart (Some 1))\<lparr>pt_offset := Some (Some 0), pt_text := Some [js ''a,b'', []], pt_side := Some (js ''b'')\<rparr>]]
      (Some [[newPart (Some 6), (newPart (Some 3))\<lparr>pt_offset := Some (Some 12), pt_temporal := Some (Decimal 1 [53])\<rparr>]])"

lemmas sample_simps = sample_range_def wfPath_def wfPart_def newPart_def js_def plainSide_def wfNumber_def truthyNumber_def is_digit_def

theorem cfi_round_trip_witness: "wfCfi sample_range \<and> (\<exists>s. toString sample_range = Inr s \<and> parse s = Inr sample_range)"
proof -
  have "wfCfi sample_range" by (simp add: sample_simps)
  then show ?thesis using cfi_round_trip [of sample_range] by simp
qed

section \<open>Ranges and their ends\<close>

text \<open>Two positions in one document: steps that lead to the same node are the same part.\<close>

fun compatible :: "cfiPart list \<Rightarrow> cfiPart list \<Rightarrow> bool" where
  "compatible (a # as) (b # bs) \<longleftrightarrow> (if sameIndex a b \<and> offsetFalsy a \<and> offsetFalsy b then a = b \<and> compatible as bs else True)"
| "compatible as bs \<longleftrightarrow> True"

lemma splitLocal_append:
  "compatible as bs \<Longrightarrow> splitLocal as bs = (p, s, f) \<Longrightarrow> as = p @ s \<and> bs = p @ f"
proof (induction as bs arbitrary: p rule: compatible.induct)
  case (1 a as b bs)
  then show ?case by (cases "splitLocal as bs") (auto split: if_splits)
qed auto

lemma wfPath_last: "wfPath p \<Longrightarrow> list_all wfPart (last p) \<and> list_all (list_all wfPart) (butlast p)"
  by (auto simp: wfPath_def list_all_iff dest: in_set_butlastD)

text \<open>
  A range keeps its ends. The range that \<^verbatim>\<open>buildRange\<close> makes of two positions in the same document can be
  parsed, and collapsing it to its start or its end gives exactly the two positions.
\<close>

lemma range_keeps_ends:
  assumes "wfPath from" and "wfPath to" and "butlast from = butlast to" and "compatible (last from) (last to)"
  shows "\<exists>s r. buildRange (Point from) (Point to) = Inr s \<and> parse s = Inr r \<and> collapse r False = Inr from \<and> collapse r True = Inr to"
proof -
  obtain p s f where l: "splitLocal (last from) (last to) = (p, s, f)" by (cases "splitLocal (last from) (last to)")
  then have a: "last from = p @ s" "last to = p @ f" using splitLocal_append [OF assms(4)] by auto
  have ne: "from \<noteq> []" "to \<noteq> []" using assms(1,2) by (simp_all add: wfPath_def)
  let ?parent = "butlast from @ [p]"
  have w: "wfPath ?parent" "wfPath [s]" "wfPath [f]"
    using wfPath_last [OF assms(1)] wfPath_last [OF assms(2)] a by (simp_all add: wfPath_def)
  have "buildRange (Point from) (Point to) = toString (Ranged ?parent [s] (Some [f]))"
    using ne l by (simp add: buildRange_def buildRangePaths_def)
  moreover have "\<exists>c. toString (Ranged ?parent [s] (Some [f])) = Inr c \<and> parse c = Inr (Ranged ?parent [s] (Some [f]))"
    using w by (intro parse_printed) simp
  moreover have "collapse (Ranged ?parent [s] (Some [f])) False = Inr from" "collapse (Ranged ?parent [s] (Some [f])) True = Inr to"
    using a ne assms(3) append_butlast_last_id [of "from"] append_butlast_last_id [of to] by (simp_all add: concatArrays_def)
  ultimately show ?thesis by metis
qed

theorem range_keeps_ends_witness:
  "let from = [[newPart (Some 4), newPart (Some 2), (newPart (Some 1))\<lparr>pt_offset := Some (Some 3)\<rparr>]];
       to = [[newPart (Some 4), newPart (Some 6), (newPart (Some 1))\<lparr>pt_offset := Some (Some 5)\<rparr>]] in
   \<exists>s r. buildRange (Point from) (Point to) = Inr s \<and> parse s = Inr r \<and> collapse r False = Inr from \<and> collapse r True = Inr to"
  unfolding Let_def
  by (rule range_keeps_ends) (simp_all add: wfPath_def wfPart_def newPart_def sameIndex_def offsetFalsy_def)

text \<open>The index of a section survives the way through its made-up identifier.\<close>

lemma fake_round_trip:
  "\<exists>parts. parse (fakeFromIndex i) = Inr (Point [parts]) \<and> fakeToIndex parts = Inr (Some (real i))"
proof -
  let ?parts = "[newPart (Some 6), newPart (Some ((i + 1) * 2))]"
  have "dec 6 = [54]" by (simp add: dec.simps)
  then have "fakeFromIndex i = wrap (pathToString [?parts])"
    by (simp add: fakeFromIndex_def pathToString_def partToString_def newPart_def truthyText_def countText_def js_def)
  moreover have "wfCfi (Point [?parts])" by (simp add: wfPath_def wfPart_def newPart_def)
  ultimately have "parse (fakeFromIndex i) = Inr (Point [?parts])" using parse_printed [of "Point [?parts]"] by (simp add: toString_def)
  then show ?thesis by (intro exI [of _ ?parts]) (simp add: fakeToIndex_def newPart_def field_simps)
qed

section \<open>The order of positions\<close>

text \<open>Positions as lists of steps with an offset at the end, ordered lexicographically.\<close>

definition partsKey :: "cfiPart list \<Rightarrow> nat list \<times> nat" where
  "partsKey ps = (map (the \<circ> pt_index) ps, if ps = [] then 0 else case offsetOf (last ps) of Some k \<Rightarrow> k | None \<Rightarrow> 0)"

definition pathKey :: "cfiPart list list \<Rightarrow> (nat list \<times> nat) list" where
  "pathKey p = map partsKey p"

definition order :: "'a::linorder \<Rightarrow> 'a \<Rightarrow> int" where
  "order a b = (if a < b then - 1 else if b < a then 1 else 0)"

text \<open>Positions as the specification asks for them: an offset exactly after a step to text.\<close>

definition explicitParts :: "cfiPart list \<Rightarrow> bool" where
  "explicitParts ps \<longleftrightarrow> list_all (\<lambda>p. pt_index p \<noteq> None) ps \<and>
     (ps \<noteq> [] \<longrightarrow> (offsetOf (last ps) \<noteq> None \<longleftrightarrow> odd (the (pt_index (last ps)))))"

definition explicit :: "cfiPart list list \<Rightarrow> bool" where
  "explicit p \<longleftrightarrow> list_all (\<lambda>ps. ps \<noteq> [] \<and> explicitParts ps) p"

lemma explicitParts_tl: "explicitParts (x # xs) \<Longrightarrow> explicitParts xs"
  by (cases xs) (simp_all add: explicitParts_def)

lemma partsKey_Cons: "xs \<noteq> [] \<Longrightarrow> partsKey (x # xs) = (the (pt_index x) # fst (partsKey xs), snd (partsKey xs))"
  by (simp add: partsKey_def)

lemma partsKey_Nil: "fst (partsKey ps) = [] \<longleftrightarrow> ps = []" "[] = fst (partsKey ps) \<longleftrightarrow> ps = []"
  by (auto simp: partsKey_def)

lemma compareParts_order: "explicitParts p \<Longrightarrow> explicitParts q \<Longrightarrow> compareParts p q = order (partsKey p) (partsKey q)"
proof (induction p q rule: compareParts.induct)
  case (4 x xs y ys)
  obtain m n where i: "pt_index x = Some m" "pt_index y = Some n" using 4(2,3) by (auto simp: explicitParts_def)
  show ?case
  proof (cases "m = n \<and> (xs \<noteq> [] \<or> ys \<noteq> [])")
    case True
    then have "compareParts (x # xs) (y # ys) = order (partsKey xs) (partsKey ys)"
      using 4 i explicitParts_tl by (auto simp: lessNumber_def)
    also have "\<dots> = order (partsKey (x # xs)) (partsKey (y # ys))"
      using True i by (cases "xs = []"; cases "ys = []") (auto simp: order_def partsKey_Cons partsKey_Nil less_prod_def' partsKey_def [of "[_]"] partsKey_def [of "[]"])
    finally show ?thesis .
  next
    case False
    then consider "m \<noteq> n" | "m = n" "xs = []" "ys = []" by blast
    then show ?thesis
    proof cases
      case 2
      then have "offsetOf x = None \<longleftrightarrow> offsetOf y = None" using 4(2,3) i by (auto simp: explicitParts_def)
      then show ?thesis using 2 i by (auto simp: order_def partsKey_def lessNumber_def less_prod_def' split: option.splits)
    qed (use i in \<open>auto simp: order_def partsKey_def lessNumber_def less_prod_def'\<close>)
  qed
qed (auto simp: order_def partsKey_def less_prod_def' lessNumber_def)

lemma comparePaths_order: "explicit a \<Longrightarrow> explicit b \<Longrightarrow> comparePaths a b = order (pathKey a) (pathKey b)"
proof (induction a b rule: comparePaths.induct)
  case (2 p a)
  then obtain x xs where "p = x # xs" by (cases p) (auto simp: explicit_def)
  then show ?case by (simp add: order_def pathKey_def)
next
  case (3 q b)
  then obtain x xs where "q = x # xs" by (cases q) (auto simp: explicit_def)
  then show ?case by (simp add: order_def pathKey_def)
next
  case (4 p a q b)
  then have "compareParts p q = order (partsKey p) (partsKey q)" by (simp add: explicit_def compareParts_order)
  then show ?case using 4 by (auto simp: order_def pathKey_def explicit_def split: if_splits)
qed (simp add: order_def)

text \<open>The start and the end of a position, where they exist.\<close>

definition endsOf :: "cfi \<Rightarrow> (cfiPart list list \<times> cfiPart list list) option" where
  "endsOf x = (case (collapse x False, collapse x True) of (Inr s, Inr e) \<Rightarrow> Some (s, e) | _ \<Rightarrow> None)"

text \<open>
  \<^bold>\<open>C5\<close> (positions are ordered as in the book). On positions with explicit offsets \<^verbatim>\<open>compare\<close> is the
  lexicographic order of their steps and offsets, first of the starts and then of the ends: it is total and
  transitive, and gives 0 only for positions that have the same steps and offsets.
\<close>

theorem compare_is_reading_order:
  assumes "endsOf x = Some (s, e)" and "endsOf y = Some (s', e')" and "list_all explicit [s, e, s', e']"
  shows "compare x y = Inr (order (pathKey s, pathKey e) (pathKey s', pathKey e'))"
proof -
  have c: "collapse x False = Inr s" "collapse x True = Inr e" "collapse y False = Inr s'" "collapse y True = Inr e'"
    using assms(1,2) by (auto simp: endsOf_def split: sum.splits)
  have o: "comparePaths s s' = order (pathKey s) (pathKey s')" "comparePaths e e' = order (pathKey e) (pathKey e')"
    using assms(3) by (simp_all add: comparePaths_order)
  have pair: "order (a, b) (c, d) = (if order a c \<noteq> 0 then order a c else order b d)" for a b c d :: "(nat list \<times> nat) list"
    by (auto simp: order_def less_prod_def')
  show ?thesis
  proof (cases "\<exists>p q. x = Point p \<and> y = Point q")
    case True
    then show ?thesis using c o by (auto simp: pair)
  next
    case False
    then have "compare x y = (case compareCollapsed x y False of Inl e \<Rightarrow> Inl e | Inr c \<Rightarrow> if c \<noteq> 0 then Inr c else compareCollapsed x y True)"
      by (cases x; cases y) auto
    then show ?thesis using c o by (simp add: pair)
  qed
qed

theorem compare_is_reading_order_witness:
  "let a = [[newPart (Some 6), newPart (Some 4)], [newPart (Some 4), (newPart (Some 1))\<lparr>pt_offset := Some (Some 3)\<rparr>]];
       b = [[newPart (Some 6), newPart (Some 4)], [newPart (Some 4), newPart (Some 2), (newPart (Some 1))\<lparr>pt_offset := Some (Some 0)\<rparr>]] in
   compare (Point a) (Point b) = Inr (order (pathKey a, pathKey a) (pathKey b, pathKey b)) \<and> order (pathKey a, pathKey a) (pathKey b, pathKey b) = - 1"
  unfolding Let_def
proof (intro conjI compare_is_reading_order)
qed (simp_all add: endsOf_def explicit_def explicitParts_def newPart_def order_def pathKey_def partsKey_def less_prod_def')

section \<open>What the parser returns\<close>

text \<open>Every parsed part has lists that are not empty and an id that is not empty, so that printing it puts
  no brackets around nothing.\<close>

definition parsedPart :: "cfiPart \<Rightarrow> bool" where
  "parsedPart p \<longleftrightarrow> pt_id p \<noteq> Some [] \<and> pt_spatial p \<noteq> Some [] \<and> pt_text p \<noteq> Some []"

definition parsedPath :: "cfiPart list list \<Rightarrow> bool" where
  "parsedPath p \<longleftrightarrow> p \<noteq> [] \<and> list_all (list_all parsedPart) p"

lemma assign_parsed: "parsedPart p \<Longrightarrow> parsedPart (fst (assignToken t a p))"
  by (cases t) (auto simp: parsedPart_def added_def)

lemma parserFrom_other:
  "\<not> (\<exists>n. t = Step n) \<Longrightarrow> parserFrom (t # ts) a parts =
    (if parts = [] then (if needsPart t then Inl TypeError else parserFrom ts False parts)
     else (case assignToken t a (last parts) of (p, after) \<Rightarrow> parserFrom ts after (butlast parts @ [p])))"
  by (cases t) simp_all

lemma parserFrom_parsed: "parserFrom ts a parts = Inr ps \<Longrightarrow> list_all parsedPart parts \<Longrightarrow> list_all parsedPart ps"
proof (induction ts arbitrary: a parts)
  case (Cons t ts)
  show ?case
  proof (cases "\<exists>n. t = Step n")
    case True
    then obtain n where "t = Step n" by blast
    then show ?thesis using Cons.prems Cons.IH [of True "parts @ [newPart n]"] by (simp add: parsedPart_def newPart_def)
  next
    case False
    show ?thesis
    proof (cases "parts = []")
      case True
      then show ?thesis using Cons False by (auto simp: parserFrom_other split: if_splits)
    next
      case ne: False
      obtain p a' where p: "assignToken t a (last parts) = (p, a')" by fastforce
      have "list_all parsedPart (butlast parts @ [p])"
        using Cons.prems(2) ne assign_parsed [of "last parts" t a] p by (auto simp: list_all_iff dest: in_set_butlastD)
      then show ?thesis using Cons.prems(1) Cons.IH ne False p by (simp add: parserFrom_other)
    qed
  qed
qed simp

lemma sequenceSum_Inr: "sequenceSum xs = Inr ys \<Longrightarrow> xs = map Inr ys"
  by (induction xs arbitrary: ys rule: sequenceSum.induct) (auto split: sum.splits)

lemma parserIndir_parsed: "parserIndir ts = Inr p \<Longrightarrow> parsedPath p"
proof -
  assume "parserIndir ts = Inr p"
  then have m: "map parser (splitOn Indirection ts) = map Inr p" by (simp add: parserIndir_def splitAt_splitOn sequenceSum_Inr)
  have "list_all parsedPart ps" if "ps \<in> set p" for ps
  proof -
    have "Inr ps \<in> set (map parser (splitOn Indirection ts))" using that by (simp add: m)
    then show ?thesis using parserFrom_parsed [where parts = "[]"] by (auto simp: parser_def)
  qed
  moreover have "p \<noteq> []" using m splitOn_ne [of Indirection ts] by auto
  ultimately show ?thesis by (simp add: parsedPath_def list_all_iff)
qed

fun parsedCfi :: "cfi \<Rightarrow> bool" where
  "parsedCfi (Point p) \<longleftrightarrow> parsedPath p"
| "parsedCfi (Ranged parent start finish) \<longleftrightarrow> parsedPath parent \<and> parsedPath start \<and> (case finish of None \<Rightarrow> True | Some f \<Rightarrow> parsedPath f)"

lemma two_pieces: "t \<in> set xs \<Longrightarrow> \<exists>a b cs. splitOn t xs = a # b # cs"
proof (induction xs)
  case (Cons x xs)
  then show ?case by (cases "x = t"; cases "splitOn t xs") (auto dest: arg_cong [of _ _ tl])
qed simp



end
