(* ===== verification/Cfi_Dom.thy ===== *)
theory Cfi_Dom
  imports Epub_Cfi
begin

text \<open>
  The document side of \<^verbatim>\<open>public/foliate/epubcfi.js\<close>: identifiers of nodes and back. Nodes have an identity, by
  which \<^verbatim>\<open>===\<close> compares them; an argument \<open>f\<close> is the optional filter, and the ancestors of a node are given from
  its parent up to the document element. Shown: a position in a text, written to a string and read back, is found
  again at the same node and offset, and so is a range.
\<close>

section \<open>Documents\<close>

datatype domNode = Element nat ustring "domNode list" | CharData nat ustring | OtherNode nat

fun nodeKey :: "domNode \<Rightarrow> nat" where
  "nodeKey (Element k i cs) = k"
| "nodeKey (CharData k t) = k"
| "nodeKey (OtherNode k) = k"

fun domChildren :: "domNode \<Rightarrow> domNode list" where
  "domChildren (Element k i cs) = cs"
| "domChildren n = []"

fun nodeId :: "domNode \<Rightarrow> ustring option" where
  "nodeId (Element k i cs) = Some i"
| "nodeId n = None"

fun nodeValue :: "domNode \<Rightarrow> ustring" where
  "nodeValue (CharData k t) = t"
| "nodeValue n = []"

fun isTextNode :: "domNode \<Rightarrow> bool" where
  "isTextNode (CharData k t) = True"
| "isTextNode n = False"

fun isElementNode :: "domNode \<Rightarrow> bool" where
  "isElementNode (Element k i cs) = True"
| "isElementNode n = False"

fun domNodes :: "domNode \<Rightarrow> domNode list" where
  "domNodes (Element k i cs) = Element k i cs # concat (map domNodes cs)"
| "domNodes n = [n]"

definition getElementById :: "domNode \<Rightarrow> ustring \<Rightarrow> domNode option" where
  "getElementById doc i = find (\<lambda>n. nodeId n = Some i) (domNodes doc)"

datatype verdict = FilterAccept | FilterReject | FilterSkip

section \<open>Indexed children\<close>

fun getChildNodes :: "(domNode \<Rightarrow> verdict) option \<Rightarrow> domNode \<Rightarrow> domNode list" where
  "getChildNodes None n = filter (\<lambda>c. isTextNode c \<or> isElementNode c) (domChildren n)"
| "getChildNodes (Some f) (Element k i cs) =
    concat (map (\<lambda>c. if isTextNode c \<or> isElementNode c
      then (case f c of FilterReject \<Rightarrow> [] | FilterSkip \<Rightarrow> getChildNodes (Some f) c | FilterAccept \<Rightarrow> [c]) else []) cs)"
| "getChildNodes (Some f) n = []"

datatype childEntry = Single domNode | Merged "domNode list" | Missing | First | Last | Before | After

fun addNode :: "childEntry list \<Rightarrow> domNode \<Rightarrow> childEntry list" where
  "addNode arr node =
    (if arr = [] then [Single node]
     else if isTextNode node
     then (case last arr of
             Merged ns \<Rightarrow> butlast arr @ [Merged (ns @ [node])]
           | Single n \<Rightarrow> if isTextNode n then butlast arr @ [Merged [n, node]] else arr @ [Single node]
           | _ \<Rightarrow> arr @ [Single node])
     else (case last arr of
             Single n \<Rightarrow> if isElementNode n then arr @ [Missing, Single node] else arr @ [Single node]
           | _ \<Rightarrow> arr @ [Single node]))"

fun elementEntry :: "childEntry \<Rightarrow> bool" where
  "elementEntry (Single n) = isElementNode n"
| "elementEntry e = False"

text \<open>Without children there is no first node to ask for its type.\<close>

definition indexChildNodes :: "(domNode \<Rightarrow> verdict) option \<Rightarrow> domNode \<Rightarrow> cfiError + childEntry list" where
  "indexChildNodes f node =
    (let nodes = foldl addNode [] (getChildNodes f node) in
     if nodes = [] then Inl TypeError
     else Inr ([Before] @ (if elementEntry (hd nodes) then [First] else []) @ nodes
       @ (if elementEntry (last nodes) then [Last] else []) @ [After]))"

section \<open>From parts to nodes\<close>

text \<open>What \<^verbatim>\<open>partsToNode\<close> returns; \<open>Nowhere\<close> is \<^verbatim>\<open>undefined\<close>.\<close>

datatype place = At "domNode option" "nat option" | AtBefore domNode | AtAfter domNode | Nowhere

text \<open>The variable \<^verbatim>\<open>node\<close> of its loop: a node, a chunk of texts, or nothing.\<close>

datatype cursor = Node domNode | Chunk "domNode list" | Gone

definition childOrSelf :: "domNode option \<Rightarrow> domNode \<Rightarrow> place" where
  "childOrSelf c n = At (Some (case c of None \<Rightarrow> n | Some m \<Rightarrow> m)) None"

definition firstChild :: "domNode \<Rightarrow> domNode option" where
  "firstChild n = (if domChildren n = [] then None else Some (hd (domChildren n)))"

definition lastChild :: "domNode \<Rightarrow> domNode option" where
  "lastChild n = (if domChildren n = [] then None else Some (last (domChildren n)))"

definition entryAt :: "childEntry list \<Rightarrow> nat option \<Rightarrow> childEntry" where
  "entryAt es index = (case index of None \<Rightarrow> Missing | Some i \<Rightarrow> if i < length es then es ! i else Missing)"

fun walk :: "(domNode \<Rightarrow> verdict) option \<Rightarrow> cursor \<Rightarrow> nat option list \<Rightarrow> cfiError + (place + cursor)" where
  "walk f c [] = Inr (Inr c)"
| "walk f Gone (i # is) = walk f Gone is"
| "walk f (Chunk ns) (i # is) = Inl TypeError"
| "walk f (Node n) (i # is) =
    (case indexChildNodes f n of
       Inl e \<Rightarrow> Inl e
     | Inr es \<Rightarrow>
        (case entryAt es i of
           First \<Rightarrow> Inr (Inl (childOrSelf (firstChild n) n))
         | Last \<Rightarrow> Inr (Inl (childOrSelf (lastChild n) n))
         | Before \<Rightarrow> Inr (Inl (AtBefore n))
         | After \<Rightarrow> Inr (Inl (AtAfter n))
         | Missing \<Rightarrow> walk f Gone is
         | Single m \<Rightarrow> walk f (Node m) is
         | Merged ms \<Rightarrow> walk f (Chunk ms) is))"

text \<open>The text of a chunk that contains an offset; no comparison with \<^verbatim>\<open>undefined\<close> holds.\<close>

fun inChunk :: "domNode list \<Rightarrow> nat \<Rightarrow> nat option \<Rightarrow> place" where
  "inChunk [] passed offset = Nowhere"
| "inChunk (n # ns) passed offset =
    (case offset of
       None \<Rightarrow> Nowhere
     | Some off \<Rightarrow> if off \<le> passed + length (nodeValue n) then At (Some n) (Some (off - passed))
         else inChunk ns (passed + length (nodeValue n)) offset)"

definition partsToNode :: "domNode \<Rightarrow> (domNode \<Rightarrow> verdict) option \<Rightarrow> cfiPart list \<Rightarrow> cfiError + place" where
  "partsToNode doc f parts =
    (if parts = [] then Inl TypeError
     else
      (let found = (if truthyText (pt_id (last parts)) then getElementById doc (the (pt_id (last parts))) else None) in
       case found of
         Some el \<Rightarrow> Inr (At (Some el) (Some 0))
       | None \<Rightarrow>
          (case walk f (Node doc) (map pt_index parts) of
             Inl e \<Rightarrow> Inl e
           | Inr (Inl p) \<Rightarrow> Inr p
           | Inr (Inr (Node n)) \<Rightarrow> Inr (At (Some n) (offsetOf (last parts)))
           | Inr (Inr Gone) \<Rightarrow> Inr (At None (offsetOf (last parts)))
           | Inr (Inr (Chunk ns)) \<Rightarrow> Inr (inChunk ns 0 (offsetOf (last parts))))))"

section \<open>From nodes to parts\<close>

definition same :: "domNode \<Rightarrow> domNode \<Rightarrow> bool" where
  "same x node \<longleftrightarrow> nodeKey x = nodeKey node"

fun holds :: "domNode \<Rightarrow> childEntry \<Rightarrow> bool" where
  "holds node (Single x) = same x node"
| "holds node (Merged xs) = list_ex (\<lambda>x. same x node) xs"
| "holds node e = False"

fun findIndex :: "('a \<Rightarrow> bool) \<Rightarrow> 'a list \<Rightarrow> nat option" where
  "findIndex p [] = None"
| "findIndex p (x # xs) = (if p x then Some 0 else map_option Suc (findIndex p xs))"

text \<open>Offsets as if the texts of the chunk were one; \<^verbatim>\<open>null\<close> counts as zero in the passed.\<close>

fun chunkOffset :: "domNode list \<Rightarrow> domNode \<Rightarrow> nat option \<Rightarrow> nat" where
  "chunkOffset [] node offset = 0"
| "chunkOffset (x # xs) node offset =
    (if same x node then (case offset of None \<Rightarrow> 0 | Some off \<Rightarrow> off) else length (nodeValue x) + chunkOffset xs node offset)"

definition adjusted :: "childEntry \<Rightarrow> domNode \<Rightarrow> nat option \<Rightarrow> nat option" where
  "adjusted e node offset = (case e of Merged xs \<Rightarrow> Some (chunkOffset xs node offset) | _ \<Rightarrow> offset)"

definition nodePart :: "domNode \<Rightarrow> nat \<Rightarrow> nat option \<Rightarrow> cfiPart" where
  "nodePart node i offset = (newPart (Some i))\<lparr>pt_id := nodeId node, pt_offset := map_option Some offset\<rparr>"

text \<open>The part of a node below a given parent, none if the node is not among its indexed children.\<close>

definition partBelow :: "(domNode \<Rightarrow> verdict) option \<Rightarrow> domNode \<Rightarrow> domNode \<Rightarrow> nat option \<Rightarrow> cfiError + cfiPart list" where
  "partBelow f parent node offset =
    (case indexChildNodes f parent of
       Inl e \<Rightarrow> Inl e
     | Inr es \<Rightarrow> (case findIndex (holds node) es of
         None \<Rightarrow> Inr []
       | Some i \<Rightarrow> Inr [nodePart node i (adjusted (es ! i) node offset)]))"

text \<open>The second equation with a parent that the filter skips is a turn of the \<^verbatim>\<open>while\<close> loop.\<close>

fun nodeToParts :: "(domNode \<Rightarrow> verdict) option \<Rightarrow> domNode \<Rightarrow> nat option \<Rightarrow> domNode list \<Rightarrow> cfiError + cfiPart list" where
  "nodeToParts f node offset [] = Inl TypeError"
| "nodeToParts f node offset [doc] = partBelow f doc node offset"
| "nodeToParts f node offset (parent # a # ancestors) =
    (if (case f of None \<Rightarrow> False | Some g \<Rightarrow> g parent = FilterSkip) then nodeToParts f node offset (a # ancestors)
     else
      (case partBelow f parent node offset of
         Inl e \<Rightarrow> Inl e
       | Inr part \<Rightarrow> (case nodeToParts f parent None (a # ancestors) of Inl e \<Rightarrow> Inl e | Inr parts \<Rightarrow> Inr (parts @ part))))"

section \<open>Ranges\<close>

text \<open>An end of a range: a node, its ancestors and an offset.\<close>

record rangeEnd =
  re_node :: domNode
  re_offset :: nat
  re_ancestors :: "domNode list"

definition endParts :: "(domNode \<Rightarrow> verdict) option \<Rightarrow> rangeEnd \<Rightarrow> cfiError + cfiPart list" where
  "endParts f e = nodeToParts f (re_node e) (Some (re_offset e)) (re_ancestors e)"

definition fromRange :: "(domNode \<Rightarrow> verdict) option \<Rightarrow> rangeEnd \<Rightarrow> rangeEnd \<Rightarrow> cfiError + ustring" where
  "fromRange f start finish =
    (case endParts f start of
       Inl e \<Rightarrow> Inl e
     | Inr s \<Rightarrow>
        (if same (re_node start) (re_node finish) \<and> re_offset start = re_offset finish then toString (Point [s])
         else (case endParts f finish of Inl e \<Rightarrow> Inl e | Inr t \<Rightarrow> buildRange (Point [s]) (Point [t]))))"

text \<open>\<^verbatim>\<open>setStart\<close> and its companions: an \<^verbatim>\<open>undefined\<close> offset is zero, one that is too large is refused. (That a
  document collapses a range whose end it would find before its start is left out.)\<close>

definition nodeLength :: "domNode \<Rightarrow> nat" where
  "nodeLength n = (case n of Element k i cs \<Rightarrow> length cs | CharData k t \<Rightarrow> length t | OtherNode k \<Rightarrow> 0)"

fun setBoundary :: "place \<Rightarrow> cfiError + place" where
  "setBoundary (At (Some n) off) =
    (let k = (case off of None \<Rightarrow> 0 | Some k \<Rightarrow> k) in if k \<le> nodeLength n then Inr (At (Some n) (Some k)) else Inl IndexSizeError)"
| "setBoundary (At None off) = Inl TypeError"
| "setBoundary Nowhere = Inl TypeError"
| "setBoundary p = Inr p"

definition boundary :: "domNode \<Rightarrow> (domNode \<Rightarrow> verdict) option \<Rightarrow> cfi \<Rightarrow> bool \<Rightarrow> cfiError + place" where
  "boundary doc f x toEnd =
    (case collapse x toEnd of
       Inl e \<Rightarrow> Inl e
     | Inr [] \<Rightarrow> Inl TypeError
     | Inr (parts # rest) \<Rightarrow> (case partsToNode doc f parts of Inl e \<Rightarrow> Inl e | Inr p \<Rightarrow> setBoundary p))"

definition toRange :: "domNode \<Rightarrow> (domNode \<Rightarrow> verdict) option \<Rightarrow> cfi \<Rightarrow> cfiError + place \<times> place" where
  "toRange doc f x =
    (case boundary doc f x False of
       Inl e \<Rightarrow> Inl e
     | Inr s \<Rightarrow> (case boundary doc f x True of Inl e \<Rightarrow> Inl e | Inr t \<Rightarrow> Inr (s, t)))"

text \<open>The elements of one parent, in order; the index runs over the indexed children.\<close>

fun elementCfis :: "cfiPart list \<Rightarrow> nat \<Rightarrow> childEntry list \<Rightarrow> domNode list \<Rightarrow> (cfiError + ustring) list" where
  "elementCfis parts i (e # es) (el # els) =
    (if (case e of Single n \<Rightarrow> same n el | _ \<Rightarrow> False)
     then toString (Point [parts @ [(newPart (Some i))\<lparr>pt_id := nodeId el\<rparr>]]) # elementCfis parts (i + 1) es els
     else elementCfis parts (i + 1) es (el # els))"
| "elementCfis parts i es els = []"

definition fromElements :: "domNode \<Rightarrow> domNode list \<Rightarrow> domNode list \<Rightarrow> cfiError + ustring list" where
  "fromElements parent ancestors elements =
    (case nodeToParts None parent None ancestors of
       Inl e \<Rightarrow> Inl e
     | Inr parts \<Rightarrow> (case indexChildNodes None parent of Inl e \<Rightarrow> Inl e | Inr es \<Rightarrow> sequenceSum (elementCfis parts 0 es elements)))"

text \<open>The callers pass a single path.\<close>

definition toElement :: "domNode \<Rightarrow> cfiPart list \<Rightarrow> cfiError + domNode option" where
  "toElement doc parts =
    (case partsToNode doc None parts of
       Inl e \<Rightarrow> Inl e
     | Inr (At n off) \<Rightarrow> Inr n | Inr (AtBefore n) \<Rightarrow> Inr (Some n) | Inr (AtAfter n) \<Rightarrow> Inr (Some n) | Inr Nowhere \<Rightarrow> Inl TypeError)"

section \<open>Positions of the view\<close>

text \<open>\<^verbatim>\<open>getCFI\<close> and \<^verbatim>\<open>resolveCFI\<close> of \<^verbatim>\<open>view.js\<close> for books that have no way of their own to resolve identifiers.\<close>

definition getCFI :: "ustring option \<Rightarrow> nat \<Rightarrow> (cfiError + ustring) option \<Rightarrow> cfiError + ustring" where
  "getCFI sectionCfi index local =
    (let base = (case sectionCfi of Some c \<Rightarrow> c | None \<Rightarrow> fakeFromIndex index) in
     case local of
       None \<Rightarrow> Inr base
     | Some (Inl e) \<Rightarrow> Inl e
     | Some (Inr s) \<Rightarrow> Inr (joinIndir [base, s]))"

definition resolveCFI :: "ustring \<Rightarrow> cfiError + real option \<times> cfi" where
  "resolveCFI s =
    (case parse s of
       Inl e \<Rightarrow> Inl e
     | Inr (Point (p # ps)) \<Rightarrow> (case fakeToIndex p of Inl e \<Rightarrow> Inl e | Inr i \<Rightarrow> Inr (i, Point ps))
     | Inr (Ranged (p # ps) start finish) \<Rightarrow> (case fakeToIndex p of Inl e \<Rightarrow> Inl e | Inr i \<Rightarrow> Inr (i, Ranged ps start finish))
     | Inr _ \<Rightarrow> Inl TypeError)"

section \<open>Indexed children\<close>

definition judge :: "(domNode \<Rightarrow> verdict) option \<Rightarrow> domNode \<Rightarrow> verdict" where
  "judge f n = (case f of None \<Rightarrow> FilterAccept | Some g \<Rightarrow> g n)"

lemma text_or_element: "isTextNode n \<Longrightarrow> \<not> isElementNode n"
  by (cases n) auto

lemma accepted_child:
  assumes "c \<in> set (domChildren n)" and "isTextNode c \<or> isElementNode c" and "judge f c = FilterAccept"
  shows "c \<in> set (getChildNodes f n)"
  using assms by (cases f; cases n) (auto simp: judge_def intro!: bexI [of _ c])

lemma skipped_child:
  assumes "c \<in> set (domChildren n)" and "isElementNode c" and "judge f c = FilterSkip" and "x \<in> set (getChildNodes f c)"
  shows "x \<in> set (getChildNodes f n)"
proof -
  obtain g where "f = Some g" "g c = FilterSkip" using assms(3) by (cases f) (auto simp: judge_def)
  then show ?thesis using assms by (cases n) (auto intro!: bexI [of _ c])
qed

lemma content_children: "x \<in> set (getChildNodes f n) \<Longrightarrow> isTextNode x \<or> isElementNode x"
proof (induction f n rule: getChildNodes.induct)
  case (2 f k i cs)
  then obtain c where c: "c \<in> set cs" "isTextNode c \<or> isElementNode c"
    "x \<in> set (case f c of FilterReject \<Rightarrow> [] | FilterSkip \<Rightarrow> getChildNodes (Some f) c | FilterAccept \<Rightarrow> [c])"
    by (auto split: if_splits)
  then show ?case using 2(1) by (cases "f c") auto
qed auto

fun entryNodes :: "childEntry \<Rightarrow> domNode list" where
  "entryNodes (Single n) = [n]"
| "entryNodes (Merged ns) = ns"
| "entryNodes e = []"

text \<open>A sequence of entries in which elements and chunks take turns, and in which chunks are of texts.\<close>

fun turns :: "bool \<Rightarrow> childEntry list \<Rightarrow> bool" where
  "turns b [] \<longleftrightarrow> True"
| "turns b (e # es) \<longleftrightarrow> elementEntry e = b \<and> turns (\<not> b) es"

definition textChunk :: "childEntry \<Rightarrow> bool" where
  "textChunk e \<longleftrightarrow> (case e of Merged ns \<Rightarrow> list_all isTextNode ns | _ \<Rightarrow> True)"

lemma turns_append: "turns b (xs @ ys) \<longleftrightarrow> turns b xs \<and> turns (if even (length xs) then b else \<not> b) ys"
  by (induction xs arbitrary: b) auto

lemma turns_nth: "turns b es \<Longrightarrow> i < length es \<Longrightarrow> elementEntry (es ! i) \<longleftrightarrow> (b \<longleftrightarrow> even i)"
proof (induction es arbitrary: b i)
  case (Cons e es)
  then show ?case by (cases i) auto
qed simp

definition indexed_ok :: "domNode list \<Rightarrow> childEntry list \<Rightarrow> bool" where
  "indexed_ok ns es \<longleftrightarrow> concat (map entryNodes es) = ns \<and> list_all textChunk es \<and> (es \<noteq> [] \<longrightarrow> turns (elementEntry (hd es)) es) \<and>
     list_all (\<lambda>n. isTextNode n \<or> isElementNode n) ns \<and> (es \<noteq> [] \<longrightarrow> entryNodes (last es) \<noteq> [])"

lemma addNode_ok:
  assumes "indexed_ok ns es" and "isTextNode n \<or> isElementNode n"
  shows "indexed_ok (ns @ [n]) (addNode es n)"
proof (cases es rule: rev_cases)
  case Nil
  then show ?thesis using assms by (simp add: indexed_ok_def textChunk_def)
next
  case (snoc bs e)
  have kind: "isElementNode n \<longleftrightarrow> \<not> isTextNode n" using assms(2) by (cases n) auto
  show ?thesis
  proof (cases e)
    case (Single m)
    have "isElementNode m \<longleftrightarrow> \<not> isTextNode m"
      using assms(1) snoc Single text_or_element [of m] by (auto simp: indexed_ok_def)
    then show ?thesis
      using assms snoc Single kind by (cases bs) (auto simp: indexed_ok_def textChunk_def turns_append)
  qed (use assms snoc kind in \<open>cases bs; auto simp: indexed_ok_def textChunk_def turns_append\<close>)+
qed

lemma foldl_addNode_ok:
  "indexed_ok ns es \<Longrightarrow> list_all (\<lambda>n. isTextNode n \<or> isElementNode n) ms \<Longrightarrow> indexed_ok (ns @ ms) (foldl addNode es ms)"
proof (induction ms arbitrary: ns es)
  case (Cons m ms)
  then show ?case using addNode_ok [of ns es m] Cons.IH [of "ns @ [m]" "addNode es m"] by simp
qed simp

lemma children_indexed:
  assumes "x \<in> set (getChildNodes f n)"
  obtains es where "indexChildNodes f n = Inr es" "\<exists>e\<in>set es. x \<in> set (entryNodes e)" "list_all textChunk es"
    "\<forall>i<length es. entryNodes (es ! i) \<noteq> [] \<longrightarrow> (elementEntry (es ! i) \<longleftrightarrow> even i)"
    "set (concat (map entryNodes es)) = set (getChildNodes f n)"
proof -
  let ?ns = "foldl addNode [] (getChildNodes f n)"
  have "list_all (\<lambda>n. isTextNode n \<or> isElementNode n) (getChildNodes f n)"
    using content_children by (auto simp: list_all_iff)
  then have ok: "indexed_ok (getChildNodes f n) ?ns" using foldl_addNode_ok [of "[]" "[]"] by (simp add: indexed_ok_def)
  then have ne: "?ns \<noteq> []" using assms by (auto simp: indexed_ok_def)
  define es where "es = [Before] @ (if elementEntry (hd ?ns) then [First] else []) @ ?ns @ (if elementEntry (last ?ns) then [Last] else []) @ [After]"
  have ic: "indexChildNodes f n = Inr es" using ne by (simp add: indexChildNodes_def es_def Let_def)
  have c: "concat (map entryNodes es) = getChildNodes f n" using ok by (simp add: es_def indexed_ok_def)
  have ex: "\<exists>e\<in>set es. x \<in> set (entryNodes e)" using assms c [symmetric] by auto
  have tc: "list_all textChunk es" using ok by (simp add: es_def indexed_ok_def textChunk_def)
  have par: "elementEntry (es ! i) \<longleftrightarrow> even i" if l: "i < length es" and e: "entryNodes (es ! i) \<noteq> []" for i
  proof -
    let ?front = "(if elementEntry (hd ?ns) then [First] else []) @ ?ns"
    have t: "turns False ?front" using ok ne by (auto simp: indexed_ok_def turns_append)
    obtain j where i: "i = Suc j" using e by (cases i) (simp_all add: es_def)
    have "j < length ?front"
    proof (rule ccontr)
      assume "\<not> j < length ?front"
      then have "es ! i \<in> {Last, After}" using l i by (auto simp: es_def nth_append nth_Cons' split: if_splits)
      then show False using e by auto
    qed
    moreover have "es = Before # ?front @ (if elementEntry (last ?ns) then [Last] else []) @ [After]" by (simp add: es_def)
    ultimately have "es ! i = ?front ! j" using i by (simp only: nth_Cons_Suc nth_append if_True)
    then show ?thesis using turns_nth [OF t \<open>j < length ?front\<close>] i by simp
  qed
  show thesis by (rule that [OF ic ex tc]) (use par in blast, simp only: c)
qed

section \<open>Finding nodes again\<close>

lemma findIndex_Some: "findIndex p xs = Some i \<Longrightarrow> i < length xs \<and> p (xs ! i)"
  by (induction xs arbitrary: i) (auto split: if_splits)

lemma findIndex_ex: "x \<in> set xs \<Longrightarrow> p x \<Longrightarrow> \<exists>i. findIndex p xs = Some i"
  by (induction xs) auto

lemma domNodes_self: "n \<in> set (domNodes n)"
  by (cases n) auto

lemma getChildNodes_below: "x \<in> set (getChildNodes f n) \<Longrightarrow> x \<in> set (domNodes n)"
proof (induction f n rule: getChildNodes.induct)
  case (1 n)
  then show ?case by (cases n) (auto intro: domNodes_self)
next
  case (2 f k i cs)
  then obtain c where c: "c \<in> set cs" "x \<in> set (case f c of FilterReject \<Rightarrow> [] | FilterSkip \<Rightarrow> getChildNodes (Some f) c | FilterAccept \<Rightarrow> [c])"
    and content: "isTextNode c \<or> isElementNode c" by (auto split: if_splits)
  then have "x \<in> set (domNodes c)" using 2(1) domNodes_self by (cases "f c") auto
  then show ?case using c(1) by auto
qed simp_all

text \<open>A document whose nodes are told apart by their identities.\<close>

definition distinctKeys :: "domNode \<Rightarrow> bool" where
  "distinctKeys doc \<longleftrightarrow> distinct (map nodeKey (domNodes doc))"

lemma same_node: "distinctKeys doc \<Longrightarrow> x \<in> set (domNodes doc) \<Longrightarrow> y \<in> set (domNodes doc) \<Longrightarrow> same x y \<Longrightarrow> x = y"
  by (auto simp: distinctKeys_def same_def distinct_map inj_on_def)

lemma domNodes_trans: "x \<in> set (domNodes n) \<Longrightarrow> n \<in> set (domNodes m) \<Longrightarrow> x \<in> set (domNodes m)"
  by (induction m rule: domNodes.induct) auto

text \<open>The entry in which a visible child is found.\<close>

lemma found_entry:
  assumes "distinctKeys doc" and "parent \<in> set (domNodes doc)" and "node \<in> set (getChildNodes f parent)"
  obtains es i where "indexChildNodes f parent = Inr es" "findIndex (holds node) es = Some i" "i < length es"
    "es ! i = Single node \<or> (\<exists>ns. es ! i = Merged ns \<and> node \<in> set ns \<and> list_all isTextNode ns)" "isElementNode node \<longleftrightarrow> even i"
    "set (concat (map entryNodes es)) \<subseteq> set (domNodes doc)"
proof -
  obtain es where es: "indexChildNodes f parent = Inr es" "\<exists>e\<in>set es. node \<in> set (entryNodes e)" "list_all textChunk es"
    "\<forall>i<length es. entryNodes (es ! i) \<noteq> [] \<longrightarrow> (elementEntry (es ! i) \<longleftrightarrow> even i)"
    "set (concat (map entryNodes es)) = set (getChildNodes f parent)"
    by (rule children_indexed [OF assms(3)])
  have sub: "set (concat (map entryNodes es)) \<subseteq> set (domNodes doc)"
    unfolding es(5) using domNodes_trans [OF getChildNodes_below assms(2)] by (rule subsetI)
  have mem: "node \<in> set (domNodes doc)" using domNodes_trans [OF getChildNodes_below [OF assms(3)] assms(2)] .
  obtain d where d: "d \<in> set es" "node \<in> set (entryNodes d)" using es(2) by blast
  have "holds node d" by (cases d) (use d(2) in \<open>auto simp: list_ex_iff same_def\<close>)
  then obtain i where i: "findIndex (holds node) es = Some i" using findIndex_ex [OF d(1), of "holds node"] by blast
  then have l: "i < length es" "holds node (es ! i)" using findIndex_Some [OF i] by simp_all
  have in_sub: "set (entryNodes (es ! i)) \<subseteq> set (domNodes doc)" using sub nth_mem [OF l(1)] by auto
  have in_chunk: "textChunk (es ! i)" using es(3) l(1) by (simp add: list_all_length)
  have e: "es ! i = Single node \<or> (\<exists>ns. es ! i = Merged ns \<and> node \<in> set ns \<and> list_all isTextNode ns)"
  proof (cases "es ! i")
    case (Single x)
    then show ?thesis using l(2) in_sub same_node [OF assms(1) _ mem, of x] by simp
  next
    case (Merged ns)
    then obtain x where "x \<in> set ns" "same x node" using l(2) by (auto simp: list_ex_iff)
    then have "node \<in> set ns" using Merged in_sub same_node [OF assms(1) _ mem, of x] by auto
    then show ?thesis using Merged in_chunk by (simp add: textChunk_def)
  qed (use l(2) in simp_all)
  then have "elementEntry (es ! i) \<longleftrightarrow> isElementNode node"
  proof (elim disjE exE conjE)
    fix ns assume "es ! i = Merged ns" "node \<in> set ns" "list_all isTextNode ns"
    then show ?thesis using text_or_element [of node] by (simp add: list_all_iff)
  qed simp
  moreover have "entryNodes (es ! i) \<noteq> []" using e by auto
  moreover have "entryNodes (es ! i) \<noteq> [] \<longrightarrow> (elementEntry (es ! i) \<longleftrightarrow> even i)" using es(4) l(1) by blast
  ultimately have "isElementNode node \<longleftrightarrow> even i" by simp
  then show thesis by (rule that [OF es(1) i l(1) e _ sub])
qed

text \<open>Parts that lead from one element to another.\<close>

inductive leads :: "(domNode \<Rightarrow> verdict) option \<Rightarrow> domNode \<Rightarrow> cfiPart list \<Rightarrow> domNode \<Rightarrow> bool" for f where
  here: "leads f n [] n"
| down: "indexChildNodes f n = Inr es \<Longrightarrow> i < length es \<Longrightarrow> es ! i = Single m \<Longrightarrow> isElementNode m \<Longrightarrow> even i \<Longrightarrow> leads f m ps k
    \<Longrightarrow> leads f n (nodePart m i None # ps) k"

inductive_cases leads_Cons: "leads f n (p # ps) k"

lemma leads_snoc:
  assumes "leads f n ps m" and "indexChildNodes f m = Inr es" and "i < length es" and "es ! i = Single k" and "isElementNode k" and "even i"
  shows "leads f n (ps @ [nodePart k i None]) k"
  using assms by (induction rule: leads.induct) (auto intro: leads.intros)

lemma walk_leads: "leads f n ps m \<Longrightarrow> walk f (Node n) (map pt_index ps @ is) = walk f (Node m) is"
  by (induction rule: leads.induct) (auto simp: nodePart_def newPart_def entryAt_def)

text \<open>A node and its ancestors up to the document element; those between them may be skipped but not rejected.\<close>

fun lineage :: "(domNode \<Rightarrow> verdict) option \<Rightarrow> domNode \<Rightarrow> domNode list \<Rightarrow> domNode \<Rightarrow> bool" where
  "lineage f node [] doc \<longleftrightarrow> False"
| "lineage f node [a] doc \<longleftrightarrow> a = doc \<and> node \<in> set (domChildren a)"
| "lineage f node (a # b # as) doc \<longleftrightarrow> node \<in> set (domChildren a) \<and> judge f a \<noteq> FilterReject \<and> lineage f a (b # as) doc"

lemma child_element: "c \<in> set (domChildren n) \<Longrightarrow> isElementNode n"
  by (cases n) auto

lemma domNodes_child: "c \<in> set (domChildren n) \<Longrightarrow> c \<in> set (domNodes n)"
  by (cases n) (auto intro: domNodes_self)

lemma lineage_below: "lineage f node as doc \<Longrightarrow> list_all (\<lambda>a. a \<in> set (domNodes doc)) (node # as)"
proof (induction f node as doc rule: lineage.induct)
  case (3 f node a b as doc)
  then show ?case using domNodes_trans domNodes_child by fastforce
qed (auto simp: domNodes_child domNodes_self)

text \<open>The part of a visible node below the node that is its parent once skipped ones are left out.\<close>

lemma partBelow_visible:
  assumes "distinctKeys doc" and "parent \<in> set (domNodes doc)" and "node \<in> set (getChildNodes f parent)"
  obtains es i where "indexChildNodes f parent = Inr es" "i < length es"
    "es ! i = Single node \<or> (\<exists>ns. es ! i = Merged ns \<and> node \<in> set ns \<and> list_all isTextNode ns \<and> set ns \<subseteq> set (domNodes doc))"
    "isElementNode node \<longleftrightarrow> even i" "partBelow f parent node offset = Inr [nodePart node i (adjusted (es ! i) node offset)]"
proof -
  obtain es i where es: "indexChildNodes f parent = Inr es" "findIndex (holds node) es = Some i" "i < length es"
    "es ! i = Single node \<or> (\<exists>ns. es ! i = Merged ns \<and> node \<in> set ns \<and> list_all isTextNode ns)" "isElementNode node \<longleftrightarrow> even i"
    "set (concat (map entryNodes es)) \<subseteq> set (domNodes doc)"
    by (rule found_entry [OF assms])
  have "set (entryNodes (es ! i)) \<subseteq> set (domNodes doc)" using es(6) nth_mem [OF es(3)] by auto
  then have "es ! i = Single node \<or> (\<exists>ns. es ! i = Merged ns \<and> node \<in> set ns \<and> list_all isTextNode ns \<and> set ns \<subseteq> set (domNodes doc))"
    using es(4) by auto
  moreover have "partBelow f parent node offset = Inr [nodePart node i (adjusted (es ! i) node offset)]"
    using es(1,2) by (simp add: partBelow_def)
  ultimately show thesis by (rule that [OF es(1,3) _ es(5)])
qed

text \<open>A text is reached by its parts: they lead to an element, among whose indexed children it is found.\<close>

definition reaches :: "domNode \<Rightarrow> (domNode \<Rightarrow> verdict) option \<Rightarrow> cfiPart list \<Rightarrow> domNode \<Rightarrow> nat option \<Rightarrow> bool" where
  "reaches doc f parts node offset \<longleftrightarrow>
    (\<exists>ps m es i. leads f doc ps m \<and> indexChildNodes f m = Inr es \<and> i < length es \<and> (isElementNode node \<longleftrightarrow> even i) \<and>
      (es ! i = Single node \<or> (\<exists>ns. es ! i = Merged ns \<and> node \<in> set ns \<and> list_all isTextNode ns \<and> set ns \<subseteq> set (domNodes doc))) \<and>
      parts = ps @ [nodePart node i (adjusted (es ! i) node offset)])"

lemma reaches_leads:
  assumes "reaches doc f parts node None" and "isElementNode node"
  shows "leads f doc parts node"
proof -
  obtain ps m es i where r: "leads f doc ps m" "indexChildNodes f m = Inr es" "i < length es" "isElementNode node \<longleftrightarrow> even i"
    "es ! i = Single node \<or> (\<exists>ns. es ! i = Merged ns \<and> node \<in> set ns \<and> list_all isTextNode ns \<and> set ns \<subseteq> set (domNodes doc))"
    "parts = ps @ [nodePart node i (adjusted (es ! i) node None)]"
    using assms(1) unfolding reaches_def by blast
  have "es ! i = Single node" using r(5) assms(2) text_or_element [of node] by (auto simp: list_all_iff)
  then show ?thesis using leads_snoc [OF r(1,2,3)] assms(2) r(4,6) by (simp add: adjusted_def)
qed

lemma visible_reached:
  assumes "distinctKeys doc" and "node \<in> set (getChildNodes f (hd as))" and "as \<noteq> []"
    and "case as of [a] \<Rightarrow> a = doc | a # b # bs \<Rightarrow> judge f a \<noteq> FilterReject \<and> lineage f a (b # bs) doc"
  shows "\<exists>parts. nodeToParts f node offset as = Inr parts \<and> reaches doc f parts node offset"
  using assms(2,3,4)
proof (induction f node offset as rule: nodeToParts.induct)
  case (2 f node offset a)
  then have "a \<in> set (domNodes doc)" "node \<in> set (getChildNodes f a)" by (simp_all add: domNodes_self)
  from partBelow_visible [OF assms(1) this] show ?case using 2 unfolding reaches_def
    by simp (metis append_Nil leads.here)
next
  case (3 f node offset a b bs)
  have l: "lineage f a (b # bs) doc" "judge f a \<noteq> FilterReject" using 3(4,5) by simp_all
  have ab: "a \<in> set (domChildren b)" using l(1) by (cases bs) auto
  have el: "isElementNode a" using 3(3) by (cases a; cases f) simp_all
  have rest: "case b # bs of [a] \<Rightarrow> a = doc | a # b # bs \<Rightarrow> judge f a \<noteq> FilterReject \<and> lineage f a (b # bs) doc"
    using l(1) by (cases bs) simp_all
  show ?case
  proof (cases "judge f a = FilterSkip")
    case True
    then have "node \<in> set (getChildNodes f (hd (b # bs)))" using skipped_child [OF ab el] 3(3) by simp
    then show ?thesis using 3(1) True rest by (auto simp: judge_def split: option.splits)
  next
    case False
    then have "judge f a = FilterAccept" using l(2) by (cases "judge f a") simp_all
    then have "a \<in> set (getChildNodes f (hd (b # bs)))" using accepted_child [OF ab] el by simp
    moreover have "a \<in> set (domNodes doc)" using lineage_below [OF l(1)] by simp
    moreover have "node \<in> set (getChildNodes f a)" using 3(3) by simp
    ultimately obtain es i where e: "indexChildNodes f a = Inr es" "i < length es"
      "es ! i = Single node \<or> (\<exists>ns. es ! i = Merged ns \<and> node \<in> set ns \<and> list_all isTextNode ns \<and> set ns \<subseteq> set (domNodes doc))"
      "isElementNode node \<longleftrightarrow> even i" "partBelow f a node offset = Inr [nodePart node i (adjusted (es ! i) node offset)]"
      and a: "a \<in> set (getChildNodes f (hd (b # bs)))"
      by (metis partBelow_visible [OF assms(1)])
    have skip: "\<not> (case f of None \<Rightarrow> False | Some g \<Rightarrow> g a = FilterSkip)" using False by (auto simp: judge_def split: option.splits)
    from 3(2) [OF skip e(5) a] rest obtain parts where p: "nodeToParts f a None (b # bs) = Inr parts" "reaches doc f parts a None"
      by auto
    then have "nodeToParts f node offset (a # b # bs) = Inr (parts @ [nodePart node i (adjusted (es ! i) node offset)])"
      using e(5) skip by simp
    then show ?thesis using reaches_leads [OF p(2) el] e(1-4) unfolding reaches_def by blast
  qed
qed simp

text \<open>A place in the middle or at the end of a text.\<close>

definition textEnd :: "domNode \<Rightarrow> (domNode \<Rightarrow> verdict) option \<Rightarrow> rangeEnd \<Rightarrow> bool" where
  "textEnd doc f e \<longleftrightarrow> isTextNode (re_node e) \<and> judge f (re_node e) = FilterAccept \<and> lineage f (re_node e) (re_ancestors e) doc \<and>
     0 < re_offset e \<and> re_offset e \<le> length (nodeValue (re_node e))"

lemma textEnd_reached:
  assumes "distinctKeys doc" and "textEnd doc f e"
  shows "\<exists>parts. endParts f e = Inr parts \<and> reaches doc f parts (re_node e) (Some (re_offset e))"
proof -
  have l: "lineage f (re_node e) (re_ancestors e) doc" using assms(2) by (simp add: textEnd_def)
  then obtain a as where a: "re_ancestors e = a # as" by (cases "re_ancestors e") auto
  have "re_node e \<in> set (domChildren a)" using l a by (cases as) auto
  then have "re_node e \<in> set (getChildNodes f a)" using assms(2) by (intro accepted_child) (auto simp: textEnd_def)
  moreover have "case a # as of [a] \<Rightarrow> a = doc | a # b # bs \<Rightarrow> judge f a \<noteq> FilterReject \<and> lineage f a (b # bs) doc"
    using l a by (cases as) auto
  ultimately show ?thesis using visible_reached [OF assms(1), of "re_node e" f "a # as"] a by (simp add: endParts_def)
qed

lemma inChunk_found:
  assumes "node \<in> set ns" and "0 < off" and "off \<le> length (nodeValue node)" and "\<And>x. x \<in> set ns \<Longrightarrow> same x node \<Longrightarrow> x = node"
  shows "inChunk ns passed (Some (passed + chunkOffset ns node (Some off))) = At (Some node) (Some off)"
  using assms(1,4)
proof (induction ns arbitrary: passed)
  case (Cons x xs)
  show ?case
  proof (cases "same x node")
    case True
    then have "x = node" using Cons by simp
    then show ?thesis using assms(2,3) True by simp
  next
    case False
    then have x: "node \<in> set xs" using Cons by (auto simp: same_def)
    have "0 < chunkOffset xs node (Some off)" using x assms(2) by (induction xs) (auto simp: same_def)
    then show ?thesis using False Cons.IH [OF x, of "passed + length (nodeValue x)"] Cons.prems(2) by (simp add: add.assoc)
  qed
qed simp

text \<open>What the printed form keeps of a part: an empty id is not written.\<close>

definition printedPart :: "cfiPart \<Rightarrow> cfiPart" where
  "printedPart p = (if pt_id p = Some [] then p\<lparr>pt_id := None\<rparr> else p)"

lemma printed_same: "partToString (printedPart p) = partToString p"
  by (cases "pt_offset p") (simp_all add: printedPart_def partToString_def truthyText_def paramText_def)

lemma printed_path: "pathToString (map (map printedPart) p) = pathToString p"
  by (simp add: pathToString_def comp_def printed_same)

lemma printed_simps [simp]: "pt_index (printedPart p) = pt_index p" "pt_offset (printedPart p) = pt_offset p"
  by (simp_all add: printedPart_def)

lemma wf_element: "even i \<Longrightarrow> wfPart (printedPart (nodePart m i None))"
  by (cases m) (auto simp: wfPart_def printedPart_def nodePart_def newPart_def)

lemma wf_text: "odd i \<Longrightarrow> isTextNode n \<Longrightarrow> wfPart (printedPart (nodePart n i (Some k)))"
  by (cases n) (auto simp: wfPart_def printedPart_def nodePart_def newPart_def)

lemma wf_leads: "leads f n ps m \<Longrightarrow> list_all wfPart (map printedPart ps)"
  by (induction rule: leads.induct) (auto simp: wf_element)

lemma adjusted_text: "\<exists>k. adjusted e n (Some off) = Some k"
  by (cases e) (simp_all add: adjusted_def)

lemma reaches_wf:
  assumes "reaches doc f parts node (Some off)" and "isTextNode node"
  shows "list_all wfPart (map printedPart parts) \<and> parts \<noteq> []"
proof -
  obtain ps m es i where r: "leads f doc ps m" "isElementNode node \<longleftrightarrow> even i" "parts = ps @ [nodePart node i (adjusted (es ! i) node (Some off))]"
    using assms(1) unfolding reaches_def by blast
  moreover obtain k where "adjusted (es ! i) node (Some off) = Some k" using adjusted_text by blast
  ultimately show ?thesis using wf_leads [OF r(1)] wf_text [of i node k] text_or_element [OF assms(2)] assms(2) by simp
qed

lemma reaches_found:
  assumes "distinctKeys doc" and "reaches doc f parts node (Some off)" and "isTextNode node" and "0 < off" and "off \<le> length (nodeValue node)"
  shows "partsToNode doc f (map printedPart parts) = Inr (At (Some node) (Some off))"
proof -
  obtain ps m es i where r: "leads f doc ps m" "indexChildNodes f m = Inr es" "i < length es" "isElementNode node \<longleftrightarrow> even i"
    "es ! i = Single node \<or> (\<exists>ns. es ! i = Merged ns \<and> node \<in> set ns \<and> list_all isTextNode ns \<and> set ns \<subseteq> set (domNodes doc))"
    "parts = ps @ [nodePart node i (adjusted (es ! i) node (Some off))]"
    using assms(2) unfolding reaches_def by blast
  let ?last = "nodePart node i (adjusted (es ! i) node (Some off))"
  let ?ps = "map printedPart parts"
  have w: "walk f (Node doc) (map pt_index ?ps) = walk f (Node m) [Some i]"
    using walk_leads [OF r(1), of "[Some i]"] r(6) by (simp add: comp_def nodePart_def newPart_def)
  have last: "?ps \<noteq> []" "last ?ps = printedPart ?last" using r(6) by simp_all
  have id: "pt_id (printedPart ?last) = None" using assms(3) by (cases node) (simp_all add: printedPart_def nodePart_def newPart_def)
  have off: "offsetOf (printedPart ?last) = adjusted (es ! i) node (Some off)"
    by (simp add: nodePart_def newPart_def split: option.splits)
  from r(5) show ?thesis
  proof (elim disjE exE conjE)
    assume n: "es ! i = Single node"
    then have "walk f (Node doc) (map pt_index ?ps) = Inr (Inr (Node node))" using w r(2,3) by (simp add: entryAt_def)
    then show ?thesis using last id off n by (simp add: partsToNode_def truthyText_def adjusted_def del: offsetOf.simps)
  next
    fix ns assume n: "es ! i = Merged ns" "node \<in> set ns" "list_all isTextNode ns" "set ns \<subseteq> set (domNodes doc)"
    have "x = node" if "x \<in> set ns" "same x node" for x using same_node [OF assms(1)] n(2,4) that by blast
    note found = inChunk_found [OF n(2) assms(4,5) this, of 0]
    have "walk f (Node doc) (map pt_index ?ps) = Inr (Inr (Chunk ns))" using w r(2,3) n(1) by (simp add: entryAt_def)
    then show ?thesis using last id off n(1) found by (simp add: partsToNode_def truthyText_def adjusted_def del: offsetOf.simps)
  qed
qed

section \<open>Positions survive storing\<close>

lemma reaches_compatible:
  assumes "leads f n ps m" and "leads f n qs l" and "\<not> offsetFalsy t" and "\<not> offsetFalsy u"
  shows "compatible (map printedPart ps @ [t]) (map printedPart qs @ [u])"
  using assms(1,2)
proof (induction arbitrary: qs rule: leads.induct)
  case (here n)
  then show ?case using assms(3) by (cases qs) simp_all
next
  case (down n es i m ps k)
  show ?case
  proof (cases qs)
    case Nil
    then show ?thesis using assms(4) by simp
  next
    case (Cons q rest)
    from down.prems [unfolded Cons] obtain es' j m' where q: "q = nodePart m' j None" "indexChildNodes f n = Inr es'" "es' ! j = Single m'"
      "leads f m' rest l" by (rule leads_Cons) blast
    show ?thesis
    proof (cases "i = j")
      case True
      then have "m' = m" using q(2,3) down.hyps by simp
      then show ?thesis using down.IH q(4) Cons q(1) True by simp
    next
      case False
      then show ?thesis using Cons q(1) by (simp add: sameIndex_def nodePart_def newPart_def)
    qed
  qed
qed

definition prepend :: "cfiPart list \<Rightarrow> cfi \<Rightarrow> cfi" where
  "prepend b x = (case x of Point p \<Rightarrow> Point (b # p) | Ranged p s f \<Rightarrow> Ranged (b # p) s f)"

lemma prepend_tokens:
  assumes "wfCfi x"
  shows "pathTokens [b] @ Indirection # cfiTokens x = cfiTokens (prepend b x)"
proof -
  have p: "pathTokens (b # p) = pathTokens [b] @ Indirection # pathTokens p" if "p \<noteq> []" for p
    using that by (cases p) (simp_all add: pathTokens_def)
  show ?thesis
  proof (cases x)
    case (Ranged q s finish)
    then obtain f where "finish = Some f" "q \<noteq> []" using assms by (cases finish) (simp_all add: wfPath_def)
    then show ?thesis using Ranged p by (simp add: prepend_def)
  qed (use assms p in \<open>simp add: prepend_def wfPath_def\<close>)
qed

text \<open>An identifier inside another, with or without its wrapping, has the same tokens.\<close>

lemma emits_unwrapped:
  assumes "clean t" and "\<forall>l. ready l \<longrightarrow> emits l t ts" and "ready l"
  shows "emits l (unwrap (wrap t)) ts"
proof (cases "isCFI (wrap t)")
  case None
  have "lexStep [101] l = lexed (flushed l) [] []"
    using flush [OF assms(3), of "[101]"] by (simp add: isNumber_def is_digit_def lexStart_def)
  then have i: "run (js ''epubcfi('') l = lexed (flushed l) [] []"
    by (simp add: js_def lexStep_def lexStart_def startsWith_def)
  have w: "wrap t = js ''epubcfi('' @ t @ [41]" using wrap_clean [OF assms(1)] .
  have e: "emits (lexed (flushed l) [] []) t ts" using assms(2) by simp
  have "flushed (lexed (flushed l) [] []) = flushed l" by (simp add: flushed_def pendingTokens_def)
  then show ?thesis
    using None e by (simp add: unwrap_def w emits_def i delimited flushed_def [of "lexed _ _ _"] pendingTokens_def)
next
  case (Some inner)
  then have "unwrap (wrap t) = t" using wrap_clean [OF assms(1)] by (simp add: unwrap_def isCFI_wrapped split: if_splits)
  then show ?thesis using assms(2,3) by simp
qed

lemma last_unwrapped: "clean t \<Longrightarrow> unwrap (wrap t) = [] \<or> \<not> is_space (last (unwrap (wrap t)))"
proof -
  assume t: "clean t"
  have "last (js ''epubcfi('' @ t @ [41]) = 41" by simp
  then show ?thesis using t by (auto simp: unwrap_def wrap_clean isCFI_wrapped clean_def solid_def is_space_def split: if_splits)
qed

lemma parse_joined:
  assumes "wfCfi x" and "toString x = Inr s" and "list_all wfPart b" and "b \<noteq> []" and "isCFI (wrap (pathToString [b])) = Some (pathToString [b])"
  shows "parse (joinIndir [wrap (pathToString [b]), s]) = Inr (prepend b x)"
proof -
  obtain t where t: "toString x = Inr (wrap t)" "clean t" "\<forall>l. ready l \<longrightarrow> emits l t (cfiTokens x)" by (rule cfi_string [OF assms(1)])
  let ?b = "pathToString [b]" and ?u = "unwrap (wrap t)"
  have s: "s = wrap t" using t(1) assms(2) by simp
  have w: "wfPath [b]" using assms(3) by (simp add: wfPath_def)
  have b: "emits lexInit ?b (pathTokens [b])" by (rule emits_path [OF w ready_init(1)])
  have "emits (run ?b lexInit) [33] [Indirection]"
    using emits_ready [OF b] by (simp add: emits_def delimiter flushed_def pendingTokens_def)
  note bs = emits_append [OF b this]
  have e: "emits lexInit ((?b @ [33]) @ ?u) ((pathTokens [b] @ [Indirection]) @ cfiTokens x)"
    by (rule emits_append [OF bs emits_unwrapped [OF t(2,3) emits_ready [OF bs]]])
  have "?b \<noteq> []" using assms(3,4) by (cases b) (simp_all add: pathToString_def partToString_def)
  then have "solid ?b" using clean_path [OF w] by (simp add: clean_def)
  then have c: "clean (?b @ 33 # ?u)"
    using last_unwrapped [OF t(2)] by (auto simp: clean_def solid_def is_space_def)
  have "joinIndir [wrap ?b, s] = wrap (?b @ 33 # ?u)"
    using assms(5) by (simp add: joinIndir_def wrap_clean [OF c] s unwrap_def [of "wrap ?b"])
  then have "tokenizer (unwrap (joinIndir [wrap ?b, s])) = cfiTokens (prepend b x)"
    using wrapped_tokens [OF c] e by (simp add: prepend_tokens [OF assms(1), symmetric])
  moreover have "wfCfi (prepend b x)" using assms(1,3) by (cases x) (simp_all add: prepend_def wfPath_def)
  ultimately show ?thesis by (rule parse_of_tokens [rotated])
qed

lemma chunkOffset_pos: "n \<in> set ns \<Longrightarrow> 0 < off \<Longrightarrow> 0 < chunkOffset ns n (Some off)"
  by (induction ns) (auto simp: same_def)

lemma reaches_offset:
  assumes "reaches doc f parts node (Some off)" and "0 < off"
  obtains ps m t where "leads f doc ps m" "parts = ps @ [t]" "\<not> offsetFalsy (printedPart t)"
proof -
  obtain ps m es i where r: "leads f doc ps m" "es ! i = Single node \<or> (\<exists>ns. es ! i = Merged ns \<and> node \<in> set ns)"
    "parts = ps @ [nodePart node i (adjusted (es ! i) node (Some off))]"
    using assms(1) unfolding reaches_def by blast
  have "\<not> offsetFalsy (printedPart (nodePart node i (adjusted (es ! i) node (Some off))))"
    using r(2) assms(2) by (auto simp: offsetFalsy_def nodePart_def newPart_def adjusted_def dest: chunkOffset_pos [of node _ off])
  then show thesis by (rule that [OF r(1,3)])
qed

lemma splitLocal_printed:
  "splitLocal as bs = (p, s, t) \<Longrightarrow>
    splitLocal (map printedPart as) (map printedPart bs) = (map printedPart p, map printedPart s, map printedPart t)"
proof (induction as bs arbitrary: p rule: splitLocal.induct)
  case (1 a as b bs)
  then show ?case by (cases "splitLocal as bs") (auto simp: sameIndex_def offsetFalsy_def split: if_splits)
qed auto

lemma printed_range:
  assumes "reaches doc f ps n (Some a)" and "reaches doc f qs m (Some b)" and "0 < a" and "0 < b"
    and "wfPath [map printedPart ps]" and "wfPath [map printedPart qs]"
  obtains x where "buildRange (Point [ps]) (Point [qs]) = toString x" "wfCfi x"
    "collapse x False = Inr [map printedPart ps]" "collapse x True = Inr [map printedPart qs]"
proof -
  obtain ps' k t where p: "leads f doc ps' k" "ps = ps' @ [t]" "\<not> offsetFalsy (printedPart t)" by (rule reaches_offset [OF assms(1,3)])
  obtain qs' l u where q: "leads f doc qs' l" "qs = qs' @ [u]" "\<not> offsetFalsy (printedPart u)" by (rule reaches_offset [OF assms(2,4)])
  have c: "compatible (map printedPart ps) (map printedPart qs)"
    using reaches_compatible [OF p(1) q(1) p(3) q(3)] p(2) q(2) by simp
  obtain r s e where l: "splitLocal ps qs = (r, s, e)" by (cases "splitLocal ps qs")
  let ?r = "map printedPart r" and ?s = "map printedPart s" and ?e = "map printedPart e"
  have a: "map printedPart ps = ?r @ ?s" "map printedPart qs = ?r @ ?e"
    using splitLocal_append [OF c splitLocal_printed [OF l]] by simp_all
  have "buildRange (Point [ps]) (Point [qs]) = toString (Ranged [r] [s] (Some [e]))"
    using l by (simp add: buildRange_def buildRangePaths_def)
  also have "\<dots> = toString (Ranged [?r] [?s] (Some [?e]))"
    using printed_path [of "[r]"] printed_path [of "[s]"] printed_path [of "[e]"] by (simp add: toString_def)
  finally show thesis
    by (rule that) (use assms(5,6) a in \<open>simp_all add: wfPath_def concatArrays_def\<close>)
qed

lemma same_end: "distinctKeys doc \<Longrightarrow> textEnd doc f a \<Longrightarrow> textEnd doc f b \<Longrightarrow> same (re_node a) (re_node b) \<Longrightarrow> re_node a = re_node b"
  using lineage_below [of f "re_node a" "re_ancestors a" doc] lineage_below [of f "re_node b" "re_ancestors b" doc]
    same_node [of doc "re_node a" "re_node b"] by (simp add: textEnd_def)

text \<open>The identifier of a range in the text, as it is read back.\<close>

lemma range_string:
  assumes "distinctKeys doc" and "textEnd doc f start" and "textEnd doc f finish"
  shows "\<exists>s x. fromRange f start finish = Inr s \<and> toString x = Inr s \<and> wfCfi x \<and>
    toRange doc f x = Inr (At (Some (re_node start)) (Some (re_offset start)), At (Some (re_node finish)) (Some (re_offset finish)))"
proof -
  note t = assms(2,3) [unfolded textEnd_def]
  obtain ps where ps: "endParts f start = Inr ps" "reaches doc f ps (re_node start) (Some (re_offset start))"
    using textEnd_reached [OF assms(1,2)] by blast
  obtain qs where qs: "endParts f finish = Inr qs" "reaches doc f qs (re_node finish) (Some (re_offset finish))"
    using textEnd_reached [OF assms(1,3)] by blast
  let ?p = "map printedPart ps" and ?q = "map printedPart qs"
  have wf: "wfPath [?p]" "wfPath [?q]" "ps \<noteq> []" "qs \<noteq> []"
    using reaches_wf [OF ps(2)] reaches_wf [OF qs(2)] t by (simp_all add: wfPath_def)
  have b: "setBoundary (At (Some (re_node start)) (Some (re_offset start))) = Inr (At (Some (re_node start)) (Some (re_offset start)))"
    "setBoundary (At (Some (re_node finish)) (Some (re_offset finish))) = Inr (At (Some (re_node finish)) (Some (re_offset finish)))"
    using t by (cases "re_node start"; cases "re_node finish"; simp add: nodeLength_def)+
  have f: "partsToNode doc f ?p = Inr (At (Some (re_node start)) (Some (re_offset start)))"
    "partsToNode doc f ?q = Inr (At (Some (re_node finish)) (Some (re_offset finish)))"
    using reaches_found [OF assms(1) ps(2)] reaches_found [OF assms(1) qs(2)] t by simp_all
  have ends: "toRange doc f x = Inr (At (Some (re_node start)) (Some (re_offset start)), At (Some (re_node finish)) (Some (re_offset finish)))"
    if "collapse x False = Inr [?p]" "collapse x True = Inr [?q]" for x
    using that f b by (simp add: toRange_def boundary_def)
  show ?thesis
  proof (cases "same (re_node start) (re_node finish) \<and> re_offset start = re_offset finish")
    case True
    then have n: "re_node start = re_node finish" "re_offset start = re_offset finish" using same_end [OF assms] by simp_all
    have "fromRange f start finish = Inr (wrap (pathToString [?p]))"
      using ps(1) True printed_path [of "[ps]"] by (simp add: fromRange_def toString_def)
    moreover have "toRange doc f (Point [?p]) = Inr (At (Some (re_node start)) (Some (re_offset start)), At (Some (re_node finish)) (Some (re_offset finish)))"
      using f(1) b(1) n by (simp add: toRange_def boundary_def)
    ultimately show ?thesis using wf(1) by (intro exI [of _ "Point [?p]"] exI) (auto simp: toString_def)
  next
    case False
    obtain x where x: "buildRange (Point [ps]) (Point [qs]) = toString x" "wfCfi x" "collapse x False = Inr [?p]" "collapse x True = Inr [?q]"
      by (rule printed_range [OF ps(2) qs(2) _ _ wf(1,2)]) (use t in simp_all)
    obtain s where "toString x = Inr s" using cfi_string [OF x(2)] by metis
    moreover have "fromRange f start finish = toString x" using False ps(1) qs(1) x(1) by (simp add: fromRange_def if_not_P)
    ultimately show ?thesis using x(2) ends [OF x(3,4)] by (intro exI [of _ s] exI [of _ x]) simp
  qed
qed

lemma fake_base:
  "\<exists>b. fakeFromIndex i = wrap (pathToString [b]) \<and> list_all wfPart b \<and> b \<noteq> [] \<and> fakeToIndex b = Inr (Some (real i)) \<and>
    isCFI (wrap (pathToString [b])) = Some (pathToString [b])"
proof -
  let ?b = "[newPart (Some 6), newPart (Some ((i + 1) * 2))]"
  have d: "dec 6 = [54]" by (simp add: dec.simps)
  then have s: "pathToString [?b] = js ''/6/'' @ dec ((i + 1) * 2)"
    by (simp add: pathToString_def partToString_def newPart_def truthyText_def countText_def js_def)
  have w: "list_all wfPart ?b" by (simp add: wfPart_def newPart_def)
  have "\<not> list_ex lineTerminator (dec n)" for n
    using dec_digits [of n] by (auto simp: list_ex_iff list_all_iff is_digit_def lineTerminator_def)
  then have "\<not> list_ex lineTerminator (pathToString [?b])" unfolding s by (simp add: js_def lineTerminator_def)
  moreover have "clean (pathToString [?b])" using w by (intro clean_path) (simp add: wfPath_def)
  ultimately have "isCFI (wrap (pathToString [?b])) = Some (pathToString [?b])" by (simp only: wrap_clean isCFI_wrapped if_False)
  moreover have "fakeToIndex ?b = Inr (Some (real i))" by (simp add: fakeToIndex_def newPart_def field_simps)
  ultimately show ?thesis using s w by (intro exI [of _ ?b]) (simp add: fakeFromIndex_def)
qed


text \<open>A paragraph with text before and after a mark that the filter skips.\<close>

definition sample_mark :: domNode where
  "sample_mark = Element 4 [] [CharData 5 (js ''brave'')]"

definition sample_paragraph :: domNode where
  "sample_paragraph = Element 2 (js ''p[1]'') [CharData 3 (js ''oh ''), sample_mark, CharData 6 (js '' world'')]"

definition sample_page :: domNode where
  "sample_page = Element 0 [] [CharData 1 (js '' ''), sample_paragraph, OtherNode 7]"

definition skip_marks :: "(domNode \<Rightarrow> verdict) option" where
  "skip_marks = Some (\<lambda>n. if nodeKey n = 4 then FilterSkip else FilterAccept)"


end
