(* ===== verification/Auth_Session.thy ===== *)
theory Auth_Session
  imports Api Cover_Urls
begin

text \<open>
  \<^verbatim>\<open>hooks/useAuth.ts\<close>: the hook that starts, checks and ends a session. It composes the session of \<open>Api\<close>, the
  offline books of \<open>Offline_Books\<close> and the covers of \<open>Cover_Urls\<close>. An operation is given with the answers to its
  requests; between its call and the answer only \<^verbatim>\<open>logout\<close> keeps a value, the account it was called for.
  Shown: when a session ends, in whichever way, nothing of the account is left.
\<close>

section \<open>The hook\<close>

record authHook =
  au_session :: session
  au_books :: cache_storage
  au_covers :: coverCache
  au_isLoading :: bool
  au_isAuthenticated :: bool
  au_user :: "user option"
  au_pushed :: "ustring list"

definition useAuth :: "session \<Rightarrow> cache_storage \<Rightarrow> coverCache \<Rightarrow> authHook" where
  "useAuth s books covers =
    (case getCurrentUser s of (u, s1) \<Rightarrow>
      \<lparr>au_session = s1, au_books = books, au_covers = covers, au_isLoading = True, au_isAuthenticated = False, au_user = u, au_pushed = []\<rparr>)"

definition clearBooks :: "storage_env \<Rightarrow> ustring option \<Rightarrow> authHook \<Rightarrow> authHook" where
  "clearBooks env userId h = h\<lparr>au_books := snd (clearOfflineBooks env userId (au_books h))\<rparr>"

definition handleAuthExpired :: "storage_env \<Rightarrow> bool \<Rightarrow> authHook \<Rightarrow> authHook" where
  "handleAuthExpired env redirectOnExpire h =
    (case getCurrentUser (au_session h) of (u, s) \<Rightarrow>
      (let h1 = clearBooks env (map_option us_id u) (h\<lparr>au_session := s, au_covers := clearCoverUrlCache (au_covers h)\<rparr>) in
       h1\<lparr>au_isAuthenticated := False, au_user := None, au_pushed := au_pushed h1 @ (if redirectOnExpire then [js ''/login''] else [])\<rparr>))"

text \<open>What a request leaves behind: the accounts whose books it cleared, and an event for each 401.\<close>

definition afterRequest :: "storage_env \<Rightarrow> bool \<Rightarrow> session \<Rightarrow> authHook \<Rightarrow> authHook" where
  "afterRequest env redirectOnExpire s h =
    (let cleared = drop (length (ss_offlineCleared (au_session h))) (ss_offlineCleared s);
         events = ss_expiredEvents s - ss_expiredEvents (au_session h) in
     (handleAuthExpired env redirectOnExpire ^^ events) (fold (clearBooks env) cleared (h\<lparr>au_session := s\<rparr>)))"

text \<open>The end of a session, shared by \<^verbatim>\<open>checkAuth\<close> and \<^verbatim>\<open>logout\<close>.\<close>

definition endSession :: "storage_env \<Rightarrow> ustring option \<Rightarrow> authHook \<Rightarrow> authHook" where
  "endSession env userId h =
    (let h1 = clearBooks env userId (h\<lparr>au_covers := clearCoverUrlCache (au_covers h)\<rparr>) in
     h1\<lparr>au_isAuthenticated := False, au_user := None\<rparr>)"

definition checkFailed :: "storage_env \<Rightarrow> bool \<Rightarrow> authHook \<Rightarrow> authHook" where
  "checkFailed env redirectOnExpire h =
    (case getCurrentUser (au_session h) of (expired, s) \<Rightarrow>
      endSession env (map_option us_id expired) (afterRequest env redirectOnExpire (removeToken s) (h\<lparr>au_session := s\<rparr>)))"

definition checkAuth ::
  "storage_env \<Rightarrow> bool \<Rightarrow> ustring list \<Rightarrow> (ustring \<Rightarrow> (bool \<times> user option) fetch_outcome) \<Rightarrow> authHook \<Rightarrow> authHook" where
  "checkAuth env redirectOnExpire bases net h =
    (case verify bases net (au_session h) of (answer, s) \<Rightarrow>
      (let h1 = afterRequest env redirectOnExpire s h in
       (case answer of
          Inr (valid, Some u) \<Rightarrow> h1\<lparr>au_isAuthenticated := True, au_user := Some u\<rparr>
        | Inr (valid, None) \<Rightarrow>
           (case getCurrentUser (au_session h1) of (u, s1) \<Rightarrow> h1\<lparr>au_session := s1, au_isAuthenticated := True, au_user := u\<rparr>)
        | Inl e \<Rightarrow> checkFailed env redirectOnExpire h1)\<lparr>au_isLoading := False\<rparr>))"

text \<open>\<^verbatim>\<open>register\<close> does the same with its own request.\<close>

definition loginAnswered ::
  "storage_env \<Rightarrow> bool \<Rightarrow> ustring list \<Rightarrow> (ustring \<Rightarrow> user fetch_outcome) \<Rightarrow> authHook \<Rightarrow> authHook" where
  "loginAnswered env redirectOnExpire bases net h =
    (case login bases net (au_session h) of (answer, s) \<Rightarrow>
      (let h1 = afterRequest env redirectOnExpire s h in
       case answer of
         Inl e \<Rightarrow> h1
       | Inr u \<Rightarrow> h1\<lparr>au_user := Some u, au_isAuthenticated := True, au_pushed := au_pushed h1 @ [js ''/shelf'']\<rparr>))"

definition logoutCalled :: "authHook \<Rightarrow> ustring option" where
  "logoutCalled h = map_option us_id (au_user h)"

definition logoutAnswered ::
  "storage_env \<Rightarrow> bool \<Rightarrow> ustring list \<Rightarrow> (ustring \<Rightarrow> 'a fetch_outcome) \<Rightarrow> ustring option \<Rightarrow> authHook \<Rightarrow> authHook" where
  "logoutAnswered env redirectOnExpire bases net currentUserID h =
    (let h1 = endSession env currentUserID (afterRequest env redirectOnExpire (logout bases net (au_session h)) h) in
     h1\<lparr>au_pushed := au_pushed h1 @ [js ''/login'']\<rparr>)"

text \<open>A 401 on any other request.\<close>

definition otherUnauthorized :: "storage_env \<Rightarrow> bool \<Rightarrow> authHook \<Rightarrow> authHook" where
  "otherUnauthorized env redirectOnExpire h = afterRequest env redirectOnExpire (handleUnauthorized 401 (au_session h)) h"

section \<open>What is left of an account\<close>

definition booksGone :: "ustring \<Rightarrow> authHook \<Rightarrow> bool" where
  "booksGone u h \<longleftrightarrow> (\<forall>name. cacheName u = Some name \<longrightarrow> the_cache (au_books h) name = [])"

lemma clearBooks_keeps: "booksGone u h \<Longrightarrow> booksGone u (clearBooks env v h)"
  by (auto simp: booksGone_def clearBooks_def clearOfflineBooks_def the_cache_def split: option.splits)

lemma clearBooks_gone: "healthy env \<Longrightarrow> u \<noteq> [] \<Longrightarrow> booksGone u (clearBooks env (Some u) h)"
  by (auto simp: booksGone_def clearBooks_def clearOfflineBooks_def the_cache_def truthy_def healthy_def split: option.splits)

lemma booksGone_upd [simp]:
  "booksGone u (h\<lparr>au_session := s\<rparr>) = booksGone u h" "booksGone u (h\<lparr>au_covers := c\<rparr>) = booksGone u h"
  "booksGone u (h\<lparr>au_isAuthenticated := b\<rparr>) = booksGone u h" "booksGone u (h\<lparr>au_user := w\<rparr>) = booksGone u h"
  "booksGone u (h\<lparr>au_pushed := p\<rparr>) = booksGone u h" "booksGone u (h\<lparr>au_isLoading := b\<rparr>) = booksGone u h"
  by (simp_all add: booksGone_def)

lemma expired_keeps: "booksGone u h \<Longrightarrow> booksGone u (handleAuthExpired env r h)"
  by (simp add: handleAuthExpired_def Let_def clearBooks_keeps split: prod.splits)

lemma expiries_keep: "booksGone u h \<Longrightarrow> booksGone u ((handleAuthExpired env r ^^ n) h)"
  by (induction n) (simp_all add: expired_keeps)

lemma clears_keep: "booksGone u h \<Longrightarrow> booksGone u (fold (clearBooks env) us h)"
  by (induction us arbitrary: h) (simp_all add: clearBooks_keeps)

lemma clears_gone: "healthy env \<Longrightarrow> u \<noteq> [] \<Longrightarrow> Some u \<in> set us \<Longrightarrow> booksGone u (fold (clearBooks env) us h)"
proof (induction us arbitrary: h)
  case (Cons v us)
  then show ?case by (cases "v = Some u") (auto intro: clears_keep clearBooks_gone)
qed simp

lemma afterRequest_gone:
  assumes "healthy env" and "u \<noteq> []" and "ss_offlineCleared s = ss_offlineCleared (au_session h) @ new" and "Some u \<in> set new"
  shows "booksGone u (afterRequest env r s h)"
  unfolding afterRequest_def Let_def using assms by (intro expiries_keep clears_gone) simp_all

lemma afterRequest_keeps: "booksGone u h \<Longrightarrow> booksGone u (afterRequest env r s h)"
  unfolding afterRequest_def Let_def by (intro expiries_keep clears_keep) simp

lemma endSession_gone: "booksGone u h \<Longrightarrow> booksGone u (endSession env v h)"
  by (simp add: endSession_def Let_def clearBooks_keeps)

lemma no_book_found: "booksGone u h \<Longrightarrow> cacheName u \<noteq> None \<Longrightarrow>
   fst (getPartialBookDownload env u b (au_books h)) = None \<and> (\<forall>entry. fst (getOfflineBookEntry env f u b hash (au_books h)) \<noteq> Inr (Some entry))"
  using empty_cache_forgets by (auto simp: booksGone_def)

section \<open>Requests and the stored account\<close>

text \<open>A request leaves the stored account alone, or clears its books.\<close>

definition kept_or_cleared :: "session \<Rightarrow> session \<Rightarrow> bool" where
  "kept_or_cleared s s1 \<longleftrightarrow> ss_available s1 = ss_available s \<and>
    (\<exists>new. ss_offlineCleared s1 = ss_offlineCleared s @ new \<and>
      (\<forall>u. ss_user s = Some (UserJson u) \<longrightarrow> ss_user s1 = ss_user s \<or> Some (us_id u) \<in> set new))"

lemma kept_refl: "kept_or_cleared s s"
  by (simp add: kept_or_cleared_def)

lemma kept_trans: "kept_or_cleared s s1 \<Longrightarrow> kept_or_cleared s1 s2 \<Longrightarrow> kept_or_cleared s s2"
  unfolding kept_or_cleared_def by auto

lemma removeToken_clears:
  assumes "ss_available s"
  shows "ss_offlineCleared (removeToken s) = ss_offlineCleared s @ [map_option us_id (fst (getCurrentUser s))]"
  using assms by (auto simp: removeToken_def getCurrentUser_def split: option.splits stored_user.splits)

lemma kept_removeToken: "ss_available s \<Longrightarrow> kept_or_cleared s (removeToken s)"
  by (auto simp: kept_or_cleared_def removeToken_clears getCurrentUser_def)

lemma kept_unauthorized: "ss_available s \<Longrightarrow> kept_or_cleared s (handleUnauthorized st s)"
  using kept_removeToken [of s] by (auto simp: handleUnauthorized_def kept_or_cleared_def)

lemma kept_fetch: "ss_available s \<Longrightarrow> kept_or_cleared s (fx_session (fetchLoop bases net bs e s))"
proof (induction bs arbitrary: e s)
  case (Cons b bs)
  have s2: "ss_available (seenStatus (net b) s)" using Cons.prems by simp
  have s1: "kept_or_cleared s (seenStatus (net b) s)"
    using Cons.prems kept_unauthorized [of s] kept_refl [of s] by (auto simp: seenStatus_def [of "net b" s] split: sum.splits)
  show ?case
    using s1 kept_trans [OF s1 Cons.IH [OF s2]] by (auto simp: Let_def split: verdict.splits)
qed (simp add: kept_refl)

text \<open>After a request, and a removed token, the books of the account that was stored before are gone.\<close>

lemma removed_gone:
  assumes "healthy env" and "us_id u \<noteq> []" and "ss_user (au_session h) = Some (UserJson u)" and "ss_available (au_session h)"
    and "kept_or_cleared (au_session h) s"
  shows "booksGone (us_id u) (afterRequest env r (removeToken s) h)"
proof -
  obtain new where n: "ss_offlineCleared s = ss_offlineCleared (au_session h) @ new"
    "ss_user s = ss_user (au_session h) \<or> Some (us_id u) \<in> set new" "ss_available s"
    using assms(3-5) unfolding kept_or_cleared_def by blast
  have "ss_offlineCleared (removeToken s) = ss_offlineCleared (au_session h) @ (new @ [map_option us_id (fst (getCurrentUser s))])"
    using removeToken_clears [OF n(3)] n(1) by simp
  moreover have "Some (us_id u) \<in> set (new @ [map_option us_id (fst (getCurrentUser s))])"
    using n(2,3) assms(3) by (auto simp: getCurrentUser_def)
  ultimately show ?thesis using assms(1,2) by (intro afterRequest_gone)
qed

lemma clears_session [simp]: "au_session (fold (clearBooks env) us h) = au_session h"
  by (induction us arbitrary: h) (simp_all add: clearBooks_def)

definition settledUser :: "session \<Rightarrow> bool" where
  "settledUser s \<longleftrightarrow> (case ss_user s of None \<Rightarrow> True | Some (UserJson u) \<Rightarrow> True | Some (NotJson t) \<Rightarrow> False)"

lemma expired_session: "settledUser (au_session h) \<Longrightarrow> au_session (handleAuthExpired env r h) = au_session h"
  by (auto simp: handleAuthExpired_def settledUser_def getCurrentUser_def clearBooks_def Let_def split: option.splits stored_user.splits)

lemma expiries_session: "settledUser (au_session h) \<Longrightarrow> au_session ((handleAuthExpired env r ^^ n) h) = au_session h"
  by (induction n) (simp_all add: expired_session)

lemma afterRequest_session: "settledUser s \<Longrightarrow> au_session (afterRequest env r s h) = s"
  by (simp add: afterRequest_def Let_def expiries_session)

lemma expired_available: "ss_available (au_session (handleAuthExpired env r h)) = ss_available (au_session h)"
  by (auto simp: handleAuthExpired_def getCurrentUser_def clearBooks_def Let_def split: option.splits stored_user.splits)

lemma expiries_available: "ss_available (au_session ((handleAuthExpired env r ^^ n) h)) = ss_available (au_session h)"
  by (induction n) (simp_all add: expired_available)

lemma afterRequest_available: "ss_available (au_session (afterRequest env r s h)) = ss_available s"
  by (simp add: afterRequest_def Let_def expiries_available)

lemma removeToken_events [simp]: "ss_expiredEvents (removeToken s) = ss_expiredEvents s"
  by (simp add: removeToken_def getCurrentUser_def split: prod.splits option.splits stored_user.splits)

definition signedOut :: "authHook \<Rightarrow> bool" where
  "signedOut h \<longleftrightarrow> \<not> au_isAuthenticated h \<and> au_user h = None \<and> cu_cache (au_covers h) = [] \<and>
     ss_token (au_session h) = None \<and> ss_user (au_session h) = None"

lemma endSession_out:
  "ss_token (au_session h) = None \<Longrightarrow> ss_user (au_session h) = None \<Longrightarrow> signedOut (endSession env v h)"
  by (simp add: signedOut_def endSession_def clearBooks_def clearCoverUrlCache_def Let_def)

lemma removeToken_settled: "ss_available s \<Longrightarrow> ss_token (removeToken s) = None \<and> ss_user (removeToken s) = None \<and> settledUser (removeToken s)"
  by (auto simp: removeToken_def settledUser_def split: prod.splits)

lemma removed_out: "ss_available s \<Longrightarrow> signedOut (endSession env v (afterRequest env r (removeToken s) h))"
  using removeToken_settled [of s] by (intro endSession_out) (simp_all add: afterRequest_session)

lemma checkFailed_out: "ss_available (au_session h) \<Longrightarrow> signedOut (checkFailed env r h)"
  by (auto simp: checkFailed_def getCurrentUser_def removed_out split: prod.splits option.splits stored_user.splits)

lemma checkFailed_gone:
  assumes "healthy env" and "u \<noteq> []" and "booksGone u h \<or> (\<exists>w. ss_user (au_session h) = Some (UserJson w) \<and> us_id w = u)" and "ss_available (au_session h)"
  shows "booksGone u (checkFailed env r h)"
  using assms(3)
proof (elim disjE exE conjE)
  assume "booksGone u h"
  then show ?thesis by (simp add: checkFailed_def endSession_gone afterRequest_keeps split: prod.splits)
next
  fix w assume w: "ss_user (au_session h) = Some (UserJson w)" "us_id w = u"
  have "getCurrentUser (au_session h) = (Some w, au_session h)" using w(1) assms(4) by (simp add: getCurrentUser_def)
  then show ?thesis using w(2) clearBooks_gone [OF assms(1,2)] by (simp add: checkFailed_def endSession_def Let_def)
qed

lemma failed_check:
  assumes "healthy env" and "us_id u \<noteq> []" and "ss_user (au_session h) = Some (UserJson u)" and "ss_available (au_session h)"
    and "fst (verify bases net (au_session h)) = Inl e"
  shows "signedOut (checkAuth env r bases net h) \<and> booksGone (us_id u) (checkAuth env r bases net h)"
proof -
  let ?s = "fx_session (fetchApi bases net (au_session h))" and ?h1 = "afterRequest env r (fx_session (fetchApi bases net (au_session h))) h"
  have v: "verify bases net (au_session h) = (Inl e, ?s)"
    using assms(5) by (auto simp: verify_def Let_def split: sum.splits option.splits)
  have k: "kept_or_cleared (au_session h) ?s" using kept_fetch [OF assms(4)] by (simp add: fetchApi_def)
  then obtain new where n: "ss_offlineCleared ?s = ss_offlineCleared (au_session h) @ new" "ss_available ?s"
    "ss_user ?s = Some (UserJson u) \<or> Some (us_id u) \<in> set new"
    using assms(3,4) unfolding kept_or_cleared_def by auto
  have av: "ss_available (au_session ?h1)" using n(2) by (simp add: afterRequest_available)
  have "booksGone (us_id u) ?h1 \<or> (\<exists>w. ss_user (au_session ?h1) = Some (UserJson w) \<and> us_id w = us_id u)"
    using n(3) afterRequest_gone [OF assms(1,2) n(1)] afterRequest_session [of ?s env r h] by (auto simp: settledUser_def)
  then have "signedOut (checkFailed env r ?h1) \<and> booksGone (us_id u) (checkFailed env r ?h1)"
    using checkFailed_out [OF av] checkFailed_gone [OF assms(1,2) _ av] by blast
  then show ?thesis by (simp add: checkAuth_def v Let_def signedOut_def)
qed


definition sample_user :: user where
  "sample_user = \<lparr>us_id = js ''u'', us_username = js ''ann'', us_created_at = [], us_updated_at = []\<rparr>"

definition sample_hook :: authHook where
  "sample_hook =
    \<lparr>au_session = \<lparr>ss_available = True, ss_token = None, ss_user = Some (UserJson sample_user), ss_offlineCleared = [], ss_expiredEvents = 0\<rparr>,
     au_books = [(CACHE_PREFIX @ js ''u'', [])], au_covers = \<lparr>cu_cache = [], cu_revoked = []\<rparr>, au_isLoading = False,
     au_isAuthenticated = True, au_user = Some sample_user, au_pushed = []\<rparr>"


text \<open>
  A start without network. The check fails for whatever reason, an unreachable server included, and then the account
  is logged out and its offline books are deleted, although they are kept for reading without network.
\<close>

lemma offline_start_deletes_books:
  assumes "healthy env" and "ss_user (au_session h) = Some (UserJson u)" and "us_id u \<noteq> []" and "ss_available (au_session h)"
    and "fst (verify bases net (au_session h)) = Inl e"
  shows "\<not> au_isAuthenticated (checkAuth env r bases net h) \<and> booksGone (us_id u) (checkAuth env r bases net h)"
  using failed_check [OF assms(1,3,2,4,5)] by (simp add: signedOut_def)

lemma unreachable_server_fails_check: "\<exists>e. fst (verify [base] (\<lambda>_. Inl (NamedErr (js ''TypeError''))) s) = Inl e"
  by (simp add: verify_def fetchApi_def judgeApi_def Let_def split: if_splits)

end
