(* ===== verification/Reader_View.thy ===== *)
theory Reader_View
  imports Prelude
begin

text \<open>
  \<^verbatim>\<open>hooks/useFoliateView.ts\<close>: the hook that loads the reader's engine and a book, shows it at the stored position and
  reports where the reader is. Its asynchronous opening is cut at every \<^verbatim>\<open>await\<close>; a run of it that waits is an entry of
  the state, and events continue runs, run the effects again and report what the view does, in any order. The
  engine, the network and the page are what the events say. Texts that only decorate the loading screen and
  styles of the page are left out.
\<close>

section \<open>Helpers\<close>

datatype metaValue = MetaText ustring | MetaList "metaValue list" | MetaRecord metaValue metaValue metaValue | MetaOther

fun joinTexts :: "ustring list \<Rightarrow> ustring" where
  "joinTexts [] = []"
| "joinTexts [t] = t"
| "joinTexts (t # u # ts) = t @ 12289 # joinTexts (u # ts)"

fun normalizeMetadataText :: "metaValue \<Rightarrow> ustring" where
  "normalizeMetadataText (MetaText t) = trim t"
| "normalizeMetadataText (MetaList vs) = joinTexts (filter (\<lambda>t. t \<noteq> []) (map normalizeMetadataText vs))"
| "normalizeMetadataText (MetaRecord name label text) =
    (if normalizeMetadataText name \<noteq> [] then normalizeMetadataText name
     else if normalizeMetadataText label \<noteq> [] then normalizeMetadataText label
     else normalizeMetadataText text)"
| "normalizeMetadataText MetaOther = []"

text \<open>The missing features of the browser and the message that names them.\<close>

definition featureNames :: "ustring list" where
  "featureNames =
    [[33258, 23450, 20041, 32452, 20214],
     [105, 102, 114, 97, 109, 101, 32, 28210, 26579],
     [82, 97, 110, 103, 101, 32, 23450, 20301]]"

record browserFeatures =
  bf_customElements :: bool
  bf_iframes :: bool
  bf_ranges :: bool

definition getReaderCompatibilityError :: "browserFeatures \<Rightarrow> ustring option" where
  "getReaderCompatibilityError b =
    (let missingFeatures = map fst (filter (\<lambda>(name, supported). \<not> supported) (zip featureNames [bf_customElements b, bf_iframes b, bf_ranges b])) in
     if missingFeatures \<noteq> []
     then Some ([24403, 21069, 27983, 35272, 22120, 32570, 23569, 38405, 35835, 22120, 33021, 21147, 65306] @
       joinTexts missingFeatures @
       [12290, 35831, 29992, 32, 67, 104, 114, 111, 109, 101, 32, 27983, 35272, 22120, 25171, 24320, 12290])
     else None)"

fun mentions :: "ustring \<Rightarrow> ustring \<Rightarrow> bool" where
  "mentions [] p \<longleftrightarrow> p = []"
| "mentions (c # s) p \<longleftrightarrow> startsWith (c # s) p \<or> mentions s p"

definition lowered :: "ustring \<Rightarrow> ustring" where
  "lowered s = map (\<lambda>c. if 65 \<le> c \<and> c \<le> 90 then c + 32 else c) s"

definition shouldUseReaderCompatibilityMode :: "ustring \<Rightarrow> bool" where
  "shouldUseReaderCompatibilityMode userAgent =
    (let has = (\<lambda>p. mentions (lowered userAgent) (js p)) in
     if \<not> has ''android'' then False
     else has ''; wv)'' \<or> has ''version/4.0'' \<or>
       \<not> (has ''chrome/'' \<or> has ''crios/'' \<or> has ''edg/'' \<or> has ''edga/'' \<or> has ''edgios/'' \<or> has ''firefox/'' \<or> has ''fxios/'' \<or>
          has ''samsungbrowser/''))"

datatype pageLabel = PageOf real real | PageName ustring | Position real | NoPage

definition updatePageLabel :: "jsnum option \<Rightarrow> jsnum option \<Rightarrow> ustring option \<Rightarrow> real option \<Rightarrow> pageLabel" where
  "updatePageLabel pages page label location =
    (case (pages, page) of
       (Some (Fin n), Some (Fin p)) \<Rightarrow>
         if 2 < n then PageOf (min (max p 1) (max (n - 2) 1)) (max (n - 2) 1)
         else if label \<noteq> None \<and> label \<noteq> Some [] then PageName (the label)
         else (case location of Some x \<Rightarrow> Position x | None \<Rightarrow> NoPage)
     | _ \<Rightarrow>
         if label \<noteq> None \<and> label \<noteq> Some [] then PageName (the label)
         else (case location of Some x \<Rightarrow> Position x | None \<Rightarrow> NoPage))"

record readerTheme =
  rt_flow :: ustring
  rt_gap :: real
  rt_maxInlineSize :: real
  rt_animated :: bool

record rendererAttributes =
  ra_flow :: ustring
  ra_gap :: real
  ra_maxInlineSize :: real
  ra_animated :: bool

definition applyRendererPreferences :: "bool \<Rightarrow> readerTheme \<Rightarrow> rendererAttributes" where
  "applyRendererPreferences compatibilityMode theme =
    \<lparr>ra_flow = (if compatibilityMode then js ''scrolled'' else rt_flow theme),
     ra_gap = (if compatibilityMode then 0 else rt_gap theme),
     ra_maxInlineSize = (if compatibilityMode then 720 else rt_maxInlineSize theme),
     ra_animated = (rt_animated theme \<and> \<not> compatibilityMode)\<rparr>"

section \<open>Loading the engine\<close>

text \<open>The shared promise: a load in progress, or settled well. A failed one is forgotten.\<close>

record scriptLoad =
  sl_registered :: bool
  sl_promise :: "nat option"
  sl_next :: nat

datatype scriptAnswer = Resolved | Waiting nat

definition ensureFoliateScript :: "scriptLoad \<Rightarrow> scriptAnswer \<times> scriptLoad" where
  "ensureFoliateScript s =
    (if sl_registered s then (Resolved, s)
     else case sl_promise s of
       Some p \<Rightarrow> (Waiting p, s)
     | None \<Rightarrow> (Waiting (sl_next s), s\<lparr>sl_promise := Some (sl_next s), sl_next := sl_next s + 1\<rparr>))"

definition scriptSettled :: "nat \<Rightarrow> bool \<Rightarrow> scriptLoad \<Rightarrow> scriptLoad" where
  "scriptSettled p ok s =
    (if ok then s\<lparr>sl_registered := True\<rparr> else if sl_promise s = Some p then s\<lparr>sl_promise := None\<rparr> else s)"

section \<open>The hook\<close>

record readerProgress =
  rp_cfi :: ustring
  rp_percentage :: real
  rp_updated_at :: "ustring option"
  rp_remote :: bool

datatype target = StartOfBook | AtCfi ustring

text \<open>Where a run of \<^verbatim>\<open>initReader\<close> waits; a file is awaited from a numbered download.\<close>

datatype stage = WaitScript | WaitRect | WaitFile nat | WaitProgress | WaitOpen | WaitGoTo

record shownState =
  sh_loading :: bool
  sh_ready :: bool
  sh_error :: "ustring option"
  sh_title :: ustring
  sh_author :: ustring
  sh_cfi :: ustring
  sh_percentage :: real
  sh_chapter :: ustring
  sh_chapterHref :: ustring
  sh_page :: pageLabel

text \<open>Views are numbered by the runs that make them. \<open>rv_downloads\<close> counts downloads, \<open>rv_aborted\<close> lists the aborted
  ones, \<open>rv_saved\<close> the calls of \<^verbatim>\<open>updateProgress\<close> and \<open>rv_goTo\<close> those of \<^verbatim>\<open>goTo\<close>.\<close>

record readerView =
  rv_shown :: shownState
  rv_bookId :: ustring
  rv_authed :: bool
  rv_destroyed :: bool
  rv_view :: "nat option"
  rv_container :: "nat list"
  rv_queued :: "nat list"
  rv_runs :: "(nat \<times> stage) list"
  rv_nextRun :: nat
  rv_listening :: "nat list"
  rv_downloads :: nat
  rv_prefetch :: "nat option"
  rv_controller :: "nat option"
  rv_aborted :: "nat list"
  rv_firstLoaded :: bool
  rv_revealScheduled :: bool
  rv_frames :: nat
  rv_progress :: "readerProgress option"
  rv_progressLoading :: bool
  rv_applied :: "ustring option"
  rv_saved :: "(ustring \<times> real) list"
  rv_goTo :: "(nat \<times> target) list"

definition abortDownload :: "readerView \<Rightarrow> readerView" where
  "abortDownload s = (case rv_controller s of None \<Rightarrow> s | Some k \<Rightarrow> s\<lparr>rv_aborted := rv_aborted s @ [k]\<rparr>)"

definition cleanupReader :: "readerView \<Rightarrow> readerView" where
  "cleanupReader s = (abortDownload (s\<lparr>rv_destroyed := True\<rparr>))\<lparr>rv_view := None, rv_container := []\<rparr>"

text \<open>The clean-ups of the two effects: the download is aborted, a start that is queued is dropped, the view goes.\<close>

definition leaveReader :: "readerView \<Rightarrow> readerView" where
  "leaveReader s =
    (if \<not> rv_authed s then s
     else cleanupReader ((if rv_bookId s = [] then s
       else (abortDownload s)\<lparr>rv_controller := None\<rparr>)\<lparr>rv_queued := []\<rparr>))"

definition prefetchEffect :: "readerView \<Rightarrow> readerView" where
  "prefetchEffect s =
    (if \<not> rv_authed s \<or> rv_bookId s = [] then s\<lparr>rv_prefetch := None\<rparr>
     else s\<lparr>rv_prefetch := Some (rv_downloads s), rv_controller := Some (rv_downloads s), rv_downloads := rv_downloads s + 1\<rparr>)"

definition startEffect :: "readerView \<Rightarrow> readerView" where
  "startEffect s =
    (if \<not> rv_authed s then s
     else s\<lparr>rv_destroyed := False, rv_shown := (rv_shown s)\<lparr>sh_loading := True, sh_error := None\<rparr>,
       rv_queued := rv_queued s @ [rv_nextRun s], rv_nextRun := rv_nextRun s + 1\<rparr>)"

definition runEffects :: "ustring \<Rightarrow> bool \<Rightarrow> readerView \<Rightarrow> readerView" where
  "runEffects bookId authed s = startEffect (prefetchEffect ((leaveReader s)\<lparr>rv_bookId := bookId, rv_authed := authed\<rparr>))"

section \<open>Opening a book\<close>

text \<open>The outer \<^verbatim>\<open>catch\<close>.\<close>

definition failInit :: "ustring \<Rightarrow> readerView \<Rightarrow> readerView" where
  "failInit message s =
    (if rv_destroyed s then s
     else s\<lparr>rv_shown := (rv_shown s)\<lparr>sh_ready := False, sh_error := Some message, sh_loading := False\<rparr>\<rparr>)"

definition waitAt :: "nat \<Rightarrow> stage \<Rightarrow> readerView \<Rightarrow> readerView" where
  "waitAt r st s = s\<lparr>rv_runs := rv_runs s @ [(r, st)]\<rparr>"

definition initReader :: "nat \<Rightarrow> bool \<Rightarrow> browserFeatures \<Rightarrow> readerView \<Rightarrow> readerView" where
  "initReader r container browser s =
    (if \<not> container \<or> rv_destroyed s then s
     else case getReaderCompatibilityError browser of
       Some message \<Rightarrow> failInit message s
     | None \<Rightarrow>
        waitAt r WaitScript (s\<lparr>rv_shown := (rv_shown s)\<lparr>sh_ready := False\<rparr>, rv_firstLoaded := False, rv_revealScheduled := False\<rparr>))"

text \<open>The microtask of the effect.\<close>

definition startQueued :: "nat \<Rightarrow> bool \<Rightarrow> browserFeatures \<Rightarrow> readerView \<Rightarrow> readerView" where
  "startQueued r container browser s =
    (if r \<in> set (rv_queued s) then initReader r container browser (s\<lparr>rv_queued := removeAll r (rv_queued s)\<rparr>) else s)"

definition scriptDone :: "nat \<Rightarrow> ustring + unit \<Rightarrow> readerView \<Rightarrow> readerView" where
  "scriptDone r answer s =
    (case answer of
       Inl message \<Rightarrow> failInit message s
     | Inr _ \<Rightarrow> if rv_destroyed s then s else waitAt r WaitRect (s\<lparr>rv_container := [r], rv_view := Some r\<rparr>))"

definition rectDone :: "nat \<Rightarrow> readerView \<Rightarrow> readerView" where
  "rectDone r s0 =
    (let s = s0\<lparr>rv_listening := r # rv_listening s0\<rparr> in
     if rv_destroyed s then s
     else case rv_prefetch s of
       Some k \<Rightarrow> waitAt r (WaitFile k) s
     | None \<Rightarrow> waitAt r (WaitFile (rv_downloads s)) (s\<lparr>rv_controller := Some (rv_downloads s), rv_downloads := rv_downloads s + 1\<rparr>))"

definition fileDone :: "nat \<Rightarrow> ustring + unit \<Rightarrow> readerView \<Rightarrow> readerView" where
  "fileDone r answer s =
    (case answer of
       Inl message \<Rightarrow> failInit message s
     | Inr _ \<Rightarrow> if rv_destroyed s then s else waitAt r (if rv_progressLoading s then WaitProgress else WaitOpen) s)"

definition progressDone :: "nat \<Rightarrow> readerView \<Rightarrow> readerView" where
  "progressDone r s = (if rv_destroyed s then s else waitAt r WaitOpen s)"

definition savedTarget :: "readerProgress option \<Rightarrow> target" where
  "savedTarget p = (case p of Some q \<Rightarrow> if rp_cfi q = [] then StartOfBook else AtCfi (rp_cfi q) | None \<Rightarrow> StartOfBook)"

text \<open>The message of a book that cannot be opened.\<close>

definition openFailure :: "ustring \<Rightarrow> ustring" where
  "openFailure message =
    (if mentions message (js ''external'') \<or> mentions message (js ''permission'')
     then [25171, 24320, 20070, 31821, 22833, 36133, 65306, 35831, 20801, 35768, 35775, 38382, 25991, 20214, 65292, 25110, 23581, 35797, 20351,
       29992, 32, 67, 104, 114, 111, 109, 101, 32, 27983, 35272, 22120]
     else [25171, 24320, 20070, 31821, 22833, 36133, 65306] @ message)"

definition openDone :: "nat \<Rightarrow> ustring + unit \<Rightarrow> readerView \<Rightarrow> readerView" where
  "openDone r answer s =
    (case answer of
       Inl message \<Rightarrow> failInit (openFailure message) s
     | Inr _ \<Rightarrow>
        if rv_destroyed s then s
        else waitAt r WaitGoTo (s\<lparr>rv_applied := Option.bind (rv_progress s) rp_updated_at,
          rv_goTo := rv_goTo s @ [(r, savedTarget (rv_progress s))]\<rparr>))"

definition finishInit :: "readerView \<Rightarrow> readerView" where
  "finishInit s = (if rv_destroyed s then s else s\<lparr>rv_shown := (rv_shown s)\<lparr>sh_ready := True, sh_loading := False\<rparr>\<rparr>)"

definition goToDone :: "nat \<Rightarrow> ustring + unit \<Rightarrow> readerView \<Rightarrow> readerView" where
  "goToDone r answer s =
    (case answer of Inl message \<Rightarrow> if rv_firstLoaded s then finishInit s else failInit message s | Inr _ \<Rightarrow> finishInit s)"

section \<open>Events of the view\<close>

definition loadEvent :: "nat \<Rightarrow> metaValue \<Rightarrow> metaValue \<Rightarrow> readerView \<Rightarrow> readerView" where
  "loadEvent r title author s =
    (if r \<notin> set (rv_listening s) \<or> rv_destroyed s \<or> rv_view s = None then s
     else
      (let t = s\<lparr>rv_shown := (rv_shown s)\<lparr>sh_title := normalizeMetadataText title, sh_author := normalizeMetadataText author\<rparr>,
         rv_firstLoaded := True\<rparr> in
       if rv_revealScheduled t then t else t\<lparr>rv_revealScheduled := True, rv_frames := rv_frames t + 1\<rparr>))"

definition revealFrame :: "readerView \<Rightarrow> readerView" where
  "revealFrame s0 =
    (if rv_frames s0 = 0 then s0
     else
      (let s = s0\<lparr>rv_frames := rv_frames s0 - 1\<rparr> in
       if rv_destroyed s \<or> \<not> rv_firstLoaded s then s
       else s\<lparr>rv_shown := (rv_shown s)\<lparr>sh_ready := True, sh_loading := False\<rparr>\<rparr>))"

record relocation =
  rl_cfi :: ustring
  rl_fraction :: real
  rl_toc :: "(ustring \<times> ustring) option"
  rl_pages :: "jsnum option"
  rl_pageNumber :: "jsnum option"
  rl_pageItem :: "ustring option"
  rl_location :: "real option"

text \<open>\<^verbatim>\<open>Number(((fraction || 0) * 100).toFixed(2))\<close>\<close>

definition toPercentage :: "real \<Rightarrow> real" where
  "toPercentage fraction = real_of_int \<lfloor>fraction * 100 * 100 + 1 / 2\<rfloor> / 100"

definition relocateEvent :: "nat \<Rightarrow> relocation \<Rightarrow> readerView \<Rightarrow> readerView" where
  "relocateEvent r d s =
    (if r \<notin> set (rv_listening s) \<or> rv_destroyed s \<or> rv_view s = None then s
     else
      (let pct = toPercentage (rl_fraction d);
           shown1 = (rv_shown s)\<lparr>sh_percentage := pct\<rparr>;
           shown2 = (if rl_cfi d = [] then shown1 else shown1\<lparr>sh_cfi := rl_cfi d\<rparr>);
           shown3 = (case rl_toc d of Some (label, href) \<Rightarrow> if label = [] then shown2 else shown2\<lparr>sh_chapter := label, sh_chapterHref := href\<rparr>
             | None \<Rightarrow> shown2) in
       s\<lparr>rv_shown := shown3\<lparr>sh_page := updatePageLabel (rl_pages d) (rl_pageNumber d) (rl_pageItem d) (rl_location d)\<rparr>, rv_saved := rv_saved s @ (if rl_cfi d = [] then [] else [(rl_cfi d, pct)])\<rparr>))"

text \<open>A new value of the reading progress; an empty position is filled from it.\<close>

definition progressChanged :: "readerProgress option \<Rightarrow> bool \<Rightarrow> readerView \<Rightarrow> readerView" where
  "progressChanged p loading s = s\<lparr>rv_progress := p, rv_progressLoading := loading\<rparr>"

definition fillPosition :: "readerView \<Rightarrow> readerView" where
  "fillPosition s =
    (case rv_progress s of
       Some p \<Rightarrow> if sh_cfi (rv_shown s) = [] \<and> rp_cfi p \<noteq> []
         then s\<lparr>rv_shown := (rv_shown s)\<lparr>sh_cfi := rp_cfi p, sh_percentage := rp_percentage p\<rparr>\<rparr> else s
     | None \<Rightarrow> s)"

text \<open>A position from another device.\<close>

definition remoteEffect :: "readerView \<Rightarrow> readerView" where
  "remoteEffect s =
    (case rv_progress s of
       None \<Rightarrow> s
     | Some p \<Rightarrow>
        (if \<not> sh_ready (rv_shown s) \<or> \<not> rp_remote p \<or> rp_updated_at p \<in> {None, Some []} \<or> rp_cfi p = [] \<or> rv_applied s = rp_updated_at p then s
         else s\<lparr>rv_applied := rp_updated_at p,
           rv_goTo := rv_goTo s @ (case rv_view s of Some v \<Rightarrow> [(v, AtCfi (rp_cfi p))] | None \<Rightarrow> [])\<rparr>))"

section \<open>Steps\<close>

datatype readerEvent =
    RunEffects ustring bool
  | StartQueued nat bool browserFeatures
  | Continue nat "ustring + unit"
  | ViewLoaded nat metaValue metaValue
  | RevealFrame
  | Relocated nat relocation
  | ProgressChanged "readerProgress option" bool
  | FillPosition
  | RemoteEffect

definition continueRun :: "nat \<Rightarrow> ustring + unit \<Rightarrow> readerView \<Rightarrow> readerView" where
  "continueRun r answer s =
    (case map_of (rv_runs s) r of
       None \<Rightarrow> s
     | Some st \<Rightarrow>
        (let t = s\<lparr>rv_runs := filter (\<lambda>(q, _). q \<noteq> r) (rv_runs s)\<rparr> in
         case st of
           WaitScript \<Rightarrow> scriptDone r answer t
         | WaitRect \<Rightarrow> rectDone r t
         | WaitFile k \<Rightarrow> fileDone r answer t
         | WaitProgress \<Rightarrow> progressDone r t
         | WaitOpen \<Rightarrow> openDone r answer t
         | WaitGoTo \<Rightarrow> goToDone r answer t))"

fun reader_step :: "readerEvent \<Rightarrow> readerView \<Rightarrow> readerView" where
  "reader_step (RunEffects bookId authed) s = runEffects bookId authed s"
| "reader_step (StartQueued r container e) s = startQueued r container e s"
| "reader_step (Continue r answer) s = continueRun r answer s"
| "reader_step (ViewLoaded r title author) s = loadEvent r title author s"
| "reader_step RevealFrame s = revealFrame s"
| "reader_step (Relocated r d) s = relocateEvent r d s"
| "reader_step (ProgressChanged p loading) s = progressChanged p loading s"
| "reader_step FillPosition s = fillPosition s"
| "reader_step RemoteEffect s = remoteEffect s"

definition reader_run :: "readerEvent list \<Rightarrow> readerView \<Rightarrow> readerView" where
  "reader_run es s = fold reader_step es s"

definition reader_init :: "readerProgress option \<Rightarrow> bool \<Rightarrow> readerView" where
  "reader_init p loading =
    \<lparr>rv_shown = \<lparr>sh_loading = True, sh_ready = False, sh_error = None, sh_title = [], sh_author = [],
       sh_cfi = (case p of Some q \<Rightarrow> rp_cfi q | None \<Rightarrow> []), sh_percentage = (case p of Some q \<Rightarrow> rp_percentage q | None \<Rightarrow> 0),
       sh_chapter = [], sh_chapterHref = [], sh_page = NoPage\<rparr>,
     rv_bookId = [], rv_authed = False, rv_destroyed = False, rv_view = None, rv_container = [], rv_queued = [], rv_runs = [],
     rv_nextRun = 0, rv_listening = [], rv_downloads = 0, rv_prefetch = None, rv_controller = None, rv_aborted = [],
     rv_firstLoaded = False, rv_revealScheduled = False, rv_frames = 0, rv_progress = p, rv_progressLoading = loading,
     rv_applied = None, rv_saved = [], rv_goTo = []\<rparr>"

section \<open>Leaving the reader\<close>

definition modern :: browserFeatures where
  "modern = \<lparr>bf_customElements = True, bf_iframes = True, bf_ranges = True\<rparr>"

text \<open>A browser that is refused misses a feature.\<close>

lemma compatible_iff: "getReaderCompatibilityError b = None \<longleftrightarrow> b = modern"
  by (cases b) (auto simp: getReaderCompatibilityError_def featureNames_def modern_def Let_def)

lemma modern_compatible [simp]: "getReaderCompatibilityError modern = None"
  by (simp add: compatible_iff)

text \<open>What can still happen once the hook is unmounted: its effects no longer run.\<close>

fun late :: "readerEvent \<Rightarrow> bool" where
  "late (StartQueued r container e) = True"
| "late (Continue r answer) = True"
| "late (ViewLoaded r title author) = True"
| "late RevealFrame = True"
| "late (Relocated r d) = True"
| "late e = False"

lemmas run_defs = scriptDone_def rectDone_def fileDone_def progressDone_def openDone_def goToDone_def failInit_def finishInit_def waitAt_def Let_def

definition silent :: "readerView \<Rightarrow> readerView \<Rightarrow> bool" where
  "silent s t \<longleftrightarrow> rv_shown t = rv_shown s \<and> rv_saved t = rv_saved s \<and> rv_goTo t = rv_goTo s \<and> rv_aborted t = rv_aborted s \<and>
     rv_destroyed t \<and> rv_view t = None \<and> rv_container t = []"

lemma continue_silent: "rv_destroyed s \<Longrightarrow> rv_view s = None \<Longrightarrow> rv_container s = [] \<Longrightarrow> silent s (continueRun r answer s)"
  by (auto simp: continueRun_def run_defs silent_def split: option.splits stage.splits sum.splits)

lemma step_silent:
  assumes "rv_destroyed s" and "rv_view s = None" and "rv_container s = []" and "late e"
  shows "silent s (reader_step e s)"
  using assms
  by (cases e) (simp_all add: continue_silent, simp_all add: silent_def startQueued_def initReader_def loadEvent_def revealFrame_def relocateEvent_def Let_def)

lemma run_silent:
  assumes "silent s t" and "list_all late es"
  shows "silent s (reader_run es t)"
  using assms
proof (induction es arbitrary: t)
  case (Cons e es)
  then have "silent t (reader_step e t)" by (intro step_silent) (simp_all add: silent_def)
  then have "silent s (reader_step e t)" using Cons.prems(1) by (simp add: silent_def)
  then show ?case using Cons by (simp add: reader_run_def)
qed (simp add: reader_run_def)

lemma leave_silent:
  assumes "rv_authed s"
  shows "rv_shown (leaveReader s) = rv_shown s \<and> rv_saved (leaveReader s) = rv_saved s \<and> rv_goTo (leaveReader s) = rv_goTo s \<and>
    rv_destroyed (leaveReader s) \<and> rv_view (leaveReader s) = None \<and> rv_container (leaveReader s) = [] \<and>
    (\<forall>k. rv_controller s = Some k \<longrightarrow> k \<in> set (rv_aborted (leaveReader s)))"
  using assms by (auto simp: leaveReader_def cleanupReader_def abortDownload_def split: option.splits)

text \<open>
  \<^bold>\<open>C35\<close> (leaving the reader is final). Once the reader is left, whatever was under way goes on to its end without effect:
  answers to the opening of a book, events of the view and scheduled frames, in any order, show nothing, store no
  position, turn no page and put no view on the page; and the download that was running is aborted.
\<close>

theorem leaving_reader_is_final:
  assumes "rv_authed s" and "list_all late es"
  shows "let t = reader_run es (leaveReader s) in
    rv_shown t = rv_shown s \<and> rv_saved t = rv_saved s \<and> rv_goTo t = rv_goTo s \<and> rv_view t = None \<and> rv_container t = [] \<and>
    (\<forall>k. rv_controller s = Some k \<longrightarrow> k \<in> set (rv_aborted t))"
proof -
  note l = leave_silent [OF assms(1)]
  then have "silent (leaveReader s) (reader_run es (leaveReader s))" using assms(2) by (intro run_silent) (simp_all add: silent_def)
  then show ?thesis using l by (simp add: silent_def Let_def)
qed

text \<open>A book that is being opened when the reader is left, and an answer and an event that come too late.\<close>

definition opened_book :: readerView where
  "opened_book = reader_run [RunEffects (js ''a'') True, StartQueued 0 True modern, Continue 0 (Inr ()), Continue 0 (Inr ())] (reader_init None False)"

theorem leaving_reader_is_final_witness:
  "let t = reader_run [Continue 0 (Inr ()), Relocated 0 \<lparr>rl_cfi = js ''x'', rl_fraction = 1 / 2, rl_toc = None, rl_pages = None, rl_pageNumber = None, rl_pageItem = None, rl_location = None\<rparr>] (leaveReader opened_book) in
   rv_shown t = rv_shown opened_book \<and> rv_saved t = rv_saved opened_book \<and> rv_goTo t = rv_goTo opened_book \<and> rv_view t = None \<and> rv_container t = [] \<and>
   (\<forall>k. rv_controller opened_book = Some k \<longrightarrow> k \<in> set (rv_aborted t))"
proof (rule leaving_reader_is_final)
  show "rv_authed opened_book"
    by (simp add: opened_book_def reader_run_def reader_init_def runEffects_def leaveReader_def prefetchEffect_def startEffect_def
        startQueued_def initReader_def continueRun_def run_defs)
qed simp

section \<open>Opening a book comes to an end\<close>

fun withContainer :: "readerEvent \<Rightarrow> bool" where
  "withContainer (StartQueued r container e) = container"
| "withContainer e = True"

definition working :: "readerView \<Rightarrow> bool" where
  "working s \<longleftrightarrow> (rv_authed s \<and> \<not> rv_destroyed s \<and> sh_loading (rv_shown s) \<longrightarrow> rv_queued s \<noteq> [] \<or> rv_runs s \<noteq> [])"

lemma working_continue: "working s \<Longrightarrow> working (continueRun r answer s)"
  by (auto simp: continueRun_def run_defs working_def split: option.splits stage.splits sum.splits)

lemma working_step:
  assumes "working s" and "withContainer e"
  shows "working (reader_step e s)"
proof (cases e)
  case (RunEffects b a)
  then show ?thesis
    by (auto simp: runEffects_def leaveReader_def cleanupReader_def abortDownload_def prefetchEffect_def startEffect_def working_def
        split: option.splits)
next
  case (StartQueued r container err)
  then show ?thesis
    using assms by (auto simp: startQueued_def initReader_def failInit_def waitAt_def working_def split: option.splits)
next
  case (Relocated r d)
  then show ?thesis using assms by (auto simp: relocateEvent_def working_def Let_def split: option.splits)
next
  case (ViewLoaded r t a)
  then show ?thesis using assms by (auto simp: loadEvent_def working_def Let_def)
next
  case RevealFrame
  then show ?thesis using assms by (auto simp: revealFrame_def working_def Let_def)
next
  case FillPosition
  then show ?thesis using assms by (auto simp: fillPosition_def working_def split: option.splits)
next
  case RemoteEffect
  then show ?thesis using assms by (auto simp: remoteEffect_def working_def split: option.splits)
next
  case (ProgressChanged p l)
  then show ?thesis using assms by (simp add: progressChanged_def working_def)
qed (use assms working_continue in simp)

lemma working_run: "working s \<Longrightarrow> list_all withContainer es \<Longrightarrow> working (reader_run es s)"
  unfolding reader_run_def by (induction es arbitrary: s) (simp_all add: working_step)



section \<open>Smaller facts\<close>

lemma page_label_bounds: "updatePageLabel pages page label location = PageOf c t \<Longrightarrow> 1 \<le> c \<and> c \<le> t"
  by (auto simp: updatePageLabel_def split: option.splits jsnum.splits if_splits)

text \<open>A failed load of the engine is tried again, a load in progress is shared.\<close>

lemma engine_load_retried:
  "\<not> sl_registered s \<Longrightarrow> fst (ensureFoliateScript s) = Waiting p \<Longrightarrow>
     fst (ensureFoliateScript (snd (ensureFoliateScript s))) = Waiting p \<and>
     fst (ensureFoliateScript (scriptSettled p False (snd (ensureFoliateScript s)))) = Waiting (sl_next (snd (ensureFoliateScript s)))"
  by (auto simp: ensureFoliateScript_def scriptSettled_def split: option.splits)

text \<open>A position from another device is opened once.\<close>

lemma remote_position_once: "rv_goTo (remoteEffect (remoteEffect s)) = rv_goTo (remoteEffect s)"
  by (auto simp: remoteEffect_def split: option.splits)

text \<open>
  Runs of the effect share the reference \<^verbatim>\<open>destroyedRef\<close>. When the effects run again for another book while a run still waits
  for the download of the first, the aborted download fails that run after the reference was reset, and its error is
  shown for the second book, which opens all the same.
\<close>

lemma stale_run_shows_error:
  "let s = reader_run (RunEffects (js ''a'') True # StartQueued 0 True modern # replicate 2 (Continue 0 (Inr ()))
       @ RunEffects (js ''b'') True # StartQueued 1 True modern # Continue 0 (Inl (js ''AbortError'')) # replicate 5 (Continue 1 (Inr ())))
       (reader_init None False) in
   0 \<in> set (rv_aborted s) \<and> sh_ready (rv_shown s) \<and> sh_error (rv_shown s) = Some (js ''AbortError'')"
  by (simp add: numeral_eq_Suc reader_run_def reader_init_def runEffects_def leaveReader_def cleanupReader_def abortDownload_def
      prefetchEffect_def startEffect_def startQueued_def initReader_def continueRun_def run_defs)

end
