(* ===== verification/Image_Zoom.thy ===== *)
theory Image_Zoom
  imports Prelude
begin

text \<open>
  \<^verbatim>\<open>hooks/useReaderImageZoom.ts\<close>, the zoom of \<^verbatim>\<open>lib/reader-page.ts\<close> and the handlers of
  \<^verbatim>\<open>components/reader/ReaderImageZoomOverlay.tsx\<close>: an image of the book is shown alone, and is zoomed and moved by mouse,
  wheel and fingers. Coordinates are reals; the size of the window is the parameter \<open>win\<close>. The component is drawn again
  between two events, so a handler sees the state the events before it left. Events reach the overlay only while an
  image is shown. Shown here: the zoom stays within its limits, gestures never outlive their fingers, and what lies
  under the fingers stays under them.
\<close>

section \<open>Zooming at a point\<close>

record zoomState =
  zs_scale :: real
  zs_x :: real
  zs_y :: real

record point =
  pt_x :: real
  pt_y :: real

definition READER_MIN_IMAGE_SCALE :: real where
  "READER_MIN_IMAGE_SCALE = 1"

definition READER_MAX_IMAGE_SCALE :: real where
  "READER_MAX_IMAGE_SCALE = 5"

definition clamp :: "real \<Rightarrow> real \<Rightarrow> real \<Rightarrow> real" where
  "clamp v low high = min (max v low) high"

definition getZoomedState :: "point \<Rightarrow> zoomState \<Rightarrow> real \<Rightarrow> real \<Rightarrow> real \<Rightarrow> zoomState" where
  "getZoomedState win state nextScale clientX clientY =
    (let scale = clamp nextScale READER_MIN_IMAGE_SCALE READER_MAX_IMAGE_SCALE;
         focusX = clientX - pt_x win / 2;
         focusY = clientY - pt_y win / 2;
         ratio = scale / zs_scale state in
     \<lparr>zs_scale = scale, zs_x = focusX - (focusX - zs_x state) * ratio, zs_y = focusY - (focusY - zs_y state) * ratio\<rparr>)"

section \<open>State and handlers\<close>

record imageDrag =
  dr_pointerId :: nat
  dr_start :: point
  dr_originX :: real
  dr_originY :: real

record imageGesture =
  ge_distance :: real
  ge_center :: point
  ge_state :: zoomState

record imageTap =
  tp_time :: real
  tp_at :: point

record imageZoomHook =
  iz_image :: "(ustring \<times> ustring) option"
  iz_zoom :: zoomState
  iz_interacting :: bool
  iz_pointers :: "(nat, point) omap"
  iz_drag :: "imageDrag option"
  iz_gesture :: "imageGesture option"
  iz_lastTap :: "imageTap option"

definition unzoomed :: zoomState where
  "unzoomed = \<lparr>zs_scale = 1, zs_x = 0, zs_y = 0\<rparr>"

definition useReaderImageZoom :: imageZoomHook where
  "useReaderImageZoom = \<lparr>iz_image = None, iz_zoom = unzoomed, iz_interacting = False, iz_pointers = [], iz_drag = None, iz_gesture = None,
     iz_lastTap = None\<rparr>"

definition handleImageOpen :: "ustring \<times> ustring \<Rightarrow> imageZoomHook \<Rightarrow> imageZoomHook" where
  "handleImageOpen img s = s\<lparr>iz_zoom := unzoomed, iz_interacting := False, iz_image := Some img\<rparr>"

definition handleImageClose :: "imageZoomHook \<Rightarrow> imageZoomHook" where
  "handleImageClose s = s\<lparr>iz_image := None, iz_zoom := unzoomed, iz_interacting := False, iz_pointers := [], iz_drag := None,
     iz_gesture := None, iz_lastTap := None\<rparr>"

definition toggleImageZoom :: "point \<Rightarrow> point \<Rightarrow> imageZoomHook \<Rightarrow> imageZoomHook" where
  "toggleImageZoom win p s =
    s\<lparr>iz_zoom := (if 1.05 < zs_scale (iz_zoom s) then unzoomed else getZoomedState win (iz_zoom s) 2.5 (pt_x p) (pt_y p))\<rparr>"

definition hypot :: "point \<Rightarrow> point \<Rightarrow> real" where
  "hypot p q = sqrt ((pt_x q - pt_x p)\<^sup>2 + (pt_y q - pt_y p)\<^sup>2)"

definition center :: "point \<Rightarrow> point \<Rightarrow> point" where
  "center p q = \<lparr>pt_x = (pt_x p + pt_x q) / 2, pt_y = (pt_y p + pt_y q) / 2\<rparr>"

definition dragFrom :: "nat \<Rightarrow> point \<Rightarrow> zoomState \<Rightarrow> imageDrag" where
  "dragFrom i p z = \<lparr>dr_pointerId = i, dr_start = p, dr_originX = zs_x z, dr_originY = zs_y z\<rparr>"

definition handleImagePointerDown :: "nat \<Rightarrow> point \<Rightarrow> imageZoomHook \<Rightarrow> imageZoomHook" where
  "handleImagePointerDown i p s0 =
    (let s = s0\<lparr>iz_interacting := True, iz_pointers := mapSet i p (iz_pointers s0)\<rparr> in
     case map snd (iz_pointers s) of
       [first, second] \<Rightarrow>
         s\<lparr>iz_gesture := Some \<lparr>ge_distance = hypot first second, ge_center = center first second, ge_state = iz_zoom s\<rparr>, iz_drag := None\<rparr>
     | _ \<Rightarrow> if 1 < zs_scale (iz_zoom s) then s\<lparr>iz_drag := Some (dragFrom i p (iz_zoom s))\<rparr> else s)"

definition pinched :: "point \<Rightarrow> imageGesture \<Rightarrow> point \<Rightarrow> point \<Rightarrow> zoomState" where
  "pinched win g first second =
    (let c = center first second;
         next = getZoomedState win (ge_state g) (zs_scale (ge_state g) * (hypot first second / max (ge_distance g) 1))
           (pt_x (ge_center g)) (pt_y (ge_center g)) in
     next\<lparr>zs_x := zs_x next + pt_x c - pt_x (ge_center g), zs_y := zs_y next + pt_y c - pt_y (ge_center g)\<rparr>)"

definition dragged :: "imageDrag \<Rightarrow> point \<Rightarrow> zoomState \<Rightarrow> zoomState" where
  "dragged d p z = z\<lparr>zs_x := dr_originX d + pt_x p - pt_x (dr_start d), zs_y := dr_originY d + pt_y p - pt_y (dr_start d)\<rparr>"

definition handleImagePointerMove :: "point \<Rightarrow> nat \<Rightarrow> point \<Rightarrow> imageZoomHook \<Rightarrow> imageZoomHook" where
  "handleImagePointerMove win i p s0 =
    (if \<not> mapHas (iz_pointers s0) i then s0
     else
      (let s = s0\<lparr>iz_pointers := mapSet i p (iz_pointers s0)\<rparr>;
           byDrag = (case iz_drag s of
             Some d \<Rightarrow> if dr_pointerId d = i then s\<lparr>iz_zoom := dragged d p (iz_zoom s)\<rparr> else s
           | None \<Rightarrow> s) in
       case (iz_gesture s, map snd (iz_pointers s)) of
         (Some g, first # second # _) \<Rightarrow> s\<lparr>iz_zoom := pinched win g first second\<rparr>
       | _ \<Rightarrow> byDrag))"

definition movedAway :: "imageDrag option \<Rightarrow> point \<Rightarrow> bool" where
  "movedAway drag p = (case drag of Some d \<Rightarrow> 8 < \<bar>pt_x p - pt_x (dr_start d)\<bar> \<or> 8 < \<bar>pt_y p - pt_y (dr_start d)\<bar> | None \<Rightarrow> False)"

definition isDoubleTap :: "real \<Rightarrow> point \<Rightarrow> imageTap option \<Rightarrow> bool" where
  "isDoubleTap now p lastTap = (case lastTap of Some t \<Rightarrow> now - tp_time t < 320 \<and> hypot (tp_at t) p < 32 | None \<Rightarrow> False)"

definition handleImagePointerEnd :: "point \<Rightarrow> real \<Rightarrow> nat \<Rightarrow> point \<Rightarrow> imageZoomHook \<Rightarrow> imageZoomHook" where
  "handleImagePointerEnd win now i p s0 =
    (let pointers = mapDelete i (iz_pointers s0);
         s = s0\<lparr>iz_pointers := pointers, iz_interacting := pointers \<noteq> [], iz_gesture := None,
           iz_drag := (case pointers of [(j, q)] \<Rightarrow> if 1 < zs_scale (iz_zoom s0) then Some (dragFrom j q (iz_zoom s0)) else None | _ \<Rightarrow> None)\<rparr> in
     if movedAway (iz_drag s0) p \<or> iz_gesture s0 \<noteq> None \<or> pointers \<noteq> [] then s
     else if isDoubleTap now p (iz_lastTap s) then toggleImageZoom win p (s\<lparr>iz_lastTap := None\<rparr>)
     else s\<lparr>iz_lastTap := Some \<lparr>tp_time = now, tp_at = p\<rparr>\<rparr>)"

definition handleWheel :: "point \<Rightarrow> real \<Rightarrow> point \<Rightarrow> imageZoomHook \<Rightarrow> imageZoomHook" where
  "handleWheel win deltaY p s =
    s\<lparr>iz_zoom := getZoomedState win (iz_zoom s) (zs_scale (iz_zoom s) * exp (- deltaY * 0.0015)) (pt_x p) (pt_y p)\<rparr>"

section \<open>The overlay\<close>

text \<open>A click comes with its number in a series of clicks.\<close>

datatype zoomEvent =
    OpenImage "ustring \<times> ustring"
  | CloseImage
  | EscapeKey
  | SurfaceClick nat point
  | SurfaceDoubleClick point
  | PointerDown nat point
  | PointerMove nat point
  | PointerEnd real nat point
  | Wheel real point

fun surface :: "point \<Rightarrow> zoomEvent \<Rightarrow> imageZoomHook \<Rightarrow> imageZoomHook" where
  "surface win (OpenImage img) s = handleImageOpen img s"
| "surface win CloseImage s = handleImageClose s"
| "surface win EscapeKey s = handleImageClose s"
| "surface win (SurfaceClick n p) s = (if 2 \<le> n then toggleImageZoom win p s else s)"
| "surface win (SurfaceDoubleClick p) s = toggleImageZoom win p s"
| "surface win (PointerDown i p) s = handleImagePointerDown i p s"
| "surface win (PointerMove i p) s = handleImagePointerMove win i p s"
| "surface win (PointerEnd now i p) s = handleImagePointerEnd win now i p s"
| "surface win (Wheel d p) s = handleWheel win d p s"

fun opensImage :: "zoomEvent \<Rightarrow> bool" where
  "opensImage (OpenImage img) = True"
| "opensImage e = False"

definition zoom_step :: "point \<Rightarrow> zoomEvent \<Rightarrow> imageZoomHook \<Rightarrow> imageZoomHook" where
  "zoom_step win e s = (if iz_image s = None \<and> \<not> opensImage e then s else surface win e s)"

definition zoom_run :: "point \<Rightarrow> zoomEvent list \<Rightarrow> imageZoomHook" where
  "zoom_run win es = fold (zoom_step win) es useReaderImageZoom"

section \<open>Limits, and gestures with their fingers\<close>

definition in_limits :: "zoomState \<Rightarrow> bool" where
  "in_limits z \<longleftrightarrow> 1 \<le> zs_scale z \<and> zs_scale z \<le> 5"

definition with_fingers :: "imageZoomHook \<Rightarrow> bool" where
  "with_fingers s \<longleftrightarrow>
     (\<forall>g. iz_gesture s = Some g \<longrightarrow> 2 \<le> length (iz_pointers s) \<and> in_limits (ge_state g)) \<and>
     (\<forall>d. iz_drag s = Some d \<longrightarrow> mapHas (iz_pointers s) (dr_pointerId d)) \<and>
     (iz_interacting s \<longrightarrow> iz_pointers s \<noteq> []) \<and>
     (iz_image s = None \<longrightarrow> s = useReaderImageZoom)"

lemma zoomed_in_limits [simp]: "in_limits (getZoomedState win z n x y)"
  by (simp add: in_limits_def getZoomedState_def clamp_def READER_MIN_IMAGE_SCALE_def READER_MAX_IMAGE_SCALE_def Let_def)

lemma moved_in_limits [simp]: "in_limits (z\<lparr>zs_x := x, zs_y := y\<rparr>) = in_limits z"
  by (simp add: in_limits_def)

lemma unzoomed_in_limits [simp]: "in_limits unzoomed"
  by (simp add: in_limits_def unzoomed_def)

lemma mapSet_length: "length m \<le> length (mapSet k v m)"
  by (induction m) auto

lemma mapSet_nonempty [simp]: "mapSet k v m \<noteq> []"
  by (cases m) auto

text \<open>The steps keep both.\<close>

lemma toggle_keeps:
  "in_limits (iz_zoom s) \<Longrightarrow> in_limits (iz_zoom (toggleImageZoom win p s))"
  "with_fingers s \<Longrightarrow> iz_image s \<noteq> None \<Longrightarrow> with_fingers (toggleImageZoom win p s)"
  by (auto simp: toggleImageZoom_def with_fingers_def)

lemma down_keeps:
  assumes "in_limits (iz_zoom s)" and "with_fingers s" and "iz_image s \<noteq> None"
  shows "in_limits (iz_zoom (handleImagePointerDown i p s)) \<and> with_fingers (handleImagePointerDown i p s)"
proof -
  have len: "2 \<le> length (iz_pointers s) \<Longrightarrow> 2 \<le> length (mapSet i p (iz_pointers s))"
    using mapSet_length [of "iz_pointers s" i p] by simp
  have "map snd m = [f, g] \<Longrightarrow> 2 \<le> length m" for m :: "(nat, point) omap" and f g by (metis length_map length_Cons list.size(3) One_nat_def Suc_1 order_refl)
  then show ?thesis
    using assms len by (auto simp: handleImagePointerDown_def with_fingers_def dragFrom_def Let_def split: list.splits)
qed

lemma move_keeps:
  assumes "in_limits (iz_zoom s)" and "with_fingers s" and "iz_image s \<noteq> None"
  shows "in_limits (iz_zoom (handleImagePointerMove win i p s)) \<and> with_fingers (handleImagePointerMove win i p s)"
proof -
  have "2 \<le> length (iz_pointers s) \<Longrightarrow> 2 \<le> length (mapSet i p (iz_pointers s))"
    using mapSet_length [of "iz_pointers s" i p] by simp
  then show ?thesis
    using assms
    by (auto simp: handleImagePointerMove_def with_fingers_def pinched_def dragged_def Let_def split: option.splits list.splits)
qed

lemma end_keeps:
  assumes "in_limits (iz_zoom s)" and "iz_image s \<noteq> None"
  shows "in_limits (iz_zoom (handleImagePointerEnd win now i p s)) \<and> with_fingers (handleImagePointerEnd win now i p s)"
proof -
  define m where "m = mapDelete i (iz_pointers s)"
  define t where "t = s\<lparr>iz_pointers := m, iz_interacting := m \<noteq> [], iz_gesture := None,
    iz_drag := (case m of [(j, q)] \<Rightarrow> if 1 < zs_scale (iz_zoom s) then Some (dragFrom j q (iz_zoom s)) else None | _ \<Rightarrow> None)\<rparr>"
  have t: "in_limits (iz_zoom t)" "with_fingers t" "iz_image t \<noteq> None"
    using assms by (auto simp: t_def with_fingers_def dragFrom_def mapHas_def split: list.splits)
  then have l: "in_limits (iz_zoom (t\<lparr>iz_lastTap := l\<rparr>)) \<and> with_fingers (t\<lparr>iz_lastTap := l\<rparr>) \<and> iz_image (t\<lparr>iz_lastTap := l\<rparr>) \<noteq> None" for l
    by (auto simp: with_fingers_def)
  have "handleImagePointerEnd win now i p s =
    (if movedAway (iz_drag s) p \<or> iz_gesture s \<noteq> None \<or> m \<noteq> [] then t
     else if isDoubleTap now p (iz_lastTap t) then toggleImageZoom win p (t\<lparr>iz_lastTap := None\<rparr>)
     else t\<lparr>iz_lastTap := Some \<lparr>tp_time = now, tp_at = p\<rparr>\<rparr>)"
    by (simp add: handleImagePointerEnd_def Let_def m_def t_def)
  then show ?thesis using t l toggle_keeps [of "t\<lparr>iz_lastTap := None\<rparr>"] by simp
qed

lemma surface_keeps:
  assumes z: "in_limits (iz_zoom s)" and f: "with_fingers s" and i: "iz_image s \<noteq> None"
  shows "in_limits (iz_zoom (surface win e s)) \<and> with_fingers (surface win e s)"
proof (cases e)
  case (OpenImage img)
  then show ?thesis using f by (simp add: handleImageOpen_def with_fingers_def)
next
  case (Wheel d p)
  then show ?thesis using f i by (auto simp: handleWheel_def with_fingers_def)
next
  case (SurfaceClick n p)
  then show ?thesis using z f toggle_keeps i by simp
next
  case (SurfaceDoubleClick p)
  then show ?thesis using z f toggle_keeps i by simp
next
  case (PointerDown j p)
  then show ?thesis using down_keeps [OF z f i] by simp
next
  case (PointerMove j p)
  then show ?thesis using move_keeps [OF z f i] by simp
next
  case (PointerEnd now j p)
  then show ?thesis using end_keeps [OF z i] by simp
qed (simp_all add: handleImageClose_def with_fingers_def useReaderImageZoom_def)

lemma zoom_step_keeps:
  assumes "in_limits (iz_zoom s)" and "with_fingers s"
  shows "in_limits (iz_zoom (zoom_step win e s)) \<and> with_fingers (zoom_step win e s)"
proof (cases "iz_image s = None")
  case True
  show ?thesis
  proof (cases "opensImage e")
    case True
    then obtain img where "e = OpenImage img" by (cases e) simp_all
    then show ?thesis using assms by (auto simp: zoom_step_def handleImageOpen_def with_fingers_def)
  qed (use True assms in \<open>simp add: zoom_step_def\<close>)
next
  case False
  then show ?thesis using surface_keeps assms by (simp add: zoom_step_def)
qed

lemma zoom_run_keeps: "in_limits (iz_zoom (zoom_run win es)) \<and> with_fingers (zoom_run win es)"
proof -
  have "in_limits (iz_zoom s) \<and> with_fingers s \<Longrightarrow> in_limits (iz_zoom (fold (zoom_step win) es s)) \<and> with_fingers (fold (zoom_step win) es s)" for s
    by (induction es arbitrary: s) (simp_all add: zoom_step_keeps)
  moreover have "in_limits (iz_zoom useReaderImageZoom) \<and> with_fingers useReaderImageZoom"
    by (simp add: with_fingers_def useReaderImageZoom_def)
  ultimately show ?thesis by (simp add: zoom_run_def)
qed

text \<open>
  Zoom within limits, gestures with fingers. Whatever a reader does with mouse, wheel and fingers, in any order:
  the scale stays between 1 and 5; a pinch is under way only while two fingers are down, a drag only for a finger that is
  down, and the image counts as touched only while there is one; and after the image is closed nothing of it is left.
\<close>

lemma image_zoom_invariant:
  "let s = zoom_run win es in
   1 \<le> zs_scale (iz_zoom s) \<and> zs_scale (iz_zoom s) \<le> 5 \<and>
   (iz_gesture s \<noteq> None \<longrightarrow> 2 \<le> length (iz_pointers s)) \<and>
   (\<forall>d. iz_drag s = Some d \<longrightarrow> mapHas (iz_pointers s) (dr_pointerId d)) \<and>
   (iz_interacting s \<longrightarrow> iz_pointers s \<noteq> []) \<and>
   (iz_image s = None \<longrightarrow> s = useReaderImageZoom)"
  using zoom_run_keeps [of win es] by (auto simp: with_fingers_def in_limits_def Let_def)

lemma image_zoom_example:
  "let s = zoom_run \<lparr>pt_x = 100, pt_y = 100\<rparr> [OpenImage ([], []), SurfaceDoubleClick \<lparr>pt_x = 10, pt_y = 10\<rparr>, PointerDown 1 \<lparr>pt_x = 10, pt_y = 10\<rparr>] in
   zs_scale (iz_zoom s) \<le> 5 \<and> iz_drag s \<noteq> None \<and> (\<forall>d. iz_drag s = Some d \<longrightarrow> mapHas (iz_pointers s) (dr_pointerId d))"
proof -
  have "iz_drag (zoom_run \<lparr>pt_x = 100, pt_y = 100\<rparr>
      [OpenImage ([], []), SurfaceDoubleClick \<lparr>pt_x = 10, pt_y = 10\<rparr>, PointerDown 1 \<lparr>pt_x = 10, pt_y = 10\<rparr>]) \<noteq> None"
    by (simp add: zoom_run_def zoom_step_def useReaderImageZoom_def handleImageOpen_def toggleImageZoom_def unzoomed_def getZoomedState_def
        clamp_def READER_MIN_IMAGE_SCALE_def READER_MAX_IMAGE_SCALE_def handleImagePointerDown_def Let_def)
  then show ?thesis
    using image_zoom_invariant [of "\<lparr>pt_x = 100, pt_y = 100\<rparr>"
      "[OpenImage ([], []), SurfaceDoubleClick \<lparr>pt_x = 10, pt_y = 10\<rparr>, PointerDown 1 \<lparr>pt_x = 10, pt_y = 10\<rparr>]"]
    by (simp add: Let_def)
qed

section \<open>What lies under the fingers\<close>

text \<open>The place of the image, before scaling, that is drawn at a point of the window: the image is scaled around the
  middle of the window and then moved.\<close>

definition image_at :: "point \<Rightarrow> zoomState \<Rightarrow> point \<Rightarrow> point" where
  "image_at win z p = \<lparr>pt_x = (pt_x p - pt_x win / 2 - zs_x z) / zs_scale z, pt_y = (pt_y p - pt_y win / 2 - zs_y z) / zs_scale z\<rparr>"

lemma zoom_keeps_focus:
  assumes "zs_scale z \<noteq> 0"
  shows "image_at win (getZoomedState win z n (pt_x p) (pt_y p)) p = image_at win z p"
proof -
  have "zs_scale (getZoomedState win z n (pt_x p) (pt_y p)) \<noteq> 0"
    using zoomed_in_limits [of win z n "pt_x p" "pt_y p"] by (auto simp: in_limits_def)
  then show ?thesis using assms by (simp add: image_at_def getZoomedState_def Let_def field_simps)
qed

lemma pinch_follows:
  assumes "zs_scale (ge_state g) \<noteq> 0"
  shows "image_at win (pinched win g f h) (center f h) = image_at win (ge_state g) (ge_center g)"
proof -
  define z where "z = getZoomedState win (ge_state g) (zs_scale (ge_state g) * (hypot f h / max (ge_distance g) 1)) (pt_x (ge_center g)) (pt_y (ge_center g))"
  have "image_at win (pinched win g f h) (center f h) = image_at win z (ge_center g)"
    by (simp add: pinched_def image_at_def z_def Let_def algebra_simps)
  then show ?thesis using zoom_keeps_focus [OF assms] by (simp add: z_def)
qed

text \<open>
  \<^bold>\<open>C39\<close> (the image follows the fingers). Turning the wheel keeps the place of the image that is under the pointer where it
  is. While two fingers pinch, the place that lay between them when the pinch began lies between them now. And a
  finger that drags takes the image along by exactly its own way.
\<close>

theorem image_follows_fingers:
  assumes "s = zoom_run win es" and "iz_image s = Some img"
  shows "image_at win (iz_zoom (zoom_step win (Wheel deltaY p) s)) p = image_at win (iz_zoom s) p \<and>
    (\<forall>g f h others. iz_gesture s = Some g \<and> mapHas (iz_pointers s) i \<and> map snd (mapSet i p (iz_pointers s)) = f # h # others \<longrightarrow>
      image_at win (iz_zoom (zoom_step win (PointerMove i p) s)) (center f h) = image_at win (ge_state g) (ge_center g)) \<and>
    (\<forall>d. iz_gesture s = None \<and> iz_drag s = Some d \<longrightarrow>
      iz_zoom (zoom_step win (PointerMove (dr_pointerId d) p) s) = (iz_zoom s)\<lparr>zs_x := dr_originX d + (pt_x p - pt_x (dr_start d)),
        zs_y := dr_originY d + (pt_y p - pt_y (dr_start d))\<rparr>)"
proof (intro conjI allI impI)
  note keeps = zoom_run_keeps [of win es, folded assms(1)]
  then have scale: "zs_scale (iz_zoom s) \<noteq> 0" by (auto simp: in_limits_def)
  show "image_at win (iz_zoom (zoom_step win (Wheel deltaY p) s)) p = image_at win (iz_zoom s) p"
    using assms(2) zoom_keeps_focus [OF scale] by (simp add: zoom_step_def handleWheel_def)
  show "image_at win (iz_zoom (zoom_step win (PointerMove i p) s)) (center f h) = image_at win (ge_state g) (ge_center g)"
    if "iz_gesture s = Some g \<and> mapHas (iz_pointers s) i \<and> map snd (mapSet i p (iz_pointers s)) = f # h # others" for g f h others
  proof -
    have "zs_scale (ge_state g) \<noteq> 0" using keeps that by (auto simp: with_fingers_def in_limits_def)
    then show ?thesis using that assms(2) pinch_follows by (simp add: zoom_step_def handleImagePointerMove_def Let_def)
  qed
  show "iz_zoom (zoom_step win (PointerMove (dr_pointerId d) p) s) = (iz_zoom s)\<lparr>zs_x := dr_originX d + (pt_x p - pt_x (dr_start d)),
      zs_y := dr_originY d + (pt_y p - pt_y (dr_start d))\<rparr>"
    if "iz_gesture s = None \<and> iz_drag s = Some d" for d
    using that assms(2) keeps by (simp add: zoom_step_def handleImagePointerMove_def dragged_def with_fingers_def Let_def)
qed

definition two_fingers :: "zoomEvent list" where
  "two_fingers = [OpenImage ([], []), PointerDown 1 \<lparr>pt_x = 0, pt_y = 0\<rparr>, PointerDown 2 \<lparr>pt_x = 10, pt_y = 0\<rparr>]"

lemmas zoom_defs = zoom_run_def zoom_step_def useReaderImageZoom_def handleImageOpen_def toggleImageZoom_def unzoomed_def getZoomedState_def
  clamp_def READER_MIN_IMAGE_SCALE_def READER_MAX_IMAGE_SCALE_def handleImagePointerDown_def Let_def

theorem image_follows_fingers_witness:
  "let win = \<lparr>pt_x = 100, pt_y = 100\<rparr>; s = zoom_run win two_fingers; f = \<lparr>pt_x = 0, pt_y = 0\<rparr>; h = \<lparr>pt_x = 30, pt_y = 0\<rparr> in
   \<exists>g. iz_gesture s = Some g \<and>
     image_at win (iz_zoom (zoom_step win (PointerMove 2 h) s)) (center f h) = image_at win (ge_state g) (ge_center g)"
proof -
  define win h where w: "win = (\<lparr>pt_x = 100, pt_y = 100\<rparr> :: point)" "h = (\<lparr>pt_x = 30, pt_y = 0\<rparr> :: point)"
  let ?s = "zoom_run win two_fingers" and ?f = "\<lparr>pt_x = 0, pt_y = 0\<rparr> :: point"
  have i: "iz_image ?s = Some ([], [])" by (simp add: two_fingers_def zoom_defs)
  have p: "mapHas (iz_pointers ?s) 2" "map snd (mapSet 2 h (iz_pointers ?s)) = ?f # h # []"
    by (simp_all add: two_fingers_def zoom_defs mapHas_def)
  obtain g where g: "iz_gesture ?s = Some g" by (simp add: two_fingers_def zoom_defs)
  then have "image_at win (iz_zoom (zoom_step win (PointerMove 2 h) ?s)) (center ?f h) = image_at win (ge_state g) (ge_center g)"
    using image_follows_fingers [OF refl i, of _ h 2] p by metis
  then show ?thesis using g by (simp add: w Let_def)
qed

section \<open>Double clicks\<close>

text \<open>
  A double click reaches \<^verbatim>\<open>toggleImageZoom\<close> on three ways: as a double tap when the second release comes within 320
  milliseconds, as a second click and as a double click. A quick one toggles three times and zooms; one that takes longer,
  which browsers still count as a double click, toggles twice and so changes nothing.
\<close>

definition double_click :: "real \<Rightarrow> point \<Rightarrow> zoomEvent list" where
  "double_click time p = [PointerDown 1 p, PointerEnd 0 1 p, SurfaceClick 1 p, PointerDown 1 p, PointerEnd time 1 p, SurfaceClick 2 p, SurfaceDoubleClick p]"

lemma double_click_zoom:
  "zs_scale (iz_zoom (zoom_run win (OpenImage img # double_click time p))) = (if time < 320 then 2.5 else 1)"
  by (simp add: double_click_def zoom_defs handleImagePointerEnd_def movedAway_def isDoubleTap_def hypot_def)

text \<open>
  An image that was zoomed out again need not lie in the middle: zooming in at one place and out at another moves it,
  and at scale 1 it cannot be dragged back.
\<close>

lemma zoomed_out_off_centre:
  "getZoomedState win (getZoomedState win unzoomed 2 (pt_x win / 2 + 100) 0) 1 (pt_x win / 2) 0 = \<lparr>zs_scale = 1, zs_x = - 50, zs_y = 0\<rparr>"
  by (simp add: zoom_defs)

end
