(* ===== verification/Shelf_Grid.thy ===== *)
theory Shelf_Grid
  imports Prelude
begin

text \<open>
  \<^verbatim>\<open>lib/shelf-grid.ts\<close> and \<^verbatim>\<open>components/VirtualBookGrid.tsx\<close>: the layout of the shelf as rows of a grid, of which a
  virtual list (a parameter of the component, not modelled) draws the visible ones, and the guard that asks for more
  books when the end comes near. Widths are reals, numbers of books and columns natural numbers. Shown here: the rows
  contain every book once and in order, the columns fit, and pages are asked for one at a time.
\<close>

section \<open>Columns and rows\<close>

definition getShelfColumnCount :: "real \<Rightarrow> nat" where
  "getShelfColumnCount containerWidth =
    (if containerWidth \<le> 0 then 2
     else if containerWidth < 640 then 2
     else
      (let minCol = (if 1024 \<le> containerWidth then 192 else 176); gap = 16 in
       max 2 (nat \<lfloor>(containerWidth + gap) / (minCol + gap)\<rfloor>)))"

definition getShelfRowCount :: "nat \<Rightarrow> nat \<Rightarrow> nat" where
  "getShelfRowCount itemCount columnCount =
    (if itemCount = 0 \<or> columnCount = 0 then 0 else nat \<lceil>real itemCount / real columnCount\<rceil>)"

definition getShelfGapPx :: "real \<Rightarrow> real" where
  "getShelfGapPx containerWidth = (if containerWidth < 640 then 12 else 16)"

definition getShelfColumnWidth :: "real \<Rightarrow> nat \<Rightarrow> real \<Rightarrow> real" where
  "getShelfColumnWidth containerWidth columnCount gap =
    (if containerWidth \<le> 0 \<or> columnCount = 0 then 160
     else max 0 ((containerWidth - gap * (real columnCount - 1)) / real columnCount))"

definition estimateShelfCardHeight :: "real \<Rightarrow> nat \<Rightarrow> int" where
  "estimateShelfCardHeight containerWidth columnCount =
    (let coverHeight = getShelfColumnWidth containerWidth columnCount (getShelfGapPx containerWidth) * (6 / 5) in
     \<lfloor>coverHeight + 156 + 1 / 2\<rfloor>)"

definition estimateShelfRowHeight :: "real \<Rightarrow> nat \<Rightarrow> real" where
  "estimateShelfRowHeight containerWidth columnCount =
    real_of_int (estimateShelfCardHeight containerWidth columnCount) + getShelfGapPx containerWidth"

text \<open>The books of a row; \<open>shownRows\<close> are all rows for a width, which is 0 until it is measured.\<close>

definition rowItems :: "'a list \<Rightarrow> nat \<Rightarrow> nat \<Rightarrow> 'a list" where
  "rowItems items columnCount row = take columnCount (drop (row * columnCount) items)"

definition shownRows :: "'a list \<Rightarrow> real \<Rightarrow> 'a list list" where
  "shownRows items width =
    (let columnCount = getShelfColumnCount (if width = 0 then 360 else width) in
     map (rowItems items columnCount) [0..<getShelfRowCount (length items) columnCount])"

lemma columns_pos [simp]: "2 \<le> getShelfColumnCount w" "0 < getShelfColumnCount w"
  by (auto simp: getShelfColumnCount_def Let_def)

text \<open>Rounding up in integers.\<close>

lemma row_count_bounds:
  assumes "0 < c" and "0 < n"
  shows "n \<le> getShelfRowCount n c * c \<and> (getShelfRowCount n c - 1) * c < n"
proof -
  define r where "r = getShelfRowCount n c"
  have pos: "0 < real n / real c" using assms by simp
  have r: "real r = real_of_int \<lceil>real n / real c\<rceil>" using assms pos by (simp add: r_def getShelfRowCount_def)
  have "real n / real c \<le> real r" "real r < real n / real c + 1" using r by linarith+
  then have "real n \<le> real r * real c" "(real r - 1) * real c < real n" using assms by (simp_all add: field_simps)
  moreover have "1 \<le> r" using pos r by linarith
  then have "real (r - 1) = real r - 1" by simp
  ultimately have "real n \<le> real (r * c)" "real ((r - 1) * c) < real n" by simp_all
  then show ?thesis by (simp add: r_def del: of_nat_mult)
qed

lemma concat_rows:
  "concat (map (rowItems xs c) [0..<r]) = take (r * c) xs"
proof (induction r)
  case (Suc r)
  then show ?case using take_add [of "r * c" c xs] by (simp add: rowItems_def add.commute)
qed simp

lemma column_fits:
  assumes "640 \<le> w"
  shows "176 \<le> getShelfColumnWidth w (getShelfColumnCount w) (getShelfGapPx w)"
proof -
  define m where "m = (if 1024 \<le> w then 192 else 176 :: real)"
  define c where "c = getShelfColumnCount w"
  have "2 \<le> (w + 16) / (m + 16)" using assms by (simp add: m_def)
  then have "2 \<le> \<lfloor>(w + 16) / (m + 16)\<rfloor>" by (simp add: le_floor_iff)
  moreover have "c = max 2 (nat \<lfloor>(w + 16) / (m + 16)\<rfloor>)" using assms by (simp add: c_def getShelfColumnCount_def m_def Let_def)
  ultimately have "real c = real_of_int \<lfloor>(w + 16) / (m + 16)\<rfloor>" by linarith
  then have "real c \<le> (w + 16) / (m + 16)" by linarith
  moreover have "0 < m + 16" by (simp add: m_def)
  ultimately have "real c * (m + 16) \<le> w + 16" by (simp add: field_simps)
  moreover have c: "0 < real c" using columns_pos(2) [of w] by (simp add: c_def del: columns_pos)
  ultimately have "m \<le> (w - 16 * (real c - 1)) / real c" by (simp add: field_simps)
  then show ?thesis using assms c by (simp add: getShelfColumnWidth_def getShelfGapPx_def c_def [symmetric] m_def split: if_splits)
qed



section \<open>Asking for more books\<close>

record gridLoad =
  gl_canLoadMore :: bool
  gl_isLoadingMore :: bool
  gl_loadLock :: bool
  gl_lastLoadAt :: real
  gl_calls :: "real list"

definition requestLoadMore :: "real \<Rightarrow> gridLoad \<Rightarrow> gridLoad" where
  "requestLoadMore now s =
    (if \<not> gl_canLoadMore s \<or> gl_isLoadingMore s then s
     else if gl_loadLock s then s
     else if now - gl_lastLoadAt s < 400 then s
     else s\<lparr>gl_loadLock := True, gl_lastLoadAt := now, gl_calls := gl_calls s @ [now]\<rparr>)"

text \<open>New properties of the component: the references are updated, and the lock opens when \<^verbatim>\<open>isLoadingMore\<close> becomes false.\<close>

definition propsChanged :: "bool \<Rightarrow> bool \<Rightarrow> gridLoad \<Rightarrow> gridLoad" where
  "propsChanged canLoadMore isLoadingMore s =
    (let t = s\<lparr>gl_canLoadMore := canLoadMore, gl_isLoadingMore := isLoadingMore\<rparr> in
     if gl_isLoadingMore s \<noteq> isLoadingMore \<and> \<not> isLoadingMore then t\<lparr>gl_loadLock := False\<rparr> else t)"

definition resetKeyChanged :: "gridLoad \<Rightarrow> gridLoad" where
  "resetKeyChanged s = s\<lparr>gl_loadLock := False, gl_lastLoadAt := 0\<rparr>"

text \<open>The effect that fills a short list, and the observer of the end of the list.\<close>

definition fillEffect :: "nat \<Rightarrow> bool \<Rightarrow> real \<Rightarrow> gridLoad \<Rightarrow> gridLoad" where
  "fillEffect rowCount sentinelNear now s =
    (if \<not> gl_canLoadMore s \<or> gl_isLoadingMore s then s
     else if rowCount = 0 then s
     else if \<not> sentinelNear then s
     else requestLoadMore now s)"

definition observerFired :: "bool \<Rightarrow> real \<Rightarrow> gridLoad \<Rightarrow> gridLoad" where
  "observerFired intersecting now s = (if intersecting then requestLoadMore now s else s)"

datatype gridEvent = PropsChanged bool bool | FillEffect nat bool real | ObserverFired bool real

fun grid_step :: "gridEvent \<Rightarrow> gridLoad \<Rightarrow> gridLoad" where
  "grid_step (PropsChanged canLoadMore isLoadingMore) s = propsChanged canLoadMore isLoadingMore s"
| "grid_step (FillEffect rowCount near now) s = fillEffect rowCount near now s"
| "grid_step (ObserverFired intersecting now) s = observerFired intersecting now s"

text \<open>Pages are asked for at least 400 milliseconds apart, and never while one is loading.\<close>

definition spaced :: "gridLoad \<Rightarrow> bool" where
  "spaced s \<longleftrightarrow> sorted_wrt (\<lambda>x y. 400 \<le> y - x) (gl_calls s) \<and> (gl_calls s \<noteq> [] \<longrightarrow> gl_lastLoadAt s = last (gl_calls s))"

lemma request_spaced: "spaced s \<Longrightarrow> spaced (requestLoadMore now s)"
  by (cases "gl_calls s" rule: rev_cases) (auto simp: spaced_def requestLoadMore_def sorted_wrt_append; fastforce)+

lemma grid_spaced: "spaced s \<Longrightarrow> spaced (fold grid_step es s)"
proof (induction es arbitrary: s)
  case (Cons e es)
  have "spaced (grid_step e s)" using Cons.prems
  proof (cases e)
    case (PropsChanged a b)
    then show ?thesis using Cons.prems by (simp add: propsChanged_def spaced_def Let_def)
  qed (simp_all add: fillEffect_def observerFired_def request_spaced)
  then show ?case using Cons.IH by simp
qed simp

lemma no_call_while_loading: "gl_isLoadingMore s \<or> gl_loadLock s \<Longrightarrow> gl_calls (requestLoadMore now s) = gl_calls s"
  by (auto simp: requestLoadMore_def)

text \<open>
  The fill effect is meant to go on until the window is full. When a page arrives within 400 milliseconds its request is
  refused by the throttle, and nothing repeats it: the end of the list stays in view, so the observer does not fire again.
\<close>

lemma fast_page_not_followed:
  assumes "t \<le> t'" and "t' - t < 400" and "400 \<le> t"
  shows "gl_calls (fold grid_step [FillEffect 1 True t, PropsChanged True True, PropsChanged True False, FillEffect 2 True t', ObserverFired True t']
    \<lparr>gl_canLoadMore = True, gl_isLoadingMore = False, gl_loadLock = False, gl_lastLoadAt = 0, gl_calls = []\<rparr>) = [t]"
  using assms by (simp add: fillEffect_def observerFired_def requestLoadMore_def propsChanged_def Let_def)

end
