(* ===== verification/Wake_Lock.thy ===== *)
theory Wake_Lock
  imports Prelude
begin

text \<open>
  \<^verbatim>\<open>hooks/useWakeLock.ts\<close>: the lock that keeps the screen on while a book is read aloud. Requests and releases wait for the
  browser; each is cut at its \<^verbatim>\<open>await\<close>s, so calls overlap in any way, and the browser may release a lock by itself. Locks are
  numbered by the requests for them. Shown here: there is never more than one lock, and a release that ends leaves none.
\<close>

section \<open>State and operations\<close>

text \<open>A call of \<^verbatim>\<open>releaseWakeLock\<close> waits for the request it found, and then for the lock.\<close>

datatype releaseCall = AwaitPending "nat option" | AwaitRelease nat

text \<open>\<open>wk_dropping\<close> is a lock that was granted to a hidden page and is being given back; \<open>wk_held\<close> are the locks that the browser
  has granted and not released.\<close>

record wakeLock =
  wk_ref :: "nat option"
  wk_pending :: "nat option"
  wk_dropping :: "nat option"
  wk_next :: nat
  wk_releases :: "releaseCall list"
  wk_held :: "nat list"

definition useWakeLock :: wakeLock where
  "useWakeLock = \<lparr>wk_ref = None, wk_pending = None, wk_dropping = None, wk_next = 0, wk_releases = [], wk_held = []\<rparr>"

definition requestWakeLock :: "bool \<Rightarrow> wakeLock \<Rightarrow> wakeLock" where
  "requestWakeLock supported s =
    (if wk_pending s \<noteq> None then s
     else
      (let t = (case wk_ref s of Some n \<Rightarrow> if n \<notin> set (wk_held s) then s\<lparr>wk_ref := None\<rparr> else s | None \<Rightarrow> s) in
       if \<not> supported \<or> wk_ref t \<noteq> None then t
       else t\<lparr>wk_pending := Some (wk_next t), wk_next := wk_next t + 1\<rparr>))"

definition requestGranted :: "bool \<Rightarrow> wakeLock \<Rightarrow> wakeLock" where
  "requestGranted visible s =
    (case wk_pending s of
       Some n \<Rightarrow>
         if wk_dropping s \<noteq> None then s
         else
          (let t = s\<lparr>wk_held := n # wk_held s\<rparr> in
           if \<not> visible then t\<lparr>wk_dropping := Some n\<rparr> else t\<lparr>wk_ref := Some n, wk_pending := None\<rparr>)
     | None \<Rightarrow> s)"

definition requestRefused :: "wakeLock \<Rightarrow> wakeLock" where
  "requestRefused s = (if wk_pending s = None \<or> wk_dropping s \<noteq> None then s else s\<lparr>wk_pending := None\<rparr>)"

text \<open>The lock of a hidden page was given back, or that failed while the browser had released it.\<close>

definition dropDone :: "wakeLock \<Rightarrow> wakeLock" where
  "dropDone s = (case wk_dropping s of Some n \<Rightarrow> if n \<in> set (wk_held s) then s else s\<lparr>wk_dropping := None, wk_pending := None\<rparr> | None \<Rightarrow> s)"

text \<open>The browser releases a lock, and tells it to the listener.\<close>

definition lockReleased :: "nat \<Rightarrow> wakeLock \<Rightarrow> wakeLock" where
  "lockReleased n s =
    (let t = s\<lparr>wk_held := removeAll n (wk_held s)\<rparr> in if wk_ref t = Some n then t\<lparr>wk_ref := None\<rparr> else t)"

definition releaseWakeLock :: "wakeLock \<Rightarrow> wakeLock" where
  "releaseWakeLock s = s\<lparr>wk_releases := wk_releases s @ [AwaitPending (wk_pending s)]\<rparr>"

definition dropCall :: "nat \<Rightarrow> wakeLock \<Rightarrow> wakeLock" where
  "dropCall i s = s\<lparr>wk_releases := take i (wk_releases s) @ drop (i + 1) (wk_releases s)\<rparr>"

text \<open>A call goes on when what it waits for is settled.\<close>

definition continueRelease :: "nat \<Rightarrow> wakeLock \<Rightarrow> wakeLock" where
  "continueRelease i s =
    (if length (wk_releases s) \<le> i then s
     else case wk_releases s ! i of
       AwaitPending p \<Rightarrow>
         if p \<noteq> None \<and> wk_pending s = p then s
         else (case wk_ref s of None \<Rightarrow> dropCall i s | Some n \<Rightarrow> s\<lparr>wk_releases := (wk_releases s)[i := AwaitRelease n]\<rparr>)
     | AwaitRelease n \<Rightarrow>
         if n \<in> set (wk_held s) then s
         else dropCall i (if wk_ref s = Some n then s\<lparr>wk_ref := None\<rparr> else s))"

text \<open>The browser refuses to release.\<close>

definition releaseFailed :: "nat \<Rightarrow> wakeLock \<Rightarrow> wakeLock" where
  "releaseFailed i s =
    (if length (wk_releases s) \<le> i then s else case wk_releases s ! i of AwaitRelease n \<Rightarrow> dropCall i s | AwaitPending p \<Rightarrow> s)"

datatype wakeEvent = Request bool | Granted bool | Refused | DropDone | LockReleased nat | Release | ContinueRelease nat | ReleaseFailed nat

fun wake_step :: "wakeEvent \<Rightarrow> wakeLock \<Rightarrow> wakeLock" where
  "wake_step (Request supported) s = requestWakeLock supported s"
| "wake_step (Granted visible) s = requestGranted visible s"
| "wake_step Refused s = requestRefused s"
| "wake_step DropDone s = dropDone s"
| "wake_step (LockReleased n) s = lockReleased n s"
| "wake_step Release s = releaseWakeLock s"
| "wake_step (ContinueRelease i) s = continueRelease i s"
| "wake_step (ReleaseFailed i) s = releaseFailed i s"

abbreviation wake_run :: "wakeEvent list \<Rightarrow> wakeLock \<Rightarrow> wakeLock" where
  "wake_run es s \<equiv> fold wake_step es s"

section \<open>One lock at a time\<close>

definition lock_inv :: "wakeLock \<Rightarrow> bool" where
  "lock_inv s \<longleftrightarrow>
     (\<forall>n \<in> set (wk_held s). wk_ref s = Some n \<or> wk_dropping s = Some n) \<and> distinct (wk_held s) \<and>
     (\<forall>n. wk_dropping s = Some n \<longrightarrow> wk_pending s = Some n) \<and>
     (wk_ref s \<noteq> None \<longrightarrow> wk_pending s = None)"

lemma dropCall_inv [simp]: "lock_inv (dropCall i s) = lock_inv s"
  by (simp add: dropCall_def lock_inv_def)

lemma clear_ref_inv: "lock_inv s \<Longrightarrow> wk_ref s = Some n \<Longrightarrow> n \<notin> set (wk_held s) \<Longrightarrow> lock_inv (s\<lparr>wk_ref := None\<rparr>)"
  by (auto simp: lock_inv_def)

lemma request_inv: "lock_inv s \<Longrightarrow> lock_inv (requestWakeLock b s)"
  by (auto simp: requestWakeLock_def lock_inv_def Let_def split: option.splits)

lemma granted_inv: "lock_inv s \<Longrightarrow> lock_inv (requestGranted v s)"
proof (cases "wk_pending s = None \<or> wk_dropping s \<noteq> None")
  case False
  assume i: "lock_inv s"
  then have "wk_ref s = None" using False by (auto simp: lock_inv_def)
  then have "wk_held s = []" using i False by (cases "wk_held s") (simp_all add: lock_inv_def)
  then show ?thesis using False \<open>wk_ref s = None\<close> by (cases v) (auto simp: requestGranted_def lock_inv_def Let_def)
qed (simp add: requestGranted_def split: option.split, auto)

lemma released_inv: "lock_inv s \<Longrightarrow> lock_inv (lockReleased n s)"
  by (auto simp: lockReleased_def lock_inv_def Let_def distinct_removeAll)

lemma releases_inv [simp]: "lock_inv (s\<lparr>wk_releases := cs\<rparr>) = lock_inv s"
  by (simp add: lock_inv_def)

lemma continue_inv:
  assumes "lock_inv s"
  shows "lock_inv (continueRelease i s)"
proof (cases "wk_releases s ! i")
  case (AwaitPending p)
  then show ?thesis using assms by (simp add: continueRelease_def split: option.split)
next
  case (AwaitRelease n)
  then show ?thesis using assms clear_ref_inv [OF assms, of n] by (simp add: continueRelease_def)
qed

lemma wake_step_inv: "lock_inv s \<Longrightarrow> lock_inv (wake_step e s)"
proof (cases e)
  case Refused
  then show "lock_inv s \<Longrightarrow> ?thesis" by (auto simp: requestRefused_def lock_inv_def)
next
  case DropDone
  then show "lock_inv s \<Longrightarrow> ?thesis" by (auto simp: dropDone_def lock_inv_def split: option.splits)
next
  case Release
  then show "lock_inv s \<Longrightarrow> ?thesis" by (simp add: releaseWakeLock_def lock_inv_def)
next
  case (ReleaseFailed i)
  then show "lock_inv s \<Longrightarrow> ?thesis" by (auto simp: releaseFailed_def split: releaseCall.splits)
qed (simp_all add: request_inv granted_inv released_inv continue_inv)

lemma wake_run_inv: "lock_inv s \<Longrightarrow> lock_inv (wake_run es s)"
  by (induction es arbitrary: s) (simp_all add: wake_step_inv)

lemma init_inv: "lock_inv useWakeLock"
  by (simp add: lock_inv_def useWakeLock_def)

lemma inv_one: "lock_inv s \<Longrightarrow> length (wk_held s) \<le> 1"
proof (rule ccontr)
  assume i: "lock_inv s" and "\<not> length (wk_held s) \<le> 1"
  then obtain m n xs where h: "wk_held s = m # n # xs" by (cases "wk_held s" rule: remdups_adj.cases) auto
  then show False using i by (auto simp: lock_inv_def)
qed

section \<open>A release leaves no lock\<close>

text \<open>A call that will see every lock there is.\<close>

fun sees_all :: "wakeLock \<Rightarrow> releaseCall \<Rightarrow> bool" where
  "sees_all s (AwaitPending p) \<longleftrightarrow> wk_pending s \<in> {None, p}"
| "sees_all s (AwaitRelease n) \<longleftrightarrow> wk_pending s = None \<and> set (wk_held s) \<subseteq> {n}"

definition no_lock :: "wakeLock \<Rightarrow> bool" where
  "no_lock s \<longleftrightarrow> wk_held s = [] \<and> wk_pending s = None"

definition releasing :: "wakeLock \<Rightarrow> bool" where
  "releasing s \<longleftrightarrow> no_lock s \<or> (\<exists>c \<in> set (wk_releases s). sees_all s c)"

fun calm :: "wakeEvent \<Rightarrow> bool" where
  "calm (Request b) = False"
| "calm (ReleaseFailed i) = False"
| "calm e = True"

text \<open>Steps that leave the calls and only lose locks or the request.\<close>

lemma releasing_mono:
  assumes "releasing s" and "set (wk_held t) \<subseteq> set (wk_held s)" and "wk_pending t \<in> {None, wk_pending s}"
    and "set (wk_releases s) \<subseteq> set (wk_releases t)"
  shows "releasing t"
proof -
  have "sees_all s c \<Longrightarrow> sees_all t c" for c using assms(2,3) by (cases c) auto
  moreover have "no_lock s \<Longrightarrow> no_lock t" using assms(2,3) by (auto simp: no_lock_def)
  ultimately show ?thesis using assms(1,4) by (auto simp: releasing_def)
qed

lemma granted_releasing:
  assumes "lock_inv s" and "releasing s"
  shows "releasing (requestGranted v s)"
proof (cases "wk_pending s")
  case (Some n)
  then obtain c where c: "c \<in> set (wk_releases s)" "sees_all s c" using assms(2) by (auto simp: releasing_def no_lock_def)
  have "c = AwaitPending (Some n)" using c(2) Some by (cases "(s, c)" rule: sees_all.cases) auto
  moreover have "sees_all (requestGranted v s) (AwaitPending (Some n))" "wk_releases (requestGranted v s) = wk_releases s"
    using Some by (simp_all add: requestGranted_def Let_def)
  ultimately show ?thesis using c unfolding releasing_def by metis
qed (use assms in \<open>simp add: requestGranted_def\<close>)

lemma dropped_calls: "i < length xs \<Longrightarrow> set xs \<subseteq> insert (xs ! i) (set (take i xs @ drop (i + 1) xs))"
  using id_take_nth_drop [of i xs] by (metis Un_insert_right set_append set_ConsD subsetI insertCI list.simps(15) Suc_eq_plus1 Un_iff)

lemma updated_calls: "i < length xs \<Longrightarrow> set xs \<subseteq> insert (xs ! i) (set (xs[i := x])) \<and> x \<in> set (xs[i := x])"
  by (auto simp: in_set_conv_nth set_update_memI) (metis nth_list_update_neq length_list_update)

lemma continue_frame:
  "wk_pending (continueRelease j s) = wk_pending s \<and> wk_held (continueRelease j s) = wk_held s"
  by (simp add: continueRelease_def dropCall_def split: releaseCall.split option.split)

lemma sees_all_frame: "wk_pending t = wk_pending s \<Longrightarrow> wk_held t = wk_held s \<Longrightarrow> sees_all t c = sees_all s c"
  by (cases c) simp_all

lemma continue_calls:
  assumes "j < length (wk_releases s)"
  shows "set (wk_releases s) \<subseteq> insert (wk_releases s ! j) (set (wk_releases (continueRelease j s)))"
  using dropped_calls [OF assms] updated_calls [OF assms] assms
  by (auto simp: continueRelease_def dropCall_def split: releaseCall.split option.split)

lemma continue_own:
  assumes i: "lock_inv s" and j: "j < length (wk_releases s)" and a: "sees_all s (wk_releases s ! j)"
  shows "releasing (continueRelease j s)"
proof (cases "wk_releases s ! j")
  case (AwaitRelease n)
  show ?thesis
  proof (cases "n \<in> set (wk_held s)")
    case True
    then have "continueRelease j s = s" using AwaitRelease by (simp add: continueRelease_def)
    then show ?thesis using a nth_mem [OF j] unfolding releasing_def by auto
  next
    case False
    then have "no_lock s" using AwaitRelease a by (cases "wk_held s") (auto simp: no_lock_def)
    then show ?thesis using continue_frame by (simp add: releasing_def no_lock_def)
  qed
next
  case (AwaitPending p)
  show ?thesis
  proof (cases "p \<noteq> None \<and> wk_pending s = p")
    case True
    then have "continueRelease j s = s" using AwaitPending by (simp add: continueRelease_def)
    then show ?thesis using a nth_mem [OF j] unfolding releasing_def by auto
  next
    case False
    then have p: "wk_pending s = None" using a AwaitPending by auto
    then have held: "set (wk_held s) \<subseteq> set_option (wk_ref s)" using i by (auto simp: lock_inv_def)
    show ?thesis
    proof (cases "wk_ref s")
      case None
      then have "no_lock s" using p held by (simp add: no_lock_def)
      then show ?thesis using continue_frame by (simp add: releasing_def no_lock_def)
    next
      case (Some n)
      then have "AwaitRelease n \<in> set (wk_releases (continueRelease j s))"
        using False AwaitPending j updated_calls [OF j] by (auto simp: continueRelease_def)
      moreover have "sees_all (continueRelease j s) (AwaitRelease n)" using p held Some continue_frame [of j s] by auto
      ultimately show ?thesis unfolding releasing_def by blast
    qed
  qed
qed

lemma continue_releasing:
  assumes "lock_inv s" and r: "releasing s"
  shows "releasing (continueRelease j s)"
proof (cases "j < length (wk_releases s) \<and> \<not> no_lock s")
  case True
  then obtain c where c: "c \<in> set (wk_releases s)" "sees_all s c" using r by (auto simp: releasing_def)
  show ?thesis
  proof (cases "c = wk_releases s ! j")
    case False
    then have "c \<in> set (wk_releases (continueRelease j s))" using continue_calls True c(1) by blast
    then show ?thesis using c(2) continue_frame sees_all_frame unfolding releasing_def by metis
  qed (use assms(1) True c continue_own in simp)
next
  case False
  then show ?thesis using r continue_frame [of j s] by (cases "no_lock s") (simp_all add: continueRelease_def releasing_def no_lock_def)
qed

lemma calm_releasing:
  assumes i: "lock_inv s" and r: "releasing s" and c: "calm e"
  shows "releasing (wake_step e s)"
proof (cases e)
  case (LockReleased n)
  then show ?thesis using releasing_mono [OF r] by (auto simp: lockReleased_def Let_def)
next
  case Refused
  then show ?thesis using releasing_mono [OF r] r by (auto simp: requestRefused_def)
next
  case DropDone
  then show ?thesis using releasing_mono [OF r] r by (auto simp: dropDone_def split: option.split)
next
  case Release
  then show ?thesis by (simp add: releaseWakeLock_def releasing_def)
qed (use c granted_releasing [OF i r] continue_releasing [OF i r] in simp_all)

lemma calm_releases:
  assumes "lock_inv s" and "releasing s" and "list_all calm es"
  shows "releasing (wake_run es s)"
  using assms by (induction es arbitrary: s) (simp_all add: calm_releasing wake_step_inv)

text \<open>
  \<^bold>\<open>C37\<close> (one wake lock, and none after a release). However requests, releases and decisions of the browser interleave, the
  page never holds more than one lock and knows every lock it holds. And when a release was asked for and no request after
  it, then once no release is under way the page holds no lock and none is being requested.
\<close>

theorem wake_lock_released:
  assumes "s = wake_run es useWakeLock"
  shows "length (wk_held s) \<le> 1 \<and> (\<forall>n \<in> set (wk_held s). wk_ref s = Some n \<or> wk_dropping s = Some n) \<and>
    (\<forall>later. list_all calm later \<and> wk_releases (wake_run later (releaseWakeLock s)) = [] \<longrightarrow>
       wk_held (wake_run later (releaseWakeLock s)) = [] \<and> wk_pending (wake_run later (releaseWakeLock s)) = None)"
proof (intro conjI allI impI)
  have i: "lock_inv s" using wake_run_inv [OF init_inv] assms by simp
  show "length (wk_held s) \<le> 1" by (rule inv_one [OF i])
  show "\<forall>n \<in> set (wk_held s). wk_ref s = Some n \<or> wk_dropping s = Some n" using i by (simp add: lock_inv_def)
  fix later
  assume l: "list_all calm later \<and> wk_releases (wake_run later (releaseWakeLock s)) = []"
  have "releasing (releaseWakeLock s)" "lock_inv (releaseWakeLock s)"
    using i by (simp_all add: releaseWakeLock_def releasing_def)
  then have "releasing (wake_run later (releaseWakeLock s))" using calm_releases l by blast
  then have "no_lock (wake_run later (releaseWakeLock s))" using l by (simp add: releasing_def)
  then show "wk_held (wake_run later (releaseWakeLock s)) = []" "wk_pending (wake_run later (releaseWakeLock s)) = None"
    by (simp_all add: no_lock_def)
qed

text \<open>A release while the request is under way.\<close>

theorem wake_lock_released_witness:
  "let s = wake_run [Request True] useWakeLock;
       t = wake_run [Granted True, ContinueRelease 0, LockReleased 0, ContinueRelease 0] (releaseWakeLock s) in
   wk_releases t = [] \<and> wk_held t = [] \<and> wk_pending t = None"
proof -
  let ?later = "[Granted True, ContinueRelease 0, LockReleased 0, ContinueRelease 0]"
  have "wk_releases (wake_run ?later (releaseWakeLock (wake_run [Request True] useWakeLock))) = []"
    by (simp add: useWakeLock_def requestWakeLock_def releaseWakeLock_def requestGranted_def continueRelease_def lockReleased_def dropCall_def Let_def)
  moreover have "list_all calm ?later" by simp
  ultimately show ?thesis using wake_lock_released [OF refl, of "[Request True]"] unfolding Let_def by blast
qed

end
