(* ===== verification/Reader_Theme.thy ===== *)
theory Reader_Theme
  imports Js_Number
begin

text \<open>
  \<^verbatim>\<open>hooks/useReaderTheme.ts\<close> and \<^verbatim>\<open>hooks/useShelfTheme.ts\<close>: the settings of the reader and the colours of the shelf, which
  share one entry of \<^verbatim>\<open>localStorage\<close>. The entry is the object its text stands for, or \<open>Malformed\<close>; a field of it can have any
  value, since other versions and other tools may have written it. The style sheets made from the settings are not
  modelled. Shown here: whatever the entry is, the reader gets settings within their limits; and what one hook writes, both read.
\<close>

section \<open>Values\<close>

text \<open>A value of JSON; a list or an object comes with the number \<^verbatim>\<open>Number\<close> makes of it.\<close>

datatype settingValue = Num real | Txt ustring | Flag bool | Null | Composite jsnum

fun truthyValue :: "settingValue \<Rightarrow> bool" where
  "truthyValue (Num x) = (x \<noteq> 0)"
| "truthyValue (Txt t) = (t \<noteq> [])"
| "truthyValue (Flag b) = b"
| "truthyValue Null = False"
| "truthyValue (Composite n) = True"

fun numberOf :: "settingValue option \<Rightarrow> jsnum" where
  "numberOf None = NaN"
| "numberOf (Some (Num x)) = Fin x"
| "numberOf (Some (Txt t)) = toNumber t"
| "numberOf (Some (Flag b)) = Fin (if b then 1 else 0)"
| "numberOf (Some Null) = Fin 0"
| "numberOf (Some (Composite n)) = n"

text \<open>\<^verbatim>\<open>clamp(Number(v) || d, low, high)\<close>\<close>

definition clampNumber :: "settingValue option \<Rightarrow> real \<Rightarrow> real \<Rightarrow> real \<Rightarrow> real" where
  "clampNumber v d low high =
    (case numberOf v of
       NaN \<Rightarrow> min (max d low) high
     | Fin x \<Rightarrow> min (max (if x = 0 then d else x) low) high
     | PosInf \<Rightarrow> high
     | NegInf \<Rightarrow> low)"

section \<open>Settings\<close>

text \<open>An object with any of the fields, and the settings after normalisation. The font and the flow are passed on as they are.\<close>

record storedTheme =
  st_preset :: "settingValue option"
  st_fontFamily :: "settingValue option"
  st_fontSize :: "settingValue option"
  st_lineHeight :: "settingValue option"
  st_pagePaddingX :: "settingValue option"
  st_pagePaddingY :: "settingValue option"
  st_paragraphSpacing :: "settingValue option"
  st_flow :: "settingValue option"
  st_maxInlineSize :: "settingValue option"
  st_gap :: "settingValue option"
  st_animated :: "settingValue option"
  st_chineseIndent :: "settingValue option"
  st_punctuationSqueeze :: "settingValue option"

record readerSettings =
  tm_preset :: "settingValue option"
  tm_fontFamily :: "settingValue option"
  tm_fontSize :: real
  tm_lineHeight :: real
  tm_pagePaddingX :: real
  tm_pagePaddingY :: real
  tm_paragraphSpacing :: real
  tm_flow :: "settingValue option"
  tm_maxInlineSize :: real
  tm_gap :: real
  tm_animated :: bool
  tm_chineseIndent :: bool
  tm_punctuationSqueeze :: bool

definition DEFAULT_READER_THEME :: storedTheme where
  "DEFAULT_READER_THEME =
    \<lparr>st_preset = Some (Txt (js ''light'')), st_fontFamily = Some (Txt (js ''editorial'')), st_fontSize = Some (Num 17),
     st_lineHeight = Some (Num 1.7), st_pagePaddingX = Some (Num 22), st_pagePaddingY = Some (Num 18), st_paragraphSpacing = Some (Num 1.15),
     st_flow = Some (Txt (js ''paginated'')), st_maxInlineSize = Some (Num 1200), st_gap = Some (Num 5), st_animated = Some (Flag True),
     st_chineseIndent = Some (Flag True), st_punctuationSqueeze = Some (Flag True)\<rparr>"

definition flagOr :: "bool \<Rightarrow> settingValue option \<Rightarrow> bool" where
  "flagOr d v = (case v of Some x \<Rightarrow> truthyValue x | None \<Rightarrow> d)"

definition normalizeReaderTheme :: "storedTheme \<Rightarrow> readerSettings" where
  "normalizeReaderTheme t =
    \<lparr>tm_preset = st_preset t, tm_fontFamily = st_fontFamily t,
     tm_fontSize = clampNumber (st_fontSize t) 17 12 32,
     tm_lineHeight = clampNumber (st_lineHeight t) 1.7 1.2 2.2,
     tm_pagePaddingX = clampNumber (st_pagePaddingX t) 22 8 56,
     tm_pagePaddingY = clampNumber (st_pagePaddingY t) 18 8 48,
     tm_paragraphSpacing = clampNumber (st_paragraphSpacing t) 1.15 0.6 2.2,
     tm_flow = st_flow t,
     tm_maxInlineSize = clampNumber (st_maxInlineSize t) 1200 520 1400,
     tm_gap = clampNumber (st_gap t) 5 0 12,
     tm_animated = flagOr False (st_animated t),
     tm_chineseIndent = flagOr True (st_chineseIndent t),
     tm_punctuationSqueeze = flagOr True (st_punctuationSqueeze t)\<rparr>"

text \<open>The object whose text is written.\<close>

definition stringify :: "readerSettings \<Rightarrow> storedTheme" where
  "stringify t =
    \<lparr>st_preset = tm_preset t, st_fontFamily = tm_fontFamily t, st_fontSize = Some (Num (tm_fontSize t)),
     st_lineHeight = Some (Num (tm_lineHeight t)), st_pagePaddingX = Some (Num (tm_pagePaddingX t)),
     st_pagePaddingY = Some (Num (tm_pagePaddingY t)), st_paragraphSpacing = Some (Num (tm_paragraphSpacing t)),
     st_flow = tm_flow t, st_maxInlineSize = Some (Num (tm_maxInlineSize t)), st_gap = Some (Num (tm_gap t)),
     st_animated = Some (Flag (tm_animated t)), st_chineseIndent = Some (Flag (tm_chineseIndent t)),
     st_punctuationSqueeze = Some (Flag (tm_punctuationSqueeze t))\<rparr>"

datatype themeEntry = Malformed | Entry storedTheme

record themeStore =
  ts_entry :: "themeEntry option"
  ts_cache :: "(readerSettings \<times> themeEntry option) option"

definition presetNames :: "ustring list" where
  "presetNames = [js ''light'', js ''sepia'', js ''green'', js ''dark'']"

definition validPreset :: "settingValue option \<Rightarrow> bool" where
  "validPreset v \<longleftrightarrow> (case v of Some (Txt t) \<Rightarrow> t \<in> set presetNames | _ \<Rightarrow> False)"

definition readPresetFromStorage :: "themeEntry option \<Rightarrow> settingValue option" where
  "readPresetFromStorage saved = (case saved of Some (Entry o1) \<Rightarrow> if validPreset (st_preset o1) then st_preset o1 else None | _ \<Rightarrow> None)"

definition ifTruthy :: "settingValue option \<Rightarrow> settingValue option \<Rightarrow> settingValue option" where
  "ifTruthy v d = (case v of Some x \<Rightarrow> if truthyValue x then v else d | None \<Rightarrow> d)"

definition orDefault :: "'v option \<Rightarrow> 'v option \<Rightarrow> 'v option" where
  "orDefault v d = (if v = None then d else v)"

definition mergeStored :: "storedTheme \<Rightarrow> storedTheme \<Rightarrow> storedTheme" where
  "mergeStored base p = base\<lparr>
     st_fontFamily := ifTruthy (st_fontFamily p) (st_fontFamily base), st_fontSize := ifTruthy (st_fontSize p) (st_fontSize base),
     st_lineHeight := ifTruthy (st_lineHeight p) (st_lineHeight base), st_pagePaddingX := ifTruthy (st_pagePaddingX p) (st_pagePaddingX base),
     st_pagePaddingY := ifTruthy (st_pagePaddingY p) (st_pagePaddingY base),
     st_paragraphSpacing := ifTruthy (st_paragraphSpacing p) (st_paragraphSpacing base),
     st_flow := ifTruthy (st_flow p) (st_flow base), st_maxInlineSize := ifTruthy (st_maxInlineSize p) (st_maxInlineSize base),
     st_gap := ifTruthy (st_gap p) (st_gap base), st_animated := orDefault (st_animated p) (st_animated base),
     st_chineseIndent := orDefault (st_chineseIndent p) (st_chineseIndent base),
     st_punctuationSqueeze := orDefault (st_punctuationSqueeze p) (st_punctuationSqueeze base)\<rparr>"

definition computeTheme :: "themeEntry option \<Rightarrow> readerSettings" where
  "computeTheme saved =
    (let base = DEFAULT_READER_THEME\<lparr>st_preset := orDefault (readPresetFromStorage saved) (st_preset DEFAULT_READER_THEME)\<rparr> in
     normalizeReaderTheme (case saved of Some (Entry p) \<Rightarrow> mergeStored base p | _ \<Rightarrow> base))"

definition getSnapshot :: "bool \<Rightarrow> themeStore \<Rightarrow> readerSettings \<times> themeStore" where
  "getSnapshot readable s =
    (if \<not> readable
     then (let t = normalizeReaderTheme DEFAULT_READER_THEME in (t, s\<lparr>ts_cache := Some (t, None)\<rparr>))
     else case ts_cache s of
       Some (t, raw) \<Rightarrow>
         if raw = ts_entry s then (t, s)
         else (let u = computeTheme (ts_entry s) in (u, s\<lparr>ts_cache := Some (u, ts_entry s)\<rparr>))
     | None \<Rightarrow> (let u = computeTheme (ts_entry s) in (u, s\<lparr>ts_cache := Some (u, ts_entry s)\<rparr>)))"

text \<open>The listener of \<^verbatim>\<open>subscribe\<close>, which both events reach.\<close>

definition themeChanged :: "themeStore \<Rightarrow> themeStore" where
  "themeChanged s = s\<lparr>ts_cache := None\<rparr>"

text \<open>Fields of \<^verbatim>\<open>newTheme\<close> that are absent are taken from \<^verbatim>\<open>theme\<close>.\<close>

definition overrideTheme :: "storedTheme \<Rightarrow> storedTheme \<Rightarrow> storedTheme" where
  "overrideTheme t p =
    \<lparr>st_preset = orDefault (st_preset p) (st_preset t), st_fontFamily = orDefault (st_fontFamily p) (st_fontFamily t),
     st_fontSize = orDefault (st_fontSize p) (st_fontSize t), st_lineHeight = orDefault (st_lineHeight p) (st_lineHeight t),
     st_pagePaddingX = orDefault (st_pagePaddingX p) (st_pagePaddingX t), st_pagePaddingY = orDefault (st_pagePaddingY p) (st_pagePaddingY t),
     st_paragraphSpacing = orDefault (st_paragraphSpacing p) (st_paragraphSpacing t), st_flow = orDefault (st_flow p) (st_flow t),
     st_maxInlineSize = orDefault (st_maxInlineSize p) (st_maxInlineSize t), st_gap = orDefault (st_gap p) (st_gap t),
     st_animated = orDefault (st_animated p) (st_animated t), st_chineseIndent = orDefault (st_chineseIndent p) (st_chineseIndent t),
     st_punctuationSqueeze = orDefault (st_punctuationSqueeze p) (st_punctuationSqueeze t)\<rparr>"

text \<open>A storage that is full throws before anything changes.\<close>

definition storeTheme :: "bool \<Rightarrow> readerSettings \<Rightarrow> themeStore \<Rightarrow> themeStore" where
  "storeTheme writable updated s =
    (if writable then themeChanged (s\<lparr>ts_entry := Some (Entry (stringify updated)), ts_cache := Some (updated, Some (Entry (stringify updated)))\<rparr>)
     else s)"

definition setTheme :: "bool \<Rightarrow> readerSettings \<Rightarrow> storedTheme \<Rightarrow> themeStore \<Rightarrow> themeStore" where
  "setTheme writable theme newTheme s = storeTheme writable (normalizeReaderTheme (overrideTheme (stringify theme) newTheme)) s"

definition setPreset :: "bool \<Rightarrow> readerSettings \<Rightarrow> ustring \<Rightarrow> themeStore \<Rightarrow> themeStore" where
  "setPreset writable theme preset s = storeTheme writable (theme\<lparr>tm_preset := Some (Txt preset)\<rparr>) s"

section \<open>The shelf\<close>

definition readShelfTheme :: "themeEntry option \<Rightarrow> settingValue \<times> bool" where
  "readShelfTheme saved =
    (case saved of
       Some (Entry p) \<Rightarrow>
        (let preset = (if validPreset (st_preset p) then the (st_preset p) else Txt (js ''light'')) in (preset, preset = Txt (js ''dark'')))
     | _ \<Rightarrow> (Txt (js ''light''), False))"

definition noFields :: storedTheme where
  "noFields = \<lparr>st_preset = None, st_fontFamily = None, st_fontSize = None, st_lineHeight = None, st_pagePaddingX = None, st_pagePaddingY = None,
     st_paragraphSpacing = None, st_flow = None, st_maxInlineSize = None, st_gap = None, st_animated = None, st_chineseIndent = None,
     st_punctuationSqueeze = None\<rparr>"

definition writeShelfThemePreset :: "bool \<Rightarrow> ustring \<Rightarrow> themeStore \<Rightarrow> themeStore" where
  "writeShelfThemePreset writable preset s =
    (case ts_entry s of
       Some Malformed \<Rightarrow> s
     | saved \<Rightarrow>
        (let current = (case saved of Some (Entry p) \<Rightarrow> p | _ \<Rightarrow> noFields) in
         if writable then themeChanged (s\<lparr>ts_entry := Some (Entry (current\<lparr>st_preset := Some (Txt preset)\<rparr>))\<rparr>) else s))"

definition presetIndex :: "settingValue \<Rightarrow> nat" where
  "presetIndex v = length (takeWhile (\<lambda>t. Txt t \<noteq> v) presetNames)"

definition cyclePreset :: "settingValue \<Rightarrow> ustring" where
  "cyclePreset preset = presetNames ! ((presetIndex preset + 1) mod length presetNames)"

definition toggleTheme :: "bool \<Rightarrow> ustring" where
  "toggleTheme isDark = (if isDark then js ''light'' else js ''dark'')"

section \<open>Limits\<close>

definition in_range :: "readerSettings \<Rightarrow> bool" where
  "in_range t \<longleftrightarrow> tm_fontSize t \<in> {12..32} \<and> tm_lineHeight t \<in> {1.2..2.2} \<and> tm_pagePaddingX t \<in> {8..56} \<and> tm_pagePaddingY t \<in> {8..48} \<and>
     tm_paragraphSpacing t \<in> {0.6..2.2} \<and> tm_maxInlineSize t \<in> {520..1400} \<and> tm_gap t \<in> {0..12}"

lemma clamp_within: "low \<le> high \<Longrightarrow> clampNumber v d low high \<in> {low..high}"
  by (simp add: clampNumber_def split: jsnum.split)

lemma clamp_id: "x \<noteq> 0 \<Longrightarrow> x \<in> {low..high} \<Longrightarrow> clampNumber (Some (Num x)) d low high = x"
  by (simp add: clampNumber_def)

lemma normalized_within: "in_range (normalizeReaderTheme t)"
  unfolding in_range_def normalizeReaderTheme_def readerSettings.simps by (intro conjI clamp_within) simp_all

lemma computed_within: "in_range (computeTheme saved)"
  by (simp add: computeTheme_def normalized_within Let_def)

text \<open>What the hook returns: every cached value was normalised.\<close>

definition cache_within :: "themeStore \<Rightarrow> bool" where
  "cache_within s \<longleftrightarrow> (\<forall>t raw. ts_cache s = Some (t, raw) \<longrightarrow> in_range t)"

lemma snapshot_within: "cache_within s \<Longrightarrow> in_range (fst (getSnapshot readable s)) \<and> cache_within (snd (getSnapshot readable s))"
  by (auto simp: getSnapshot_def cache_within_def normalized_within computed_within Let_def split: option.splits)

lemma store_clears: "writable \<Longrightarrow> ts_cache (storeTheme writable t s) = None \<and> ts_entry (storeTheme writable t s) = Some (Entry (stringify t))"
  by (simp add: storeTheme_def themeChanged_def)

section \<open>What is written is read\<close>

definition complete :: "readerSettings \<Rightarrow> bool" where
  "complete t \<longleftrightarrow> in_range t \<and> tm_gap t \<noteq> 0 \<and> validPreset (tm_preset t) \<and>
     (\<exists>f. tm_fontFamily t = Some f \<and> truthyValue f) \<and> (\<exists>f. tm_flow t = Some f \<and> truthyValue f)"

lemma truthy_number: "x \<noteq> 0 \<Longrightarrow> ifTruthy (Some (Num x)) d = Some (Num x)"
  by (simp add: ifTruthy_def)

lemma within_nonzero:
  "in_range t \<Longrightarrow> tm_fontSize t \<noteq> 0 \<and> tm_lineHeight t \<noteq> 0 \<and> tm_pagePaddingX t \<noteq> 0 \<and> tm_pagePaddingY t \<noteq> 0 \<and> tm_paragraphSpacing t \<noteq> 0 \<and>
     tm_maxInlineSize t \<noteq> 0"
  by (auto simp: in_range_def)

lemma merge_stringify: "complete t \<Longrightarrow> mergeStored (DEFAULT_READER_THEME\<lparr>st_preset := tm_preset t\<rparr>) (stringify t) = stringify t"
  using within_nonzero [of t]
  by (auto simp: mergeStored_def stringify_def complete_def truthy_number orDefault_def DEFAULT_READER_THEME_def ifTruthy_def)

lemma normalize_stringify: "complete t \<Longrightarrow> normalizeReaderTheme (stringify t) = t"
proof -
  assume c: "complete t"
  then have "in_range t" by (simp add: complete_def)
  then show ?thesis
    using c within_nonzero [of t] by (simp add: normalizeReaderTheme_def stringify_def flagOr_def complete_def in_range_def clamp_id)
qed

lemma compute_stringify: "complete t \<Longrightarrow> computeTheme (Some (Entry (stringify t))) = t"
proof -
  assume c: "complete t"
  then have p: "validPreset (tm_preset t)" by (simp add: complete_def)
  then obtain v where "st_preset (stringify t) = tm_preset t" "tm_preset t = Some v" by (auto simp: stringify_def validPreset_def split: option.splits)
  then show ?thesis
    using p merge_stringify [OF c] normalize_stringify [OF c] by (simp add: computeTheme_def readPresetFromStorage_def orDefault_def Let_def)
qed

lemma preset_complete: "complete t \<Longrightarrow> p \<in> set presetNames \<Longrightarrow> complete (t\<lparr>tm_preset := Some (Txt p)\<rparr>)"
  by (simp add: complete_def in_range_def validPreset_def)

lemma stringify_preset: "(stringify t)\<lparr>st_preset := p\<rparr> = stringify (t\<lparr>tm_preset := p\<rparr>)"
  by (simp add: stringify_def)

lemma snapshot_fresh: "ts_cache s = None \<Longrightarrow> fst (getSnapshot True s) = computeTheme (ts_entry s)"
  by (simp add: getSnapshot_def Let_def)

text \<open>
  \<^bold>\<open>C40\<close> (one theme for reader and shelf). Whatever the stored entry is, the reader's settings lie within their limits. Settings
  that the reader writes are the ones it reads next, in this page and in another; and a colour chosen on the shelf changes the
  colour of the reader, and no other of its settings, while the shelf shows the colour the reader has.
\<close>

theorem theme_shared:
  assumes "theme = normalizeReaderTheme (overrideTheme (stringify old) new)" and "complete theme" and "p \<in> set presetNames"
  shows "in_range (computeTheme saved) \<and>
    fst (getSnapshot True (setTheme True old new s)) = theme \<and>
    fst (getSnapshot True (writeShelfThemePreset True p (setTheme True old new s))) = theme\<lparr>tm_preset := Some (Txt p)\<rparr> \<and>
    fst (readShelfTheme (ts_entry (setPreset True theme p s))) = Txt p"
proof (intro conjI)
  let ?s = "setTheme True old new s"
  have s: "ts_cache ?s = None" "ts_entry ?s = Some (Entry (stringify theme))"
    using store_clears by (simp_all add: setTheme_def assms(1))
  show "in_range (computeTheme saved)" by (rule computed_within)
  show "fst (getSnapshot True ?s) = theme" using snapshot_fresh [OF s(1)] s(2) compute_stringify [OF assms(2)] by simp
  have "ts_cache (writeShelfThemePreset True p ?s) = None"
    "ts_entry (writeShelfThemePreset True p ?s) = Some (Entry (stringify (theme\<lparr>tm_preset := Some (Txt p)\<rparr>)))"
    using s(2) by (simp_all add: writeShelfThemePreset_def themeChanged_def stringify_preset Let_def)
  then show "fst (getSnapshot True (writeShelfThemePreset True p ?s)) = theme\<lparr>tm_preset := Some (Txt p)\<rparr>"
    using snapshot_fresh compute_stringify [OF preset_complete [OF assms(2,3)]] by simp
  show "fst (readShelfTheme (ts_entry (setPreset True theme p s))) = Txt p"
    using assms(3) store_clears by (simp add: setPreset_def readShelfTheme_def stringify_def validPreset_def Let_def)
qed

text \<open>A larger font and the dark colours.\<close>

definition bigger :: storedTheme where
  "bigger = noFields\<lparr>st_fontSize := Some (Num 40)\<rparr>"

lemmas theme_defs = normalizeReaderTheme_def overrideTheme_def stringify_def orDefault_def flagOr_def clampNumber_def DEFAULT_READER_THEME_def

theorem theme_shared_witness:
  "let old = normalizeReaderTheme DEFAULT_READER_THEME; s = \<lparr>ts_entry = Some Malformed, ts_cache = None\<rparr> in
   tm_fontSize (fst (getSnapshot True (setTheme True old bigger s))) = 32 \<and>
   fst (getSnapshot True (writeShelfThemePreset True (js ''dark'') (setTheme True old bigger s))) =
     (fst (getSnapshot True (setTheme True old bigger s)))\<lparr>tm_preset := Some (Txt (js ''dark''))\<rparr>"
proof -
  let ?old = "normalizeReaderTheme DEFAULT_READER_THEME"
  let ?theme = "normalizeReaderTheme (overrideTheme (stringify ?old) bigger)"
  have f: "tm_fontSize ?theme = 32" "tm_gap ?theme = 5" "tm_preset ?theme = Some (Txt (js ''light''))"
    "tm_fontFamily ?theme = Some (Txt (js ''editorial''))" "tm_flow ?theme = Some (Txt (js ''paginated''))"
    by (simp_all add: theme_defs bigger_def noFields_def)
  have "complete ?theme"
    using normalized_within f by (simp add: complete_def validPreset_def presetNames_def del: js_eq_iff)
  moreover have "js ''dark'' \<in> set presetNames" by (simp add: presetNames_def)
  ultimately show ?thesis
    using theme_shared [OF refl, of ?old bigger "js ''dark''" None "\<lparr>ts_entry = Some Malformed, ts_cache = None\<rparr>"] f(1)
    by (simp add: Let_def)
qed

section \<open>Smaller facts\<close>

text \<open>Four steps through the colours come back to the first.\<close>

lemma cycle_steps:
  "cyclePreset (Txt (js ''light'')) = js ''sepia''" "cyclePreset (Txt (js ''sepia'')) = js ''green''"
  "cyclePreset (Txt (js ''green'')) = js ''dark''" "cyclePreset (Txt (js ''dark'')) = js ''light''"
  by (simp_all add: cyclePreset_def presetNames_def presetIndex_def)

lemma cycle_all:
  assumes "t \<in> set presetNames"
  shows "cyclePreset (Txt (cyclePreset (Txt (cyclePreset (Txt (cyclePreset (Txt t))))))) = t"
  using assms unfolding presetNames_def by (auto simp: cycle_steps simp del: js_eq_iff)

text \<open>The limits of the gap between columns include 0, but it cannot be chosen: as a false value it is replaced by the default.\<close>

lemma gap_zero_lost: "tm_gap (normalizeReaderTheme (t\<lparr>st_gap := Some (Num 0)\<rparr>)) = 5"
  by (simp add: normalizeReaderTheme_def clampNumber_def)

end
