(* ===== verification/Reader_Tools.thy ===== *)
theory Reader_Tools
  imports Api_Types
begin

text \<open>
  \<^verbatim>\<open>hooks/useReaderBookmarks.ts\<close>, the excerpts of \<^verbatim>\<open>lib/reader-page.ts\<close>, \<^verbatim>\<open>hooks/useReaderControls.ts\<close> and
  \<^verbatim>\<open>hooks/useReaderChrome.ts\<close>: bookmarks with their requests under way, keys and swipes, and the header of the reader. The
  view and the page are what the arguments say; bookmarks are those of \<open>Api_Types\<close>. Which elements are scrolled into view is left out.
\<close>

section \<open>Excerpts\<close>

text \<open>\<^verbatim>\<open>text.replace(/\s+/g, ' ')\<close>\<close>

function collapseSpaces :: "ustring \<Rightarrow> ustring" where
  "collapseSpaces [] = []"
| "collapseSpaces (c # s) =
    (if is_space c then 32 # collapseSpaces (dropWhile is_space s) else c # collapseSpaces s)"
  by pat_completeness auto
termination
  by (relation "measure length") (simp_all add: less_Suc_eq_le length_dropWhile_le)

definition normalizeBookmarkExcerpt :: "ustring \<Rightarrow> ustring" where
  "normalizeBookmarkExcerpt t =
    (let normalized = trim (collapseSpaces t) in
     if normalized = [] then []
     else if length normalized \<le> 72 then normalized
     else take 72 normalized @ [8230])"

text \<open>The texts of the range, of the block it starts in and of the document.\<close>

definition getBookmarkExcerpt :: "ustring option \<Rightarrow> ustring option \<Rightarrow> ustring option \<Rightarrow> ustring" where
  "getBookmarkExcerpt selected block body =
    (let rangeText = (case selected of Some t \<Rightarrow> normalizeBookmarkExcerpt t | None \<Rightarrow> []);
         blockText = (case block of Some t \<Rightarrow> if t = [] then [] else normalizeBookmarkExcerpt t | None \<Rightarrow> []) in
     if rangeText \<noteq> [] then rangeText
     else if blockText \<noteq> [] then blockText
     else normalizeBookmarkExcerpt (case body of Some t \<Rightarrow> t | None \<Rightarrow> []))"

lemma excerpt_length: "length (normalizeBookmarkExcerpt t) \<le> 73"
  by (simp add: normalizeBookmarkExcerpt_def Let_def)

text \<open>Words are kept, and nothing but single blanks lies between them.\<close>

lemma collapse_words: "filter (\<lambda>c. \<not> is_space c) (collapseSpaces t) = filter (\<lambda>c. \<not> is_space c) t"
proof (induction t rule: collapseSpaces.induct)
  case (2 c s)
  have "filter (\<lambda>c. \<not> is_space c) (dropWhile is_space s) = filter (\<lambda>c. \<not> is_space c) s" by (induction s) auto
  then show ?case using 2 by (auto simp: is_space_def)
qed simp

lemma collapse_blanks:
  "i + 1 < length (collapseSpaces t) \<Longrightarrow> is_space (collapseSpaces t ! i) \<Longrightarrow> collapseSpaces t ! i = 32 \<and> \<not> is_space (collapseSpaces t ! (i + 1))"
proof (induction t arbitrary: i rule: collapseSpaces.induct)
  case (2 c s)
  show ?case
  proof (cases "is_space c")
    case True
    have "collapseSpaces (dropWhile is_space s) \<noteq> [] \<Longrightarrow> \<not> is_space (hd (collapseSpaces (dropWhile is_space s)))"
    proof (cases "dropWhile is_space s")
      case (Cons a l)
      then have "\<not> is_space a" using hd_dropWhile [of is_space s] by simp
      then show ?thesis using Cons by simp
    qed simp
    then show ?thesis using 2 True by (cases i) (auto simp: hd_conv_nth)
  next
    case False
    then show ?thesis using 2 by (cases i) auto
  qed
qed simp

section \<open>Bookmarks\<close>

datatype bookmarkRequest = ListRequest | CreateRequest ustring real ustring ustring | DeleteRequest ustring

record bookmarkHook =
  bh_bookmarks :: "bookmark list"
  bh_saving :: bool
  bh_requests :: "bookmarkRequest list"
  bh_toasts :: nat

definition loadBookmarks :: "bookmarkHook \<Rightarrow> bookmarkHook" where
  "loadBookmarks s = s\<lparr>bh_requests := bh_requests s @ [ListRequest]\<rparr>"

definition loadAnswered :: "unit + bookmark list \<Rightarrow> bookmarkHook \<Rightarrow> bookmarkHook" where
  "loadAnswered answer s = (case answer of Inr items \<Rightarrow> s\<lparr>bh_bookmarks := items\<rparr> | Inl _ \<Rightarrow> s)"

definition handleCreateBookmark :: "ustring \<Rightarrow> real \<Rightarrow> ustring \<Rightarrow> ustring \<Rightarrow> bookmarkHook \<Rightarrow> bookmarkHook" where
  "handleCreateBookmark currentCFI percentage chapter excerpt s =
    (if currentCFI = [] \<or> bh_saving s then s
     else if \<exists>item \<in> set (bh_bookmarks s). bm_cfi item = currentCFI then s\<lparr>bh_toasts := bh_toasts s + 1\<rparr>
     else s\<lparr>bh_saving := True, bh_requests := bh_requests s @ [CreateRequest currentCFI percentage chapter excerpt]\<rparr>)"

definition createAnswered :: "unit + bookmark \<Rightarrow> bookmarkHook \<Rightarrow> bookmarkHook" where
  "createAnswered answer s =
    (case answer of Inr item \<Rightarrow> s\<lparr>bh_bookmarks := bh_bookmarks s @ [item]\<rparr> | Inl _ \<Rightarrow> s)\<lparr>bh_toasts := bh_toasts s + 1, bh_saving := False\<rparr>"

definition handleDeleteBookmark :: "ustring \<Rightarrow> bookmarkHook \<Rightarrow> bookmarkHook" where
  "handleDeleteBookmark bookmarkId s =
    s\<lparr>bh_bookmarks := filter (\<lambda>item. bm_id item \<noteq> bookmarkId) (bh_bookmarks s), bh_requests := bh_requests s @ [DeleteRequest bookmarkId]\<rparr>"

definition deleteBookmarkAnswered :: "bool \<Rightarrow> bookmarkHook \<Rightarrow> bookmarkHook" where
  "deleteBookmarkAnswered ok s = (if ok then s else loadBookmarks s)"

text \<open>A second bookmark at a place is refused, also while the first is being saved; a failed deletion brings the bookmark back
  with the answer to the request it makes.\<close>

lemma no_second_bookmark:
  "bm_cfi b = c \<Longrightarrow> b \<in> set (bh_bookmarks s) \<Longrightarrow> bh_requests (handleCreateBookmark c p h x s) = bh_requests s"
  "c \<noteq> [] \<Longrightarrow> bh_requests (handleCreateBookmark c q h x (handleCreateBookmark c p h x s)) = bh_requests (handleCreateBookmark c p h x s)"
  by (auto simp: handleCreateBookmark_def)

lemma failed_delete_restores:
  "bh_bookmarks (loadAnswered (Inr items) (deleteBookmarkAnswered False (handleDeleteBookmark i s))) = items \<and>
   bh_requests (deleteBookmarkAnswered False (handleDeleteBookmark i s)) = bh_requests s @ [DeleteRequest i, ListRequest]"
  by (simp add: loadAnswered_def deleteBookmarkAnswered_def handleDeleteBookmark_def loadBookmarks_def)

section \<open>Keys and swipes\<close>

datatype readerAction = PrevPage | NextPage | GoBack | ExitFullscreen | EnterFullscreen

definition toggleFullscreen :: "bool \<Rightarrow> bool \<Rightarrow> readerAction option" where
  "toggleFullscreen enabled full = (if \<not> enabled then None else if full then Some ExitFullscreen else Some EnterFullscreen)"

definition keyboardHandler :: "bool \<Rightarrow> bool \<Rightarrow> bool \<Rightarrow> bool \<Rightarrow> bool \<Rightarrow> ustring \<Rightarrow> readerAction option" where
  "keyboardHandler imageOpen inField shiftKey enabled full key =
    (if imageOpen \<or> inField then None
     else if key \<in> {js ''ArrowLeft'', js ''PageUp'', js ''k'', js ''K''} then Some PrevPage
     else if key \<in> {js ''ArrowRight'', js ''PageDown'', js ''j'', js ''J'', js '' ''}
       then Some (if key = js '' '' \<and> shiftKey then PrevPage else NextPage)
     else if key = js ''Escape'' then Some (if full then ExitFullscreen else GoBack)
     else if key \<in> {js ''f'', js ''F''} then toggleFullscreen enabled full
     else None)"

definition handleTouchStart :: "(real \<times> real) list \<Rightarrow> real \<times> real \<Rightarrow> real \<times> real" where
  "handleTouchStart touches start = (case touches of [p] \<Rightarrow> p | _ \<Rightarrow> start)"

definition handleTouchEnd :: "(real \<times> real) list \<Rightarrow> bool \<Rightarrow> real \<times> real \<Rightarrow> readerAction option" where
  "handleTouchEnd changedTouches interactive start =
    (case changedTouches of
       [(x, y)] \<Rightarrow>
        (if interactive then None
         else
          (let deltaX = x - fst start; deltaY = y - snd start in
           if \<bar>deltaY\<bar> < \<bar>deltaX\<bar> \<and> 50 < \<bar>deltaX\<bar> then Some (if 0 < deltaX then PrevPage else NextPage) else None))
     | _ \<Rightarrow> None)"

text \<open>A swipe back undoes a swipe; scrolling turns no page.\<close>

lemma swipe_mirrored:
  "handleTouchEnd [(x, y)] False (x', y') = Some NextPage \<longleftrightarrow> handleTouchEnd [(x', y')] False (x, y) = Some PrevPage"
  by (auto simp: handleTouchEnd_def Let_def)

lemma scrolling_turns_no_page: "\<bar>x - x'\<bar> \<le> \<bar>y - y'\<bar> \<Longrightarrow> handleTouchEnd [(x, y)] False (x', y') = None"
  by (simp add: handleTouchEnd_def Let_def)

section \<open>The header\<close>

record chromeState =
  ch_loading :: bool
  ch_tocOpen :: bool
  ch_bookmarksOpen :: bool
  ch_shortcutsOpen :: bool
  ch_themeSettingsOpen :: bool
  ch_currentChapter :: ustring
  ch_currentChapterHref :: ustring

record chrome =
  cr_state :: chromeState
  cr_visible :: bool
  cr_showFrame :: bool
  cr_locateFrame :: bool

definition useReaderChrome :: chrome where
  "useReaderChrome = \<lparr>cr_state = \<lparr>ch_loading = True, ch_tocOpen = False, ch_bookmarksOpen = False, ch_shortcutsOpen = False,
     ch_themeSettingsOpen = False, ch_currentChapter = [], ch_currentChapterHref = []\<rparr>, cr_visible = True, cr_showFrame = False, cr_locateFrame = False\<rparr>"

definition keepsHeader :: "chromeState \<Rightarrow> bool" where
  "keepsHeader c \<longleftrightarrow> ch_loading c \<or> ch_tocOpen c \<or> ch_bookmarksOpen c \<or> ch_shortcutsOpen c \<or> ch_themeSettingsOpen c"

definition syncChromeState :: "chromeState \<Rightarrow> chrome \<Rightarrow> chrome" where
  "syncChromeState n s =
    (let previous = cr_state s;
         locate = (ch_tocOpen n \<and> ch_currentChapter n \<noteq> [] \<and>
           (\<not> ch_tocOpen previous \<or> ch_currentChapter previous \<noteq> ch_currentChapter n \<or> ch_currentChapterHref previous \<noteq> ch_currentChapterHref n)) in
     s\<lparr>cr_state := n, cr_locateFrame := cr_locateFrame s \<or> locate, cr_showFrame := cr_showFrame s \<or> keepsHeader n\<rparr>)"

definition showFrame :: "chrome \<Rightarrow> chrome" where
  "showFrame s = (if cr_showFrame s then s\<lparr>cr_showFrame := False, cr_visible := True\<rparr> else s)"

definition showHeader :: "chrome \<Rightarrow> chrome" where
  "showHeader s = s\<lparr>cr_visible := True\<rparr>"

definition hideHeader :: "chrome \<Rightarrow> chrome" where
  "hideHeader s = (if keepsHeader (cr_state s) then s else s\<lparr>cr_visible := False\<rparr>)"

datatype chromeEvent = Sync chromeState | ShowFrame | ShowHeader | HideHeader

fun chrome_step :: "chromeEvent \<Rightarrow> chrome \<Rightarrow> chrome" where
  "chrome_step (Sync n) s = syncChromeState n s"
| "chrome_step ShowFrame s = showFrame s"
| "chrome_step ShowHeader s = showHeader s"
| "chrome_step HideHeader s = hideHeader s"

text \<open>While a sheet is open or the book is loading, the header is visible or about to be.\<close>

lemma header_reachable:
  "let s = fold chrome_step es useReaderChrome in keepsHeader (cr_state s) \<longrightarrow> cr_visible s \<or> cr_showFrame s"
proof -
  have "keepsHeader (cr_state s) \<longrightarrow> cr_visible s \<or> cr_showFrame s \<Longrightarrow>
    keepsHeader (cr_state (fold chrome_step es s)) \<longrightarrow> cr_visible (fold chrome_step es s) \<or> cr_showFrame (fold chrome_step es s)" for s
  proof (induction es arbitrary: s)
    case (Cons e es)
    have "keepsHeader (cr_state (chrome_step e s)) \<longrightarrow> cr_visible (chrome_step e s) \<or> cr_showFrame (chrome_step e s)"
      using Cons.prems by (cases e) (auto simp: syncChromeState_def showFrame_def showHeader_def hideHeader_def Let_def)
    then show ?case using Cons.IH by simp
  qed simp
  then show ?thesis by (simp add: useReaderChrome_def Let_def)
qed

end
