(* ===== verification/Spec2Isabelle.thy ===== *)
theory Spec2Isabelle
  imports Lru_Cache Tts_Request Api Book_Download Shared_Download Offline_Books Tts_Preload Tts_Timing Tts_Playback
    Cover_Urls Reading_Progress Shelf_View Shelf_Upload Shelf_Data Book_Preview Speech_Buffer
    Narration_Order Speech_Markup Tts_Session Tts_Support Service_Worker Cfi_Dom
    Auth_Session Reader_View Image_Zoom Shelf_Grid Wake_Lock
    Reader_Theme Reader_Tools
begin

text \<open>
  Verification of the frontend of z-reader (\<^verbatim>\<open>src/frontend/src\<close>), an e-book reader with narration.

  \<^bold>\<open>The program.\<close> The browser client keeps a shelf of books (\<^verbatim>\<open>hooks/useShelfData.ts\<close>,
  \<^verbatim>\<open>hooks/useCoverUrl.ts\<close>), downloads and stores books for offline use (\<^verbatim>\<open>lib/book-download.ts\<close>,
  \<^verbatim>\<open>lib/shared-book-download.ts\<close>, \<^verbatim>\<open>lib/offline-books.ts\<close>), keeps the reading position
  (\<^verbatim>\<open>hooks/useProgress.ts\<close>), repairs nested EPUB archives before they are opened (\<^verbatim>\<open>lib/book-preview.ts\<close>),
  and reads books aloud (\<^verbatim>\<open>lib/tts-batch.ts\<close>, \<^verbatim>\<open>lib/tts.ts\<close>, \<^verbatim>\<open>lib/tts-request.ts\<close>,
  \<^verbatim>\<open>lib/tts-audio-focus.ts\<close>). All of these talk to the Go service through \<^verbatim>\<open>lib/api.ts\<close> and
  \<^verbatim>\<open>lib/config.ts\<close>.

  \<^bold>\<open>Conventions.\<close> The theory \<open>Prelude\<close> says how JavaScript values are represented. Asynchronous code is cut
  at its \<^verbatim>\<open>await\<close>s: an operation runs atomically up to the next one, leaves what its closure captured as
  an entry of the state, and the answer is an event of its own. Theorems quantify over all sequences of
  events, so answers come in any order and arbitrarily late. What the network, the storage and the media
  element do is an argument of the operations or of the events. Loops are recursive functions with
  termination proofs; where a retry loop is bounded in the source, the bound is the fuel of the model.

  \<^bold>\<open>Theories and sources.\<close>
  \<^item> \<open>Prelude\<close>, \<open>Js_Number\<close>, \<open>Uri_Component\<close>: strings, numbers, the insertion-ordered \<^verbatim>\<open>Map\<close>, number parsing
    and \<^verbatim>\<open>encodeURIComponent\<close>; the contract \<open>resource_cache\<close> of a bounded cache whose entries own a resource
    (interpreted by \<open>Lru_Cache\<close> and \<open>Cover_Urls\<close>).
  \<^item> \<open>Api_Types\<close>, \<open>Api\<close>: \<^verbatim>\<open>lib/api.ts\<close>, \<^verbatim>\<open>lib/config.ts\<close>. Fall-back over the candidate servers, normalised
    errors, the session, polling of the book state, and uploads.
  \<^item> \<open>Offline_Books\<close>: \<^verbatim>\<open>lib/offline-books.ts\<close>. Crash safety of partial downloads for every point at which the
    storage may fail, isolation of accounts, round trip of offline copies (C9, C10).
  \<^item> \<open>Book_Download\<close>: \<^verbatim>\<open>lib/book-download.ts\<close>. Resumed and full downloads deliver exactly the file, with
    bounded requests, and offline copies are used only when current (C13--C15).
  \<^item> \<open>Shared_Download\<close>: \<^verbatim>\<open>lib/shared-book-download.ts\<close>. One transfer per book, aborted exactly when nobody
    watches it (C11, C12).
  \<^item> \<open>Lru_Cache\<close>, \<open>Tts_Request\<close>, \<open>Tts_Timing\<close>, \<open>Tts_Preload\<close>, \<open>Audio_Focus\<close>, \<open>Ssml_Text\<close>, \<open>Tts_Playback\<close>: \<^verbatim>\<open>lib/tts.ts\<close>,
    \<^verbatim>\<open>lib/tts-request.ts\<close> and \<^verbatim>\<open>lib/tts-audio-focus.ts\<close>. The cache keeps the most recent audio and releases the
    rest once (C7); retries are bounded and classified (C8); the highlighted mark is the one the
    playback position lies in; cool-downs are respected; prefetching is bounded (C16); and on
    top of these, the player: pause and stop are final (C24), and what is heard is the text of the latest
    command (C25).
  \<^item> \<open>Cover_Urls\<close>: \<^verbatim>\<open>hooks/useCoverUrl.ts\<close>. Bounded downloads and cache, object URLs released once, and no
    waiting download starves (C17, C18).
  \<^item> \<open>Reading_Progress\<close>: \<^verbatim>\<open>hooks/useProgress.ts\<close>. Offline positions survive and are sent in order, conflicts
    are resolved by the server, the newest position wins (C19--C21).
  \<^item> \<open>Shelf_View\<close>, \<open>Shelf_Upload\<close>, \<open>Shelf_Data\<close>: \<^verbatim>\<open>hooks/useShelfData.ts\<close>. Merging of pages equals its
    specification, counts agree with filters, renaming keeps totals, the upload pool uploads
    every file once (C22), and late answers of one account are never shown to another (C23), by the contract
    \<open>generation_guard\<close> interpreted for the three generation counters of the hook.
  \<^item> \<open>Stored_Zip\<close>, \<open>Book_Preview\<close>: \<^verbatim>\<open>lib/book-preview.ts\<close>. The checksum table computes CRC-32 (C26), a
    standard reader finds in a written archive what was put in (C27), and a rewritten EPUB has the standard
    layout without losing files (C28). zip.js and the EPUB engine are arguments.
  \<^item> \<open>Speech_Slices\<close>, \<open>Speech_Buffer\<close>: \<^verbatim>\<open>lib/tts-batch.ts\<close>. A slice of speech markup has exactly the text
    between its offsets (C29), and cutting sentences into slices ends and leaves nothing out (C30). The
    guards \<open>position < high\<close> and \<open>0 < high\<close> of the search loops hold at every call; they are there because
    the recursion would not be total without them. The error \<open>Stuck\<close> stands for a cut that makes no
    progress, which C30 excludes.

  \<^item> \<open>Narration\<close>, \<open>Narration_Order\<close>: \<^verbatim>\<open>hooks/useTTS.ts\<close>, \<^verbatim>\<open>hooks/useTTSSleepTimer.ts\<close>,
    \<^verbatim>\<open>hooks/useTTSForegroundResume.ts\<close>, \<^verbatim>\<open>hooks/useTTSResumePrompt.ts\<close>. The hook that takes chunks from the
    speech buffer and hands them to the player. What it hands over is what an abstract reader reads that
    leaves nothing out (C1), where the chunks come from a source with the contract
    \<open>chunk_source\<close>, interpreted for \<open>readChunk\<close> of \<open>Speech_Buffer\<close>; and a pause or stop is final
    (C2). The first of these has conditions on the player, and \<open>fill_during_jump_skips_text\<close> shows
    what happens without them.

  \<^item> \<open>Js_Regex\<close>, \<open>Speech_Text\<close>, \<open>Speech_Markup\<close>: \<^verbatim>\<open>lib/tts-text.ts\<close> and the markup of \<^verbatim>\<open>lib/tts.ts\<close>. A
    backtracking matcher for the regular expressions of the source, the pauses a text gets (C31: breaks
    are added and nothing else changes), the request to the speech service, and the texts that
    are not read. \<open>speechTools\<close> instantiates the tools that \<open>Speech_Buffer\<close> takes as an argument.
    Tables of Unicode, the XML parser and the serialiser of the browser are arguments.
  \<^item> \<open>Tts_Session\<close>: \<^verbatim>\<open>hooks/useTTSSession.ts\<close>. The throttled store of the narration's position refines a map from
    books to positions (C32).
  \<^item> \<open>Tts_Support\<close>: \<^verbatim>\<open>lib/tts-queue.ts\<close>, \<^verbatim>\<open>lib/tts-diagnostics.ts\<close> and the list of voices. The queue has no
    sentence twice, and diagnostics contain no text of a book.
  \<^item> \<open>Service_Worker\<close>: \<^verbatim>\<open>public/sw.js\<close>, on the Cache Storage of \<open>Offline_Books\<close>. It keeps no answer of the service
    (C33); \<open>activate_deletes_offline_books\<close> shows what it does to the books of the accounts.

  \<^item> \<open>Epub_Cfi\<close>, \<open>Cfi_Dom\<close>: \<^verbatim>\<open>public/foliate/epubcfi.js\<close> and its use in \<^verbatim>\<open>view.js\<close>, the identifiers in which reading
    positions, bookmarks and sentences are stored. Parsing inverts printing (C4) and returns well-formed
    parts (C6), comparing is the order of the book (C5), and a place in a
    document is found again from its identifier (C3).

  \<^item> \<open>Auth_Session\<close>: \<^verbatim>\<open>hooks/useAuth.ts\<close>, on top of \<open>Api\<close>, \<open>Offline_Books\<close> and \<open>Cover_Urls\<close>. However a session ends, nothing
    of the account stays in the browser (C34); \<open>offline_start_deletes_books\<close> shows that a start without
    network counts as such an end.
  \<^item> \<open>Reader_View\<close>: \<^verbatim>\<open>hooks/useFoliateView.ts\<close>. Loading of the engine and of a book, as runs that wait at every
    \<^verbatim>\<open>await\<close>. Leaving the reader is final (C35), the loading screen ends with the book or with an
    error (C36); \<open>stale_run_shows_error\<close> shows how a run for one book can report to the next.

  \<^item> \<open>Image_Zoom\<close>: \<^verbatim>\<open>hooks/useReaderImageZoom.ts\<close> and its overlay. The zoom stays within its limits, and what lies under
    the fingers stays there (C39); \<open>double_click_zoom\<close> shows that a slow double click has no effect.
  \<^item> \<open>Shelf_Grid\<close>: \<^verbatim>\<open>lib/shelf-grid.ts\<close>, \<^verbatim>\<open>components/VirtualBookGrid.tsx\<close>. The rows of the shelf contain every book once
    (C38), and pages are asked for one at a time; \<open>fast_page_not_followed\<close> shows where that stops.
  \<^item> \<open>Wake_Lock\<close>: \<^verbatim>\<open>hooks/useWakeLock.ts\<close>. At most one lock of the screen, and none after a release (C37).

  \<^item> \<open>Reader_Theme\<close>: \<^verbatim>\<open>hooks/useReaderTheme.ts\<close>, \<^verbatim>\<open>hooks/useShelfTheme.ts\<close>. Settings stay within their limits whatever is
    stored, and the reader and the shelf read what either writes (C40).
  \<^item> \<open>Reader_Tools\<close>: \<^verbatim>\<open>hooks/useReaderBookmarks.ts\<close>, \<^verbatim>\<open>hooks/useReaderControls.ts\<close>, \<^verbatim>\<open>hooks/useReaderChrome.ts\<close>. No second
    bookmark at a place, swipes and keys, and a header that is reachable while a sheet is open.

  \<^bold>\<open>Not modelled.\<close> React rendering, components apart from the grid and the image overlay, style sheets, the rest of the vendored EPUB and PDF engines (parsing of book formats, pagination), the Go service, and
  build and deployment files. Rounding of doubles is not modelled; metrics and logging are left out.
\<close>

end
